(* ===== verification/Prelude.thy ===== *)
theory Prelude
  imports Main "HOL-Library.Word"
begin

text \<open>
  Shared ground of the development: the machine types of the code, the result
  type of its fallible operations, byte slices, and little-endian integers.

  Rust's \<open>u8\<close>, \<open>u16\<close>, \<open>u32\<close>, \<open>u64\<close> are words of their width, so \<open>+\<close>, \<open>-\<close> and
  \<open>*\<close> wrap around as they do in the release profile of the workspace (no
  \<open>overflow-checks\<close>); a \<open>usize\<close> that counts elements of a vector is a \<open>nat\<close>.
  A \<open>Vec<u8>\<close>, a slice and a fixed-size array are byte lists; the length that a
  Rust array type fixes is a conjunct of the well-formedness predicate of the
  record that holds it.  A fallible operation returns \<open>'e + 'a\<close> with \<open>Inl\<close> for
  \<open>Err\<close> and \<open>Inr\<close> for \<open>Ok\<close>, and \<open>res_bind\<close> is the \<open>?\<close> operator.
\<close>

section \<open>Machine types\<close>

type_synonym u8 = "8 word"
type_synonym u16 = "16 word"
type_synonym u32 = "32 word"
type_synonym u64 = "64 word"
type_synonym bytes = "8 word list"

named_theorems bytes_simps \<open>rewriting of byte slices and fixed-width encodings\<close>
named_theorems bytes_len \<open>lengths of encodings\<close>

section \<open>Results\<close>

definition res_bind :: "'e + 'a \<Rightarrow> ('a \<Rightarrow> 'e + 'b) \<Rightarrow> 'e + 'b" where
  "res_bind m f = (case m of Inl e \<Rightarrow> Inl e | Inr x \<Rightarrow> f x)"

lemma res_bind_simps [simp]:
  "res_bind (Inl e) f = Inl e"
  "res_bind (Inr x) f = f x"
  by (simp_all add: res_bind_def)

lemma res_bind_eq_Inr:
  "res_bind m f = Inr y \<longleftrightarrow> (\<exists>x. m = Inr x \<and> f x = Inr y)"
  by (cases m) auto

lemma res_bind_eq_Inl:
  "res_bind m f = Inl e \<longleftrightarrow> m = Inl e \<or> (\<exists>x. m = Inr x \<and> f x = Inl e)"
  by (cases m) auto

lemma res_bindE:
  assumes "res_bind m f = Inr y"
  obtains x where "m = Inr x" "f x = Inr y"
  using assms by (auto simp: res_bind_eq_Inr)

lemma res_bind_assoc: "res_bind (res_bind m f) g = res_bind m (\<lambda>x. res_bind (f x) g)"
  by (cases m) auto

lemma res_bind_cong [fundef_cong]:
  "m = m' \<Longrightarrow> (\<And>x. m' = Inr x \<Longrightarrow> f x = f' x) \<Longrightarrow> res_bind m f = res_bind m' f'"
  by (cases m') auto

text \<open>A guard that fails with \<open>e\<close>: \<open>if c { return Err(e) }\<close>.\<close>

definition fail_if :: "bool \<Rightarrow> 'e \<Rightarrow> 'e + unit" where
  "fail_if c e = (if c then Inl e else Inr ())"

lemma fail_if_simps [simp]:
  "fail_if True e = Inl e"
  "fail_if False e = Inr ()"
  by (simp_all add: fail_if_def)

lemma fail_if_eq_Inr [simp]: "fail_if c e = Inr u \<longleftrightarrow> \<not> c"
  by (simp add: fail_if_def)

lemma fail_if_eq_Inl [simp]: "fail_if c e = Inl e' \<longleftrightarrow> c \<and> e = e'"
  by (auto simp: fail_if_def)

definition is_ok :: "'e + 'a \<Rightarrow> bool" where
  "is_ok r = (case r of Inl _ \<Rightarrow> False | Inr _ \<Rightarrow> True)"

lemma is_ok_simps [simp]: "is_ok (Inl e) = False" "is_ok (Inr x) = True"
  by (simp_all add: is_ok_def)

lemma is_ok_iff: "is_ok r \<longleftrightarrow> (\<exists>x. r = Inr x)"
  by (cases r) auto

section \<open>Slices\<close>

text \<open>\<open>bytes[i..j]\<close>, and \<open>bytes[i..i + n].copy_from_slice(ys)\<close> for \<open>n = ys.len()\<close>.\<close>

definition slice :: "nat \<Rightarrow> nat \<Rightarrow> 'a list \<Rightarrow> 'a list" where
  "slice i j xs = take (j - i) (drop i xs)"

definition overwrite :: "nat \<Rightarrow> 'a list \<Rightarrow> 'a list \<Rightarrow> 'a list" where
  "overwrite i ys xs = take i xs @ ys @ drop (i + length ys) xs"

lemma length_slice [simp]: "length (slice i j xs) = min (j - i) (length xs - i)"
  by (simp add: slice_def min.commute)

lemma length_overwrite [simp]:
  "i + length ys \<le> length xs \<Longrightarrow> length (overwrite i ys xs) = length xs"
  by (simp add: overwrite_def)

lemma slice_all [simp]: "slice 0 (length xs) xs = xs"
  by (simp add: slice_def)

lemma slice_append_left [bytes_simps]:
  "j \<le> length xs \<Longrightarrow> slice i j (xs @ ys) = slice i j xs"
  by (simp add: slice_def)

lemma slice_append_right [bytes_simps]:
  "length xs \<le> i \<Longrightarrow> slice i j (xs @ ys) = slice (i - length xs) (j - length xs) ys"
  by (simp add: slice_def)

lemma slice_whole [bytes_simps]: "i = 0 \<Longrightarrow> length xs \<le> j \<Longrightarrow> slice i j xs = xs"
  by (simp add: slice_def)

lemma drop_append_right [bytes_simps]:
  "length xs \<le> i \<Longrightarrow> drop i (xs @ ys) = drop (i - length xs) ys"
  by simp

lemma slice_join: "i \<le> j \<Longrightarrow> j \<le> k \<Longrightarrow> slice i j xs @ slice j k xs = slice i k xs"
proof -
  assume "i \<le> j" "j \<le> k"
  then have "slice i k xs = take ((j - i) + (k - j)) (drop i xs)" by (simp add: slice_def)
  also have "\<dots> = take (j - i) (drop i xs) @ take (k - j) (drop (j - i) (drop i xs))"
    by (rule take_add)
  finally show ?thesis using \<open>i \<le> j\<close> by (simp add: slice_def)
qed

lemma slice_overwrite_same [bytes_simps]:
  "length ys = j - i \<Longrightarrow> i \<le> length xs \<Longrightarrow> slice i j (overwrite i ys xs) = ys"
  by (simp add: slice_def overwrite_def)

lemma take_overwrite_before [bytes_simps]:
  "n \<le> i \<Longrightarrow> i \<le> length xs \<Longrightarrow> take n (overwrite i ys xs) = take n xs"
  by (simp add: overwrite_def min_absorb1)

lemma slice_overwrite_before:
  "j \<le> i \<Longrightarrow> i \<le> length xs \<Longrightarrow> slice k j (overwrite i ys xs) = slice k j xs"
  by (simp add: slice_def overwrite_def take_drop min_def)

text \<open>
  Filling a zeroed buffer front to back: each write at the end of the filled
  prefix extends the prefix.
\<close>

definition zero_filled :: "'a::zero list \<Rightarrow> nat \<Rightarrow> 'a list" where
  "zero_filled p n = p @ replicate n 0"

lemma zero_filled_Nil: "replicate n 0 = zero_filled [] n"
  by (simp add: zero_filled_def)

lemma overwrite_zero_filled:
  assumes "i = length p" and "length ys \<le> n"
  shows "overwrite i ys (zero_filled p n) = zero_filled (p @ ys) (n - length ys)"
  using assms by (simp add: overwrite_def zero_filled_def)

lemma overwrite_zero_filled_gap:
  assumes "i = length p + k" and "k + length ys \<le> n"
  shows "overwrite i ys (zero_filled p n)
    = zero_filled (p @ replicate k 0 @ ys) (n - k - length ys)"
proof -
  have "take k (replicate n (0::'a)) = replicate k 0"
    using assms by (simp add: min_absorb1)
  then show ?thesis
    using assms by (simp add: overwrite_def zero_filled_def)
qed

section \<open>Little-endian integers\<close>

fun nat_le_bytes :: "nat \<Rightarrow> nat \<Rightarrow> bytes" where
  "nat_le_bytes 0 v = []"
| "nat_le_bytes (Suc n) v = word_of_nat (v mod 256) # nat_le_bytes n (v div 256)"

fun nat_of_le :: "bytes \<Rightarrow> nat" where
  "nat_of_le [] = 0"
| "nat_of_le (b # bs) = unat b + 256 * nat_of_le bs"

lemma length_nat_le_bytes [simp, bytes_len]: "length (nat_le_bytes n v) = n"
  by (induction n arbitrary: v) auto

lemma unat_less_width [simp]:
  "unat (a :: u8) < 256"
  "unat (b :: u16) < 65536"
  "unat (c :: u32) < 4294967296"
  "unat (d :: u64) < 18446744073709551616"
proof -
  have "unat (w :: 'a::len word) < 2 ^ LENGTH('a)" for w by (rule unsigned_less)
  from this [of a] this [of b] this [of c] this [of d] show
    "unat a < 256" "unat b < 65536" "unat c < 4294967296" "unat d < 18446744073709551616"
    by simp_all
qed

lemma word_of_unat [simp]: "word_of_nat (unat (w :: 'a::len word)) = w"
  by (simp add: ucast_id)

lemma nat_of_le_bytes: "nat_of_le (nat_le_bytes n v) = v mod 256 ^ n"
proof (induction n arbitrary: v)
  case 0
  then show ?case by simp
next
  case (Suc n)
  have "unat (word_of_nat (v mod 256) :: u8) = v mod 256"
    by (simp add: unat_of_nat)
  then show ?case
    using Suc by (simp add: mod_mult2_eq)
qed

lemma nat_of_le_less: "nat_of_le bs < 256 ^ length bs"
proof (induction bs)
  case Nil
  then show ?case by simp
next
  case (Cons b bs)
  have "nat_of_le bs + 1 \<le> 256 ^ length bs" using Cons by simp
  then have "256 * (nat_of_le bs + 1) \<le> 256 * 256 ^ length bs" by simp
  then show ?case using unat_less_width(1) [of b] by (simp del: unat_less_width)
qed

lemma nat_le_bytes_of_le: "nat_le_bytes (length bs) (nat_of_le bs) = bs"
  proof (induction bs)
  case Nil
  then show ?case by simp
next
  case (Cons b bs)
  have "(unat b + 256 * nat_of_le bs) mod 256 = unat b"
    and "(unat b + 256 * nat_of_le bs) div 256 = nat_of_le bs"
    using unat_less_width(1) [of b] by simp_all
  with Cons show ?case by (simp only: list.size nat_le_bytes.simps nat_of_le.simps add_Suc_right
      add_0_right word_of_unat)
qed

lemma nat_le_bytes_of_le': "length bs = n \<Longrightarrow> nat_le_bytes n (nat_of_le bs) = bs"
  using nat_le_bytes_of_le by blast

definition u16_to_le_bytes :: "u16 \<Rightarrow> bytes" where
  "u16_to_le_bytes v = nat_le_bytes 2 (unat v)"

definition u32_to_le_bytes :: "u32 \<Rightarrow> bytes" where
  "u32_to_le_bytes v = nat_le_bytes 4 (unat v)"

definition u64_to_le_bytes :: "u64 \<Rightarrow> bytes" where
  "u64_to_le_bytes v = nat_le_bytes 8 (unat v)"

definition u16_from_le_bytes :: "bytes \<Rightarrow> u16" where
  "u16_from_le_bytes bs = word_of_nat (nat_of_le bs)"

definition u32_from_le_bytes :: "bytes \<Rightarrow> u32" where
  "u32_from_le_bytes bs = word_of_nat (nat_of_le bs)"

definition u64_from_le_bytes :: "bytes \<Rightarrow> u64" where
  "u64_from_le_bytes bs = word_of_nat (nat_of_le bs)"

lemma length_le_bytes [simp, bytes_len]:
  "length (u16_to_le_bytes a) = 2"
  "length (u32_to_le_bytes b) = 4"
  "length (u64_to_le_bytes c) = 8"
  by (simp_all add: u16_to_le_bytes_def u32_to_le_bytes_def u64_to_le_bytes_def)

lemma from_to_le_bytes [simp]:
  "u16_from_le_bytes (u16_to_le_bytes a) = a"
  "u32_from_le_bytes (u32_to_le_bytes b) = b"
  "u64_from_le_bytes (u64_to_le_bytes c) = c"
  by (simp_all add: u16_from_le_bytes_def u16_to_le_bytes_def u32_from_le_bytes_def
      u32_to_le_bytes_def u64_from_le_bytes_def u64_to_le_bytes_def nat_of_le_bytes)

lemma unat_from_le_bytes:
  "length bs = 2 \<Longrightarrow> unat (u16_from_le_bytes bs) = nat_of_le bs"
  "length bs = 4 \<Longrightarrow> unat (u32_from_le_bytes bs) = nat_of_le bs"
  "length bs = 8 \<Longrightarrow> unat (u64_from_le_bytes bs) = nat_of_le bs"
  using nat_of_le_less [of bs]
  by (simp_all add: u16_from_le_bytes_def u32_from_le_bytes_def u64_from_le_bytes_def
      unat_of_nat)

lemma to_from_le_bytes:
  "length bs = 2 \<Longrightarrow> u16_to_le_bytes (u16_from_le_bytes bs) = bs"
  "length bs = 4 \<Longrightarrow> u32_to_le_bytes (u32_from_le_bytes bs) = bs"
  "length bs = 8 \<Longrightarrow> u64_to_le_bytes (u64_from_le_bytes bs) = bs"
  by (simp_all add: u16_to_le_bytes_def u32_to_le_bytes_def u64_to_le_bytes_def
      unat_from_le_bytes nat_le_bytes_of_le')

lemma le_bytes_inject [simp]:
  "u16_to_le_bytes a = u16_to_le_bytes a' \<longleftrightarrow> a = a'"
  "u32_to_le_bytes b = u32_to_le_bytes b' \<longleftrightarrow> b = b'"
  "u64_to_le_bytes c = u64_to_le_bytes c' \<longleftrightarrow> c = c'"
  by (metis from_to_le_bytes)+

section \<open>Checked and saturating arithmetic\<close>

definition checked_add_u64 :: "u64 \<Rightarrow> u64 \<Rightarrow> u64 option" where
  "checked_add_u64 a b = (if unat a + unat b < 2 ^ 64 then Some (a + b) else None)"

definition saturating_add_u64 :: "u64 \<Rightarrow> u64 \<Rightarrow> u64" where
  "saturating_add_u64 a b = (if unat a + unat b < 2 ^ 64 then a + b else - 1)"

definition saturating_sub_u64 :: "u64 \<Rightarrow> u64 \<Rightarrow> u64" where
  "saturating_sub_u64 a b = (if a < b then 0 else a - b)"

text \<open>\<open>a.div_ceil(b)\<close> of the unsigned types; the code never divides by zero here.\<close>

definition div_ceil_u64 :: "u64 \<Rightarrow> u64 \<Rightarrow> u64" where
  "div_ceil_u64 a b = (if a mod b = 0 then a div b else a div b + 1)"

lemma unat_add_u64: "unat a + unat b < 2 ^ 64 \<Longrightarrow> unat (a + b :: u64) = unat a + unat b"
  by (simp add: unat_word_ariths)

lemma checked_add_u64_Some:
  "checked_add_u64 a b = Some c \<longleftrightarrow> unat c = unat a + unat b"
proof
  assume "checked_add_u64 a b = Some c"
  then show "unat c = unat a + unat b"
    by (auto simp: checked_add_u64_def unat_add_u64 split: if_splits)
next
  assume c: "unat c = unat a + unat b"
  then have lt: "unat a + unat b < 2 ^ 64"
    by (simp flip: c)
  then have "unat (a + b) = unat c" using c by (simp add: unat_add_u64)
  with lt show "checked_add_u64 a b = Some c"
    by (simp add: checked_add_u64_def word_unat_eq_iff)
qed

lemma checked_add_u64_None: "checked_add_u64 a b = None \<longleftrightarrow> 2 ^ 64 \<le> unat a + unat b"
  by (simp add: checked_add_u64_def not_less)

lemma unat_saturating_add_u64:
  "unat (saturating_add_u64 a b) = min (unat a + unat b) (2 ^ 64 - 1)"
proof (cases "unat a + unat b < 2 ^ 64")
  case True
  then show ?thesis by (simp add: saturating_add_u64_def unat_add_u64)
next
  case False
  have "unat (- 1 :: u64) = 2 ^ 64 - 1"
    by (simp add: unsigned_minus_1_eq_mask mask_eq_exp_minus_1)
  with False show ?thesis by (simp add: saturating_add_u64_def)
qed

lemma unat_saturating_sub_u64: "unat (saturating_sub_u64 a b) = unat a - unat b"
proof (cases "a < b")
  case True
  then show ?thesis by (simp add: saturating_sub_u64_def word_less_nat_alt)
next
  case False
  then have "b \<le> a" by simp
  then show ?thesis
    using False by (simp add: saturating_sub_u64_def unat_sub)
qed

lemma unat_of_nat_u64: "n < 2 ^ 64 \<Longrightarrow> unat (word_of_nat n :: u64) = n"
  by (simp add: unat_of_nat)

lemma le_unat_u64: "n \<le> unat (x :: u64) \<Longrightarrow> n < 2 ^ 64"
proof -
  assume "n \<le> unat x"
  then have "n < 18446744073709551616" by (rule le_less_trans [OF _ unat_less_width(4)])
  then show ?thesis by simp
qed

text \<open>The decimal digits of a number, as \<open>format!\<close> prints it.\<close>

fun decimal :: "nat \<Rightarrow> string" where
  "decimal n = (if n < 10 then [char_of (48 + n)] else decimal (n div 10) @ [char_of (48 + n mod 10)])"

declare decimal.simps [simp del]

lemma unat_succ_u64: "e < x \<Longrightarrow> unat (e + 1 :: u64) = unat e + 1"
proof -
  assume "e < x"
  then have "unat e < unat x" by (simp add: word_less_nat_alt)
  then have "unat e + unat (1 :: u64) \<le> unat x" by simp
  then show ?thesis using unat_add_u64 [OF le_unat_u64] by fastforce
qed

lemma less_max_u64: "e \<noteq> - 1 \<Longrightarrow> e < (- 1 :: u64)"
  by (simp add: word_order.not_eq_extremum)

lemma unat_of_nat_u32: "n < 2 ^ 32 \<Longrightarrow> unat (word_of_nat n :: u32) = n"
  by (simp add: unat_of_nat)

lemma unat_of_nat_u16: "n < 2 ^ 16 \<Longrightarrow> unat (word_of_nat n :: u16) = n"
  by (simp add: unat_of_nat)

lemma unat_ucast_u64 [simp]:
  "unat (ucast (a :: u32) :: u64) = unat a"
  "unat (ucast (b :: u16) :: u64) = unat b"
proof -
  have "unat a < 2 ^ 64" by (rule less_trans [OF unat_less_width(3)]) simp
  moreover have "unat b < 2 ^ 64" by (rule less_trans [OF unat_less_width(2)]) simp
  ultimately show "unat (ucast a :: u64) = unat a" "unat (ucast b :: u64) = unat b"
    by (simp_all add: unsigned_ucast_eq take_bit_nat_eq_self)
qed

section \<open>Fallible operations on a state\<close>

text \<open>An operation that also changes a state keeps the state when it fails.\<close>

definition st_bind :: "('e + 'a) \<times> 's \<Rightarrow> ('a \<Rightarrow> 's \<Rightarrow> ('e + 'b) \<times> 's) \<Rightarrow> ('e + 'b) \<times> 's" where
  "st_bind m f = (case m of (Inl e, s) \<Rightarrow> (Inl e, s) | (Inr x, s) \<Rightarrow> f x s)"

lemma st_bind_simps [simp]:
  "st_bind (Inl e, s) f = (Inl e, s)"
  "st_bind (Inr x, s) f = f x s"
  by (simp_all add: st_bind_def)

lemma st_bind_cong [fundef_cong]:
  "m = m' \<Longrightarrow> (\<And>x s. m' = (Inr x, s) \<Longrightarrow> f x s = f' x s) \<Longrightarrow> st_bind m f = st_bind m' f'"
  by (auto simp: st_bind_def split: prod.splits sum.splits)

text \<open>A relation between the states before and after that both steps keep is kept by their sequence.\<close>

lemma st_bind_rel:
  assumes "R s (snd m)" "\<And>x s1. m = (Inr x, s1) \<Longrightarrow> R s (snd (f x s1))"
  shows "R s (snd (st_bind m f))"
  using assms by (auto simp: st_bind_def split: prod.splits sum.splits)

section \<open>Splitting strings\<close>

fun split_on :: "'a \<Rightarrow> 'a list \<Rightarrow> 'a list list" where
  "split_on c [] = [[]]"
| "split_on c (x # xs) =
     (if x = c then [] # split_on c xs
      else (case split_on c xs of [] \<Rightarrow> [[x]] | y # ys \<Rightarrow> (x # y) # ys))"

lemma split_on_not_Nil [simp]: "split_on c xs \<noteq> []"
  by (cases xs) (auto split: list.splits)

text \<open>\<open>str::contains\<close> and \<open>str::strip_prefix\<close>.\<close>

definition contains :: "'a list \<Rightarrow> 'a list \<Rightarrow> bool" where
  "contains s t \<longleftrightarrow> list_ex (\<lambda>i. take (length t) (drop i s) = t) [0..<Suc (length s)]"

definition strip_prefix :: "'a list \<Rightarrow> 'a list \<Rightarrow> 'a list option" where
  "strip_prefix p s = (if take (length p) s = p then Some (drop (length p) s) else None)"

definition ends_with :: "'a list \<Rightarrow> 'a list \<Rightarrow> bool" where
  "ends_with suffix xs \<longleftrightarrow> length suffix \<le> length xs \<and> drop (length xs - length suffix) xs = suffix"

lemma ends_with_append [simp]: "ends_with suffix (xs @ suffix)"
  by (simp add: ends_with_def)

lemma ends_with_iff: "ends_with suffix xs \<longleftrightarrow> (\<exists>ys. xs = ys @ suffix)"
proof
  assume "ends_with suffix xs"
  then have "xs = take (length xs - length suffix) xs @ suffix"
    by (metis append_take_drop_id ends_with_def)
  then show "\<exists>ys. xs = ys @ suffix" by blast
qed auto

text \<open>The maximal element by a key; of several, the last, as \<open>Iterator::max_by_key\<close> has it.\<close>

fun max_by_key :: "('a \<Rightarrow> 'k::linorder) \<Rightarrow> 'a list \<Rightarrow> 'a option" where
  "max_by_key f [] = None"
| "max_by_key f (x # xs) =
     (case max_by_key f xs of None \<Rightarrow> Some x | Some y \<Rightarrow> Some (if f x > f y then x else y))"

lemma max_by_key_None [simp]: "max_by_key f xs = None \<longleftrightarrow> xs = []"
  by (cases xs) (auto split: option.splits)

lemma max_by_key_SomeD:
  "max_by_key f xs = Some m \<Longrightarrow> m \<in> set xs \<and> (\<forall>x \<in> set xs. f x \<le> f m)"
proof (induction xs arbitrary: m)
  case (Cons x xs)
  show ?case
  proof (cases "max_by_key f xs")
    case None
    then show ?thesis using Cons.prems by simp
  next
    case (Some y)
    then show ?thesis using Cons.prems Cons.IH [OF Some] by (auto split: if_splits)
  qed
qed simp

end
