(* ===== verification/Core_Types.thy ===== *)
theory Core_Types
  imports Prelude "HOL-Library.Char_ord" "HOL-Library.List_Lexorder"
begin

text \<open>
  The vocabulary of \<open>crates/lr-core\<close>: the typed error of every crate
  (\<open>error.rs\<close>), 16-byte identifiers and their textual form (\<open>ids.rs\<close>), the
  consistency levels (\<open>consistency.rs\<close>), image kinds (\<open>lib.rs\<close>), device geometry
  (\<open>geometry.rs\<close>) and the names of backup sets and jobs (\<open>names.rs\<close>).

  A Rust \<open>String\<close> is the \<^typ>\<open>string\<close> of its UTF-8 bytes (a HOL character is one
  byte).  An error keeps the constructor of the source; where the source
  interpolates values into a message, the model keeps the constant text before
  the first interpolation.
\<close>

section \<open>Errors\<close>

datatype lr_error =
    Io string
  | BadSector u64 u64
  | NoSpace
  | NetworkTimeout string
  | SnapshotOverflow
  | FreezeTimeout
  | StreamParentMissing string
  | NoConsistentMethod "string list"
  | SetLocked string
  | TargetChanged
  | TargetBusy string
  | Aead
  | Corrupt string
  | Cancelled
  | Denied string string
  | Unsupported string

type_synonym 'a res = "lr_error + 'a"

fun is_corrupt :: "lr_error \<Rightarrow> bool" where
  "is_corrupt (Corrupt _) = True"
| "is_corrupt _ = False"

section \<open>Image kinds and consistency levels\<close>

datatype image_kind = Block | Stream | File

fun image_kind_as_u8 :: "image_kind \<Rightarrow> u8" where
  "image_kind_as_u8 Block = 1"
| "image_kind_as_u8 Stream = 2"
| "image_kind_as_u8 File = 3"

definition image_kind_from_u8 :: "u8 \<Rightarrow> image_kind res" where
  "image_kind_from_u8 v =
     (if v = 1 then Inr Block else if v = 2 then Inr Stream else if v = 3 then Inr File
      else Inl (Corrupt ''unknown image kind ''))"

datatype consistency = PointInTime | Frozen | Offline | PerFile | NoneConsistency

fun strength :: "consistency \<Rightarrow> u8" where
  "strength PointInTime = 4"
| "strength Frozen = 3"
| "strength Offline = 2"
| "strength PerFile = 1"
| "strength NoneConsistency = 0"

fun consistency_minimum :: "consistency \<Rightarrow> consistency \<Rightarrow> consistency" where
  "consistency_minimum a b = (if strength a \<le> strength b then a else b)"

fun consistency_label :: "consistency \<Rightarrow> string" where
  "consistency_label PointInTime = ''point-in-time''"
| "consistency_label Frozen = ''frozen''"
| "consistency_label Offline = ''offline''"
| "consistency_label PerFile = ''per-file''"
| "consistency_label NoneConsistency = ''none (inconsistent)''"

fun consistency_as_u8 :: "consistency \<Rightarrow> u8" where
  "consistency_as_u8 PointInTime = 0"
| "consistency_as_u8 Frozen = 1"
| "consistency_as_u8 Offline = 2"
| "consistency_as_u8 PerFile = 3"
| "consistency_as_u8 NoneConsistency = 4"

definition consistency_from_u8 :: "u8 \<Rightarrow> consistency res" where
  "consistency_from_u8 v =
     (if v = 0 then Inr PointInTime else if v = 1 then Inr Frozen
      else if v = 2 then Inr Offline else if v = 3 then Inr PerFile
      else if v = 4 then Inr NoneConsistency
      else Inl (Corrupt ''unknown consistency level ''))"

lemma strength_inject [simp]: "strength a = strength b \<longleftrightarrow> a = b"
  by (cases a; cases b) simp_all

text \<open>\<open>impl Ord for Consistency\<close> compares strengths: a linear order on the levels.\<close>

instantiation consistency :: linorder
begin

definition less_eq_consistency :: "consistency \<Rightarrow> consistency \<Rightarrow> bool" where
  "less_eq_consistency a b \<longleftrightarrow> strength a \<le> strength b"

definition less_consistency :: "consistency \<Rightarrow> consistency \<Rightarrow> bool" where
  "less_consistency a b \<longleftrightarrow> strength a < strength b"

instance
  by standard
    (auto simp: less_eq_consistency_def less_consistency_def order_le_less
      simp flip: strength_inject)

end

lemma image_kind_roundtrip [simp]: "image_kind_from_u8 (image_kind_as_u8 k) = Inr k"
  by (cases k) (simp_all add: image_kind_from_u8_def)

lemma consistency_roundtrip [simp]: "consistency_from_u8 (consistency_as_u8 c) = Inr c"
  by (cases c) (simp_all add: consistency_from_u8_def)

lemma image_kind_from_u8_Inr:
  "image_kind_from_u8 v = Inr k \<longleftrightarrow> v = image_kind_as_u8 k"
  by (cases k) (auto simp: image_kind_from_u8_def split: if_splits)

lemma consistency_from_u8_Inr:
  "consistency_from_u8 v = Inr c \<longleftrightarrow> v = consistency_as_u8 c"
  by (cases c) (auto simp: consistency_from_u8_def split: if_splits)

lemma consistency_minimum_min: "consistency_minimum a b = min a b"
  by (simp add: min_def less_eq_consistency_def)

section \<open>Identifiers\<close>

type_synonym uuid = bytes

definition uuid_wf :: "uuid \<Rightarrow> bool" where
  "uuid_wf i \<longleftrightarrow> length i = 16"

definition uuid_zero :: uuid where
  "uuid_zero = replicate 16 0"

definition uuid_is_zero :: "uuid \<Rightarrow> bool" where
  "uuid_is_zero i \<longleftrightarrow> i = replicate 16 0"

lemma uuid_zero_wf [simp]: "uuid_wf uuid_zero"
  by (simp add: uuid_wf_def uuid_zero_def)

text \<open>\<open>Id::generate\<close> on the 16 bytes it read from \<open>/dev/urandom\<close>.\<close>

definition uuid_stamp_v4 :: "bytes \<Rightarrow> uuid" where
  "uuid_stamp_v4 b = (b[6 := or (and (b ! 6) 0x0f) 0x40])
       [8 := or (and (b ! 8) 0x3f) 0x80]"

definition hex_digit :: "nat \<Rightarrow> char" where
  "hex_digit n = (if n < 10 then char_of (48 + n) else char_of (87 + n))"

definition hex_byte :: "u8 \<Rightarrow> string" where
  "hex_byte b = [hex_digit (unat b div 16), hex_digit (unat b mod 16)]"

definition to_uuid_string :: "uuid \<Rightarrow> string" where
  "to_uuid_string b =
     concat (map hex_byte (slice 0 4 b)) @ ''-'' @ concat (map hex_byte (slice 4 6 b)) @ ''-''
     @ concat (map hex_byte (slice 6 8 b)) @ ''-'' @ concat (map hex_byte (slice 8 10 b)) @ ''-''
     @ concat (map hex_byte (slice 10 16 b))"

text \<open>\<open>char::to_digit(16)\<close> and \<open>u8::from_str_radix(_, 16)\<close> on a two-character
  string: one leading \<open>+\<close> is accepted, as the standard library documents.\<close>

definition hex_value :: "char \<Rightarrow> nat option" where
  "hex_value c =
     (let n = of_char c :: nat in
      if 48 \<le> n \<and> n \<le> 57 then Some (n - 48)
      else if 97 \<le> n \<and> n \<le> 102 then Some (n - 87)
      else if 65 \<le> n \<and> n \<le> 70 then Some (n - 55) else None)"

fun hex_pair :: "char \<Rightarrow> char \<Rightarrow> u8 option" where
  "hex_pair a b =
     (if a = CHR ''+'' then map_option word_of_nat (hex_value b)
      else (case (hex_value a, hex_value b) of
              (Some x, Some y) \<Rightarrow> Some (word_of_nat (16 * x + y))
            | _ \<Rightarrow> None))"

fun hex_pairs :: "string \<Rightarrow> bytes option" where
  "hex_pairs [] = Some []"
| "hex_pairs [_] = None"
| "hex_pairs (a # b # cs) =
     (case hex_pair a b of None \<Rightarrow> None | Some v \<Rightarrow> map_option ((#) v) (hex_pairs cs))"

definition is_ascii :: "string \<Rightarrow> bool" where
  "is_ascii s \<longleftrightarrow> (\<forall>c \<in> set s. (of_char c :: nat) < 128)"

definition uuid_from_str :: "string \<Rightarrow> uuid res" where
  "uuid_from_str s =
     (let hex = filter (\<lambda>c. c \<noteq> CHR ''-'') s in
      if length hex \<noteq> 32 \<or> \<not> is_ascii hex then Inl (Corrupt ''identifier '')
      else (case hex_pairs hex of None \<Rightarrow> Inl (Corrupt ''identifier '') | Some b \<Rightarrow> Inr b))"

lemma of_char_hex_digit: "n < 16 \<Longrightarrow> (of_char (hex_digit n) :: nat) = (if n < 10 then 48 + n else 87 + n)"
  by (simp add: hex_digit_def)

lemma hex_value_digit [simp]: "n < 16 \<Longrightarrow> hex_value (hex_digit n) = Some n"
  by (simp add: hex_value_def of_char_hex_digit)

lemma hex_digit_not_special:
  assumes "n < 16"
  shows "hex_digit n \<noteq> CHR ''-''" and "hex_digit n \<noteq> CHR ''+''"
    and "(of_char (hex_digit n) :: nat) < 128"
proof -
  have n: "(of_char (hex_digit n) :: nat) \<ge> 48" "(of_char (hex_digit n) :: nat) < 128"
    using assms by (simp_all add: of_char_hex_digit)
  then show "hex_digit n \<noteq> CHR ''-''" "hex_digit n \<noteq> CHR ''+''"
    "(of_char (hex_digit n) :: nat) < 128"
    by auto
qed

lemma hex_pair_byte:
  "hex_pair (hex_digit (unat b div 16)) (hex_digit (unat b mod 16)) = Some b"
proof -
  have "unat b div 16 < 16" using unat_less_width(1) [of b] by linarith
  moreover have "16 * (unat b div 16) + unat b mod 16 = unat b" by simp
  ultimately show ?thesis
    using hex_digit_not_special(2) [of "unat b div 16"] by simp
qed

lemma hex_pairs_encode: "hex_pairs (concat (map hex_byte b)) = Some b"
  by (induction b) (simp_all add: hex_byte_def hex_pair_byte del: hex_pair.simps)

lemma hex_byte_chars:
  "\<forall>c \<in> set (concat (map hex_byte b)). c \<noteq> CHR ''-'' \<and> (of_char c :: nat) < 128"
proof -
  have d: "unat w div 16 < 16" for w :: u8 using unat_less_width(1) [of w] by linarith
  show ?thesis
    by (induction b) (auto simp: hex_byte_def hex_digit_not_special d)
qed

lemma filter_hex: "filter (\<lambda>c. c \<noteq> CHR ''-'') (concat (map hex_byte b)) = concat (map hex_byte b)"
  using hex_byte_chars by (simp add: filter_id_conv)

lemma length_hex: "length (concat (map hex_byte b)) = 2 * length b"
  by (induction b) (simp_all add: hex_byte_def)

lemma uuid_slices:
  "length b = 16 \<Longrightarrow>
   slice 0 4 b @ slice 4 6 b @ slice 6 8 b @ slice 8 10 b @ slice 10 16 b = b"
proof -
  assume "length b = 16"
  then have "slice 0 16 b = b" by (simp add: slice_def)
  then show ?thesis by (simp add: slice_join)
qed

lemma to_uuid_string_filter:
  "length b = 16 \<Longrightarrow>
   filter (\<lambda>c. c \<noteq> CHR ''-'') (to_uuid_string b) = concat (map hex_byte b)"
  by (subst (3) uuid_slices [symmetric]) (simp_all add: to_uuid_string_def filter_hex)

lemma uuid_from_to_string:
  assumes "uuid_wf b"
  shows "uuid_from_str (to_uuid_string b) = Inr b"
proof -
  have "is_ascii (concat (map hex_byte b))"
    unfolding is_ascii_def using hex_byte_chars by blast
  moreover have "length (concat (map hex_byte b)) = 32"
    using assms by (simp add: length_hex uuid_wf_def)
  moreover have "filter (\<lambda>c. c \<noteq> CHR ''-'') (to_uuid_string b) = concat (map hex_byte b)"
    using assms by (simp add: to_uuid_string_filter uuid_wf_def)
  ultimately show ?thesis
    unfolding uuid_from_str_def Let_def by (simp only: hex_pairs_encode) simp
qed

lemma to_uuid_string_inject:
  "uuid_wf a \<Longrightarrow> uuid_wf b \<Longrightarrow> to_uuid_string a = to_uuid_string b \<longleftrightarrow> a = b"
  by (metis uuid_from_to_string sum.inject(2))

lemma hex_pairs_length: "hex_pairs s = Some b \<Longrightarrow> length s = 2 * length b"
proof (induction s arbitrary: b rule: hex_pairs.induct)
  case (3 x y cs)
  then show ?case by (auto split: option.splits simp del: hex_pair.simps)
qed simp_all

lemma uuid_from_str_wf: "uuid_from_str s = Inr b \<Longrightarrow> uuid_wf b"
  by (auto simp: uuid_from_str_def Let_def uuid_wf_def split: if_splits option.splits
      dest!: hex_pairs_length)

section \<open>Geometry\<close>

record geometry =
  g_size_bytes :: u64
  g_logical_block_size :: u32
  g_physical_block_size :: u32

definition sector_count :: "geometry \<Rightarrow> u64" where
  "sector_count g = (if g_logical_block_size g = 0 then 0
     else g_size_bytes g div ucast (g_logical_block_size g))"

definition direct_io_alignment :: "geometry \<Rightarrow> nat" where
  "direct_io_alignment g = max 4096 (unat (g_logical_block_size g))"

definition align_up :: "geometry \<Rightarrow> u64 \<Rightarrow> u64" where
  "align_up g n = (let align = word_of_nat (direct_io_alignment g) in div_ceil_u64 n align * align)"

lemma unat_div_ceil_u64:
  assumes "b \<noteq> 0"
  shows "unat (div_ceil_u64 a b) = (unat a + unat b - 1) div unat b"
proof -
  let ?a = "unat a" and ?b = "unat b"
  have b: "0 < ?b" using assms by (simp add: unat_gt_0)
  have am: "?a = ?a div ?b * ?b + ?a mod ?b" by simp
  show ?thesis
  proof (cases "?a mod ?b = 0")
    case True
    then have "a mod b = 0" by (simp add: word_unat_eq_iff unat_mod_distrib)
    moreover have "(?a + ?b - 1) div ?b = ?a div ?b"
      using True b am by (intro div_nat_eqI) (simp_all add: algebra_simps)
    ultimately show ?thesis by (simp add: div_ceil_u64_def unat_div_distrib)
  next
    case False
    then have nz: "a mod b \<noteq> 0" by (auto simp: word_unat_eq_iff unat_mod_distrib)
    have "?a + ?b - 1 = (?a div ?b + 1) * ?b + (?a mod ?b - 1)"
    proof -
      have "?a + ?b - 1 = ?a div ?b * ?b + ?b + (?a mod ?b - 1)" using False am by linarith
      then show ?thesis by (simp only: distrib_right mult_1)
    qed
    moreover have "?a mod ?b - 1 < ?b" using b mod_less_divisor [of ?b ?a] by linarith
    ultimately have q: "(?a + ?b - 1) div ?b = ?a div ?b + 1"
      by (intro div_nat_eqI) (simp_all add: algebra_simps)
    have "?b \<noteq> 1" using False by auto
    then have "?a div ?b + 1 < 2 ^ 64"
    proof -
      have "?a div ?b \<le> ?a div 2" using b \<open>?b \<noteq> 1\<close> by (intro div_le_mono2) auto
      moreover have "?a div 2 < 2 ^ 63" 
        by (rule less_mult_imp_div_less) simp
      ultimately show ?thesis by simp
    qed
    then have "unat (a div b + 1) = ?a div ?b + 1"
      by (simp add: unat_word_ariths unat_div_distrib)
    then show ?thesis using nz q by (simp add: div_ceil_u64_def)
  qed
qed

section \<open>Names of sets and jobs\<close>

definition max_name_len :: nat where
  "max_name_len = 64"

definition is_ascii_alphanumeric :: "char \<Rightarrow> bool" where
  "is_ascii_alphanumeric c \<longleftrightarrow>
     (let n = of_char c :: nat in
      48 \<le> n \<and> n \<le> 57 \<or> 65 \<le> n \<and> n \<le> 90 \<or> 97 \<le> n \<and> n \<le> 122)"

definition name_char :: "char \<Rightarrow> bool" where
  "name_char c \<longleftrightarrow> is_ascii_alphanumeric c \<or> c = CHR ''.'' \<or> c = CHR ''_'' \<or> c = CHR ''-''"

definition validate_name :: "string \<Rightarrow> unit res" where
  "validate_name name =
     (case name of
        [] \<Rightarrow> Inl (Unsupported ''invalid name: it is empty'')
      | first # _ \<Rightarrow>
          if length name > max_name_len then Inl (Unsupported ''invalid name: it is longer than '')
          else if \<not> is_ascii_alphanumeric first
            then Inl (Unsupported ''invalid name: it must start with a letter or digit'')
          else if \<exists>c \<in> set name. \<not> name_char c
            then Inl (Unsupported ''invalid name: not allowed'')
          else Inr ())"

text \<open>
  What the rest of the system relies on when it uses a name as one path
  component or as part of a unit name.
\<close>

definition safe_component :: "string \<Rightarrow> bool" where
  "safe_component s \<longleftrightarrow>
     s \<noteq> [] \<and> length s \<le> 64 \<and> s \<noteq> ''.'' \<and> s \<noteq> ''..'' \<and> CHR ''/'' \<notin> set s
     \<and> (\<forall>c \<in> set s. 33 \<le> (of_char c :: nat) \<and> (of_char c :: nat) < 127) \<and> hd s \<noteq> CHR ''-''"

lemma name_char_range: "name_char c \<Longrightarrow> 45 \<le> (of_char c :: nat) \<and> (of_char c :: nat) < 127 \<and> c \<noteq> CHR ''/''"
  by (auto simp: name_char_def is_ascii_alphanumeric_def Let_def)

lemma validate_name_iff:
  "validate_name s = Inr () \<longleftrightarrow>
     s \<noteq> [] \<and> length s \<le> 64 \<and> is_ascii_alphanumeric (hd s) \<and> (\<forall>c \<in> set s. name_char c)"
  by (auto simp: validate_name_def max_name_len_def split: list.splits if_splits)

section \<open>Properties\<close>

text \<open>The textual form of an identifier parses back to it, and two identifiers
  with the same text are equal; whatever text parses gives a 16-byte value.
\<close>

lemma uuid_text_roundtrip:
  assumes "uuid_wf a" "uuid_wf b"
  shows "uuid_from_str (to_uuid_string a) = Inr a
    \<and> (to_uuid_string a = to_uuid_string b \<longleftrightarrow> a = b)
    \<and> (\<forall>s c. uuid_from_str s = Inr c \<longrightarrow> uuid_wf c)"
  using uuid_from_to_string [OF assms(1)] to_uuid_string_inject [OF assms] uuid_from_str_wf by blast

text \<open>A validated set or job name is a safe single path component: it cannot
  leave its directory, hide, start an option, or contain a separator, control
  or non-ASCII character.
\<close>

lemma validate_name_safe:
  assumes "validate_name s = Inr ()"
  shows "safe_component s"
proof -
  have n: "s \<noteq> []" "length s \<le> 64" "is_ascii_alphanumeric (hd s)" "\<forall>c \<in> set s. name_char c"
    using assms by (simp_all add: validate_name_iff)
  have "hd s \<noteq> CHR ''.''" "hd s \<noteq> CHR ''-''"
    using n(3) by (auto simp: is_ascii_alphanumeric_def Let_def)
  then have "s \<noteq> ''.''" "s \<noteq> ''..''" by auto
  moreover have "\<forall>c \<in> set s. c \<noteq> CHR ''/'' \<and> 33 \<le> (of_char c :: nat) \<and> (of_char c :: nat) < 127"
    using n(4) name_char_range by force
  ultimately show ?thesis
    using n \<open>hd s \<noteq> CHR ''-''\<close> by (auto simp: safe_component_def)
qed

lemma nat_div_ceil_bounds:
  fixes n a :: nat
  assumes "0 < a"
  shows "n \<le> (n + a - 1) div a * a" and "(n + a - 1) div a * a < n + a"
proof -
  have e: "(n + a - 1) div a * a + (n + a - 1) mod a = n + a - 1" by simp
  have m: "(n + a - 1) mod a < a" using assms by simp
  show "n \<le> (n + a - 1) div a * a" using e m assms by linarith
  have "(n + a - 1) div a * a \<le> n + a - 1" by (rule div_times_less_eq_dividend)
  then show "(n + a - 1) div a * a < n + a" using assms by linarith
qed

lemma unat_alignment:
  "unat (word_of_nat (direct_io_alignment g) :: u64) = direct_io_alignment g"
proof (rule unat_of_nat_u64)
  have "unat (g_logical_block_size g) < 2 ^ 64" by (rule less_trans [OF unat_less_width(3)]) simp
  then show "direct_io_alignment g < 2 ^ 64" by (simp add: direct_io_alignment_def)
qed

text \<open>
  Rounding a length up for direct I/O never shrinks it, adds less than one
  alignment unit and gives a multiple of the alignment, as long as the result
  fits 64 bits.
\<close>

lemma align_up_bounds:
  assumes "unat n + direct_io_alignment g \<le> 2 ^ 64"
  shows "unat n \<le> unat (align_up g n) \<and> unat (align_up g n) < unat n + direct_io_alignment g
    \<and> direct_io_alignment g dvd unat (align_up g n)"
proof -
  define a where "a = direct_io_alignment g"
  have a: "0 < a" by (simp add: a_def direct_io_alignment_def)
  have wa: "unat (word_of_nat a :: u64) = a" unfolding a_def by (rule unat_alignment)
  then have nz: "(word_of_nat a :: u64) \<noteq> 0" using a by (metis unat_0 less_irrefl)
  note b = nat_div_ceil_bounds [OF a, of "unat n"]
  have "(unat n + a - 1) div a * a < 2 ^ 64" using b(2) assms by (simp add: a_def)
  then have "unat (div_ceil_u64 n (word_of_nat a) * word_of_nat a) = (unat n + a - 1) div a * a"
    by (simp add: unat_word_ariths unat_div_ceil_u64 [OF nz] wa)
  then show ?thesis using b by (simp add: align_up_def Let_def a_def [symmetric])
qed

end
