(* ===== verification/Destination.thy ===== *)
theory Destination
  imports Core_Types "HOL-Library.AList"
begin

text \<open>
  \<open>crates/lr-store\<close>: where images are kept.  The trait \<open>Destination\<close> of \<open>lib.rs\<close> is a record of
  operations on an abstract store; what the engine relies on is the contract \<open>destination\<close>.  The
  local implementation of \<open>local.rs\<close> is a set directory, a map from relative names to contents,
  whose input and output may fail at any step.

  One set is modelled, so the handle \<open>SetHandle\<close> disappears.  A reader that \<open>open_ro\<close> returns is the
  content of the file; a temporary file is written by \<open>d_write_tmp\<close>, which stands for \<open>write_all\<close>
  and \<open>sync_all\<close> on its writer.
\<close>

section \<open>The trait\<close>

datatype durability = Synced | Unconfirmed string

record 's destination_ops =
  d_open_ro :: "'s \<Rightarrow> string \<Rightarrow> bytes res"
  d_list :: "'s \<Rightarrow> string list res"
  d_delete :: "string \<Rightarrow> 's \<Rightarrow> unit res \<times> 's"
  d_create_tmp :: "string \<Rightarrow> 's \<Rightarrow> string res \<times> 's"
  d_write_tmp :: "string \<Rightarrow> bytes \<Rightarrow> 's \<Rightarrow> unit res \<times> 's"
  d_publish_new :: "string \<Rightarrow> string \<Rightarrow> 's \<Rightarrow> durability res \<times> 's"
  d_replace :: "string \<Rightarrow> string \<Rightarrow> 's \<Rightarrow> durability res \<times> 's"
  d_lock_set :: "bool \<Rightarrow> 's \<Rightarrow> unit res \<times> 's"
  d_verify_lease :: "'s \<Rightarrow> unit res \<times> 's"

definition io_not_found :: lr_error where
  "io_not_found = Io ''not found''"

definition tmp_suffix :: string where
  "tmp_suffix = ''.tmp''"

definition temp_name :: "string \<Rightarrow> uuid \<Rightarrow> string" where
  "temp_name final_name random = final_name @ ''.'' @ to_uuid_string random @ tmp_suffix"

definition lease_lost :: lr_error where
  "lease_lost = SetLocked ''another job: this job's lease on ''"

section \<open>What clients rely on\<close>

locale destination =
  fixes D :: "'s destination_ops"
    and files :: "'s \<Rightarrow> string \<Rightarrow> bytes option"
  assumes open_ro: "d_open_ro D s n = Inr b \<Longrightarrow> files s n = Some b"
    and delete_ok: "d_delete D n s = (Inr (), s') \<Longrightarrow> files s' = (files s)(n := None)"
    and delete_err: "d_delete D n s = (Inl e, s') \<Longrightarrow> files s' = files s"
    and create_tmp_ok: "d_create_tmp D n s = (Inr t, s') \<Longrightarrow>
        ends_with tmp_suffix t \<and> files s t = None \<and> files s' = (files s)(t \<mapsto> [])"
    and create_tmp_err: "d_create_tmp D n s = (Inl e, s') \<Longrightarrow> files s' = files s"
    and write_tmp_ok: "d_write_tmp D t b s = (Inr (), s') \<Longrightarrow> files s t \<noteq> None \<Longrightarrow> files s' = (files s)(t \<mapsto> b)"
    and write_tmp: "d_write_tmp D t b s = (r, s') \<Longrightarrow> files s' n = files s n \<or> n = t"
    and publish_new_ok: "d_publish_new D t n s = (Inr d, s') \<Longrightarrow>
        \<exists>b. files s t = Some b \<and> files s n = None \<and> files s' = (files s)(t := None, n \<mapsto> b)"
    and publish_new_err: "d_publish_new D t n s = (Inl e, s') \<Longrightarrow>
        files s' = files s \<or> (\<exists>b. files s t = Some b \<and> files s n = None \<and> files s' = (files s)(t := None, n \<mapsto> b))"
    and replace_ok: "d_replace D t n s = (Inr d, s') \<Longrightarrow>
        \<exists>b. files s t = Some b \<and> files s' = (files s)(t := None, n \<mapsto> b)"
    and replace_err: "d_replace D t n s = (Inl e, s') \<Longrightarrow>
        files s' = files s \<or> (\<exists>b. files s t = Some b \<and> files s' = (files s)(t := None, n \<mapsto> b))"
    and lock_set: "d_lock_set D break_stale s = (r, s') \<Longrightarrow> files s' = files s"
    and verify_lease: "d_verify_lease D s = (r, s') \<Longrightarrow> files s' = files s"

section \<open>The local destination\<close>

record local_store =
  ls_files :: "(string \<times> bytes) list"
  ls_unreadable :: "string list"
  ls_ids :: "uuid list"
  ls_faults :: "bool list"

text \<open>Whether the next system call fails; a store that has used up its list of faults works.\<close>

definition io_call :: "string \<Rightarrow> local_store \<Rightarrow> unit res \<times> local_store" where
  "io_call what s =
     (case ls_faults s of
        [] \<Rightarrow> (Inr (), s)
      | b # bs \<Rightarrow> (if b then Inl (Io what) else Inr (), s\<lparr> ls_faults := bs \<rparr>))"

definition normal_components :: "string \<Rightarrow> string list option" where
  "normal_components relative =
     (if relative = [] then Some []
      else let parts = split_on (CHR ''/'') relative in
        if \<exists>p \<in> set parts. p = '''' \<or> p = ''.'' \<or> p = ''..'' then None else Some parts)"

definition local_entry :: "string \<Rightarrow> unit res" where
  "local_entry name =
     (case normal_components name of
        None \<Rightarrow> Inl (Unsupported ''destination name '')
      | Some [] \<Rightarrow> Inl (Unsupported ''empty destination name'')
      | Some _ \<Rightarrow> Inr ())"

definition local_open_ro :: "local_store \<Rightarrow> string \<Rightarrow> bytes res" where
  "local_open_ro s name =
     res_bind (local_entry name) (\<lambda>_.
       if name \<in> set (ls_unreadable s) then Inl (Io ''read'')
       else case map_of (ls_files s) name of None \<Rightarrow> Inl io_not_found | Some b \<Rightarrow> Inr b)"

definition local_list :: "local_store \<Rightarrow> string list res" where
  "local_list s = Inr (sort (remdups (map fst (ls_files s))))"

definition local_delete :: "string \<Rightarrow> local_store \<Rightarrow> unit res \<times> local_store" where
  "local_delete name s =
     st_bind (local_entry name, s) (\<lambda>_ s.
     st_bind (io_call ''unlink'' s) (\<lambda>_ s.
       if map_of (ls_files s) name = None then (Inl io_not_found, s)
       else (Inr (), s\<lparr> ls_files := AList.delete name (ls_files s) \<rparr>)))"

definition local_create_tmp :: "string \<Rightarrow> local_store \<Rightarrow> string res \<times> local_store" where
  "local_create_tmp final_name s =
     (case ls_ids s of
        [] \<Rightarrow> (Inl (Io ''random''), s)
      | random # ids \<Rightarrow>
          (let name = temp_name final_name random; s = s\<lparr> ls_ids := ids \<rparr> in
           st_bind (local_entry name, s) (\<lambda>_ s.
           st_bind (io_call ''open'' s) (\<lambda>_ s.
             if map_of (ls_files s) name \<noteq> None then (Inl (Io ''exists''), s)
             else (Inr name, s\<lparr> ls_files := AList.update name [] (ls_files s) \<rparr>)))))"

text \<open>A write that fails may have put a part of the bytes into the file.\<close>

definition local_write_tmp :: "string \<Rightarrow> bytes \<Rightarrow> local_store \<Rightarrow> unit res \<times> local_store" where
  "local_write_tmp name b s =
     (case io_call ''write'' s of
        (Inl e, s) \<Rightarrow> (Inl e, s\<lparr> ls_files := AList.update name (take (length b div 2) b) (ls_files s) \<rparr>)
      | (Inr _, s) \<Rightarrow> io_call ''fsync'' (s\<lparr> ls_files := AList.update name b (ls_files s) \<rparr>))"

definition local_publish :: "string \<Rightarrow> string \<Rightarrow> bool \<Rightarrow> local_store \<Rightarrow> durability res \<times> local_store" where
  "local_publish tmp final_name replace s =
     st_bind (local_entry tmp, s) (\<lambda>_ s.
     st_bind (local_entry final_name, s) (\<lambda>_ s.
     st_bind (io_call ''fsync'' s) (\<lambda>_ s.
       case map_of (ls_files s) tmp of
         None \<Rightarrow> (Inl io_not_found, s)
       | Some b \<Rightarrow>
           st_bind (io_call ''rename'' s) (\<lambda>_ s.
             if \<not> replace \<and> map_of (ls_files s) final_name \<noteq> None
               then (Inl (Unsupported '' already exists; a published image is never replaced''), s)
             else st_bind (io_call ''fsync''
                     (s\<lparr> ls_files := AList.update final_name b (AList.delete tmp (ls_files s)) \<rparr>))
                   (\<lambda>_ s. (Inr Synced, s))))))"

text \<open>
  The set lock: whether it can be taken and whether its lease is still held is decided by other
  processes.  The lock file is not one of the files here.
\<close>

definition local_lock_set :: "bool \<Rightarrow> local_store \<Rightarrow> unit res \<times> local_store" where
  "local_lock_set break_stale s =
     (case io_call ''lock'' s of (Inl e, s) \<Rightarrow> (Inl (SetLocked ''locked''), s) | (Inr u, s) \<Rightarrow> (Inr u, s))"

definition local_verify_lease :: "local_store \<Rightarrow> unit res \<times> local_store" where
  "local_verify_lease s =
     (case io_call ''lease'' s of (Inl e, s) \<Rightarrow> (Inl lease_lost, s) | (Inr u, s) \<Rightarrow> (Inr u, s))"

definition local_destination :: "local_store destination_ops" where
  "local_destination = \<lparr>
     d_open_ro = local_open_ro, d_list = local_list, d_delete = local_delete,
     d_create_tmp = local_create_tmp, d_write_tmp = local_write_tmp,
     d_publish_new = (\<lambda>tmp final_name. local_publish tmp final_name False),
     d_replace = (\<lambda>tmp final_name. local_publish tmp final_name True),
     d_lock_set = local_lock_set, d_verify_lease = local_verify_lease \<rparr>"

section \<open>The local destination keeps the contract\<close>

abbreviation local_files :: "local_store \<Rightarrow> string \<Rightarrow> bytes option" where
  "local_files s \<equiv> map_of (ls_files s)"

lemma io_call_files [simp]: "local_files (snd (io_call what s)) = local_files s"
  by (auto simp: io_call_def split: list.splits)

lemma io_callD: "io_call what s = (r, s') \<Longrightarrow> local_files s' = local_files s"
  by (metis io_call_files snd_conv)

lemma temp_name_suffix [simp]: "ends_with tmp_suffix (temp_name n r)"
  unfolding temp_name_def by (metis append.assoc ends_with_append)

lemma st_bind_eq:
  "st_bind m f = (r, s') \<longleftrightarrow>
     (\<exists>e. m = (Inl e, s') \<and> r = Inl e) \<or> (\<exists>x s1. m = (Inr x, s1) \<and> f x s1 = (r, s'))"
  by (auto simp: st_bind_def split: prod.splits sum.splits)

lemma local_publish_cases:
  assumes "local_publish t n replace s = (r, s')"
  shows "(\<exists>e. r = Inl e) \<and> local_files s' = local_files s
    \<or> (\<exists>b. local_files s t = Some b \<and> (replace \<or> local_files s n = None)
          \<and> local_files s' = (local_files s)(t := None, n \<mapsto> b))"
proof (cases "local_entry t")
  case (Inr u)
  show ?thesis
  proof (cases "local_entry n")
    case inr: (Inr u)
    obtain r1 s1 where c1: "io_call ''fsync'' s = (r1, s1)" by (cases "io_call ''fsync'' s")
    obtain r2 s2 where c2: "io_call ''rename'' s1 = (r2, s2)" by (cases "io_call ''rename'' s1")
    have f: "local_files s1 = local_files s" "local_files s2 = local_files s"
      using c1 c2 by (auto dest!: io_callD)
    show ?thesis
    proof (cases "local_files s t")
      case None
      then show ?thesis using assms f by (cases r1) (auto simp: local_publish_def Inr inr c1)
    next
      case (Some b)
      define s3 where "s3 = s2\<lparr> ls_files := AList.update n b (AList.delete t (ls_files s2)) \<rparr>"
      obtain r4 s4 where c4: "io_call ''fsync'' s3 = (r4, s4)" by (cases "io_call ''fsync'' s3")
      have "local_files s4 = (local_files s)(t := None, n \<mapsto> b)"
        using io_callD [OF c4] by (simp add: s3_def update_conv' delete_conv' f)
      then show ?thesis
        using assms f Some
        by (cases r1; cases r2; cases r4)
          (auto simp: local_publish_def Inr inr c1 c2 c4 s3_def [symmetric] split: if_splits)
    qed
  qed (use assms in \<open>auto simp: local_publish_def Inr\<close>)
qed (use assms in \<open>auto simp: local_publish_def\<close>)

interpretation local: destination local_destination local_files
proof
  fix s s' :: local_store and n t :: string and b :: bytes and e :: lr_error and d :: durability and r :: "unit res"
  show "d_open_ro local_destination s n = Inr b \<Longrightarrow> local_files s n = Some b"
    by (auto simp: local_destination_def local_open_ro_def res_bind_eq_Inr split: if_splits option.splits)
  show "d_delete local_destination n s = (Inr (), s') \<Longrightarrow> local_files s' = (local_files s)(n := None)"
    by (auto simp: local_destination_def local_delete_def st_bind_eq delete_conv' dest!: io_callD split: if_splits)
  show "d_delete local_destination n s = (Inl e, s') \<Longrightarrow> local_files s' = local_files s"
    by (auto simp: local_destination_def local_delete_def st_bind_eq dest!: io_callD split: if_splits)
  show "d_create_tmp local_destination n s = (Inr t, s') \<Longrightarrow>
      ends_with tmp_suffix t \<and> local_files s t = None \<and> local_files s' = (local_files s)(t \<mapsto> [])"
    by (auto simp: local_destination_def local_create_tmp_def Let_def st_bind_eq update_conv' dest!: io_callD
        split: if_splits list.splits)
  show "d_create_tmp local_destination n s = (Inl e, s') \<Longrightarrow> local_files s' = local_files s"
    by (auto simp: local_destination_def local_create_tmp_def Let_def st_bind_eq dest!: io_callD
        split: if_splits list.splits)
  show "d_write_tmp local_destination t b s = (Inr (), s') \<Longrightarrow> local_files s t \<noteq> None \<Longrightarrow> local_files s' = (local_files s)(t \<mapsto> b)"
    by (auto simp: local_destination_def local_write_tmp_def update_conv' dest!: io_callD
        split: prod.splits sum.splits)
  show "d_write_tmp local_destination t b s = (r, s') \<Longrightarrow> local_files s' n = local_files s n \<or> n = t"
    by (auto simp: local_destination_def local_write_tmp_def update_conv' dest!: io_callD
        split: prod.splits sum.splits)
  show "d_publish_new local_destination t n s = (Inr d, s') \<Longrightarrow>
      \<exists>b. local_files s t = Some b \<and> local_files s n = None \<and> local_files s' = (local_files s)(t := None, n \<mapsto> b)"
    by (auto simp: local_destination_def dest: local_publish_cases)
  show "d_publish_new local_destination t n s = (Inl e, s') \<Longrightarrow>
      local_files s' = local_files s \<or>
      (\<exists>b. local_files s t = Some b \<and> local_files s n = None \<and> local_files s' = (local_files s)(t := None, n \<mapsto> b))"
    by (auto simp: local_destination_def dest: local_publish_cases)
  show "d_replace local_destination t n s = (Inr d, s') \<Longrightarrow>
      \<exists>b. local_files s t = Some b \<and> local_files s' = (local_files s)(t := None, n \<mapsto> b)"
    by (auto simp: local_destination_def dest: local_publish_cases)
  show "d_replace local_destination t n s = (Inl e, s') \<Longrightarrow>
      local_files s' = local_files s \<or>
      (\<exists>b. local_files s t = Some b \<and> local_files s' = (local_files s)(t := None, n \<mapsto> b))"
    by (auto simp: local_destination_def dest: local_publish_cases)
  show "d_lock_set local_destination b' s = (r, s') \<Longrightarrow> local_files s' = local_files s" for b'
    by (auto simp: local_destination_def local_lock_set_def dest!: io_callD split: prod.splits sum.splits)
  show "d_verify_lease local_destination s = (r, s') \<Longrightarrow> local_files s' = local_files s"
    by (auto simp: local_destination_def local_verify_lease_def dest!: io_callD split: prod.splits sum.splits)
qed

end
