(* ===== verification/Wire.thy ===== *)
theory Wire
  imports Core_Types
begin

text \<open>
  \<open>crates/lr-format/src/wire.rs\<close>: the little-endian helpers shared by every
  structure of an image.

  The trait \<open>ByteSource\<close> is the locale \<open>byte_source\<close>: a state type with a
  \<open>read_bytes\<close> operation, the bytes that are still to come and an invariant.
  The methods of \<open>Reader<S>\<close> are generic in the source, as in the code, and take
  its \<open>read_bytes\<close> as their first argument.  \<open>decodes\<close> says that a reader consumes
  exactly an encoding, leaves the rest, and refuses every truncation of it; its
  rules are proved once in the locale and carry the round trips of all record
  formats.  The locale is interpreted on the in-memory cursor here and on the
  page-stream reader in \<open>Page_Stream\<close>.

  A sink (\<open>ByteSink\<close>) receives bytes in order, so the writing side of a record
  is the byte string it hands to the sink, or the error that stops it.
\<close>

section \<open>Strings\<close>

definition bytes_of_string :: "string \<Rightarrow> bytes" where
  "bytes_of_string s = map (\<lambda>c. word_of_nat (of_char c)) s"

definition string_of_bytes :: "bytes \<Rightarrow> string" where
  "string_of_bytes bs = map (\<lambda>b. char_of (unat b)) bs"

lemma string_of_bytes_of_string [simp]: "string_of_bytes (bytes_of_string s) = s"
proof -
  have "unat (word_of_nat (of_char c) :: u8) = of_char c" for c
    by (simp add: unat_of_nat)
  then show ?thesis
    by (simp add: string_of_bytes_def bytes_of_string_def comp_def)
qed

lemma bytes_of_string_of_bytes [simp]: "bytes_of_string (string_of_bytes bs) = bs"
proof -
  have "of_char (char_of (unat b)) = unat b" for b :: u8
    by simp
  then show ?thesis
    by (simp add: string_of_bytes_def bytes_of_string_def comp_def)
qed

lemma length_bytes_of_string [simp, bytes_len]: "length (bytes_of_string s) = length s"
  by (simp add: bytes_of_string_def)

text \<open>\<open>String::from_utf8\<close> accepts the well-formed byte sequences of the Unicode standard.\<close>

definition byte_in :: "nat \<Rightarrow> nat \<Rightarrow> u8 \<Rightarrow> bool" where
  "byte_in lo hi b \<longleftrightarrow> lo \<le> unat b \<and> unat b \<le> hi"

fun utf8_valid :: "bytes \<Rightarrow> bool" where
  "utf8_valid [] = True"
| "utf8_valid (b # bs) =
     (if byte_in 0 0x7F b then utf8_valid bs
      else if byte_in 0xC2 0xDF b then
        (case bs of c # r \<Rightarrow> byte_in 0x80 0xBF c \<and> utf8_valid r | _ \<Rightarrow> False)
      else if byte_in 0xE0 0xEF b then
        (case bs of c # d # r \<Rightarrow>
             byte_in (if b = 0xE0 then 0xA0 else 0x80) (if b = 0xED then 0x9F else 0xBF) c
             \<and> byte_in 0x80 0xBF d \<and> utf8_valid r
         | _ \<Rightarrow> False)
      else if byte_in 0xF0 0xF4 b then
        (case bs of c # d # e # r \<Rightarrow>
             byte_in (if b = 0xF0 then 0x90 else 0x80) (if b = 0xF4 then 0x8F else 0xBF) c
             \<and> byte_in 0x80 0xBF d \<and> byte_in 0x80 0xBF e \<and> utf8_valid r
         | _ \<Rightarrow> False)
      else False)"

text \<open>The type invariant of a Rust string, and \<open>manifest.rs\<close>'s \<open>utf8\<close> helper.\<close>

definition rust_string :: "string \<Rightarrow> bool" where
  "rust_string s \<longleftrightarrow> utf8_valid (bytes_of_string s)"

definition utf8 :: "bytes \<Rightarrow> string \<Rightarrow> string res" where
  "utf8 bs what = (if utf8_valid bs then Inr (string_of_bytes bs) else Inl (Corrupt what))"

lemma utf8_of_string [simp]: "rust_string s \<Longrightarrow> utf8 (bytes_of_string s) what = Inr s"
  by (simp add: utf8_def rust_string_def)

lemma utf8_Inr: "utf8 bs what = Inr s \<Longrightarrow> rust_string s \<and> bs = bytes_of_string s"
  by (auto simp: utf8_def rust_string_def split: if_splits)

section \<open>Writing\<close>

definition put_u8 :: "u8 \<Rightarrow> bytes" where
  "put_u8 v = [v]"

definition put_u16 :: "u16 \<Rightarrow> bytes" where
  "put_u16 v = u16_to_le_bytes v"

definition put_u32 :: "u32 \<Rightarrow> bytes" where
  "put_u32 v = u32_to_le_bytes v"

definition put_u64 :: "u64 \<Rightarrow> bytes" where
  "put_u64 v = u64_to_le_bytes v"

definition put_u16_prefixed :: "bytes \<Rightarrow> bytes res" where
  "put_u16_prefixed bs =
     (if length bs < 2 ^ 16 then Inr (put_u16 (word_of_nat (length bs)) @ bs)
      else Inl (Unsupported ''string longer than 65535 bytes''))"

definition put_u32_prefixed :: "bytes \<Rightarrow> bytes res" where
  "put_u32_prefixed bs =
     (if length bs < 2 ^ 32 then Inr (put_u32 (word_of_nat (length bs)) @ bs)
      else Inl (Unsupported ''string longer than 4294967295 bytes''))"

lemma length_put [simp, bytes_len]:
  "length (put_u8 a) = 1" "length (put_u16 b) = 2" "length (put_u32 c) = 4"
  "length (put_u64 d) = 8"
  by (simp_all add: put_u8_def put_u16_def put_u32_def put_u64_def)

section \<open>Reading from a slice\<close>

definition slice_u16 :: "bytes \<Rightarrow> u16 res" where
  "slice_u16 bs = (if 2 \<le> length bs then Inr (u16_from_le_bytes (take 2 bs))
     else Inl (Corrupt ''slice shorter than 2 bytes''))"

definition slice_u32 :: "bytes \<Rightarrow> u32 res" where
  "slice_u32 bs = (if 4 \<le> length bs then Inr (u32_from_le_bytes (take 4 bs))
     else Inl (Corrupt ''slice shorter than 4 bytes''))"

definition slice_u64 :: "bytes \<Rightarrow> u64 res" where
  "slice_u64 bs = (if 8 \<le> length bs then Inr (u64_from_le_bytes (take 8 bs))
     else Inl (Corrupt ''slice shorter than 8 bytes''))"

lemma slice_reads [simp]:
  "slice_u16 (u16_to_le_bytes a @ r) = Inr a"
  "slice_u32 (u32_to_le_bytes b @ r) = Inr b"
  "slice_u64 (u64_to_le_bytes c @ r) = Inr c"
  by (simp_all add: slice_u16_def slice_u32_def slice_u64_def)

section \<open>Reading from a source\<close>

type_synonym ('s, 'a) reader = "'s \<Rightarrow> ('a \<times> 's) res"

definition rd_return :: "'a \<Rightarrow> ('s, 'a) reader" where
  "rd_return x s = Inr (x, s)"

definition rd_bind :: "('s, 'a) reader \<Rightarrow> ('a \<Rightarrow> ('s, 'b) reader) \<Rightarrow> ('s, 'b) reader" where
  "rd_bind p f s = res_bind (p s) (\<lambda>(x, s'). f x s')"

definition rd_lift :: "'a res \<Rightarrow> ('s, 'a) reader" where
  "rd_lift r s = res_bind r (\<lambda>x. Inr (x, s))"

text \<open>\<open>ByteSource\<close> for a cursor over the bytes of a slice.\<close>

definition cursor_read :: "nat \<Rightarrow> (bytes, bytes) reader" where
  "cursor_read n s =
     (if n \<le> length s then Inr (take n s, drop n s)
      else Inl (Corrupt ''unexpected end of image data''))"

definition reader_u8 :: "(nat \<Rightarrow> ('s, bytes) reader) \<Rightarrow> ('s, u8) reader" where
  "reader_u8 rb = rd_bind (rb 1) (\<lambda>b. rd_return (b ! 0))"

definition reader_u16 :: "(nat \<Rightarrow> ('s, bytes) reader) \<Rightarrow> ('s, u16) reader" where
  "reader_u16 rb = rd_bind (rb 2) (\<lambda>b. rd_return (u16_from_le_bytes b))"

definition reader_u32 :: "(nat \<Rightarrow> ('s, bytes) reader) \<Rightarrow> ('s, u32) reader" where
  "reader_u32 rb = rd_bind (rb 4) (\<lambda>b. rd_return (u32_from_le_bytes b))"

definition reader_u64 :: "(nat \<Rightarrow> ('s, bytes) reader) \<Rightarrow> ('s, u64) reader" where
  "reader_u64 rb = rd_bind (rb 8) (\<lambda>b. rd_return (u64_from_le_bytes b))"

definition reader_bytes :: "(nat \<Rightarrow> ('s, bytes) reader) \<Rightarrow> nat \<Rightarrow> ('s, bytes) reader" where
  "reader_bytes rb n = rb n"

definition reader_id :: "(nat \<Rightarrow> ('s, bytes) reader) \<Rightarrow> ('s, uuid) reader" where
  "reader_id rb = rb 16"

definition reader_u16_prefixed :: "(nat \<Rightarrow> ('s, bytes) reader) \<Rightarrow> ('s, bytes) reader" where
  "reader_u16_prefixed rb = rd_bind (reader_u16 rb) (\<lambda>len. reader_bytes rb (unat len))"

definition reader_u32_prefixed :: "(nat \<Rightarrow> ('s, bytes) reader) \<Rightarrow> ('s, bytes) reader" where
  "reader_u32_prefixed rb = rd_bind (reader_u32 rb) (\<lambda>len. reader_bytes rb (unat len))"

text \<open>A counted loop over a record reader: \<open>for _ in 0..n { v.push(T::read(reader)?) }\<close>.\<close>

fun read_list :: "nat \<Rightarrow> ('s, 'a) reader \<Rightarrow> ('s, 'a list) reader" where
  "read_list 0 p = rd_return []"
| "read_list (Suc n) p =
     rd_bind p (\<lambda>x. rd_bind (read_list n p) (\<lambda>xs. rd_return (x # xs)))"

text \<open>
  \<open>decodes rem ok p bs x\<close>: from every state whose remaining bytes start with
  \<open>bs\<close>, \<open>p\<close> returns \<open>x\<close> and consumes exactly \<open>bs\<close>; from every state that holds
  only a proper prefix of \<open>bs\<close>, \<open>p\<close> fails with a corruption error.
\<close>

definition decodes ::
    "('s \<Rightarrow> bytes) \<Rightarrow> ('s \<Rightarrow> bool) \<Rightarrow> ('s, 'a) reader \<Rightarrow> bytes \<Rightarrow> 'a \<Rightarrow> bool" where
  "decodes rem ok p bs x \<longleftrightarrow>
     (\<forall>s rest. ok s \<longrightarrow> rem s = bs @ rest \<longrightarrow>
        (\<exists>s'. p s = Inr (x, s') \<and> rem s' = rest \<and> ok s'))
     \<and> (\<forall>s suf. ok s \<longrightarrow> suf \<noteq> [] \<longrightarrow> rem s @ suf = bs \<longrightarrow> (\<exists>m. p s = Inl (Corrupt m)))"

lemma decodesD:
  "decodes rem ok p bs x \<Longrightarrow> ok s \<Longrightarrow> rem s = bs @ rest \<Longrightarrow>
   \<exists>s'. p s = Inr (x, s') \<and> rem s' = rest \<and> ok s'"
  unfolding decodes_def by blast

lemma decodes_truncD:
  "decodes rem ok p bs x \<Longrightarrow> ok s \<Longrightarrow> suf \<noteq> [] \<Longrightarrow> rem s @ suf = bs \<Longrightarrow>
   \<exists>m. p s = Inl (Corrupt m)"
  unfolding decodes_def by blast

lemma decodes_return: "decodes rem ok (rd_return x) [] x"
  by (simp add: decodes_def rd_return_def)

lemma decodes_return_eq: "x = y \<Longrightarrow> decodes rem ok (rd_return x) [] y"
  by (simp add: decodes_return)

lemma decodes_lift: "r = Inr x \<Longrightarrow> decodes rem ok (rd_lift r) [] x"
  by (simp add: decodes_def rd_lift_def)

lemma decodes_bind:
  assumes p: "decodes rem ok p a x" and f: "decodes rem ok (f x) b y"
  shows "decodes rem ok (rd_bind p f) (a @ b) y"
  unfolding decodes_def
proof (intro conjI allI impI)
  fix s rest
  assume "ok s" "rem s = (a @ b) @ rest"
  then obtain s1 where "p s = Inr (x, s1)" "rem s1 = b @ rest" "ok s1"
    using decodesD [OF p, of s "b @ rest"] by auto
  moreover from this obtain s2 where "f x s1 = Inr (y, s2)" "rem s2 = rest" "ok s2"
    using decodesD [OF f] by blast
  ultimately show "\<exists>s'. rd_bind p f s = Inr (y, s') \<and> rem s' = rest \<and> ok s'"
    by (simp add: rd_bind_def)
next
  fix s suf
  assume s: "ok s" "suf \<noteq> []" "rem s @ suf = a @ b"
  then obtain us where "rem s = a @ us \<and> us @ suf = b \<or> rem s @ us = a \<and> suf = us @ b"
    by (auto simp: append_eq_append_conv2)
  then show "\<exists>m. rd_bind p f s = Inl (Corrupt m)"
  proof
    assume h: "rem s = a @ us \<and> us @ suf = b"
    then obtain s1 where "p s = Inr (x, s1)" "rem s1 = us" "ok s1"
      using decodesD [OF p \<open>ok s\<close>] by blast
    moreover from this h s obtain m where "f x s1 = Inl (Corrupt m)"
      using decodes_truncD [OF f, of s1 suf] by auto
    ultimately show ?thesis by (simp add: rd_bind_def)
  next
    assume h: "rem s @ us = a \<and> suf = us @ b"
    show ?thesis
    proof (cases "us = []")
      case True
      with h obtain s1 where "p s = Inr (x, s1)" "rem s1 = []" "ok s1"
        using decodesD [OF p \<open>ok s\<close>, of "[]"] by auto
      moreover from this h s True obtain m where "f x s1 = Inl (Corrupt m)"
        using decodes_truncD [OF f, of s1 suf] by auto
      ultimately show ?thesis by (simp add: rd_bind_def)
    next
      case False
      with h obtain m where "p s = Inl (Corrupt m)"
        using decodes_truncD [OF p \<open>ok s\<close>] by blast
      then show ?thesis by (simp add: rd_bind_def)
    qed
  qed
qed

lemma decodes_bind_empty:
  "decodes rem ok p [] x \<Longrightarrow> decodes rem ok (f x) b y \<Longrightarrow> decodes rem ok (rd_bind p f) b y"
  using decodes_bind [of rem ok p "[]" x f b y] by simp

lemma decodes_bind_last:
  "decodes rem ok p a x \<Longrightarrow> decodes rem ok (f x) [] y \<Longrightarrow> decodes rem ok (rd_bind p f) a y"
  using decodes_bind [of rem ok p a x f "[]" y] by simp

lemma decodes_list:
  assumes "\<And>x. x \<in> set xs \<Longrightarrow> decodes rem ok p (enc x) x"
  shows "decodes rem ok (read_list (length xs) p) (concat (map enc xs)) xs"
  using assms
proof (induction xs)
  case Nil
  then show ?case by (simp add: decodes_return)
next
  case (Cons x xs)
  have "decodes rem ok (rd_bind (read_list (length xs) p) (\<lambda>ys. rd_return (x # ys)))
      (concat (map enc xs)) (x # xs)"
    by (rule decodes_bind_last [OF Cons.IH decodes_return]) (simp add: Cons.prems)
  then show ?case
    using Cons.prems [of x] by (auto intro: decodes_bind)
qed

locale byte_source =
  fixes rb :: "nat \<Rightarrow> ('s, bytes) reader"
    and rem :: "'s \<Rightarrow> bytes"
    and ok :: "'s \<Rightarrow> bool"
  assumes read_ok: "ok s \<Longrightarrow> n \<le> length (rem s) \<Longrightarrow>
      \<exists>s'. rb n s = Inr (take n (rem s), s') \<and> rem s' = drop n (rem s) \<and> ok s'"
    and read_short: "ok s \<Longrightarrow> length (rem s) < n \<Longrightarrow> \<exists>m. rb n s = Inl (Corrupt m)"
begin

lemma src_bytes: "length bs = n \<Longrightarrow> decodes rem ok (rb n) bs bs"
  unfolding decodes_def
proof (intro conjI allI impI)
  fix s rest
  assume "length bs = n" "ok s" "rem s = bs @ rest"
  then show "\<exists>s'. rb n s = Inr (bs, s') \<and> rem s' = rest \<and> ok s'"
    using read_ok [of s n] by auto
next
  fix s suf
  assume n: "length bs = n" and s: "ok s" and "suf \<noteq> []" "rem s @ suf = bs"
  then have "length (rem s) < n" by auto
  then show "\<exists>m. rb n s = Inl (Corrupt m)" by (rule read_short [OF s])
qed

lemma src_ints:
  "decodes rem ok (reader_u8 rb) (put_u8 a) a"
  "decodes rem ok (reader_u16 rb) (put_u16 b) b"
  "decodes rem ok (reader_u32 rb) (put_u32 c) c"
  "decodes rem ok (reader_u64 rb) (put_u64 d) d"
  unfolding reader_u8_def reader_u16_def reader_u32_def reader_u64_def
  by (rule decodes_bind_last, rule src_bytes,
      simp add: put_u8_def put_u16_def put_u32_def put_u64_def,
      simp add: put_u8_def put_u16_def put_u32_def put_u64_def decodes_return)+

lemma src_id: "uuid_wf i \<Longrightarrow> decodes rem ok (reader_id rb) i i"
  unfolding reader_id_def uuid_wf_def by (rule src_bytes)

lemma src_u16_prefixed:
  assumes "put_u16_prefixed bs = Inr e"
  shows "decodes rem ok (reader_u16_prefixed rb) e bs"
proof -
  have e: "e = put_u16 (word_of_nat (length bs)) @ bs" and "length bs < 65536"
    using assms by (auto simp: put_u16_prefixed_def split: if_splits)
  then have "unat (word_of_nat (length bs) :: u16) = length bs"
    by (simp add: unat_of_nat)
  then show ?thesis
    unfolding e reader_u16_prefixed_def reader_bytes_def
    by (intro decodes_bind [OF src_ints(2)]) (simp add: src_bytes)
qed

lemma src_u32_prefixed:
  assumes "put_u32_prefixed bs = Inr e"
  shows "decodes rem ok (reader_u32_prefixed rb) e bs"
proof -
  have e: "e = put_u32 (word_of_nat (length bs)) @ bs" and "length bs < 4294967296"
    using assms by (auto simp: put_u32_prefixed_def split: if_splits)
  then have "unat (word_of_nat (length bs) :: u32) = length bs"
    by (simp add: unat_of_nat)
  then show ?thesis
    unfolding e reader_u32_prefixed_def reader_bytes_def
    by (intro decodes_bind [OF src_ints(3)]) (simp add: src_bytes)
qed

text \<open>One step of a reader, in the form the round-trip proofs resolve with.\<close>

lemma src_bind:
  "decodes rem ok (f1 a) r y1 \<Longrightarrow> decodes rem ok (rd_bind (reader_u8 rb) f1) (put_u8 a @ r) y1"
  "decodes rem ok (f2 b) r y2 \<Longrightarrow> decodes rem ok (rd_bind (reader_u16 rb) f2) (put_u16 b @ r) y2"
  "decodes rem ok (f3 c) r y3 \<Longrightarrow> decodes rem ok (rd_bind (reader_u32 rb) f3) (put_u32 c @ r) y3"
  "decodes rem ok (f4 d) r y4 \<Longrightarrow> decodes rem ok (rd_bind (reader_u64 rb) f4) (put_u64 d @ r) y4"
  "uuid_wf i \<Longrightarrow> decodes rem ok (f5 i) r y5 \<Longrightarrow>
     decodes rem ok (rd_bind (reader_id rb) f5) (i @ r) y5"
  "length bs = n \<Longrightarrow> decodes rem ok (f6 bs) r y6 \<Longrightarrow>
     decodes rem ok (rd_bind (reader_bytes rb n) f6) (bs @ r) y6"
  by (auto intro: decodes_bind src_ints src_id src_bytes simp: reader_bytes_def)

lemma src_bind_u16_prefixed:
  "put_u16_prefixed bs = Inr e \<Longrightarrow> decodes rem ok (f bs) r y \<Longrightarrow>
     decodes rem ok (rd_bind (reader_u16_prefixed rb) f) (e @ r) y"
  by (rule decodes_bind [OF src_u16_prefixed])

lemma src_bind_u32_prefixed:
  "put_u32_prefixed bs = Inr e \<Longrightarrow> decodes rem ok (f bs) r y \<Longrightarrow>
     decodes rem ok (rd_bind (reader_u32_prefixed rb) f) (e @ r) y"
  by (rule decodes_bind [OF src_u32_prefixed])

end

lemma decodes_bind_lift:
  "r = Inr x \<Longrightarrow> decodes rem ok (f x) b y \<Longrightarrow> decodes rem ok (rd_bind (rd_lift r) f) b y"
  by (rule decodes_bind_empty [OF decodes_lift])

text \<open>The cursor keeps the contract: its state is the list of bytes still to come.\<close>

interpretation cursor: byte_source cursor_read "\<lambda>s. s" "\<lambda>_. True"
  by unfold_locales (auto simp: cursor_read_def)

abbreviation cursor_decodes :: "(bytes, 'a) reader \<Rightarrow> bytes \<Rightarrow> 'a \<Rightarrow> bool" where
  "cursor_decodes \<equiv> decodes (\<lambda>s. s) (\<lambda>_. True)"

lemma cursor_decodesD: "cursor_decodes p bs x \<Longrightarrow> p (bs @ rest) = Inr (x, rest)"
  unfolding decodes_def by auto

lemma cursor_decodes_trunc:
  "cursor_decodes p (pre @ suf) x \<Longrightarrow> suf \<noteq> [] \<Longrightarrow> \<exists>m. p pre = Inl (Corrupt m)"
  unfolding decodes_def by blast

end
