(* ===== verification/Crypto.thy ===== *)
theory Crypto
  imports Wire
begin

text \<open>
  \<open>crates/lr-crypto\<close>: the AEAD wrapper (\<open>aead.rs\<close>), MACs and content hashes
  (\<open>mac.rs\<close>, \<open>hash.rs\<close>), the nonce counter (\<open>nonce.rs\<close>), the metadata-page codec
  (\<open>page.rs\<close>), the key hierarchy (\<open>keys.rs\<close>) and the Argon2id budget (\<open>kdf.rs\<close>),
  and the zstd wrapper of \<open>lr-format/src/compress.rs\<close>.

  The third-party primitives (the crates \<open>blake3\<close>, \<open>aes-gcm\<close>,
  \<open>chacha20poly1305\<close>, \<open>hkdf\<close>, \<open>argon2\<close>, \<open>zstd\<close>) are the record \<open>prims\<close>, an argument of
  every definition that uses them; \<open>prims_ok\<close> states what their documentation
  promises and is the named hypothesis of the theorems that need it.
\<close>

section \<open>Third-party primitives\<close>

datatype aead_kind = Aes256Gcm | ChaCha20Poly1305

record prims =
  keyed_hash :: "bytes \<Rightarrow> bytes \<Rightarrow> bytes"
  plain_hash :: "bytes \<Rightarrow> bytes"
  derive_key :: "string \<Rightarrow> bytes \<Rightarrow> bytes"
  aead_encrypt :: "aead_kind \<Rightarrow> bytes \<Rightarrow> bytes \<Rightarrow> bytes \<Rightarrow> bytes \<Rightarrow> (bytes \<times> bytes) option"
  aead_decrypt :: "aead_kind \<Rightarrow> bytes \<Rightarrow> bytes \<Rightarrow> bytes \<Rightarrow> bytes \<Rightarrow> bytes \<Rightarrow> bytes option"
  hkdf_expand :: "bytes \<Rightarrow> bytes \<Rightarrow> bytes \<Rightarrow> nat \<Rightarrow> bytes option"
  zstd_compress :: "bytes \<Rightarrow> int \<Rightarrow> bytes option"
  zstd_decompress :: "bytes \<Rightarrow> nat \<Rightarrow> bytes option"

definition hash_ok :: "prims \<Rightarrow> bool" where
  "hash_ok P \<longleftrightarrow>
     (\<forall>k d. length (keyed_hash P k d) = 32) \<and> (\<forall>d. length (plain_hash P d) = 32)
     \<and> (\<forall>c d. length (derive_key P c d) = 32)"

text \<open>
  Detached authenticated encryption: in place (the length is kept), a 16-byte
  tag, total below 4 GiB, and decryption accepts exactly what encryption under
  the same key, nonce and associated data produced.
\<close>

definition aead_ok :: "prims \<Rightarrow> bool" where
  "aead_ok P \<longleftrightarrow>
     (\<forall>a k n d m. length m < 2 ^ 32 \<longrightarrow> aead_encrypt P a k n d m \<noteq> None)
     \<and> (\<forall>a k n d m c t. aead_encrypt P a k n d m = Some (c, t) \<longrightarrow>
          length c = length m \<and> length t = 16)
     \<and> (\<forall>a k n d m c t. length t = 16 \<longrightarrow>
          (aead_decrypt P a k n d c t = Some m \<longleftrightarrow> aead_encrypt P a k n d m = Some (c, t)))"

definition zstd_ok :: "prims \<Rightarrow> bool" where
  "zstd_ok P \<longleftrightarrow>
     (\<forall>d l. 1 \<le> l \<and> l \<le> 22 \<longrightarrow> zstd_compress P d l \<noteq> None)
     \<and> (\<forall>d l c n. zstd_compress P d l = Some c \<and> length d \<le> n \<longrightarrow>
          zstd_decompress P c n = Some d)
     \<and> (\<forall>c n d. zstd_decompress P c n = Some d \<longrightarrow> length d \<le> n)"

definition prims_ok :: "prims \<Rightarrow> bool" where
  "prims_ok P \<longleftrightarrow> hash_ok P \<and> aead_ok P \<and> zstd_ok P"

text \<open>
  A concrete instance of the contract: the tag is a checksum of the message, the
  associated data, the nonce and the key, and compression is the identity.  It
  is what the witnesses evaluate on; nothing is proved about its security.
\<close>

definition demo_sum :: "bytes \<Rightarrow> bytes" where
  "demo_sum bs = nat_le_bytes 16 (nat_of_le bs)"

definition demo_prims :: prims where
  "demo_prims =
     \<lparr> keyed_hash = (\<lambda>k d. nat_le_bytes 32 (nat_of_le (k @ d))),
       plain_hash = (\<lambda>d. nat_le_bytes 32 (nat_of_le d)),
       derive_key = (\<lambda>c d. nat_le_bytes 32 (nat_of_le (bytes_of_string c @ d))),
       aead_encrypt = (\<lambda>a k n d m. Some (m, demo_sum (d @ n @ k @ m))),
       aead_decrypt = (\<lambda>a k n d c t. if t = demo_sum (d @ n @ k @ c) then Some c else None),
       hkdf_expand = (\<lambda>i s f n. if n \<le> 255 * 32
         then Some (nat_le_bytes n (nat_of_le (s @ f @ i))) else None),
       zstd_compress = (\<lambda>d l. if 1 \<le> l \<and> l \<le> 22 then Some d else None),
       zstd_decompress = (\<lambda>c n. if length c \<le> n then Some c else None) \<rparr>"

lemma demo_prims_ok: "prims_ok demo_prims"
  by (auto simp: prims_ok_def hash_ok_def aead_ok_def zstd_ok_def demo_prims_def demo_sum_def
      split: if_splits)

lemma length_keyed_hash [bytes_len]: "hash_ok P \<Longrightarrow> length (keyed_hash P k d) = 32"
  and length_plain_hash [bytes_len]: "hash_ok P \<Longrightarrow> length (plain_hash P d) = 32"
  and length_derive_key [bytes_len]: "hash_ok P \<Longrightarrow> length (derive_key P c d) = 32"
  by (simp_all add: hash_ok_def)

lemma aead_okD:
  assumes "aead_ok P" "aead_encrypt P a k n d m = Some (c, t)"
  shows "length c = length m" "length t = 16" "aead_decrypt P a k n d c t = Some m"
proof -
  show "length c = length m" and t: "length t = 16"
    using assms unfolding aead_ok_def by blast+
  show "aead_decrypt P a k n d c t = Some m"
    using assms t unfolding aead_ok_def by blast
qed

lemma aead_encryptE:
  assumes "aead_ok P" "length m < 2 ^ 32"
  obtains c t where "aead_encrypt P a k n d m = Some (c, t)" "length c = length m" "length t = 16"
    "aead_decrypt P a k n d c t = Some m"
proof -
  have "aead_encrypt P a k n d m \<noteq> None"
    using assms unfolding aead_ok_def by blast
  then obtain c t where enc: "aead_encrypt P a k n d m = Some (c, t)" by auto
  from that [OF enc aead_okD [OF assms(1) enc]] show thesis .
qed

section \<open>AEAD identifiers and the in-place wrapper\<close>

fun aead_id_of :: "aead_kind \<Rightarrow> u32" where
  "aead_id_of Aes256Gcm = 1"
| "aead_id_of ChaCha20Poly1305 = 2"

definition aead_from_id :: "u32 \<Rightarrow> aead_kind res" where
  "aead_from_id i =
     (if i = 1 then Inr Aes256Gcm else if i = 2 then Inr ChaCha20Poly1305
      else Inl (Unsupported ''aead_id ''))"

lemma aead_from_id_roundtrip [simp]: "aead_from_id (aead_id_of k) = Inr k"
  by (cases k) (simp_all add: aead_from_id_def)

text \<open>\<open>seal_in_place\<close> mutates its buffer and returns the tag: the model returns both.\<close>

definition seal_in_place ::
    "prims \<Rightarrow> aead_kind \<Rightarrow> bytes \<Rightarrow> bytes \<Rightarrow> bytes \<Rightarrow> bytes \<Rightarrow> (bytes \<times> bytes) res" where
  "seal_in_place P kind key nonce aad buf =
     (case aead_encrypt P kind key nonce aad buf of None \<Rightarrow> Inl Aead | Some ct \<Rightarrow> Inr ct)"

definition open_in_place ::
    "prims \<Rightarrow> aead_kind \<Rightarrow> bytes \<Rightarrow> bytes \<Rightarrow> bytes \<Rightarrow> bytes \<Rightarrow> bytes \<Rightarrow> bytes res" where
  "open_in_place P kind key nonce aad buf tag =
     (case aead_decrypt P kind key nonce aad buf tag of None \<Rightarrow> Inl Aead | Some m \<Rightarrow> Inr m)"

lemma seal_in_placeE:
  assumes "aead_ok P" "length m < 2 ^ 32"
  obtains c t where "seal_in_place P a k n d m = Inr (c, t)" "length c = length m" "length t = 16"
    "open_in_place P a k n d c t = Inr m"
  by (rule aead_encryptE [OF assms, of a k n d]) (simp add: that seal_in_place_def open_in_place_def)

lemma seal_in_place_Inr:
  assumes "aead_ok P" "seal_in_place P a k n d m = Inr (c, t)"
  shows "length c = length m" "length t = 16" "open_in_place P a k n d c t = Inr m"
  using aead_okD [OF assms(1), of a k n d m c t] assms(2)
  by (auto simp: seal_in_place_def open_in_place_def split: option.splits)

lemma open_in_place_Inr:
  assumes "aead_ok P" "length t = 16" "open_in_place P a k n d c t = Inr m"
  shows "seal_in_place P a k n d m = Inr (c, t)" "length c = length m"
proof -
  have "aead_decrypt P a k n d c t = Some m"
    using assms(3) by (simp add: open_in_place_def split: option.splits)
  then have "aead_encrypt P a k n d m = Some (c, t)"
    using assms(1,2) unfolding aead_ok_def by blast
  then show "seal_in_place P a k n d m = Inr (c, t)" "length c = length m"
    using aead_okD(1) [OF assms(1)] by (simp_all add: seal_in_place_def)
qed

section \<open>MACs and content hashes\<close>

definition mac32 :: "prims \<Rightarrow> bytes \<Rightarrow> bytes \<Rightarrow> bytes" where
  "mac32 P key d = keyed_hash P key d"

definition unkeyed_mac32 :: "prims \<Rightarrow> bytes \<Rightarrow> bytes" where
  "unkeyed_mac32 P d = plain_hash P d"

definition verify_mac32 :: "prims \<Rightarrow> bytes \<Rightarrow> bytes \<Rightarrow> bytes \<Rightarrow> bool" where
  "verify_mac32 P key d expected \<longleftrightarrow> expected = keyed_hash P key d"

definition fixed_public_mac_key :: "prims \<Rightarrow> bytes" where
  "fixed_public_mac_key P = derive_key P ''lrimg-v1/no-encrypt-mac'' []"

definition content_hash :: "prims \<Rightarrow> bytes \<Rightarrow> bytes \<Rightarrow> bytes" where
  "content_hash P dedup_key d = keyed_hash P dedup_key d"

lemma length_macs [bytes_len]:
  "hash_ok P \<Longrightarrow> length (mac32 P k d) = 32"
  "hash_ok P \<Longrightarrow> length (unkeyed_mac32 P d) = 32"
  "hash_ok P \<Longrightarrow> length (content_hash P k d) = 32"
  "hash_ok P \<Longrightarrow> length (fixed_public_mac_key P) = 32"
  by (simp_all add: mac32_def unkeyed_mac32_def content_hash_def fixed_public_mac_key_def hash_ok_def)

section \<open>The nonce counter\<close>

definition nonce_len :: nat where
  "nonce_len = 12"

definition tag_len :: nat where
  "tag_len = 16"

type_synonym nonce_seq = "128 word"

definition nonce_seq_new :: nonce_seq where
  "nonce_seq_new = 0"

definition max_counter :: "128 word" where
  "max_counter = push_bit 96 1 - 1"

definition u128_to_be_bytes :: "128 word \<Rightarrow> bytes" where
  "u128_to_be_bytes v = rev (nat_le_bytes 16 (unat v))"

definition next_nonce :: "nonce_seq \<Rightarrow> (bytes \<times> nonce_seq) res" where
  "next_nonce counter =
     (if counter > max_counter then Inl (Corrupt ''nonce counter exhausted (96-bit overflow)'')
      else Inr (slice 4 16 (u128_to_be_bytes counter), counter + 1))"

text \<open>\<open>n\<close> nonces in a row, as the writer of one key takes them.\<close>

fun next_nonces :: "nat \<Rightarrow> nonce_seq \<Rightarrow> (bytes list \<times> nonce_seq) res" where
  "next_nonces 0 s = Inr ([], s)"
| "next_nonces (Suc n) s =
     res_bind (next_nonce s) (\<lambda>(x, s'). res_bind (next_nonces n s') (\<lambda>(xs, s''). Inr (x # xs, s'')))"

lemma unat_max_counter: "unat max_counter = 2 ^ 96 - 1"
  by (simp add: max_counter_def)

lemma next_nonce_Inr:
  "next_nonce s = Inr (x, s') \<longleftrightarrow>
     unat s < 2 ^ 96 \<and> x = slice 4 16 (u128_to_be_bytes s) \<and> s' = s + 1"
proof -
  have "s > max_counter \<longleftrightarrow> \<not> unat s < 2 ^ 96"
    by (auto simp: word_less_nat_alt unat_max_counter)
  then show ?thesis by (auto simp: next_nonce_def)
qed

lemma nat_le_bytes_take: "k \<le> n \<Longrightarrow> take k (nat_le_bytes n v) = nat_le_bytes k v"
proof (induction n arbitrary: k v)
  case (Suc n)
  then show ?case by (cases k) simp_all
qed simp

lemma nonce_bytes: "slice 4 16 (u128_to_be_bytes s) = rev (nat_le_bytes 12 (unat s))"
  by (simp add: slice_def u128_to_be_bytes_def drop_rev nat_le_bytes_take)

lemma length_nonce: "next_nonce s = Inr (x, s') \<Longrightarrow> length x = 12"
  by (auto simp: next_nonce_Inr nonce_bytes)

lemma nonce_value:
  "next_nonce s = Inr (x, s') \<Longrightarrow> nat_of_le (rev x) = unat s \<and> unat s' = unat s + 1"
  by (auto simp: next_nonce_Inr nonce_bytes nat_of_le_bytes unat_word_ariths)

lemma next_nonces_values:
  "next_nonces n s = Inr (xs, s') \<Longrightarrow>
   map (nat_of_le \<circ> rev) xs = [unat s..<unat s + n] \<and> unat s' = unat s + n"
proof (induction n arbitrary: s xs)
  case 0
  then show ?case by simp
next
  case (Suc n)
  from Suc.prems obtain x s1 ys where x: "next_nonce s = Inr (x, s1)"
    and ys: "next_nonces n s1 = Inr (ys, s')" and "xs = x # ys"
    by (auto simp: res_bind_eq_Inr split: prod.splits)
  moreover from x have "nat_of_le (rev x) = unat s" "unat s1 = unat s + 1"
    using nonce_value by blast+
  ultimately show ?case using Suc.IH [OF ys] by (simp add: upt_conv_Cons)
qed

section \<open>Metadata pages\<close>

datatype stream_id = Manifest | HashIndex | Extras | PageTable

fun stream_as_u8 :: "stream_id \<Rightarrow> u8" where
  "stream_as_u8 Manifest = 1"
| "stream_as_u8 HashIndex = 2"
| "stream_as_u8 Extras = 3"
| "stream_as_u8 PageTable = 4"

definition stream_from_u8 :: "u8 \<Rightarrow> stream_id res" where
  "stream_from_u8 v =
     (if v = 1 then Inr Manifest else if v = 2 then Inr HashIndex else if v = 3 then Inr Extras
      else if v = 4 then Inr PageTable else Inl (Corrupt ''unknown page stream ''))"

lemma stream_roundtrip [simp]: "stream_from_u8 (stream_as_u8 s) = Inr s"
  by (cases s) (simp_all add: stream_from_u8_def)

lemma stream_as_u8_inject [simp]: "stream_as_u8 a = stream_as_u8 b \<longleftrightarrow> a = b"
  by (cases a; cases b) simp_all

lemma stream_from_u8_Inr: "stream_from_u8 v = Inr s \<longleftrightarrow> v = stream_as_u8 s"
  by (cases s) (auto simp: stream_from_u8_def split: if_splits)

definition page_magic :: u16 where
  "page_magic = 0x9A6E"

definition page_header_len :: nat where
  "page_header_len = 2 + 4 + nonce_len"

definition page_overhead :: nat where
  "page_overhead = page_header_len + tag_len"

definition max_page_len :: nat where
  "max_page_len = 4 * 1024 * 1024"

definition page_ad :: "stream_id \<Rightarrow> u64 \<Rightarrow> bytes" where
  "page_ad stream page_no = stream_as_u8 stream # u64_to_le_bytes page_no"

definition seal_page ::
    "prims \<Rightarrow> aead_kind \<Rightarrow> bytes \<Rightarrow> stream_id \<Rightarrow> u64 \<Rightarrow> bytes \<Rightarrow> nonce_seq
     \<Rightarrow> (bytes \<times> nonce_seq) res" where
  "seal_page P kind meta_key stream page_no plaintext nonces =
     (if length plaintext > max_page_len then Inl (Unsupported ''page payload '')
      else res_bind (next_nonce nonces) (\<lambda>(nonce, nonces').
        res_bind (seal_in_place P kind meta_key nonce (page_ad stream page_no) plaintext)
          (\<lambda>(buf, tag).
            Inr (u16_to_le_bytes page_magic @ u32_to_le_bytes (word_of_nat (length buf))
                   @ nonce @ buf @ tag, nonces'))))"

definition open_page ::
    "prims \<Rightarrow> aead_kind \<Rightarrow> bytes \<Rightarrow> stream_id \<Rightarrow> u64 \<Rightarrow> bytes \<Rightarrow> bytes res" where
  "open_page P kind meta_key stream page_no rec =
     (if length rec < page_overhead then Inl (Corrupt ''page record shorter than its overhead'')
      else if u16_from_le_bytes (slice 0 2 rec) \<noteq> page_magic then Inl (Corrupt ''page magic 0x'')
      else (let len = unat (u32_from_le_bytes (slice 2 6 rec)) in
        if len > max_page_len then Inl (Corrupt ''page length '')
        else if length rec \<noteq> page_overhead + len then Inl (Corrupt ''page record is '')
        else (let nonce = slice (page_header_len - nonce_len) page_header_len rec;
                  tag = drop (page_header_len + len) rec;
                  buf = slice page_header_len (page_header_len + len) rec
              in open_in_place P kind meta_key nonce (page_ad stream page_no) buf tag)))"

lemmas page_consts = page_header_len_def page_overhead_def nonce_len_def tag_len_def

lemma page_ad_inject: "page_ad s n = page_ad s' n' \<longleftrightarrow> s = s' \<and> n = n'"
  by (auto simp: page_ad_def)

lemma seal_page_Inr:
  assumes "seal_page P kind key stream no pt ns = Inr (rec, ns')"
  obtains nonce buf tag where "next_nonce ns = Inr (nonce, ns')" "length pt \<le> max_page_len"
    "seal_in_place P kind key nonce (page_ad stream no) pt = Inr (buf, tag)"
    "rec = u16_to_le_bytes page_magic @ u32_to_le_bytes (word_of_nat (length buf)) @ nonce @ buf @ tag"
  using assms by (auto simp: seal_page_def res_bind_eq_Inr split: if_splits)

lemma length_seal_page:
  assumes "aead_ok P" "seal_page P kind key stream no pt ns = Inr (rec, ns')"
  shows "length rec = page_overhead + length pt"
  using assms(2)
proof (rule seal_page_Inr)
  fix nonce buf tag
  assume "next_nonce ns = Inr (nonce, ns')" "length pt \<le> max_page_len"
    "seal_in_place P kind key nonce (page_ad stream no) pt = Inr (buf, tag)"
    "rec = u16_to_le_bytes page_magic @ u32_to_le_bytes (word_of_nat (length buf)) @ nonce @ buf @ tag"
  then show ?thesis
    using seal_in_place_Inr [OF assms(1)] length_nonce by (simp add: page_consts)
qed

text \<open>A record with the page layout opens exactly to what its cipher text decrypts to.\<close>

lemma open_page_layout:
  assumes "length nonce = 12" "length tag = 16" "length buf \<le> max_page_len"
  shows "open_page P kind key stream no
      (u16_to_le_bytes page_magic @ u32_to_le_bytes (word_of_nat (length buf)) @ nonce @ buf @ tag)
    = open_in_place P kind key nonce (page_ad stream no) buf tag"
proof -
  let ?l = "word_of_nat (length buf) :: u32"
  let ?rec = "u16_to_le_bytes page_magic @ u32_to_le_bytes ?l @ nonce @ buf @ tag"
  have l: "unat ?l = length buf"
    using assms(3) by (intro unat_of_nat_u32) (simp add: max_page_len_def)
  have "slice 0 2 ?rec = u16_to_le_bytes page_magic" "slice 2 6 ?rec = u32_to_le_bytes ?l"
    "slice 6 18 ?rec = nonce" "slice 18 (18 + length buf) ?rec = buf"
    "drop (18 + length buf) ?rec = tag" "length ?rec = 34 + length buf"
    using assms by (simp_all add: slice_def)
  then show ?thesis
    using assms(3) l by (simp add: open_page_def page_consts Let_def)
qed

lemma open_seal_page:
  assumes "aead_ok P" "seal_page P kind key stream no pt ns = Inr (rec, ns')"
  shows "open_page P kind key stream no rec = Inr pt"
  using assms(2)
proof (rule seal_page_Inr)
  fix nonce buf tag
  assume n: "next_nonce ns = Inr (nonce, ns')" and pt: "length pt \<le> max_page_len"
    and s: "seal_in_place P kind key nonce (page_ad stream no) pt = Inr (buf, tag)"
    and r: "rec = u16_to_le_bytes page_magic @ u32_to_le_bytes (word_of_nat (length buf)) @ nonce @ buf @ tag"
  note sl = seal_in_place_Inr [OF assms(1) s]
  show ?thesis
    using open_page_layout [of nonce tag buf P kind key stream no] sl pt length_nonce [OF n]
    by (simp add: r)
qed

lemma open_page_Inr:
  assumes "aead_ok P" "open_page P kind key stream no rec = Inr pt"
  obtains nonce buf tag where "length nonce = 12" "length tag = 16" "length buf = length pt"
    "length pt \<le> max_page_len"
    "seal_in_place P kind key nonce (page_ad stream no) pt = Inr (buf, tag)"
    "rec = u16_to_le_bytes page_magic @ u32_to_le_bytes (word_of_nat (length buf)) @ nonce @ buf @ tag"
proof -
  define len where "len = unat (u32_from_le_bytes (slice 2 6 rec))"
  define nonce where "nonce = slice 6 18 rec"
  define buf where "buf = slice 18 (18 + len) rec"
  define tag where "tag = drop (18 + len) rec"
  have c: "u16_from_le_bytes (slice 0 2 rec) = page_magic" "len \<le> max_page_len"
    "length rec = 34 + len"
    and o: "open_in_place P kind key nonce (page_ad stream no) buf tag = Inr pt"
    using assms(2)
    by (auto simp: open_page_def page_consts Let_def len_def nonce_def buf_def tag_def split: if_splits)
  have lens: "length nonce = 12" "length tag = 16" "length buf = len"
    using c(3) by (simp_all add: nonce_def tag_def buf_def)
  note s = open_in_place_Inr [OF assms(1) lens(2) o]
  have h: "slice 0 2 rec = u16_to_le_bytes page_magic"
    using c(1,3) to_from_le_bytes(1) [of "slice 0 2 rec"] by simp
  have h': "slice 2 6 rec = u32_to_le_bytes (word_of_nat (length buf))"
    using c(3) lens(3) to_from_le_bytes(2) [of "slice 2 6 rec"] by (simp add: len_def)
  have tl: "tag = slice (18 + len) (34 + len) rec"
    using c(3) by (simp add: tag_def slice_def)
  have "slice 0 2 rec @ slice 2 6 rec @ nonce @ buf @ tag = slice 0 (34 + len) rec"
    unfolding tl nonce_def buf_def by (simp add: slice_join)
  also have "\<dots> = rec" using c(3) by (simp add: slice_def)
  finally have "rec = u16_to_le_bytes page_magic @ u32_to_le_bytes (word_of_nat (length buf))
      @ nonce @ buf @ tag"
    by (simp add: h h')
  then show thesis
    using that [of nonce tag buf] lens s c(2) by simp
qed

section \<open>The key hierarchy\<close>

text \<open>\<open>wrap_chain_key\<close> draws its nonce from the system's random source: an argument here.\<close>

definition wrap_ad :: "uuid \<Rightarrow> bytes" where
  "wrap_ad chain_id = bytes_of_string ''lrimg-v1/wrap'' @ chain_id"

definition wrap_chain_key :: "prims \<Rightarrow> bytes \<Rightarrow> bytes \<Rightarrow> bytes \<Rightarrow> uuid \<Rightarrow> (bytes \<times> bytes) res" where
  "wrap_chain_key P nonce kek chain_key chain_id =
     res_bind (seal_in_place P Aes256Gcm kek nonce (wrap_ad chain_id) chain_key)
       (\<lambda>(ciphertext, tag). Inr (nonce, ciphertext @ tag))"

definition unwrap_chain_key :: "prims \<Rightarrow> bytes \<Rightarrow> uuid \<Rightarrow> bytes \<Rightarrow> bytes \<Rightarrow> bytes res" where
  "unwrap_chain_key P kek chain_id nonce wrapped =
     (let tag = drop 32 wrapped in
      res_bind (open_in_place P Aes256Gcm kek nonce (wrap_ad chain_id) (take 32 wrapped) tag)
        (\<lambda>plaintext. if length plaintext = 32 then Inr plaintext else Inl Aead))"

definition hkdf_sha256 :: "prims \<Rightarrow> bytes \<Rightarrow> bytes \<Rightarrow> bytes \<Rightarrow> nat \<Rightarrow> bytes res" where
  "hkdf_sha256 P ikm salt info n =
     (case hkdf_expand P ikm salt info n of
        None \<Rightarrow> Inl (Unsupported ''hkdf output length'') | Some okm \<Rightarrow> Inr okm)"

definition file_keys :: "prims \<Rightarrow> bytes \<Rightarrow> uuid \<Rightarrow> (bytes \<times> bytes) res" where
  "file_keys P chain_key image_uuid =
     res_bind (hkdf_sha256 P chain_key image_uuid (bytes_of_string ''lrimg-v1/file'') 64)
       (\<lambda>okm. Inr (take 32 okm, drop 32 okm))"

definition dedup_key_of :: "prims \<Rightarrow> bytes \<Rightarrow> uuid \<Rightarrow> bytes res" where
  "dedup_key_of P chain_key chain_id =
     hkdf_sha256 P chain_key chain_id (bytes_of_string ''lrimg-v1/dedup'') 32"

lemma unwrap_wrap_chain_key:
  assumes "aead_ok P" "length chain_key = 32"
    and "wrap_chain_key P nonce kek chain_key chain_id = Inr (n, wrapped)"
  shows "n = nonce \<and> length wrapped = 48
    \<and> unwrap_chain_key P kek chain_id n wrapped = Inr chain_key"
proof -
  from assms(3) obtain c t
    where s: "seal_in_place P Aes256Gcm kek nonce (wrap_ad chain_id) chain_key = Inr (c, t)"
      and "n = nonce" "wrapped = c @ t"
    by (auto simp: wrap_chain_key_def res_bind_eq_Inr)
  then show ?thesis
    using seal_in_place_Inr [OF assms(1) s] assms(2) by (simp add: unwrap_chain_key_def)
qed

lemma wrap_chain_key_total:
  assumes "aead_ok P" "length chain_key = 32"
  shows "\<exists>wrapped. wrap_chain_key P nonce kek chain_key chain_id = Inr (nonce, wrapped)"
proof -
  have "length chain_key < 2 ^ 32" using assms(2) by simp
  from seal_in_placeE [OF assms(1) this] obtain c t
    where "seal_in_place P Aes256Gcm kek nonce (wrap_ad chain_id) chain_key = Inr (c, t)" .
  then show ?thesis by (simp add: wrap_chain_key_def)
qed

section \<open>Argon2id parameters\<close>

record kdf_params =
  m_cost_kib :: u32
  t_cost :: u32
  p_cost :: u32

definition max_m_cost_kib :: u32 where "max_m_cost_kib = 1024 * 1024"
definition max_t_cost :: u32 where "max_t_cost = 16"
definition max_p_cost :: u32 where "max_p_cost = 16"
definition max_work_kib_passes :: u64 where "max_work_kib_passes = 4 * 1024 * 1024"

definition check_budget :: "kdf_params \<Rightarrow> unit res" where
  "check_budget p =
     (let work = ucast (m_cost_kib p) * ucast (t_cost p) :: u64 in
      if m_cost_kib p > max_m_cost_kib \<or> t_cost p > max_t_cost \<or> p_cost p > max_p_cost
         \<or> work > max_work_kib_passes
      then Inl (Unsupported ''argon2 parameters m='') else Inr ())"

lemma unat_u32_mult_u64: "unat (ucast (a :: u32) * ucast (b :: u32) :: u64) = unat a * unat b"
proof -
  have "unat a \<le> 4294967295" "unat b \<le> 4294967295"
    using unat_less_width(3) [of a] unat_less_width(3) [of b] by linarith+
  then have "unat a * unat b \<le> 4294967295 * 4294967295" by (rule mult_le_mono)
  then show ?thesis by (simp add: unat_word_ariths)
qed

lemma check_budget_iff:
  "check_budget p = Inr () \<longleftrightarrow>
     unat (m_cost_kib p) \<le> 1048576 \<and> unat (t_cost p) \<le> 16 \<and> unat (p_cost p) \<le> 16
     \<and> unat (m_cost_kib p) * unat (t_cost p) \<le> 4194304"
  by (simp add: check_budget_def Let_def word_less_nat_alt unat_u32_mult_u64 not_less
      max_m_cost_kib_def max_t_cost_def max_p_cost_def max_work_kib_passes_def)

section \<open>Compression\<close>

definition compress :: "prims \<Rightarrow> bytes \<Rightarrow> int \<Rightarrow> bytes res" where
  "compress P d level =
     (if \<not> (1 \<le> level \<and> level \<le> 22) then Inl (Unsupported ''zstd level '')
      else (case zstd_compress P d level of None \<Rightarrow> Inl (Io ''zstd'') | Some c \<Rightarrow> Inr c))"

definition decompress :: "prims \<Rightarrow> bytes \<Rightarrow> nat \<Rightarrow> bytes res" where
  "decompress P d max_output =
     (case zstd_decompress P d max_output of
        None \<Rightarrow> Inl (Io ''zstd'')
      | Some out \<Rightarrow> if length out > max_output then Inl (Corrupt ''zstd frame expands to '') else Inr out)"

definition compress_if_smaller :: "prims \<Rightarrow> bytes \<Rightarrow> int \<Rightarrow> (bytes \<times> bool) res" where
  "compress_if_smaller P d level =
     res_bind (compress P d level)
       (\<lambda>compressed. if length compressed < length d then Inr (compressed, True) else Inr (d, False))"

lemma zstd_okD:
  assumes "zstd_ok P"
  shows "1 \<le> l \<Longrightarrow> l \<le> 22 \<Longrightarrow> zstd_compress P d l \<noteq> None"
    and "zstd_compress P d l = Some c \<Longrightarrow> length d \<le> n \<Longrightarrow> zstd_decompress P c n = Some d"
    and "zstd_decompress P c n = Some d \<Longrightarrow> length d \<le> n"
  using assms unfolding zstd_ok_def by blast+

lemma compress_if_smaller_Inr:
  assumes "zstd_ok P" "compress_if_smaller P d level = Inr (out, z)"
  shows "length out \<le> length d"
    and "length d \<le> n \<Longrightarrow> (if z then decompress P out n else Inr out) = Inr d"
proof -
  from assms(2) consider "out = d" "\<not> z"
    | "z" "zstd_compress P d level = Some out" "length out < length d"
    by (auto simp: compress_if_smaller_def compress_def res_bind_eq_Inr
        split: if_splits option.splits)
  note cs = this
  show "length out \<le> length d" by (rule cs) simp_all
  show "(if z then decompress P out n else Inr out) = Inr d" if "length d \<le> n"
    using that by (cases rule: cs) (simp_all add: decompress_def zstd_okD(2) [OF assms(1)])
qed

lemma compress_if_smaller_total:
  assumes "zstd_ok P" "1 \<le> level" "level \<le> 22"
  shows "\<exists>out z. compress_if_smaller P d level = Inr (out, z)"
proof -
  have "zstd_compress P d level \<noteq> None" using assms by (intro zstd_okD(1))
  then show ?thesis using assms by (auto simp: compress_if_smaller_def compress_def)
qed

section \<open>Properties\<close>

lemma next_nonces_lengths: "next_nonces n s = Inr (xs, s') \<Longrightarrow> x \<in> set xs \<Longrightarrow> length x = 12"
proof (induction n arbitrary: s xs)
  case (Suc n)
  from Suc.prems(1) obtain y s1 ys where y: "next_nonce s = Inr (y, s1)"
    and ys: "next_nonces n s1 = Inr (ys, s')" and xs: "xs = y # ys"
    by (auto simp: res_bind_eq_Inr split: prod.splits)
  show ?case
    using Suc.prems(2) Suc.IH [OF ys] length_nonce [OF y] by (auto simp: xs)
qed simp

text \<open>
  C28. The nonce counter never repeats a nonce: the nonces drawn from one
  counter are pairwise distinct 12-byte values, the counter advances by exactly
  their number, and it refuses exactly when the 96-bit space is used up.
\<close>

theorem nonces_never_repeat:
  assumes "next_nonces n s = Inr (xs, s')"
  shows "distinct xs \<and> length xs = n \<and> (\<forall>x \<in> set xs. length x = 12) \<and> unat s' = unat s + n
    \<and> ((\<exists>m. next_nonce s' = Inl (Corrupt m)) \<longleftrightarrow> 2 ^ 96 \<le> unat s')"
proof -
  note v = next_nonces_values [OF assms]
  then have "distinct (map (nat_of_le \<circ> rev) xs)" by simp
  then have "distinct xs" by (simp add: distinct_map)
  moreover have "length xs = n" using arg_cong [OF conjunct1 [OF v], of length] by simp
  moreover have "s' > max_counter \<longleftrightarrow> 2 ^ 96 \<le> unat s'"
    by (auto simp: word_less_nat_alt unat_max_counter)
  then have "(\<exists>m. next_nonce s' = Inl (Corrupt m)) \<longleftrightarrow> 2 ^ 96 \<le> unat s'"
    by (simp add: next_nonce_def)
  ultimately show ?thesis using v next_nonces_lengths [OF assms] by simp
qed

lemma next_nonces_demo: "next_nonces 2 0 = Inr ([replicate 12 0, replicate 11 0 @ [1]], 2)"
  by code_simp

theorem nonces_never_repeat_witness:
  "distinct [replicate 12 0, replicate 11 0 @ [1 :: u8]]
   \<and> length [replicate 12 0, replicate 11 0 @ [1 :: u8]] = 2
   \<and> unat (2 :: nonce_seq) = unat (0 :: nonce_seq) + 2
   \<and> ((\<exists>m. next_nonce 2 = Inl (Corrupt m)) \<longleftrightarrow> 2 ^ 96 \<le> unat (2 :: nonce_seq))"
  using nonces_never_repeat [OF next_nonces_demo] by blast


lemma demo_page:
  "\<exists>rec ns'. seal_page demo_prims Aes256Gcm (replicate 32 9) Manifest 3 [1, 2] 0 = Inr (rec, ns')"
  by (simp add: seal_page_def next_nonce_def seal_in_place_def demo_prims_def max_page_len_def
      max_counter_def)


text \<open>A chain key wrapped under a key-encryption key is always produced, takes
  48 bytes, and unwraps to the same key under the same KEK and chain.
\<close>

lemma chain_key_wrap_roundtrip:
  assumes "aead_ok P" "length chain_key = 32"
  shows "\<exists>wrapped. wrap_chain_key P nonce kek chain_key chain = Inr (nonce, wrapped)
    \<and> length wrapped = 48 \<and> unwrap_chain_key P kek chain nonce wrapped = Inr chain_key"
  using wrap_chain_key_total [OF assms] unwrap_wrap_chain_key [OF assms] by blast

text \<open>The Argon2 budget check accepts exactly the parameters within the limits,
  with the product of memory and passes computed without overflow.
\<close>

lemma check_budget_exact:
  "check_budget p = Inr () \<longleftrightarrow>
     unat (m_cost_kib p) \<le> 1048576 \<and> unat (t_cost p) \<le> 16 \<and> unat (p_cost p) \<le> 16
     \<and> unat (m_cost_kib p) * unat (t_cost p) \<le> 4194304"
  by (rule check_budget_iff)

end
