(* ===== verification/Superblock.thy ===== *)
theory Superblock
  imports Crypto
begin

text \<open>
  \<open>crates/lr-format/src/sb.rs\<close>: the 4096-byte superblock at the start of an image.
  \<open>sb_encode\<close> fills a zeroed buffer field by field at the offsets of the format,
  as the code does; \<open>sb_decode\<close> checks the magic, the hash and the header
  fields; \<open>sb_verify_mac\<close> authenticates.
\<close>

unbundle bit_operations_syntax

section \<open>Data\<close>

definition sb_size :: nat where "sb_size = 4096"
definition sb_magic :: bytes where "sb_magic = [0x4C, 0x52, 0x49, 0x4D, 0x47, 0x01, 0, 0]"
definition format_major_known :: u32 where "format_major_known = 1"
definition sb_hash_offset :: nat where "sb_hash_offset = 1024"
definition sb_mac_offset :: nat where "sb_mac_offset = 1056"
definition superblock_copy_len :: nat where "superblock_copy_len = sb_hash_offset"
definition min_chunk_size :: u32 where "min_chunk_size = 256 * 1024"
definition max_chunk_size :: u32 where "max_chunk_size = 4 * 1024 * 1024"

definition flag_encrypted :: u64 where "flag_encrypted = 1"
definition flag_compressed :: u64 where "flag_compressed = 2"
definition flag_delta_manifest :: u64 where "flag_delta_manifest = 4"
definition flag_whole_disk :: u64 where "flag_whole_disk = 8"
definition flag_inconsistent :: u64 where "flag_inconsistent = 16"

record superblock =
  format_major :: u32
  min_reader :: u32
  sb_flags :: u64
  sb_image_kind :: image_kind
  sb_consistency :: consistency
  image_uuid :: uuid
  chain_id :: uuid
  set_id :: uuid
  parent_uuid :: uuid
  seq_in_chain :: u32
  created_unix :: u64
  source_size_bytes :: u64
  logical_block_size :: u32
  chunk_size :: u32
  kdf_id :: u32
  aead_id :: u32
  kdf_salt :: bytes
  argon2_m_cost_kib :: u32
  argon2_t_cost :: u32
  argon2_p_cost :: u32
  wrap_nonce :: bytes
  wrapped_chain_key :: bytes

text \<open>The array lengths that the Rust struct fixes.\<close>

definition sb_wf :: "superblock \<Rightarrow> bool" where
  "sb_wf sb \<longleftrightarrow>
     length (image_uuid sb) = 16 \<and> length (chain_id sb) = 16 \<and> length (set_id sb) = 16
     \<and> length (parent_uuid sb) = 16 \<and> length (kdf_salt sb) = 16
     \<and> length (wrap_nonce sb) = 12 \<and> length (wrapped_chain_key sb) = 48"

section \<open>Accessors and header checks\<close>

definition sb_aead_kind :: "superblock \<Rightarrow> aead_kind res" where
  "sb_aead_kind sb = aead_from_id (aead_id sb)"

definition sb_kdf_params :: "superblock \<Rightarrow> kdf_params" where
  "sb_kdf_params sb = \<lparr> m_cost_kib = argon2_m_cost_kib sb, t_cost = argon2_t_cost sb,
     p_cost = argon2_p_cost sb \<rparr>"

definition sb_is_encrypted :: "superblock \<Rightarrow> bool" where
  "sb_is_encrypted sb \<longleftrightarrow> sb_flags sb AND flag_encrypted \<noteq> 0"

definition sb_is_delta_manifest :: "superblock \<Rightarrow> bool" where
  "sb_is_delta_manifest sb \<longleftrightarrow> sb_flags sb AND flag_delta_manifest \<noteq> 0"

definition sb_is_whole_disk :: "superblock \<Rightarrow> bool" where
  "sb_is_whole_disk sb \<longleftrightarrow> sb_flags sb AND flag_whole_disk \<noteq> 0"

definition sb_is_inconsistent :: "superblock \<Rightarrow> bool" where
  "sb_is_inconsistent sb \<longleftrightarrow> sb_consistency sb = NoneConsistency"

definition sb_set_consistency :: "superblock \<Rightarrow> consistency \<Rightarrow> superblock" where
  "sb_set_consistency sb c =
     (let sb1 = sb\<lparr>sb_consistency := c\<rparr>;
          sb2 = sb1\<lparr>sb_flags := sb_flags sb1 AND NOT flag_inconsistent\<rparr>
      in if sb_is_inconsistent sb2 then sb2\<lparr>sb_flags := sb_flags sb2 OR flag_inconsistent\<rparr>
         else sb2)"

definition authentication_key :: "prims \<Rightarrow> bytes option \<Rightarrow> bytes" where
  "authentication_key P meta_key =
     (case meta_key of Some k \<Rightarrow> k | None \<Rightarrow> fixed_public_mac_key P)"

definition is_power_of_two :: "u32 \<Rightarrow> bool" where
  "is_power_of_two v \<longleftrightarrow> list_ex (\<lambda>k. v = push_bit k 1) [0..<32]"

definition is_power_of_two_in_range :: "u32 \<Rightarrow> u32 \<Rightarrow> u32 \<Rightarrow> bool" where
  "is_power_of_two_in_range v lo hi \<longleftrightarrow> is_power_of_two v \<and> lo \<le> v \<and> v \<le> hi"

definition validate_header :: "superblock \<Rightarrow> unit res" where
  "validate_header sb =
     (if format_major sb > format_major_known then Inl (Unsupported ''format_major '')
      else if min_reader sb > format_major_known then Inl (Unsupported ''min_reader '')
      else if (sb_flags sb AND flag_inconsistent \<noteq> 0) \<noteq> sb_is_inconsistent sb
        then Inl (Corrupt ''consistency level and INCONSISTENT flag disagree'')
      else if \<not> is_power_of_two_in_range (chunk_size sb) min_chunk_size max_chunk_size
        then Inl (Corrupt ''chunk_size '')
      else if \<not> is_power_of_two_in_range (logical_block_size sb) 512 4096
        then Inl (Corrupt ''logical_block_size '')
      else res_bind (aead_from_id (aead_id sb)) (\<lambda>_.
        if kdf_id sb = 0 \<and> \<not> sb_is_encrypted sb then Inr ()
        else if kdf_id sb = 1 \<and> sb_is_encrypted sb then Inr ()
        else if kdf_id sb = 0
          then Inl (Corrupt ''an encrypted image must record an Argon2id kdf_id'')
        else Inl (Unsupported ''kdf_id '')))"

section \<open>Encoding and decoding\<close>

definition sb_fill :: "superblock \<Rightarrow> bytes" where
  "sb_fill sb =
     (let b = replicate sb_size 0;
          b = overwrite 0 sb_magic b;
          b = overwrite 8 (u32_to_le_bytes (format_major sb)) b;
          b = overwrite 12 (u32_to_le_bytes (min_reader sb)) b;
          b = overwrite 16 (u64_to_le_bytes (sb_flags sb)) b;
          b = overwrite 24 [image_kind_as_u8 (sb_image_kind sb)] b;
          b = overwrite 25 [consistency_as_u8 (sb_consistency sb)] b;
          b = overwrite 26 (image_uuid sb) b;
          b = overwrite 42 (chain_id sb) b;
          b = overwrite 58 (set_id sb) b;
          b = overwrite 74 (parent_uuid sb) b;
          b = overwrite 90 (u32_to_le_bytes (seq_in_chain sb)) b;
          b = overwrite 94 (u64_to_le_bytes (created_unix sb)) b;
          b = overwrite 102 (u64_to_le_bytes (source_size_bytes sb)) b;
          b = overwrite 110 (u32_to_le_bytes (logical_block_size sb)) b;
          b = overwrite 114 (u32_to_le_bytes (chunk_size sb)) b;
          b = overwrite 118 (u32_to_le_bytes (kdf_id sb)) b;
          b = overwrite 122 (u32_to_le_bytes (aead_id sb)) b;
          b = overwrite 126 (kdf_salt sb) b;
          b = overwrite 142 (u32_to_le_bytes (argon2_m_cost_kib sb)) b;
          b = overwrite 146 (u32_to_le_bytes (argon2_t_cost sb)) b;
          b = overwrite 150 (u32_to_le_bytes (argon2_p_cost sb)) b;
          b = overwrite 154 (wrap_nonce sb) b
      in overwrite 166 (wrapped_chain_key sb) b)"

definition sb_encode :: "prims \<Rightarrow> superblock \<Rightarrow> bytes option \<Rightarrow> bytes res" where
  "sb_encode P sb meta_key =
     res_bind (validate_header sb) (\<lambda>_.
       let b = sb_fill sb;
           hash = unkeyed_mac32 P (take sb_hash_offset b);
           b = overwrite sb_hash_offset hash b;
           mac = mac32 P (authentication_key P meta_key) (take sb_mac_offset b)
       in Inr (overwrite sb_mac_offset mac b))"

definition sb_parse :: "bytes \<Rightarrow> superblock res" where
  "sb_parse b =
     res_bind (slice_u32 (drop 8 b)) (\<lambda>v_major.
     res_bind (slice_u32 (drop 12 b)) (\<lambda>v_min.
     res_bind (slice_u64 (drop 16 b)) (\<lambda>v_flags.
     res_bind (image_kind_from_u8 (b ! 24)) (\<lambda>v_kind.
     res_bind (consistency_from_u8 (b ! 25)) (\<lambda>v_cons.
     res_bind (slice_u32 (drop 90 b)) (\<lambda>v_seq.
     res_bind (slice_u64 (drop 94 b)) (\<lambda>v_created.
     res_bind (slice_u64 (drop 102 b)) (\<lambda>v_size.
     res_bind (slice_u32 (drop 110 b)) (\<lambda>v_lbs.
     res_bind (slice_u32 (drop 114 b)) (\<lambda>v_chunk.
     res_bind (slice_u32 (drop 118 b)) (\<lambda>v_kdf.
     res_bind (slice_u32 (drop 122 b)) (\<lambda>v_aead.
     res_bind (slice_u32 (drop 142 b)) (\<lambda>v_m.
     res_bind (slice_u32 (drop 146 b)) (\<lambda>v_t.
     res_bind (slice_u32 (drop 150 b)) (\<lambda>v_p.
       Inr \<lparr> format_major = v_major, min_reader = v_min, sb_flags = v_flags,
             sb_image_kind = v_kind, sb_consistency = v_cons,
             image_uuid = slice 26 42 b, chain_id = slice 42 58 b, set_id = slice 58 74 b,
             parent_uuid = slice 74 90 b, seq_in_chain = v_seq, created_unix = v_created,
             source_size_bytes = v_size, logical_block_size = v_lbs, chunk_size = v_chunk,
             kdf_id = v_kdf, aead_id = v_aead, kdf_salt = slice 126 142 b,
             argon2_m_cost_kib = v_m, argon2_t_cost = v_t, argon2_p_cost = v_p,
             wrap_nonce = slice 154 166 b, wrapped_chain_key = slice 166 214 b \<rparr>)))))))))))))))"

definition sb_decode :: "prims \<Rightarrow> bytes \<Rightarrow> superblock res" where
  "sb_decode P b =
     (if slice 0 8 b \<noteq> sb_magic then Inl (Corrupt ''superblock magic does not match LRIMG'')
      else if slice sb_hash_offset (sb_hash_offset + 32) b \<noteq> unkeyed_mac32 P (take sb_hash_offset b)
        then Inl (Corrupt ''superblock hash mismatch'')
      else res_bind (sb_parse b) (\<lambda>sb. res_bind (validate_header sb) (\<lambda>_. Inr sb)))"

definition sb_verify_mac :: "prims \<Rightarrow> bytes \<Rightarrow> bytes option \<Rightarrow> unit res" where
  "sb_verify_mac P b meta_key =
     (if verify_mac32 P (authentication_key P meta_key) (take sb_mac_offset b)
           (slice sb_mac_offset (sb_mac_offset + 32) b)
      then Inr () else Inl (Corrupt ''superblock MAC mismatch''))"

section \<open>Layout lemmas\<close>

lemmas sb_consts = sb_size_def sb_hash_offset_def sb_mac_offset_def superblock_copy_len_def

lemma length_sb_magic [simp]: "length sb_magic = 8"
  by (simp add: sb_magic_def)

text \<open>The 214 bytes the fields occupy, in order.\<close>

definition sb_fields :: "superblock \<Rightarrow> bytes" where
  "sb_fields sb =
     sb_magic @ u32_to_le_bytes (format_major sb) @ u32_to_le_bytes (min_reader sb)
     @ u64_to_le_bytes (sb_flags sb) @ [image_kind_as_u8 (sb_image_kind sb)]
     @ [consistency_as_u8 (sb_consistency sb)] @ image_uuid sb @ chain_id sb @ set_id sb
     @ parent_uuid sb @ u32_to_le_bytes (seq_in_chain sb) @ u64_to_le_bytes (created_unix sb)
     @ u64_to_le_bytes (source_size_bytes sb) @ u32_to_le_bytes (logical_block_size sb)
     @ u32_to_le_bytes (chunk_size sb) @ u32_to_le_bytes (kdf_id sb)
     @ u32_to_le_bytes (aead_id sb) @ kdf_salt sb @ u32_to_le_bytes (argon2_m_cost_kib sb)
     @ u32_to_le_bytes (argon2_t_cost sb) @ u32_to_le_bytes (argon2_p_cost sb)
     @ wrap_nonce sb @ wrapped_chain_key sb"

lemma length_sb_fields: "sb_wf sb \<Longrightarrow> length (sb_fields sb) = 214"
  by (simp add: sb_fields_def sb_wf_def)

lemma sb_fill_eq:
  assumes "sb_wf sb"
  shows "sb_fill sb = sb_fields sb @ replicate 3882 0"
proof -
  have *: "length (image_uuid sb) = 16" "length (chain_id sb) = 16" "length (set_id sb) = 16"
    "length (parent_uuid sb) = 16" "length (kdf_salt sb) = 16"
    "length (wrap_nonce sb) = 12" "length (wrapped_chain_key sb) = 48"
    using assms by (auto simp: sb_wf_def)
  show ?thesis
    unfolding sb_fill_def Let_def sb_size_def
    by (subst zero_filled_Nil)
      (simp add: overwrite_zero_filled * sb_fields_def, simp add: zero_filled_def)
qed


lemma slice_u32_drop: "i + 4 \<le> length b \<Longrightarrow> slice_u32 (drop i b) = Inr (u32_from_le_bytes (slice i (i + 4) b))"
  and slice_u64_drop: "i + 8 \<le> length b \<Longrightarrow> slice_u64 (drop i b) = Inr (u64_from_le_bytes (slice i (i + 8) b))"
  by (simp_all add: slice_u32_def slice_u64_def slice_def)

lemma sb_parse_fields:
  assumes "sb_wf sb"
  shows "sb_parse (sb_fields sb @ r) = Inr sb"
proof -
  have *: "length (image_uuid sb) = 16" "length (chain_id sb) = 16" "length (set_id sb) = 16"
    "length (parent_uuid sb) = 16" "length (kdf_salt sb) = 16"
    "length (wrap_nonce sb) = 12" "length (wrapped_chain_key sb) = 48"
    using assms by (auto simp: sb_wf_def)
  show ?thesis
    unfolding sb_parse_def
    by (simp add: sb_fields_def * nth_append slice_def)
qed


text \<open>What \<open>encode\<close> writes: fields, zeros, hash, MAC, zeros.\<close>

definition sb_image :: "prims \<Rightarrow> superblock \<Rightarrow> bytes option \<Rightarrow> bytes" where
  "sb_image P sb meta_key =
     (let pre = sb_fields sb @ replicate 810 0;
          hash = unkeyed_mac32 P pre;
          mac = mac32 P (authentication_key P meta_key) (pre @ hash)
      in pre @ hash @ mac @ replicate 3008 0)"

lemma sb_encode_eq:
  assumes "hash_ok P" "sb_wf sb"
  shows "sb_encode P sb meta_key = res_bind (validate_header sb) (\<lambda>_. Inr (sb_image P sb meta_key))"
proof -
  define pre where "pre = sb_fields sb @ replicate 810 0"
  define h where "h = unkeyed_mac32 P pre"
  have lp: "length pre = 1024" using length_sb_fields [OF assms(2)] by (simp add: pre_def)
  have lh: "length h = 32" by (simp add: h_def bytes_len assms(1))
  have f: "sb_fill sb = zero_filled pre 3072"
    using sb_fill_eq [OF assms(2)] by (simp add: pre_def zero_filled_def replicate_add [symmetric])
  have "take 1024 (sb_fill sb) = pre" using lp by (simp add: f zero_filled_def)
  moreover have "overwrite 1024 h (sb_fill sb) = zero_filled (pre @ h) 3040"
    using lp lh by (simp add: f overwrite_zero_filled)
  moreover have "take 1056 (zero_filled (pre @ h) 3040) = pre @ h"
    using lp lh by (simp add: zero_filled_def)
  moreover have "overwrite 1056 (mac32 P k d) (zero_filled (pre @ h) 3040)
      = (pre @ h) @ mac32 P k d @ replicate 3008 0" for k d
    using lp lh by (simp add: overwrite_zero_filled bytes_len assms(1)) (simp add: zero_filled_def)
  ultimately show ?thesis
    by (simp add: sb_encode_def sb_consts Let_def sb_image_def flip: pre_def h_def)
qed

lemma length_sb_image: "hash_ok P \<Longrightarrow> sb_wf sb \<Longrightarrow> length (sb_image P sb k) = 4096"
  by (simp add: sb_image_def Let_def bytes_len length_sb_fields)

lemma sb_image_slices:
  assumes "hash_ok P" "sb_wf sb"
  defines "pre \<equiv> sb_fields sb @ replicate 810 0"
  shows "slice 0 8 (sb_image P sb k) = sb_magic"
    and "take 1024 (sb_image P sb k) = pre"
    and "slice 1024 1056 (sb_image P sb k) = unkeyed_mac32 P pre"
    and "take 1056 (sb_image P sb k) = pre @ unkeyed_mac32 P pre"
    and "slice 1056 1088 (sb_image P sb k) = mac32 P (authentication_key P k) (pre @ unkeyed_mac32 P pre)"
proof -
  have lp: "length pre = 1024" using length_sb_fields [OF assms(2)] by (simp add: pre_def)
  have im: "sb_image P sb k = pre @ unkeyed_mac32 P pre
      @ mac32 P (authentication_key P k) (pre @ unkeyed_mac32 P pre) @ replicate 3008 0"
    by (simp add: sb_image_def pre_def Let_def)
  have mg: "take 8 pre = sb_magic" by (simp add: pre_def sb_fields_def)
  show "slice 0 8 (sb_image P sb k) = sb_magic"
    using lp mg by (simp add: im slice_def)
  show "take 1024 (sb_image P sb k) = pre"
    and "slice 1024 1056 (sb_image P sb k) = unkeyed_mac32 P pre"
    and "take 1056 (sb_image P sb k) = pre @ unkeyed_mac32 P pre"
    and "slice 1056 1088 (sb_image P sb k) = mac32 P (authentication_key P k) (pre @ unkeyed_mac32 P pre)"
    using lp by (simp_all add: im slice_def bytes_len assms(1))
qed

lemma sb_decode_image:
  assumes "hash_ok P" "sb_wf sb" "validate_header sb = Inr ()"
  shows "sb_decode P (sb_image P sb k) = Inr sb"
proof -
  have "sb_parse (sb_image P sb k) = Inr sb"
    using sb_parse_fields [OF assms(2)] by (simp add: sb_image_def Let_def)
  then show ?thesis
    using sb_image_slices [OF assms(1,2)] assms(3) by (simp add: sb_decode_def sb_consts)
qed

lemma sb_verify_image: "hash_ok P \<Longrightarrow> sb_wf sb \<Longrightarrow> sb_verify_mac P (sb_image P sb k) k = Inr ()"
  using sb_image_slices [of P sb k]
  by (simp add: sb_verify_mac_def sb_consts verify_mac32_def mac32_def)

lemma sb_parse_Inr:
  assumes "length b = 4096" "sb_parse b = Inr sb" "slice 0 8 b = sb_magic"
  shows "sb_wf sb" and "sb_fields sb = take 214 b"
proof -
  obtain vk vc where p: "sb = \<lparr> format_major = u32_from_le_bytes (slice 8 12 b),
      min_reader = u32_from_le_bytes (slice 12 16 b), sb_flags = u64_from_le_bytes (slice 16 24 b),
      sb_image_kind = vk, sb_consistency = vc,
      image_uuid = slice 26 42 b, chain_id = slice 42 58 b, set_id = slice 58 74 b,
      parent_uuid = slice 74 90 b, seq_in_chain = u32_from_le_bytes (slice 90 94 b),
      created_unix = u64_from_le_bytes (slice 94 102 b),
      source_size_bytes = u64_from_le_bytes (slice 102 110 b),
      logical_block_size = u32_from_le_bytes (slice 110 114 b),
      chunk_size = u32_from_le_bytes (slice 114 118 b), kdf_id = u32_from_le_bytes (slice 118 122 b),
      aead_id = u32_from_le_bytes (slice 122 126 b), kdf_salt = slice 126 142 b,
      argon2_m_cost_kib = u32_from_le_bytes (slice 142 146 b),
      argon2_t_cost = u32_from_le_bytes (slice 146 150 b),
      argon2_p_cost = u32_from_le_bytes (slice 150 154 b),
      wrap_nonce = slice 154 166 b, wrapped_chain_key = slice 166 214 b \<rparr>"
    and k: "image_kind_as_u8 vk = b ! 24" and c: "consistency_as_u8 vc = b ! 25"
    using assms(1,2)
    by (auto simp: sb_parse_def slice_u32_drop slice_u64_drop res_bind_eq_Inr
        image_kind_from_u8_Inr consistency_from_u8_Inr)
  show "sb_wf sb" by (simp add: p sb_wf_def assms(1))
  have kc: "[b ! 24] = slice 24 25 b" "[b ! 25] = slice 25 26 b"
    using assms(1) by (simp_all add: slice_def take_Suc_conv_app_nth hd_drop_conv_nth take_Suc_conv_app_nth)
  have "sb_fields sb = slice 0 8 b @ slice 8 12 b @ slice 12 16 b @ slice 16 24 b @ slice 24 25 b
      @ slice 25 26 b @ slice 26 42 b @ slice 42 58 b @ slice 58 74 b @ slice 74 90 b
      @ slice 90 94 b @ slice 94 102 b @ slice 102 110 b @ slice 110 114 b @ slice 114 118 b
      @ slice 118 122 b @ slice 122 126 b @ slice 126 142 b @ slice 142 146 b @ slice 146 150 b
      @ slice 150 154 b @ slice 154 166 b @ slice 166 214 b"
    by (simp add: p sb_fields_def k c kc assms(1) to_from_le_bytes flip: assms(3))
  also have "\<dots> = slice 0 214 b" by (simp add: slice_join)
  finally show "sb_fields sb = take 214 b" by (simp add: slice_def)
qed

section \<open>Properties\<close>

text \<open>Encoding a superblock and reading the bytes back returns the same
  superblock, in exactly 4096 bytes, and its MAC verifies under the key it was
  written with.
\<close>

lemma sb_roundtrip:
  assumes "hash_ok P" "sb_wf sb" "sb_encode P sb meta_key = Inr b"
  shows "length b = 4096 \<and> sb_decode P b = Inr sb \<and> sb_verify_mac P b meta_key = Inr ()"
proof -
  have "validate_header sb = Inr ()" "b = sb_image P sb meta_key"
    using assms by (auto simp: sb_encode_eq res_bind_eq_Inr)
  then show ?thesis
    using assms(1,2) by (simp add: length_sb_image sb_decode_image sb_verify_image)
qed

text \<open>A superblock that decodes is a valid header: every range check holds,
  the arrays have their lengths, and the 214 bytes of its fields are exactly
  those of the file, so no two headers decode to the same value by accident of
  parsing.
\<close>

lemma sb_decode_sound:
  assumes "length b = 4096" "sb_decode P b = Inr sb"
  shows "sb_wf sb \<and> validate_header sb = Inr () \<and> sb_fields sb = take 214 b
    \<and> plain_hash P (take 1024 b) = slice 1024 1056 b"
proof -
  from assms(2) have "slice 0 8 b = sb_magic" "sb_parse b = Inr sb" "validate_header sb = Inr ()"
    "slice 1024 1056 b = plain_hash P (take 1024 b)"
    by (auto simp: sb_decode_def sb_consts unkeyed_mac32_def res_bind_eq_Inr split: if_splits)
  then show ?thesis
    using sb_parse_Inr [OF assms(1)] by simp
qed

definition demo_sb :: superblock where
  "demo_sb = \<lparr> format_major = 1, min_reader = 1, sb_flags = 1, sb_image_kind = Block,
     sb_consistency = Offline, image_uuid = replicate 16 1, chain_id = replicate 16 2,
     set_id = replicate 16 3, parent_uuid = replicate 16 0, seq_in_chain = 0,
     created_unix = 1800000000, source_size_bytes = 68719476736, logical_block_size = 512,
     chunk_size = 1048576, kdf_id = 1, aead_id = 1, kdf_salt = replicate 16 4,
     argon2_m_cost_kib = 262144, argon2_t_cost = 3, argon2_p_cost = 4,
     wrap_nonce = replicate 12 5, wrapped_chain_key = replicate 48 6 \<rparr>"

lemma demo_sb_ok: "sb_wf demo_sb" "validate_header demo_sb = Inr ()"
  by (simp add: sb_wf_def demo_sb_def, code_simp)

lemma hash_ok_demo [simp]: "hash_ok demo_prims"
  and aead_ok_demo [simp]: "aead_ok demo_prims"
  and zstd_ok_demo [simp]: "zstd_ok demo_prims"
  using demo_prims_ok by (simp_all add: prims_ok_def)

lemma demo_sb_encode: "sb_encode demo_prims demo_sb k = Inr (sb_image demo_prims demo_sb k)"
  by (simp add: sb_encode_eq demo_sb_ok)

lemma and_not_flag: "(x AND NOT flag_inconsistent) AND flag_inconsistent = 0"
  by (simp add: flag_inconsistent_def and.assoc)

lemma or_flag: "(x OR flag_inconsistent) AND flag_inconsistent = flag_inconsistent"
  by (simp add: bit_eq_iff bit_simps)

lemma other_flag:
  "f AND flag_inconsistent = 0 \<Longrightarrow> (x AND NOT flag_inconsistent) AND f = x AND f"
  "f AND flag_inconsistent = 0 \<Longrightarrow> ((x AND NOT flag_inconsistent) OR flag_inconsistent) AND f = x AND f"
  by (auto simp: bit_eq_iff bit_simps)

text \<open>
  Recording the consistency level that was really achieved keeps a header
  valid, sets the INCONSISTENT flag exactly for the level \<open>none\<close>, and touches no
  other flag.
\<close>

lemma sb_set_consistency_valid:
  assumes "validate_header sb = Inr ()"
  shows "validate_header (sb_set_consistency sb c) = Inr ()
    \<and> sb_consistency (sb_set_consistency sb c) = c
    \<and> (sb_flags (sb_set_consistency sb c) AND flag_inconsistent \<noteq> 0 \<longleftrightarrow> c = NoneConsistency)
    \<and> (\<forall>f. f AND flag_inconsistent = 0 \<longrightarrow>
         sb_flags (sb_set_consistency sb c) AND f = sb_flags sb AND f)"
proof -
  have fl: "sb_flags (sb_set_consistency sb c) =
      (if c = NoneConsistency then (sb_flags sb AND NOT flag_inconsistent) OR flag_inconsistent
       else sb_flags sb AND NOT flag_inconsistent)"
    and cs: "sb_consistency (sb_set_consistency sb c) = c"
    by (simp_all add: sb_set_consistency_def sb_is_inconsistent_def Let_def)
  have nz: "flag_inconsistent \<noteq> 0" by (simp add: flag_inconsistent_def)
  have inc: "sb_flags (sb_set_consistency sb c) AND flag_inconsistent \<noteq> 0 \<longleftrightarrow> c = NoneConsistency"
    using nz by (simp add: fl and_not_flag or_flag)
  have oth: "sb_flags (sb_set_consistency sb c) AND f = sb_flags sb AND f"
    if "f AND flag_inconsistent = 0" for f
    using that by (simp add: fl other_flag)
  have "flag_encrypted AND flag_inconsistent = 0"
    by (simp add: flag_encrypted_def flag_inconsistent_def)
  from oth [OF this] have enc: "sb_is_encrypted (sb_set_consistency sb c) = sb_is_encrypted sb"
    by (simp add: sb_is_encrypted_def)
  have rest: "format_major (sb_set_consistency sb c) = format_major sb"
    "min_reader (sb_set_consistency sb c) = min_reader sb"
    "chunk_size (sb_set_consistency sb c) = chunk_size sb"
    "logical_block_size (sb_set_consistency sb c) = logical_block_size sb"
    "aead_id (sb_set_consistency sb c) = aead_id sb" "kdf_id (sb_set_consistency sb c) = kdf_id sb"
    by (simp_all add: sb_set_consistency_def Let_def)
  have "validate_header (sb_set_consistency sb c) = Inr ()"
    using assms inc by (simp add: validate_header_def rest enc cs sb_is_inconsistent_def res_bind_eq_Inr
        split: if_splits)
  with inc oth cs show ?thesis by blast
qed

end
