(* ===== verification/Catalog.thy ===== *)
theory Catalog
  imports Destination Superblock "HOL-Library.Multiset" "HOL-Library.Product_Lexorder"
begin

text \<open>
  \<open>crates/lr-core/src/catalog.rs\<close> and \<open>crates/lr-engine/src/catalog.rs\<close>: the catalog of a backup
  set.  It is rebuilt from the superblocks of the images in the set; the file \<open>catalog.json\<close> is a
  cache that is used only when it agrees with them.

  The JSON codec comes from another crate: it is the pair \<open>to_json\<close>, \<open>from_json\<close> of parameters.
  Warnings keep the constant text that follows the name they start with.
\<close>

unbundle bit_operations_syntax

section \<open>Records\<close>

datatype member_kind = Full | Incremental | Differential

fun has_full_manifest :: "member_kind \<Rightarrow> bool" where
  "has_full_manifest Full = True"
| "has_full_manifest Differential = True"
| "has_full_manifest Incremental = False"

record member_record =
  mr_image_uuid :: uuid
  mr_parent_uuid :: uuid
  mr_kind :: member_kind
  mr_seq_in_chain :: u32
  mr_image_kind :: image_kind
  mr_consistency :: consistency
  mr_created_unix :: u64
  mr_source_label :: string
  mr_size_bytes :: u64
  mr_file_name :: string
  mr_verified_unix :: "u64 option"

record chain_record =
  ch_chain_id :: uuid
  ch_created_unix :: u64
  ch_source_label :: string
  ch_members :: "member_record list"

definition latest_seq :: "chain_record \<Rightarrow> u32 option" where
  "latest_seq c = max_by_key id (map mr_seq_in_chain (ch_members c))"

definition chain_latest_member :: "chain_record \<Rightarrow> member_record option" where
  "chain_latest_member c = max_by_key mr_seq_in_chain (ch_members c)"

definition chain_member :: "chain_record \<Rightarrow> uuid \<Rightarrow> member_record option" where
  "chain_member c u = find (\<lambda>m. mr_image_uuid m = u) (ch_members c)"

text \<open>\<open>u32::try_from(position).unwrap_or(u32::MAX)\<close>.\<close>

definition u32_index :: "nat \<Rightarrow> u32" where
  "u32_index i = (if i < 2 ^ 32 then word_of_nat i else - 1)"

definition is_complete :: "chain_record \<Rightarrow> bool" where
  "is_complete c =
     (let seqs = sort (map mr_seq_in_chain (ch_members c)) in
      if seqs = [] \<or> hd seqs \<noteq> 0 then False
      else if \<not> (\<forall>(i, s) \<in> set (enumerate 0 seqs). u32_index i = s) then False
      else (case find (\<lambda>m. mr_seq_in_chain m = 0) (ch_members c) of
              None \<Rightarrow> False | Some m \<Rightarrow> mr_kind m = Full))"

definition incremental_count :: "chain_record \<Rightarrow> nat" where
  "incremental_count c = length (filter (\<lambda>m. mr_seq_in_chain m > 0) (ch_members c))"

record catalog =
  cat_version :: u32
  cat_set_id :: uuid
  cat_set_name :: string
  cat_updated_unix :: u64
  cat_chains :: "chain_record list"

definition catalog_version :: u32 where
  "catalog_version = 1"

definition catalog_new :: "uuid \<Rightarrow> string \<Rightarrow> u64 \<Rightarrow> catalog" where
  "catalog_new sid name now = \<lparr> cat_version = catalog_version, cat_set_id = sid, cat_set_name = name,
     cat_updated_unix = now, cat_chains = [] \<rparr>"

definition catalog_chain :: "catalog \<Rightarrow> uuid \<Rightarrow> chain_record option" where
  "catalog_chain cat i = find (\<lambda>c. ch_chain_id c = i) (cat_chains cat)"

definition latest_chain :: "catalog \<Rightarrow> chain_record option" where
  "latest_chain cat = max_by_key ch_created_unix (cat_chains cat)"

fun upsert :: "chain_record \<Rightarrow> chain_record list \<Rightarrow> chain_record list" where
  "upsert c [] = [c]"
| "upsert c (x # xs) = (if ch_chain_id x = ch_chain_id c then c # xs else x # upsert c xs)"

definition upsert_chain :: "chain_record \<Rightarrow> catalog \<Rightarrow> catalog" where
  "upsert_chain c cat = cat\<lparr> cat_chains := upsert c (cat_chains cat) \<rparr>"

definition chains_oldest_first :: "catalog \<Rightarrow> chain_record list" where
  "chains_oldest_first cat =
     sort_key (\<lambda>c. (ch_created_unix c, ch_chain_id c)) (cat_chains cat)"

definition member_kind_of :: "superblock \<Rightarrow> member_kind" where
  "member_kind_of sb =
     (if seq_in_chain sb = 0 then Full
      else if sb_image_kind sb = Stream \<or> sb_flags sb AND flag_delta_manifest \<noteq> 0 then Incremental
      else Differential)"

section \<open>Scanning a set\<close>

record scanned_member =
  sm_file_name :: string
  sm_superblock :: superblock
  sm_size_bytes :: u64

record scan =
  sc_members :: "scanned_member list"
  sc_warnings :: "string list"

definition is_image :: "string \<Rightarrow> bool" where
  "is_image name \<longleftrightarrow> ends_with ''.lrimg'' name \<and> \<not> ends_with ''.tmp'' name"

fun scan_names :: "prims \<Rightarrow> (string \<Rightarrow> bytes res) \<Rightarrow> string list \<Rightarrow> scan \<Rightarrow> scan res" where
  "scan_names P open_ro [] sc = Inr sc"
| "scan_names P open_ro (name # names) sc =
     (if \<not> is_image name then scan_names P open_ro names sc
      else res_bind (open_ro name) (\<lambda>content.
        if length content < sb_size
          then scan_names P open_ro names
                 (sc\<lparr> sc_warnings := sc_warnings sc @ [name @ '': cannot read the superblock ('' ] \<rparr>)
        else let b = take sb_size content in
          (case sb_decode P b of
             Inl e \<Rightarrow> scan_names P open_ro names
                 (sc\<lparr> sc_warnings := sc_warnings sc @ [name @ '': damaged superblock ('' ] \<rparr>)
           | Inr sb \<Rightarrow>
               if \<not> sb_is_encrypted sb \<and> \<not> is_ok (sb_verify_mac P b None)
                 then scan_names P open_ro names
                   (sc\<lparr> sc_warnings := sc_warnings sc @ [name @ '': superblock MAC does not verify'' ] \<rparr>)
               else scan_names P open_ro names
                   (sc\<lparr> sc_members := sc_members sc @ [\<lparr> sm_file_name = name, sm_superblock = sb,
                          sm_size_bytes = word_of_nat (length content) \<rparr>] \<rparr>))))"

definition scan_set :: "prims \<Rightarrow> 's destination_ops \<Rightarrow> 's \<Rightarrow> scan res" where
  "scan_set P D s = res_bind (d_list D s) (\<lambda>names.
     scan_names P (d_open_ro D s) names \<lparr> sc_members = [], sc_warnings = [] \<rparr>)"

section \<open>Building the catalog\<close>

definition record_of :: "scanned_member \<Rightarrow> member_record" where
  "record_of m = (let sb = sm_superblock m in
     \<lparr> mr_image_uuid = image_uuid sb, mr_parent_uuid = parent_uuid sb, mr_kind = member_kind_of sb,
       mr_seq_in_chain = seq_in_chain sb, mr_image_kind = sb_image_kind sb,
       mr_consistency = sb_consistency sb, mr_created_unix = created_unix sb, mr_source_label = [],
       mr_size_bytes = sm_size_bytes m, mr_file_name = sm_file_name m, mr_verified_unix = None \<rparr>)"

definition chain_of :: "scanned_member list \<Rightarrow> uuid \<Rightarrow> chain_record" where
  "chain_of members i =
     (let ms = sort_key (\<lambda>m. seq_in_chain (sm_superblock m))
                 (filter (\<lambda>m. chain_id (sm_superblock m) = i) members) in
      \<lparr> ch_chain_id = i,
        ch_created_unix = (if ms = [] then 0 else Min (set (map (\<lambda>m. created_unix (sm_superblock m)) ms))),
        ch_source_label = [], ch_members = map record_of ms \<rparr>)"

definition build_catalog :: "string \<Rightarrow> u64 \<Rightarrow> scan \<Rightarrow> catalog" where
  "build_catalog set_name now sc =
     (let ids = sort (remdups (map (\<lambda>m. chain_id (sm_superblock m)) (sc_members sc)));
          sid = (case sc_members sc of [] \<Rightarrow> uuid_zero | m # _ \<Rightarrow> set_id (sm_superblock m)) in
      fold (\<lambda>i. upsert_chain (chain_of (sc_members sc) i)) ids (catalog_new sid set_name now))"

fun member_warnings :: "uuid \<Rightarrow> member_record list \<Rightarrow> string list" where
  "member_warnings i (p # n # ms) =
     (if mr_seq_in_chain p = mr_seq_in_chain n then [''chain '' @ to_uuid_string i @ '': two members at seq ''] else [])
     @ (if mr_parent_uuid n \<noteq> mr_image_uuid p then [''chain '' @ to_uuid_string i @ '': member ''] else [])
     @ member_warnings i (n # ms)"
| "member_warnings i _ = []"

definition chain_warnings :: "catalog \<Rightarrow> string list" where
  "chain_warnings cat = concat (map (\<lambda>c. member_warnings (ch_chain_id c) (ch_members c)) (cat_chains cat))"

definition same_member :: "member_record \<Rightarrow> member_record \<Rightarrow> bool" where
  "same_member m mate \<longleftrightarrow>
     mr_parent_uuid m = mr_parent_uuid mate \<and> mr_kind m = mr_kind mate
     \<and> mr_seq_in_chain m = mr_seq_in_chain mate \<and> mr_image_kind m = mr_image_kind mate
     \<and> mr_consistency m = mr_consistency mate \<and> mr_created_unix m = mr_created_unix mate
     \<and> mr_size_bytes m = mr_size_bytes mate \<and> mr_file_name m = mr_file_name mate"

definition same_chain :: "catalog \<Rightarrow> chain_record \<Rightarrow> bool" where
  "same_chain right c =
     (case catalog_chain right (ch_chain_id c) of
        None \<Rightarrow> False
      | Some other \<Rightarrow>
          ch_created_unix c = ch_created_unix other \<and> length (ch_members c) = length (ch_members other)
          \<and> list_all (\<lambda>m. case chain_member other (mr_image_uuid m) of
                            None \<Rightarrow> False | Some mate \<Rightarrow> same_member m mate) (ch_members c))"

definition same_records :: "catalog \<Rightarrow> catalog \<Rightarrow> bool" where
  "same_records left right \<longleftrightarrow>
     cat_version left = cat_version right \<and> cat_set_id left = cat_set_id right
     \<and> length (cat_chains left) = length (cat_chains right)
     \<and> list_all (same_chain right) (cat_chains left)"

section \<open>The cache\<close>

definition catalog_file :: string where
  "catalog_file = ''catalog.json''"

definition read_cached ::
    "(bytes \<Rightarrow> catalog option) \<Rightarrow> 's destination_ops \<Rightarrow> 's \<Rightarrow> catalog option res" where
  "read_cached from_json D s =
     (case d_open_ro D s catalog_file of
        Inr b \<Rightarrow> Inr (from_json b)
      | Inl e \<Rightarrow> if e = io_not_found then Inr None else Inl e)"

definition write_catalog ::
    "(catalog \<Rightarrow> bytes option) \<Rightarrow> 's destination_ops \<Rightarrow> catalog \<Rightarrow> 's \<Rightarrow> unit res \<times> 's" where
  "write_catalog to_json D cat s =
     (case to_json cat of
        None \<Rightarrow> (Inl (Corrupt ''catalog: ''), s)
      | Some b \<Rightarrow>
          st_bind (d_create_tmp D catalog_file s) (\<lambda>tmp s.
            case st_bind (d_write_tmp D tmp b s) (\<lambda>_. d_replace D tmp catalog_file) of
              (Inr _, s) \<Rightarrow> (Inr (), s)
            | (Inl e, s) \<Rightarrow> (Inl e, snd (d_delete D tmp s))))"

definition carried :: "catalog \<Rightarrow> member_record \<Rightarrow> member_record" where
  "carried cached m =
     (case List.map_filter (\<lambda>c. chain_member c (mr_image_uuid m)) (cat_chains cached) of
        [] \<Rightarrow> m
      | old # _ \<Rightarrow>
          if mr_file_name old = mr_file_name m \<and> mr_size_bytes old = mr_size_bytes m
            then m\<lparr> mr_verified_unix := mr_verified_unix old \<rparr> else m)"

definition carry_verification :: "catalog \<Rightarrow> catalog \<Rightarrow> catalog" where
  "carry_verification cached built =
     built\<lparr> cat_chains := map (\<lambda>c. c\<lparr> ch_members := map (carried cached) (ch_members c) \<rparr>) (cat_chains built) \<rparr>"

record loaded =
  ld_catalog :: catalog
  ld_warnings :: "string list"
  ld_rebuilt :: bool

definition load ::
    "prims \<Rightarrow> (bytes \<Rightarrow> catalog option) \<Rightarrow> 's destination_ops \<Rightarrow> 's \<Rightarrow> string \<Rightarrow> u64 \<Rightarrow> loaded res" where
  "load P from_json D s set_name now =
     res_bind (scan_set P D s) (\<lambda>sc.
       let built = build_catalog set_name now sc;
           warnings = sc_warnings sc @ chain_warnings built in
       (case read_cached from_json D s of
          Inl e \<Rightarrow> Inr \<lparr> ld_catalog = built, ld_warnings = [''catalog.json could not be read (''], ld_rebuilt = True \<rparr>
        | Inr None \<Rightarrow> Inr \<lparr> ld_catalog = built, ld_warnings = warnings, ld_rebuilt = True \<rparr>
        | Inr (Some cached) \<Rightarrow>
            if same_records cached built
              then Inr \<lparr> ld_catalog = cached, ld_warnings = warnings, ld_rebuilt = False \<rparr>
            else (let built = carry_verification cached built in
              Inr \<lparr> ld_catalog = built,
                    ld_warnings = (if same_records cached built then warnings
                      else warnings @ [''catalog.json disagrees with the member superblocks; using the scanned catalog'']),
                    ld_rebuilt = True \<rparr>)))"

definition mark_verified :: "string set \<Rightarrow> u64 \<Rightarrow> catalog \<Rightarrow> catalog" where
  "mark_verified names now cat =
     cat\<lparr> cat_chains := map (\<lambda>c. c\<lparr> ch_members :=
        map (\<lambda>m. if mr_file_name m \<in> names then m\<lparr> mr_verified_unix := Some now \<rparr> else m) (ch_members c) \<rparr>)
      (cat_chains cat) \<rparr>"

section \<open>Questions about the catalog\<close>

definition chain_files :: "catalog \<Rightarrow> uuid \<Rightarrow> string list res" where
  "chain_files cat i =
     (case catalog_chain cat i of
        None \<Rightarrow> Inl (Corrupt ''chain '')
      | Some c \<Rightarrow> Inr (map mr_file_name (sort_key mr_seq_in_chain (ch_members c))))"

definition latest_member :: "catalog \<Rightarrow> member_record option res" where
  "latest_member cat =
     (let complete = filter is_complete (cat_chains cat) in
      if complete = [] then Inr None
      else let newest = Max (set (map ch_created_unix complete));
               tied = filter (\<lambda>c. ch_created_unix c = newest) complete in
        (case tied of [only] \<Rightarrow> Inr (chain_latest_member only)
         | _ \<Rightarrow> Inl (Unsupported ''--parent latest is ambiguous: chains '')))"

fun resolve_among :: "uuid \<Rightarrow> chain_record list \<Rightarrow> member_record res" where
  "resolve_among wanted [] = Inl (Unsupported ''--parent '')"
| "resolve_among wanted (c # cs) =
     (case chain_member c wanted of
        None \<Rightarrow> resolve_among wanted cs
      | Some m \<Rightarrow>
          if \<not> is_complete c then Inl (Unsupported ''--parent '')
          else if (case chain_latest_member c of None \<Rightarrow> False | Some l \<Rightarrow> mr_image_uuid l \<noteq> wanted)
            then Inl (Unsupported ''--parent '')
          else Inr m)"

definition resolve_parent :: "catalog \<Rightarrow> string \<Rightarrow> member_record res" where
  "resolve_parent cat parent =
     (if parent = ''latest'' then
        res_bind (latest_member cat) (\<lambda>found. case found of
            None \<Rightarrow> Inl (Unsupported ''--parent latest: the set has no complete chain yet'')
          | Some m \<Rightarrow> Inr m)
      else (case uuid_from_str parent of
          Inl e \<Rightarrow> Inl (Unsupported ''--parent '')
        | Inr wanted \<Rightarrow> resolve_among wanted (cat_chains cat)))"

section \<open>Complete chains\<close>

lemma enumerate_all_iff:
  "(\<forall>(i, x) \<in> set (enumerate 0 xs). f i = x) \<longleftrightarrow> xs = map f [0..<length xs]"
proof -
  have "(\<forall>(i, x) \<in> set (enumerate 0 xs). f i = x) \<longleftrightarrow> (\<forall>i < length xs. xs ! i = f i)"
    by (force simp: in_set_enumerate_eq)
  also have "\<dots> \<longleftrightarrow> xs = map f [0..<length xs]" by (subst list_eq_iff_nth_eq) simp
  finally show ?thesis .
qed

lemma find_Some_mem: "find P xs = Some x \<Longrightarrow> x \<in> set xs \<and> P x"
  by (induction xs) (auto split: if_splits)

lemma is_complete_alt:
  "is_complete c \<longleftrightarrow> ch_members c \<noteq> []
     \<and> sort (map mr_seq_in_chain (ch_members c)) = map u32_index [0..<length (ch_members c)]
     \<and> (\<exists>m. find (\<lambda>m. mr_seq_in_chain m = 0) (ch_members c) = Some m \<and> mr_kind m = Full)"
proof -
  define seqs where "seqs = sort (map mr_seq_in_chain (ch_members c))"
  define n where "n = length (ch_members c)"
  have len: "length seqs = n" by (simp add: seqs_def n_def)
  have f: "(case x of None \<Rightarrow> False | Some m \<Rightarrow> mr_kind m = Full) \<longleftrightarrow> (\<exists>m. x = Some m \<and> mr_kind m = Full)" for x
    by (simp split: option.split)
  have "hd seqs = 0" if "seqs = map u32_index [0..<n]" "seqs \<noteq> []"
    using that by (cases n) (simp_all add: u32_index_def upt_rec)
  moreover have "seqs = [] \<longleftrightarrow> ch_members c = []" using len by (metis length_0_conv n_def)
  ultimately show ?thesis
    unfolding is_complete_def Let_def seqs_def [symmetric] enumerate_all_iff len n_def [symmetric] f by metis
qed

lemma is_complete_seqs:
  "is_complete c \<Longrightarrow> sort (map mr_seq_in_chain (ch_members c)) = map u32_index [0..<length (ch_members c)]"
  by (simp only: is_complete_alt)

lemma is_complete_members: "is_complete c \<Longrightarrow> ch_members c \<noteq> []"
  by (simp only: is_complete_alt) simp

lemma is_complete_head:
  assumes "is_complete c"
  obtains m where "m \<in> set (ch_members c)" "mr_seq_in_chain m = 0" "mr_kind m = Full"
proof -
  obtain m where "find (\<lambda>m. mr_seq_in_chain m = 0) (ch_members c) = Some m" "mr_kind m = Full"
    using assms unfolding is_complete_alt by blast
  then show ?thesis using find_Some_mem [of "\<lambda>m. mr_seq_in_chain m = 0"] that by blast
qed

lemma u32_index_unat: "i < 2 ^ 32 \<Longrightarrow> unat (u32_index i) = i"
  by (simp add: u32_index_def unat_of_nat_u32)

text \<open>The sequence numbers of a complete chain are 0, 1, 2, ... without gap or repetition.\<close>

lemma is_complete_mset:
  assumes "is_complete c" "length (ch_members c) \<le> 2 ^ 32"
  shows "mset (map (unat \<circ> mr_seq_in_chain) (ch_members c)) = mset [0..<length (ch_members c)]"
proof -
  have "mset (map mr_seq_in_chain (ch_members c)) = mset (map u32_index [0..<length (ch_members c)])"
    using is_complete_seqs [OF assms(1)] by (metis mset_sort)
  then have "mset (map unat (map mr_seq_in_chain (ch_members c)))
      = mset (map unat (map u32_index [0..<length (ch_members c)]))"
    by (metis mset_map)
  also have "map unat (map u32_index [0..<length (ch_members c)]) = [0..<length (ch_members c)]"
    unfolding map_map by (rule map_idI) (use assms(2) in \<open>simp add: u32_index_unat\<close>)
  finally show ?thesis by simp
qed

section \<open>The catalog built from a scan\<close>

lemma upsert_new: "ch_chain_id c \<notin> ch_chain_id ` set xs \<Longrightarrow> upsert c xs = xs @ [c]"
  by (induction xs) auto

lemma chain_of_id [simp]: "ch_chain_id (chain_of ms i) = i"
  by (simp add: chain_of_def Let_def)

lemma fold_upsert:
  "distinct ids \<Longrightarrow> set ids \<inter> ch_chain_id ` set (cat_chains cat) = {} \<Longrightarrow>
   cat_chains (fold (\<lambda>i. upsert_chain (chain_of ms i)) ids cat) = cat_chains cat @ map (chain_of ms) ids"
proof (induction ids arbitrary: cat)
  case (Cons i ids)
  have "cat_chains (upsert_chain (chain_of ms i) cat) = cat_chains cat @ [chain_of ms i]"
    using Cons.prems(2) by (simp add: upsert_chain_def upsert_new)
  then show ?case using Cons.prems by (simp add: Cons.IH)
qed simp

lemma build_chains:
  "cat_chains (build_catalog name now sc) =
     map (chain_of (sc_members sc)) (sort (remdups (map (\<lambda>m. chain_id (sm_superblock m)) (sc_members sc))))"
  by (simp add: build_catalog_def Let_def fold_upsert catalog_new_def)

lemma chain_of_members:
  "mset (ch_members (chain_of ms i)) = image_mset record_of (filter_mset (\<lambda>m. chain_id (sm_superblock m) = i) (mset ms))"
  by (simp add: chain_of_def Let_def)

text \<open>A record of chain \<open>i\<close> that describes a scanned image, verification time and label aside.\<close>

definition describes :: "uuid \<Rightarrow> member_record \<Rightarrow> scanned_member \<Rightarrow> bool" where
  "describes i m sm \<longleftrightarrow> chain_id (sm_superblock sm) = i \<and> mr_image_uuid m = image_uuid (sm_superblock sm)
     \<and> same_member m (record_of sm)"

lemma built_describes:
  assumes "c \<in> set (cat_chains (build_catalog name now sc))" "m \<in> set (ch_members c)"
  shows "\<exists>sm \<in> set (sc_members sc). m = record_of sm \<and> describes (ch_chain_id c) m sm"
proof -
  obtain i where c: "c = chain_of (sc_members sc) i" using assms(1) by (auto simp: build_chains)
  have "m \<in># mset (ch_members c)" using assms(2) by simp
  then obtain sm where "sm \<in> set (sc_members sc)" "chain_id (sm_superblock sm) = i" "m = record_of sm"
    unfolding c chain_of_members by auto
  then show ?thesis
    by (auto simp: c describes_def same_member_def record_of_def Let_def intro!: bexI [of _ sm])
qed

lemma catalog_chain_SomeD: "catalog_chain cat i = Some c \<Longrightarrow> c \<in> set (cat_chains cat) \<and> ch_chain_id c = i"
  unfolding catalog_chain_def by (drule find_Some_mem) simp

lemma chain_member_SomeD: "chain_member c u = Some m \<Longrightarrow> m \<in> set (ch_members c) \<and> mr_image_uuid m = u"
  unfolding chain_member_def by (drule find_Some_mem) simp

lemma same_records_mate:
  assumes "same_records left right" "c \<in> set (cat_chains left)" "m \<in> set (ch_members c)"
  obtains c' m' where "c' \<in> set (cat_chains right)" "ch_chain_id c' = ch_chain_id c"
    "m' \<in> set (ch_members c')" "mr_image_uuid m' = mr_image_uuid m" "same_member m m'"
proof -
  have "same_chain right c" using assms(1,2) by (simp add: same_records_def list_all_iff)
  then obtain c' where c': "catalog_chain right (ch_chain_id c) = Some c'"
    "list_all (\<lambda>m. case chain_member c' (mr_image_uuid m) of None \<Rightarrow> False | Some mate \<Rightarrow> same_member m mate) (ch_members c)"
    by (auto simp: same_chain_def split: option.splits)
  from c'(2) assms(3) obtain m' where m': "chain_member c' (mr_image_uuid m) = Some m'" "same_member m m'"
    by (auto simp: list_all_iff dest!: bspec split: option.splits)
  then show ?thesis
    using that [of c' m'] catalog_chain_SomeD [OF c'(1)] chain_member_SomeD [OF m'(1)] by simp
qed

text \<open>
  The converse fails: a cache that repeats one chain in place of another agrees with the scan as far
  as \<open>same_records\<close> looks, although the two do not describe the same chains.
\<close>

lemma find_distinct: "distinct (map f xs) \<Longrightarrow> x \<in> set xs \<Longrightarrow> find (\<lambda>y. f y = f x) xs = Some x"
  by (induction xs) (auto simp: image_iff)

lemma same_records_repeated_chain:
  assumes "distinct (map mr_image_uuid (ch_members a))"
  shows "same_records (cat\<lparr> cat_chains := [a, a] \<rparr>) (cat\<lparr> cat_chains := [a, b] \<rparr>)"
proof -
  have "same_chain (cat\<lparr> cat_chains := [a, b] \<rparr>) a"
    using find_distinct [OF assms]
    by (simp add: same_chain_def catalog_chain_def chain_member_def list_all_iff same_member_def)
  then show ?thesis by (simp add: same_records_def)
qed

lemma carried_same: "mr_image_uuid (carried cached m) = mr_image_uuid m \<and> same_member (carried cached m) m"
  by (auto simp: carried_def same_member_def split: list.splits)

section \<open>Scanning\<close>

definition scanned_from :: "prims \<Rightarrow> (string \<Rightarrow> bytes res) \<Rightarrow> scanned_member \<Rightarrow> bool" where
  "scanned_from P open_ro sm \<longleftrightarrow> is_image (sm_file_name sm)
     \<and> (\<exists>b. open_ro (sm_file_name sm) = Inr b \<and> sb_decode P (take sb_size b) = Inr (sm_superblock sm)
           \<and> sm_size_bytes sm = word_of_nat (length b))"

lemma scan_names_sound:
  "scan_names P op names sc = Inr sc' \<Longrightarrow> \<forall>sm \<in> set (sc_members sc). scanned_from P op sm \<Longrightarrow>
   \<forall>sm \<in> set (sc_members sc'). scanned_from P op sm"
proof (induction P op names sc rule: scan_names.induct)
  case (2 P op name names sc)
  show ?case
  proof (cases "is_image name")
    case False
    then show ?thesis using "2.IH"(1) "2.prems" by simp
  next
    case True
    obtain b where b: "op name = Inr b" using "2.prems"(1) True by (auto simp: res_bind_eq_Inr)
    show ?thesis
    proof (cases "length b < sb_size")
      case short: True
      then show ?thesis using "2.IH"(2) [OF _ b] "2.prems" True b by simp
    next
      case long: False
      show ?thesis
      proof (cases "sb_decode P (take sb_size b)")
        case (Inl e)
        then show ?thesis using "2.IH"(3) [OF _ b long refl Inl] "2.prems" True b long by simp
      next
        case (Inr sb)
        have "scanned_from P op \<lparr> sm_file_name = name, sm_superblock = sb, sm_size_bytes = word_of_nat (length b) \<rparr>"
          using True b Inr by (simp add: scanned_from_def)
        then show ?thesis
          using "2.IH"(4,5) [OF _ b long refl Inr] "2.prems" True b long Inr
          by (auto simp: Let_def split: if_splits)
      qed
    qed
  qed
qed simp

lemma load_catalog_cases:
  assumes "load P from_json D s name now = Inr l"
  obtains sc cached where "scan_set P D s = Inr sc"
    "ld_catalog l = build_catalog name now sc
     \<or> same_records (ld_catalog l) (build_catalog name now sc)
     \<or> ld_catalog l = carry_verification cached (build_catalog name now sc)"
proof -
  obtain sc where sc: "scan_set P D s = Inr sc" using assms by (auto simp: load_def res_bind_eq_Inr)
  show ?thesis
  proof (cases "read_cached from_json D s")
    case (Inl e)
    then show ?thesis using assms sc that [OF sc] by (auto simp: load_def Let_def)
  next
    case (Inr x)
    then show ?thesis
      using assms sc that [OF sc, of "the x"] by (cases x) (auto simp: load_def Let_def split: if_splits)
  qed
qed

lemma load_describes:
  assumes "load P from_json D s name now = Inr l"
    and c: "c \<in> set (cat_chains (ld_catalog l))" and m: "m \<in> set (ch_members c)"
  shows "\<exists>sm. scanned_from P (d_open_ro D s) sm \<and> describes (ch_chain_id c) m sm"
proof -
  obtain sc cached where sc: "scan_set P D s = Inr sc"
    and cases: "ld_catalog l = build_catalog name now sc
     \<or> same_records (ld_catalog l) (build_catalog name now sc)
     \<or> ld_catalog l = carry_verification cached (build_catalog name now sc)"
    by (rule load_catalog_cases [OF assms(1)])
  have "\<exists>c' m'. c' \<in> set (cat_chains (build_catalog name now sc)) \<and> ch_chain_id c' = ch_chain_id c
      \<and> m' \<in> set (ch_members c') \<and> mr_image_uuid m' = mr_image_uuid m \<and> same_member m m'"
  proof (use cases in \<open>elim disjE\<close>)
    assume "ld_catalog l = build_catalog name now sc"
    then show ?thesis using c m by (auto simp: same_member_def)
  next
    assume "same_records (ld_catalog l) (build_catalog name now sc)"
    then show ?thesis using same_records_mate [OF _ c m] by metis
  next
    assume "ld_catalog l = carry_verification cached (build_catalog name now sc)"
    then obtain c' m' where "c' \<in> set (cat_chains (build_catalog name now sc))" "ch_chain_id c' = ch_chain_id c"
      "m' \<in> set (ch_members c')" "m = carried cached m'"
      using c m by (auto simp: carry_verification_def)
    then show ?thesis using carried_same [of cached m'] by metis
  qed
  then obtain c' m' where c': "c' \<in> set (cat_chains (build_catalog name now sc))" "m' \<in> set (ch_members c')"
    and eq: "ch_chain_id c' = ch_chain_id c" "mr_image_uuid m' = mr_image_uuid m" "same_member m m'"
    by blast
  from built_describes [OF c'] obtain sm where sm: "sm \<in> set (sc_members sc)" "describes (ch_chain_id c') m' sm"
    by blast
  have "scanned_from P (d_open_ro D s) sm"
    using sc sm(1) scan_names_sound by (fastforce simp: scan_set_def res_bind_eq_Inr)
  moreover have "describes (ch_chain_id c) m sm"
    using sm(2) eq by (simp add: describes_def same_member_def)
  ultimately show ?thesis by blast
qed

text \<open>Every scanned image is in exactly one chain of the built catalog.\<close>

lemma filter_mset_union_ids:
  "distinct ids \<Longrightarrow> (\<Sum>i \<leftarrow> ids. filter_mset (\<lambda>m. f m = i) M) = filter_mset (\<lambda>m. f m \<in> set ids) M"
proof (induction ids)
  case (Cons i ids)
  have "filter_mset (\<lambda>m. f m = i) M + filter_mset (\<lambda>m. f m \<in> set ids) M
      = filter_mset (\<lambda>m. f m = i \<or> f m \<in> set ids) M"
    using Cons.prems by (intro multiset_eqI) auto
  then show ?case using Cons by simp
qed simp

lemma built_partition:
  "mset (concat (map ch_members (cat_chains (build_catalog name now sc)))) = image_mset record_of (mset (sc_members sc))"
proof -
  define ids where "ids = sort (remdups (map (\<lambda>m. chain_id (sm_superblock m)) (sc_members sc)))"
  have "mset (concat (map ch_members (cat_chains (build_catalog name now sc))))
      = (\<Sum>i \<leftarrow> ids. image_mset record_of (filter_mset (\<lambda>m. chain_id (sm_superblock m) = i) (mset (sc_members sc))))"
    unfolding build_chains ids_def [symmetric] by (induction ids) (simp_all add: chain_of_members)
  also have "\<dots> = image_mset record_of (\<Sum>i \<leftarrow> ids. filter_mset (\<lambda>m. chain_id (sm_superblock m) = i) (mset (sc_members sc)))"
    by (induction ids) simp_all
  also have "(\<Sum>i \<leftarrow> ids. filter_mset (\<lambda>m. chain_id (sm_superblock m) = i) (mset (sc_members sc)))
      = filter_mset (\<lambda>m. chain_id (sm_superblock m) \<in> set ids) (mset (sc_members sc))"
    by (intro filter_mset_union_ids) (simp add: ids_def)
  also have "\<dots> = mset (sc_members sc)" by (simp add: ids_def filter_mset_eq_conv)
  finally show ?thesis .
qed

section \<open>Resolving the parent of a new image\<close>

lemma chain_latest_memberD:
  "chain_latest_member c = Some m \<Longrightarrow> m \<in> set (ch_members c) \<and> (\<forall>x \<in> set (ch_members c). mr_seq_in_chain x \<le> mr_seq_in_chain m)"
  unfolding chain_latest_member_def by (rule max_by_key_SomeD)

lemma resolve_among_Inr:
  "resolve_among wanted cs = Inr m \<Longrightarrow> \<exists>c \<in> set cs. is_complete c \<and> m \<in> set (ch_members c)
     \<and> mr_image_uuid m = wanted
     \<and> (\<exists>l. chain_latest_member c = Some l \<and> mr_image_uuid l = mr_image_uuid m)"
proof (induction wanted cs rule: resolve_among.induct)
  case (2 wanted c cs)
  show ?case
  proof (cases "chain_member c wanted")
    case None
    then show ?thesis using 2 by auto
  next
    case (Some x)
    then have x: "x = m" "is_complete c" "\<forall>l. chain_latest_member c = Some l \<longrightarrow> mr_image_uuid l = wanted"
      using "2.prems" by (auto split: if_splits option.splits)
    have mem: "x \<in> set (ch_members c)" "mr_image_uuid x = wanted" using chain_member_SomeD [OF Some] by simp_all
    then obtain l where "chain_latest_member c = Some l"
      by (cases "chain_latest_member c") (auto simp: chain_latest_member_def)
    then show ?thesis using x mem by auto
  qed
qed simp

lemma latest_member_Inr:
  assumes "latest_member cat = Inr (Some m)"
  shows "\<exists>c \<in> set (cat_chains cat). is_complete c \<and> chain_latest_member c = Some m
    \<and> (\<forall>c' \<in> set (cat_chains cat). is_complete c' \<and> c' \<noteq> c \<longrightarrow> ch_created_unix c' < ch_created_unix c)"
proof -
  define complete where "complete = filter is_complete (cat_chains cat)"
  define newest where "newest = Max (set (map ch_created_unix complete))"
  define tied where "tied = filter (\<lambda>c. ch_created_unix c = newest) complete"
  have ne: "complete \<noteq> []" using assms by (auto simp: latest_member_def complete_def [symmetric])
  then have "(case tied of [only] \<Rightarrow> Inr (chain_latest_member only)
      | _ \<Rightarrow> Inl (Unsupported ''--parent latest is ambiguous: chains '')) = Inr (Some m)"
    unfolding tied_def newest_def using assms by (simp add: latest_member_def Let_def complete_def [symmetric])
  then obtain c where c: "tied = [c]" "chain_latest_member c = Some m" by (auto split: list.splits)
  have mem: "x \<in> set complete \<and> ch_created_unix x = newest \<longleftrightarrow> x = c" for x
    using arg_cong [OF c(1), of set] by (auto simp: tied_def)
  have "ch_created_unix c' < ch_created_unix c" if "c' \<in> set (cat_chains cat)" "is_complete c'" "c' \<noteq> c" for c'
  proof -
    have c': "c' \<in> set complete" using that by (simp add: complete_def)
    then have "ch_created_unix c' \<le> newest" unfolding newest_def by (intro Max_ge) auto
    moreover have "ch_created_unix c' \<noteq> newest" using mem c' that(3) by blast
    ultimately show ?thesis using mem [of c] by auto
  qed
  then show ?thesis using mem [of c] c(2) by (auto simp: complete_def)
qed

section \<open>Properties\<close>

text \<open>C36. The catalog never describes an image that is not there.  Whatever the cache file
  \<open>catalog.json\<close> contains, every member record of the catalog that is loaded names an image file of
  the set whose superblock decodes and carries that chain, image, parent, sequence number, kind,
  creation time and size.\<close>

theorem load_describes_set:
  assumes "load P from_json D s name now = Inr l"
    and "c \<in> set (cat_chains (ld_catalog l))" "m \<in> set (ch_members c)"
  shows "\<exists>b sb. d_open_ro D s (mr_file_name m) = Inr b \<and> is_image (mr_file_name m)
    \<and> sb_decode P (take sb_size b) = Inr sb
    \<and> chain_id sb = ch_chain_id c \<and> image_uuid sb = mr_image_uuid m \<and> parent_uuid sb = mr_parent_uuid m
    \<and> seq_in_chain sb = mr_seq_in_chain m \<and> member_kind_of sb = mr_kind m
    \<and> created_unix sb = mr_created_unix m \<and> mr_size_bytes m = word_of_nat (length b)"
  using load_describes [OF assms]
  by (auto simp: scanned_from_def describes_def same_member_def record_of_def Let_def)

definition demo_store :: local_store where
  "demo_store = \<lparr> ls_files = [(''a.lrimg'', sb_image demo_prims demo_sb None), (''catalog.json'', [])],
     ls_unreadable = [], ls_ids = [replicate 16 7], ls_faults = [] \<rparr>"

definition demo_member :: scanned_member where
  "demo_member = \<lparr> sm_file_name = ''a.lrimg'', sm_superblock = demo_sb, sm_size_bytes = 4096 \<rparr>"

lemma demo_open: "local_open_ro demo_store ''a.lrimg'' = Inr (sb_image demo_prims demo_sb None)"
  by (simp add: demo_store_def local_open_ro_def local_entry_def normal_components_def)

lemma demo_scan: "scan_set demo_prims local_destination demo_store = Inr \<lparr> sc_members = [demo_member], sc_warnings = [] \<rparr>"
proof -
  have "local_list demo_store = Inr [''a.lrimg'', ''catalog.json'']"
    by (simp add: local_list_def demo_store_def)
  moreover have "is_image ''a.lrimg''" "\<not> is_image ''catalog.json''"
    by (simp_all add: is_image_def ends_with_def)
  moreover have "sb_is_encrypted demo_sb" by (simp add: sb_is_encrypted_def demo_sb_def flag_encrypted_def)
  ultimately show ?thesis
    by (simp add: scan_set_def local_destination_def demo_open length_sb_image sb_decode_image demo_sb_ok
        demo_member_def Let_def sb_size_def)
qed

definition demo_loaded :: loaded where
  "demo_loaded = \<lparr> ld_catalog = build_catalog ''s'' 5 \<lparr> sc_members = [demo_member], sc_warnings = [] \<rparr>,
    ld_warnings = chain_warnings (build_catalog ''s'' 5 \<lparr> sc_members = [demo_member], sc_warnings = [] \<rparr>), ld_rebuilt = True \<rparr>"

lemma demo_load: "load demo_prims (\<lambda>_. None) local_destination demo_store ''s'' 5 = Inr demo_loaded"
proof -
  have "read_cached (\<lambda>_. None) local_destination demo_store = Inr None"
    by (simp add: read_cached_def local_destination_def local_open_ro_def local_entry_def
        normal_components_def catalog_file_def demo_store_def)
  then show ?thesis by (simp add: load_def demo_scan Let_def demo_loaded_def)
qed

lemma demo_loaded_chains: "cat_chains (ld_catalog demo_loaded) = [chain_of [demo_member] (chain_id demo_sb)]"
  by (simp add: demo_loaded_def build_chains demo_member_def)

theorem load_describes_set_witness:
  "\<exists>l c m. load demo_prims (\<lambda>_. None) local_destination demo_store ''s'' 5 = Inr l
     \<and> c \<in> set (cat_chains (ld_catalog l)) \<and> m \<in> set (ch_members c)
     \<and> chain_id demo_sb = ch_chain_id c \<and> image_uuid demo_sb = mr_image_uuid m"
proof -
  define c where "c = chain_of [demo_member] (chain_id demo_sb)"
  have c: "c \<in> set (cat_chains (ld_catalog demo_loaded))" by (simp add: demo_loaded_chains c_def)
  have m: "record_of demo_member \<in> set (ch_members c)" by (simp add: c_def chain_of_def Let_def demo_member_def)
  obtain b sb where "d_open_ro local_destination demo_store ''a.lrimg'' = Inr b" "sb_decode demo_prims (take sb_size b) = Inr sb"
    "chain_id sb = ch_chain_id c" "image_uuid sb = mr_image_uuid (record_of demo_member)"
    using load_describes_set [OF demo_load c m] by (auto simp: record_of_def Let_def demo_member_def)
  moreover from this(1,2) have "sb = demo_sb"
    by (auto simp: local_destination_def demo_open length_sb_image sb_decode_image demo_sb_ok sb_size_def)
  ultimately show ?thesis using demo_load c m by metis
qed

text \<open>C37. The parent a new image is linked to is the newest member of a complete chain: of the unique
  newest complete chain for \<open>latest\<close>, of the chain that contains the named image otherwise.\<close>

theorem resolve_parent_newest:
  assumes "resolve_parent cat parent = Inr m"
  shows "\<exists>c \<in> set (cat_chains cat). is_complete c \<and> m \<in> set (ch_members c)
    \<and> (\<exists>l. chain_latest_member c = Some l \<and> mr_image_uuid l = mr_image_uuid m
          \<and> (\<forall>x \<in> set (ch_members c). mr_seq_in_chain x \<le> mr_seq_in_chain l))
    \<and> (parent = ''latest'' \<longrightarrow>
        (\<forall>c' \<in> set (cat_chains cat). is_complete c' \<and> c' \<noteq> c \<longrightarrow> ch_created_unix c' < ch_created_unix c))"
proof (cases "parent = ''latest''")
  case True
  then have "latest_member cat = Inr (Some m)"
    using assms by (auto simp: resolve_parent_def res_bind_eq_Inr split: option.splits)
  then show ?thesis using latest_member_Inr chain_latest_memberD by blast
next
  case False
  then obtain w where "resolve_among w (cat_chains cat) = Inr m"
    using assms by (auto simp: resolve_parent_def split: sum.splits)
  then show ?thesis using resolve_among_Inr chain_latest_memberD False by blast
qed

definition demo_catalog :: catalog where
  "demo_catalog = (catalog_new uuid_zero ''s'' 5)\<lparr> cat_chains := [chain_of [demo_member] (chain_id demo_sb)] \<rparr>"

lemma demo_latest: "resolve_parent demo_catalog ''latest'' = Inr (record_of demo_member)"
proof -
  have m: "ch_members (chain_of [demo_member] (chain_id demo_sb)) = [record_of demo_member]"
    by (simp add: chain_of_def Let_def demo_member_def)
  have r: "mr_seq_in_chain (record_of demo_member) = 0" "mr_kind (record_of demo_member) = Full"
    by (simp_all add: record_of_def Let_def demo_member_def demo_sb_def member_kind_of_def)
  have "is_complete (chain_of [demo_member] (chain_id demo_sb))"
    by (simp add: is_complete_alt m r u32_index_def)
  then show ?thesis
    by (simp add: resolve_parent_def latest_member_def demo_catalog_def catalog_new_def chain_latest_member_def m)
qed

theorem resolve_parent_newest_witness:
  "resolve_parent demo_catalog ''latest'' = Inr (record_of demo_member)
   \<and> (\<exists>c \<in> set (cat_chains demo_catalog). is_complete c \<and> record_of demo_member \<in> set (ch_members c))"
  using resolve_parent_newest [OF demo_latest] demo_latest by blast

end
