(* ===== verification/Footer.thy ===== *)
theory Footer
  imports Superblock
begin

text \<open>
  \<open>crates/lr-format/src/footer.rs\<close> and the page-table codec of \<open>writer.rs\<close>: the
  4096-byte footer at the end of an image, its copy of the superblock prefix,
  the inline page table of at most 120 slots, and the serialised table that is
  stored in stream 4 when the inline table is too small.
\<close>

section \<open>Data\<close>

definition footer_size :: nat where "footer_size = 4096"
definition footer_magic :: bytes where
  "footer_magic = [0x4C, 0x52, 0x46, 0x4F, 0x4F, 0x54, 0x01, 0x00]"
definition superblock_copy_offset :: nat where "superblock_copy_offset = 32"
definition page_table_offset :: nat where "page_table_offset = 1056"
definition inline_page_table_slots :: nat where "inline_page_table_slots = 120"
definition page_entry_size :: nat where "page_entry_size = 13"
definition footer_hash_offset :: nat where "footer_hash_offset = 2624"
definition footer_mac_offset :: nat where "footer_mac_offset = 2656"
definition flag_page_table_in_stream4 :: u32 where "flag_page_table_in_stream4 = 1"

record page_entry =
  pe_stream :: stream_id
  pe_offset :: u64
  pe_len :: u32

record footer =
  total_chunks :: u64
  data_end_offset :: u64
  page_table :: "page_entry list"
  footer_flags :: u32

definition page_table_in_stream4 :: "footer \<Rightarrow> bool" where
  "page_table_in_stream4 f \<longleftrightarrow> footer_flags f AND flag_page_table_in_stream4 \<noteq> 0"

definition entries_for :: "footer \<Rightarrow> stream_id \<Rightarrow> page_entry list" where
  "entries_for f stream = filter (\<lambda>e. pe_stream e = stream) (page_table f)"

section \<open>Encoding\<close>

fun footer_put_entries :: "nat \<Rightarrow> page_entry list \<Rightarrow> bytes \<Rightarrow> bytes" where
  "footer_put_entries index [] b = b"
| "footer_put_entries index (e # es) b =
     (let at = page_table_offset + index * page_entry_size;
          b = overwrite at [stream_as_u8 (pe_stream e)] b;
          b = overwrite (at + 1) (u64_to_le_bytes (pe_offset e)) b;
          b = overwrite (at + 9) (u32_to_le_bytes (pe_len e)) b
      in footer_put_entries (Suc index) es b)"

definition footer_encode :: "prims \<Rightarrow> footer \<Rightarrow> bytes \<Rightarrow> bytes option \<Rightarrow> bytes res" where
  "footer_encode P f sb_copy meta_key =
     (if length sb_copy \<noteq> superblock_copy_len then Inl (Corrupt ''superblock copy must be '')
      else (let inline = (footer_flags f AND flag_page_table_in_stream4 = 0) in
        if inline \<and> length (page_table f) > inline_page_table_slots
          then Inl (Unsupported ''page table has '')
        else if \<not> inline \<and> page_table f = []
          then Inl (Corrupt ''stream-4 page table flag with an empty table'')
        else if \<not> inline \<and> length (page_table f) > inline_page_table_slots
          then Inl (Unsupported ''stream-4 page table is itself too large to describe inline'')
        else
          (let b = replicate footer_size 0;
               b = overwrite 0 footer_magic b;
               b = overwrite 8 (u64_to_le_bytes (total_chunks f)) b;
               b = overwrite 16 (u64_to_le_bytes (data_end_offset f)) b;
               b = overwrite 24 (u16_to_le_bytes (word_of_nat (length (page_table f)))) b;
               b = overwrite 26 (u16_to_le_bytes (word_of_nat inline_page_table_slots)) b;
               b = overwrite 28 (u32_to_le_bytes (footer_flags f)) b;
               b = overwrite superblock_copy_offset sb_copy b;
               b = footer_put_entries 0 (page_table f) b;
               hash = unkeyed_mac32 P (take footer_hash_offset b);
               b = overwrite footer_hash_offset hash b;
               mac = mac32 P (authentication_key P meta_key) (take footer_mac_offset b)
           in Inr (overwrite footer_mac_offset mac b))))"

section \<open>Decoding\<close>

fun footer_get_entries :: "nat \<Rightarrow> nat \<Rightarrow> bytes \<Rightarrow> page_entry list res" where
  "footer_get_entries index 0 b = Inr []"
| "footer_get_entries index (Suc n) b =
     (let at = page_table_offset + index * page_entry_size in
      res_bind (stream_from_u8 (b ! at)) (\<lambda>s.
      res_bind (footer_get_entries (Suc index) n b) (\<lambda>es.
        Inr (\<lparr> pe_stream = s, pe_offset = u64_from_le_bytes (slice (at + 1) (at + 9) b),
               pe_len = u32_from_le_bytes (slice (at + 9) (at + 13) b) \<rparr> # es))))"

definition footer_decode :: "prims \<Rightarrow> bytes \<Rightarrow> bytes \<Rightarrow> footer res" where
  "footer_decode P b sb_prefix =
     (if slice 0 8 b \<noteq> footer_magic then Inl (Corrupt ''footer magic does not match LRFOOT'')
      else if slice footer_hash_offset (footer_hash_offset + 32) b
            \<noteq> unkeyed_mac32 P (take footer_hash_offset b)
        then Inl (Corrupt ''footer hash mismatch'')
      else if length sb_prefix \<noteq> superblock_copy_len
        then Inl (Corrupt ''superblock prefix has the wrong length'')
      else if slice superblock_copy_offset (superblock_copy_offset + superblock_copy_len) b
            \<noteq> sb_prefix
        then Inl (Corrupt ''footer superblock copy does not match the superblock'')
      else (let count = unat (u16_from_le_bytes (slice 24 26 b));
                slots = unat (u16_from_le_bytes (slice 26 28 b));
                fl = u32_from_le_bytes (slice 28 32 b) in
        if slots \<noteq> inline_page_table_slots then Inl (Corrupt ''footer declares '')
        else if count > inline_page_table_slots then Inl (Corrupt ''footer declares '')
        else if fl AND NOT flag_page_table_in_stream4 \<noteq> 0
          then Inl (Corrupt ''unknown footer flags 0x'')
        else res_bind (footer_get_entries 0 count b) (\<lambda>table.
          Inr \<lparr> total_chunks = u64_from_le_bytes (slice 8 16 b),
                data_end_offset = u64_from_le_bytes (slice 16 24 b),
                page_table = table, footer_flags = fl \<rparr>)))"

definition footer_verify_mac :: "prims \<Rightarrow> bytes \<Rightarrow> bytes option \<Rightarrow> unit res" where
  "footer_verify_mac P b meta_key =
     (if verify_mac32 P (authentication_key P meta_key) (take footer_mac_offset b)
           (slice footer_mac_offset (footer_mac_offset + 32) b)
      then Inr () else Inl (Corrupt ''footer MAC mismatch''))"

section \<open>The page table as a byte stream (stream 4)\<close>

definition entry_bytes :: "page_entry \<Rightarrow> bytes" where
  "entry_bytes e = stream_as_u8 (pe_stream e) # u64_to_le_bytes (pe_offset e)
     @ u32_to_le_bytes (pe_len e)"

definition serialize_table :: "page_entry list \<Rightarrow> bytes" where
  "serialize_table table = concat (map entry_bytes table)"

fun parse_entries :: "nat \<Rightarrow> bytes \<Rightarrow> page_entry list res" where
  "parse_entries 0 b = Inr []"
| "parse_entries (Suc n) b =
     (let e = take page_entry_size b in
      res_bind (stream_from_u8 (e ! 0)) (\<lambda>s.
      res_bind (parse_entries n (drop page_entry_size b)) (\<lambda>es.
        Inr (\<lparr> pe_stream = s, pe_offset = u64_from_le_bytes (slice 1 9 e),
               pe_len = u32_from_le_bytes (slice 9 13 e) \<rparr> # es))))"

definition parse_table :: "bytes \<Rightarrow> page_entry list res" where
  "parse_table b =
     (if length b mod page_entry_size \<noteq> 0 then Inl (Corrupt ''page table length '')
      else parse_entries (length b div page_entry_size) b)"

section \<open>Lemmas\<close>

lemmas footer_consts = footer_size_def superblock_copy_offset_def page_table_offset_def
  inline_page_table_slots_def page_entry_size_def footer_hash_offset_def footer_mac_offset_def

lemma length_footer_magic [simp]: "length footer_magic = 8"
  by (simp add: footer_magic_def)

lemma length_entry_bytes [simp]: "length (entry_bytes e) = 13"
  by (simp add: entry_bytes_def)

lemma length_serialize_table: "length (serialize_table t) = 13 * length t"
  by (induction t) (simp_all add: serialize_table_def)

lemma serialize_table_simps [simp]:
  "serialize_table [] = []"
  "serialize_table (e # es) = entry_bytes e @ serialize_table es"
  by (simp_all add: serialize_table_def)

lemma parse_entries_serialize: "parse_entries (length t) (serialize_table t @ r) = Inr t"
  by (induction t)
    (simp_all add: page_entry_size_def Let_def, simp add: entry_bytes_def slice_def)

lemma parse_serialize_table: "parse_table (serialize_table t) = Inr t"
  using parse_entries_serialize [of t "[]"]
  by (simp add: parse_table_def page_entry_size_def length_serialize_table)

lemma footer_put_entries_eq:
  assumes "length p = 1056 + 13 * index" "13 * length es \<le> n"
  shows "footer_put_entries index es (zero_filled p n)
    = zero_filled (p @ serialize_table es) (n - 13 * length es)"
  using assms
proof (induction es arbitrary: index p n)
  case Nil
  then show ?case by simp
next
  case (Cons e es)
  have "footer_put_entries index (e # es) (zero_filled p n)
      = footer_put_entries (Suc index) es (zero_filled (p @ entry_bytes e) (n - 13))"
    using Cons.prems
    by (simp add: Let_def footer_consts mult.commute overwrite_zero_filled entry_bytes_def)
  also have "\<dots> = zero_filled ((p @ entry_bytes e) @ serialize_table es) (n - 13 - 13 * length es)"
    using Cons.prems by (intro Cons.IH) simp_all
  finally show ?case by simp
qed

lemma footer_get_entries_eq:
  assumes "length p = 1056 + 13 * index"
  shows "footer_get_entries index (length es) (p @ serialize_table es @ r) = Inr es"
  using assms
proof (induction es arbitrary: index p)
  case Nil
  then show ?case by simp
next
  case (Cons e es)
  have "footer_get_entries (Suc index) (length es) ((p @ entry_bytes e) @ serialize_table es @ r) = Inr es"
    using Cons.prems by (intro Cons.IH) simp
  then show ?case
    using Cons.prems
    by (simp add: Let_def footer_consts mult.commute nth_append slice_def entry_bytes_def)
qed


text \<open>What \<open>encode\<close> writes: header, superblock copy, table, zeros, hash, MAC, zeros.\<close>

definition footer_prefix :: "footer \<Rightarrow> bytes \<Rightarrow> bytes" where
  "footer_prefix f sb_copy =
     footer_magic @ u64_to_le_bytes (total_chunks f) @ u64_to_le_bytes (data_end_offset f)
     @ u16_to_le_bytes (word_of_nat (length (page_table f))) @ u16_to_le_bytes 120
     @ u32_to_le_bytes (footer_flags f) @ sb_copy @ serialize_table (page_table f)
     @ replicate (1568 - 13 * length (page_table f)) 0"

definition footer_image :: "prims \<Rightarrow> footer \<Rightarrow> bytes \<Rightarrow> bytes option \<Rightarrow> bytes" where
  "footer_image P f sb_copy meta_key =
     (let pre = footer_prefix f sb_copy; hash = unkeyed_mac32 P pre in
      pre @ hash @ mac32 P (authentication_key P meta_key) (pre @ hash) @ replicate 1408 0)"

definition footer_fits :: "footer \<Rightarrow> bool" where
  "footer_fits f \<longleftrightarrow> length (page_table f) \<le> 120
     \<and> (footer_flags f AND flag_page_table_in_stream4 \<noteq> 0 \<longrightarrow> page_table f \<noteq> [])"

lemma length_footer_prefix:
  "length sbc = 1024 \<Longrightarrow> length (page_table f) \<le> 120 \<Longrightarrow> length (footer_prefix f sbc) = 2624"
  by (simp add: footer_prefix_def length_serialize_table)

lemma footer_fill_eq:
  assumes "length sbc = 1024" "length (page_table f) \<le> 120"
  shows "footer_put_entries 0 (page_table f)
      (overwrite 32 sbc (overwrite 28 (u32_to_le_bytes (footer_flags f))
        (overwrite 26 (u16_to_le_bytes 120)
          (overwrite 24 (u16_to_le_bytes (word_of_nat (length (page_table f))))
            (overwrite 16 (u64_to_le_bytes (data_end_offset f))
              (overwrite 8 (u64_to_le_bytes (total_chunks f))
                (overwrite 0 footer_magic (replicate 4096 0))))))))
    = zero_filled (footer_prefix f sbc) 1472"
proof -
  have "footer_put_entries 0 (page_table f) (zero_filled q 3040)
      = zero_filled (q @ serialize_table (page_table f)
          @ replicate (1568 - 13 * length (page_table f)) 0) 1472"
    if "length q = 1056" for q
    using that assms(2)
    by (subst footer_put_entries_eq) (simp_all add: zero_filled_def replicate_add [symmetric])
  then show ?thesis
    by (subst zero_filled_Nil) (simp add: overwrite_zero_filled assms(1) footer_prefix_def)
qed

lemma footer_encode_eq:
  assumes "hash_ok P" "length sbc = 1024" "footer_fits f"
  shows "footer_encode P f sbc k = Inr (footer_image P f sbc k)"
proof -
  define pre where "pre = footer_prefix f sbc"
  define h where "h = unkeyed_mac32 P pre"
  have n: "length (page_table f) \<le> 120"
    and s4: "footer_flags f AND flag_page_table_in_stream4 = 0 \<or> page_table f \<noteq> []"
    using assms(3) by (auto simp: footer_fits_def)
  have lp: "length pre = 2624" using length_footer_prefix assms(2) n by (simp add: pre_def)
  have lh: "length h = 32" by (simp add: h_def bytes_len assms(1))
  have "take 2624 (zero_filled pre 1472) = pre" using lp by (simp add: zero_filled_def)
  moreover have "overwrite 2624 h (zero_filled pre 1472) = zero_filled (pre @ h) 1440"
    using lp lh by (simp add: overwrite_zero_filled)
  moreover have "take 2656 (zero_filled (pre @ h) 1440) = pre @ h"
    using lp lh by (simp add: zero_filled_def)
  moreover have "overwrite 2656 (mac32 P k' d) (zero_filled (pre @ h) 1440)
      = (pre @ h) @ mac32 P k' d @ replicate 1408 0" for k' d
    using lp lh by (simp add: overwrite_zero_filled bytes_len assms(1)) (simp add: zero_filled_def)
  ultimately show ?thesis
    using n s4 assms(2)
    by (simp add: footer_encode_def footer_consts superblock_copy_len_def sb_hash_offset_def Let_def
        footer_fill_eq footer_image_def flip: pre_def h_def)
qed

lemma footer_encode_Inr:
  assumes "hash_ok P" "footer_encode P f sbc k = Inr b"
  shows "length sbc = 1024" "footer_fits f" "b = footer_image P f sbc k"
proof -
  show s: "length sbc = 1024" and f: "footer_fits f"
    using assms(2)
    by (auto simp: footer_encode_def Let_def footer_fits_def superblock_copy_len_def
        sb_hash_offset_def inline_page_table_slots_def split: if_splits)
  show "b = footer_image P f sbc k"
    using footer_encode_eq [OF assms(1) s f] assms(2) by simp
qed

lemma length_footer_image:
  "hash_ok P \<Longrightarrow> length sbc = 1024 \<Longrightarrow> footer_fits f \<Longrightarrow> length (footer_image P f sbc k) = 4096"
  by (simp add: footer_image_def Let_def bytes_len length_footer_prefix footer_fits_def)

definition footer_flags_known :: "footer \<Rightarrow> bool" where
  "footer_flags_known f \<longleftrightarrow> footer_flags f AND NOT flag_page_table_in_stream4 = 0"

lemma footer_prefix_slices:
  assumes "length sbc = 1024" "length (page_table f) \<le> 120"
  shows "slice 0 8 (footer_prefix f sbc @ r) = footer_magic"
    "slice 8 16 (footer_prefix f sbc @ r) = u64_to_le_bytes (total_chunks f)"
    "slice 16 24 (footer_prefix f sbc @ r) = u64_to_le_bytes (data_end_offset f)"
    "slice 24 26 (footer_prefix f sbc @ r) = u16_to_le_bytes (word_of_nat (length (page_table f)))"
    "slice 26 28 (footer_prefix f sbc @ r) = u16_to_le_bytes 120"
    "slice 28 32 (footer_prefix f sbc @ r) = u32_to_le_bytes (footer_flags f)"
    "slice 32 1056 (footer_prefix f sbc @ r) = sbc"
    "footer_get_entries 0 (length (page_table f)) (footer_prefix f sbc @ r) = Inr (page_table f)"
proof -
  define hd where "hd = footer_magic @ u64_to_le_bytes (total_chunks f)
    @ u64_to_le_bytes (data_end_offset f) @ u16_to_le_bytes (word_of_nat (length (page_table f)))
    @ u16_to_le_bytes 120 @ u32_to_le_bytes (footer_flags f) @ sbc"
  have "footer_get_entries 0 (length (page_table f))
      (hd @ serialize_table (page_table f) @ (replicate (1568 - 13 * length (page_table f)) 0 @ r))
    = Inr (page_table f)"
    by (rule footer_get_entries_eq) (simp add: hd_def assms(1))
  then show "footer_get_entries 0 (length (page_table f)) (footer_prefix f sbc @ r) = Inr (page_table f)"
    by (simp add: footer_prefix_def hd_def)
qed (simp_all add: footer_prefix_def slice_def assms(1))

lemma footer_decode_image:
  assumes "hash_ok P" "length sbc = 1024" "footer_fits f" "footer_flags_known f"
  shows "footer_decode P (footer_image P f sbc k) sbc = Inr f"
proof -
  have n: "length (page_table f) \<le> 120" using assms(3) by (simp add: footer_fits_def)
  define pre where "pre = footer_prefix f sbc"
  obtain r where im: "footer_image P f sbc k = pre @ unkeyed_mac32 P pre @ r"
    by (simp add: footer_image_def Let_def pre_def)
  have lp: "length pre = 2624" using length_footer_prefix assms(2) n by (simp add: pre_def)
  have c: "unat (word_of_nat (length (page_table f)) :: u16) = length (page_table f)"
    using n by (intro unat_of_nat_u16) simp
  have "take 2624 (pre @ unkeyed_mac32 P pre @ r) = pre"
    "slice 2624 2656 (pre @ unkeyed_mac32 P pre @ r) = unkeyed_mac32 P pre"
    using lp by (simp_all add: slice_def bytes_len assms(1))
  then show ?thesis
    using footer_prefix_slices [OF assms(2) n, of "unkeyed_mac32 P pre @ r"] c n assms(2,4)
    by (simp add: im footer_decode_def footer_consts superblock_copy_len_def sb_hash_offset_def
        Let_def footer_flags_known_def flip: pre_def)
qed

lemma footer_verify_image:
  assumes "hash_ok P" "length sbc = 1024" "footer_fits f"
  shows "footer_verify_mac P (footer_image P f sbc k) k = Inr ()"
proof -
  define pre where "pre = footer_prefix f sbc"
  have "length pre = 2624"
    using length_footer_prefix assms(2,3) by (simp add: pre_def footer_fits_def)
  then show ?thesis
    by (simp add: footer_verify_mac_def footer_consts verify_mac32_def footer_image_def Let_def
        slice_def mac32_def bytes_len assms(1) flip: pre_def)
qed


lemma slice_one: "i < length b \<Longrightarrow> slice i (Suc i) b = [b ! i]"
  by (simp add: slice_def take_Suc_conv_app_nth)

lemma footer_get_entries_Inr:
  assumes "footer_get_entries index n b = Inr es" "1056 + 13 * (index + n) \<le> length b"
  shows "length es = n \<and> serialize_table es = slice (1056 + 13 * index) (1056 + 13 * (index + n)) b"
  using assms
proof (induction n arbitrary: index es)
  case 0
  then show ?case by (simp add: slice_def)
next
  case (Suc n)
  define at where "at = 1056 + 13 * index"
  from Suc.prems(1) obtain s es' where s: "b ! at = stream_as_u8 s"
    and es': "footer_get_entries (Suc index) n b = Inr es'"
    and es: "es = \<lparr> pe_stream = s, pe_offset = u64_from_le_bytes (slice (at + 1) (at + 9) b),
                pe_len = u32_from_le_bytes (slice (at + 9) (at + 13) b) \<rparr> # es'"
    by (auto simp: Let_def footer_consts res_bind_eq_Inr stream_from_u8_Inr at_def mult.commute)
  have len: "at + 13 \<le> length b" using Suc.prems(2) by (simp add: at_def)
  have e: "entry_bytes \<lparr> pe_stream = s, pe_offset = u64_from_le_bytes (slice (at + 1) (at + 9) b),
        pe_len = u32_from_le_bytes (slice (at + 9) (at + 13) b) \<rparr> = slice at (at + 13) b"
  proof -
    have "[b ! at] @ slice (at + 1) (at + 9) b @ slice (at + 9) (at + 13) b = slice at (at + 13) b"
      using len slice_one [of at b] slice_join [of at "Suc at" "at + 13" b] by (simp add: slice_join)
    then show ?thesis using len by (simp add: entry_bytes_def s to_from_le_bytes)
  qed
  have "length es' = n \<and> serialize_table es' = slice (at + 13) (1056 + 13 * (index + Suc n)) b"
    using Suc.IH [OF es'] Suc.prems(2) by (simp add: at_def algebra_simps)
  then have "length es = Suc n \<and> serialize_table es = slice at (1056 + 13 * (index + Suc n)) b"
    using slice_join [of at "at + 13" "1056 + 13 * (index + Suc n)" b]
    by (simp only: es e serialize_table_simps list.size) (simp add: at_def)
  then show ?case by (simp only: at_def)
qed

section \<open>Properties\<close>

definition demo_footer :: footer where
  "demo_footer = \<lparr> total_chunks = 2, data_end_offset = 4158,
     page_table = [\<lparr> pe_stream = Manifest, pe_offset = 4158, pe_len = 64 \<rparr>,
                   \<lparr> pe_stream = Extras, pe_offset = 4256, pe_len = 16 \<rparr>],
     footer_flags = 0 \<rparr>"

definition demo_copy :: bytes where
  "demo_copy = replicate 1024 7"

lemma demo_footer_encode:
  "footer_encode demo_prims demo_footer demo_copy k = Inr (footer_image demo_prims demo_footer demo_copy k)"
  by (rule footer_encode_eq) (simp_all add: demo_copy_def footer_fits_def demo_footer_def)

lemma demo_footer_known: "footer_flags_known demo_footer"
  by (simp add: footer_flags_known_def demo_footer_def)

text \<open>Encoding a footer and decoding the 4096 bytes against the same superblock
  prefix returns the footer with its page table, and its MAC verifies.
\<close>

lemma footer_roundtrip:
  assumes "hash_ok P" "footer_flags_known f" "footer_encode P f sb_copy k = Inr b"
  shows "length b = 4096 \<and> footer_decode P b sb_copy = Inr f \<and> footer_verify_mac P b k = Inr ()"
  using footer_encode_Inr [OF assms(1,3)] assms(1,2)
  by (simp add: length_footer_image footer_decode_image footer_verify_image)

text \<open>A footer that decodes belongs to the superblock it is checked against
  (its copy is byte-identical), declares at most 120 entries and no unknown
  flag, and its page table is exactly what the file holds in the table area.
\<close>

lemma footer_decode_sound:
  assumes "length b = 4096" "footer_decode P b sb_prefix = Inr f"
  shows "slice 32 1056 b = sb_prefix \<and> length sb_prefix = 1024 \<and> length (page_table f) \<le> 120
    \<and> footer_flags_known f
    \<and> serialize_table (page_table f) = slice 1056 (1056 + 13 * length (page_table f)) b"
proof -
  define n where "n = unat (u16_from_le_bytes (slice 24 26 b))"
  from assms(2) have c: "slice 32 1056 b = sb_prefix" "length sb_prefix = 1024" "n \<le> 120"
    "footer_flags_known f" "footer_get_entries 0 n b = Inr (page_table f)"
    by (auto simp: footer_decode_def footer_consts superblock_copy_len_def sb_hash_offset_def Let_def
        res_bind_eq_Inr n_def footer_flags_known_def split: if_splits)
  have "length (page_table f) = n
      \<and> serialize_table (page_table f) = slice 1056 (1056 + 13 * n) b"
    using footer_get_entries_Inr [OF c(5)] c(3) assms(1) by simp
  with c show ?thesis by simp
qed

end
