(* ===== verification/Chunk.thy ===== *)
theory Chunk
  imports Footer
begin

text \<open>
  \<open>crates/lr-format/src/chunk.rs\<close>: the chunk records that carry file and disk
  contents.  \<open>seal_chunk\<close> compresses, encrypts and frames one chunk;
  \<open>open_chunk\<close> undoes it and checks the keyed content hash of the manifest.
\<close>

section \<open>Data\<close>

definition chunk_magic :: u16 where "chunk_magic = 0xC4C7"
definition chunk_flag_zstd :: u8 where "chunk_flag_zstd = 0x01"
definition chunk_flag_encrypted :: u8 where "chunk_flag_encrypted = 0x02"
definition chunk_flags_known :: u8 where
  "chunk_flags_known = chunk_flag_zstd OR chunk_flag_encrypted"
definition chunk_header_len :: nat where "chunk_header_len = 2 + 4 + 1 + nonce_len"
definition chunk_tag_len :: nat where "chunk_tag_len = tag_len"
definition chunk_overhead_plain :: nat where "chunk_overhead_plain = chunk_header_len"
definition max_stored_len :: nat where "max_stored_len = unat max_chunk_size + 64 * 1024"

record chunk_record =
  cr_flags :: u8
  cr_nonce :: bytes
  cr_payload :: bytes
  cr_tag :: "bytes option"

record chunk_header =
  ch_flags :: u8
  ch_stored_len :: u32
  ch_nonce :: bytes

definition chunk_is_encrypted :: "u8 \<Rightarrow> bool" where
  "chunk_is_encrypted fl \<longleftrightarrow> fl AND chunk_flag_encrypted \<noteq> 0"

definition chunk_is_compressed :: "u8 \<Rightarrow> bool" where
  "chunk_is_compressed fl \<longleftrightarrow> fl AND chunk_flag_zstd \<noteq> 0"

definition chunk_record_total_len :: "chunk_record \<Rightarrow> nat" where
  "chunk_record_total_len r =
     chunk_header_len + length (cr_payload r)
     + (if chunk_is_encrypted (cr_flags r) then chunk_tag_len else 0)"

definition chunk_header_total_len :: "chunk_header \<Rightarrow> nat" where
  "chunk_header_total_len h =
     chunk_header_len + unat (ch_stored_len h)
     + (if chunk_is_encrypted (ch_flags h) then chunk_tag_len else 0)"

section \<open>Framing\<close>

definition chunk_write_header :: "chunk_record \<Rightarrow> bytes" where
  "chunk_write_header r =
     put_u16 chunk_magic @ put_u32 (word_of_nat (length (cr_payload r))) @ put_u8 (cr_flags r)
     @ cr_nonce r"

definition chunk_encode :: "chunk_record \<Rightarrow> bytes" where
  "chunk_encode r = chunk_write_header r @ cr_payload r
     @ (case cr_tag r of Some tag \<Rightarrow> tag | None \<Rightarrow> [])"

definition chunk_decode_header :: "bytes \<Rightarrow> chunk_header res" where
  "chunk_decode_header b =
     (if length b < chunk_header_len then Inl (Corrupt ''chunk record shorter than its header'')
      else res_bind (slice_u16 b) (\<lambda>magic.
        if magic \<noteq> chunk_magic then Inl (Corrupt ''chunk magic 0x'')
        else res_bind (slice_u32 (drop 2 b)) (\<lambda>stored_len.
          if unat stored_len > max_stored_len then Inl (Corrupt ''chunk stored_len '')
          else if b ! 6 AND NOT chunk_flags_known \<noteq> 0
            then Inl (Corrupt ''unknown chunk flags 0x'')
          else Inr \<lparr> ch_flags = b ! 6, ch_stored_len = stored_len,
                     ch_nonce = slice 7 (7 + nonce_len) b \<rparr>)))"

definition chunk_decode :: "bytes \<Rightarrow> chunk_record res" where
  "chunk_decode b =
     res_bind (chunk_decode_header b) (\<lambda>h.
       let stored_len = unat (ch_stored_len h); total = chunk_header_total_len h in
       if length b < total then Inl (Corrupt ''chunk record declares '')
       else Inr \<lparr> cr_flags = ch_flags h, cr_nonce = ch_nonce h,
                  cr_payload = slice chunk_header_len (chunk_header_len + stored_len) b,
                  cr_tag = (if chunk_is_encrypted (ch_flags h)
                    then Some (slice (chunk_header_len + stored_len) total b) else None) \<rparr>)"

section \<open>Sealing and opening\<close>

definition chunk_ad :: "bytes \<Rightarrow> image_kind \<Rightarrow> bytes" where
  "chunk_ad plaintext_hash kind = plaintext_hash @ [image_kind_as_u8 kind]"

record chunk_options =
  co_kind :: aead_kind
  co_level :: int
  co_compress :: bool

definition seal_chunk ::
    "prims \<Rightarrow> chunk_options \<Rightarrow> bytes option \<Rightarrow> bytes \<Rightarrow> image_kind \<Rightarrow> nonce_seq \<Rightarrow> bytes
     \<Rightarrow> ((bytes \<times> bytes) \<times> nonce_seq) res" where
  "seal_chunk P opts key dedup_key kind nonces plaintext =
     (let hash = content_hash P dedup_key plaintext in
      res_bind (if co_compress opts then compress_if_smaller P plaintext (co_level opts)
                else Inr (plaintext, False)) (\<lambda>(payload, compressed).
      let flags = (if compressed then chunk_flag_zstd else 0) in
      (case key of
         Some k \<Rightarrow>
           res_bind (next_nonce nonces) (\<lambda>(nonce, nonces').
           res_bind (seal_in_place P (co_kind opts) k nonce (chunk_ad hash kind) payload)
             (\<lambda>(buf, tag).
               Inr ((chunk_encode \<lparr> cr_flags = flags OR chunk_flag_encrypted, cr_nonce = nonce,
                       cr_payload = buf, cr_tag = Some tag \<rparr>, hash), nonces')))
       | None \<Rightarrow>
           Inr ((chunk_encode \<lparr> cr_flags = flags, cr_nonce = replicate nonce_len 0,
                   cr_payload = payload, cr_tag = None \<rparr>, hash), nonces))))"

definition open_chunk ::
    "prims \<Rightarrow> aead_kind \<Rightarrow> bytes option \<Rightarrow> bytes \<Rightarrow> image_kind \<Rightarrow> bytes \<Rightarrow> nat \<Rightarrow> bytes
     \<Rightarrow> bytes res" where
  "open_chunk P akind key dedup_key kind expected_hash max_plaintext b =
     res_bind (chunk_decode b) (\<lambda>r.
     res_bind (if chunk_is_encrypted (cr_flags r) then
         (case key of None \<Rightarrow> Inl (Corrupt ''encrypted chunk without a key'')
          | Some k \<Rightarrow> (case cr_tag r of None \<Rightarrow> Inl (Corrupt ''encrypted chunk without a tag'')
             | Some tag \<Rightarrow> open_in_place P akind k (cr_nonce r) (chunk_ad expected_hash kind)
                 (cr_payload r) tag))
       else Inr (cr_payload r)) (\<lambda>payload.
     res_bind (if chunk_is_compressed (cr_flags r) then decompress P payload max_plaintext
               else Inr payload) (\<lambda>plaintext.
       if length plaintext > max_plaintext then Inl (Corrupt ''chunk plaintext is '')
       else if content_hash P dedup_key plaintext \<noteq> expected_hash
         then Inl (Corrupt ''chunk content hash does not match the manifest'')
       else Inr plaintext)))"

section \<open>Lemmas\<close>

lemmas chunk_consts = chunk_header_len_def chunk_tag_len_def nonce_len_def tag_len_def
lemmas chunk_flag_defs = chunk_flag_zstd_def chunk_flag_encrypted_def chunk_flags_known_def

lemma max_stored_len_eq: "max_stored_len = 4259840"
  by (simp add: max_stored_len_def max_chunk_size_def)

text \<open>The records the writer makes: a 12-byte nonce, known flags, a tag exactly when encrypted.\<close>

definition chunk_record_wf :: "chunk_record \<Rightarrow> bool" where
  "chunk_record_wf r \<longleftrightarrow>
     length (cr_nonce r) = 12 \<and> cr_flags r AND NOT chunk_flags_known = 0
     \<and> length (cr_payload r) \<le> max_stored_len
     \<and> (case cr_tag r of Some t \<Rightarrow> chunk_is_encrypted (cr_flags r) \<and> length t = 16
        | None \<Rightarrow> \<not> chunk_is_encrypted (cr_flags r))"

lemma length_chunk_encode:
  "chunk_record_wf r \<Longrightarrow> length (chunk_encode r) = chunk_record_total_len r"
  by (auto simp: chunk_record_wf_def chunk_encode_def chunk_write_header_def
      chunk_record_total_len_def chunk_consts split: option.splits)

lemma chunk_decode_header_encode:
  assumes "chunk_record_wf r"
  shows "chunk_decode_header (chunk_encode r @ rest) =
    Inr \<lparr> ch_flags = cr_flags r, ch_stored_len = word_of_nat (length (cr_payload r)),
          ch_nonce = cr_nonce r \<rparr>"
proof -
  have n: "length (cr_nonce r) = 12" and fl: "cr_flags r AND NOT chunk_flags_known = 0"
    and p: "length (cr_payload r) \<le> max_stored_len"
    using assms by (simp_all add: chunk_record_wf_def)
  have l: "unat (word_of_nat (length (cr_payload r)) :: u32) = length (cr_payload r)"
    using p by (intro unat_of_nat_u32) (simp add: max_stored_len_eq)
  show ?thesis
    using n fl p l
    by (simp add: chunk_decode_header_def chunk_encode_def chunk_write_header_def chunk_consts
        slice_u16_def slice_u32_def put_u16_def put_u32_def put_u8_def nth_append slice_def)
qed

lemma chunk_decode_encode:
  assumes "chunk_record_wf r"
  shows "chunk_decode (chunk_encode r @ rest) = Inr r"
proof -
  have n: "length (cr_nonce r) = 12" and p: "length (cr_payload r) \<le> max_stored_len"
    using assms by (simp_all add: chunk_record_wf_def)
  have l: "unat (word_of_nat (length (cr_payload r)) :: u32) = length (cr_payload r)"
    using p by (intro unat_of_nat_u32) (simp add: max_stored_len_eq)
  have w: "length (chunk_write_header r) = 19"
    by (simp add: chunk_write_header_def n)
  have "length (chunk_encode r @ rest) \<ge> chunk_record_total_len r"
    using length_chunk_encode [OF assms] by simp
  moreover have "slice 19 (19 + length (cr_payload r)) (chunk_encode r @ rest) = cr_payload r"
    using w by (simp add: chunk_encode_def slice_def)
  moreover have "(if chunk_is_encrypted (cr_flags r) then
        Some (slice (19 + length (cr_payload r)) (chunk_record_total_len r) (chunk_encode r @ rest))
      else None) = cr_tag r"
    using w assms
    by (auto simp: chunk_encode_def slice_def chunk_record_wf_def chunk_record_total_len_def
        chunk_consts split: option.splits)
  ultimately show ?thesis
    by (cases "chunk_is_encrypted (cr_flags r)")
      (simp_all add: chunk_decode_def chunk_decode_header_encode [OF assms]
        chunk_header_total_len_def chunk_record_total_len_def l Let_def chunk_consts)
qed


lemma chunk_flags_facts:
  "(if z then chunk_flag_zstd else 0) AND NOT chunk_flags_known = 0"
  "((if z then chunk_flag_zstd else 0) OR chunk_flag_encrypted) AND NOT chunk_flags_known = 0"
  "chunk_is_encrypted ((if z then chunk_flag_zstd else 0) OR chunk_flag_encrypted)"
  "\<not> chunk_is_encrypted (if z then chunk_flag_zstd else 0)"
  "chunk_is_compressed ((if z then chunk_flag_zstd else 0) OR chunk_flag_encrypted) = z"
  "chunk_is_compressed (if z then chunk_flag_zstd else 0) = z"
  by (cases z; simp add: chunk_flag_defs chunk_is_encrypted_def chunk_is_compressed_def)+

text \<open>What a successful seal produced: a well-formed record around the payload.\<close>

definition sealed_record ::
    "prims \<Rightarrow> chunk_options \<Rightarrow> bytes option \<Rightarrow> bytes \<Rightarrow> image_kind \<Rightarrow> nonce_seq \<Rightarrow> bytes \<Rightarrow> nonce_seq
     \<Rightarrow> chunk_record \<Rightarrow> bool" where
  "sealed_record P opts key dk kind ns pt ns' r \<longleftrightarrow>
     chunk_record_wf r \<and> length (cr_payload r) \<le> length pt
     \<and> chunk_is_encrypted (cr_flags r) = (key \<noteq> None)
     \<and> (\<exists>payload.
          (\<forall>n. length pt \<le> n \<longrightarrow>
             (if chunk_is_compressed (cr_flags r) then decompress P payload n else Inr payload) = Inr pt)
          \<and> (case key of None \<Rightarrow> cr_payload r = payload \<and> ns' = ns
             | Some k \<Rightarrow> next_nonce ns = Inr (cr_nonce r, ns') \<and> (\<exists>t. cr_tag r = Some t \<and>
                 open_in_place P (co_kind opts) k (cr_nonce r) (chunk_ad (content_hash P dk pt) kind)
                   (cr_payload r) t = Inr payload)))"

lemma seal_chunk_Inr:
  assumes ok: "aead_ok P" "zstd_ok P" and len: "length pt \<le> max_stored_len"
    and seal: "seal_chunk P opts key dk kind ns pt = Inr ((bs, hash), ns')"
  shows "hash = content_hash P dk pt
    \<and> (\<exists>r. bs = chunk_encode r \<and> sealed_record P opts key dk kind ns pt ns' r)"
proof -
  from seal obtain payload z where pz: "(if co_compress opts then compress_if_smaller P pt (co_level opts)
      else Inr (pt, False)) = Inr (payload, z)"
    by (auto simp: seal_chunk_def Let_def res_bind_eq_Inr)
  have pl: "length payload \<le> length pt"
    using pz compress_if_smaller_Inr(1) [OF ok(2)] by (auto split: if_splits)
  have dec: "(if z then decompress P payload n else Inr payload) = Inr pt" if "length pt \<le> n" for n
    using pz compress_if_smaller_Inr(2) [OF ok(2) _ that, of "co_level opts" payload z]
    by (cases "co_compress opts") simp_all
  show ?thesis
  proof (cases key)
    case None
    let ?r = "\<lparr> cr_flags = (if z then chunk_flag_zstd else 0), cr_nonce = replicate nonce_len 0,
      cr_payload = payload, cr_tag = None \<rparr>"
    have "bs = chunk_encode ?r" "hash = content_hash P dk pt" "ns' = ns"
      using seal None pz by (simp_all add: seal_chunk_def Let_def)
    moreover have "sealed_record P opts key dk kind ns pt ns ?r"
      using pl len dec None
      by (simp add: sealed_record_def chunk_record_wf_def chunk_flags_facts nonce_len_def)
    ultimately show ?thesis by blast
  next
    case (Some k)
    from seal Some pz obtain nonce buf tag where n: "next_nonce ns = Inr (nonce, ns')"
      and s: "seal_in_place P (co_kind opts) k nonce (chunk_ad (content_hash P dk pt) kind) payload
        = Inr (buf, tag)"
      and bs: "bs = chunk_encode \<lparr> cr_flags = (if z then chunk_flag_zstd else 0) OR chunk_flag_encrypted,
        cr_nonce = nonce, cr_payload = buf, cr_tag = Some tag \<rparr>"
      and h: "hash = content_hash P dk pt"
      by (auto simp: seal_chunk_def Let_def res_bind_eq_Inr)
    note sl = seal_in_place_Inr [OF ok(1) s]
    have "sealed_record P opts key dk kind ns pt ns'
        \<lparr> cr_flags = (if z then chunk_flag_zstd else 0) OR chunk_flag_encrypted,
          cr_nonce = nonce, cr_payload = buf, cr_tag = Some tag \<rparr>"
      using sl pl len length_nonce [OF n] n dec Some
      by (simp add: sealed_record_def chunk_record_wf_def chunk_flags_facts)
    then show ?thesis using bs h by blast
  qed
qed

lemma open_sealed_record:
  assumes "sealed_record P opts key dk kind ns pt ns' r" "length pt \<le> n"
  shows "open_chunk P (co_kind opts) key dk kind (content_hash P dk pt) n (chunk_encode r @ rest) = Inr pt"
proof -
  have wf: "chunk_record_wf r" and e: "chunk_is_encrypted (cr_flags r) = (key \<noteq> None)"
    using assms(1) by (simp_all add: sealed_record_def)
  from assms obtain payload
    where p: "(if chunk_is_compressed (cr_flags r) then decompress P payload n else Inr payload) = Inr pt"
      and k: "case key of None \<Rightarrow> cr_payload r = payload \<and> ns' = ns
             | Some k \<Rightarrow> next_nonce ns = Inr (cr_nonce r, ns') \<and> (\<exists>t. cr_tag r = Some t \<and>
                 open_in_place P (co_kind opts) k (cr_nonce r) (chunk_ad (content_hash P dk pt) kind)
                   (cr_payload r) t = Inr payload)"
    unfolding sealed_record_def by blast
  show ?thesis
    using k e p assms(2) by (cases key) (auto simp: open_chunk_def chunk_decode_encode [OF wf])
qed

lemma chunk_encode_header_total:
  assumes "chunk_record_wf r"
  shows "\<exists>h. chunk_decode_header (chunk_encode r @ rest) = Inr h
    \<and> chunk_header_total_len h = length (chunk_encode r)
    \<and> unat (ch_stored_len h) = length (cr_payload r)"
proof -
  have "unat (word_of_nat (length (cr_payload r)) :: u32) = length (cr_payload r)"
    using assms by (intro unat_of_nat_u32) (simp add: chunk_record_wf_def max_stored_len_eq)
  then show ?thesis
    by (simp add: chunk_decode_header_encode [OF assms] length_chunk_encode [OF assms]
        chunk_header_total_len_def chunk_record_total_len_def)
qed

lemma chunk_decode_header_prefix:
  assumes "chunk_header_len \<le> length b"
  shows "chunk_decode_header (take chunk_header_len b) = chunk_decode_header b"
proof -
  have "2 \<le> length b" "4 \<le> length b - 2" using assms by (simp_all add: chunk_consts)
  then show ?thesis using assms
  by (simp add: chunk_decode_header_def chunk_consts slice_u16_def slice_u32_def slice_def drop_take)
qed

lemma seal_chunk_succeeds:
  assumes ok: "aead_ok P" "zstd_ok P" and len: "length pt \<le> max_stored_len"
    and "co_compress opts \<longrightarrow> 1 \<le> co_level opts \<and> co_level opts \<le> 22" and "unat nonces < 2 ^ 96"
  shows "\<exists>bs hash ns'. seal_chunk P opts key dk kind nonces pt = Inr ((bs, hash), ns')"
proof -
  obtain payload z where pz: "(if co_compress opts then compress_if_smaller P pt (co_level opts)
      else Inr (pt, False)) = Inr (payload, z)"
    using compress_if_smaller_total [OF ok(2), of "co_level opts" pt] assms(4)
    by (cases "co_compress opts") auto
  have "length payload \<le> length pt"
    using pz compress_if_smaller_Inr(1) [OF ok(2)] by (auto split: if_splits)
  then have pl: "length payload < 2 ^ 32" using len by (simp add: max_stored_len_eq)
  obtain nonce ns1 where n: "next_nonce nonces = Inr (nonce, ns1)"
    using assms(5) next_nonce_Inr by blast
  show ?thesis
  proof (cases key)
    case None
    then show ?thesis using pz by (simp add: seal_chunk_def Let_def)
  next
    case (Some k)
    from seal_in_placeE [OF ok(1) pl] obtain c t where
      "seal_in_place P (co_kind opts) k nonce (chunk_ad (content_hash P dk pt) kind) payload
        = Inr (c, t)" .
    then show ?thesis using pz n Some by (simp add: seal_chunk_def Let_def)
  qed
qed

section \<open>Properties\<close>

text \<open>
  C24. A chunk that was sealed opens to the same plaintext, encrypted or not,
  compressed or not, wherever its record lies in the file; and sealing itself
  never fails for a chunk of allowed size while nonces remain.
\<close>

theorem chunk_roundtrip:
  assumes "prims_ok P" "length plaintext \<le> max_stored_len" "length plaintext \<le> max_plaintext"
    and "co_compress opts \<longrightarrow> 1 \<le> co_level opts \<and> co_level opts \<le> 22" and "unat nonces < 2 ^ 96"
  shows "\<exists>bs hash nonces'. seal_chunk P opts key dedup_key kind nonces plaintext
           = Inr ((bs, hash), nonces')
         \<and> open_chunk P (co_kind opts) key dedup_key kind hash max_plaintext (bs @ rest)
           = Inr plaintext"
proof -
  have ok: "aead_ok P" "zstd_ok P" using assms(1) by (simp_all add: prims_ok_def)
  obtain bs hash ns' where s: "seal_chunk P opts key dedup_key kind nonces plaintext = Inr ((bs, hash), ns')"
    using seal_chunk_succeeds [OF ok assms(2,4,5)] by blast
  then show ?thesis
    using seal_chunk_Inr [OF ok assms(2) s] open_sealed_record [OF _ assms(3)] by blast
qed

definition demo_opts :: chunk_options where
  "demo_opts = \<lparr> co_kind = Aes256Gcm, co_level = 9, co_compress = True \<rparr>"

theorem chunk_roundtrip_witness:
  "\<exists>bs hash ns. seal_chunk demo_prims demo_opts (Some (replicate 32 1)) (replicate 32 2) Block 0 [1, 2, 3]
      = Inr ((bs, hash), ns)
    \<and> open_chunk demo_prims (co_kind demo_opts) (Some (replicate 32 1)) (replicate 32 2) Block hash 3
        (bs @ [9]) = Inr [1, 2, 3]"
  by (rule chunk_roundtrip) (simp_all add: demo_prims_ok max_stored_len_eq demo_opts_def)

text \<open>
  C25. Whatever bytes are in the file, \<open>open_chunk\<close> never returns data that
  does not match the content hash of the manifest or that is larger than the
  caller's limit; and for an encrypted record the data authenticated under the
  hash and the image kind.
\<close>

theorem open_chunk_sound:
  assumes "open_chunk P akind key dedup_key kind expected_hash max_plaintext b = Inr plaintext"
  shows "content_hash P dedup_key plaintext = expected_hash \<and> length plaintext \<le> max_plaintext
    \<and> (\<exists>r. chunk_decode b = Inr r \<and> (chunk_is_encrypted (cr_flags r) \<longrightarrow>
          (\<exists>k t m. key = Some k \<and> cr_tag r = Some t
             \<and> aead_decrypt P akind k (cr_nonce r) (chunk_ad expected_hash kind) (cr_payload r) t = Some m)))"
  using assms
  by (auto simp: open_chunk_def open_in_place_def res_bind_eq_Inr split: if_splits option.splits)

lemma demo_seal:
  "seal_chunk demo_prims demo_opts None (replicate 32 2) Block 0 [1, 2, 3]
   = Inr ((chunk_encode \<lparr> cr_flags = 0, cr_nonce = replicate 12 0, cr_payload = [1, 2, 3], cr_tag = None \<rparr>,
           content_hash demo_prims (replicate 32 2) [1, 2, 3]), 0)"
  by (simp add: seal_chunk_def demo_opts_def compress_if_smaller_def compress_def demo_prims_def
      nonce_len_def Let_def)

lemma demo_sealed:
  "sealed_record demo_prims demo_opts None (replicate 32 2) Block 0 [1, 2, 3] 0
     \<lparr> cr_flags = 0, cr_nonce = replicate 12 0, cr_payload = [1, 2, 3], cr_tag = None \<rparr>"
  by (simp add: sealed_record_def chunk_record_wf_def chunk_is_encrypted_def chunk_is_compressed_def
      max_stored_len_eq)

theorem open_chunk_sound_witness:
  "content_hash demo_prims (replicate 32 2) [1, 2, 3] = content_hash demo_prims (replicate 32 2) [1, 2, 3]
   \<and> length [1 :: u8, 2, 3] \<le> 3
   \<and> (\<exists>r. chunk_decode (chunk_encode \<lparr> cr_flags = 0, cr_nonce = replicate 12 0,
               cr_payload = [1, 2, 3], cr_tag = None \<rparr> @ []) = Inr r
        \<and> (chunk_is_encrypted (cr_flags r) \<longrightarrow> (\<exists>k t m. None = Some k \<and> cr_tag r = Some t
             \<and> aead_decrypt demo_prims (co_kind demo_opts) k (cr_nonce r)
                 (chunk_ad (content_hash demo_prims (replicate 32 2) [1, 2, 3]) Block) (cr_payload r) t
               = Some m)))"
  by (rule open_chunk_sound [OF open_sealed_record [OF demo_sealed]]) simp

end
