(* ===== verification/Page_Stream.thy ===== *)
theory Page_Stream
  imports Chunk
begin

text \<open>
  \<open>crates/lr-format/src/stream.rs\<close>: metadata streams cut into authenticated pages.

  \<open>PageStream\<close> buffers what is written to it, seals a page whenever the buffer is
  full and hands it to a \<open>PageSink\<close>; the trait is the record of its operations
  and the locale \<open>page_sink\<close> is its contract (interpreted on the image writer in
  \<open>Image_Writer\<close>).  \<open>PageStreamReader\<close> reads the pages of one stream back in file
  order and is a \<open>ByteSource\<close>: the locale \<open>byte_source\<close> is interpreted on it here,
  so every record reader of the format works on it.
\<close>

section \<open>Writing\<close>

definition default_page_len :: nat where
  "default_page_len = 1024 * 1024"

record 's page_sink_ops =
  sink_write_page :: "stream_id \<Rightarrow> u64 \<Rightarrow> bytes \<Rightarrow> 's \<Rightarrow> 's res"
  sink_nonces :: "'s \<Rightarrow> nonce_seq"
  sink_set_nonces :: "nonce_seq \<Rightarrow> 's \<Rightarrow> 's"

text \<open>The sink a stream borrows mutably is part of its state.\<close>

record 's page_stream =
  ps_sink :: 's
  ps_stream :: stream_id
  ps_kind :: aead_kind
  ps_meta_key :: bytes
  ps_page_len :: nat
  ps_buf :: bytes
  ps_page_no :: u64
  ps_pages :: u64

text \<open>\<open>with_page_len\<close> asserts its argument: a panic is \<open>None\<close>.\<close>

definition page_stream_with_page_len ::
    "'s \<Rightarrow> stream_id \<Rightarrow> aead_kind \<Rightarrow> bytes \<Rightarrow> nat \<Rightarrow> 's page_stream option" where
  "page_stream_with_page_len sink stream kind meta_key page_len =
     (if page_len > 0 \<and> page_len \<le> max_page_len then
        Some \<lparr> ps_sink = sink, ps_stream = stream, ps_kind = kind, ps_meta_key = meta_key,
               ps_page_len = page_len, ps_buf = [], ps_page_no = 0, ps_pages = 0 \<rparr>
      else None)"

definition flush_page :: "prims \<Rightarrow> 's page_sink_ops \<Rightarrow> 's page_stream \<Rightarrow> 's page_stream res" where
  "flush_page P ops st =
     (if ps_buf st = [] then Inr st
      else res_bind (seal_page P (ps_kind st) (ps_meta_key st) (ps_stream st) (ps_page_no st)
               (ps_buf st) (sink_nonces ops (ps_sink st))) (\<lambda>(page, nonces').
           res_bind (sink_write_page ops (ps_stream st) (ps_page_no st) page
               (sink_set_nonces ops nonces' (ps_sink st))) (\<lambda>sink'.
             Inr (st\<lparr> ps_sink := sink', ps_page_no := ps_page_no st + 1,
                      ps_pages := ps_pages st + 1, ps_buf := [] \<rparr>))))"

text \<open>The loop of \<open>write\<close>; \<open>None\<close> would be a loop that does not end.\<close>

partial_function (option) page_write ::
    "prims \<Rightarrow> 's page_sink_ops \<Rightarrow> 's page_stream \<Rightarrow> bytes \<Rightarrow> 's page_stream res option" where
  "page_write P ops st bs =
     (if bs = [] then Some (Inr st)
      else (let space = ps_page_len st - length (ps_buf st);
                n = min space (length bs);
                st1 = st\<lparr> ps_buf := ps_buf st @ take n bs \<rparr>;
                rest = drop n bs
            in if length (ps_buf st1) = ps_page_len st1 then
                 (case flush_page P ops st1 of
                    Inl e \<Rightarrow> Some (Inl e)
                  | Inr st2 \<Rightarrow> page_write P ops st2 rest)
               else page_write P ops st1 rest))"

lemma flush_page_len: "flush_page P ops st = Inr st' \<Longrightarrow> ps_page_len st' = ps_page_len st \<and> ps_buf st' = []"
  by (auto simp: flush_page_def res_bind_eq_Inr split: if_splits)

lemma page_write_fill:
  assumes "length (ps_buf st) < ps_page_len st" "n = ps_page_len st - length (ps_buf st)" "n \<le> length c"
  shows "page_write P ops st c = (case flush_page P ops (st\<lparr> ps_buf := ps_buf st @ take n c \<rparr>) of
    Inl e \<Rightarrow> Some (Inl e) | Inr st2 \<Rightarrow> page_write P ops st2 (drop n c))"
proof -
  have m: "min (ps_page_len st - length (ps_buf st)) (length c) = n" using assms by simp
  show ?thesis unfolding page_write.simps [of P ops st c] Let_def m using assms by auto
qed

lemma page_write_more:
  assumes "length (ps_buf st) + length a < ps_page_len st"
  shows "page_write P ops st (a @ b) = page_write P ops (st\<lparr> ps_buf := ps_buf st @ a \<rparr>) b"
proof (cases "a = []")
  case False
  let ?k = "min (ps_page_len st - (length (ps_buf st) + length a)) (length b)"
  have k: "min (ps_page_len st - length (ps_buf st)) (length (a @ b)) = length a + ?k" using assms by auto
  have t: "take (length a + ?k) (a @ b) = a @ take ?k b" "drop (length a + ?k) (a @ b) = drop ?k b" by simp_all
  have e: "page_write P ops st (a @ b) =
      (let st1 = st\<lparr> ps_buf := ps_buf st @ a @ take ?k b \<rparr> in if length (ps_buf st1) = ps_page_len st1 then
                 (case flush_page P ops st1 of Inl e \<Rightarrow> Some (Inl e) | Inr st2 \<Rightarrow> page_write P ops st2 (drop ?k b))
               else page_write P ops st1 (drop ?k b))"
    unfolding page_write.simps [of P ops st "a @ b"] Let_def k t using False by simp
  have k': "min (ps_page_len (st\<lparr> ps_buf := ps_buf st @ a \<rparr>) - length (ps_buf (st\<lparr> ps_buf := ps_buf st @ a \<rparr>))) (length b) = ?k"
    by simp
  show ?thesis
    unfolding e page_write.simps [of P ops "st\<lparr> ps_buf := ps_buf st @ a \<rparr>" b] Let_def k'
    using assms by (cases "b = []") (simp_all add: page_write.simps [of _ _ _ "[]"])
qed simp

text \<open>Writing in two pieces is writing at once, so it does not matter how a caller cuts its data.\<close>

lemma page_write_append:
  assumes "length (ps_buf st) < ps_page_len st"
  shows "page_write P ops st (a @ b)
    = (case page_write P ops st a of Some (Inr st') \<Rightarrow> page_write P ops st' b | r \<Rightarrow> r)"
  using assms
proof (induction a arbitrary: st rule: length_induct)
  case (1 a)
  show ?case
  proof (cases "length (ps_buf st) + length a < ps_page_len st")
    case True
    then have "page_write P ops st a = Some (Inr (st\<lparr> ps_buf := ps_buf st @ a \<rparr>))"
      using page_write_more [of st a P ops "[]"] by (simp add: page_write.simps [of _ _ _ "[]"])
    then show ?thesis using page_write_more [OF True] by simp
  next
    case False
    define n where "n = ps_page_len st - length (ps_buf st)"
    have n: "0 < n" "n \<le> length a" "n \<le> length (a @ b)" using False 1(2) by (auto simp: n_def)
    have eq: "flush_page P ops (st\<lparr> ps_buf := ps_buf st @ take n (a @ b) \<rparr>) = flush_page P ops (st\<lparr> ps_buf := ps_buf st @ take n a \<rparr>)"
      using n(2) by simp
    show ?thesis
    proof (cases "flush_page P ops (st\<lparr> ps_buf := ps_buf st @ take n a \<rparr>)")
      case (Inl e)
      then show ?thesis unfolding page_write_fill [OF 1(2) n_def n(2)] page_write_fill [OF 1(2) n_def n(3)] eq by simp
    next
      case (Inr st2)
      then have "length (ps_buf st2) < ps_page_len st2" using flush_page_len [OF Inr] 1(2) by auto
      moreover have "length (drop n a) < length a" using n by simp
      ultimately show ?thesis
        unfolding page_write_fill [OF 1(2) n_def n(2)] page_write_fill [OF 1(2) n_def n(3)] eq
        using Inr 1(1) n(2) by simp
    qed
  qed
qed

lemma page_write_room:
  assumes "length (ps_buf st) < ps_page_len st" "page_write P ops st a = Some (Inr st')"
  shows "length (ps_buf st') < ps_page_len st'"
  using assms
proof (induction a arbitrary: st rule: length_induct)
  case (1 a)
  show ?case
  proof (cases "length (ps_buf st) + length a < ps_page_len st")
    case True
    then show ?thesis
      using 1(3) page_write_more [of st a P ops "[]"] by (auto simp: page_write.simps [of _ _ _ "[]"])
  next
    case False
    define n where "n = ps_page_len st - length (ps_buf st)"
    have n: "0 < n" "n \<le> length a" using False 1(2) by (auto simp: n_def)
    obtain st2 where f: "flush_page P ops (st\<lparr> ps_buf := ps_buf st @ take n a \<rparr>) = Inr st2"
        "page_write P ops st2 (drop n a) = Some (Inr st')"
      using 1(3) unfolding page_write_fill [OF 1(2) n_def n(2)] by (auto split: sum.splits)
    have "length (ps_buf st2) < ps_page_len st2" using flush_page_len [OF f(1)] 1(2) by auto
    moreover have "length (drop n a) < length a" using n by simp
    ultimately show ?thesis using 1(1) f(2) by blast
  qed
qed

definition page_finish :: "prims \<Rightarrow> 's page_sink_ops \<Rightarrow> 's page_stream \<Rightarrow> 's page_stream res" where
  "page_finish P ops st = flush_page P ops st"

section \<open>Reading\<close>

record page_stream_reader =
  pr_file :: bytes
  pr_kind :: aead_kind
  pr_meta_key :: bytes
  pr_stream :: stream_id
  pr_entries :: "page_entry list"
  pr_index :: nat
  pr_buf :: bytes
  pr_pos :: nat

fun check_page_extents :: "u64 \<Rightarrow> page_entry list \<Rightarrow> unit res" where
  "check_page_extents file_len [] = Inr ()"
| "check_page_extents file_len (e # es) =
     (if unat (pe_len e) > max_page_len then Inl (Corrupt ''page length '')
      else (case checked_add_u64 (pe_offset e) (ucast (pe_len e) + word_of_nat page_overhead) of
          None \<Rightarrow> Inl (Corrupt ''page extent overflows'')
        | Some end \<Rightarrow>
            if end > file_len then Inl (Corrupt ''page extent '')
            else check_page_extents file_len es))"

definition page_stream_reader_new ::
    "bytes \<Rightarrow> aead_kind \<Rightarrow> bytes \<Rightarrow> stream_id \<Rightarrow> page_entry list \<Rightarrow> u64 \<Rightarrow> page_stream_reader res" where
  "page_stream_reader_new file kind meta_key stream entries file_len =
     res_bind (check_page_extents file_len entries) (\<lambda>_.
       Inr \<lparr> pr_file = file, pr_kind = kind, pr_meta_key = meta_key, pr_stream = stream,
             pr_entries = sort_key pe_offset entries, pr_index = 0, pr_buf = [], pr_pos = 0 \<rparr>)"

text \<open>\<open>read_exact\<close> of \<open>n\<close> bytes at an absolute offset of the file.\<close>

definition read_exact_at :: "bytes \<Rightarrow> nat \<Rightarrow> nat \<Rightarrow> bytes option" where
  "read_exact_at file off n = (if off + n \<le> length file then Some (slice off (off + n) file) else None)"

text \<open>\<open>load_next\<close>: \<open>None\<close> for \<open>Ok(false)\<close>, the state with the next page for \<open>Ok(true)\<close>.\<close>

definition load_next :: "prims \<Rightarrow> page_stream_reader \<Rightarrow> page_stream_reader option res" where
  "load_next P st =
     (if pr_index st \<ge> length (pr_entries st) then Inr None
      else (let entry = pr_entries st ! pr_index st;
                total = unat (pe_len entry) + page_overhead in
        (case read_exact_at (pr_file st) (unat (pe_offset entry)) total of
           None \<Rightarrow> Inl (Corrupt ''page record is truncated'')
         | Some raw \<Rightarrow>
             res_bind (open_page P (pr_kind st) (pr_meta_key st) (pr_stream st)
                 (word_of_nat (pr_index st)) raw) (\<lambda>buf.
               Inr (Some (st\<lparr> pr_index := pr_index st + 1, pr_buf := buf, pr_pos := 0 \<rparr>))))))"

definition read_bytes_partial ::
    "prims \<Rightarrow> nat \<Rightarrow> page_stream_reader \<Rightarrow> (bytes \<times> page_stream_reader) res" where
  "read_bytes_partial P n st =
     res_bind (if pr_pos st \<ge> length (pr_buf st) then load_next P st else Inr (Some st))
       (\<lambda>r. case r of
          None \<Rightarrow> Inr ([], st)
        | Some st' \<Rightarrow>
            (let k = min n (length (pr_buf st') - pr_pos st') in
             Inr (slice (pr_pos st') (pr_pos st' + k) (pr_buf st'),
                  st'\<lparr> pr_pos := pr_pos st' + k \<rparr>)))"

lemma load_next_progress:
  "load_next P st = Inr (Some st') \<Longrightarrow>
   pr_index st' = Suc (pr_index st) \<and> pr_entries st' = pr_entries st
   \<and> pr_index st < length (pr_entries st)"
  by (auto simp: load_next_def Let_def res_bind_eq_Inr split: if_splits option.splits)

function page_read_bytes :: "prims \<Rightarrow> nat \<Rightarrow> (page_stream_reader, bytes) reader" where
  "page_read_bytes P n st =
     (if n = 0 then Inr ([], st)
      else if pr_pos st \<ge> length (pr_buf st) then
        (case load_next P st of
           Inl e \<Rightarrow> Inl e
         | Inr None \<Rightarrow> Inl (Corrupt ''page stream ended early'')
         | Inr (Some st') \<Rightarrow>
             (let k = min n (length (pr_buf st') - pr_pos st') in
              res_bind (page_read_bytes P (n - k) (st'\<lparr> pr_pos := pr_pos st' + k \<rparr>))
                (\<lambda>(bs, st''). Inr (slice (pr_pos st') (pr_pos st' + k) (pr_buf st') @ bs, st''))))
      else
        (let k = min n (length (pr_buf st) - pr_pos st) in
         res_bind (page_read_bytes P (n - k) (st\<lparr> pr_pos := pr_pos st + k \<rparr>))
           (\<lambda>(bs, st''). Inr (slice (pr_pos st) (pr_pos st + k) (pr_buf st) @ bs, st''))))"
  by pat_completeness auto
termination
  by (relation "measure (\<lambda>(P, n, st). n + (length (pr_entries st) - pr_index st))")
    (auto dest!: load_next_progress)

declare page_read_bytes.simps [simp del]

section \<open>The reader is a byte source\<close>

definition page_at :: "prims \<Rightarrow> page_stream_reader \<Rightarrow> nat \<Rightarrow> bytes res" where
  "page_at P st i =
     (let e = pr_entries st ! i in
      case read_exact_at (pr_file st) (unat (pe_offset e)) (unat (pe_len e) + page_overhead) of
        None \<Rightarrow> Inl (Corrupt ''page record is truncated'')
      | Some raw \<Rightarrow> open_page P (pr_kind st) (pr_meta_key st) (pr_stream st) (word_of_nat i) raw)"

text \<open>Every page still to be loaded is in the file and authenticates.\<close>

definition pages_ok :: "prims \<Rightarrow> page_stream_reader \<Rightarrow> bool" where
  "pages_ok P st \<longleftrightarrow> (\<forall>i \<in> {pr_index st..<length (pr_entries st)}. is_ok (page_at P st i))"

definition page_plain :: "prims \<Rightarrow> page_stream_reader \<Rightarrow> nat \<Rightarrow> bytes" where
  "page_plain P st i = (case page_at P st i of Inl _ \<Rightarrow> [] | Inr p \<Rightarrow> p)"

text \<open>The bytes a reader still delivers: the rest of its page and the pages to come.\<close>

definition page_remaining :: "prims \<Rightarrow> page_stream_reader \<Rightarrow> bytes" where
  "page_remaining P st = drop (pr_pos st) (pr_buf st)
     @ concat (map (page_plain P st) [pr_index st..<length (pr_entries st)])"

lemma page_at_update [simp]:
  "page_at P (st\<lparr>pr_pos := a\<rparr>) = page_at P st"
  "page_at P (st\<lparr>pr_index := b\<rparr>) = page_at P st"
  "page_at P (st\<lparr>pr_buf := c\<rparr>) = page_at P st"
  by (rule ext, simp add: page_at_def Let_def split: option.split)+

lemma page_plain_update [simp]:
  "page_plain P (st\<lparr>pr_pos := a\<rparr>) = page_plain P st"
  "page_plain P (st\<lparr>pr_index := b\<rparr>) = page_plain P st"
  "page_plain P (st\<lparr>pr_buf := c\<rparr>) = page_plain P st"
  by (rule ext, simp add: page_plain_def)+

lemma pages_ok_pos [simp]: "pages_ok P (st\<lparr>pr_pos := a\<rparr>) = pages_ok P st"
  by (simp add: pages_ok_def)

lemma load_next_eq:
  "load_next P st =
     (if pr_index st \<ge> length (pr_entries st) then Inr None
      else res_bind (page_at P st (pr_index st)) (\<lambda>buf.
        Inr (Some (st\<lparr> pr_index := pr_index st + 1, pr_buf := buf, pr_pos := 0 \<rparr>))))"
  by (simp add: load_next_def page_at_def Let_def split: option.splits)

lemma load_next_ok:
  assumes "pages_ok P st" "pr_index st < length (pr_entries st)" "pr_pos st \<ge> length (pr_buf st)"
  shows "\<exists>st'. load_next P st = Inr (Some st') \<and> pages_ok P st'
    \<and> page_remaining P st' = page_remaining P st \<and> pr_pos st' = 0"
proof -
  have "is_ok (page_at P st (pr_index st))" using assms(1,2) by (simp add: pages_ok_def)
  then obtain buf where b: "page_at P st (pr_index st) = Inr buf" by (auto simp: is_ok_iff)
  then have pl: "page_plain P st (pr_index st) = buf" by (simp add: page_plain_def)
  let ?st' = "st\<lparr> pr_index := pr_index st + 1, pr_buf := buf, pr_pos := 0 \<rparr>"
  have "page_remaining P ?st' = page_remaining P st"
    using assms(2,3) pl by (simp add: page_remaining_def upt_conv_Cons)
  moreover have "pages_ok P ?st'" using assms(1) by (simp add: pages_ok_def)
  ultimately show ?thesis using b assms(2) by (intro exI [of _ ?st']) (simp add: load_next_eq)
qed

text \<open>Reading is deterministic on what remains: enough bytes give them, too few give an error.\<close>

definition read_spec :: "prims \<Rightarrow> nat \<Rightarrow> page_stream_reader \<Rightarrow> bool" where
  "read_spec P n st \<longleftrightarrow>
     (if n \<le> length (page_remaining P st)
      then (\<exists>st'. page_read_bytes P n st = Inr (take n (page_remaining P st), st')
              \<and> page_remaining P st' = drop n (page_remaining P st) \<and> pages_ok P st')
      else (\<exists>m. page_read_bytes P n st = Inl (Corrupt m)))"

text \<open>One round of the loop: take \<open>k\<close> bytes of the current page, then read the rest.\<close>

lemma read_spec_take:
  assumes "read_spec P (n - k) (st\<lparr>pr_pos := pr_pos st + k\<rparr>)"
    and "k = min n (length (pr_buf st) - pr_pos st)" "pages_ok P st"
    and "r = res_bind (page_read_bytes P (n - k) (st\<lparr>pr_pos := pr_pos st + k\<rparr>))
      (\<lambda>(bs, st''). Inr (slice (pr_pos st) (pr_pos st + k) (pr_buf st) @ bs, st''))"
  shows "if n \<le> length (page_remaining P st)
      then (\<exists>st'. r = Inr (take n (page_remaining P st), st')
              \<and> page_remaining P st' = drop n (page_remaining P st) \<and> pages_ok P st')
      else (\<exists>m. r = Inl (Corrupt m))"
proof -
  define tl where "tl = concat (map (page_plain P st) [pr_index st..<length (pr_entries st)])"
  define cur where "cur = drop (pr_pos st) (pr_buf st)"
  have rem: "page_remaining P st = cur @ tl" by (simp add: page_remaining_def cur_def tl_def)
  have rem': "page_remaining P (st\<lparr>pr_pos := pr_pos st + k\<rparr>) = drop k cur @ tl"
    by (simp add: page_remaining_def tl_def cur_def add.commute)
  have k: "k \<le> n" "k \<le> length cur" using assms(2) by (auto simp: cur_def)
  have sl: "slice (pr_pos st) (pr_pos st + k) (pr_buf st) = take k cur"
    by (simp add: slice_def cur_def)
  have tk: "take n (cur @ tl) = take k cur @ take (n - k) (drop k cur @ tl)"
    and dr: "drop n (cur @ tl) = drop (n - k) (drop k cur @ tl)"
    using take_add [of k "n - k" "cur @ tl"] drop_drop [of "n - k" k "cur @ tl"] k by simp_all
  have le: "n - k \<le> length (drop k cur @ tl) \<longleftrightarrow> n \<le> length (cur @ tl)" using k by auto
  show ?thesis
  proof (cases "n \<le> length (cur @ tl)")
    case True
    then obtain st' where "page_read_bytes P (n - k) (st\<lparr>pr_pos := pr_pos st + k\<rparr>)
        = Inr (take (n - k) (drop k cur @ tl), st')"
      "page_remaining P st' = drop (n - k) (drop k cur @ tl)" "pages_ok P st'"
      using assms(1) le unfolding read_spec_def rem' by (simp only: if_True) blast
    then show ?thesis
      using True unfolding rem tk dr assms(4) sl by (simp only: if_True res_bind_simps prod.case) blast
  next
    case False
    then obtain m where "page_read_bytes P (n - k) (st\<lparr>pr_pos := pr_pos st + k\<rparr>) = Inl (Corrupt m)"
      using assms(1) le unfolding read_spec_def rem' by (simp only: if_False) blast
    then show ?thesis using False unfolding rem assms(4) by (simp only: if_False res_bind_simps) blast
  qed
qed

lemma page_read_spec: "pages_ok P st \<Longrightarrow> read_spec P n st"
proof (induction P n st rule: page_read_bytes.induct)
  case (1 P n st)
  show ?case
  proof (cases "n = 0")
    case True
    then show ?thesis using "1.prems" by (simp add: read_spec_def page_read_bytes.simps)
  next
    case n: False
    show ?thesis
    proof (cases "pr_pos st \<ge> length (pr_buf st)")
      case False
      let ?k = "min n (length (pr_buf st) - pr_pos st)"
      have "read_spec P (n - ?k) (st\<lparr>pr_pos := pr_pos st + ?k\<rparr>)"
        using "1.IH"(2) [OF n False refl] "1.prems" by simp
      moreover have "page_read_bytes P n st
          = res_bind (page_read_bytes P (n - ?k) (st\<lparr>pr_pos := pr_pos st + ?k\<rparr>))
              (\<lambda>(bs, st''). Inr (slice (pr_pos st) (pr_pos st + ?k) (pr_buf st) @ bs, st''))"
        using n False by (subst page_read_bytes.simps) (simp add: Let_def)
      ultimately show ?thesis
        unfolding read_spec_def [of P n st] by (rule read_spec_take [OF _ refl "1.prems"])
    next
      case empty: True
      show ?thesis
      proof (cases "pr_index st < length (pr_entries st)")
        case False
        then have "page_remaining P st = []" using empty by (simp add: page_remaining_def)
        moreover have "load_next P st = Inr None" using False by (simp add: load_next_eq)
        ultimately show ?thesis
          using n empty by (simp add: read_spec_def page_read_bytes.simps)
      next
        case True
        from load_next_ok [OF "1.prems" True empty] obtain st'
          where ld: "load_next P st = Inr (Some st')" and ok: "pages_ok P st'"
            and rem: "page_remaining P st' = page_remaining P st" by blast
        let ?k = "min n (length (pr_buf st') - pr_pos st')"
        have "read_spec P (n - ?k) (st'\<lparr>pr_pos := pr_pos st' + ?k\<rparr>)"
          using "1.IH"(1) [OF n empty ld refl refl] ok by simp
        moreover have "page_read_bytes P n st
            = res_bind (page_read_bytes P (n - ?k) (st'\<lparr>pr_pos := pr_pos st' + ?k\<rparr>))
                (\<lambda>(bs, st''). Inr (slice (pr_pos st') (pr_pos st' + ?k) (pr_buf st') @ bs, st''))"
          using n empty ld by (subst page_read_bytes.simps) (simp add: Let_def)
        ultimately show ?thesis
          unfolding read_spec_def [of P n st] rem [symmetric]
          by (rule read_spec_take [OF _ refl ok])
      qed
    qed
  qed
qed

interpretation page_src: byte_source "page_read_bytes P" "page_remaining P" "pages_ok P" for P
proof unfold_locales
  fix st n
  assume ok: "pages_ok P st"
  show "\<exists>s'. page_read_bytes P n st = Inr (take n (page_remaining P st), s')
      \<and> page_remaining P s' = drop n (page_remaining P st) \<and> pages_ok P s'"
    if "n \<le> length (page_remaining P st)"
    using page_read_spec [OF ok, of n] that by (simp add: read_spec_def)
  show "\<exists>m. page_read_bytes P n st = Inl (Corrupt m)" if "length (page_remaining P st) < n"
    using page_read_spec [OF ok, of n] that by (simp add: read_spec_def)
qed

section \<open>What a page stream leaves in its sink\<close>

text \<open>
  \<open>ps\<close> are page records whose \<open>i\<close>-th authenticates as page \<open>i\<close> of the stream and
  opens to the \<open>i\<close>-th of the (non-empty) plaintexts.
\<close>

definition pages_seal ::
    "prims \<Rightarrow> aead_kind \<Rightarrow> bytes \<Rightarrow> stream_id \<Rightarrow> bytes list \<Rightarrow> bytes list \<Rightarrow> bool" where
  "pages_seal P kind key stream ps plains \<longleftrightarrow>
     length ps = length plains
     \<and> (\<forall>i < length ps. open_page P kind key stream (word_of_nat i) (ps ! i) = Inr (plains ! i)
          \<and> length (ps ! i) = page_overhead + length (plains ! i))
     \<and> (\<forall>p \<in> set plains. p \<noteq> [] \<and> length p \<le> max_page_len)"

lemma pages_seal_Nil [simp]: "pages_seal P kind key stream [] []"
  by (simp add: pages_seal_def)

lemma pages_seal_snoc:
  assumes "pages_seal P kind key stream ps plains" "aead_ok P"
    and "seal_page P kind key stream (word_of_nat (length ps)) pt ns = Inr (page, ns')" "pt \<noteq> []"
  shows "pages_seal P kind key stream (ps @ [page]) (plains @ [pt])"
proof -
  have "length pt \<le> max_page_len" using assms(3) by (auto elim: seal_page_Inr)
  then show ?thesis
    using assms open_seal_page [OF assms(2,3)] length_seal_page [OF assms(2,3)]
    by (auto simp: pages_seal_def nth_append less_Suc_eq)
qed

text \<open>The stream has accepted \<open>w\<close>: full pages in the sink, the rest in the buffer.\<close>

definition stream_accepts ::
    "('s \<Rightarrow> stream_id \<Rightarrow> bytes list) \<Rightarrow> ('s \<Rightarrow> bool) \<Rightarrow> prims \<Rightarrow> 's page_stream \<Rightarrow> bytes \<Rightarrow> bool" where
  "stream_accepts pages ok P st w \<longleftrightarrow>
     ok (ps_sink st) \<and> 0 < ps_page_len st \<and> ps_page_len st \<le> max_page_len
     \<and> length (ps_buf st) \<le> ps_page_len st
     \<and> unat (ps_page_no st) = length (pages (ps_sink st) (ps_stream st))
     \<and> (\<exists>plains. pages_seal P (ps_kind st) (ps_meta_key st) (ps_stream st)
            (pages (ps_sink st) (ps_stream st)) plains
          \<and> concat plains @ ps_buf st = w)"

text \<open>What a stream never changes of itself and of the other streams of its sink.\<close>

definition stream_frame ::
    "('s \<Rightarrow> stream_id \<Rightarrow> bytes list) \<Rightarrow> 's page_stream \<Rightarrow> 's page_stream \<Rightarrow> bool" where
  "stream_frame pages st st' \<longleftrightarrow>
     ps_stream st' = ps_stream st \<and> ps_kind st' = ps_kind st \<and> ps_meta_key st' = ps_meta_key st
     \<and> ps_page_len st' = ps_page_len st
     \<and> (\<forall>s. s \<noteq> ps_stream st \<longrightarrow> pages (ps_sink st') s = pages (ps_sink st) s)"

lemma stream_frame_trans:
  "stream_frame pages a b \<Longrightarrow> stream_frame pages b c \<Longrightarrow> stream_frame pages a c"
  by (simp add: stream_frame_def)

text \<open>While a stream is being written all its pages are full.\<close>

definition stream_full :: "('s \<Rightarrow> stream_id \<Rightarrow> bytes list) \<Rightarrow> 's page_stream \<Rightarrow> bytes \<Rightarrow> bool" where
  "stream_full pages st w \<longleftrightarrow>
     length (pages (ps_sink st) (ps_stream st)) * ps_page_len st + length (ps_buf st) = length w"

definition sink_limit :: nat where
  "sink_limit = 2 ^ 63"

text \<open>The counter value a page record carries in its nonce field.\<close>

definition page_nonce :: "bytes \<Rightarrow> nat" where
  "page_nonce page = nat_of_le (rev (slice (page_header_len - nonce_len) page_header_len page))"

lemma seal_page_nonce:
  assumes "seal_page P kind key stream no pt ns = Inr (page, ns')"
  shows "page_nonce page = unat ns"
  using assms
proof (rule seal_page_Inr)
  fix nonce buf tag
  assume n: "next_nonce ns = Inr (nonce, ns')"
    and r: "page = u16_to_le_bytes page_magic @ u32_to_le_bytes (word_of_nat (length buf)) @ nonce @ buf @ tag"
  have "slice 6 18 page = nonce" using length_nonce [OF n] by (simp add: r slice_def)
  then show ?thesis using nonce_value [OF n] by (simp add: page_nonce_def page_consts)
qed

text \<open>
  A sink takes the pages of a stream in order, each with a nonce above those
  of all pages it holds, and gives out its nonce counter.
\<close>

locale page_sink =
  fixes ops :: "'s page_sink_ops"
    and pages :: "'s \<Rightarrow> stream_id \<Rightarrow> bytes list"
    and sink_ok :: "'s \<Rightarrow> bool"
    and size_of :: "'s \<Rightarrow> nat"
  assumes sink_write: "sink_ok s \<Longrightarrow> unat no = length (pages s stream) \<Longrightarrow>
      page_overhead \<le> length page \<Longrightarrow> length page \<le> page_overhead + max_page_len \<Longrightarrow>
      size_of s + length page < sink_limit \<Longrightarrow>
      (\<And>t p. p \<in> set (pages s t) \<Longrightarrow> page_nonce p < page_nonce page) \<Longrightarrow>
      page_nonce page < unat (sink_nonces ops s) \<Longrightarrow>
      \<exists>s'. sink_write_page ops stream no page s = Inr s' \<and> sink_ok s'
        \<and> pages s' = (pages s)(stream := pages s stream @ [page])
        \<and> size_of s' = size_of s + length page \<and> sink_nonces ops s' = sink_nonces ops s"
    and sink_set: "sink_ok s \<Longrightarrow> unat (sink_nonces ops s) \<le> unat n \<Longrightarrow>
        sink_ok (sink_set_nonces ops n s)
        \<and> pages (sink_set_nonces ops n s) = pages s
        \<and> size_of (sink_set_nonces ops n s) = size_of s
        \<and> sink_nonces ops (sink_set_nonces ops n s) = n"
    and sink_pages: "sink_ok s \<Longrightarrow> length (pages s stream) < sink_limit"
    and sink_fresh: "sink_ok s \<Longrightarrow> p \<in> set (pages s t) \<Longrightarrow> page_nonce p < unat (sink_nonces ops s)"
begin

lemma flush_ok:
  assumes "aead_ok P" "stream_accepts pages sink_ok P st w" "ps_buf st \<noteq> []"
    and "size_of (ps_sink st) + 35 * length (ps_buf st) < sink_limit"
    and "unat (sink_nonces ops (ps_sink st)) < 2 ^ 96"
  shows "\<exists>st'. flush_page P ops st = Inr st' \<and> stream_accepts pages sink_ok P st' w
    \<and> ps_buf st' = [] \<and> stream_frame pages st st'
    \<and> size_of (ps_sink st') \<le> size_of (ps_sink st) + 35 * length (ps_buf st)
    \<and> unat (sink_nonces ops (ps_sink st')) = unat (sink_nonces ops (ps_sink st)) + 1
    \<and> length (pages (ps_sink st') (ps_stream st)) = length (pages (ps_sink st) (ps_stream st)) + 1"
proof -
  let ?s = "ps_sink st" and ?buf = "ps_buf st" and ?ps = "pages (ps_sink st) (ps_stream st)"
  have ok: "sink_ok ?s" and len: "length ?buf \<le> max_page_len"
    and no: "unat (ps_page_no st) = length ?ps"
    using assms(2) by (auto simp: stream_accepts_def)
  from assms(2) obtain plains where
    pl: "pages_seal P (ps_kind st) (ps_meta_key st) (ps_stream st) ?ps plains" "concat plains @ ?buf = w"
    unfolding stream_accepts_def by blast
  have no': "ps_page_no st = word_of_nat (length ?ps)" using no by (metis word_of_unat)
  obtain nonce ns' where n: "next_nonce (sink_nonces ops ?s) = Inr (nonce, ns')"
    using assms(5) next_nonce_Inr by blast
  have "length ?buf < 2 ^ 32" using len by (simp add: max_page_len_def)
  from seal_in_placeE [OF assms(1) this] obtain c t where
    "seal_in_place P (ps_kind st) (ps_meta_key st) nonce (page_ad (ps_stream st) (ps_page_no st)) ?buf
      = Inr (c, t)" .
  then obtain page where sp: "seal_page P (ps_kind st) (ps_meta_key st) (ps_stream st) (ps_page_no st)
      ?buf (sink_nonces ops ?s) = Inr (page, ns')"
    using n len by (simp add: seal_page_def)
  have lp: "length page = page_overhead + length ?buf" by (rule length_seal_page [OF assms(1) sp])
  have b1: "length ?buf \<ge> 1" using assms(3) by (cases ?buf) simp_all
  have lp35: "length page \<le> 35 * length ?buf" using lp b1 by (simp add: page_consts)
  let ?s1 = "sink_set_nonces ops ns' ?s"
  have nv: "unat ns' = unat (sink_nonces ops ?s) + 1" using nonce_value [OF n] by simp
  then have s1: "sink_ok ?s1" "pages ?s1 = pages ?s" "size_of ?s1 = size_of ?s" "sink_nonces ops ?s1 = ns'"
    using sink_set [OF ok, of ns'] by auto
  have pn: "page_nonce page = unat (sink_nonces ops ?s)" by (rule seal_page_nonce [OF sp])
  obtain s' where s': "sink_write_page ops (ps_stream st) (ps_page_no st) page ?s1 = Inr s'"
    "sink_ok s'" "pages s' = (pages ?s1)(ps_stream st := pages ?s1 (ps_stream st) @ [page])"
    "size_of s' = size_of ?s1 + length page" "sink_nonces ops s' = ns'"
    using sink_write [OF s1(1), of "ps_page_no st" "ps_stream st" page] s1 no lp lp35 len assms(4)
      pn nv sink_fresh [OF ok] by auto
  let ?st' = "st\<lparr> ps_sink := s', ps_page_no := ps_page_no st + 1, ps_pages := ps_pages st + 1, ps_buf := [] \<rparr>"
  have "unat (ps_page_no st + 1) = length ?ps + 1"
    using no sink_pages [OF ok, of "ps_stream st"]
    by (simp add: unat_word_ariths sink_limit_def)
  moreover have "pages_seal P (ps_kind st) (ps_meta_key st) (ps_stream st) (?ps @ [page]) (plains @ [?buf])"
    using pages_seal_snoc [OF pl(1) assms(1) sp [unfolded no'] assms(3)] .
  ultimately have "stream_accepts pages sink_ok P ?st' w"
    using assms(2) s' s1 pl(2) by (auto simp: stream_accepts_def intro!: exI [of _ "plains @ [?buf]"])
  moreover have "flush_page P ops st = Inr ?st'"
    using assms(3) sp s'(1) by (simp add: flush_page_def)
  moreover have "stream_frame pages st ?st'" using s'(3) s1(2) by (simp add: stream_frame_def)
  ultimately show ?thesis
    using s'(3,4,5) s1(2,3) lp35 nv by (intro exI [of _ ?st']) simp
qed

text \<open>One round of the loop of \<open>write\<close> that fills the page, or ends the input.\<close>

lemma write_ok:
  assumes "aead_ok P" "stream_accepts pages sink_ok P st w" "length (ps_buf st) < ps_page_len st"
    and "size_of (ps_sink st) + 35 * (length (ps_buf st) + length bs) < sink_limit"
    and "unat (sink_nonces ops (ps_sink st)) + length (ps_buf st) + length bs < 2 ^ 96"
    and "stream_full pages st w"
  shows "\<exists>st'. page_write P ops st bs = Some (Inr st') \<and> stream_accepts pages sink_ok P st' (w @ bs)
    \<and> stream_full pages st' (w @ bs) \<and> length (ps_buf st') < ps_page_len st' \<and> stream_frame pages st st'
    \<and> size_of (ps_sink st') + 35 * length (ps_buf st')
        \<le> size_of (ps_sink st) + 35 * (length (ps_buf st) + length bs)
    \<and> unat (sink_nonces ops (ps_sink st')) + length (ps_buf st')
        \<le> unat (sink_nonces ops (ps_sink st)) + length (ps_buf st) + length bs"
  using assms(2-)
proof (induction bs arbitrary: st w rule: length_induct)
  case (1 bs)
  show ?case
  proof (cases "bs = []")
    case True
    then show ?thesis using 1 by (simp add: page_write.simps stream_frame_def)
  next
    case False
    define n where "n = min (ps_page_len st - length (ps_buf st)) (length bs)"
    define st1 where "st1 = st\<lparr> ps_buf := ps_buf st @ take n bs \<rparr>"
    have n: "0 < n" "n \<le> length bs" "length (ps_buf st) + n \<le> ps_page_len st"
      using False "1.prems"(2) by (auto simp: n_def)
    have acc1: "stream_accepts pages sink_ok P st1 (w @ take n bs)"
      using "1.prems"(1) n by (auto simp: stream_accepts_def st1_def)
    have fr1: "stream_frame pages st st1" by (simp add: stream_frame_def st1_def)
    have full1: "stream_full pages st1 (w @ take n bs)"
      using "1.prems"(5) n by (simp add: stream_full_def st1_def)
    have b1: "length (ps_buf st1) = length (ps_buf st) + n" using n by (simp add: st1_def)
    have w: "(w @ take n bs) @ drop n bs = w @ bs" by simp
    have sk: "ps_sink st1 = ps_sink st" by (simp add: st1_def)
    have dl: "length (drop n bs) < length bs" using n by simp
    have cap1: "size_of (ps_sink st1) + 35 * (length (ps_buf st1) + length (drop n bs)) < sink_limit"
      and cap2: "unat (sink_nonces ops (ps_sink st1)) + length (ps_buf st1) + length (drop n bs) < 2 ^ 96"
      using "1.prems"(3,4) n b1 sk by simp_all
    show ?thesis
    proof (cases "length (ps_buf st1) = ps_page_len st1")
      case False
      then have wr: "page_write P ops st bs = page_write P ops st1 (drop n bs)"
        using \<open>bs \<noteq> []\<close> by (subst page_write.simps) (simp add: Let_def st1_def n_def)
      have "length (ps_buf st1) < ps_page_len st1" using False b1 n by (simp add: st1_def)
      then obtain st' where st': "page_write P ops st1 (drop n bs) = Some (Inr st')"
        "stream_accepts pages sink_ok P st' ((w @ take n bs) @ drop n bs)"
        "stream_full pages st' ((w @ take n bs) @ drop n bs)"
        "length (ps_buf st') < ps_page_len st'" "stream_frame pages st1 st'"
        "size_of (ps_sink st') + 35 * length (ps_buf st')
          \<le> size_of (ps_sink st1) + 35 * (length (ps_buf st1) + length (drop n bs))"
        "unat (sink_nonces ops (ps_sink st')) + length (ps_buf st')
          \<le> unat (sink_nonces ops (ps_sink st1)) + length (ps_buf st1) + length (drop n bs)"
        using "1.IH" [rule_format, OF dl acc1 _ cap1 cap2 full1] by blast
      show ?thesis
        using sk st' wr w b1 n stream_frame_trans [OF fr1 st'(5)] by auto
    next
      case True
      have ne: "ps_buf st1 \<noteq> []" using b1 n by auto
      obtain st2 where st2: "flush_page P ops st1 = Inr st2"
        "stream_accepts pages sink_ok P st2 (w @ take n bs)" "ps_buf st2 = []"
        "stream_frame pages st1 st2"
        "size_of (ps_sink st2) \<le> size_of (ps_sink st1) + 35 * length (ps_buf st1)"
        "unat (sink_nonces ops (ps_sink st2)) = unat (sink_nonces ops (ps_sink st1)) + 1"
        "length (pages (ps_sink st2) (ps_stream st1)) = length (pages (ps_sink st1) (ps_stream st1)) + 1"
        using flush_ok [OF assms(1) acc1 ne] cap1 cap2 by fastforce
      have wr: "page_write P ops st bs = page_write P ops st2 (drop n bs)"
        using \<open>bs \<noteq> []\<close> True st2(1) by (subst page_write.simps) (simp add: Let_def st1_def n_def)
      have pl: "length (ps_buf st2) < ps_page_len st2"
        using st2(2,3) by (simp add: stream_accepts_def)
      have "1 \<le> length (ps_buf st1)" using b1 n by simp
      then have cap1': "size_of (ps_sink st2) + 35 * (length (ps_buf st2) + length (drop n bs)) < sink_limit"
        and cap2': "unat (sink_nonces ops (ps_sink st2)) + length (ps_buf st2) + length (drop n bs) < 2 ^ 96"
        using cap1 cap2 st2(3,5,6) by simp_all
      have full2: "stream_full pages st2 (w @ take n bs)"
        using full1 True st2(3,4,7) by (simp add: stream_full_def stream_frame_def)
      obtain st' where st': "page_write P ops st2 (drop n bs) = Some (Inr st')"
        "stream_accepts pages sink_ok P st' ((w @ take n bs) @ drop n bs)"
        "stream_full pages st' ((w @ take n bs) @ drop n bs)"
        "length (ps_buf st') < ps_page_len st'" "stream_frame pages st2 st'"
        "size_of (ps_sink st') + 35 * length (ps_buf st')
          \<le> size_of (ps_sink st2) + 35 * (length (ps_buf st2) + length (drop n bs))"
        "unat (sink_nonces ops (ps_sink st')) + length (ps_buf st')
          \<le> unat (sink_nonces ops (ps_sink st2)) + length (ps_buf st2) + length (drop n bs)"
        using "1.IH" [rule_format, OF dl st2(2) pl cap1' cap2' full2] by blast
      show ?thesis
        using st' st2 wr w b1 n sk stream_frame_trans [OF stream_frame_trans [OF fr1 st2(4)] st'(5)]
        by auto
    qed
  qed
qed

text \<open>Writing a whole stream and finishing it leaves exactly its pages in the sink.\<close>

lemma write_finish_ok:
  assumes "aead_ok P" "sink_ok s" "pages s stream = []"
    and "page_stream_with_page_len s stream kind key page_len = Some st"
    and "size_of s + 35 * length bs < sink_limit" "unat (sink_nonces ops s) + length bs < 2 ^ 96"
  shows "\<exists>st1 st2 plains. page_write P ops st bs = Some (Inr st1) \<and> page_finish P ops st1 = Inr st2
    \<and> sink_ok (ps_sink st2) \<and> concat plains = bs
    \<and> pages_seal P kind key stream (pages (ps_sink st2) stream) plains
    \<and> (\<forall>t. t \<noteq> stream \<longrightarrow> pages (ps_sink st2) t = pages s t)
    \<and> size_of (ps_sink st2) \<le> size_of s + 35 * length bs
    \<and> unat (sink_nonces ops (ps_sink st2)) \<le> unat (sink_nonces ops s) + length bs
    \<and> length (pages (ps_sink st2) stream) * page_len < length bs + page_len"
proof -
  have st: "st = \<lparr> ps_sink = s, ps_stream = stream, ps_kind = kind, ps_meta_key = key,
      ps_page_len = page_len, ps_buf = [], ps_page_no = 0, ps_pages = 0 \<rparr>"
    and pl: "0 < page_len" "page_len \<le> max_page_len"
    using assms(4) by (auto simp: page_stream_with_page_len_def split: if_splits)
  have "stream_accepts pages sink_ok P st []"
    using assms(2,3) pl by (simp add: st stream_accepts_def exI [of _ "[]"])
  moreover have "stream_full pages st []" using assms(3) by (simp add: st stream_full_def)
  ultimately obtain st1 where st1:
    "page_write P ops st bs = Some (Inr st1)" "stream_accepts pages sink_ok P st1 bs"
    "stream_frame pages st st1"
    "size_of (ps_sink st1) + 35 * length (ps_buf st1) \<le> size_of s + 35 * length bs"
    "unat (sink_nonces ops (ps_sink st1)) + length (ps_buf st1) \<le> unat (sink_nonces ops s) + length bs"
    "stream_full pages st1 bs" "length (ps_buf st1) < ps_page_len st1"
    using write_ok [OF assms(1), of st "[]" bs] assms(5,6) pl by (auto simp: st)
  have eq1: "ps_stream st1 = stream" "ps_page_len st1 = page_len"
    using st1(3) by (simp_all add: stream_frame_def st)
  have "\<exists>st2. flush_page P ops st1 = Inr st2 \<and> stream_accepts pages sink_ok P st2 bs
    \<and> ps_buf st2 = [] \<and> stream_frame pages st1 st2
    \<and> size_of (ps_sink st2) \<le> size_of (ps_sink st1) + 35 * length (ps_buf st1)
    \<and> unat (sink_nonces ops (ps_sink st2)) \<le> unat (sink_nonces ops (ps_sink st1)) + length (ps_buf st1)
    \<and> length (pages (ps_sink st2) stream) * page_len < length bs + page_len"
  proof (cases "ps_buf st1 = []")
    case True
    then show ?thesis using st1 eq1 pl by (simp add: flush_page_def stream_frame_def stream_full_def)
  next
    case False
    then have "1 \<le> length (ps_buf st1)" by (cases "ps_buf st1") simp_all
    then have "(length (pages (ps_sink st1) stream) + 1) * page_len < length bs + page_len"
      using st1(6) eq1 by (simp add: stream_full_def)
    then show ?thesis
      using flush_ok [OF assms(1) st1(2) False] \<open>1 \<le> length (ps_buf st1)\<close> st1(4,5) assms(5,6) eq1
      by fastforce
  qed
  then obtain st2 where st2: "flush_page P ops st1 = Inr st2" "stream_accepts pages sink_ok P st2 bs"
    "ps_buf st2 = []" "stream_frame pages st1 st2"
    "size_of (ps_sink st2) \<le> size_of (ps_sink st1) + 35 * length (ps_buf st1)"
    "unat (sink_nonces ops (ps_sink st2)) \<le> unat (sink_nonces ops (ps_sink st1)) + length (ps_buf st1)"
    "length (pages (ps_sink st2) stream) * page_len < length bs + page_len"
    by blast
  have fr: "stream_frame pages st st2" by (rule stream_frame_trans [OF st1(3) st2(4)])
  then have eqs: "ps_stream st2 = stream" "ps_kind st2 = kind" "ps_meta_key st2 = key"
    "\<forall>t. t \<noteq> stream \<longrightarrow> pages (ps_sink st2) t = pages s t"
    by (simp_all add: stream_frame_def st)
  from st2(2,3) eqs obtain plains where
    "pages_seal P kind key stream (pages (ps_sink st2) stream) plains" "concat plains = bs"
    "sink_ok (ps_sink st2)"
    by (auto simp: stream_accepts_def)
  then show ?thesis
    using st1 st2 eqs(4) by (intro exI [of _ st1] exI [of _ st2] exI [of _ plains])
      (auto simp: page_finish_def)
qed

end

section \<open>Reading back sealed pages\<close>

definition entry_page :: "bytes \<Rightarrow> page_entry \<Rightarrow> bytes" where
  "entry_page file e = slice (unat (pe_offset e)) (unat (pe_offset e) + unat (pe_len e) + page_overhead) file"

definition entry_inside :: "bytes \<Rightarrow> page_entry \<Rightarrow> bool" where
  "entry_inside file e \<longleftrightarrow> unat (pe_offset e) + unat (pe_len e) + page_overhead \<le> length file"

lemma reader_of_sealed_pages:
  assumes "pages_seal P kind key stream (map (entry_page file) es) plains"
    and "\<forall>e \<in> set es. entry_inside file e"
    and "st = \<lparr> pr_file = file, pr_kind = kind, pr_meta_key = key, pr_stream = stream,
               pr_entries = es, pr_index = 0, pr_buf = [], pr_pos = 0 \<rparr>"
  shows "pages_ok P st" and "page_remaining P st = concat plains"
proof -
  have at: "page_at P st i = Inr (plains ! i)" if "i < length es" for i
    using that assms
    by (simp add: page_at_def pages_seal_def read_exact_at_def entry_inside_def entry_page_def
        Let_def add.assoc)
  then show "pages_ok P st" by (simp add: pages_ok_def assms(3))
  have "length plains = length es" using assms(1) by (simp add: pages_seal_def)
  then have "map (page_plain P st) [0..<length es] = map ((!) plains) [0..<length plains]"
    by (intro map_cong) (simp_all add: page_plain_def at)
  then have "map (page_plain P st) [0..<length es] = plains"
    by (simp only: map_nth)
  then show "page_remaining P st = concat plains" by (simp add: page_remaining_def assms(3))
qed

end
