(* ===== verification/Image_Writer.thy ===== *)
theory Image_Writer
  imports Page_Stream
begin

text \<open>
  \<open>crates/lr-format/src/writer.rs\<close>: the writer of an image file.

  The file is an in-memory \<open>Write + Seek\<close>: its bytes, the cursor, and the
  capacity of the medium beyond which a write fails.  \<open>ImageWriter\<close> puts the
  superblock first, then chunk records, then metadata pages, then the footer.
  The abstract image is the pair of its chunk records and its pages in the
  order they were written; \<open>writer_holds\<close> relates the state of the writer to
  it, every operation refines its effect on the pair, and the writer is an
  interpretation of the contract \<open>page_sink\<close> of the page streams.
\<close>

section \<open>The file\<close>

record disk_file =
  file_data :: bytes
  file_pos :: nat
  file_capacity :: nat

definition file_seek :: "u64 \<Rightarrow> disk_file \<Rightarrow> disk_file" where
  "file_seek off f = f\<lparr> file_pos := unat off \<rparr>"

text \<open>Writing past the end extends the file; a gap left by a seek reads as zeros.\<close>

definition file_put :: "nat \<Rightarrow> bytes \<Rightarrow> bytes \<Rightarrow> bytes" where
  "file_put pos bs data = overwrite pos bs (data @ replicate (pos - length data) 0)"

definition file_write_all :: "bytes \<Rightarrow> disk_file \<Rightarrow> disk_file res" where
  "file_write_all bs f =
     (if file_pos f + length bs > file_capacity f then Inl (Io ''no space left on device'')
      else Inr (f\<lparr> file_data := file_put (file_pos f) bs (file_data f),
                   file_pos := file_pos f + length bs \<rparr>))"

section \<open>The writer\<close>

record writer_keys =
  wk_data_key :: "bytes option"
  wk_meta_key :: bytes
  wk_dedup_key :: bytes

record chunk_ref =
  cref_offset :: u64
  cref_stored_len :: u32
  cref_hash :: bytes

record image_writer =
  iw_file :: disk_file
  iw_position :: u64
  iw_superblock_bytes :: bytes
  iw_page_table :: "page_entry list"
  iw_data_end_offset :: "u64 option"
  iw_total_chunks :: u64
  iw_next_page :: "u64 list"
  iw_meta_nonces :: nonce_seq

definition writer_create :: "prims \<Rightarrow> disk_file \<Rightarrow> superblock \<Rightarrow> bytes option \<Rightarrow> image_writer res" where
  "writer_create P f sb meta_key =
     res_bind (sb_encode P sb meta_key) (\<lambda>superblock_bytes.
     res_bind (file_write_all superblock_bytes (file_seek 0 f)) (\<lambda>f'.
       Inr \<lparr> iw_file = f', iw_position = word_of_nat sb_size,
             iw_superblock_bytes = superblock_bytes, iw_page_table = [],
             iw_data_end_offset = None, iw_total_chunks = 0, iw_next_page = replicate 5 0,
             iw_meta_nonces = nonce_seq_new \<rparr>))"

definition rewrite_superblock ::
    "prims \<Rightarrow> superblock \<Rightarrow> bytes option \<Rightarrow> image_writer \<Rightarrow> image_writer res" where
  "rewrite_superblock P sb meta_key w =
     res_bind (sb_encode P sb meta_key) (\<lambda>b.
       if slice 26 42 b \<noteq> slice 26 42 (iw_superblock_bytes w)
         then Inl (Corrupt ''a rewritten superblock must keep the image identity'')
       else res_bind (file_write_all b (file_seek 0 (iw_file w))) (\<lambda>f'.
         Inr (w\<lparr> iw_file := file_seek (iw_position w) f', iw_superblock_bytes := b \<rparr>)))"

text \<open>The caller's superblock is an in-out argument: the new one is returned with the writer.\<close>

definition update_consistency ::
    "prims \<Rightarrow> superblock \<Rightarrow> consistency \<Rightarrow> bytes option \<Rightarrow> image_writer
     \<Rightarrow> (superblock \<times> image_writer) res" where
  "update_consistency P sb c meta_key w =
     (let candidate = sb_set_consistency sb c in
      res_bind (rewrite_superblock P candidate meta_key w) (\<lambda>w'. Inr (candidate, w')))"

definition append_record :: "bytes \<Rightarrow> image_writer \<Rightarrow> ((u64 \<times> u32) \<times> image_writer) res" where
  "append_record rec w =
     (let offset = iw_position w in
      if length rec \<ge> 2 ^ 32 then Inl (Unsupported ''chunk record larger than 4 GiB'')
      else res_bind (file_write_all rec (iw_file w)) (\<lambda>f'.
        Inr ((offset, word_of_nat (length rec)),
             w\<lparr> iw_file := f', iw_position := iw_position w + word_of_nat (length rec),
                iw_total_chunks := iw_total_chunks w + 1 \<rparr>)))"

definition append_chunk ::
    "prims \<Rightarrow> chunk_options \<Rightarrow> writer_keys \<Rightarrow> image_kind \<Rightarrow> nonce_seq \<Rightarrow> bytes \<Rightarrow> image_writer
     \<Rightarrow> (chunk_ref \<times> nonce_seq \<times> image_writer) res" where
  "append_chunk P opts keys kind nonces plaintext w =
     res_bind (seal_chunk P opts (wk_data_key keys) (wk_dedup_key keys) kind nonces plaintext)
       (\<lambda>((rec, hash), nonces').
     res_bind (chunk_decode_header rec) (\<lambda>header.
     res_bind (append_record rec w) (\<lambda>((offset, _), w').
       Inr (\<lparr> cref_offset = offset, cref_stored_len = ch_stored_len header, cref_hash = hash \<rparr>,
            nonces', w'))))"

definition write_page :: "stream_id \<Rightarrow> u64 \<Rightarrow> bytes \<Rightarrow> image_writer \<Rightarrow> image_writer res" where
  "write_page stream page_no page w =
     (let i = unat (stream_as_u8 stream); expected = iw_next_page w ! i in
      if page_no \<noteq> expected then Inl (Corrupt ''metadata stream '')
      else (let len = length page - page_overhead in
        if len \<ge> 2 ^ 32 then Inl (Unsupported ''page too large'')
        else res_bind (file_write_all page (iw_file w)) (\<lambda>f'.
          Inr (w\<lparr> iw_next_page := (iw_next_page w)[i := expected + 1],
                  iw_data_end_offset := (case iw_data_end_offset w of
                     None \<Rightarrow> Some (iw_position w) | Some d \<Rightarrow> Some d),
                  iw_page_table := iw_page_table w
                    @ [\<lparr> pe_stream = stream, pe_offset = iw_position w, pe_len = word_of_nat len \<rparr>],
                  iw_file := f',
                  iw_position := iw_position w + word_of_nat (length page) \<rparr>))))"

definition writer_sink :: "image_writer page_sink_ops" where
  "writer_sink = \<lparr> sink_write_page = write_page, sink_nonces = iw_meta_nonces,
     sink_set_nonces = (\<lambda>n w. w\<lparr> iw_meta_nonces := n \<rparr>) \<rparr>"

definition page_stream_new ::
    "'s \<Rightarrow> stream_id \<Rightarrow> aead_kind \<Rightarrow> bytes \<Rightarrow> 's page_stream option" where
  "page_stream_new sink stream kind meta_key =
     page_stream_with_page_len sink stream kind meta_key default_page_len"

text \<open>
  \<open>stream.write(bytes)?; stream.finish()?\<close> on a fresh stream of the writer; the
  outer \<open>None\<close> is a panic of the stream's assertion or a loop that does not end.
\<close>

definition write_stream ::
    "prims \<Rightarrow> stream_id \<Rightarrow> aead_kind \<Rightarrow> bytes \<Rightarrow> bytes \<Rightarrow> image_writer \<Rightarrow> image_writer res option" where
  "write_stream P stream kind key bs w =
     (case page_stream_new w stream kind key of
        None \<Rightarrow> None
      | Some st \<Rightarrow>
          (case page_write P writer_sink st bs of
             None \<Rightarrow> None
           | Some r \<Rightarrow> Some (res_bind r (\<lambda>st1.
               res_bind (page_finish P writer_sink st1) (\<lambda>st2. Inr (ps_sink st2))))))"

definition finish_table ::
    "prims \<Rightarrow> bytes \<Rightarrow> aead_kind \<Rightarrow> image_writer \<Rightarrow> (u32 \<times> image_writer) res option" where
  "finish_table P page_key kind w =
     (if length (iw_page_table w) > inline_page_table_slots then
        (let serialized = serialize_table (iw_page_table w); before = length (iw_page_table w) in
         map_option (\<lambda>r. res_bind r (\<lambda>w'.
             Inr (0 OR flag_page_table_in_stream4,
                  w'\<lparr> iw_page_table := drop before (iw_page_table w') \<rparr>)))
           (write_stream P PageTable kind page_key serialized w))
      else Some (Inr (0, w)))"

definition writer_finish ::
    "prims \<Rightarrow> bytes \<Rightarrow> bytes option \<Rightarrow> aead_kind \<Rightarrow> image_writer \<Rightarrow> (disk_file \<times> footer) res option" where
  "writer_finish P page_key mac_key kind w =
     (case iw_data_end_offset w of
        None \<Rightarrow> Some (Inl (Corrupt ''image has no metadata pages''))
      | Some data_end \<Rightarrow>
          map_option (\<lambda>r. res_bind r (\<lambda>(flags, w').
            let footer = \<lparr> total_chunks = iw_total_chunks w', data_end_offset = data_end,
                           page_table = iw_page_table w', footer_flags = flags \<rparr> in
            res_bind (footer_encode P footer (take superblock_copy_len (iw_superblock_bytes w')) mac_key)
              (\<lambda>footer_bytes.
            res_bind (file_write_all footer_bytes (file_seek (iw_position w') (iw_file w'))) (\<lambda>f'.
              Inr (f', footer)))))
            (finish_table P page_key kind w))"

section \<open>The abstract image and its refinement\<close>

text \<open>The page table of pages written one after the other from \<open>off\<close> on.\<close>

fun page_entries_at :: "nat \<Rightarrow> (stream_id \<times> bytes) list \<Rightarrow> page_entry list" where
  "page_entries_at off [] = []"
| "page_entries_at off (p # ps) =
     \<lparr> pe_stream = fst p, pe_offset = word_of_nat off,
       pe_len = word_of_nat (length (snd p) - page_overhead) \<rparr>
     # page_entries_at (off + length (snd p)) ps"

definition pages_of :: "stream_id \<Rightarrow> (stream_id \<times> bytes) list \<Rightarrow> bytes list" where
  "pages_of stream pgs = map snd (filter (\<lambda>p. fst p = stream) pgs)"

definition page_sized :: "bytes \<Rightarrow> bool" where
  "page_sized p \<longleftrightarrow> page_overhead \<le> length p \<and> length p \<le> page_overhead + max_page_len"

definition image_body :: "bytes \<Rightarrow> bytes list \<Rightarrow> (stream_id \<times> bytes) list \<Rightarrow> bytes" where
  "image_body sbb recs pgs = sbb @ concat recs @ concat (map snd pgs)"

text \<open>The nonces of the pages in file order ascend and stay below the counter.\<close>

definition nonces_ascend :: "(stream_id \<times> bytes) list \<Rightarrow> nat \<Rightarrow> bool" where
  "nonces_ascend pgs n \<longleftrightarrow> sorted_wrt (<) (map (\<lambda>p. page_nonce (snd p)) pgs @ [n])"

lemma nonces_ascend_snoc:
  "nonces_ascend (pgs @ [p]) n \<longleftrightarrow>
   (\<forall>q \<in> set pgs. page_nonce (snd q) < page_nonce (snd p)) \<and> nonces_ascend pgs n \<and> page_nonce (snd p) < n"
  by (auto simp: nonces_ascend_def sorted_wrt_append)

text \<open>
  The writer holds the image with superblock bytes \<open>sbb\<close>, chunk records \<open>recs\<close>
  and pages \<open>pgs\<close>, its file has room for a footer, and its bookkeeping agrees.
\<close>

definition writer_holds ::
    "bytes \<Rightarrow> bytes list \<Rightarrow> (stream_id \<times> bytes) list \<Rightarrow> image_writer \<Rightarrow> bool" where
  "writer_holds sbb recs pgs w \<longleftrightarrow>
     length sbb = sb_size \<and> iw_superblock_bytes w = sbb
     \<and> file_data (iw_file w) = image_body sbb recs pgs
     \<and> file_pos (iw_file w) = length (image_body sbb recs pgs)
     \<and> unat (iw_position w) = length (image_body sbb recs pgs)
     \<and> length (image_body sbb recs pgs) < sink_limit
     \<and> sink_limit + footer_size \<le> file_capacity (iw_file w)
     \<and> iw_page_table w = page_entries_at (sb_size + length (concat recs)) pgs
     \<and> iw_data_end_offset w = (if pgs = [] then None
          else Some (word_of_nat (sb_size + length (concat recs))))
     \<and> iw_total_chunks w = word_of_nat (length recs)
     \<and> length (iw_next_page w) = 5
     \<and> (\<forall>s. iw_next_page w ! unat (stream_as_u8 s) = word_of_nat (length (pages_of s pgs)))
     \<and> (\<forall>p \<in> set pgs. page_sized (snd p))
     \<and> nonces_ascend pgs (unat (iw_meta_nonces w))"

definition writer_pages :: "image_writer \<Rightarrow> stream_id \<Rightarrow> bytes list" where
  "writer_pages w stream = map (entry_page (file_data (iw_file w)))
     (filter (\<lambda>e. pe_stream e = stream) (iw_page_table w))"

definition writer_size :: "image_writer \<Rightarrow> nat" where
  "writer_size w = unat (iw_position w)"

lemma page_entries_at_append:
  "page_entries_at off (xs @ ys)
   = page_entries_at off xs @ page_entries_at (off + length (concat (map snd xs))) ys"
  by (induction xs arbitrary: off) (simp_all add: add.assoc)

lemma length_page_entries_at [simp]: "length (page_entries_at off ps) = length ps"
  by (induction ps arbitrary: off) simp_all

lemma page_entries_at_Nil_iff [simp]: "page_entries_at off ps = [] \<longleftrightarrow> ps = []"
  by (cases ps) simp_all

lemma pages_of_append [simp]: "pages_of s (xs @ ys) = pages_of s xs @ pages_of s ys"
  by (simp add: pages_of_def)

lemma pages_of_simps [simp]:
  "pages_of s [] = []"
  "pages_of s (p # ps) = (if fst p = s then snd p # pages_of s ps else pages_of s ps)"
  by (simp_all add: pages_of_def)

text \<open>The entry of a page locates exactly that page.\<close>

lemma entry_page_at:
  assumes "page_sized p" "length pre < 2 ^ 64"
    and e: "e = \<lparr> pe_stream = s, pe_offset = word_of_nat (length pre),
                   pe_len = word_of_nat (length p - page_overhead) \<rparr>"
  shows "entry_page (pre @ p @ post) e = p" and "entry_inside (pre @ p @ post) e"
proof -
  have "unat (word_of_nat (length p - page_overhead) :: u32) = length p - page_overhead"
    using assms(1) by (intro unat_of_nat_u32) (auto simp: page_sized_def max_page_len_def)
  then have l: "unat (pe_len e) = length p - page_overhead" by (simp only: e page_entry.select_convs)
  have "unat (word_of_nat (length pre) :: u64) = length pre" using assms(2) by (rule unat_of_nat_u64)
  then have o: "unat (pe_offset e) = length pre" by (simp only: e page_entry.select_convs)
  have p: "page_overhead \<le> length p" using assms(1) by (simp add: page_sized_def)
  show "entry_page (pre @ p @ post) e = p" using p by (simp add: entry_page_def l o slice_def)
  show "entry_inside (pre @ p @ post) e" using p by (simp add: entry_inside_def l o)
qed

lemma map_entry_page:
  assumes "\<forall>p \<in> set pgs. page_sized (snd p)"
    and "length pre + length (concat (map snd pgs)) < 2 ^ 64"
  shows "map (entry_page (pre @ concat (map snd pgs) @ post)) (page_entries_at (length pre) pgs) = map snd pgs"
  using assms
proof (induction pgs arbitrary: pre)
  case (Cons p ps)
  have "map (entry_page ((pre @ snd p) @ concat (map snd ps) @ post))
      (page_entries_at (length (pre @ snd p)) ps) = map snd ps"
    using Cons.prems by (intro Cons.IH) simp_all
  moreover have "page_sized (snd p)" "length pre < 2 ^ 64" using Cons.prems by simp_all
  ultimately show ?case
    using entry_page_at(1) [OF _ _ refl, of "snd p" pre "concat (map snd ps) @ post" "fst p"] by simp
qed simp

lemma page_entries_at_pages:
  assumes "\<forall>p \<in> set pgs. page_sized (snd p)"
    and "length pre + length (concat (map snd pgs)) < 2 ^ 64"
  shows "map (entry_page (pre @ concat (map snd pgs) @ post))
      (filter (\<lambda>e. pe_stream e = s) (page_entries_at (length pre) pgs)) = pages_of s pgs
    \<and> (\<forall>e \<in> set (page_entries_at (length pre) pgs). entry_inside (pre @ concat (map snd pgs) @ post) e)"
  using assms
proof (induction pgs arbitrary: pre)
  case Nil
  then show ?case by simp
next
  case (Cons p ps)
  have IH: "map (entry_page ((pre @ snd p) @ concat (map snd ps) @ post))
      (filter (\<lambda>e. pe_stream e = s) (page_entries_at (length (pre @ snd p)) ps)) = pages_of s ps
    \<and> (\<forall>e \<in> set (page_entries_at (length (pre @ snd p)) ps).
         entry_inside ((pre @ snd p) @ concat (map snd ps) @ post) e)"
    using Cons.prems by (intro Cons.IH) simp_all
  have p: "page_sized (snd p)" and n: "length pre < 2 ^ 64" using Cons.prems by simp_all
  show ?case
    using IH entry_page_at [OF p n refl, of "concat (map snd ps) @ post" "fst p"] by auto
qed

lemma page_entries_at_offsets:
  assumes "e \<in> set (page_entries_at off pgs)" "off + length (concat (map snd pgs)) < 2 ^ 64"
    and "\<forall>p \<in> set pgs. page_sized (snd p)"
  shows "off \<le> unat (pe_offset e)
    \<and> unat (pe_offset e) + unat (pe_len e) + page_overhead \<le> off + length (concat (map snd pgs))
    \<and> unat (pe_len e) \<le> max_page_len"
  using assms
proof (induction pgs arbitrary: off)
  case Nil
  then show ?case by simp
next
  case (Cons p ps)
  have o: "unat (word_of_nat off :: u64) = off" using Cons.prems(2) by (intro unat_of_nat_u64) simp
  have p: "page_overhead \<le> length (snd p)" "length (snd p) \<le> page_overhead + max_page_len"
    using Cons.prems(3) by (simp_all add: page_sized_def)
  define n where "n = length (snd p) - page_overhead"
  have l: "unat (word_of_nat n :: u32) = n"
    using p by (intro unat_of_nat_u32) (auto simp: max_page_len_def n_def)
  show ?case
  proof (cases "e \<in> set (page_entries_at (off + length (snd p)) ps)")
    case True
    then show ?thesis using Cons.IH [OF True] Cons.prems(2,3) by simp
  next
    case False
    then have "e = \<lparr> pe_stream = fst p, pe_offset = word_of_nat off, pe_len = word_of_nat n \<rparr>"
      using Cons.prems(1) by (simp add: n_def)
    then show ?thesis using o l p by (simp add: n_def)
  qed
qed

lemma sorted_page_entries_at:
  assumes "off + length (concat (map snd pgs)) < 2 ^ 64" "\<forall>p \<in> set pgs. page_sized (snd p)"
  shows "sorted (map pe_offset (page_entries_at off pgs))"
  using assms
proof (induction pgs arbitrary: off)
  case Nil
  then show ?case by simp
next
  case (Cons p ps)
  have o: "unat (word_of_nat off :: u64) = off" using Cons.prems(1) by (intro unat_of_nat_u64) simp
  have "word_of_nat off \<le> pe_offset e" if "e \<in> set (page_entries_at (off + length (snd p)) ps)" for e
    using page_entries_at_offsets [OF that] Cons.prems o by (simp add: word_le_nat_alt)
  then show ?case using Cons.IH [of "off + length (snd p)"] Cons.prems by (simp add: add.assoc)
qed

lemma writer_pages_of:
  assumes "writer_holds sbb recs pgs w"
  shows "writer_pages w s = pages_of s pgs"
proof -
  have "length (sbb @ concat recs) = sb_size + length (concat recs)"
    using assms by (simp add: writer_holds_def)
  then show ?thesis
    using assms page_entries_at_pages [of pgs "sbb @ concat recs" "[]" s]
    by (simp add: writer_pages_def writer_holds_def image_body_def sink_limit_def)
qed

lemma length_pages_of:
  assumes "\<forall>p \<in> set pgs. page_sized (snd p)"
  shows "length (pages_of s pgs) \<le> length (concat (map snd pgs))"
  using assms by (induction pgs) (auto simp: page_sized_def page_consts)

lemma file_write_all_append:
  assumes "file_pos f = length (file_data f)" "length (file_data f) + length bs \<le> file_capacity f"
  shows "file_write_all bs f = Inr (f\<lparr> file_data := file_data f @ bs,
    file_pos := length (file_data f) + length bs \<rparr>)"
  using assms by (simp add: file_write_all_def file_put_def overwrite_def)

lemma stream_index: "unat (stream_as_u8 s) < 5" "unat (stream_as_u8 s) = unat (stream_as_u8 t) \<longleftrightarrow> s = t"
  by (cases s; simp) (cases s; cases t; simp)

text \<open>Appending a page to the image.\<close>

lemma write_page_holds:
  assumes h: "writer_holds sbb recs pgs w" and no: "unat no = length (pages_of stream pgs)"
    and sized: "page_sized page" and room: "writer_size w + length page < sink_limit"
    and fresh: "\<forall>q \<in> set pgs. page_nonce (snd q) < page_nonce page" "page_nonce page < unat (iw_meta_nonces w)"
  shows "\<exists>w'. write_page stream no page w = Inr w'
    \<and> writer_holds sbb recs (pgs @ [(stream, page)]) w' \<and> iw_meta_nonces w' = iw_meta_nonces w"
proof -
  let ?i = "unat (stream_as_u8 stream)" and ?len = "length page - page_overhead"
  define f where "f = iw_file w"
  define b where "b = image_body sbb recs pgs"
  have f: "file_data f = b" "file_pos f = length b" "sink_limit + footer_size \<le> file_capacity f"
    and pos: "unat (iw_position w) = length b" and np: "length (iw_next_page w) = 5"
      "\<forall>s. iw_next_page w ! unat (stream_as_u8 s) = word_of_nat (length (pages_of s pgs))"
    using h by (simp_all add: writer_holds_def f_def b_def)
  have b': "image_body sbb recs (pgs @ [(stream, page)]) = b @ page"
    by (simp add: b_def image_body_def)
  have lb: "length b + length page < sink_limit" using room pos by (simp add: writer_size_def)
  have wr: "file_write_all page f = Inr (f\<lparr> file_data := b @ page, file_pos := length b + length page \<rparr>)"
    using file_write_all_append [of f page] f lb by simp
  have len: "?len < 2 ^ 32" using sized by (auto simp: page_sized_def max_page_len_def)
  have ex: "no = iw_next_page w ! ?i" using np(2) no by (metis word_of_unat)
  have pos': "unat (iw_position w + word_of_nat (length page)) = length b + length page"
    using lb pos by (simp add: unat_word_ariths unat_of_nat_u64 sink_limit_def)
  have lbb: "length b = sb_size + length (concat recs) + length (concat (map snd pgs))"
    using h by (simp add: writer_holds_def b_def image_body_def)
  have off: "iw_position w = word_of_nat (length b)" using pos by (metis word_of_unat)
  let ?w' = "w\<lparr> iw_next_page := (iw_next_page w)[?i := no + 1],
      iw_data_end_offset := (case iw_data_end_offset w of None \<Rightarrow> Some (iw_position w) | Some d \<Rightarrow> Some d),
      iw_page_table := iw_page_table w
        @ [\<lparr> pe_stream = stream, pe_offset = iw_position w, pe_len = word_of_nat ?len \<rparr>],
      iw_file := f\<lparr> file_data := b @ page, file_pos := length b + length page \<rparr>,
      iw_position := iw_position w + word_of_nat (length page) \<rparr>"
  have "write_page stream no page w = Inr ?w'"
    using ex len wr by (simp add: write_page_def f_def Let_def)
  moreover have "writer_holds sbb recs (pgs @ [(stream, page)]) ?w'"
  proof -
    have "(iw_next_page w)[?i := no + 1] ! unat (stream_as_u8 s)
        = word_of_nat (length (pages_of s (pgs @ [(stream, page)])))" for s
      using np stream_index(1) [of stream] stream_index(2) [of s stream] ex
      by (cases "s = stream") (simp_all add: nth_list_update)
    moreover have "iw_page_table w @ [\<lparr> pe_stream = stream, pe_offset = iw_position w, pe_len = word_of_nat ?len \<rparr>]
        = page_entries_at (sb_size + length (concat recs)) (pgs @ [(stream, page)])"
      using h off by (simp add: page_entries_at_append writer_holds_def lbb)
    moreover have "(case iw_data_end_offset w of None \<Rightarrow> Some (iw_position w) | Some d \<Rightarrow> Some d)
        = Some (word_of_nat (sb_size + length (concat recs)))"
      using h off lbb by (simp add: writer_holds_def)
    ultimately show ?thesis
      using h f lb pos' sized np(1) fresh
      by (simp add: writer_holds_def b' b_def [symmetric] nonces_ascend_snoc)
  qed
  ultimately show ?thesis by (intro exI [of _ ?w']) simp
qed

text \<open>The writer is a page sink, whatever it already holds.\<close>

interpretation image_sink: page_sink writer_sink writer_pages
  "\<lambda>w. \<exists>more. writer_holds sbb recs (pgs0 @ more) w" writer_size for sbb recs pgs0
proof unfold_locales
  fix w :: image_writer and no :: u64 and stream :: stream_id and page :: bytes
  assume "\<exists>more. writer_holds sbb recs (pgs0 @ more) w"
  then obtain more where h: "writer_holds sbb recs (pgs0 @ more) w" by blast
  assume no: "unat no = length (writer_pages w stream)"
    and sz: "page_overhead \<le> length page" "length page \<le> page_overhead + max_page_len"
    and room: "writer_size w + length page < sink_limit"
    and below: "\<And>t p. p \<in> set (writer_pages w t) \<Longrightarrow> page_nonce p < page_nonce page"
    and nn: "page_nonce page < unat (sink_nonces writer_sink w)"
  have "\<forall>q \<in> set (pgs0 @ more). page_nonce (snd q) < page_nonce page"
  proof
    fix q
    assume "q \<in> set (pgs0 @ more)"
    then have "snd q \<in> set (writer_pages w (fst q))" by (auto simp: writer_pages_of [OF h] pages_of_def)
    then show "page_nonce (snd q) < page_nonce page" by (rule below)
  qed
  moreover have "page_nonce page < unat (iw_meta_nonces w)" using nn by (simp add: writer_sink_def)
  moreover have no': "unat no = length (pages_of stream (pgs0 @ more))"
    using no by (simp only: writer_pages_of [OF h])
  ultimately obtain w' where
    w': "write_page stream no page w = Inr w'"
      "writer_holds sbb recs ((pgs0 @ more) @ [(stream, page)]) w'" "iw_meta_nonces w' = iw_meta_nonces w"
    using write_page_holds [OF h no' _ room] sz by (auto simp: page_sized_def)
  have "writer_pages w' = (writer_pages w)(stream := writer_pages w stream @ [page])"
    by (rule ext) (simp add: writer_pages_of [OF h] writer_pages_of [OF w'(2)])
  moreover have "writer_size w' = writer_size w + length page"
    using h w'(2) by (simp add: writer_holds_def writer_size_def image_body_def)
  ultimately show "\<exists>w'. sink_write_page writer_sink stream no page w = Inr w'
      \<and> (\<exists>more. writer_holds sbb recs (pgs0 @ more) w')
      \<and> writer_pages w' = (writer_pages w)(stream := writer_pages w stream @ [page])
      \<and> writer_size w' = writer_size w + length page
      \<and> sink_nonces writer_sink w' = sink_nonces writer_sink w"
    using w' by (intro exI [of _ w']) (auto simp: writer_sink_def)
next
  fix w :: image_writer and n :: nonce_seq
  assume le: "unat (sink_nonces writer_sink w) \<le> unat n"
  assume "\<exists>more. writer_holds sbb recs (pgs0 @ more) w"
  then obtain more where h: "writer_holds sbb recs (pgs0 @ more) w" by blast
  have "nonces_ascend (pgs0 @ more) (unat (iw_meta_nonces w))" using h by (simp add: writer_holds_def)
  with le have "nonces_ascend (pgs0 @ more) (unat n)"
    by (fastforce simp: writer_sink_def nonces_ascend_def sorted_wrt_append)
  with h have "writer_holds sbb recs (pgs0 @ more) (w\<lparr> iw_meta_nonces := n \<rparr>)"
    by (simp add: writer_holds_def)
  then show "(\<exists>more. writer_holds sbb recs (pgs0 @ more) (sink_set_nonces writer_sink n w))
      \<and> writer_pages (sink_set_nonces writer_sink n w) = writer_pages w
      \<and> writer_size (sink_set_nonces writer_sink n w) = writer_size w
      \<and> sink_nonces writer_sink (sink_set_nonces writer_sink n w) = n"
    by (auto simp: writer_sink_def writer_size_def writer_pages_def fun_eq_iff)
next
  fix w :: image_writer and stream :: stream_id
  assume "\<exists>more. writer_holds sbb recs (pgs0 @ more) w"
  then obtain more where h: "writer_holds sbb recs (pgs0 @ more) w" by blast
  then have "length (concat (map snd (pgs0 @ more))) < sink_limit"
    by (simp add: writer_holds_def image_body_def)
  moreover have "length (pages_of stream (pgs0 @ more)) \<le> length (concat (map snd (pgs0 @ more)))"
    using h by (intro length_pages_of) (simp add: writer_holds_def)
  ultimately show "length (writer_pages w stream) < sink_limit"
    by (simp only: writer_pages_of [OF h])
next
  fix w :: image_writer and p :: bytes and t :: stream_id
  assume "\<exists>more. writer_holds sbb recs (pgs0 @ more) w"
  then obtain more where h: "writer_holds sbb recs (pgs0 @ more) w" by blast
  assume "p \<in> set (writer_pages w t)"
  then obtain q where "q \<in> set (pgs0 @ more)" "p = snd q"
    by (auto simp: writer_pages_of [OF h] pages_of_def)
  moreover have "nonces_ascend (pgs0 @ more) (unat (iw_meta_nonces w))"
    using h by (simp add: writer_holds_def)
  ultimately show "page_nonce p < unat (sink_nonces writer_sink w)"
    by (auto simp: nonces_ascend_def writer_sink_def sorted_wrt_append)
qed

lemma pages_of_other:
  "\<forall>t. t \<noteq> s \<longrightarrow> pages_of t ps = [] \<Longrightarrow> \<forall>p \<in> set ps. fst p = s"
  by (fastforce simp: pages_of_def filter_empty_conv)

lemma pages_of_same: "\<forall>p \<in> set ps. fst p = s \<Longrightarrow> pages_of s ps = map snd ps"
  by (simp add: pages_of_def)

text \<open>
  Writing a metadata stream returns, and adds to the image exactly the pages
  of that stream, which seal what was written.
\<close>

lemma write_stream_holds:
  assumes "aead_ok P" "writer_holds sbb recs pgs w" "pages_of stream pgs = []"
    and "writer_size w + 35 * length bs < sink_limit" "unat (iw_meta_nonces w) + length bs < 2 ^ 96"
  shows "\<exists>w' more plains. write_stream P stream kind key bs w = Some (Inr w')
    \<and> writer_holds sbb recs (pgs @ more) w' \<and> (\<forall>p \<in> set more. fst p = stream)
    \<and> pages_seal P kind key stream (map snd more) plains \<and> concat plains = bs
    \<and> writer_size w' \<le> writer_size w + 35 * length bs
    \<and> unat (iw_meta_nonces w') \<le> unat (iw_meta_nonces w) + length bs
    \<and> length more * default_page_len < length bs + default_page_len"
proof -
  obtain st where st: "page_stream_new w stream kind key = Some st"
    by (simp add: page_stream_new_def page_stream_with_page_len_def default_page_len_def max_page_len_def)
  note pw = writer_pages_of [OF assms(2)]
  have nn: "sink_nonces writer_sink = iw_meta_nonces" by (simp add: writer_sink_def)
  have ok: "\<exists>more. writer_holds sbb recs (pgs @ more) w" by (rule exI [of _ "[]"]) (simp add: assms(2))
  from image_sink.write_finish_ok [of P sbb recs pgs w stream kind key default_page_len st bs,
      OF assms(1) ok _ st [unfolded page_stream_new_def] assms(4)] assms(3,5)
  obtain st1 st2 plains more where
    r: "page_write P writer_sink st bs = Some (Inr st1)" "page_finish P writer_sink st1 = Inr st2"
    and h: "writer_holds sbb recs (pgs @ more) (ps_sink st2)"
    and pl: "concat plains = bs"
      "pages_seal P kind key stream (writer_pages (ps_sink st2) stream) plains"
    and fr: "\<forall>t. t \<noteq> stream \<longrightarrow> writer_pages (ps_sink st2) t = writer_pages w t"
    and sz: "writer_size (ps_sink st2) \<le> writer_size w + 35 * length bs"
      "unat (iw_meta_nonces (ps_sink st2)) \<le> unat (iw_meta_nonces w) + length bs"
      "length (writer_pages (ps_sink st2) stream) * default_page_len < length bs + default_page_len"
    by (auto simp: nn pw)
  have "\<forall>t. t \<noteq> stream \<longrightarrow> pages_of t more = []"
    using fr by (simp add: pw writer_pages_of [OF h])
  then have more: "\<forall>p \<in> set more. fst p = stream" by (rule pages_of_other)
  then have "writer_pages (ps_sink st2) stream = map snd more"
    by (simp add: writer_pages_of [OF h] assms(3) pages_of_same)
  moreover have "write_stream P stream kind key bs w = Some (Inr (ps_sink st2))"
    using st r by (simp add: write_stream_def)
  ultimately show ?thesis
    using h pl sz more by (intro exI [of _ "ps_sink st2"] exI [of _ more] exI [of _ plains]) simp
qed

text \<open>The other operations.\<close>

lemma writer_create_holds:
  assumes "hash_ok P" "sb_wf sb" "validate_header sb = Inr ()" "file_data f = []"
    and "sink_limit + footer_size \<le> file_capacity f"
  shows "\<exists>w. writer_create P f sb k = Inr w \<and> writer_holds (sb_image P sb k) [] [] w
    \<and> iw_meta_nonces w = 0"
proof -
  have l: "length (sb_image P sb k) = 4096" by (rule length_sb_image [OF assms(1,2)])
  then have "file_write_all (sb_image P sb k) (file_seek 0 f)
      = Inr (f\<lparr> file_data := sb_image P sb k, file_pos := 4096 \<rparr>)"
    using assms(4,5)
    by (simp add: file_write_all_def file_seek_def file_put_def overwrite_def sink_limit_def)
  then show ?thesis
    using l assms stream_index(1)
    by (simp add: writer_create_def sb_encode_eq writer_holds_def image_body_def sb_size_def
        sink_limit_def nonce_seq_new_def nonces_ascend_def)
qed

lemma append_record_holds:
  assumes "writer_holds sbb recs [] w" "length rec < 2 ^ 32" "writer_size w + length rec < sink_limit"
  shows "\<exists>w'. append_record rec w = Inr ((word_of_nat (sb_size + length (concat recs)),
        word_of_nat (length rec)), w')
    \<and> writer_holds sbb (recs @ [rec]) [] w' \<and> iw_meta_nonces w' = iw_meta_nonces w"
proof -
  define f where "f = iw_file w"
  define b where "b = image_body sbb recs []"
  have f: "file_data f = b" "file_pos f = length b" "sink_limit + footer_size \<le> file_capacity f"
    and pos: "unat (iw_position w) = length b"
    using assms(1) by (simp_all add: writer_holds_def f_def b_def)
  have lb: "length b + length rec < sink_limit" using assms(3) pos by (simp add: writer_size_def)
  have lbb: "length b = sb_size + length (concat recs)"
    using assms(1) by (simp add: b_def image_body_def writer_holds_def)
  have off: "iw_position w = word_of_nat (length b)" using pos by (metis word_of_unat)
  have wr: "file_write_all rec f = Inr (f\<lparr> file_data := b @ rec, file_pos := length b + length rec \<rparr>)"
    using file_write_all_append [of f rec] f lb by simp
  have pos': "unat (iw_position w + word_of_nat (length rec)) = length b + length rec"
    using lb pos by (simp add: unat_word_ariths unat_of_nat_u64 sink_limit_def)
  have b': "image_body sbb (recs @ [rec]) [] = b @ rec" by (simp add: b_def image_body_def)
  let ?w' = "w\<lparr> iw_file := f\<lparr> file_data := b @ rec, file_pos := length b + length rec \<rparr>,
      iw_position := iw_position w + word_of_nat (length rec),
      iw_total_chunks := iw_total_chunks w + 1 \<rparr>"
  have "append_record rec w = Inr ((word_of_nat (length b), word_of_nat (length rec)), ?w')"
    using wr assms(2) off by (simp add: append_record_def f_def [symmetric])
  moreover have "writer_holds sbb (recs @ [rec]) [] ?w'"
    using assms(1) f lb pos' by (simp add: writer_holds_def b' b_def [symmetric])
  ultimately show ?thesis by (simp add: lbb)
qed

lemma rewrite_superblock_holds:
  assumes "hash_ok P" "sb_wf sb" "validate_header sb = Inr ()" "writer_holds sbb recs pgs w"
    and "slice 26 42 sbb = image_uuid sb"
  shows "\<exists>w'. rewrite_superblock P sb k w = Inr w' \<and> writer_holds (sb_image P sb k) recs pgs w'
    \<and> iw_meta_nonces w' = iw_meta_nonces w"
proof -
  define f where "f = iw_file w"
  define b where "b = sb_image P sb k"
  define tl where "tl = concat recs @ concat (map snd pgs)"
  have l: "length b = 4096" unfolding b_def by (rule length_sb_image [OF assms(1,2)])
  have f: "file_data f = sbb @ tl" "sink_limit + footer_size \<le> file_capacity f"
    and ls: "length sbb = 4096" "iw_superblock_bytes w = sbb"
    and pos: "unat (iw_position w) = 4096 + length tl"
    using assms(4) by (simp_all add: writer_holds_def f_def tl_def image_body_def sb_size_def)
  have wr: "file_write_all b (file_seek 0 f) = Inr (f\<lparr> file_data := b @ tl, file_pos := 4096 \<rparr>)"
    using f l ls by (simp add: file_write_all_def file_seek_def file_put_def overwrite_def sink_limit_def)
  have id: "slice 26 42 b = slice 26 42 sbb"
    using assms(2,5) length_sb_fields [OF assms(2)]
    by (simp add: b_def sb_image_def Let_def sb_fields_def sb_wf_def slice_def)
  have bd: "image_body b recs pgs = b @ tl" "image_body sbb recs pgs = sbb @ tl"
    by (simp_all add: image_body_def tl_def)
  let ?w' = "w\<lparr> iw_file := file_seek (iw_position w) (f\<lparr> file_data := b @ tl, file_pos := 4096 \<rparr>),
    iw_superblock_bytes := b \<rparr>"
  have "rewrite_superblock P sb k w = Inr ?w'"
    using wr assms(1-3) id ls(2)
    by (simp add: rewrite_superblock_def sb_encode_eq f_def [symmetric] b_def [symmetric])
  moreover have "writer_holds b recs pgs ?w'"
    using assms(4) f pos l ls by (simp add: writer_holds_def bd file_seek_def sb_size_def)
  ultimately show ?thesis by (simp add: b_def)
qed

text \<open>
  A finished image: the body, the pages of the serialised table when it does
  not fit the footer, and the footer.
\<close>

definition table_of :: "bytes list \<Rightarrow> (stream_id \<times> bytes) list \<Rightarrow> page_entry list" where
  "table_of recs pgs = page_entries_at (sb_size + length (concat recs)) pgs"

definition spilled_table ::
    "prims \<Rightarrow> bytes \<Rightarrow> aead_kind \<Rightarrow> bytes list \<Rightarrow> (stream_id \<times> bytes) list
     \<Rightarrow> (stream_id \<times> bytes) list \<Rightarrow> bool" where
  "spilled_table P key kind recs pgs tpgs \<longleftrightarrow>
     tpgs \<noteq> [] \<and> length tpgs \<le> 120 \<and> (\<forall>p \<in> set tpgs. fst p = PageTable)
     \<and> (\<exists>plains. pages_seal P kind key PageTable (map snd tpgs) plains
          \<and> concat plains = serialize_table (table_of recs pgs))"

definition finished_image ::
    "prims \<Rightarrow> bytes \<Rightarrow> bytes option \<Rightarrow> aead_kind \<Rightarrow> bytes \<Rightarrow> bytes list \<Rightarrow> (stream_id \<times> bytes) list
     \<Rightarrow> (stream_id \<times> bytes) list \<Rightarrow> footer \<Rightarrow> bytes \<Rightarrow> bool" where
  "finished_image P key mac_key kind sbb recs pgs tpgs ft data \<longleftrightarrow>
     data = image_body sbb recs (pgs @ tpgs) @ footer_image P ft (take superblock_copy_len sbb) mac_key
     \<and> length (image_body sbb recs (pgs @ tpgs)) < sink_limit \<and> length sbb = sb_size
     \<and> (\<forall>p \<in> set (pgs @ tpgs). page_sized (snd p))
     \<and> sorted_wrt (<) (map (\<lambda>p. page_nonce (snd p)) (pgs @ tpgs))
     \<and> total_chunks ft = word_of_nat (length recs)
     \<and> data_end_offset ft = word_of_nat (sb_size + length (concat recs))
     \<and> (if length pgs \<le> 120 then tpgs = [] \<and> footer_flags ft = 0 \<and> page_table ft = table_of recs pgs
        else footer_flags ft = flag_page_table_in_stream4 \<and> spilled_table P key kind recs pgs tpgs
          \<and> page_table ft = page_entries_at (sb_size + length (concat recs @ concat (map snd pgs))) tpgs)"

lemma finished_footer_fits:
  assumes "finished_image P key mac_key kind sbb recs pgs tpgs ft data"
  shows "footer_fits ft" "footer_flags_known ft"
  using assms
  by (auto simp: finished_image_def footer_fits_def footer_flags_known_def table_of_def
      spilled_table_def split: if_splits)

lemma finish_table_holds:
  assumes "aead_ok P" "writer_holds sbb recs pgs w" "pages_of PageTable pgs = []"
    and "13 * length pgs \<le> 8388608" "writer_size w + 455 * length pgs < sink_limit"
    and "unat (iw_meta_nonces w) + 13 * length pgs < 2 ^ 96" "120 < length pgs"
  shows "\<exists>w' w1 tpgs. finish_table P key kind w = Some (Inr (flag_page_table_in_stream4, w'))
    \<and> writer_holds sbb recs (pgs @ tpgs) w1 \<and> spilled_table P key kind recs pgs tpgs
    \<and> w' = w1\<lparr> iw_page_table := page_entries_at (sb_size + length (concat recs @ concat (map snd pgs))) tpgs \<rparr>"
proof -
  have tb: "iw_page_table w = table_of recs pgs"
    using assms(2) by (simp add: writer_holds_def table_of_def)
  define ser where "ser = serialize_table (table_of recs pgs)"
  have ls: "length ser = 13 * length pgs"
    by (simp add: ser_def length_serialize_table table_of_def)
  obtain w1 tpgs plains where ws: "write_stream P PageTable kind key ser w = Some (Inr w1)"
    "writer_holds sbb recs (pgs @ tpgs) w1" "\<forall>p \<in> set tpgs. fst p = PageTable"
    "pages_seal P kind key PageTable (map snd tpgs) plains" "concat plains = ser"
    "length tpgs * default_page_len < length ser + default_page_len"
    using write_stream_holds [OF assms(1-3), of ser kind key] assms(5,6) ls by auto
  have "length tpgs \<le> 120" using ws(6) ls assms(4) by (simp add: default_page_len_def)
  moreover have "tpgs \<noteq> []"
    using ws(4,5) ls assms(7) by (auto simp: pages_seal_def)
  moreover have "drop (length pgs) (iw_page_table w1)
      = page_entries_at (sb_size + length (concat recs @ concat (map snd pgs))) tpgs"
    using ws(2) by (simp add: writer_holds_def page_entries_at_append add.assoc)
  moreover have "length (iw_page_table w) = length pgs" by (simp add: tb table_of_def)
  ultimately show ?thesis
    using ws assms(7) tb
    by (intro exI [of _ "w1\<lparr> iw_page_table := drop (length pgs) (iw_page_table w1) \<rparr>"]
        exI [of _ w1] exI [of _ tpgs])
      (auto simp: finish_table_def inline_page_table_slots_def Let_def spilled_table_def
        ser_def [symmetric])
qed

lemma finish_footer:
  assumes "hash_ok P" "writer_holds sbb recs pgs' w1" "w' = w1\<lparr> iw_page_table := tbl \<rparr>"
    and "ft = \<lparr> total_chunks = iw_total_chunks w', data_end_offset = d, page_table = tbl, footer_flags = fl \<rparr>"
    and "footer_fits ft"
  shows "\<exists>f'. footer_encode P ft (take superblock_copy_len (iw_superblock_bytes w')) mk
        = Inr (footer_image P ft (take superblock_copy_len sbb) mk)
    \<and> file_write_all (footer_image P ft (take superblock_copy_len sbb) mk)
        (file_seek (iw_position w') (iw_file w')) = Inr f'
    \<and> file_data f' = image_body sbb recs pgs' @ footer_image P ft (take superblock_copy_len sbb) mk"
proof -
  have l: "length (take superblock_copy_len sbb) = 1024" and sb: "iw_superblock_bytes w' = sbb"
    using assms(2,3) by (simp_all add: writer_holds_def sb_consts)
  define fb where "fb = footer_image P ft (take superblock_copy_len sbb) mk"
  have lf: "length fb = 4096" unfolding fb_def by (rule length_footer_image [OF assms(1) l assms(5)])
  define f where "f = file_seek (iw_position w') (iw_file w')"
  have f: "file_data f = image_body sbb recs pgs'" "file_pos f = length (file_data f)"
    "length (file_data f) + length fb \<le> file_capacity f"
    using assms(2,3) lf by (simp_all add: f_def file_seek_def writer_holds_def footer_size_def)
  show ?thesis
    using footer_encode_eq [OF assms(1) l assms(5)] file_write_all_append [OF f(2,3)] f(1)
    by (simp add: sb fb_def [symmetric] f_def [symmetric])
qed

lemma writer_finish_holds:
  assumes "hash_ok P" "aead_ok P" "writer_holds sbb recs pgs w" "pgs \<noteq> []" "pages_of PageTable pgs = []"
    and "13 * length pgs \<le> 8388608" "writer_size w + 455 * length pgs < sink_limit"
    and "unat (iw_meta_nonces w) + 13 * length pgs < 2 ^ 96"
  shows "\<exists>f ft tpgs. writer_finish P key mac_key kind w = Some (Inr (f, ft))
    \<and> finished_image P key mac_key kind sbb recs pgs tpgs ft (file_data f)"
proof -
  define d :: u64 where "d = word_of_nat (sb_size + length (concat recs))"
  have de: "iw_data_end_offset w = Some d" using assms(3,4) by (simp add: writer_holds_def d_def)
  have "\<exists>fl w1 tpgs tbl. finish_table P key kind w = Some (Inr (fl, w1\<lparr> iw_page_table := tbl \<rparr>))
    \<and> writer_holds sbb recs (pgs @ tpgs) w1
    \<and> (if length pgs \<le> 120 then tpgs = [] \<and> fl = 0 \<and> tbl = table_of recs pgs
        else fl = flag_page_table_in_stream4 \<and> spilled_table P key kind recs pgs tpgs
          \<and> tbl = page_entries_at (sb_size + length (concat recs @ concat (map snd pgs))) tpgs)"
  proof (cases "length pgs \<le> 120")
    case True
    then have "finish_table P key kind w = Some (Inr (0, w\<lparr> iw_page_table := table_of recs pgs \<rparr>))"
      using assms(3) by (simp add: finish_table_def inline_page_table_slots_def writer_holds_def table_of_def)
    then show ?thesis using assms(3) True by auto
  next
    case False
    then have "120 < length pgs" by simp
    from finish_table_holds [OF assms(2,3,5-8) this, of key kind] False show ?thesis
      by (simp only: if_False) blast
  qed
  then obtain fl w1 tpgs tbl where
    ft: "finish_table P key kind w = Some (Inr (fl, w1\<lparr> iw_page_table := tbl \<rparr>))"
    and h: "writer_holds sbb recs (pgs @ tpgs) w1"
    and c: "if length pgs \<le> 120 then tpgs = [] \<and> fl = 0 \<and> tbl = table_of recs pgs
        else fl = flag_page_table_in_stream4 \<and> spilled_table P key kind recs pgs tpgs
          \<and> tbl = page_entries_at (sb_size + length (concat recs @ concat (map snd pgs))) tpgs"
    by blast
  define w' where "w' = w1\<lparr> iw_page_table := tbl \<rparr>"
  define foot where "foot = \<lparr> total_chunks = iw_total_chunks w', data_end_offset = d,
    page_table = tbl, footer_flags = fl \<rparr>"
  have fin: "finished_image P key mac_key kind sbb recs pgs tpgs foot
      (image_body sbb recs (pgs @ tpgs) @ footer_image P foot (take superblock_copy_len sbb) mac_key)"
    using h c by (simp add: finished_image_def foot_def w'_def d_def writer_holds_def nonces_ascend_def
        sorted_wrt_append)
  obtain f' where f': "footer_encode P foot (take superblock_copy_len (iw_superblock_bytes w')) mac_key
        = Inr (footer_image P foot (take superblock_copy_len sbb) mac_key)"
    "file_write_all (footer_image P foot (take superblock_copy_len sbb) mac_key)
        (file_seek (iw_position w') (iw_file w')) = Inr f'"
    "file_data f' = image_body sbb recs (pgs @ tpgs) @ footer_image P foot (take superblock_copy_len sbb) mac_key"
    using finish_footer [OF assms(1) h w'_def foot_def finished_footer_fits(1) [OF fin], of mac_key] by blast
  have "writer_finish P key mac_key kind w = Some (Inr (f', foot))"
    using de ft f'(1,2) by (simp add: writer_finish_def Let_def w'_def [symmetric] foot_def [symmetric]
        foot_def [unfolded w'_def, simplified, symmetric]) (simp add: foot_def w'_def)
  then show ?thesis using fin f'(3) by auto
qed

end
