(* ===== verification/Image_Reader.thy ===== *)
theory Image_Reader
  imports Image_Writer
begin

text \<open>
  \<open>crates/lr-format/src/reader.rs\<close> and \<open>verify.rs\<close>: opening an image file,
  checking its layout, reading its page table, streams and chunk records, and
  the structural verification that walks all of it.

  The file is a list of bytes; \<open>file_len\<close> and all offsets are 64-bit and their
  sums wrap where the source does not check them.
\<close>

section \<open>Opening\<close>

definition max_page_table_bytes :: nat where
  "max_page_table_bytes = 8 * 1024 * 1024"

record image_reader =
  ir_file :: bytes
  ir_file_len :: u64
  ir_superblock_bytes :: bytes
  ir_superblock :: superblock
  ir_footer_bytes :: bytes
  ir_footer :: footer

definition read_exact_io :: "bytes \<Rightarrow> nat \<Rightarrow> nat \<Rightarrow> bytes res" where
  "read_exact_io file off n =
     (case read_exact_at file off n of
        None \<Rightarrow> Inl (Io ''failed to fill whole buffer'') | Some b \<Rightarrow> Inr b)"

fun check_layout_entries :: "u64 \<Rightarrow> u64 \<Rightarrow> page_entry list \<Rightarrow> unit res" where
  "check_layout_entries data_end pages_end [] = Inr ()"
| "check_layout_entries data_end pages_end (e # es) =
     (if unat (pe_len e) > max_page_len
        then Inl (Corrupt ''page length exceeds the accepted maximum'')
      else (case checked_add_u64 (pe_offset e) (ucast (pe_len e) + word_of_nat page_overhead) of
          None \<Rightarrow> Inl (Corrupt ''page extent overflows'')
        | Some end \<Rightarrow>
            if pe_offset e < data_end \<or> end > pages_end then Inl (Corrupt ''page extent '')
            else check_layout_entries data_end pages_end es))"

definition validate_layout :: "superblock \<Rightarrow> footer \<Rightarrow> u64 \<Rightarrow> unit res" where
  "validate_layout sb ft file_len =
     (let chunk_region_start = word_of_nat sb_size :: u64;
          pages_end = file_len - word_of_nat footer_size in
      if data_end_offset ft < chunk_region_start \<or> data_end_offset ft > pages_end
        then Inl (Corrupt ''data_end_offset '')
      else (let chunk_region = data_end_offset ft - chunk_region_start;
                minimum_chunk_bytes = total_chunks ft * word_of_nat chunk_overhead_plain in
        if minimum_chunk_bytes > chunk_region then Inl (Corrupt ''chunks cannot fit'')
        else res_bind (check_layout_entries (data_end_offset ft) pages_end (page_table ft)) (\<lambda>_.
          if chunk_size sb = 0 then Inl (Corrupt ''chunk_size must not be zero'') else Inr ())))"

definition reader_open :: "prims \<Rightarrow> bytes \<Rightarrow> image_reader res" where
  "reader_open P file =
     (let file_len = word_of_nat (length file) :: u64 in
      if file_len < word_of_nat (sb_size + footer_size) then Inl (Corrupt ''file is '')
      else res_bind (read_exact_io file 0 sb_size) (\<lambda>superblock_bytes.
        res_bind (sb_decode P superblock_bytes) (\<lambda>sb.
        res_bind (read_exact_io file (unat (file_len - word_of_nat footer_size)) footer_size)
          (\<lambda>footer_bytes.
        res_bind (footer_decode P footer_bytes (take superblock_copy_len superblock_bytes)) (\<lambda>ft.
        res_bind (validate_layout sb ft file_len) (\<lambda>_.
          Inr \<lparr> ir_file = file, ir_file_len = file_len, ir_superblock_bytes = superblock_bytes,
                ir_superblock = sb, ir_footer_bytes = footer_bytes, ir_footer = ft \<rparr>))))))"

definition reader_authenticate :: "prims \<Rightarrow> image_reader \<Rightarrow> bytes option \<Rightarrow> unit res" where
  "reader_authenticate P r meta_key =
     res_bind (sb_verify_mac P (ir_superblock_bytes r) meta_key) (\<lambda>_.
     res_bind (footer_verify_mac P (ir_footer_bytes r) meta_key) (\<lambda>_. Inr ()))"

section \<open>Page table and streams\<close>

text \<open>Each round of the reading loops consumes bytes of a page or loads the next one.\<close>

lemma read_bytes_partial_progress:
  assumes "read_bytes_partial P n st = Inr (bs, st')" "bs \<noteq> []"
  shows "(st', st) \<in> measures [\<lambda>s. length (pr_entries s) - pr_index s, \<lambda>s. length (pr_buf s) - pr_pos s]"
proof (cases "pr_pos st \<ge> length (pr_buf st)")
  case True
  then obtain st1 k where "load_next P st = Inr (Some st1)" "st' = st1\<lparr>pr_pos := k\<rparr>"
    using assms by (auto simp: read_bytes_partial_def Let_def res_bind_eq_Inr split: option.splits)
  then show ?thesis using load_next_progress by fastforce
next
  case False
  then show ?thesis
    using assms by (auto simp: read_bytes_partial_def Let_def slice_def)
qed

function page_table_loop :: "prims \<Rightarrow> page_stream_reader \<Rightarrow> bytes \<Rightarrow> bytes res" where
  "page_table_loop P st acc =
     (case read_bytes_partial P 8192 st of
        Inl e \<Rightarrow> Inl e
      | Inr (bs, st') \<Rightarrow>
          if bs = [] then Inr acc
          else if length acc + length bs > max_page_table_bytes
            then Inl (Corrupt ''page table exceeds the accepted size'')
          else page_table_loop P st' (acc @ bs))"
  by pat_completeness auto
termination
  by (relation "inv_image (measures [\<lambda>s. length (pr_entries s) - pr_index s,
      \<lambda>s. length (pr_buf s) - pr_pos s]) (\<lambda>(P, st, acc). st)")
    (auto intro: read_bytes_partial_progress simp del: in_measures)

function drain_stream :: "prims \<Rightarrow> page_stream_reader \<Rightarrow> unit res" where
  "drain_stream P st =
     (case read_bytes_partial P (64 * 1024) st of
        Inl e \<Rightarrow> Inl e
      | Inr (bs, st') \<Rightarrow> if bs = [] then Inr () else drain_stream P st')"
  by pat_completeness auto
termination
  by (relation "inv_image (measures [\<lambda>s. length (pr_entries s) - pr_index s,
      \<lambda>s. length (pr_buf s) - pr_pos s]) (\<lambda>(P, st). st)")
    (auto intro: read_bytes_partial_progress simp del: in_measures)

declare page_table_loop.simps [simp del] drain_stream.simps [simp del]

definition reader_page_table :: "prims \<Rightarrow> image_reader \<Rightarrow> bytes \<Rightarrow> aead_kind \<Rightarrow> page_entry list res" where
  "reader_page_table P r meta_key kind =
     (if \<not> page_table_in_stream4 (ir_footer r) then Inr (page_table (ir_footer r))
      else (let entries = entries_for (ir_footer r) PageTable in
        res_bind (page_stream_reader_new (ir_file r) kind meta_key PageTable entries (ir_file_len r))
          (\<lambda>st. res_bind (page_table_loop P st []) (\<lambda>b. parse_table b))))"

text \<open>The nonce is the last field of the page header.\<close>

fun repeated_nonces :: "bytes \<Rightarrow> page_entry list \<Rightarrow> bytes list \<Rightarrow> bool res" where
  "repeated_nonces file [] seen = Inr False"
| "repeated_nonces file (e # es) seen =
     res_bind (read_exact_io file
         (unat (pe_offset e + word_of_nat (page_header_len - nonce_len))) nonce_len) (\<lambda>nonce.
       if nonce \<in> set seen then Inr True else repeated_nonces file es (nonce # seen))"

definition has_repeated_page_nonces :: "prims \<Rightarrow> image_reader \<Rightarrow> bytes \<Rightarrow> aead_kind \<Rightarrow> bool res" where
  "has_repeated_page_nonces P r meta_key kind =
     res_bind (reader_page_table P r meta_key kind) (\<lambda>table.
       repeated_nonces (ir_file r) (table @ entries_for (ir_footer r) PageTable) [])"

definition stream_reader ::
    "prims \<Rightarrow> image_reader \<Rightarrow> stream_id \<Rightarrow> bytes \<Rightarrow> aead_kind \<Rightarrow> page_stream_reader res" where
  "stream_reader P r stream meta_key kind =
     res_bind (reader_page_table P r meta_key kind) (\<lambda>table.
       page_stream_reader_new (ir_file r) kind meta_key stream
         (filter (\<lambda>e. pe_stream e = stream) table) (ir_file_len r))"

section \<open>Chunk records\<close>

definition read_chunk_bytes :: "image_reader \<Rightarrow> u64 \<Rightarrow> nat \<Rightarrow> bytes res" where
  "read_chunk_bytes r offset total_len =
     (case checked_add_u64 offset (word_of_nat total_len) of
        None \<Rightarrow> Inl (Corrupt ''chunk extent overflows'')
      | Some end \<Rightarrow>
          if offset < word_of_nat sb_size \<or> end > data_end_offset (ir_footer r)
            then Inl (Corrupt ''chunk extent '')
          else read_exact_io (ir_file r) (unat offset) total_len)"

definition read_chunk_record :: "image_reader \<Rightarrow> u64 \<Rightarrow> bytes res" where
  "read_chunk_record r offset =
     res_bind (read_chunk_bytes r offset chunk_header_len) (\<lambda>header.
     res_bind (chunk_decode_header header) (\<lambda>decoded.
       read_chunk_bytes r offset (chunk_header_total_len decoded)))"

text \<open>\<open>while offset < data_end\<close>; \<open>None\<close> would be a loop that does not end.\<close>

partial_function (option) scan_loop :: "bytes \<Rightarrow> u64 \<Rightarrow> u64 \<Rightarrow> u64 \<Rightarrow> (u64 \<times> u64) res option" where
  "scan_loop file data_end offset count =
     (if offset < data_end then
        (if offset + word_of_nat chunk_header_len > data_end
           then Some (Inl (Corrupt ''truncated chunk header at the end of the region''))
         else (case read_exact_io file (unat offset) chunk_header_len of
             Inl e \<Rightarrow> Some (Inl e)
           | Inr header \<Rightarrow>
               (case chunk_decode_header header of
                  Inl e \<Rightarrow> Some (Inl e)
                | Inr decoded \<Rightarrow>
                    (let total = word_of_nat (chunk_header_total_len decoded) in
                     if offset + total > data_end
                       then Some (Inl (Corrupt ''chunk record overruns the chunk region''))
                     else scan_loop file data_end (offset + total) (count + 1)))))
      else Some (Inr (offset, count)))"

definition scan_chunk_headers :: "image_reader \<Rightarrow> u64 res option" where
  "scan_chunk_headers r =
     map_option (\<lambda>q. res_bind q (\<lambda>(offset, count).
         if offset \<noteq> data_end_offset (ir_footer r)
           then Inl (Corrupt ''chunk records do not end at data_end_offset'')
         else if count \<noteq> total_chunks (ir_footer r) then Inl (Corrupt ''footer declares '')
         else Inr count))
       (scan_loop (ir_file r) (data_end_offset (ir_footer r)) (word_of_nat sb_size) 0)"

text \<open>\<open>ChunkReader\<close>: the same bounds on a file handle of its own.\<close>

record chunk_reader =
  ckr_file :: bytes
  ckr_data_end_offset :: u64
  ckr_chunk_region_start :: u64

definition chunk_reader_new :: "bytes \<Rightarrow> u64 \<Rightarrow> chunk_reader" where
  "chunk_reader_new file data_end =
     \<lparr> ckr_file = file, ckr_data_end_offset = data_end, ckr_chunk_region_start = word_of_nat sb_size \<rparr>"

definition chunk_reader_with :: "image_reader \<Rightarrow> bytes \<Rightarrow> chunk_reader" where
  "chunk_reader_with r file = chunk_reader_new file (data_end_offset (ir_footer r))"

definition ckr_read_bytes :: "chunk_reader \<Rightarrow> u64 \<Rightarrow> nat \<Rightarrow> bytes res" where
  "ckr_read_bytes c offset len =
     (case checked_add_u64 offset (word_of_nat len) of
        None \<Rightarrow> Inl (Corrupt ''chunk extent overflows'')
      | Some end \<Rightarrow>
          if offset < ckr_chunk_region_start c \<or> end > ckr_data_end_offset c
            then Inl (Corrupt ''chunk extent '')
          else read_exact_io (ckr_file c) (unat offset) len)"

definition ckr_read_record :: "chunk_reader \<Rightarrow> u64 \<Rightarrow> bytes res" where
  "ckr_read_record c offset =
     res_bind (ckr_read_bytes c offset chunk_header_len) (\<lambda>header.
     res_bind (chunk_decode_header header) (\<lambda>decoded.
       ckr_read_bytes c offset (chunk_header_total_len decoded)))"

section \<open>Structural verification\<close>

record verify_report =
  vr_file_len :: u64
  vr_data_end_offset :: u64
  vr_chunks :: u64
  vr_pages :: "(stream_id \<times> nat) list"
  vr_repeated_page_nonces :: bool

definition total_pages :: "verify_report \<Rightarrow> nat" where
  "total_pages rep = sum_list (map snd (vr_pages rep))"

fun verify_streams ::
    "prims \<Rightarrow> image_reader \<Rightarrow> bytes \<Rightarrow> aead_kind \<Rightarrow> page_entry list \<Rightarrow> stream_id list
     \<Rightarrow> (stream_id \<times> nat) list res" where
  "verify_streams P r meta_key kind table [] = Inr []"
| "verify_streams P r meta_key kind table (s # ss) =
     (let count = length (filter (\<lambda>e. pe_stream e = s) table) in
      if count = 0 then verify_streams P r meta_key kind table ss
      else res_bind (stream_reader P r s meta_key kind) (\<lambda>st.
        res_bind (drain_stream P st) (\<lambda>_.
        res_bind (verify_streams P r meta_key kind table ss) (\<lambda>pages.
          Inr ((s, count) # pages)))))"

definition verify_structure :: "prims \<Rightarrow> bytes \<Rightarrow> bytes \<Rightarrow> bool \<Rightarrow> verify_report res option" where
  "verify_structure P file meta_key encrypted =
     (case res_bind (reader_open P file) (\<lambda>r.
             res_bind (sb_aead_kind (ir_superblock r)) (\<lambda>kind.
             res_bind (reader_authenticate P r (if encrypted then Some meta_key else None)) (\<lambda>_.
               Inr (r, kind)))) of
        Inl e \<Rightarrow> Some (Inl e)
      | Inr (r, kind) \<Rightarrow>
          map_option (\<lambda>q. res_bind q (\<lambda>chunks.
            res_bind (reader_page_table P r meta_key kind) (\<lambda>table.
            res_bind (verify_streams P r meta_key kind table [Manifest, HashIndex, Extras, PageTable])
              (\<lambda>pages.
            res_bind (has_repeated_page_nonces P r meta_key kind) (\<lambda>rep.
              Inr \<lparr> vr_file_len = ir_file_len r, vr_data_end_offset = data_end_offset (ir_footer r),
                    vr_chunks = chunks, vr_pages = pages, vr_repeated_page_nonces = rep \<rparr>)))))
            (scan_chunk_headers r))"

section \<open>Reading what the writer wrote\<close>

lemma page_extent:
  assumes "unat (pe_len e) \<le> max_page_len" "unat (pe_offset e) + unat (pe_len e) + page_overhead < 2 ^ 64"
  shows "checked_add_u64 (pe_offset e) (ucast (pe_len e) + word_of_nat page_overhead)
       = Some (word_of_nat (unat (pe_offset e) + unat (pe_len e) + page_overhead))"
proof -
  have "unat (ucast (pe_len e) + word_of_nat page_overhead :: u64) = unat (pe_len e) + page_overhead"
    using assms(1) by (simp add: unat_word_ariths page_consts max_page_len_def)
  then show ?thesis
    using unat_of_nat_u64 [OF assms(2)] by (simp only: checked_add_u64_Some)
qed

lemma check_layout_entries_ok:
  assumes "\<forall>e \<in> set es. unat (pe_len e) \<le> max_page_len \<and> data_end \<le> pe_offset e
      \<and> unat (pe_offset e) + unat (pe_len e) + page_overhead \<le> unat pages_end"
  shows "check_layout_entries data_end pages_end es = Inr ()"
  using assms
proof (induction es)
  case (Cons e es)
  define n where "n = unat (pe_offset e) + unat (pe_len e) + page_overhead"
  have b: "unat (pe_len e) \<le> max_page_len" "data_end \<le> pe_offset e" "n \<le> unat pages_end"
    using Cons.prems by (simp_all add: n_def)
  have n64: "n < 2 ^ 64" by (rule le_unat_u64 [OF b(3)])
  have "(word_of_nat n :: u64) \<le> pages_end"
    using b(3) unat_of_nat_u64 [OF n64] by (simp add: word_le_nat_alt)
  then show ?case
    using Cons b page_extent [OF b(1) n64 [unfolded n_def]] by (simp add: n_def [symmetric] not_less)
qed simp

lemma check_page_extents_ok:
  assumes "\<forall>e \<in> set es. unat (pe_len e) \<le> max_page_len
      \<and> unat (pe_offset e) + unat (pe_len e) + page_overhead \<le> unat file_len"
  shows "check_page_extents file_len es = Inr ()"
  using assms
proof (induction es)
  case (Cons e es)
  define n where "n = unat (pe_offset e) + unat (pe_len e) + page_overhead"
  have b: "unat (pe_len e) \<le> max_page_len" "n \<le> unat file_len"
    using Cons.prems by (simp_all add: n_def)
  have n64: "n < 2 ^ 64" by (rule le_unat_u64 [OF b(2)])
  have "(word_of_nat n :: u64) \<le> file_len"
    using b(2) unat_of_nat_u64 [OF n64] by (simp add: word_le_nat_alt)
  then show ?case
    using Cons b page_extent [OF b(1) n64 [unfolded n_def]] by (simp add: n_def [symmetric] not_less)
qed simp

text \<open>The facts every proof below uses about a finished image.\<close>

lemma finished_facts:
  assumes "hash_ok P" "finished_image P key mk kind sbb recs pgs tpgs ft data"
  defines "off \<equiv> sb_size + length (concat recs)" and "body \<equiv> image_body sbb recs (pgs @ tpgs)"
    and "fi \<equiv> footer_image P ft (take superblock_copy_len sbb) mk"
  shows "data = body @ fi" "length fi = 4096" "length body < 2 ^ 63" "length sbb = 4096"
    and "length body = off + length (concat (map snd (pgs @ tpgs)))"
    and "unat (data_end_offset ft) = off"
    and "\<forall>p \<in> set (pgs @ tpgs). page_sized (snd p)"
    and "table_of recs pgs @ page_entries_at (off + length (concat (map snd pgs))) tpgs
      = page_entries_at off (pgs @ tpgs)"
    and "set (page_table ft) \<subseteq> set (page_entries_at off (pgs @ tpgs))"
    and "\<forall>e \<in> set (page_entries_at off (pgs @ tpgs)). off \<le> unat (pe_offset e)
      \<and> unat (pe_offset e) + unat (pe_len e) + page_overhead \<le> length body
      \<and> unat (pe_len e) \<le> max_page_len"
proof -
  note fin = assms(2) [unfolded finished_image_def]
  show d: "data = body @ fi" using fin by (simp add: body_def fi_def)
  show l: "length sbb = 4096" using fin by (simp add: sb_size_def)
  show "length fi = 4096"
    unfolding fi_def using l
    by (intro length_footer_image [OF assms(1)] finished_footer_fits(1) [OF assms(2)]) (simp add: sb_consts)
  show lb: "length body < 2 ^ 63" using fin by (simp add: body_def sink_limit_def)
  show lbody: "length body = off + length (concat (map snd (pgs @ tpgs)))"
    using fin by (simp add: body_def off_def image_body_def)
  have de: "data_end_offset ft = word_of_nat off" using fin by (simp add: off_def)
  show "unat (data_end_offset ft) = off"
    unfolding de using lb lbody by (intro unat_of_nat_u64) simp
  show sz: "\<forall>p \<in> set (pgs @ tpgs). page_sized (snd p)" using fin by simp
  show "table_of recs pgs @ page_entries_at (off + length (concat (map snd pgs))) tpgs
      = page_entries_at off (pgs @ tpgs)"
    by (simp add: table_of_def off_def page_entries_at_append)
  show "set (page_table ft) \<subseteq> set (page_entries_at off (pgs @ tpgs))"
    using fin by (auto simp: table_of_def off_def page_entries_at_append add.assoc split: if_splits)
  show "\<forall>e \<in> set (page_entries_at off (pgs @ tpgs)). off \<le> unat (pe_offset e)
      \<and> unat (pe_offset e) + unat (pe_len e) + page_overhead \<le> length body
      \<and> unat (pe_len e) \<le> max_page_len"
    using page_entries_at_offsets [OF _ _ sz, of _ off] lb lbody by simp
qed

lemma sum_list_records: "\<forall>r \<in> set recs. k \<le> length r \<Longrightarrow> length recs * k \<le> length (concat recs)"
  by (induction recs) auto

lemma finished_layout:
  assumes "hash_ok P" "finished_image P key mk kind sbb recs pgs tpgs ft data"
    and "\<forall>r \<in> set recs. chunk_header_len \<le> length r" "chunk_size sb \<noteq> 0"
    and "unat file_len = length data"
  shows "validate_layout sb ft file_len = Inr ()"
proof -
  note f = finished_facts [OF assms(1,2)]
  define off where "off = sb_size + length (concat recs)"
  define lb where "lb = off + length (concat (map snd (pgs @ tpgs)))"
  have fl: "unat file_len = lb + 4096" using assms(5) f(1,2,5) by (simp add: lb_def off_def)
  have b: "lb < 2 ^ 63" using f(3,5) by (simp add: lb_def off_def)
  have pe: "unat (file_len - word_of_nat footer_size) = lb"
    using fl by (subst unat_sub) (simp_all add: word_le_nat_alt footer_size_def)
  have de: "unat (data_end_offset ft) = off" using f(6) by (simp add: off_def)
  have rec: "length recs * 19 \<le> length (concat recs)"
    using sum_list_records [OF assms(3)] by (simp add: chunk_consts)
  then have rb: "length recs * 19 < 2 ^ 63" using b by (simp add: lb_def off_def)
  have tc: "unat (total_chunks ft * word_of_nat chunk_overhead_plain) = length recs * 19"
  proof -
    have "total_chunks ft * word_of_nat chunk_overhead_plain = word_of_nat (length recs * 19)"
      using assms(2) by (simp add: finished_image_def chunk_overhead_plain_def chunk_consts)
    moreover have "length recs * 19 < 2 ^ 64" using rb by simp
    ultimately show ?thesis by (simp only: unat_of_nat_u64)
  qed
  have cr: "unat (data_end_offset ft - word_of_nat sb_size) = length (concat recs)"
    using de by (subst unat_sub) (simp_all add: word_le_nat_alt sb_size_def off_def)
  have "check_layout_entries (data_end_offset ft) (file_len - word_of_nat footer_size) (page_table ft) = Inr ()"
    using f(5,9,10) de pe by (intro check_layout_entries_ok)
      (auto simp: word_le_nat_alt off_def [symmetric] lb_def)
  moreover have "\<not> data_end_offset ft < word_of_nat sb_size"
    using de by (simp add: word_less_nat_alt off_def sb_size_def)
  moreover have "\<not> data_end_offset ft > file_len - word_of_nat footer_size"
    using de pe by (simp add: word_less_nat_alt lb_def)
  moreover have "\<not> total_chunks ft * word_of_nat chunk_overhead_plain > data_end_offset ft - word_of_nat sb_size"
    using tc cr rec by (simp add: word_less_nat_alt)
  ultimately show ?thesis using assms(4) by (simp add: validate_layout_def Let_def)
qed

definition opened_image ::
    "prims \<Rightarrow> bytes option \<Rightarrow> superblock \<Rightarrow> footer \<Rightarrow> bytes \<Rightarrow> image_reader" where
  "opened_image P mk sb ft data =
     \<lparr> ir_file = data, ir_file_len = word_of_nat (length data),
       ir_superblock_bytes = sb_image P sb mk, ir_superblock = sb,
       ir_footer_bytes = footer_image P ft (take superblock_copy_len (sb_image P sb mk)) mk,
       ir_footer = ft \<rparr>"

lemma valid_chunk_size: "validate_header sb = Inr () \<Longrightarrow> chunk_size sb \<noteq> 0"
  by (auto simp: validate_header_def is_power_of_two_in_range_def min_chunk_size_def split: if_splits)

lemma reader_open_finished:
  assumes "hash_ok P" "sb_wf sb" "validate_header sb = Inr ()"
    and fin: "finished_image P key mk kind (sb_image P sb mk) recs pgs tpgs ft data"
    and "\<forall>r \<in> set recs. chunk_header_len \<le> length r"
  shows "reader_open P data = Inr (opened_image P mk sb ft data)"
    and "reader_authenticate P (opened_image P mk sb ft data) mk = Inr ()"
proof -
  note f = finished_facts [OF assms(1) fin]
  define sbb where "sbb = sb_image P sb mk"
  define body where "body = image_body sbb recs (pgs @ tpgs)"
  define fi where "fi = footer_image P ft (take superblock_copy_len sbb) mk"
  define fl :: u64 where "fl = word_of_nat (length data)"
  have d: "data = body @ fi" "length fi = 4096" "length body < 2 ^ 63" "length sbb = 4096"
    using f(1-4) by (simp_all add: body_def sbb_def fi_def)
  have b: "take 4096 body = sbb" "4096 \<le> length body"
    using d(4) by (simp_all add: body_def image_body_def)
  have fl: "unat fl = length body + 4096"
    unfolding fl_def using d by (subst unat_of_nat_u64) simp_all
  have pe: "unat (fl - word_of_nat footer_size) = length body"
    using fl by (subst unat_sub) (simp_all add: word_le_nat_alt footer_size_def)
  have r1: "read_exact_io data 0 sb_size = Inr sbb"
    using d b by (simp add: read_exact_io_def read_exact_at_def sb_size_def slice_def)
  have r2: "read_exact_io data (unat (fl - word_of_nat footer_size)) footer_size = Inr fi"
    unfolding pe using d by (simp add: read_exact_io_def read_exact_at_def footer_size_def slice_def)
  have c: "length (take superblock_copy_len sbb) = 1024" using d(4) by (simp add: sb_consts)
  have fd: "footer_decode P fi (take superblock_copy_len sbb) = Inr ft"
    unfolding fi_def by (rule footer_decode_image [OF assms(1) c finished_footer_fits [OF fin]])
  have v: "validate_layout sb ft fl = Inr ()"
    using finished_layout [OF assms(1) fin assms(5) valid_chunk_size [OF assms(3)], of fl] fl d by simp
  have "\<not> fl < word_of_nat (sb_size + footer_size)"
    using fl b(2) by (simp add: word_less_nat_alt sb_size_def footer_size_def)
  then show "reader_open P data = Inr (opened_image P mk sb ft data)"
    using r1 r2 fd v sb_decode_image [OF assms(1-3), of mk]
    by (simp add: reader_open_def Let_def fl_def [symmetric] opened_image_def sbb_def [symmetric]
        fi_def [symmetric])
  show "reader_authenticate P (opened_image P mk sb ft data) mk = Inr ()"
    using sb_verify_image [OF assms(1,2)] footer_verify_image [OF assms(1) c finished_footer_fits(1) [OF fin]]
    by (simp add: reader_authenticate_def opened_image_def sbb_def)
qed

text \<open>The reading loops deliver all that remains of a stream of non-empty pages.\<close>

definition pages_nonempty :: "prims \<Rightarrow> page_stream_reader \<Rightarrow> bool" where
  "pages_nonempty P st \<longleftrightarrow> (\<forall>i \<in> {pr_index st..<length (pr_entries st)}. page_plain P st i \<noteq> [])"

lemma read_bytes_partial_spec:
  assumes "pages_ok P st" "pages_nonempty P st" "0 < n"
  shows "\<exists>bs st'. read_bytes_partial P n st = Inr (bs, st') \<and> page_remaining P st = bs @ page_remaining P st'
    \<and> pages_ok P st' \<and> pages_nonempty P st' \<and> (bs = [] \<longrightarrow> page_remaining P st = [])"
proof -
  have step: "\<exists>bs st'. Inr (slice (pr_pos s) (pr_pos s + min n (length (pr_buf s) - pr_pos s)) (pr_buf s),
        s\<lparr> pr_pos := pr_pos s + min n (length (pr_buf s) - pr_pos s) \<rparr>) = (Inr (bs, st') :: _ res)
      \<and> page_remaining P s = bs @ page_remaining P st' \<and> pages_ok P st' \<and> pages_nonempty P st'
      \<and> (bs = [] \<longrightarrow> page_remaining P s = [])"
    if "pages_ok P s" "pages_nonempty P s" "pr_pos s < length (pr_buf s)" for s
  proof -
    define k where "k = min n (length (pr_buf s) - pr_pos s)"
    have "0 < k" "k \<le> length (pr_buf s) - pr_pos s" using that(3) assms(3) by (auto simp: k_def)
    moreover have "drop (pr_pos s) (pr_buf s)
        = take k (drop (pr_pos s) (pr_buf s)) @ drop (pr_pos s + k) (pr_buf s)"
      by (metis append_take_drop_id drop_drop add.commute)
    ultimately show ?thesis
      using that unfolding k_def [symmetric]
      by (auto simp: slice_def page_remaining_def pages_nonempty_def)
  qed
  show ?thesis
  proof (cases "pr_pos st < length (pr_buf st)")
    case True
    then have "read_bytes_partial P n st
        = Inr (slice (pr_pos st) (pr_pos st + min n (length (pr_buf st) - pr_pos st)) (pr_buf st),
               st\<lparr> pr_pos := pr_pos st + min n (length (pr_buf st) - pr_pos st) \<rparr>)"
      by (simp add: read_bytes_partial_def Let_def)
    then show ?thesis using step [OF assms(1,2) True] by (simp only:)
  next
    case False
    show ?thesis
    proof (cases "pr_index st < length (pr_entries st)")
      case True
      then obtain buf where at: "page_at P st (pr_index st) = Inr buf"
        using assms(1) by (metis atLeastLessThan_iff is_ok_iff order_refl pages_ok_def)
      let ?s = "st\<lparr> pr_index := pr_index st + 1, pr_buf := buf, pr_pos := 0 \<rparr>"
      have ld: "load_next P st = Inr (Some ?s)" using at True by (simp add: load_next_eq)
      have pl: "page_plain P st (pr_index st) = buf" using at by (simp add: page_plain_def)
      then have ne: "buf \<noteq> []" using assms(2) True by (auto simp: pages_nonempty_def)
      have "page_remaining P ?s = page_remaining P st"
        using False True pl by (simp add: page_remaining_def upt_conv_Cons)
      moreover have "pages_ok P ?s" "pages_nonempty P ?s"
        using assms(1,2) by (simp_all add: pages_ok_def pages_nonempty_def)
      moreover have "read_bytes_partial P n st
          = Inr (slice (pr_pos ?s) (pr_pos ?s + min n (length (pr_buf ?s) - pr_pos ?s)) (pr_buf ?s),
                 ?s\<lparr> pr_pos := pr_pos ?s + min n (length (pr_buf ?s) - pr_pos ?s) \<rparr>)"
        using ld False by (simp add: read_bytes_partial_def Let_def)
      moreover have "pr_pos ?s < length (pr_buf ?s)" using ne by simp
      ultimately show ?thesis using step [of ?s] by (simp only:)
    next
      case none: False
      then show ?thesis
        using False assms by (simp add: read_bytes_partial_def load_next_eq page_remaining_def)
    qed
  qed
qed

lemma page_table_loop_spec:
  assumes "pages_ok P st" "pages_nonempty P st"
    and "length acc + length (page_remaining P st) \<le> max_page_table_bytes"
  shows "page_table_loop P st acc = Inr (acc @ page_remaining P st)"
  using assms
proof (induction P st acc rule: page_table_loop.induct)
  case (1 P st acc)
  from read_bytes_partial_spec [OF 1(2,3), of 8192] obtain bs st' where
    r: "read_bytes_partial P 8192 st = Inr (bs, st')" "page_remaining P st = bs @ page_remaining P st'"
      "pages_ok P st'" "pages_nonempty P st'" "bs = [] \<longrightarrow> page_remaining P st = []" by auto
  show ?case
  proof (cases "bs = []")
    case True
    then show ?thesis using r by (simp add: page_table_loop.simps)
  next
    case False
    then have "page_table_loop P st' (acc @ bs) = Inr ((acc @ bs) @ page_remaining P st')"
      using 1(1) [OF r(1) refl] 1(4) r by simp
    then show ?thesis using False r 1(4) by (subst page_table_loop.simps) simp
  qed
qed

lemma drain_stream_spec:
  assumes "pages_ok P st" "pages_nonempty P st"
  shows "drain_stream P st = Inr ()"
  using assms
proof (induction P st rule: drain_stream.induct)
  case (1 P st)
  from read_bytes_partial_spec [OF 1(2,3), of "64 * 1024"] obtain bs st' where
    r: "read_bytes_partial P (64 * 1024) st = Inr (bs, st')" "pages_ok P st'" "pages_nonempty P st'" by auto
  then show ?case using 1(1) [OF r(1) refl] by (subst drain_stream.simps) simp
qed

text \<open>A reader over entries of the image whose pages seal \<open>plains\<close>.\<close>

lemma stream_of_sealed_pages:
  assumes "pages_seal P kind key stream (map (entry_page data) es) plains"
    and "\<forall>e \<in> set es. entry_inside data e \<and> unat (pe_len e) \<le> max_page_len"
    and "sorted (map pe_offset es)" "length data < 2 ^ 64"
  shows "\<exists>st. page_stream_reader_new data kind key stream es (word_of_nat (length data)) = Inr st
    \<and> pages_ok P st \<and> page_remaining P st = concat plains \<and> pages_nonempty P st"
proof -
  define st where "st = \<lparr> pr_file = data, pr_kind = kind, pr_meta_key = key, pr_stream = stream,
    pr_entries = es, pr_index = 0, pr_buf = [], pr_pos = 0 \<rparr>"
  have "check_page_extents (word_of_nat (length data)) es = Inr ()"
    using assms(2) unat_of_nat_u64 [OF assms(4)]
    by (intro check_page_extents_ok) (simp add: entry_inside_def)
  moreover have "sort_key pe_offset es = es" using assms(3) by (rule sort_key_id_if_sorted)
  ultimately have new: "page_stream_reader_new data kind key stream es (word_of_nat (length data)) = Inr st"
    by (simp add: page_stream_reader_new_def st_def)
  note r = reader_of_sealed_pages [OF assms(1) _ st_def]
  have at: "page_at P st i = Inr (plains ! i)" if "i < length es" for i
    using that assms(1,2)
    by (simp add: page_at_def pages_seal_def read_exact_at_def entry_inside_def entry_page_def
        Let_def add.assoc st_def)
  have "length plains = length es" using assms(1) by (simp add: pages_seal_def)
  moreover have "\<forall>p \<in> set plains. p \<noteq> []" using assms(1) by (simp add: pages_seal_def)
  ultimately have "pages_nonempty P st"
    using at by (simp add: pages_nonempty_def page_plain_def st_def)
  then show ?thesis using new r assms(2) by blast
qed

lemma finished_entries:
  assumes "hash_ok P" "finished_image P key mk kind sbb recs pgs tpgs ft data"
  defines "all \<equiv> page_entries_at (sb_size + length (concat recs)) (pgs @ tpgs)"
  shows "map (entry_page data) (filter (\<lambda>e. pe_stream e = s) all) = pages_of s (pgs @ tpgs)"
    and "\<forall>e \<in> set all. entry_inside data e \<and> unat (pe_len e) \<le> max_page_len"
    and "sorted (map pe_offset all)" "length data < 2 ^ 64"
    and "map (entry_page data) all = map snd (pgs @ tpgs)"
proof -
  note f = finished_facts [OF assms(1,2)]
  have off: "sb_size + length (concat recs) = length (sbb @ concat recs)"
    using f(4) by (simp add: sb_size_def)
  show d: "length data < 2 ^ 64" using f(1-3) by simp
  have data: "data = (sbb @ concat recs) @ concat (map snd (pgs @ tpgs))
      @ footer_image P ft (take superblock_copy_len sbb) mk"
    using f(1) by (simp add: image_body_def)
  have lt: "length (sbb @ concat recs) + length (concat (map snd (pgs @ tpgs))) < 2 ^ 64"
    using d data by simp
  note pp = page_entries_at_pages [OF f(7) lt, of "footer_image P ft (take superblock_copy_len sbb) mk" s]
  show "map (entry_page data) (filter (\<lambda>e. pe_stream e = s) all) = pages_of s (pgs @ tpgs)"
    unfolding all_def off using pp by (subst data) (simp only:)
  show "map (entry_page data) all = map snd (pgs @ tpgs)"
    unfolding all_def off using map_entry_page [OF f(7) lt] by (subst data) (simp only:)
  have "\<forall>e \<in> set all. entry_inside data e"
    unfolding all_def off using conjunct2 [OF pp] by (subst data) blast
  then show "\<forall>e \<in> set all. entry_inside data e \<and> unat (pe_len e) \<le> max_page_len"
    using f(10) by (simp add: all_def)
  show "sorted (map pe_offset all)"
    unfolding all_def off by (rule sorted_page_entries_at [OF lt f(7)])
qed

lemma sorted_filter_map: "sorted (map f xs) \<Longrightarrow> sorted (map f (filter Q xs))"
  by (induction xs) auto

lemma pe_streams: "\<forall>p \<in> set ps. fst p = s \<Longrightarrow> \<forall>e \<in> set (page_entries_at off ps). pe_stream e = s"
  by (induction ps arbitrary: off) auto

lemma pe_streams_filter:
  "filter (\<lambda>e. pe_stream e = s) (page_entries_at off ps) = [] \<longleftrightarrow> pages_of s ps = []"
  by (induction ps arbitrary: off) auto

lemma reader_page_table_finished:
  assumes "hash_ok P" and fin: "finished_image P key mk kind sbb recs pgs tpgs ft data"
    and "pages_of PageTable pgs = []" "13 * length pgs \<le> max_page_table_bytes"
    and r: "ir_file r = data" "ir_file_len r = word_of_nat (length data)" "ir_footer r = ft"
  shows "reader_page_table P r key kind = Inr (table_of recs pgs)"
proof (cases "length pgs \<le> 120")
  case True
  then show ?thesis
    using fin r by (simp add: reader_page_table_def page_table_in_stream4_def finished_image_def)
next
  case False
  note e = finished_entries [OF assms(1) fin]
  define off where "off = sb_size + length (concat recs @ concat (map snd pgs))"
  define es where "es = page_entries_at off tpgs"
  from fin False obtain plains where
    sp: "page_table ft = es" "footer_flags ft = flag_page_table_in_stream4"
      "pages_seal P kind key PageTable (map snd tpgs) plains"
      "concat plains = serialize_table (table_of recs pgs)" "\<forall>p \<in> set tpgs. fst p = PageTable"
    by (auto simp: finished_image_def spilled_table_def es_def off_def)
  have s4: "page_table_in_stream4 ft" using sp(2) by (simp add: page_table_in_stream4_def flag_page_table_in_stream4_def)
  have all: "page_entries_at (sb_size + length (concat recs)) (pgs @ tpgs) = table_of recs pgs @ es"
    by (simp add: page_entries_at_append table_of_def es_def off_def add.assoc)
  have fes: "filter (\<lambda>e. pe_stream e = PageTable) (table_of recs pgs @ es) = es"
    using pe_streams [OF sp(5), of off] assms(3) by (simp add: es_def table_of_def pe_streams_filter)
  then have ef: "entries_for ft PageTable = es" using sp(1) pe_streams [OF sp(5), of off]
    by (simp add: entries_for_def filter_id_conv es_def)
  have "map (entry_page data) es = map snd tpgs"
    using e(1) [of PageTable] pages_of_same [OF sp(5)] assms(3) by (simp only: all fes) simp
  moreover have "\<forall>x \<in> set es. entry_inside data x \<and> unat (pe_len x) \<le> max_page_len"
    using e(2) by (simp add: all)
  moreover have "sorted (map pe_offset es)" using e(3) by (simp add: all sorted_append)
  ultimately obtain st where st:
    "page_stream_reader_new data kind key PageTable es (word_of_nat (length data)) = Inr st"
    "pages_ok P st" "page_remaining P st = concat plains" "pages_nonempty P st"
    using stream_of_sealed_pages [of P kind key PageTable data es plains] sp(3) e(4) by auto
  have "length (concat plains) = 13 * length pgs"
    by (simp add: sp(4) length_serialize_table table_of_def)
  then have "page_table_loop P st [] = Inr (serialize_table (table_of recs pgs))"
    using page_table_loop_spec [OF st(2,4), of "[]"] st(3) sp(4) assms(4) by simp
  then show ?thesis
    using s4 ef st(1) r by (simp add: reader_page_table_def Let_def parse_serialize_table)
qed

lemma stream_reader_finished:
  assumes "hash_ok P" and fin: "finished_image P key mk kind sbb recs pgs tpgs ft data"
    and "pages_of PageTable pgs = []" "13 * length pgs \<le> max_page_table_bytes"
    and r: "ir_file r = data" "ir_file_len r = word_of_nat (length data)" "ir_footer r = ft"
    and seal: "pages_seal P kind key stream (pages_of stream pgs) plains"
    and "stream \<noteq> PageTable"
  shows "\<exists>st. stream_reader P r stream key kind = Inr st \<and> pages_ok P st
    \<and> page_remaining P st = concat plains \<and> pages_nonempty P st"
proof -
  note e = finished_entries [OF assms(1) fin]
  define es where "es = filter (\<lambda>e. pe_stream e = stream) (table_of recs pgs)"
  define all where "all = page_entries_at (sb_size + length (concat recs)) (pgs @ tpgs)"
  have tp: "\<forall>p \<in> set tpgs. fst p = PageTable"
    using fin by (auto simp: finished_image_def spilled_table_def split: if_splits)
  have "pages_of stream tpgs = []" using tp assms(9) by (auto simp: pages_of_def filter_empty_conv)
  then have fes: "filter (\<lambda>e. pe_stream e = stream) all = es" "pages_of stream (pgs @ tpgs) = pages_of stream pgs"
    by (simp_all add: all_def page_entries_at_append table_of_def es_def pe_streams_filter)
  have "map (entry_page data) es = pages_of stream pgs"
    using e(1) [of stream] fes by (simp only: all_def [symmetric])
  moreover have "\<forall>x \<in> set es. entry_inside data x \<and> unat (pe_len x) \<le> max_page_len"
    using e(2) fes(1) by (auto simp: all_def [symmetric])
  moreover have "sorted (map pe_offset es)"
    using sorted_filter_map [OF e(3), of "\<lambda>e. pe_stream e = stream"] fes(1) by (simp add: all_def [symmetric])
  ultimately obtain st where
    "page_stream_reader_new data kind key stream es (word_of_nat (length data)) = Inr st"
    "pages_ok P st" "page_remaining P st = concat plains" "pages_nonempty P st"
    using stream_of_sealed_pages [of P kind key stream data es plains] seal e(4) by auto
  then show ?thesis
    using reader_page_table_finished [OF assms(1-7)] r by (simp add: stream_reader_def es_def)
qed

section \<open>The chunk region\<close>

text \<open>A record whose header declares exactly its length.\<close>

definition chunk_framed :: "bytes \<Rightarrow> bool" where
  "chunk_framed rec \<longleftrightarrow> (case chunk_decode_header rec of
     Inl _ \<Rightarrow> False | Inr h \<Rightarrow> chunk_header_total_len h = length rec)"

lemma header_total_bounds:
  assumes "chunk_decode_header b = Inr h"
  shows "19 \<le> chunk_header_total_len h" "chunk_header_total_len h \<le> 4259875" "19 \<le> length b"
proof -
  have "unat (ch_stored_len h) \<le> max_stored_len" and l: "19 \<le> length b"
    using assms by (auto simp: chunk_decode_header_def chunk_consts res_bind_eq_Inr split: if_splits)
  then show "19 \<le> chunk_header_total_len h" "chunk_header_total_len h \<le> 4259875"
    by (simp_all add: chunk_header_total_len_def chunk_consts max_stored_len_eq)
  show "19 \<le> length b" by (rule l)
qed

lemma chunk_framed_bounds: "chunk_framed r \<Longrightarrow> 19 \<le> length r \<and> length r \<le> 4259875"
  by (auto simp: chunk_framed_def split: sum.splits dest: header_total_bounds)

lemma chunk_framed_encode: "chunk_record_wf r \<Longrightarrow> chunk_framed (chunk_encode r)"
  using chunk_encode_header_total [of r "[]"] by (auto simp: chunk_framed_def)

lemma unat_add_small:
  "unat (a :: u64) < 2 ^ 63 \<Longrightarrow> n < 2 ^ 63 \<Longrightarrow> unat (a + word_of_nat n) = unat a + n"
  by (simp add: unat_word_ariths unat_of_nat_u64)

text \<open>One round of the loop.\<close>

lemma scan_loop_round:
  assumes "offset < data_end" "unat data_end < 2 ^ 63"
    and "scan_loop file data_end offset count = q"
  shows "(\<exists>e. q = Some (Inl e)) \<or>
    (\<exists>header h offset'. read_exact_io file (unat offset) 19 = Inr header
      \<and> chunk_decode_header header = Inr h
      \<and> unat offset' = unat offset + chunk_header_total_len h \<and> offset' \<le> data_end
      \<and> q = scan_loop file data_end offset' (count + 1))"
proof -
  have lt: "unat offset < 2 ^ 63"
    using assms(1,2) by (simp add: word_less_nat_alt)
  show ?thesis
  proof (cases "read_exact_io file (unat offset) 19")
    case (Inl e)
    then show ?thesis using assms(1,3) by (auto simp: scan_loop.simps [of "file"] chunk_consts)
  next
    case (Inr header)
    show ?thesis
    proof (cases "chunk_decode_header header")
      case (Inl e)
      then show ?thesis
        using Inr assms(1,3) by (auto simp: scan_loop.simps [of "file"] chunk_consts)
    next
      case (Inr h)
      have "unat (offset + word_of_nat (chunk_header_total_len h)) = unat offset + chunk_header_total_len h"
        using header_total_bounds(2) [OF Inr] by (intro unat_add_small [OF lt]) simp
      then show ?thesis
        using Inr \<open>read_exact_io file (unat offset) 19 = Inr header\<close> assms(1,3)
        by (subst (asm) scan_loop.simps) (auto simp: chunk_consts Let_def not_less split: if_splits)
    qed
  qed
qed

lemma scan_loop_total:
  assumes "unat data_end < 2 ^ 63"
  shows "\<exists>q. scan_loop file data_end offset count = Some q"
proof (induction "unat data_end - unat offset" arbitrary: offset count rule: less_induct)
  case less
  show ?case
  proof (cases "offset < data_end")
    case False
    then show ?thesis by (simp add: scan_loop.simps)
  next
    case True
    from scan_loop_round [OF True assms refl, of "file" count] show ?thesis
    proof (elim disjE exE conjE)
      fix header h offset'
      assume "chunk_decode_header header = Inr h"
        and o: "unat offset' = unat offset + chunk_header_total_len h"
        and eq: "scan_loop file data_end offset count = scan_loop file data_end offset' (count + 1)"
      then have "unat data_end - unat offset' < unat data_end - unat offset"
        using header_total_bounds(1) True by (fastforce simp: word_less_nat_alt)
      then show ?thesis using less eq by simp
    qed blast
  qed
qed

lemma read_exact_io_Inr:
  "read_exact_io file off n = Inr b \<longleftrightarrow> off + n \<le> length file \<and> b = slice off (off + n) file"
  by (auto simp: read_exact_io_def read_exact_at_def)

lemma decode_header_at:
  assumes "read_exact_io file off 19 = Inr header" "off + 19 \<le> k" "k \<le> length file"
  shows "chunk_decode_header (slice off k file) = chunk_decode_header header"
proof -
  have "take 19 (slice off k file) = header"
    using assms by (simp add: read_exact_io_Inr slice_def min_def)
  moreover have "19 \<le> length (slice off k file)" using assms by simp
  ultimately show ?thesis
    using chunk_decode_header_prefix [of "slice off k file"] by (simp add: chunk_consts)
qed

lemma scan_loop_sound:
  assumes "scan_loop file data_end offset count = Some (Inr (o', c))" "offset \<le> data_end"
    and "unat data_end \<le> length file" "unat data_end < 2 ^ 63"
  shows "o' = data_end \<and> (\<exists>recs. slice (unat offset) (unat data_end) file = concat recs
    \<and> (\<forall>r \<in> set recs. chunk_framed r) \<and> c = count + word_of_nat (length recs))"
  using assms
proof (induction "unat data_end - unat offset" arbitrary: offset count rule: less_induct)
  case less
  show ?case
  proof (cases "offset < data_end")
    case False
    then have "offset = data_end" using less(3) by simp
    then show ?thesis
      using less(2) by (auto simp: scan_loop.simps slice_def intro!: exI [of _ "[]"])
  next
    case True
    from scan_loop_round [OF True less(5) less(2)] obtain header h offset' where
      rd: "read_exact_io file (unat offset) 19 = Inr header" and h: "chunk_decode_header header = Inr h"
      and o: "unat offset' = unat offset + chunk_header_total_len h" "offset' \<le> data_end"
      and eq: "scan_loop file data_end offset' (count + 1) = Some (Inr (o', c))"
      by auto
    have b: "19 \<le> chunk_header_total_len h" by (rule header_total_bounds(1) [OF h])
    have le: "unat offset' \<le> unat data_end" using o(2) by (simp add: word_le_nat_alt)
    have "unat data_end - unat offset' < unat data_end - unat offset"
      using b o True by (simp add: word_less_nat_alt)
    from less(1) [OF this eq o(2) less(4,5)] obtain recs where
      ih: "o' = data_end" "slice (unat offset') (unat data_end) file = concat recs"
        "\<forall>r \<in> set recs. chunk_framed r" "c = count + 1 + word_of_nat (length recs)" by blast
    define rec where "rec = slice (unat offset) (unat offset') file"
    have "chunk_decode_header rec = Inr h"
      unfolding rec_def using decode_header_at [OF rd, of "unat offset'"] b o(1) le less(4) h by simp
    then have "chunk_framed rec"
      using o(1) le less(4) by (simp add: chunk_framed_def rec_def)
    moreover have "slice (unat offset) (unat data_end) file = rec @ concat recs"
      unfolding rec_def ih(2) [symmetric] using o(1) le by (simp add: slice_join)
    ultimately show ?thesis
      using ih by (intro conjI exI [of _ "rec # recs"]) simp_all
  qed
qed

lemma scan_loop_records:
  assumes "\<forall>r \<in> set recs. chunk_framed r" "unat offset = length pre"
    and "unat data_end = length pre + length (concat recs)" "unat data_end < 2 ^ 63"
  shows "scan_loop (pre @ concat recs @ post) data_end offset count
    = Some (Inr (data_end, count + word_of_nat (length recs)))"
  using assms
proof (induction recs arbitrary: pre offset count)
  case Nil
  then have "offset = data_end" by (simp add: word_unat_eq_iff)
  then show ?case by (simp add: scan_loop.simps)
next
  case (Cons r rs)
  define fl where "fl = pre @ concat (r # rs) @ post"
  have fr: "chunk_framed r" and b: "19 \<le> length r" "length r \<le> 4259875"
    using Cons.prems(1) chunk_framed_bounds by auto
  have lt: "unat offset < 2 ^ 63" using Cons.prems(2-4) by simp
  have o1: "unat (offset + 19) = unat offset + 19" using unat_add_small [OF lt, of 19] by simp
  have o2: "unat (offset + word_of_nat (length r)) = unat offset + length r"
    using b by (intro unat_add_small [OF lt]) simp
  obtain h where h: "chunk_decode_header r = Inr h" "chunk_header_total_len h = length r"
    using fr by (auto simp: chunk_framed_def split: sum.splits)
  have rd: "read_exact_io fl (unat offset) 19 = Inr (take 19 r)"
    using b Cons.prems(2) by (simp add: read_exact_io_Inr fl_def slice_def)
  have hd: "chunk_decode_header (take 19 r) = Inr h"
    using chunk_decode_header_prefix [of r] b h(1) by (simp add: chunk_consts)
  have "offset < data_end" "\<not> offset + 19 > data_end"
    "\<not> offset + word_of_nat (length r) > data_end"
    using Cons.prems(2,3) b o1 o2 by (auto simp: word_less_nat_alt)
  then have "scan_loop fl data_end offset count
      = scan_loop fl data_end (offset + word_of_nat (length r)) (count + 1)"
    using rd hd h(2) by (subst scan_loop.simps) (simp add: chunk_consts Let_def)
  also have "fl = (pre @ r) @ concat rs @ post" by (simp add: fl_def)
  also have "scan_loop ((pre @ r) @ concat rs @ post) data_end (offset + word_of_nat (length r)) (count + 1)
      = Some (Inr (data_end, count + 1 + word_of_nat (length rs)))"
    using Cons.prems o2 by (intro Cons.IH) simp_all
  finally show ?case by (simp add: fl_def add.assoc)
qed

section \<open>Chunk records and verification of a finished image\<close>

lemma read_chunk_bytes_at:
  assumes "ir_file r = pre @ mid @ post" "sb_size \<le> length pre"
    and "length pre + length mid \<le> unat (data_end_offset (ir_footer r))"
  shows "read_chunk_bytes r (word_of_nat (length pre)) (length mid) = Inr mid"
proof -
  have b: "length pre + length mid < 2 ^ 64" by (rule le_unat_u64 [OF assms(3)])
  have u: "unat (word_of_nat (length pre) :: u64) = length pre"
    "unat (word_of_nat (length mid) :: u64) = length mid"
    "unat (word_of_nat (length pre + length mid) :: u64) = length pre + length mid"
    using b by (simp_all only: unat_of_nat_u64 add_lessD1)
  have "checked_add_u64 (word_of_nat (length pre)) (word_of_nat (length mid))
      = Some (word_of_nat (length pre + length mid))"
    using u by (simp only: checked_add_u64_Some)
  moreover have "\<not> (word_of_nat (length pre) :: u64) < word_of_nat sb_size"
    using u(1) assms(2) by (simp add: word_less_nat_alt sb_size_def)
  moreover have "\<not> word_of_nat (length pre + length mid) > data_end_offset (ir_footer r)"
    using u(3) assms(3) by (simp only: word_less_nat_alt not_less)
  moreover have "read_exact_io (ir_file r) (length pre) (length mid) = Inr mid"
    by (simp add: read_exact_io_Inr assms(1) slice_def)
  ultimately show ?thesis using u(1) by (simp only: read_chunk_bytes_def option.case if_False simp_thms)
qed

lemma read_chunk_record_at:
  assumes "ir_file r = pre @ rec @ post" "sb_size \<le> length pre" "chunk_framed rec"
    and "length pre + length rec \<le> unat (data_end_offset (ir_footer r))"
  shows "read_chunk_record r (word_of_nat (length pre)) = Inr rec"
proof -
  have b: "19 \<le> length rec" using chunk_framed_bounds [OF assms(3)] by simp
  obtain h where h: "chunk_decode_header rec = Inr h" "chunk_header_total_len h = length rec"
    using assms(3) by (auto simp: chunk_framed_def split: sum.splits)
  have hd: "chunk_decode_header (take 19 rec) = Inr h"
    using chunk_decode_header_prefix [of rec] b h(1) by (simp add: chunk_consts)
  have "read_chunk_bytes r (word_of_nat (length pre)) (length (take 19 rec)) = Inr (take 19 rec)"
    using assms(1,2,4) b by (intro read_chunk_bytes_at [of _ _ _ "drop 19 rec @ post"]) simp_all
  moreover have "read_chunk_bytes r (word_of_nat (length pre)) (length rec) = Inr rec"
    by (rule read_chunk_bytes_at [OF assms(1,2,4)])
  ultimately show ?thesis
    using b hd h(2) by (simp add: read_chunk_record_def chunk_consts)
qed

lemma repeated_nonces_ascending:
  assumes "sorted_wrt (<) (map (\<lambda>e. page_nonce (entry_page data e)) es)"
    and "\<forall>e \<in> set es. entry_inside data e" "length data < 2 ^ 64"
    and "\<forall>n \<in> set seen. \<forall>e \<in> set es. nat_of_le (rev n) < page_nonce (entry_page data e)"
  shows "repeated_nonces data es seen = Inr False"
  using assms
proof (induction es arbitrary: seen)
  case (Cons e es)
  define o' where "o' = unat (pe_offset e)"
  have i: "o' + unat (pe_len e) + 34 \<le> length data"
    using Cons.prems(2) by (simp add: entry_inside_def page_consts o'_def)
  have "unat (pe_offset e + 6) = o' + 6"
    using i Cons.prems(3) by (simp add: unat_word_ariths o'_def)
  then have rd: "read_exact_io data (unat (pe_offset e + 6)) 12 = Inr (slice (o' + 6) (o' + 18) data)"
    using i by (simp add: read_exact_io_Inr add.assoc)
  have sl: "slice (o' + 6) (o' + 18) data = slice 6 18 (entry_page data e)"
    by (simp add: entry_page_def slice_def o'_def page_consts drop_take min_def add.commute)
  define n where "n = slice (o' + 6) (o' + 18) data"
  have nn: "nat_of_le (rev n) = page_nonce (entry_page data e)"
    by (simp add: n_def sl page_nonce_def page_consts)
  then have "n \<notin> set seen" using Cons.prems(4) by fastforce
  moreover have "repeated_nonces data es (n # seen) = Inr False"
    using Cons.prems nn by (intro Cons.IH) auto
  ultimately show ?case using rd by (simp add: page_consts n_def)
qed simp

lemma scan_finished:
  assumes "hash_ok P" "finished_image P key mk kind sbb recs pgs tpgs ft data"
    and "\<forall>r \<in> set recs. chunk_framed r" "ir_file r = data" "ir_footer r = ft"
  shows "scan_chunk_headers r = Some (Inr (word_of_nat (length recs)))"
proof -
  note f = finished_facts [OF assms(1,2)]
  have lb: "sb_size = length sbb" "unat (data_end_offset ft) = length sbb + length (concat recs)"
    using f(4,6) by (simp_all add: sb_size_def)
  have "unat (data_end_offset ft) < 2 ^ 63" using f(3,5,6) by simp
  moreover have "unat (word_of_nat sb_size :: u64) = length sbb" using f(4) by (simp add: sb_size_def)
  ultimately have "scan_loop (sbb @ concat recs @ concat (map snd (pgs @ tpgs))
      @ footer_image P ft (take superblock_copy_len sbb) mk) (data_end_offset ft) (word_of_nat sb_size) 0
    = Some (Inr (data_end_offset ft, 0 + word_of_nat (length recs)))"
    using lb by (intro scan_loop_records [OF assms(3)]) simp_all
  moreover have "data = sbb @ concat recs @ concat (map snd (pgs @ tpgs))
      @ footer_image P ft (take superblock_copy_len sbb) mk"
    using f(1) by (simp add: image_body_def)
  moreover have "total_chunks ft = word_of_nat (length recs)"
    using assms(2) by (simp add: finished_image_def)
  ultimately show ?thesis using assms(4,5) by (simp add: scan_chunk_headers_def)
qed

lemma chunk_of_finished:
  assumes "hash_ok P" "finished_image P key mk kind sbb recs pgs tpgs ft data"
    and "\<forall>r \<in> set recs. chunk_framed r" "ir_file r = data" "ir_footer r = ft" "i < length recs"
  shows "read_chunk_record r (word_of_nat (sb_size + length (concat (take i recs)))) = Inr (recs ! i)"
proof -
  note f = finished_facts [OF assms(1,2)]
  define pre where "pre = sbb @ concat (take i recs)"
  have recs: "recs = take i recs @ recs ! i # drop (Suc i) recs" using assms(6) by (simp add: id_take_nth_drop)
  then have cc: "concat recs = concat (take i recs) @ recs ! i @ concat (drop (Suc i) recs)"
    by (metis concat.simps(2) concat_append)
  have lp: "length pre = sb_size + length (concat (take i recs))"
    using f(4) by (simp add: pre_def sb_size_def)
  have "read_chunk_record r (word_of_nat (length pre)) = Inr (recs ! i)"
  proof (rule read_chunk_record_at)
    show "ir_file r = pre @ recs ! i @ concat (drop (Suc i) recs) @ concat (map snd (pgs @ tpgs))
        @ footer_image P ft (take superblock_copy_len sbb) mk"
      using f(1) assms(4) by (simp add: image_body_def pre_def cc)
    show "sb_size \<le> length pre" by (simp add: lp)
    show "chunk_framed (recs ! i)" using assms(3,6) by simp
    show "length pre + length (recs ! i) \<le> unat (data_end_offset (ir_footer r))"
      using f(6) assms(5) lp arg_cong [OF cc, of length] by simp
  qed
  then show ?thesis by (simp only: lp)
qed

lemma repeated_nonces_finished:
  assumes "hash_ok P" and fin: "finished_image P key mk kind sbb recs pgs tpgs ft data"
    and "pages_of PageTable pgs = []" "13 * length pgs \<le> max_page_table_bytes"
    and r: "ir_file r = data" "ir_file_len r = word_of_nat (length data)" "ir_footer r = ft"
  shows "has_repeated_page_nonces P r key kind = Inr False"
proof -
  note e = finished_entries [OF assms(1) fin]
  define all where "all = page_entries_at (sb_size + length (concat recs)) (pgs @ tpgs)"
  have "map (\<lambda>x. page_nonce (entry_page data x)) all = map page_nonce (map (entry_page data) all)"
    by simp
  also have "map (entry_page data) all = map snd (pgs @ tpgs)" using e(5) by (simp only: all_def)
  finally have "sorted_wrt (<) (map (\<lambda>x. page_nonce (entry_page data x)) all)"
    using fin by (simp add: finished_image_def comp_def)
  then have "repeated_nonces data all [] = Inr False"
    using e(2,4) by (intro repeated_nonces_ascending) (simp_all add: all_def)
  moreover have "table_of recs pgs @ entries_for ft PageTable = all"
  proof (cases "length pgs \<le> 120")
    case True
    then show ?thesis using fin assms(3)
      by (simp add: finished_image_def entries_for_def all_def table_of_def pe_streams_filter)
  next
    case False
    then show ?thesis using fin pe_streams [of tpgs PageTable]
      by (simp add: finished_image_def entries_for_def all_def table_of_def spilled_table_def
          page_entries_at_append filter_id_conv add.assoc)
  qed
  ultimately show ?thesis
    using reader_page_table_finished [OF assms] r by (simp add: has_repeated_page_nonces_def)
qed

end
