(* ===== verification/Retention.thy ===== *)
theory Retention
  imports Catalog Image_Reader
begin

text \<open>
  \<open>crates/lr-engine/src/retention.rs\<close>: deleting old backup chains of a set.

  Verifying a recovery point (\<open>verify_in_set\<close>) is the parameter \<open>verify\<close>: it returns the number of
  chunks the image records as unreadable.  The clock readings of a run are the sequence \<open>clock\<close>.
  The body of \<open>apply\<close> is split at its own comments: selecting usable chains, choosing what to keep
  and what to delete, the gate of fresh verification, and the deletion.
\<close>

record retention_options =
  ro_keep_chains :: nat
  ro_dry_run :: bool
  ro_break_stale_lock :: bool
  ro_verify_first :: bool

record deleted_chain =
  dc_chain_id :: string
  dc_files :: "string list"
  dc_bytes :: u64
  dc_reason :: string

record retention_report =
  rr_set :: string
  rr_kept :: "string list"
  rr_deleted :: "deleted_chain list"
  rr_dry_run :: bool
  rr_complete_chains :: u64
  rr_warnings :: "string list"

definition freed_bytes :: "retention_report \<Rightarrow> u64" where
  "freed_bytes r = sum_list (map dc_bytes (rr_deleted r))"

type_synonym 's verifier = "'s \<Rightarrow> string \<Rightarrow> u64 res"

definition ensure_complete_recovery :: "u64 \<Rightarrow> unit res" where
  "ensure_complete_recovery recorded_bad_chunks =
     (if recorded_bad_chunks \<noteq> 0 then Inl (Unsupported ''the image records '') else Inr ())"

definition verify_replacement :: "'s verifier \<Rightarrow> 's \<Rightarrow> chain_record \<Rightarrow> unit res" where
  "verify_replacement verify s c =
     (case chain_latest_member c of
        None \<Rightarrow> Inl (Corrupt ''the recovery chain has no members'')
      | Some newest \<Rightarrow> res_bind (verify s (mr_file_name newest)) ensure_complete_recovery)"

definition is_verified :: "chain_record \<Rightarrow> bool" where
  "is_verified c \<longleftrightarrow> ch_members c \<noteq> [] \<and> list_all (\<lambda>m. mr_verified_unix m \<noteq> None) (ch_members c)"

definition damaged_member :: "prims \<Rightarrow> 's destination_ops \<Rightarrow> 's \<Rightarrow> chain_record \<Rightarrow> string option" where
  "damaged_member P D s c =
     map_option (\<lambda>m. mr_file_name m @ '': '')
       (find (\<lambda>m. \<not> is_ok (res_bind (d_open_ro D s (mr_file_name m)) (reader_open P))) (ch_members c))"

text \<open>The loop over \<open>usable\<close> with its index: \<open>front\<close> is the part before the index.\<close>

fun verify_newest ::
    "'s verifier \<Rightarrow> (nat \<Rightarrow> u64) \<Rightarrow> 's \<Rightarrow> nat \<Rightarrow> nat \<Rightarrow> chain_record list \<Rightarrow> chain_record list
     \<Rightarrow> catalog \<Rightarrow> string list \<Rightarrow> nat \<times> chain_record list \<times> catalog \<times> string list" where
  "verify_newest verify clock s keep_count passed front [] cat warnings = (passed, front, cat, warnings)"
| "verify_newest verify clock s keep_count passed front (c # cs) cat warnings =
     (if passed < keep_count then
        (case verify_replacement verify s c of
           Inr _ \<Rightarrow>
             (let cat = mark_verified (set (map mr_file_name (ch_members c))) (clock passed) cat;
                  c = (case catalog_chain cat (ch_chain_id c) of None \<Rightarrow> c | Some x \<Rightarrow> x)
              in verify_newest verify clock s keep_count (passed + 1) (front @ [c]) cs cat warnings)
         | Inl e \<Rightarrow>
             verify_newest verify clock s keep_count passed front cs cat
               (warnings @ [''chain '' @ to_uuid_string (ch_chain_id c) @ '' failed verification ('']))
      else (passed, front @ c # cs, cat, warnings))"

text \<open>Newest first; of chains created in the same second, the greater id first.\<close>

definition newest_first :: "chain_record list \<Rightarrow> chain_record list" where
  "newest_first cs =
     rev (sort_key (\<lambda>c. (ch_created_unix c, to_uuid_string (ch_chain_id c))) (rev cs))"

fun usable_chains ::
    "prims \<Rightarrow> 's destination_ops \<Rightarrow> 's \<Rightarrow> chain_record list \<Rightarrow> string list \<Rightarrow> chain_record list \<times> string list" where
  "usable_chains P D s [] warnings = ([], warnings)"
| "usable_chains P D s (c # cs) warnings =
     (case damaged_member P D s c of
        None \<Rightarrow> (let (usable, warnings) = usable_chains P D s cs warnings in (c # usable, warnings))
      | Some problem \<Rightarrow>
          usable_chains P D s cs
            (warnings @ [''chain '' @ to_uuid_string (ch_chain_id c) @ '' is damaged ('' @ problem]))"

record retention_selection =
  rs_catalog :: catalog
  rs_usable :: "chain_record list"
  rs_freshly_verified :: nat
  rs_warnings :: "string list"

definition retention_select ::
    "prims \<Rightarrow> 's destination_ops \<Rightarrow> 's verifier \<Rightarrow> (nat \<Rightarrow> u64) \<Rightarrow> retention_options \<Rightarrow> 's \<Rightarrow> catalog
     \<Rightarrow> retention_selection" where
  "retention_select P D verify clock options s cat =
     (let complete = newest_first (filter is_complete (cat_chains cat));
          warnings = (if complete = [] then [''the set has no complete chain; nothing to keep or delete''] else [])
            @ (if ro_keep_chains options = 0
                 then [''keep_chains is 0; the newest complete chain is kept anyway (spec J.3)''] else []);
          (usable, warnings) = usable_chains P D s complete warnings;
          keep_count = max (ro_keep_chains options) 1;
          (fresh, usable, cat, warnings) =
            (if ro_verify_first options then verify_newest verify clock s keep_count 0 [] usable cat warnings
             else (0, usable, cat, warnings))
      in \<lparr> rs_catalog = cat, rs_usable = usable, rs_freshly_verified = fresh, rs_warnings = warnings \<rparr>)"

definition kept_chains :: "nat \<Rightarrow> chain_record list \<Rightarrow> chain_record list" where
  "kept_chains keep_count usable =
     (let kept = take keep_count usable in
      if list_ex is_verified kept then kept
      else (case find is_verified (drop keep_count usable) of None \<Rightarrow> kept | Some c \<Rightarrow> kept @ [c]))"

definition doomed_chains :: "catalog \<Rightarrow> chain_record list \<Rightarrow> string list \<Rightarrow> (chain_record \<times> string) list" where
  "doomed_chains cat usable kept =
     (let newest_kept_created = (case usable of [] \<Rightarrow> 0 | c # _ \<Rightarrow> ch_created_unix c) in
      sort_key (\<lambda>(c, _). ch_created_unix c)
        (map (\<lambda>c. (c, ''beyond keep_chains''))
           (filter (\<lambda>c. to_uuid_string (ch_chain_id c) \<notin> set kept) usable)
         @ map (\<lambda>c. (c, ''incomplete''))
           (filter (\<lambda>c. \<not> is_complete c \<and> \<not> ch_created_unix c > newest_kept_created) (cat_chains cat))))"

definition newer_warnings :: "catalog \<Rightarrow> chain_record list \<Rightarrow> string list" where
  "newer_warnings cat usable =
     (let newest_kept_created = (case usable of [] \<Rightarrow> 0 | c # _ \<Rightarrow> ch_created_unix c) in
      map (\<lambda>c. ''chain '' @ to_uuid_string (ch_chain_id c)
                 @ '' is incomplete and newer than the newest complete chain; leaving it'')
        (filter (\<lambda>c. \<not> is_complete c \<and> ch_created_unix c > newest_kept_created) (cat_chains cat)))"

text \<open>The gate: one of the kept chains must pass verification now.\<close>

fun retention_gate :: "'s verifier \<Rightarrow> 's \<Rightarrow> chain_record list \<Rightarrow> string list \<Rightarrow> string list res" where
  "retention_gate verify s [] warnings =
     Inl (Unsupported ''retention refused: no retained recovery chain passed fresh verification; no images were deleted. Supply the correct keys or create and verify a healthy backup. '')"
| "retention_gate verify s (c # cs) warnings =
     (case verify_replacement verify s c of
        Inr _ \<Rightarrow> Inr warnings
      | Inl e \<Rightarrow> retention_gate verify s cs
          (warnings @ [''chain '' @ to_uuid_string (ch_chain_id c) @ '' cannot authorize retention: '']))"

fun delete_files :: "'s destination_ops \<Rightarrow> string list \<Rightarrow> 's \<Rightarrow> unit res \<times> 's" where
  "delete_files D [] s = (Inr (), s)"
| "delete_files D (f # fs) s =
     st_bind (d_verify_lease D s) (\<lambda>_ s.
     st_bind (d_delete D f s) (\<lambda>_ s. delete_files D fs s))"

fun delete_chains ::
    "'s destination_ops \<Rightarrow> bool \<Rightarrow> (chain_record \<times> string) list \<Rightarrow> catalog \<Rightarrow> 's
     \<Rightarrow> (deleted_chain list \<times> catalog) res \<times> 's" where
  "delete_chains D dry_run [] cat s = (Inr ([], cat), s)"
| "delete_chains D dry_run ((c, reason) # doomed) cat s =
     (let files = map mr_file_name (ch_members c);
          report = \<lparr> dc_chain_id = to_uuid_string (ch_chain_id c), dc_files = files,
                     dc_bytes = sum_list (map mr_size_bytes (ch_members c)), dc_reason = reason \<rparr> in
      st_bind (if dry_run then (Inr (), s) else delete_files D files s) (\<lambda>_ s.
        let cat = (if dry_run then cat
                   else cat\<lparr> cat_chains := filter (\<lambda>x. ch_chain_id x \<noteq> ch_chain_id c) (cat_chains cat) \<rparr>) in
        st_bind (delete_chains D dry_run doomed cat s) (\<lambda>(deleted, cat) s.
          (Inr (report # deleted, cat), s))))"

definition retention_apply ::
    "prims \<Rightarrow> (bytes \<Rightarrow> catalog option) \<Rightarrow> (catalog \<Rightarrow> bytes option) \<Rightarrow> 's destination_ops \<Rightarrow> 's verifier
     \<Rightarrow> (nat \<Rightarrow> u64) \<Rightarrow> u64 \<Rightarrow> u64 \<Rightarrow> string \<Rightarrow> retention_options \<Rightarrow> 's \<Rightarrow> retention_report res \<times> 's" where
  "retention_apply P from_json to_json D verify clock now finished set_name options s =
     st_bind (d_lock_set D (ro_break_stale_lock options) s) (\<lambda>_ s.
     st_bind (load P from_json D s set_name now, s) (\<lambda>l s.
       let sel = retention_select P D verify clock options s (ld_catalog l);
           usable = rs_usable sel;
           keep_count = max (ro_keep_chains options) 1;
           kept = kept_chains keep_count usable;
           kept_ids = map (\<lambda>c. to_uuid_string (ch_chain_id c)) kept;
           warnings = rs_warnings sel
             @ (if length kept > length (take keep_count usable)
                  then [''chain '' @ last kept_ids @ '' is kept as well: it is the newest verified chain''] else [])
             @ newer_warnings (rs_catalog sel) usable;
           doomed = doomed_chains (rs_catalog sel) usable kept_ids in
       st_bind (if doomed \<noteq> [] \<and> rs_freshly_verified sel = 0 then retention_gate verify s kept warnings
                else Inr warnings, s) (\<lambda>warnings s.
       st_bind (delete_chains D (ro_dry_run options) doomed (rs_catalog sel) s) (\<lambda>(deleted, cat) s.
       st_bind (if ro_dry_run options then (Inr (), s)
                else st_bind (d_verify_lease D s) (\<lambda>_ s.
                       write_catalog to_json D (cat\<lparr> cat_updated_unix := finished \<rparr>) s)) (\<lambda>_ s.
         (Inr \<lparr> rr_set = set_name, rr_kept = kept_ids, rr_deleted = deleted, rr_dry_run = ro_dry_run options,
                rr_complete_chains = word_of_nat (length usable), rr_warnings = warnings \<rparr>, s))))))"

definition may_extend_chain :: "chain_record option \<Rightarrow> u64 option \<Rightarrow> bool" where
  "may_extend_chain chain max_incrementals =
     (case max_incrementals of
        None \<Rightarrow> True
      | Some m \<Rightarrow>
          if \<not> m > 0 then True
          else (case chain of
              None \<Rightarrow> False
            | Some c \<Rightarrow> is_complete c
                \<and> word_of_nat (length (filter (\<lambda>m. mr_seq_in_chain m > 0) (ch_members c))) < m))"

definition validate_keep_chains :: "int \<Rightarrow> nat res" where
  "validate_keep_chains v =
     (if v < 0 then Inl (Unsupported ''keep_chains must not be negative (got '') else Inr (nat v))"

section \<open>What retention changes in a store\<close>

context destination
begin

lemma delete_files_files:
  "delete_files D fs s = (r, s') \<Longrightarrow> n \<notin> set fs \<Longrightarrow> files s' n = files s n"
proof (induction fs arbitrary: s)
  case (Cons f fs)
  obtain r1 s1 where l: "d_verify_lease D s = (r1, s1)" by (cases "d_verify_lease D s")
  obtain r2 s2 where d: "d_delete D f s1 = (r2, s2)" by (cases "d_delete D f s1")
  have f1: "files s1 n = files s n" using verify_lease [OF l] by simp
  have f2: "files s2 n = files s1 n"
    using d Cons.prems(2) delete_ok [of f s1 s2] delete_err [of f s1 _ s2] by (cases r2) auto
  show ?case
  proof (cases r1)
    case (Inl e)
    then show ?thesis using Cons.prems(1) f1 by (simp add: l)
  next
    case inr: (Inr u)
    show ?thesis
    proof (cases r2)
      case (Inl e)
      then show ?thesis using Cons.prems(1) f1 f2 by (simp add: l inr d)
    next
      case (Inr v)
      then have "delete_files D fs s2 = (r, s')" using Cons.prems(1) by (simp add: l inr d)
      then show ?thesis using Cons.IH [of s2] Cons.prems(2) f1 f2 by simp
    qed
  qed
qed simp

lemma delete_chains_dry: "delete_chains D True doomed cat s = (r, s') \<Longrightarrow> s' = s"
  by (induction doomed arbitrary: cat r) (auto simp: Let_def st_bind_def split: prod.splits sum.splits)

lemma delete_chains_files:
  "delete_chains D False doomed cat s = (r, s') \<Longrightarrow>
   \<forall>c \<in> fst ` set doomed. n \<notin> mr_file_name ` set (ch_members c) \<Longrightarrow> files s' n = files s n"
proof (induction doomed arbitrary: cat s r s')
  case (Cons x doomed)
  obtain c reason where x: "x = (c, reason)" by (cases x)
  obtain r1 s1 where d: "delete_files D (map mr_file_name (ch_members c)) s = (r1, s1)"
    by (cases "delete_files D (map mr_file_name (ch_members c)) s")
  have f1: "files s1 n = files s n"
    using delete_files_files [OF d] Cons.prems(2) by (simp add: x)
  show ?case
  proof (cases r1)
    case (Inl e)
    then show ?thesis using Cons.prems(1) f1 by (simp add: x d)
  next
    case (Inr u)
    define cat' where "cat' = cat\<lparr> cat_chains := filter (\<lambda>x. ch_chain_id x \<noteq> ch_chain_id c) (cat_chains cat) \<rparr>"
    obtain r2 s2 where d2: "delete_chains D False doomed cat' s1 = (r2, s2)"
      by (cases "delete_chains D False doomed cat' s1")
    have "files s2 n = files s1 n" using Cons.IH [OF d2] Cons.prems(2) by simp
    then show ?thesis
      using Cons.prems(1) f1 d2 by (cases r2) (auto simp: x d Inr Let_def cat'_def [symmetric])
  qed
qed simp

lemma write_catalog_files:
  assumes "write_catalog to_json D cat s = (r, s')" "\<not> ends_with tmp_suffix n" "n \<noteq> catalog_file"
  shows "files s' n = files s n"
proof (cases "to_json cat")
  case (Some b)
  obtain rt s1 where t: "d_create_tmp D catalog_file s = (rt, s1)" by (cases "d_create_tmp D catalog_file s")
  show ?thesis
  proof (cases rt)
    case (Inl e)
    then show ?thesis using assms(1) create_tmp_err [of catalog_file s e s1] t by (simp add: write_catalog_def Some)
  next
    case (Inr tmp)
    have tmp: "ends_with tmp_suffix tmp" "files s1 = (files s)(tmp \<mapsto> [])"
      using create_tmp_ok [of catalog_file s tmp s1] t Inr by auto
    then have ne: "n \<noteq> tmp" using assms(2) by auto
    obtain rw s2 where w: "d_write_tmp D tmp b s1 = (rw, s2)" by (cases "d_write_tmp D tmp b s1")
    have f2: "files s2 n = files s n" using write_tmp [OF w, of n] ne tmp(2) by auto
    obtain rr s3 where p: "d_replace D tmp catalog_file s2 = (rr, s3)" by (cases "d_replace D tmp catalog_file s2")
    have f3: "files s3 n = files s2 n"
      using p ne assms(3) replace_ok [of tmp catalog_file s2 _ s3] replace_err [of tmp catalog_file s2 _ s3]
      by (cases rr) fastforce+
    have del: "files (snd (d_delete D tmp x)) n = files x n" for x
      using ne delete_ok [of tmp x] delete_err [of tmp x] by (cases "d_delete D tmp x"; cases "fst (d_delete D tmp x)") auto
    show ?thesis
      using assms(1) f2 f3 del [of s2] del [of s3]
      by (cases rw; cases rr) (auto simp: write_catalog_def Some t Inr w p)
  qed
qed (use assms(1) in \<open>simp add: write_catalog_def\<close>)

end

section \<open>Verification stamps\<close>

text \<open>Two records of a chain that differ in verification times only.\<close>

definition unstamp_member :: "member_record \<Rightarrow> member_record" where
  "unstamp_member m = m\<lparr> mr_verified_unix := None \<rparr>"

definition unstamp :: "chain_record \<Rightarrow> chain_record" where
  "unstamp c = c\<lparr> ch_members := map unstamp_member (ch_members c) \<rparr>"

lemma unstamp_member_simps [simp]:
  "mr_file_name (unstamp_member m) = mr_file_name m" "mr_seq_in_chain (unstamp_member m) = mr_seq_in_chain m"
  "mr_kind (unstamp_member m) = mr_kind m"
  by (simp_all add: unstamp_member_def)

lemma unstamp_simps [simp]:
  "ch_chain_id (unstamp c) = ch_chain_id c" "ch_created_unix (unstamp c) = ch_created_unix c"
  "ch_members (unstamp c) = map unstamp_member (ch_members c)"
  by (simp_all add: unstamp_def)

lemma find_map: "find P (map f xs) = map_option f (find (P \<circ> f) xs)"
  by (induction xs) auto

lemma max_by_key_map: "max_by_key k (map f xs) = map_option f (max_by_key (k \<circ> f) xs)"
  by (induction xs) (auto split: option.splits)

lemma is_complete_unstamp: "is_complete (unstamp c) = is_complete c"
  unfolding is_complete_alt by (auto simp: find_map comp_def)

lemma latest_unstamp: "chain_latest_member (unstamp c) = map_option unstamp_member (chain_latest_member c)"
  by (simp add: chain_latest_member_def max_by_key_map comp_def)

lemma verify_replacement_unstamp: "verify_replacement verify s (unstamp c) = verify_replacement verify s c"
  by (simp add: verify_replacement_def latest_unstamp split: option.split)

lemma damaged_member_unstamp: "damaged_member P D s (unstamp c) = damaged_member P D s c"
  by (simp add: damaged_member_def find_map comp_def option.map_comp)

lemma file_names_unstamp:
  "unstamp c = unstamp c' \<Longrightarrow> mr_file_name ` set (ch_members c) = mr_file_name ` set (ch_members c')"
proof -
  assume "unstamp c = unstamp c'"
  then have "mr_file_name ` set (ch_members (unstamp c)) = mr_file_name ` set (ch_members (unstamp c'))" by simp
  then show ?thesis by (simp add: image_image)
qed

lemma mark_verified_unstamp: "map unstamp (cat_chains (mark_verified fs now cat)) = map unstamp (cat_chains cat)"
  by (auto simp: mark_verified_def unstamp_def unstamp_member_def)

section \<open>What is kept\<close>

lemma usable_chains_filter: "fst (usable_chains P D s cs w) = filter (\<lambda>c. damaged_member P D s c = None) cs"
  by (induction cs arbitrary: w) (auto split: option.splits prod.splits, (metis fst_conv)+)

lemma set_newest_first [simp]: "set (newest_first cs) = set cs"
  by (simp add: newest_first_def)

lemma catalog_chain_unstamp:
  assumes "distinct (map ch_chain_id cs)" "map unstamp (cat_chains cat) = map unstamp cs"
    and "unstamp c \<in> unstamp ` set cs" "catalog_chain cat (ch_chain_id c) = Some x"
  shows "unstamp x = unstamp c"
proof -
  have x: "x \<in> set (cat_chains cat)" "ch_chain_id x = ch_chain_id c" using catalog_chain_SomeD [OF assms(4)] by auto
  then have "unstamp x \<in> unstamp ` set cs" using assms(2) by (metis image_eqI list.set_map)
  then obtain a b where "a \<in> set cs" "unstamp x = unstamp a" "b \<in> set cs" "unstamp c = unstamp b"
    using assms(3) by auto
  moreover from this have "ch_chain_id a = ch_chain_id b" using x(2) by (metis unstamp_simps(1))
  ultimately show ?thesis using assms(1) by (metis distinct_map inj_onD)
qed

text \<open>
  Verifying the newest chains: every chain that is kept as usable is a chain of the catalog up to
  stamps, and the first \<open>passed\<close> of them have just been verified.
\<close>

lemma verify_newest_sound:
  assumes "verify_newest verify clock s keep passed front cs cat w = (passed', usable, cat', w')"
    and "distinct (map ch_chain_id all)" "map unstamp (cat_chains cat) = map unstamp all"
    and "unstamp ` set (front @ cs) \<subseteq> unstamp ` set all"
    and "length front = passed" "passed \<le> keep" "\<forall>c \<in> set front. verify_replacement verify s c = Inr ()"
  shows "map unstamp (cat_chains cat') = map unstamp all \<and> unstamp ` set usable \<subseteq> unstamp ` set (front @ cs)
    \<and> passed' \<le> keep \<and> passed' \<le> length usable
    \<and> (\<forall>c \<in> set (take passed' usable). verify_replacement verify s c = Inr ())"
  using assms(1,3-)
proof (induction cs arbitrary: passed front cat w)
  case Nil
  then show ?case by auto
next
  case (Cons c cs)
  show ?case
  proof (cases "passed < keep")
    case False
    then show ?thesis using Cons.prems by auto
  next
    case True
    show ?thesis
    proof (cases "verify_replacement verify s c")
      case (Inl e)
      then have "verify_newest verify clock s keep passed front cs cat
          (w @ [''chain '' @ to_uuid_string (ch_chain_id c) @ '' failed verification ('']) = (passed', usable, cat', w')"
        using Cons.prems(1) True by simp
      from Cons.IH [OF this Cons.prems(2) _ Cons.prems(4-6)] Cons.prems(3) show ?thesis by auto
    next
      case (Inr u)
      define cat1 where "cat1 = mark_verified (set (map mr_file_name (ch_members c))) (clock passed) cat"
      define c1 where "c1 = (case catalog_chain cat1 (ch_chain_id c) of None \<Rightarrow> c | Some x \<Rightarrow> x)"
      have m: "map unstamp (cat_chains cat1) = map unstamp all"
        by (simp only: cat1_def mark_verified_unstamp Cons.prems(2))
      have u: "unstamp c1 = unstamp c"
      proof (cases "catalog_chain cat1 (ch_chain_id c)")
        case (Some x)
        have "unstamp c \<in> unstamp ` set all" using Cons.prems(3) by simp
        then show ?thesis using catalog_chain_unstamp [OF assms(2) m _ Some] by (simp add: c1_def Some)
      qed (simp add: c1_def)
      have v: "verify_replacement verify s c1 = Inr ()"
        using Inr verify_replacement_unstamp [of verify s c1] verify_replacement_unstamp [of verify s c] by (simp add: u)
      have run: "verify_newest verify clock s keep (passed + 1) (front @ [c1]) cs cat1 w = (passed', usable, cat', w')"
        using Cons.prems(1) True Inr by (simp add: Let_def cat1_def c1_def del: list.set_map set_map)
      have same: "unstamp ` set ((front @ [c1]) @ cs) = unstamp ` set (front @ c # cs)" using u by simp
      have sub: "unstamp ` set ((front @ [c1]) @ cs) \<subseteq> unstamp ` set all"
        unfolding same by (rule Cons.prems(3))
      have "length (front @ [c1]) = passed + 1" "passed + 1 \<le> keep"
        "\<forall>x \<in> set (front @ [c1]). verify_replacement verify s x = Inr ()"
        using Cons.prems(4,6) v True by simp_all
      from Cons.IH [OF run m sub this] show ?thesis unfolding same .
    qed
  qed
qed

lemma retention_select_sound:
  assumes "distinct (map ch_chain_id (cat_chains cat))" "sel = retention_select P D verify clock options s cat"
  shows "map unstamp (cat_chains (rs_catalog sel)) = map unstamp (cat_chains cat)"
    and "\<forall>c \<in> set (rs_usable sel). is_complete c \<and> damaged_member P D s c = None \<and> unstamp c \<in> unstamp ` set (cat_chains cat)"
    and "0 < rs_freshly_verified sel \<Longrightarrow>
      \<exists>c \<in> set (take (max (ro_keep_chains options) 1) (rs_usable sel)). verify_replacement verify s c = Inr ()"
proof -
  define complete where "complete = newest_first (filter is_complete (cat_chains cat))"
  define w where "w = (if complete = [] then [''the set has no complete chain; nothing to keep or delete''] else [])
            @ (if ro_keep_chains options = 0
                 then [''keep_chains is 0; the newest complete chain is kept anyway (spec J.3)''] else [])"
  obtain us w1 where us: "usable_chains P D s complete w = (us, w1)" by (cases "usable_chains P D s complete w")
  define keep where "keep = max (ro_keep_chains options) 1"
  have us_set: "set us = {c \<in> set (cat_chains cat). is_complete c \<and> damaged_member P D s c = None}"
  proof -
    have "us = filter (\<lambda>c. damaged_member P D s c = None) complete"
      using usable_chains_filter [of P D s complete w] by (simp add: us)
    then show ?thesis by (auto simp: complete_def)
  qed
  have inv: "is_complete c \<and> damaged_member P D s c = None"
    if "unstamp c \<in> unstamp ` set us" for c
  proof -
    obtain y where "y \<in> set us" "unstamp c = unstamp y" using \<open>unstamp c \<in> unstamp ` set us\<close> by blast
    then show ?thesis
      using us_set is_complete_unstamp [of c] is_complete_unstamp [of y]
        damaged_member_unstamp [of P D s c] damaged_member_unstamp [of P D s y] by simp
  qed
  obtain passed usable cat' w' where v: "verify_newest verify clock s keep 0 [] us cat w1 = (passed, usable, cat', w')"
    by (metis prod_cases4)
  have vs: "map unstamp (cat_chains cat') = map unstamp (cat_chains cat) \<and> unstamp ` set usable \<subseteq> unstamp ` set us
    \<and> passed \<le> keep \<and> passed \<le> length usable
    \<and> (\<forall>c \<in> set (take passed usable). verify_replacement verify s c = Inr ())"
    using verify_newest_sound [OF v assms(1) refl] us_set by auto
  have sel: "sel = (if ro_verify_first options
      then \<lparr> rs_catalog = cat', rs_usable = usable, rs_freshly_verified = passed, rs_warnings = w' \<rparr>
      else \<lparr> rs_catalog = cat, rs_usable = us, rs_freshly_verified = 0, rs_warnings = w1 \<rparr>)"
    unfolding assms(2) retention_select_def Let_def complete_def [symmetric] w_def [symmetric] keep_def [symmetric] us
    by (simp add: v)
  show "map unstamp (cat_chains (rs_catalog sel)) = map unstamp (cat_chains cat)" using vs by (simp add: sel)
  have sub: "unstamp ` set (rs_usable sel) \<subseteq> unstamp ` set us" using vs by (simp add: sel)
  then show "\<forall>c \<in> set (rs_usable sel). is_complete c \<and> damaged_member P D s c = None \<and> unstamp c \<in> unstamp ` set (cat_chains cat)"
    using inv us_set by blast
  assume fresh: "0 < rs_freshly_verified sel"
  then have r: "rs_usable sel = usable" "0 < passed" by (auto simp: sel split: if_splits)
  then have "usable ! 0 \<in> set (take passed usable)" "usable ! 0 \<in> set (take keep usable)"
    using vs by (auto simp: in_set_conv_nth intro!: exI [of _ 0])
  then show "\<exists>c \<in> set (take (max (ro_keep_chains options) 1) (rs_usable sel)). verify_replacement verify s c = Inr ()"
    using vs r(1) by (auto simp: keep_def)
qed

lemma kept_chains_take: "set (take keep usable) \<subseteq> set (kept_chains keep usable)"
  by (auto simp: kept_chains_def Let_def split: option.split)

lemma kept_chains_usable: "set (kept_chains keep usable) \<subseteq> set usable"
  by (auto simp: kept_chains_def Let_def dest!: find_Some_mem in_set_dropD in_set_takeD split: option.splits if_splits)

lemma retention_gate_Inr:
  "retention_gate verify s cs w = Inr w' \<Longrightarrow> \<exists>c \<in> set cs. verify_replacement verify s c = Inr ()"
  by (induction cs arbitrary: w) (auto split: sum.splits)

lemma doomed_cases:
  assumes "d \<in> fst ` set (doomed_chains cat usable kept)"
  shows "d \<in> set usable \<and> to_uuid_string (ch_chain_id d) \<notin> set kept \<or> d \<in> set (cat_chains cat) \<and> \<not> is_complete d"
  using assms by (auto simp: doomed_chains_def Let_def)

lemma image_not_internal: "is_image n \<Longrightarrow> n \<noteq> catalog_file \<and> \<not> ends_with tmp_suffix n"
  by (auto simp: is_image_def tmp_suffix_def catalog_file_def ends_with_def)

section \<open>A whole run\<close>

context destination
begin

lemma finish_files:
  assumes "(if dry then (Inr (), s) else st_bind (d_verify_lease D s) (\<lambda>_ s. write_catalog to_json D cat s)) = (r, s')"
    and "is_image n"
  shows "files s' n = files s n"
proof (cases dry)
  case False
  obtain r1 s1 where l: "d_verify_lease D s = (r1, s1)" by (cases "d_verify_lease D s")
  have "files s1 n = files s n" using verify_lease [OF l] by simp
  then show ?thesis
    using assms False l write_catalog_files image_not_internal [OF assms(2)] by (cases r1) fastforce+
qed (use assms(1) in simp)

lemma retention_run:
  assumes run: "retention_apply P from_json to_json D verify clock now finished name options s = (r, s')"
    and lock: "d_lock_set D (ro_break_stale_lock options) s = (Inr u, s1)"
    and load: "load P from_json D s1 name now = Inr l"
    and sel: "sel = retention_select P D verify clock options s1 (ld_catalog l)"
    and kept: "kept = kept_chains (max (ro_keep_chains options) 1) (rs_usable sel)"
    and doomed: "doomed = doomed_chains (rs_catalog sel) (rs_usable sel) (map (\<lambda>c. to_uuid_string (ch_chain_id c)) kept)"
    and img: "is_image n" "files s' n \<noteq> files s n"
  shows "\<not> ro_dry_run options \<and> doomed \<noteq> []"
    and "rs_freshly_verified sel = 0 \<Longrightarrow> \<exists>k \<in> set kept. verify_replacement verify s1 k = Inr ()"
    and "is_image f \<Longrightarrow> \<forall>c \<in> fst ` set doomed. f \<notin> mr_file_name ` set (ch_members c) \<Longrightarrow> files s' f = files s f"
proof -
  define w where "w = rs_warnings sel
    @ (if length kept > length (take (max (ro_keep_chains options) 1) (rs_usable sel))
       then [''chain '' @ last (map (\<lambda>c. to_uuid_string (ch_chain_id c)) kept) @ '' is kept as well: it is the newest verified chain''] else [])
    @ newer_warnings (rs_catalog sel) (rs_usable sel)"
  define gate where "gate = (if doomed \<noteq> [] \<and> rs_freshly_verified sel = 0 then retention_gate verify s1 kept w else Inr w)"
  have f1: "files s1 = files s" by (rule lock_set [OF lock])
  obtain r2 s2 where del: "delete_chains D (ro_dry_run options) doomed (rs_catalog sel) s1 = (r2, s2)"
    by (cases "delete_chains D (ro_dry_run options) doomed (rs_catalog sel) s1")
  define fin where "fin cat = (if ro_dry_run options then (Inr (), s2)
    else st_bind (d_verify_lease D s2) (\<lambda>_ s. write_catalog to_json D (cat\<lparr> cat_updated_unix := finished \<rparr>) s))" for cat
  have body: "st_bind (gate, s1) (\<lambda>w' s. st_bind (r2, s2) (\<lambda>(deleted, cat) s. st_bind (fin cat) (\<lambda>_ s.
      (Inr \<lparr> rr_set = name, rr_kept = map (\<lambda>c. to_uuid_string (ch_chain_id c)) kept, rr_deleted = deleted,
         rr_dry_run = ro_dry_run options, rr_complete_chains = word_of_nat (length (rs_usable sel)), rr_warnings = w' \<rparr>, s)))) = (r, s')"
    using run
    unfolding retention_apply_def lock st_bind_simps load Let_def sel [symmetric] kept [symmetric] doomed [symmetric]
      w_def [symmetric] gate_def [symmetric]
    by (cases gate; cases r2) (simp_all add: del fin_def split_beta)
  obtain w' where g: "gate = Inr w'" using body img(2) f1 by (cases gate) auto
  have fin_files: "is_image f \<Longrightarrow> files s' f = files s2 f" for f
  proof (cases r2)
    case (Inl e)
    then show ?thesis using body g by auto
  next
    case (Inr x)
    obtain a cat where x: "x = (a, cat)" by (cases x)
    obtain r3 s3 where f: "fin cat = (r3, s3)" by (cases "fin cat")
    assume "is_image f"
    then have "files s3 f = files s2 f" using finish_files [of "ro_dry_run options" s2 to_json] f by (simp add: fin_def)
    moreover have "s' = s3" using body g Inr x f by (cases r3) auto
    ultimately show ?thesis by simp
  qed
  show dry: "\<not> ro_dry_run options \<and> doomed \<noteq> []"
  proof (rule ccontr)
    assume "\<not> ?thesis"
    then have "s2 = s1" using del delete_chains_dry by (cases "ro_dry_run options") auto
    then show False using fin_files [OF img(1)] f1 img(2) by simp
  qed
  show "rs_freshly_verified sel = 0 \<Longrightarrow> \<exists>k \<in> set kept. verify_replacement verify s1 k = Inr ()"
    using g dry retention_gate_Inr by (auto simp: gate_def)
  show "is_image f \<Longrightarrow> \<forall>c \<in> fst ` set doomed. f \<notin> mr_file_name ` set (ch_members c) \<Longrightarrow> files s' f = files s f"
    using fin_files delete_chains_files [of doomed "rs_catalog sel" s1 r2 s2] del dry f1 by simp
qed

text \<open>Two chains of one loaded catalog that share a file are the same chain.\<close>

lemma shared_file_same_chain:
  assumes "load P from_json D s name now = Inr l"
    and "c \<in> set (cat_chains (ld_catalog l))" "m \<in> set (ch_members c)"
    and "c' \<in> set (cat_chains (ld_catalog l))" "m' \<in> set (ch_members c')" "mr_file_name m = mr_file_name m'"
  shows "ch_chain_id c = ch_chain_id c'"
  using load_describes [OF assms(1-3)] load_describes [OF assms(1,4,5)] assms(6)
  by (auto simp: scanned_from_def describes_def same_member_def record_of_def Let_def)

lemma retention_survivor:
  assumes run: "retention_apply P from_json to_json D verify clock now finished name options s = (r, s')"
    and lock: "d_lock_set D (ro_break_stale_lock options) s = (Inr u, s1)"
    and load: "load P from_json D s1 name now = Inr l"
    and dist: "distinct (map ch_chain_id (cat_chains (ld_catalog l)))"
    and img: "is_image n" "files s' n \<noteq> files s n"
  shows "\<not> ro_dry_run options \<and> (\<exists>k \<in> set (cat_chains (ld_catalog l)). is_complete k
    \<and> damaged_member P D s1 k = None \<and> verify_replacement verify s1 k = Inr ()
    \<and> (\<forall>m \<in> set (ch_members k). files s' (mr_file_name m) = files s (mr_file_name m)))"
proof -
  define sel where "sel = retention_select P D verify clock options s1 (ld_catalog l)"
  define keep where "keep = max (ro_keep_chains options) 1"
  define kept where "kept = kept_chains keep (rs_usable sel)"
  define ids where "ids = map (\<lambda>c. to_uuid_string (ch_chain_id c)) kept"
  define doomed where "doomed = doomed_chains (rs_catalog sel) (rs_usable sel) ids"
  note rr = retention_run [OF run lock load sel_def kept_def [unfolded keep_def] doomed_def [unfolded ids_def] img]
  note ss = retention_select_sound [OF dist sel_def]
  have "\<exists>k \<in> set kept. verify_replacement verify s1 k = Inr ()"
    using rr(2) ss(3) kept_chains_take [of keep "rs_usable sel"] by (cases "rs_freshly_verified sel = 0") (auto simp: kept_def keep_def)
  then obtain k where k: "k \<in> set kept" "verify_replacement verify s1 k = Inr ()" by blast
  then have "k \<in> set (rs_usable sel)" using kept_chains_usable by (auto simp: kept_def)
  with ss(2) have kc: "is_complete k" "damaged_member P D s1 k = None" "unstamp k \<in> unstamp ` set (cat_chains (ld_catalog l))"
    by blast+
  then obtain K where K: "K \<in> set (cat_chains (ld_catalog l))" "unstamp k = unstamp K" by blast
  have up: "\<exists>x \<in> set (cat_chains (ld_catalog l)). unstamp d = unstamp x"
    if "d \<in> fst ` set doomed" for d
    using doomed_cases [OF that [unfolded doomed_def]] ss(2) ss(1) by (metis (no_types, lifting) image_iff list.set_map)
  have "files s' (mr_file_name m) = files s (mr_file_name m)" if m: "m \<in> set (ch_members K)" for m
  proof (rule rr(3))
    show "is_image (mr_file_name m)"
      using load_describes [OF load K(1) m] by (auto simp: scanned_from_def describes_def same_member_def record_of_def Let_def)
    show "\<forall>c \<in> fst ` set doomed. mr_file_name m \<notin> mr_file_name ` set (ch_members c)"
    proof
      fix d assume d: "d \<in> fst ` set doomed"
      from up [OF d] obtain x where x: "x \<in> set (cat_chains (ld_catalog l))" "unstamp d = unstamp x" by blast
      show "mr_file_name m \<notin> mr_file_name ` set (ch_members d)"
      proof
        assume "mr_file_name m \<in> mr_file_name ` set (ch_members d)"
        then obtain m' where "m' \<in> set (ch_members x)" "mr_file_name m = mr_file_name m'"
          using file_names_unstamp [OF x(2)] by auto
        then have id: "ch_chain_id K = ch_chain_id x" by (rule shared_file_same_chain [OF load K(1) m x(1)])
        then have "K = x" using dist K(1) x(1) by (metis distinct_map inj_onD)
        then have "unstamp d = unstamp k" using x(2) K(2) by simp
        then have "is_complete d" "ch_chain_id d = ch_chain_id k"
          using kc(1) is_complete_unstamp [of d] is_complete_unstamp [of k] unstamp_simps(1) [of d] unstamp_simps(1) [of k] by simp_all
        then show False using doomed_cases [OF d [unfolded doomed_def]] k(1) by (auto simp: ids_def)
      qed
    qed
  qed
  moreover have "is_complete K" "damaged_member P D s1 K = None" "verify_replacement verify s1 K = Inr ()"
    using kc(1,2) k(2) K(2) is_complete_unstamp [of k] is_complete_unstamp [of K] damaged_member_unstamp [of P D s1 k]
      damaged_member_unstamp [of P D s1 K] verify_replacement_unstamp [of verify s1 k] verify_replacement_unstamp [of verify s1 K]
    by simp_all
  ultimately show ?thesis using rr(1) K(1) by blast
qed

end

section \<open>Dry runs\<close>

definition deletion_of :: "chain_record \<times> string \<Rightarrow> deleted_chain" where
  "deletion_of x = \<lparr> dc_chain_id = to_uuid_string (ch_chain_id (fst x)), dc_files = map mr_file_name (ch_members (fst x)),
     dc_bytes = sum_list (map mr_size_bytes (ch_members (fst x))), dc_reason = snd x \<rparr>"

lemma delete_chains_report:
  "delete_chains D dry doomed cat s = (Inr (deleted, cat'), s') \<Longrightarrow> deleted = map deletion_of doomed"
proof (induction doomed arbitrary: cat s deleted)
  case (Cons x doomed)
  then show ?case
    by (cases x) (auto simp: Let_def deletion_of_def st_bind_def split: prod.splits sum.splits if_splits)
qed simp

lemma delete_chains_dry_run: "delete_chains D True doomed cat s = (Inr (map deletion_of doomed, cat), s)"
  by (induction doomed) (auto simp: deletion_of_def Let_def)

lemma retention_select_dry:
  "retention_select P D verify clock (options\<lparr> ro_dry_run := b \<rparr>) s cat = retention_select P D verify clock options s cat"
  by (simp add: retention_select_def)

section \<open>Properties\<close>


text \<open>C35. A dry run announces exactly what the real run does: when a run succeeds, the dry run on the
  same store succeeds, keeps the same chains, reports the same deletions with the same files, bytes
  and reasons, and changes no file.\<close>

theorem retention_dry_run_plan:
  assumes "retention_apply P from_json to_json local_destination verify clock now finished name options s = (Inr report, s')"
  shows "\<exists>report' s''. retention_apply P from_json to_json local_destination verify clock now finished name
        (options\<lparr> ro_dry_run := True \<rparr>) s = (Inr report', s'')
    \<and> rr_kept report' = rr_kept report \<and> rr_deleted report' = rr_deleted report
    \<and> local_files s'' = local_files s"
proof -
  let ?D = local_destination
  obtain rl s1 where lock: "d_lock_set ?D (ro_break_stale_lock options) s = (rl, s1)"
    by (cases "d_lock_set ?D (ro_break_stale_lock options) s")
  have "is_ok rl" using assms by (cases rl) (auto simp: retention_apply_def lock)
  then obtain u where rl: "rl = Inr u" by (cases rl) auto
  obtain l where load: "load P from_json ?D s1 name now = Inr l"
    using assms by (cases "load P from_json ?D s1 name now") (auto simp: retention_apply_def lock rl)
  define sel where "sel = retention_select P ?D verify clock options s1 (ld_catalog l)"
  define kept where "kept = kept_chains (max (ro_keep_chains options) 1) (rs_usable sel)"
  define ids where "ids = map (\<lambda>c. to_uuid_string (ch_chain_id c)) kept"
  define doomed where "doomed = doomed_chains (rs_catalog sel) (rs_usable sel) ids"
  define w where "w = rs_warnings sel
    @ (if length kept > length (take (max (ro_keep_chains options) 1) (rs_usable sel))
       then [''chain '' @ last ids @ '' is kept as well: it is the newest verified chain''] else [])
    @ newer_warnings (rs_catalog sel) (rs_usable sel)"
  define gate where "gate = (if doomed \<noteq> [] \<and> rs_freshly_verified sel = 0 then retention_gate verify s1 kept w else Inr w)"
  note folds = sel_def [symmetric] kept_def [symmetric] ids_def [symmetric] doomed_def [symmetric]
    w_def [symmetric] gate_def [symmetric]
  have run: "st_bind (gate, s1) (\<lambda>w s. st_bind (delete_chains ?D (ro_dry_run options) doomed (rs_catalog sel) s) (\<lambda>(deleted, cat) s.
       st_bind (if ro_dry_run options then (Inr (), s)
                else st_bind (d_verify_lease ?D s) (\<lambda>_ s. write_catalog to_json ?D (cat\<lparr> cat_updated_unix := finished \<rparr>) s)) (\<lambda>_ s.
         (Inr \<lparr> rr_set = name, rr_kept = ids, rr_deleted = deleted, rr_dry_run = ro_dry_run options,
                rr_complete_chains = word_of_nat (length (rs_usable sel)), rr_warnings = w \<rparr>, s)))) = (Inr report, s')"
    using assms unfolding retention_apply_def lock rl st_bind_simps load Let_def folds .
  obtain w' where g: "gate = Inr w'" using run by (cases gate) auto
  have rep: "rr_kept report = ids" "rr_deleted report = map deletion_of doomed"
    using run by (auto simp: g st_bind_eq split: if_splits dest!: delete_chains_report)
  have opts: "ro_break_stale_lock (options\<lparr> ro_dry_run := True \<rparr>) = ro_break_stale_lock options"
    "ro_keep_chains (options\<lparr> ro_dry_run := True \<rparr>) = ro_keep_chains options"
    "ro_dry_run (options\<lparr> ro_dry_run := True \<rparr>) = True"
    by simp_all
  have "retention_apply P from_json to_json ?D verify clock now finished name (options\<lparr> ro_dry_run := True \<rparr>) s
      = (Inr \<lparr> rr_set = name, rr_kept = ids, rr_deleted = map deletion_of doomed, rr_dry_run = True,
            rr_complete_chains = word_of_nat (length (rs_usable sel)), rr_warnings = w' \<rparr>, s1)"
    unfolding retention_apply_def opts lock rl st_bind_simps load Let_def retention_select_dry folds g
    by (simp add: delete_chains_dry_run)
  then show ?thesis using rep local.lock_set [OF lock] by simp
qed

section \<open>A set with one good and one broken chain\<close>

definition empty_footer :: footer where
  "empty_footer = \<lparr> total_chunks = 0, data_end_offset = 4096, page_table = [], footer_flags = 0 \<rparr>"

definition demo_image :: bytes where
  "demo_image = sb_image demo_prims demo_sb None
     @ footer_image demo_prims empty_footer (take superblock_copy_len (sb_image demo_prims demo_sb None)) None"

definition orphan_sb :: superblock where
  "orphan_sb = demo_sb\<lparr> seq_in_chain := 1, chain_id := replicate 16 9, created_unix := 5 \<rparr>"

definition two_chains :: local_store where
  "two_chains = \<lparr> ls_files = [(''a.lrimg'', demo_image), (''b.lrimg'', sb_image demo_prims orphan_sb None)],
     ls_unreadable = [], ls_ids = [replicate 16 7], ls_faults = [] \<rparr>"

definition keep_one :: retention_options where
  "keep_one = \<lparr> ro_keep_chains = 1, ro_dry_run = False, ro_break_stale_lock = False, ro_verify_first = False \<rparr>"

lemma orphan_sb_ok: "sb_wf orphan_sb" "validate_header orphan_sb = Inr ()"
  by (simp add: sb_wf_def orphan_sb_def demo_sb_def, code_simp)

lemma demo_image_finished:
  "finished_image demo_prims key None kind (sb_image demo_prims demo_sb None) [] [] [] empty_footer demo_image"
  by (simp add: finished_image_def demo_image_def image_body_def length_sb_image demo_sb_ok sink_limit_def empty_footer_def
      table_of_def sb_size_def)

lemma demo_image_opens: "is_ok (reader_open demo_prims demo_image)"
  using reader_open_finished(1) [OF hash_ok_demo demo_sb_ok demo_image_finished] by simp

lemma take_demo_image: "take sb_size demo_image = sb_image demo_prims demo_sb None" "sb_size \<le> length demo_image"
  by (simp_all add: demo_image_def length_sb_image demo_sb_ok sb_size_def)

definition two_members :: "scanned_member list" where
  "two_members =
     [\<lparr> sm_file_name = ''a.lrimg'', sm_superblock = demo_sb, sm_size_bytes = word_of_nat (length demo_image) \<rparr>,
      \<lparr> sm_file_name = ''b.lrimg'', sm_superblock = orphan_sb, sm_size_bytes = 4096 \<rparr>]"

lemma two_chains_open:
  "local_open_ro two_chains ''a.lrimg'' = Inr demo_image"
  "local_open_ro two_chains ''b.lrimg'' = Inr (sb_image demo_prims orphan_sb None)"
  by (simp_all add: two_chains_def local_open_ro_def local_entry_def normal_components_def)

lemma two_chains_scan:
  "scan_set demo_prims local_destination two_chains = Inr \<lparr> sc_members = two_members, sc_warnings = [] \<rparr>"
proof -
  have "local_list two_chains = Inr [''a.lrimg'', ''b.lrimg'']" by (simp add: local_list_def two_chains_def)
  moreover have "is_image ''a.lrimg''" "is_image ''b.lrimg''" by (simp_all add: is_image_def ends_with_def)
  moreover have "sb_is_encrypted demo_sb" "sb_is_encrypted orphan_sb"
    by (simp_all add: sb_is_encrypted_def orphan_sb_def demo_sb_def flag_encrypted_def)
  moreover have "\<not> length demo_image < sb_size" using take_demo_image(2) by simp
  ultimately show ?thesis
    by (simp add: scan_set_def local_destination_def two_chains_open take_demo_image(1) [unfolded sb_size_def]
        length_sb_image sb_size_def sb_decode_image demo_sb_ok orphan_sb_ok two_members_def Let_def)
qed

definition good_chain :: chain_record where
  "good_chain = chain_of two_members (chain_id demo_sb)"

definition orphan_chain :: chain_record where
  "orphan_chain = chain_of two_members (chain_id orphan_sb)"

lemma two_chains_members:
  "ch_members good_chain = [record_of (two_members ! 0)]" "ch_members orphan_chain = [record_of (two_members ! Suc 0)]"
  by (simp_all add: good_chain_def orphan_chain_def chain_of_def Let_def two_members_def orphan_sb_def demo_sb_def)

lemma replicate_16: "replicate 16 x = x # replicate 15 x"
  by (subst replicate_Suc [symmetric]) simp

lemma two_chains_catalog:
  "cat_chains (build_catalog name now \<lparr> sc_members = two_members, sc_warnings = [] \<rparr>) = [good_chain, orphan_chain]"
proof -
  have "chain_id demo_sb \<noteq> chain_id orphan_sb" "chain_id demo_sb \<le> chain_id orphan_sb"
    by (simp_all add: orphan_sb_def demo_sb_def replicate_16)
  then have "sort (remdups (map (\<lambda>m. chain_id (sm_superblock m)) two_members)) = [chain_id demo_sb, chain_id orphan_sb]"
    by (simp add: two_members_def)
  then show ?thesis by (simp add: build_chains good_chain_def orphan_chain_def)
qed

definition two_loaded :: loaded where
  "two_loaded = (let built = build_catalog ''s'' 9 \<lparr> sc_members = two_members, sc_warnings = [] \<rparr> in
     \<lparr> ld_catalog = built, ld_warnings = chain_warnings built, ld_rebuilt = True \<rparr>)"

lemma two_chains_load: "load demo_prims (\<lambda>_. None) local_destination two_chains ''s'' 9 = Inr two_loaded"
proof -
  have "read_cached (\<lambda>_. None) local_destination two_chains = Inr None"
    by (simp add: read_cached_def local_destination_def local_open_ro_def local_entry_def
        normal_components_def catalog_file_def two_chains_def)
  then show ?thesis by (simp add: load_def two_chains_scan Let_def two_loaded_def)
qed

lemma two_chains_facts:
  "is_complete good_chain" "\<not> is_complete orphan_chain"
  "ch_created_unix good_chain = 1800000000" "ch_created_unix orphan_chain = 5"
  "ch_chain_id good_chain \<noteq> ch_chain_id orphan_chain"
  "damaged_member demo_prims local_destination two_chains good_chain = None"
proof -
  have r: "mr_seq_in_chain (record_of (two_members ! 0)) = 0" "mr_kind (record_of (two_members ! 0)) = Full"
    "mr_seq_in_chain (record_of (two_members ! Suc 0)) = 1" "mr_file_name (record_of (two_members ! 0)) = ''a.lrimg''"
    by (simp_all add: two_members_def record_of_def Let_def member_kind_of_def orphan_sb_def demo_sb_def)
  show "is_complete good_chain" "\<not> is_complete orphan_chain"
    by (simp_all add: is_complete_alt two_chains_members r u32_index_def)
  show "ch_created_unix good_chain = 1800000000" "ch_created_unix orphan_chain = 5"
    by (simp_all add: good_chain_def orphan_chain_def chain_of_def Let_def two_members_def orphan_sb_def demo_sb_def)
  show "ch_chain_id good_chain \<noteq> ch_chain_id orphan_chain"
    by (simp add: good_chain_def orphan_chain_def orphan_sb_def demo_sb_def replicate_16)
  show "damaged_member demo_prims local_destination two_chains good_chain = None"
    by (simp add: damaged_member_def two_chains_members r local_destination_def two_chains_open demo_image_opens)
qed

lemma two_chains_select:
  "retention_select demo_prims local_destination (\<lambda>_ _. Inr 0) clock keep_one two_chains (ld_catalog two_loaded)
   = \<lparr> rs_catalog = ld_catalog two_loaded, rs_usable = [good_chain], rs_freshly_verified = 0, rs_warnings = [] \<rparr>"
  by (simp add: retention_select_def keep_one_def two_loaded_def Let_def two_chains_catalog two_chains_facts newest_first_def)

lemma two_chains_run:
  "\<exists>r s'. retention_apply demo_prims (\<lambda>_. None) (\<lambda>_. Some []) local_destination (\<lambda>_ _. Inr 0) clock 9 10 ''s'' keep_one two_chains
      = (Inr r, s') \<and> local_files s' ''b.lrimg'' = None"
proof -
  have lock: "d_lock_set local_destination b two_chains = (Inr (), two_chains)" for b
    by (simp add: local_destination_def local_lock_set_def io_call_def two_chains_def)
  have opts: "ro_keep_chains keep_one = Suc 0" "\<not> ro_dry_run keep_one" by (simp_all add: keep_one_def)
  have newer: "newer_warnings (ld_catalog two_loaded) [good_chain] = []"
    by (simp add: newer_warnings_def two_loaded_def Let_def two_chains_catalog two_chains_facts)
  have kept: "kept_chains (Suc 0) [good_chain] = [good_chain]" by (simp add: kept_chains_def Let_def)
  have doom: "doomed_chains (ld_catalog two_loaded) [good_chain] [to_uuid_string (ch_chain_id good_chain)]
      = [(orphan_chain, ''incomplete'')]"
    by (simp add: doomed_chains_def two_loaded_def Let_def two_chains_catalog two_chains_facts)
  have gate: "retention_gate (\<lambda>_ _. Inr 0) two_chains [good_chain] w = Inr w" for w
    by (simp add: verify_replacement_def chain_latest_member_def two_chains_members ensure_complete_recovery_def)
  define s2 where "s2 = two_chains\<lparr> ls_files := [(''a.lrimg'', demo_image)] \<rparr>"
  have b: "mr_file_name (record_of (two_members ! Suc 0)) = ''b.lrimg''" by (simp add: two_members_def record_of_def Let_def)
  have del: "delete_files local_destination [''b.lrimg''] two_chains = (Inr (), s2)"
    by (simp add: local_destination_def local_verify_lease_def local_delete_def io_call_def local_entry_def
        normal_components_def two_chains_def s2_def)
  have wr: "\<exists>s3. st_bind (d_verify_lease local_destination s2) (\<lambda>_ s. write_catalog (\<lambda>_. Some []) local_destination cat s)
      = (Inr (), s3) \<and> local_files s3 ''b.lrimg'' = None" for cat
  proof -
    have n: "temp_name catalog_file (replicate 16 7) = ''catalog.json.07070707-0707-0707-0707-070707070707.tmp''" by code_simp
    have e: "local_entry (temp_name catalog_file (replicate 16 7)) = Inr ()" "local_entry catalog_file = Inr ()"
      unfolding n by (simp_all add: local_entry_def normal_components_def catalog_file_def)
    have "temp_name catalog_file (replicate 16 7) \<noteq> ''a.lrimg''" "temp_name catalog_file (replicate 16 7) \<noteq> ''b.lrimg''"
      "catalog_file \<noteq> ''b.lrimg''" "catalog_file \<noteq> ''a.lrimg''" "temp_name catalog_file (replicate 16 7) \<noteq> catalog_file"
      unfolding n by (simp_all add: catalog_file_def)
    then show ?thesis
      by (simp add: write_catalog_def local_destination_def local_verify_lease_def local_create_tmp_def Let_def
          local_write_tmp_def local_publish_def io_call_def s2_def two_chains_def e)
  qed
  have body: "retention_apply demo_prims (\<lambda>_. None) (\<lambda>_. Some []) local_destination (\<lambda>_ _. Inr 0) clock 9 10 ''s'' keep_one two_chains
    = (let (rc, s) = delete_chains local_destination False [(orphan_chain, ''incomplete'')] (ld_catalog two_loaded) two_chains in
       st_bind (rc, s) (\<lambda>(deleted, cat) s.
         st_bind (st_bind (d_verify_lease local_destination s) (\<lambda>_ s. write_catalog (\<lambda>_. Some []) local_destination (cat\<lparr> cat_updated_unix := 10 \<rparr>) s))
          (\<lambda>_ s. (Inr \<lparr> rr_set = ''s'', rr_kept = [to_uuid_string (ch_chain_id good_chain)], rr_deleted = deleted, rr_dry_run = False,
             rr_complete_chains = 1, rr_warnings = [] \<rparr>, s))))"
    by (simp add: retention_apply_def lock two_chains_load Let_def two_chains_select kept doom gate opts newer
        del: delete_chains.simps retention_gate.simps split: prod.split)
  show ?thesis
    unfolding body
    using wr [of "ld_catalog two_loaded\<lparr> cat_chains := filter (\<lambda>x. ch_chain_id x \<noteq> ch_chain_id orphan_chain)
        (cat_chains (ld_catalog two_loaded)), cat_updated_unix := 10 \<rparr>"]
    by (auto simp: two_chains_members b del Let_def simp del: delete_files.simps)
qed


theorem retention_dry_run_plan_witness:
  "\<exists>report' s''. retention_apply demo_prims (\<lambda>_. None) (\<lambda>_. Some []) local_destination (\<lambda>_ _. Inr 0) (\<lambda>_. 9) 9 10 ''s''
      (keep_one\<lparr> ro_dry_run := True \<rparr>) two_chains = (Inr report', s'') \<and> local_files s'' = local_files two_chains"
  using two_chains_run [of "\<lambda>_. 9"] retention_dry_run_plan by metis

end
