(* ===== verification/Block_Manifest.thy ===== *)
theory Block_Manifest
  imports Page_Stream
begin

text \<open>
  \<open>crates/lr-format/src/manifest.rs\<close>: the block manifest of an image, the delta
  manifest of an incremental, and the section header of a stream image.

  A writer is the bytes it emits, an error where the format cannot hold the
  value; a reader works over any \<open>ByteSource\<close>, so its lemmas are proved in the
  locale \<open>byte_source\<close> and hold for slices and for page streams.
\<close>

section \<open>Constants\<close>

definition manifest_ver :: u16 where "manifest_ver = 1"
definition section_block_full :: u8 where "section_block_full = 1"
definition section_block_delta :: u8 where "section_block_delta = 2"
definition section_stream_subvol :: u8 where "section_stream_subvol = 3"
definition state_unused :: u8 where "state_unused = 0"
definition state_zero :: u8 where "state_zero = 1"
definition state_stored :: u8 where "state_stored = 2"
definition state_bad_sector :: u8 where "state_bad_sector = 3"
definition max_member :: u16 where "max_member = 0x3FFF"
definition entry_len :: nat where "entry_len = 46"

section \<open>The header of a block manifest\<close>

record block_manifest_header =
  bm_chunk_size :: u32
  bm_chunk_count :: u64
  bm_entry_count :: u64
  bm_used_extent_count :: u64
  bm_used_bytes :: u64
  bm_fs_type :: string
  bm_fs_uuid :: string
  bm_label :: string

definition block_header_write :: "block_manifest_header \<Rightarrow> bool \<Rightarrow> bytes res" where
  "block_header_write h delta =
     res_bind (put_u16_prefixed (bytes_of_string (bm_fs_type h))) (\<lambda>fs_type.
     res_bind (put_u16_prefixed (bytes_of_string (bm_fs_uuid h))) (\<lambda>fs_uuid.
     res_bind (put_u16_prefixed (bytes_of_string (bm_label h))) (\<lambda>label.
       Inr (put_u16 manifest_ver
         @ put_u8 (if delta then section_block_delta else section_block_full)
         @ put_u8 0 @ put_u32 (bm_chunk_size h) @ put_u64 (bm_chunk_count h)
         @ put_u64 (bm_entry_count h) @ put_u64 (bm_used_extent_count h) @ put_u64 (bm_used_bytes h)
         @ fs_type @ fs_uuid @ label @ put_u16 0))))"

definition block_header_read ::
    "(nat \<Rightarrow> ('s, bytes) reader) \<Rightarrow> ('s, block_manifest_header \<times> bool) reader" where
  "block_header_read rb =
     rd_bind (reader_u16 rb) (\<lambda>ver.
     rd_bind (rd_lift (fail_if (ver \<noteq> manifest_ver) (Corrupt ''manifest version ''))) (\<lambda>_.
     rd_bind (reader_u8 rb) (\<lambda>kind.
     rd_bind (rd_lift (if kind = section_block_full then Inr False
         else if kind = section_block_delta then Inr True
         else Inl (Corrupt ''expected a block manifest, got ''))) (\<lambda>delta.
     rd_bind (reader_u8 rb) (\<lambda>_.
     rd_bind (reader_u32 rb) (\<lambda>chunk_size.
     rd_bind (reader_u64 rb) (\<lambda>chunk_count.
     rd_bind (reader_u64 rb) (\<lambda>entry_count.
     rd_bind (reader_u64 rb) (\<lambda>used_extent_count.
     rd_bind (reader_u64 rb) (\<lambda>used_bytes.
     rd_bind (reader_u16_prefixed rb) (\<lambda>b1. rd_bind (rd_lift (utf8 b1 ''fs_type'')) (\<lambda>fs_type.
     rd_bind (reader_u16_prefixed rb) (\<lambda>b2. rd_bind (rd_lift (utf8 b2 ''fs_uuid'')) (\<lambda>fs_uuid.
     rd_bind (reader_u16_prefixed rb) (\<lambda>b3. rd_bind (rd_lift (utf8 b3 ''label'')) (\<lambda>label.
     rd_bind (reader_u16 rb) (\<lambda>_.
       rd_return (\<lparr> bm_chunk_size = chunk_size, bm_chunk_count = chunk_count,
                    bm_entry_count = entry_count, bm_used_extent_count = used_extent_count,
                    bm_used_bytes = used_bytes, bm_fs_type = fs_type, bm_fs_uuid = fs_uuid,
                    bm_label = label \<rparr>, delta))))))))))))))))))"

section \<open>Entries\<close>

record block_entry =
  be_state :: u8
  be_member :: u16
  be_hash :: bytes
  be_offset :: u64
  be_stored_len :: u32

definition entry_unused :: block_entry where
  "entry_unused = \<lparr> be_state = state_unused, be_member = 0, be_hash = replicate 32 0,
     be_offset = 0, be_stored_len = 0 \<rparr>"

definition entry_zero :: block_entry where
  "entry_zero = \<lparr> be_state = state_zero, be_member = 0, be_hash = replicate 32 0,
     be_offset = 0, be_stored_len = 0 \<rparr>"

definition entry_stored :: "u16 \<Rightarrow> bytes \<Rightarrow> u64 \<Rightarrow> u32 \<Rightarrow> block_entry res" where
  "entry_stored member hash offset stored_len =
     (if member > max_member then Inl (Unsupported ''chain member index '')
      else Inr \<lparr> be_state = state_stored, be_member = member, be_hash = hash, be_offset = offset,
                 be_stored_len = stored_len \<rparr>)"

definition entry_bad_sector :: "u64 \<Rightarrow> u32 \<Rightarrow> block_entry" where
  "entry_bad_sector offset len = \<lparr> be_state = state_bad_sector, be_member = 0,
     be_hash = replicate 32 0, be_offset = offset, be_stored_len = len \<rparr>"

definition entry_is_stored :: "block_entry \<Rightarrow> bool" where
  "entry_is_stored e \<longleftrightarrow> be_state e = state_stored"

definition entry_encode :: "block_entry \<Rightarrow> bytes res" where
  "entry_encode e =
     (if be_state e > state_bad_sector then Inl (Corrupt ''unknown chunk state '')
      else if be_member e > max_member then Inl (Corrupt ''member index '')
      else (let out = replicate entry_len 0;
                out = overwrite 0 (be_hash e) out;
                packed = (be_member e AND max_member) OR push_bit 14 (ucast (be_state e));
                out = overwrite 32 (u16_to_le_bytes packed) out;
                out = overwrite 34 (u64_to_le_bytes (be_offset e)) out
            in Inr (overwrite 42 (u32_to_le_bytes (be_stored_len e)) out)))"

definition entry_decode :: "bytes \<Rightarrow> block_entry res" where
  "entry_decode b =
     res_bind (slice_u16 (drop 32 b)) (\<lambda>packed.
       let state = ucast (drop_bit 14 packed) in
       if state > state_bad_sector then Inl (Corrupt ''unknown chunk state '')
       else res_bind (slice_u64 (drop 34 b)) (\<lambda>offset.
         res_bind (slice_u32 (drop 42 b)) (\<lambda>stored_len.
           Inr \<lparr> be_state = state, be_member = packed AND max_member, be_hash = take 32 b,
                 be_offset = offset, be_stored_len = stored_len \<rparr>)))"

definition entry_read :: "(nat \<Rightarrow> ('s, bytes) reader) \<Rightarrow> ('s, block_entry) reader" where
  "entry_read rb = rd_bind (reader_bytes rb entry_len) (\<lambda>b. rd_lift (entry_decode b))"

section \<open>Deltas\<close>

record delta_entry =
  de_chunk_no :: u64
  de_entry :: block_entry

definition delta_write :: "delta_entry \<Rightarrow> bytes res" where
  "delta_write d = res_bind (entry_encode (de_entry d)) (\<lambda>e. Inr (put_u64 (de_chunk_no d) @ e))"

definition delta_read :: "(nat \<Rightarrow> ('s, bytes) reader) \<Rightarrow> ('s, delta_entry) reader" where
  "delta_read rb =
     rd_bind (reader_u64 rb) (\<lambda>chunk_no. rd_bind (entry_read rb) (\<lambda>e.
       rd_return \<lparr> de_chunk_no = chunk_no, de_entry = e \<rparr>))"

datatype chunk_state =
    Unused
  | Zero
  | Stored (cs_member: u16) (cs_hash: bytes) (cs_offset: u64) (cs_stored_len: u32)
  | BadSectorState

definition chunk_state_from :: "block_entry \<Rightarrow> chunk_state" where
  "chunk_state_from e =
     (if be_state e = state_stored
        then Stored (be_member e) (be_hash e) (be_offset e) (be_stored_len e)
      else if be_state e = state_zero then Zero
      else if be_state e = state_bad_sector then BadSectorState
      else Unused)"

text \<open>The parent is updated in place, so an error leaves the entries before it applied.\<close>

fun apply_delta :: "chunk_state list \<Rightarrow> delta_entry list \<Rightarrow> unit res \<times> chunk_state list" where
  "apply_delta parent [] = (Inr (), parent)"
| "apply_delta parent (d # ds) =
     (let index = unat (de_chunk_no d) in
      if index \<ge> length parent then (Inl (Corrupt ''delta chunk ''), parent)
      else apply_delta (parent[index := chunk_state_from (de_entry d)]) ds)"

section \<open>Stream sections\<close>

record stream_section =
  ss_subvolid :: u64
  ss_send_stream_bytes :: u64
  ss_parent_snapshot_uuid :: "uuid option"
  ss_subvol_path :: string
  ss_entry_count :: u64

definition stream_section_write :: "stream_section \<Rightarrow> bytes res" where
  "stream_section_write s =
     res_bind (put_u16_prefixed (bytes_of_string (ss_subvol_path s))) (\<lambda>path.
       Inr (put_u16 manifest_ver @ put_u8 section_stream_subvol @ put_u8 0
         @ put_u64 (ss_subvolid s) @ put_u64 (ss_send_stream_bytes s) @ put_u64 (ss_entry_count s)
         @ (case ss_parent_snapshot_uuid s of
              Some i \<Rightarrow> put_u8 1 @ i | None \<Rightarrow> put_u8 0 @ replicate 16 0)
         @ path))"

definition stream_section_read :: "(nat \<Rightarrow> ('s, bytes) reader) \<Rightarrow> ('s, stream_section) reader" where
  "stream_section_read rb =
     rd_bind (reader_u16 rb) (\<lambda>ver.
     rd_bind (rd_lift (fail_if (ver \<noteq> manifest_ver) (Corrupt ''manifest version ''))) (\<lambda>_.
     rd_bind (reader_u8 rb) (\<lambda>kind.
     rd_bind (rd_lift (fail_if (kind \<noteq> section_stream_subvol)
         (Corrupt ''expected a stream section, got ''))) (\<lambda>_.
     rd_bind (reader_u8 rb) (\<lambda>_.
     rd_bind (reader_u64 rb) (\<lambda>subvolid.
     rd_bind (reader_u64 rb) (\<lambda>send_stream_bytes.
     rd_bind (reader_u64 rb) (\<lambda>entry_count.
     rd_bind (reader_u8 rb) (\<lambda>has_parent.
     rd_bind (reader_id rb) (\<lambda>parent.
     rd_bind (rd_lift (if has_parent = 0 then Inr None else if has_parent = 1 then Inr (Some parent)
         else Inl (Corrupt ''has_parent flag ''))) (\<lambda>parent_snapshot_uuid.
     rd_bind (reader_u16_prefixed rb) (\<lambda>b. rd_bind (rd_lift (utf8 b ''subvol_path'')) (\<lambda>subvol_path.
       rd_return \<lparr> ss_subvolid = subvolid, ss_send_stream_bytes = send_stream_bytes,
                   ss_parent_snapshot_uuid = parent_snapshot_uuid, ss_subvol_path = subvol_path,
                   ss_entry_count = entry_count \<rparr>)))))))))))))"

section \<open>Packing state and member into sixteen bits\<close>

lemma max_member_mask: "max_member = mask 14"
  by (simp add: max_member_def mask_eq_exp_minus_1)

lemma state_le_iff: "be_state e \<le> state_bad_sector \<longleftrightarrow> be_state e \<in> {0, 1, 2, 3}"
proof -
  have "s \<le> 3 \<longleftrightarrow> unat s \<le> 3" for s :: u8 by (simp add: word_le_nat_alt)
  moreover have "unat s \<le> 3 \<longleftrightarrow> unat s \<in> {0, 1, 2, 3}" for s :: u8 by auto
  moreover have "unat s \<in> {0, 1, 2, 3} \<longleftrightarrow> s \<in> {0, 1, 2, 3}" for s :: u8
    by (simp add: word_unat_eq_iff)
  ultimately show ?thesis by (simp add: state_bad_sector_def)
qed

lemma pack_unpack:
  fixes s :: u8 and m :: u16
  assumes "s \<in> {0, 1, 2, 3}" "m \<le> max_member"
  shows "ucast (drop_bit 14 ((m AND max_member) OR push_bit 14 (ucast s))) = s"
    and "((m AND max_member) OR push_bit 14 (ucast s)) AND max_member = m"
proof -
  have m: "m AND mask 14 = m"
  proof -
    have "unat m < 2 ^ 14" using assms(2) by (simp add: max_member_def word_le_nat_alt)
    then show ?thesis
      by (simp add: word_unat_eq_iff unsigned_take_bit_eq take_bit_nat_eq_self flip: take_bit_eq_mask)
  qed
  show "((m AND max_member) OR push_bit 14 (ucast s)) AND max_member = m"
  proof (rule bit_word_eqI)
    fix n assume "n < LENGTH(16)"
    have "bit m n = bit (m AND mask 14) n" by (simp only: m)
    then show "bit (((m AND max_member) OR push_bit 14 (ucast s)) AND max_member) n = bit m n"
      by (auto simp: max_member_mask bit_simps)
  qed
  have "take_bit 2 s = s" using assms(1) by auto
  then have s: "\<not> bit s n" if "2 \<le> n" for n
    using that by (metis bit_take_bit_iff not_less)
  show "ucast (drop_bit 14 ((m AND max_member) OR push_bit 14 (ucast s))) = s"
  proof (rule bit_word_eqI)
    fix n assume "n < LENGTH(8)"
    then show "bit (ucast (drop_bit 14 ((m AND max_member) OR push_bit 14 (ucast s))) :: u8) n = bit s n"
      using s [of n] by (cases "n < 2") (auto simp: max_member_mask bit_simps)
  qed
qed

lemma unpack_pack:
  fixes p :: u16
  shows "(ucast (drop_bit 14 p) :: u8) \<in> {0, 1, 2, 3}" and "p AND max_member \<le> max_member"
    and "((p AND max_member) AND max_member) OR push_bit 14 (ucast (ucast (drop_bit 14 p) :: u8)) = p"
proof -
  have d: "unat (drop_bit 14 p) < 4"
  proof -
    have "unat p div 16384 < 4" using unat_less_width(2) [of p] by (simp add: less_mult_imp_div_less)
    then show ?thesis by (simp add: drop_bit_eq_div unat_div_distrib)
  qed
  then have u: "unat (ucast (drop_bit 14 p) :: u8) = unat (drop_bit 14 p)"
    by (simp add: unsigned_ucast_eq take_bit_nat_eq_self)
  have "x \<in> {0, 1, 2, 3}" if "unat x < 4" for x :: u8
  proof -
    have "unat x \<in> {0, 1, 2, 3}" using that by auto
    then show ?thesis by (simp add: word_unat_eq_iff)
  qed
  then show "(ucast (drop_bit 14 p) :: u8) \<in> {0, 1, 2, 3}" using d u by simp
  show "p AND max_member \<le> max_member" by (rule word_and_le1)
  show "((p AND max_member) AND max_member) OR push_bit 14 (ucast (ucast (drop_bit 14 p) :: u8)) = p"
  proof (rule bit_word_eqI)
    fix n assume n: "n < LENGTH(16)"
    show "bit (((p AND max_member) AND max_member) OR push_bit 14 (ucast (ucast (drop_bit 14 p) :: u8))) n
        = bit p n"
    proof (cases "n < 14")
      case True
      then show ?thesis by (auto simp: max_member_mask bit_simps)
    next
      case False
      then have "14 + (n - 14) = n" "n - 14 < 8" using n by simp_all
      then show ?thesis using n False by (auto simp: max_member_mask bit_simps)
    qed
  qed
qed

section \<open>Entries\<close>

definition entry_wf :: "block_entry \<Rightarrow> bool" where
  "entry_wf e \<longleftrightarrow> be_state e \<le> state_bad_sector \<and> be_member e \<le> max_member \<and> length (be_hash e) = 32"

definition entry_layout :: "block_entry \<Rightarrow> bytes" where
  "entry_layout e = be_hash e
     @ u16_to_le_bytes ((be_member e AND max_member) OR push_bit 14 (ucast (be_state e)))
     @ u64_to_le_bytes (be_offset e) @ u32_to_le_bytes (be_stored_len e)"

lemma entry_encode_eq:
  assumes "entry_wf e"
  shows "entry_encode e = Inr (entry_layout e)"
proof -
  have "length (be_hash e) = 32" using assms by (simp add: entry_wf_def)
  then show ?thesis
    using assms
    by (simp add: entry_encode_def entry_wf_def Let_def entry_len_def entry_layout_def not_less
        overwrite_def)
qed

lemma length_entry_layout: "entry_wf e \<Longrightarrow> length (entry_layout e) = 46"
  by (simp add: entry_layout_def entry_wf_def)

lemma entry_decode_layout:
  assumes "entry_wf e"
  shows "entry_decode (entry_layout e) = Inr e"
proof -
  have h: "length (be_hash e) = 32" and s: "be_state e \<in> {0, 1, 2, 3}" and m: "be_member e \<le> max_member"
    using assms state_le_iff [of e] by (simp_all add: entry_wf_def)
  define packed where "packed = (be_member e AND max_member) OR push_bit 14 (ucast (be_state e))"
  have p: "ucast (drop_bit 14 packed) = be_state e" "packed AND max_member = be_member e"
    unfolding packed_def by (rule pack_unpack [OF s m])+
  have "\<not> be_state e > state_bad_sector" using assms by (simp add: entry_wf_def not_less)
  then show ?thesis
    using h by (simp add: entry_decode_def entry_layout_def packed_def [symmetric] p Let_def slice_u32_def)
qed

lemma entry_decode_Inr:
  assumes "length b = 46"
  shows "\<exists>e. entry_decode b = Inr e \<and> entry_wf e \<and> entry_layout e = b"
proof -
  define packed where "packed = u16_from_le_bytes (slice 32 34 b)"
  define off where "off = u64_from_le_bytes (slice 34 42 b)"
  define len where "len = u32_from_le_bytes (slice 42 46 b)"
  let ?e = "\<lparr> be_state = ucast (drop_bit 14 packed), be_member = packed AND max_member, be_hash = take 32 b,
    be_offset = off, be_stored_len = len \<rparr>"
  note u = unpack_pack [of packed]
  have st: "be_state ?e \<le> state_bad_sector" using u(1) state_le_iff [of ?e] by simp
  have "entry_wf ?e" using st u(2) assms by (simp add: entry_wf_def)
  moreover have "entry_decode b = Inr ?e"
    using assms st by (simp add: entry_decode_def slice_u16_def slice_u64_def slice_u32_def Let_def packed_def
        off_def len_def slice_def not_less)
  moreover have "entry_layout ?e = b"
  proof -
    have "entry_layout ?e = take 32 b @ slice 32 34 b @ slice 34 42 b @ slice 42 46 b"
      using assms u(3) by (simp add: entry_layout_def packed_def off_def len_def to_from_le_bytes)
    also have "take 32 b = slice 0 32 b" by (simp add: slice_def)
    also have "slice 0 32 b @ slice 32 34 b @ slice 34 42 b @ slice 42 46 b = slice 0 46 b"
      by (simp only: slice_join order_refl zero_le numeral_le_iff semiring_norm)
    finally show ?thesis using assms by (simp add: slice_def)
  qed
  ultimately show ?thesis by blast
qed

section \<open>Readers over any source\<close>

definition block_header_wf :: "block_manifest_header \<Rightarrow> bool" where
  "block_header_wf h \<longleftrightarrow> rust_string (bm_fs_type h) \<and> rust_string (bm_fs_uuid h) \<and> rust_string (bm_label h)"

definition stream_section_wf :: "stream_section \<Rightarrow> bool" where
  "stream_section_wf s \<longleftrightarrow> rust_string (ss_subvol_path s)
     \<and> (case ss_parent_snapshot_uuid s of Some i \<Rightarrow> uuid_wf i | None \<Rightarrow> True)"

context byte_source
begin

lemma src_u16_last: "decodes rem ok (f a) [] y \<Longrightarrow> decodes rem ok (rd_bind (reader_u16 rb) f) (put_u16 a) y"
  by (rule decodes_bind_last [OF src_ints(2)])

lemma src_u16_prefixed_last:
  "put_u16_prefixed bs = Inr e \<Longrightarrow> decodes rem ok (f bs) [] y \<Longrightarrow>
   decodes rem ok (rd_bind (reader_u16_prefixed rb) f) e y"
  by (rule decodes_bind_last [OF src_u16_prefixed])

lemma block_header_decodes:
  assumes "block_header_wf h" "block_header_write h delta = Inr bs"
  shows "decodes rem ok (block_header_read rb) bs (h, delta)"
proof -
  obtain a b c where abc: "put_u16_prefixed (bytes_of_string (bm_fs_type h)) = Inr a"
    "put_u16_prefixed (bytes_of_string (bm_fs_uuid h)) = Inr b"
    "put_u16_prefixed (bytes_of_string (bm_label h)) = Inr c"
    and bs: "bs = put_u16 manifest_ver
         @ put_u8 (if delta then section_block_delta else section_block_full)
         @ put_u8 0 @ put_u32 (bm_chunk_size h) @ put_u64 (bm_chunk_count h)
         @ put_u64 (bm_entry_count h) @ put_u64 (bm_used_extent_count h) @ put_u64 (bm_used_bytes h)
         @ a @ b @ c @ put_u16 0"
    using assms(2) by (auto simp: block_header_write_def res_bind_eq_Inr)
  have k: "(if (if delta then section_block_delta else section_block_full) = section_block_full then Inr False
      else if (if delta then section_block_delta else section_block_full) = section_block_delta then Inr True
      else Inl (Corrupt ''expected a block manifest, got '')) = (Inr delta :: bool res)"
    by (simp add: section_block_delta_def section_block_full_def)
  have u: "utf8 (bytes_of_string (bm_fs_type h)) w = Inr (bm_fs_type h)"
    "utf8 (bytes_of_string (bm_fs_uuid h)) w = Inr (bm_fs_uuid h)"
    "utf8 (bytes_of_string (bm_label h)) w = Inr (bm_label h)" for w
    using assms(1) by (simp_all add: block_header_wf_def)
  show ?thesis
    unfolding bs block_header_read_def
    apply (rule src_bind(2), rule decodes_bind_lift [where x = "()"], simp)
    apply (rule src_bind(1), rule decodes_bind_lift, rule k)
    apply (rule src_bind(1), rule src_bind(3), rule src_bind(4), rule src_bind(4), rule src_bind(4), rule src_bind(4))
    apply (rule src_bind_u16_prefixed, rule abc(1), rule decodes_bind_lift, rule u(1))
    apply (rule src_bind_u16_prefixed, rule abc(2), rule decodes_bind_lift, rule u(2))
    apply (rule src_bind_u16_prefixed, rule abc(3), rule decodes_bind_lift, rule u(3))
    apply (rule src_u16_last)
    by (rule decodes_return_eq) (cases h, simp)
qed

lemma entry_decodes:
  assumes "entry_wf e"
  shows "decodes rem ok (entry_read rb) (entry_layout e) e"
  unfolding entry_read_def reader_bytes_def
  by (rule decodes_bind_last [OF src_bytes])
    (simp_all add: length_entry_layout assms entry_len_def decodes_lift entry_decode_layout)

lemma delta_decodes:
  assumes "entry_wf (de_entry d)" "delta_write d = Inr bs"
  shows "decodes rem ok (delta_read rb) bs d"
proof -
  have bs: "bs = put_u64 (de_chunk_no d) @ entry_layout (de_entry d)"
    using assms by (simp add: delta_write_def entry_encode_eq)
  show ?thesis
    unfolding bs delta_read_def
    apply (rule src_bind(4), rule decodes_bind_last, rule entry_decodes [OF assms(1)])
    by (rule decodes_return_eq) (cases d, simp)
qed

lemma stream_section_decodes:
  assumes "stream_section_wf s" "stream_section_write s = Inr bs"
  shows "decodes rem ok (stream_section_read rb) bs s"
proof -
  define flag :: u8 where "flag = (case ss_parent_snapshot_uuid s of Some i \<Rightarrow> 1 | None \<Rightarrow> 0)"
  define pid where "pid = (case ss_parent_snapshot_uuid s of Some i \<Rightarrow> i | None \<Rightarrow> replicate 16 0)"
  obtain a where a: "put_u16_prefixed (bytes_of_string (ss_subvol_path s)) = Inr a"
    and bs: "bs = put_u16 manifest_ver @ put_u8 section_stream_subvol @ put_u8 0
         @ put_u64 (ss_subvolid s) @ put_u64 (ss_send_stream_bytes s) @ put_u64 (ss_entry_count s)
         @ put_u8 flag @ pid @ a"
    using assms(2)
    by (auto simp: stream_section_write_def res_bind_eq_Inr flag_def pid_def split: option.splits)
  have p: "uuid_wf pid"
    using assms(1) by (auto simp: stream_section_wf_def pid_def uuid_wf_def split: option.splits)
  have k: "(if flag = 0 then Inr None else if flag = 1 then Inr (Some pid)
      else Inl (Corrupt ''has_parent flag '')) = (Inr (ss_parent_snapshot_uuid s) :: uuid option res)"
    by (simp add: flag_def pid_def split: option.splits)
  have u: "utf8 (bytes_of_string (ss_subvol_path s)) w = Inr (ss_subvol_path s)" for w
    using assms(1) by (simp add: stream_section_wf_def)
  show ?thesis
    unfolding bs stream_section_read_def
    apply (rule src_bind(2), rule decodes_bind_lift [where x = "()"], simp)
    apply (rule src_bind(1), rule decodes_bind_lift [where x = "()"], simp)
    apply (rule src_bind(1), rule src_bind(4), rule src_bind(4), rule src_bind(4), rule src_bind(1))
    apply (rule src_bind(5), rule p, rule decodes_bind_lift, rule k)
    apply (rule src_u16_prefixed_last, rule a, rule decodes_bind_lift, rule u)
    by (rule decodes_return_eq) (cases s, simp)
qed

end

section \<open>Applying a delta\<close>

text \<open>The specification: the last delta entry of a chunk wins, other chunks keep the parent's state.\<close>

definition delta_state :: "chunk_state list \<Rightarrow> delta_entry list \<Rightarrow> nat \<Rightarrow> chunk_state" where
  "delta_state parent ds i =
     (case filter (\<lambda>d. unat (de_chunk_no d) = i) ds of
        [] \<Rightarrow> parent ! i | xs \<Rightarrow> chunk_state_from (de_entry (last xs)))"

lemma delta_state_Cons:
  assumes "unat (de_chunk_no d) < length parent"
  shows "delta_state (parent[unat (de_chunk_no d) := chunk_state_from (de_entry d)]) ds i
    = delta_state parent (d # ds) i"
  using assms by (auto simp: delta_state_def nth_list_update split: list.splits)

lemma apply_delta_spec:
  "apply_delta parent ds =
     (let good = takeWhile (\<lambda>d. unat (de_chunk_no d) < length parent) ds in
      (if good = ds then Inr () else Inl (Corrupt ''delta chunk ''),
       map (delta_state parent good) [0..<length parent]))"
proof (induction ds arbitrary: parent)
  case Nil
  have "map (delta_state parent []) [0..<length parent] = map ((!) parent) [0..<length parent]"
    by (simp add: delta_state_def)
  then show ?case by (simp only: map_nth) simp
next
  case (Cons d ds)
  show ?case
  proof (cases "unat (de_chunk_no d) < length parent")
    case True
    show ?thesis
      using True Cons.IH by (simp add: Let_def delta_state_Cons [OF True] not_le)
  next
    case False
    have "map (delta_state parent []) [0..<length parent] = map ((!) parent) [0..<length parent]"
      by (simp add: delta_state_def)
    then show ?thesis using False by (simp only: map_nth) simp
  qed
qed

section \<open>Properties\<close>

text \<open>Manifest entries and their 46 bytes are in bijection: a valid entry
  encodes to 46 bytes that decode to it, and every 46-byte string decodes to a
  valid entry that encodes back to the same bytes; the two-bit state and the
  14-bit member share a field without loss.
\<close>

lemma entry_codec_bijective:
  "(entry_wf e \<longrightarrow> (\<exists>b. entry_encode e = Inr b \<and> length b = 46 \<and> entry_decode b = Inr e))
   \<and> (length bs = 46 \<longrightarrow> (\<exists>e'. entry_decode bs = Inr e' \<and> entry_wf e' \<and> entry_encode e' = Inr bs))"
  using entry_encode_eq [of e] length_entry_layout [of e] entry_decode_layout [of e]
    entry_decode_Inr [of bs] entry_encode_eq by metis

definition demo_entry :: block_entry where
  "demo_entry = \<lparr> be_state = 2, be_member = 0x3FFF, be_hash = replicate 32 7, be_offset = 4096,
     be_stored_len = 100 \<rparr>"

lemma demo_entry_wf: "entry_wf demo_entry"
  by (simp add: entry_wf_def demo_entry_def state_bad_sector_def max_member_def)

text \<open>
  C27. Applying a delta replaces exactly the chunks it names, the last entry of
  a chunk winning, and keeps the length and every other chunk; it fails exactly
  when some entry lies outside the image, and then the entries before the first
  such entry, and no others, have been applied.
\<close>

theorem apply_delta_correct:
  "case apply_delta parent ds of (r, out) \<Rightarrow>
     length out = length parent
     \<and> (r = Inr () \<longleftrightarrow> (\<forall>d \<in> set ds. unat (de_chunk_no d) < length parent))
     \<and> (r \<noteq> Inr () \<longleftrightarrow> (\<exists>m. r = Inl (Corrupt m)))
     \<and> (\<forall>i < length parent. out ! i
          = delta_state parent (takeWhile (\<lambda>d. unat (de_chunk_no d) < length parent) ds) i)"
  by (simp add: apply_delta_spec Let_def takeWhile_eq_all_conv split: if_split)

theorem apply_delta_correct_witness:
  "case apply_delta [Unused, Zero] [\<lparr> de_chunk_no = 1, de_entry = demo_entry \<rparr>] of (r, out) \<Rightarrow>
     length out = length [Unused, Zero]
     \<and> (r = Inr () \<longleftrightarrow>
          (\<forall>d \<in> set [\<lparr> de_chunk_no = 1, de_entry = demo_entry \<rparr>]. unat (de_chunk_no d) < length [Unused, Zero]))
     \<and> (r \<noteq> Inr () \<longleftrightarrow> (\<exists>m. r = Inl (Corrupt m)))
     \<and> (\<forall>i < length [Unused, Zero]. out ! i
          = delta_state [Unused, Zero] (takeWhile (\<lambda>d. unat (de_chunk_no d) < length [Unused, Zero])
              [\<lparr> de_chunk_no = 1, de_entry = demo_entry \<rparr>]) i)"
  by (rule apply_delta_correct)

lemma encoded_entries:
  "\<forall>e \<in> set es. entry_wf e \<Longrightarrow> map entry_encode es = map Inr ebs \<Longrightarrow> ebs = map entry_layout es"
proof (induction es arbitrary: ebs)
  case (Cons e es)
  then obtain b bs where "ebs = b # bs" by (cases ebs) auto
  then show ?case using Cons by (auto simp: entry_encode_eq)
qed auto

text \<open>The header and the \<open>n\<close> entries after it, as a reader of a full manifest takes them.\<close>

definition manifest_read ::
    "(nat \<Rightarrow> ('s, bytes) reader) \<Rightarrow> nat \<Rightarrow> ('s, (block_manifest_header \<times> bool) \<times> block_entry list) reader" where
  "manifest_read rb n =
     rd_bind (block_header_read rb) (\<lambda>h. rd_bind (read_list n (entry_read rb)) (\<lambda>es. rd_return (h, es)))"

definition delta_manifest_read ::
    "(nat \<Rightarrow> ('s, bytes) reader) \<Rightarrow> nat \<Rightarrow> ('s, (block_manifest_header \<times> bool) \<times> delta_entry list) reader" where
  "delta_manifest_read rb n =
     rd_bind (block_header_read rb) (\<lambda>h. rd_bind (read_list n (delta_read rb)) (\<lambda>ds. rd_return (h, ds)))"

context byte_source
begin

lemma manifest_decodes:
  assumes "block_header_wf h" "block_header_write h delta = Inr hb"
    and "\<forall>e \<in> set es. entry_wf e" "map entry_encode es = map Inr ebs"
  shows "decodes rem ok (manifest_read rb (length es)) (hb @ concat ebs) ((h, delta), es)"
proof -
  have "decodes rem ok (read_list (length es) (entry_read rb)) (concat (map entry_layout es)) es"
    using assms(3) by (intro decodes_list entry_decodes) simp
  from decodes_bind_last [OF this decodes_return] show ?thesis
    unfolding manifest_read_def encoded_entries [OF assms(3,4)]
    by (rule decodes_bind [OF block_header_decodes [OF assms(1,2)]])
qed

lemma delta_manifest_decodes:
  assumes "block_header_wf h" "block_header_write h delta = Inr hb"
    and "\<forall>d \<in> set ds. entry_wf (de_entry d)" "map delta_write ds = map Inr dbs"
  shows "decodes rem ok (delta_manifest_read rb (length ds)) (hb @ concat dbs) ((h, delta), ds)"
proof -
  define enc where "enc d = put_u64 (de_chunk_no d) @ entry_layout (de_entry d)" for d :: delta_entry
  have w: "delta_write d = Inr (enc d)" if "d \<in> set ds" for d
    using that assms(3) by (simp add: delta_write_def entry_encode_eq enc_def)
  have "map delta_write ds = map Inr (map enc ds)" using w by simp
  then have "map Inr dbs = (map Inr (map enc ds) :: bytes res list)" using assms(4) by simp
  then have "dbs = map enc ds" by (rule map_injective) (simp add: inj_on_def)
  moreover have "decodes rem ok (read_list (length ds) (delta_read rb)) (concat (map enc ds)) ds"
    using assms(3) w by (intro decodes_list delta_decodes) simp_all
  ultimately have "decodes rem ok (read_list (length ds) (delta_read rb)) (concat dbs) ds" by simp
  from decodes_bind_last [OF this decodes_return] show ?thesis
    unfolding delta_manifest_read_def
    by (rule decodes_bind [OF block_header_decodes [OF assms(1,2)]])
qed

end

text \<open>
  C26. A block manifest written to a metadata stream - header, then its entries
  or, for an incremental, its delta entries - reads back from the page stream
  exactly, with the reader left at what follows; a stream that ends early is
  a corruption error and never a short manifest.
\<close>

theorem manifest_stream_roundtrip:
  assumes "block_header_wf h" "block_header_write h delta = Inr hb"
    and "\<forall>e \<in> set es. entry_wf e" "map entry_encode es = map Inr ebs"
    and "\<forall>d \<in> set ds. entry_wf (de_entry d)" "map delta_write ds = map Inr dbs"
    and "pages_ok P st"
  shows "(page_remaining P st = hb @ concat ebs @ rest \<longrightarrow>
      (\<exists>st'. manifest_read (page_read_bytes P) (length es) st = Inr (((h, delta), es), st')
         \<and> page_remaining P st' = rest \<and> pages_ok P st'))
    \<and> (page_remaining P st = hb @ concat dbs @ rest \<longrightarrow>
      (\<exists>st'. delta_manifest_read (page_read_bytes P) (length ds) st = Inr (((h, delta), ds), st')
         \<and> page_remaining P st' = rest \<and> pages_ok P st'))
    \<and> (suf \<noteq> [] \<and> page_remaining P st @ suf = hb @ concat ebs \<longrightarrow>
      (\<exists>m. manifest_read (page_read_bytes P) (length es) st = Inl (Corrupt m)))
    \<and> (suf \<noteq> [] \<and> page_remaining P st @ suf = hb @ concat dbs \<longrightarrow>
      (\<exists>m. delta_manifest_read (page_read_bytes P) (length ds) st = Inl (Corrupt m)))"
  using decodesD [OF page_src.manifest_decodes [OF assms(1-4)] assms(7), of rest]
    decodesD [OF page_src.delta_manifest_decodes [OF assms(1,2,5,6)] assms(7), of rest]
    decodes_truncD [OF page_src.manifest_decodes [OF assms(1-4)] assms(7), of suf]
    decodes_truncD [OF page_src.delta_manifest_decodes [OF assms(1,2,5,6)] assms(7), of suf]
  by simp

definition demo_header :: block_manifest_header where
  "demo_header = \<lparr> bm_chunk_size = 1048576, bm_chunk_count = 1, bm_entry_count = 1, bm_used_extent_count = 1,
     bm_used_bytes = 1048576, bm_fs_type = ''ext4'', bm_fs_uuid = [], bm_label = ''root'' \<rparr>"

definition demo_header_bytes :: bytes where
  "demo_header_bytes = (case block_header_write demo_header False of Inr b \<Rightarrow> b | Inl _ \<Rightarrow> [])"

lemma demo_header_ok:
  "block_header_wf demo_header" "block_header_write demo_header False = Inr demo_header_bytes"
  "length demo_header_bytes = 56"
  unfolding block_header_wf_def demo_header_def rust_string_def
  by (code_simp, simp_all add: demo_header_bytes_def block_header_write_def demo_header_def put_u16_prefixed_def)

text \<open>A reader positioned on a loaded page that holds the manifest and one byte more.\<close>

definition demo_page_reader :: page_stream_reader where
  "demo_page_reader = \<lparr> pr_file = [], pr_kind = Aes256Gcm, pr_meta_key = [], pr_stream = Manifest,
     pr_entries = [], pr_index = 0, pr_buf = demo_header_bytes @ entry_layout demo_entry @ [9], pr_pos = 0 \<rparr>"

theorem manifest_stream_roundtrip_witness:
  "\<exists>st'. manifest_read (page_read_bytes demo_prims) (length [demo_entry]) demo_page_reader
      = Inr (((demo_header, False), [demo_entry]), st')
    \<and> page_remaining demo_prims st' = [9] \<and> pages_ok demo_prims st'"
proof -
  have "pages_ok demo_prims demo_page_reader" by (simp add: pages_ok_def demo_page_reader_def)
  moreover have "page_remaining demo_prims demo_page_reader
      = demo_header_bytes @ concat [entry_layout demo_entry] @ [9]"
    by (simp add: page_remaining_def demo_page_reader_def)
  moreover have "map entry_encode [demo_entry] = map Inr [entry_layout demo_entry]"
    by (simp add: entry_encode_eq demo_entry_wf)
  ultimately show ?thesis
    using manifest_stream_roundtrip [OF demo_header_ok(1,2), of "[demo_entry]" "[entry_layout demo_entry]" "[]" "[]"
        demo_prims demo_page_reader "[9]"] demo_entry_wf by simp
qed

end
