(* ===== verification/Image_Roundtrip.thy ===== *)
theory Image_Roundtrip
  imports Image_Reader
begin

text \<open>
  From \<open>ImageWriter\<close> to \<open>ImageReader\<close>: an image written by any sequence of chunk
  appends and metadata streams opens, authenticates, verifies and reads back.
  \<open>append_chunks\<close> and \<open>write_streams\<close> are the loops a backup runs over its chunks
  and streams; \<open>write_image\<close> is the whole sequence of calls.
\<close>

section \<open>Sequences of writer calls\<close>

fun append_chunks ::
    "prims \<Rightarrow> chunk_options \<Rightarrow> writer_keys \<Rightarrow> image_kind \<Rightarrow> nonce_seq \<Rightarrow> bytes list \<Rightarrow> image_writer
     \<Rightarrow> (chunk_ref list \<times> nonce_seq \<times> image_writer) res" where
  "append_chunks P opts keys kind nonces [] w = Inr ([], nonces, w)"
| "append_chunks P opts keys kind nonces (pt # pts) w =
     res_bind (append_chunk P opts keys kind nonces pt w) (\<lambda>(ref, nonces', w').
     res_bind (append_chunks P opts keys kind nonces' pts w') (\<lambda>(refs, nonces'', w'').
       Inr (ref # refs, nonces'', w'')))"

fun write_streams ::
    "prims \<Rightarrow> aead_kind \<Rightarrow> bytes \<Rightarrow> (stream_id \<times> bytes) list \<Rightarrow> image_writer \<Rightarrow> image_writer res option" where
  "write_streams P kind key [] w = Some (Inr w)"
| "write_streams P kind key ((s, bs) # ss) w =
     (case write_stream P s kind key bs w of
        None \<Rightarrow> None
      | Some (Inl e) \<Rightarrow> Some (Inl e)
      | Some (Inr w') \<Rightarrow> write_streams P kind key ss w')"

definition write_image ::
    "prims \<Rightarrow> disk_file \<Rightarrow> superblock \<Rightarrow> bytes option \<Rightarrow> chunk_options \<Rightarrow> writer_keys \<Rightarrow> bytes list
     \<Rightarrow> (stream_id \<times> bytes) list \<Rightarrow> (chunk_ref list \<times> disk_file \<times> footer) res option" where
  "write_image P f sb mac_key opts keys pts streams =
     (case res_bind (writer_create P f sb mac_key) (\<lambda>w.
             append_chunks P opts keys (sb_image_kind sb) nonce_seq_new pts w) of
        Inl e \<Rightarrow> Some (Inl e)
      | Inr (refs, _, w) \<Rightarrow>
          (case write_streams P (co_kind opts) (wk_meta_key keys) streams w of
             None \<Rightarrow> None
           | Some (Inl e) \<Rightarrow> Some (Inl e)
           | Some (Inr w') \<Rightarrow>
               map_option (\<lambda>r. res_bind r (\<lambda>(f', ft). Inr (refs, f', ft)))
                 (writer_finish P (wk_meta_key keys) mac_key (co_kind opts) w')))"

section \<open>What each loop leaves in the image\<close>

lemma seal_chunk_total:
  assumes "prims_ok P" "length pt \<le> max_stored_len"
    and "co_compress opts \<longrightarrow> 1 \<le> co_level opts \<and> co_level opts \<le> 22" and "unat ns < 2 ^ 96"
  shows "\<exists>r ns'. seal_chunk P opts key dk kind ns pt = Inr ((chunk_encode r, content_hash P dk pt), ns')
    \<and> sealed_record P opts key dk kind ns pt ns' r"
proof -
  have ok: "aead_ok P" "zstd_ok P" using assms(1) by (simp_all add: prims_ok_def)
  obtain bs hash ns' where s: "seal_chunk P opts key dk kind ns pt = Inr ((bs, hash), ns')"
    using seal_chunk_succeeds [OF ok assms(2-4)] by blast
  then show ?thesis using seal_chunk_Inr [OF ok assms(2) s] by blast
qed

lemma sealed_record_size:
  assumes "sealed_record P opts key dk kind ns pt ns' r"
  shows "length (chunk_encode r) \<le> length pt + 35" and "chunk_framed (chunk_encode r)"
    and "unat ns < 2 ^ 96 \<Longrightarrow> unat ns' \<le> unat ns + 1"
proof -
  have wf: "chunk_record_wf r" and pl: "length (cr_payload r) \<le> length pt"
    using assms by (simp_all add: sealed_record_def)
  show "length (chunk_encode r) \<le> length pt + 35"
    using length_chunk_encode [OF wf] pl by (simp add: chunk_record_total_len_def chunk_consts)
  show "chunk_framed (chunk_encode r)" by (rule chunk_framed_encode [OF wf])
  show "unat ns' \<le> unat ns + 1"
    using assms nonce_value by (fastforce simp: sealed_record_def split: option.splits)
qed

text \<open>One chunk appended: a framed record at the end that opens to the plaintext.\<close>

definition chunk_stored ::
    "prims \<Rightarrow> chunk_options \<Rightarrow> writer_keys \<Rightarrow> image_kind \<Rightarrow> bytes list \<Rightarrow> bytes \<Rightarrow> chunk_ref \<Rightarrow> bytes \<Rightarrow> bool" where
  "chunk_stored P opts keys kind before rec ref pt \<longleftrightarrow>
     chunk_framed rec
     \<and> cref_offset ref = word_of_nat (sb_size + length (concat before))
     \<and> cref_hash ref = content_hash P (wk_dedup_key keys) pt
     \<and> (\<forall>n. length pt \<le> n \<longrightarrow> open_chunk P (co_kind opts) (wk_data_key keys) (wk_dedup_key keys) kind
            (cref_hash ref) n rec = Inr pt)"

lemma append_chunk_holds:
  assumes "prims_ok P" "writer_holds sbb recs [] w" "length pt \<le> max_stored_len"
    and "co_compress opts \<longrightarrow> 1 \<le> co_level opts \<and> co_level opts \<le> 22" "unat ns < 2 ^ 96"
    and "writer_size w + length pt + 35 < sink_limit"
  shows "\<exists>ref ns' w' rec. append_chunk P opts keys kind ns pt w = Inr (ref, ns', w')
    \<and> writer_holds sbb (recs @ [rec]) [] w' \<and> chunk_stored P opts keys kind recs rec ref pt
    \<and> iw_meta_nonces w' = iw_meta_nonces w \<and> unat ns' \<le> unat ns + 1
    \<and> writer_size w' \<le> writer_size w + length pt + 35"
proof -
  let ?dk = "wk_dedup_key keys" and ?key = "wk_data_key keys"
  obtain r ns' where s: "seal_chunk P opts ?key ?dk kind ns pt
      = Inr ((chunk_encode r, content_hash P ?dk pt), ns')"
    and sr: "sealed_record P opts ?key ?dk kind ns pt ns' r"
    using seal_chunk_total [OF assms(1,3-5)] by blast
  note z = sealed_record_size [OF sr]
  define rec where "rec = chunk_encode r"
  have le: "length rec \<le> length pt + 35" using z(1) by (simp add: rec_def)
  then have l32: "length rec < 2 ^ 32" using assms(3) by (simp add: max_stored_len_eq)
  obtain h where h: "chunk_decode_header rec = Inr h"
    using z(2) by (auto simp: chunk_framed_def rec_def split: sum.splits)
  have room: "writer_size w + length rec < sink_limit" using assms(6) le by linarith
  obtain w' where w': "append_record rec w = Inr ((word_of_nat (sb_size + length (concat recs)),
        word_of_nat (length rec)), w')" "writer_holds sbb (recs @ [rec]) [] w'"
      "iw_meta_nonces w' = iw_meta_nonces w"
    using append_record_holds [OF assms(2) l32 room] by blast
  let ?ref = "\<lparr> cref_offset = word_of_nat (sb_size + length (concat recs)),
    cref_stored_len = ch_stored_len h, cref_hash = content_hash P ?dk pt \<rparr>"
  have "chunk_stored P opts keys kind recs rec ?ref pt"
    using z(2) open_sealed_record [OF sr, of _ "[]"] by (simp add: chunk_stored_def rec_def)
  moreover have "append_chunk P opts keys kind ns pt w = Inr (?ref, ns', w')"
    using s h w'(1) by (simp add: append_chunk_def rec_def [symmetric])
  moreover have "writer_size w' = writer_size w + length rec"
    using assms(2) w'(2) by (simp add: writer_holds_def writer_size_def image_body_def)
  ultimately show ?thesis using w' z(3) [OF assms(5)] le by fastforce
qed

lemma append_chunks_holds:
  assumes "prims_ok P" "co_compress opts \<longrightarrow> 1 \<le> co_level opts \<and> co_level opts \<le> 22"
    and "writer_holds sbb recs [] w" "\<forall>pt \<in> set pts. length pt \<le> max_stored_len"
    and "unat ns + length pts < 2 ^ 96"
    and "writer_size w + length (concat pts) + 35 * length pts < sink_limit"
  shows "\<exists>refs ns' w' recs'. append_chunks P opts keys kind ns pts w = Inr (refs, ns', w')
    \<and> writer_holds sbb (recs @ recs') [] w' \<and> length recs' = length pts \<and> length refs = length pts
    \<and> (\<forall>i < length pts. chunk_stored P opts keys kind (recs @ take i recs') (recs' ! i) (refs ! i) (pts ! i))
    \<and> iw_meta_nonces w' = iw_meta_nonces w
    \<and> writer_size w' \<le> writer_size w + length (concat pts) + 35 * length pts"
  using assms(3-)
proof (induction pts arbitrary: recs ns w)
  case Nil
  then show ?case by simp
next
  case (Cons pt pts)
  have c1: "unat ns < 2 ^ 96" and c2: "writer_size w + length pt + 35 < sink_limit"
    and c3: "length pt \<le> max_stored_len"
    using Cons.prems by simp_all
  from append_chunk_holds [OF assms(1) Cons.prems(1) c3 assms(2) c1 c2, of keys kind]
  obtain ref ns1 w1 rec where a: "append_chunk P opts keys kind ns pt w = Inr (ref, ns1, w1)"
    "writer_holds sbb (recs @ [rec]) [] w1" "chunk_stored P opts keys kind recs rec ref pt"
    "iw_meta_nonces w1 = iw_meta_nonces w" "unat ns1 \<le> unat ns + 1"
    "writer_size w1 \<le> writer_size w + length pt + 35" by blast
  have "\<exists>refs ns' w' recs'. append_chunks P opts keys kind ns1 pts w1 = Inr (refs, ns', w')
    \<and> writer_holds sbb ((recs @ [rec]) @ recs') [] w' \<and> length recs' = length pts \<and> length refs = length pts
    \<and> (\<forall>i < length pts. chunk_stored P opts keys kind ((recs @ [rec]) @ take i recs') (recs' ! i) (refs ! i) (pts ! i))
    \<and> iw_meta_nonces w' = iw_meta_nonces w1
    \<and> writer_size w' \<le> writer_size w1 + length (concat pts) + 35 * length pts"
    using Cons.prems a(5,6) by (intro Cons.IH [OF a(2)]) simp_all
  then obtain refs ns' w' recs' where r: "append_chunks P opts keys kind ns1 pts w1 = Inr (refs, ns', w')"
    "writer_holds sbb (recs @ rec # recs') [] w'" "length recs' = length pts" "length refs = length pts"
    "\<forall>i < length pts. chunk_stored P opts keys kind (recs @ rec # take i recs') (recs' ! i) (refs ! i) (pts ! i)"
    "iw_meta_nonces w' = iw_meta_nonces w1"
    "writer_size w' \<le> writer_size w1 + length (concat pts) + 35 * length pts"
    by auto
  have "chunk_stored P opts keys kind (recs @ take i (rec # recs')) ((rec # recs') ! i) ((ref # refs) ! i)
      ((pt # pts) ! i)" if "i < length (pt # pts)" for i
    using that a(3) r(5) by (cases i) simp_all
  then show ?case
    using a r by (intro exI [of _ "ref # refs"] exI [of _ ns'] exI [of _ w'] exI [of _ "rec # recs'"]) simp
qed

text \<open>The streams written so far, each sealed in the pages of the image.\<close>

definition streams_sealed ::
    "prims \<Rightarrow> aead_kind \<Rightarrow> bytes \<Rightarrow> (stream_id \<times> bytes) list \<Rightarrow> (stream_id \<times> bytes) list \<Rightarrow> bool" where
  "streams_sealed P kind key streams pgs \<longleftrightarrow>
     (\<forall>s bs. (s, bs) \<in> set streams \<longrightarrow>
        (\<exists>plains. pages_seal P kind key s (pages_of s pgs) plains \<and> concat plains = bs))
     \<and> (\<forall>s. s \<notin> fst ` set streams \<longrightarrow> pages_of s pgs = [])"

lemma pages_of_foreign: "\<forall>p \<in> set extra. fst p = s \<Longrightarrow> t \<noteq> s \<Longrightarrow> pages_of t extra = []"
  by (auto simp: pages_of_def filter_empty_conv)

lemma streams_sealed_step:
  assumes "streams_sealed P kind key sdone pgs" "s \<notin> fst ` set sdone"
    and "\<forall>p \<in> set extra. fst p = s" "pages_seal P kind key s (map snd extra) plains" "concat plains = bs"
  shows "streams_sealed P kind key (sdone @ [(s, bs)]) (pgs @ extra)"
proof -
  have s: "pages_of s (pgs @ extra) = map snd extra"
    using assms(1,2) pages_of_same [OF assms(3)] by (simp add: streams_sealed_def)
  have o: "pages_of t (pgs @ extra) = pages_of t pgs" if "t \<noteq> s" for t
    using pages_of_foreign [OF assms(3) that] by simp
  have "\<exists>plains. pages_seal P kind key t (pages_of t (pgs @ extra)) plains \<and> concat plains = b"
    if "(t, b) \<in> set (sdone @ [(s, bs)])" for t b
  proof (cases "t = s")
    case True
    then have "b = bs" using that assms(2) by force
    then show ?thesis using True s assms(4,5) by (auto simp del: pages_of_append)
  next
    case False
    then have "(t, b) \<in> set sdone" using that by simp
    then show ?thesis
      using assms(1) unfolding o [OF False] streams_sealed_def by blast
  qed
  moreover have "pages_of t (pgs @ extra) = []" if "t \<notin> fst ` set (sdone @ [(s, bs)])" for t
    using that assms(1) o by (simp add: streams_sealed_def del: pages_of_append)
  ultimately show ?thesis unfolding streams_sealed_def by blast
qed

lemma write_streams_holds:
  assumes "aead_ok P" "writer_holds sbb recs pgs w" "streams_sealed P kind key sdone pgs"
    and "distinct (map fst (sdone @ streams))"
    and "writer_size w + 35 * length (concat (map snd streams)) < sink_limit"
    and "unat (iw_meta_nonces w) + length (concat (map snd streams)) < 2 ^ 96"
  shows "\<exists>w' extra. write_streams P kind key streams w = Some (Inr w')
    \<and> writer_holds sbb recs (pgs @ extra) w' \<and> streams_sealed P kind key (sdone @ streams) (pgs @ extra)
    \<and> writer_size w' \<le> writer_size w + 35 * length (concat (map snd streams))
    \<and> unat (iw_meta_nonces w') \<le> unat (iw_meta_nonces w) + length (concat (map snd streams))
    \<and> length extra * default_page_len \<le> length (concat (map snd streams)) + length streams * default_page_len"
  using assms(2-)
proof (induction streams arbitrary: w pgs sdone)
  case Nil
  then show ?case by (intro exI [of _ w] exI [of _ "[]"]) simp
next
  case (Cons x ss)
  obtain s bs where x: "x = (s, bs)" by (cases x)
  have ns: "s \<notin> fst ` set sdone" using Cons.prems(3) by (simp add: x)
  have emp: "pages_of s pgs = []" using Cons.prems(2) ns by (simp add: streams_sealed_def)
  have "writer_size w + 35 * length bs < sink_limit" "unat (iw_meta_nonces w) + length bs < 2 ^ 96"
    using Cons.prems(4,5) by (simp_all add: x)
  from write_stream_holds [OF assms(1) Cons.prems(1) emp this, of kind key]
  obtain w1 m1 plains where w1: "write_stream P s kind key bs w = Some (Inr w1)"
    "writer_holds sbb recs (pgs @ m1) w1" "\<forall>p \<in> set m1. fst p = s"
    "pages_seal P kind key s (map snd m1) plains" "concat plains = bs"
    "writer_size w1 \<le> writer_size w + 35 * length bs"
    "unat (iw_meta_nonces w1) \<le> unat (iw_meta_nonces w) + length bs"
    "length m1 * default_page_len < length bs + default_page_len" by blast
  have sl: "streams_sealed P kind key (sdone @ [(s, bs)]) (pgs @ m1)"
    by (rule streams_sealed_step [OF Cons.prems(2) ns w1(3-5)])
  have "\<exists>w' extra. write_streams P kind key ss w1 = Some (Inr w')
    \<and> writer_holds sbb recs ((pgs @ m1) @ extra) w'
    \<and> streams_sealed P kind key ((sdone @ [(s, bs)]) @ ss) ((pgs @ m1) @ extra)
    \<and> writer_size w' \<le> writer_size w1 + 35 * length (concat (map snd ss))
    \<and> unat (iw_meta_nonces w') \<le> unat (iw_meta_nonces w1) + length (concat (map snd ss))
    \<and> length extra * default_page_len \<le> length (concat (map snd ss)) + length ss * default_page_len"
    using Cons.prems(3-5) w1(6,7) by (intro Cons.IH [OF w1(2) sl]) (simp_all add: x)
  then obtain w' extra where r: "write_streams P kind key ss w1 = Some (Inr w')"
    "writer_holds sbb recs (pgs @ m1 @ extra) w'"
    "streams_sealed P kind key (sdone @ x # ss) (pgs @ m1 @ extra)"
    "writer_size w' \<le> writer_size w1 + 35 * length (concat (map snd ss))"
    "unat (iw_meta_nonces w') \<le> unat (iw_meta_nonces w1) + length (concat (map snd ss))"
    "length extra * default_page_len \<le> length (concat (map snd ss)) + length ss * default_page_len"
    by (auto simp: x)
  show ?case
    using r w1(1,6-8)
    by (intro exI [of _ w'] exI [of _ "m1 @ extra"]) (simp add: x add_mult_distrib)
qed

section \<open>The round trip\<close>

lemma streams_sealed_Nil: "streams_sealed P kind key [] []"
  by (simp add: streams_sealed_def)

lemma pages_exist:
  assumes "streams_sealed P kind key streams pgs" "(s, bs) \<in> set streams" "bs \<noteq> []"
  shows "pgs \<noteq> []"
proof
  assume "pgs = []"
  from assms(1,2) obtain plains where "pages_seal P kind key s (pages_of s pgs) plains" "concat plains = bs"
    unfolding streams_sealed_def by blast
  with \<open>pgs = []\<close> assms(3) show False by (auto simp: pages_seal_def)
qed

definition image_fits :: "bytes list \<Rightarrow> (stream_id \<times> bytes) list \<Rightarrow> bool" where
  "image_fits pts streams \<longleftrightarrow>
     (\<forall>pt \<in> set pts. length pt \<le> max_stored_len)
     \<and> length (concat pts) + 35 * length pts < 2 ^ 62
     \<and> distinct (map fst streams) \<and> PageTable \<notin> fst ` set streams
     \<and> length (concat (map snd streams)) \<le> 2 ^ 39
     \<and> (\<exists>x \<in> set streams. snd x \<noteq> [])"

text \<open>What a finished image holds for its readers, in terms of what was given to the writer.\<close>

definition written_image ::
    "prims \<Rightarrow> superblock \<Rightarrow> bytes option \<Rightarrow> chunk_options \<Rightarrow> writer_keys \<Rightarrow> bytes list
     \<Rightarrow> (stream_id \<times> bytes) list \<Rightarrow> chunk_ref list \<Rightarrow> footer \<Rightarrow> bytes
     \<Rightarrow> bytes list \<Rightarrow> (stream_id \<times> bytes) list \<Rightarrow> (stream_id \<times> bytes) list \<Rightarrow> bool" where
  "written_image P sb mk opts keys pts streams refs ft data recs pgs tpgs \<longleftrightarrow>
     finished_image P (wk_meta_key keys) mk (co_kind opts) (sb_image P sb mk) recs pgs tpgs ft data
     \<and> length recs = length pts \<and> length refs = length pts
     \<and> (\<forall>i < length pts. chunk_stored P opts keys (sb_image_kind sb) (take i recs) (recs ! i) (refs ! i) (pts ! i))
     \<and> streams_sealed P (co_kind opts) (wk_meta_key keys) streams pgs
     \<and> 13 * length pgs \<le> max_page_table_bytes"

text \<open>The end of every image: the metadata streams, then the page table and the footer.\<close>

definition streams_fit :: "(stream_id \<times> bytes) list \<Rightarrow> bool" where
  "streams_fit streams \<longleftrightarrow> distinct (map fst streams) \<and> PageTable \<notin> fst ` set streams
     \<and> length (concat (map snd streams)) \<le> 2 ^ 39 \<and> (\<exists>x \<in> set streams. snd x \<noteq> [])"

lemma write_metadata_finish:
  assumes "prims_ok P" "writer_holds sbb recs [] w" "iw_meta_nonces w = 0" "writer_size w < 2 ^ 62 + 4096" "streams_fit streams"
  shows "\<exists>w' f' ft pgs tpgs. write_streams P kind key streams w = Some (Inr w')
    \<and> writer_finish P key mk kind w' = Some (Inr (f', ft))
    \<and> finished_image P key mk kind sbb recs pgs tpgs ft (file_data f')
    \<and> streams_sealed P kind key streams pgs \<and> 13 * length pgs \<le> max_page_table_bytes"
proof -
  have ok: "hash_ok P" "aead_ok P" using assms(1) by (simp_all add: prims_ok_def)
  note fits = assms(5) [unfolded streams_fit_def]
  obtain w2 pgs where b: "write_streams P kind key streams w = Some (Inr w2)"
    "writer_holds sbb recs pgs w2" "streams_sealed P kind key streams pgs"
    "writer_size w2 \<le> writer_size w + 35 * length (concat (map snd streams))"
    "unat (iw_meta_nonces w2) \<le> length (concat (map snd streams))"
    "length pgs * default_page_len \<le> length (concat (map snd streams)) + length streams * default_page_len"
    using write_streams_holds [OF ok(2) assms(2) streams_sealed_Nil, of streams kind key]
      fits assms(3,4) by (auto simp: sink_limit_def)
  have "length streams = card (fst ` set streams)"
    using fits by (metis distinct_card length_map set_map)
  also have "\<dots> \<le> card {Manifest, HashIndex, Extras, PageTable}"
    by (rule card_mono) (auto intro: stream_id.exhaust)
  finally have "length streams \<le> 4" by simp
  then have np: "length pgs \<le> 524292" using b(6) fits by (simp add: default_page_len_def)
  have pt: "pages_of PageTable pgs = []" and ne: "pgs \<noteq> []"
    using b(3) fits pages_exist [OF b(3)] by (auto simp: streams_sealed_def)
  obtain f' ft tpgs where c: "writer_finish P key mk kind w2 = Some (Inr (f', ft))"
    "finished_image P key mk kind sbb recs pgs tpgs ft (file_data f')"
    using writer_finish_holds [OF ok b(2) ne pt, of key mk kind] np b(4,5) assms(4) fits
    by (auto simp: sink_limit_def)
  moreover have "13 * length pgs \<le> max_page_table_bytes" using np by (simp add: max_page_table_bytes_def)
  ultimately show ?thesis using b by blast
qed

lemma write_image_written:
  assumes "prims_ok P" "sb_wf sb" "validate_header sb = Inr ()"
    and "co_compress opts \<longrightarrow> 1 \<le> co_level opts \<and> co_level opts \<le> 22"
    and "file_data f = []" "sink_limit + footer_size \<le> file_capacity f" "image_fits pts streams"
  shows "\<exists>refs f' ft recs pgs tpgs.
    write_image P f sb mk opts keys pts streams = Some (Inr (refs, f', ft))
    \<and> written_image P sb mk opts keys pts streams refs ft (file_data f') recs pgs tpgs"
proof -
  have ok: "hash_ok P" "aead_ok P" using assms(1) by (simp_all add: prims_ok_def)
  note fits = assms(7) [unfolded image_fits_def]
  obtain w where w: "writer_create P f sb mk = Inr w" "writer_holds (sb_image P sb mk) [] [] w"
    "iw_meta_nonces w = 0"
    using writer_create_holds [OF ok(1) assms(2,3,5,6)] by blast
  have sz: "writer_size w = 4096"
    using w(2) by (simp add: writer_holds_def writer_size_def image_body_def sb_size_def)
  have l1: "unat nonce_seq_new + length pts < 2 ^ 96"
    using fits by (simp add: nonce_seq_new_def)
  obtain refs ns1 w1 recs where a: "append_chunks P opts keys (sb_image_kind sb) nonce_seq_new pts w = Inr (refs, ns1, w1)"
    "writer_holds (sb_image P sb mk) recs [] w1" "length recs = length pts" "length refs = length pts"
    "\<forall>i < length pts. chunk_stored P opts keys (sb_image_kind sb) (take i recs) (recs ! i) (refs ! i) (pts ! i)"
    "iw_meta_nonces w1 = 0" "writer_size w1 \<le> 4096 + length (concat pts) + 35 * length pts"
    using append_chunks_holds [OF assms(1,4) w(2) _ l1, of keys "sb_image_kind sb"] fits sz w(3)
    by (auto simp: sink_limit_def)
  have sf: "streams_fit streams" using fits by (simp add: streams_fit_def)
  have sz1: "writer_size w1 < 2 ^ 62 + 4096" using a(7) fits by simp
  obtain w2 f' ft pgs tpgs where b: "write_streams P (co_kind opts) (wk_meta_key keys) streams w1 = Some (Inr w2)"
    "writer_finish P (wk_meta_key keys) mk (co_kind opts) w2 = Some (Inr (f', ft))"
    "finished_image P (wk_meta_key keys) mk (co_kind opts) (sb_image P sb mk) recs pgs tpgs ft (file_data f')"
    "streams_sealed P (co_kind opts) (wk_meta_key keys) streams pgs" "13 * length pgs \<le> max_page_table_bytes"
    using write_metadata_finish [OF assms(1) a(2,6) sz1 sf, of "co_kind opts" "wk_meta_key keys" mk] by blast
  have "write_image P f sb mk opts keys pts streams = Some (Inr (refs, f', ft))"
    using w(1) a(1) b(1,2) by (simp add: write_image_def)
  then show ?thesis using a b unfolding written_image_def by blast
qed

text \<open>Reading the image back, piece by piece.\<close>

lemma written_opens:
  assumes "prims_ok P" "sb_wf sb" "validate_header sb = Inr ()"
    and wi: "written_image P sb mk opts keys pts streams refs ft data recs pgs tpgs"
  shows "reader_open P data = Inr (opened_image P mk sb ft data)"
    and "reader_authenticate P (opened_image P mk sb ft data) mk = Inr ()"
    and "\<forall>r \<in> set recs. chunk_framed r"
    and "scan_chunk_headers (opened_image P mk sb ft data) = Some (Inr (word_of_nat (length pts)))"
proof -
  have ok: "hash_ok P" using assms(1) by (simp add: prims_ok_def)
  note w = wi [unfolded written_image_def]
  show fr: "\<forall>r \<in> set recs. chunk_framed r"
    using w by (auto simp: in_set_conv_nth chunk_stored_def)
  then have "\<forall>r \<in> set recs. chunk_header_len \<le> length r"
    using chunk_framed_bounds by (auto simp: chunk_consts)
  then show "reader_open P data = Inr (opened_image P mk sb ft data)"
    "reader_authenticate P (opened_image P mk sb ft data) mk = Inr ()"
    using reader_open_finished [OF ok assms(2,3)] w by blast+
  show "scan_chunk_headers (opened_image P mk sb ft data) = Some (Inr (word_of_nat (length pts)))"
    using scan_finished [OF ok _ fr, of "wk_meta_key keys" mk "co_kind opts" "sb_image P sb mk" pgs tpgs ft data]
      w by (simp add: opened_image_def)
qed

lemma written_chunk:
  assumes "prims_ok P" "sb_wf sb" "validate_header sb = Inr ()"
    and wi: "written_image P sb mk opts keys pts streams refs ft data recs pgs tpgs" and i: "i < length pts"
  shows "\<exists>rec. read_chunk_record (opened_image P mk sb ft data) (cref_offset (refs ! i)) = Inr rec
    \<and> open_chunk P (co_kind opts) (wk_data_key keys) (wk_dedup_key keys) (sb_image_kind sb)
        (cref_hash (refs ! i)) (length (pts ! i)) rec = Inr (pts ! i)"
proof -
  have ok: "hash_ok P" using assms(1) by (simp add: prims_ok_def)
  note w = wi [unfolded written_image_def]
  have st: "chunk_stored P opts keys (sb_image_kind sb) (take i recs) (recs ! i) (refs ! i) (pts ! i)"
    and il: "i < length recs" using w i by simp_all
  have "read_chunk_record (opened_image P mk sb ft data)
      (word_of_nat (sb_size + length (concat (take i recs)))) = Inr (recs ! i)"
    using w by (intro chunk_of_finished [OF ok _ written_opens(3) [OF assms(1-3) wi] _ _ il])
      (auto simp: opened_image_def)
  then show ?thesis using st unfolding chunk_stored_def by (metis order_refl)
qed

lemma image_of_fst_mem: "(a, b) \<in> set xs \<Longrightarrow> a \<in> fst ` set xs"
  by force

lemma written_stream:
  assumes "prims_ok P" and wi: "written_image P sb mk opts keys pts streams refs ft data recs pgs tpgs"
    and "PageTable \<notin> fst ` set streams" "(s, bs) \<in> set streams"
  shows "\<exists>st. stream_reader P (opened_image P mk sb ft data) s (wk_meta_key keys) (co_kind opts) = Inr st
    \<and> pages_ok P st \<and> page_remaining P st = bs \<and> pages_nonempty P st"
proof -
  have ok: "hash_ok P" using assms(1) by (simp add: prims_ok_def)
  note w = wi [unfolded written_image_def]
  have np: "pages_of PageTable pgs = []" and sne: "s \<noteq> PageTable"
    using w assms(3,4) image_of_fst_mem [OF assms(4)]
    unfolding streams_sealed_def by blast+
  from w assms(4) obtain plains where
    pl: "pages_seal P (co_kind opts) (wk_meta_key keys) s (pages_of s pgs) plains" "concat plains = bs"
    unfolding streams_sealed_def by blast
  then show ?thesis
    using stream_reader_finished [OF ok _ np _ _ _ _ pl(1) sne, of mk "sb_image P sb mk" recs tpgs ft data
        "opened_image P mk sb ft data"] w
    by (simp add: opened_image_def)
qed

text \<open>
  C20. An image written through the writer - superblock, any chunks, any
  metadata streams, footer - always completes, opens, authenticates under its
  key, and reads back: every chunk reference leads to a record that opens to
  the chunk's plaintext, every stream delivers exactly the bytes written to
  it, and the scan finds as many records as chunks were appended.
\<close>

theorem image_roundtrip:
  assumes "prims_ok P" "sb_wf sb" "validate_header sb = Inr ()"
    and "co_compress opts \<longrightarrow> 1 \<le> co_level opts \<and> co_level opts \<le> 22"
    and "file_data f = []" "sink_limit + footer_size \<le> file_capacity f" "image_fits pts streams"
  shows "\<exists>refs f' ft r. write_image P f sb mk opts keys pts streams = Some (Inr (refs, f', ft))
    \<and> reader_open P (file_data f') = Inr r \<and> ir_superblock r = sb \<and> ir_footer r = ft
    \<and> reader_authenticate P r mk = Inr ()
    \<and> scan_chunk_headers r = Some (Inr (word_of_nat (length pts)))
    \<and> length refs = length pts
    \<and> (\<forall>i < length pts. \<exists>rec. read_chunk_record r (cref_offset (refs ! i)) = Inr rec
         \<and> open_chunk P (co_kind opts) (wk_data_key keys) (wk_dedup_key keys) (sb_image_kind sb)
             (cref_hash (refs ! i)) (length (pts ! i)) rec = Inr (pts ! i))
    \<and> (\<forall>s bs. (s, bs) \<in> set streams \<longrightarrow> (\<exists>st st'.
         stream_reader P r s (wk_meta_key keys) (co_kind opts) = Inr st
         \<and> page_read_bytes P (length bs) st = Inr (bs, st')
         \<and> (\<exists>m. page_read_bytes P 1 st' = Inl (Corrupt m))))"
proof -
  obtain refs f' ft recs pgs tpgs where
    w: "write_image P f sb mk opts keys pts streams = Some (Inr (refs, f', ft))"
      "written_image P sb mk opts keys pts streams refs ft (file_data f') recs pgs tpgs"
    using write_image_written [OF assms, of mk keys] by blast
  define r where "r = opened_image P mk sb ft (file_data f')"
  have "\<exists>st st'. stream_reader P r s (wk_meta_key keys) (co_kind opts) = Inr st
      \<and> page_read_bytes P (length bs) st = Inr (bs, st') \<and> (\<exists>m. page_read_bytes P 1 st' = Inl (Corrupt m))"
    if mem: "(s, bs) \<in> set streams" for s bs
  proof -
    obtain st where st: "stream_reader P r s (wk_meta_key keys) (co_kind opts) = Inr st"
      "pages_ok P st" "page_remaining P st = bs"
      using written_stream [OF assms(1) w(2) _ mem] assms(7) unfolding r_def image_fits_def by blast
    obtain st' where st': "page_read_bytes P (length bs) st = Inr (bs, st')"
      "page_remaining P st' = []" "pages_ok P st'"
      using page_read_spec [OF st(2), of "length bs"] st(3) by (auto simp: read_spec_def)
    then have "\<exists>m. page_read_bytes P 1 st' = Inl (Corrupt m)"
      using page_read_spec [OF st'(3), of 1] by (simp add: read_spec_def)
    then show ?thesis using st(1) st'(1) by blast
  qed
  then show ?thesis
    using w(1) written_opens [OF assms(1-3) w(2)] written_chunk [OF assms(1-3) w(2)] w(2)
    by (intro exI [of _ refs] exI [of _ f'] exI [of _ ft] exI [of _ r])
      (auto simp: r_def opened_image_def written_image_def)
qed

definition demo_file :: disk_file where
  "demo_file = \<lparr> file_data = [], file_pos = 0, file_capacity = 2 ^ 64 \<rparr>"

definition demo_keys :: writer_keys where
  "demo_keys = \<lparr> wk_data_key = Some (replicate 32 1), wk_meta_key = replicate 32 2, wk_dedup_key = replicate 32 3 \<rparr>"

theorem image_roundtrip_witness:
  "\<exists>refs f' ft r. write_image demo_prims demo_file demo_sb (Some (replicate 32 2)) demo_opts demo_keys
        [[1, 2, 3], [4]] [(Manifest, [5, 6]), (Extras, [7])] = Some (Inr (refs, f', ft))
    \<and> reader_open demo_prims (file_data f') = Inr r \<and> ir_superblock r = demo_sb \<and> ir_footer r = ft
    \<and> reader_authenticate demo_prims r (Some (replicate 32 2)) = Inr ()
    \<and> scan_chunk_headers r = Some (Inr (word_of_nat (length [[1 :: u8, 2, 3], [4]])))
    \<and> length refs = length [[1 :: u8, 2, 3], [4]]
    \<and> (\<forall>i < length [[1 :: u8, 2, 3], [4]]. \<exists>rec. read_chunk_record r (cref_offset (refs ! i)) = Inr rec
         \<and> open_chunk demo_prims (co_kind demo_opts) (wk_data_key demo_keys) (wk_dedup_key demo_keys)
             (sb_image_kind demo_sb) (cref_hash (refs ! i)) (length ([[1 :: u8, 2, 3], [4]] ! i)) rec
           = Inr ([[1, 2, 3], [4]] ! i))
    \<and> (\<forall>s bs. (s, bs) \<in> set [(Manifest, [5, 6]), (Extras, [7])] \<longrightarrow> (\<exists>st st'.
         stream_reader demo_prims r s (wk_meta_key demo_keys) (co_kind demo_opts) = Inr st
         \<and> page_read_bytes demo_prims (length bs) st = Inr (bs, st')
         \<and> (\<exists>m. page_read_bytes demo_prims 1 st' = Inl (Corrupt m))))"
  by (rule image_roundtrip)
    (simp_all add: demo_prims_ok demo_sb_ok demo_opts_def demo_file_def sink_limit_def footer_size_def
      image_fits_def max_stored_len_eq)

section \<open>Verification of what was written\<close>

lemma length_filter_entries:
  "length (filter (\<lambda>e. pe_stream e = s) (page_entries_at off pgs)) = length (pages_of s pgs)"
  by (induction pgs arbitrary: off) auto

lemma verify_streams_ok:
  assumes "\<forall>s \<in> set ss. filter (\<lambda>e. pe_stream e = s) table \<noteq> [] \<longrightarrow>
      (\<exists>st. stream_reader P r s key kind = Inr st \<and> pages_ok P st \<and> pages_nonempty P st)"
  shows "verify_streams P r key kind table ss
    = Inr (map (\<lambda>s. (s, length (filter (\<lambda>e. pe_stream e = s) table)))
        (filter (\<lambda>s. filter (\<lambda>e. pe_stream e = s) table \<noteq> []) ss))"
  using assms
proof (induction ss)
  case (Cons s ss)
  show ?case
  proof (cases "filter (\<lambda>e. pe_stream e = s) table = []")
    case True
    then show ?thesis using Cons by (simp add: Let_def)
  next
    case False
    then obtain st where "stream_reader P r s key kind = Inr st" "pages_ok P st" "pages_nonempty P st"
      using Cons.prems by auto
    then show ?thesis using Cons False drain_stream_spec [of P st] by (simp add: Let_def)
  qed
qed simp

lemma written_pages:
  assumes "streams_sealed P kind key streams pgs" "distinct (map fst streams)"
  shows "pages_of s pgs \<noteq> [] \<longleftrightarrow> (\<exists>bs. (s, bs) \<in> set streams \<and> bs \<noteq> [])"
proof (cases "s \<in> fst ` set streams")
  case False
  then have "pages_of s pgs = []" using assms(1) unfolding streams_sealed_def by blast
  moreover have "(s, bs) \<notin> set streams" for bs using False image_of_fst_mem by metis
  ultimately show ?thesis by simp
next
  case True
  then obtain bs where bs: "(s, bs) \<in> set streams" by force
  then obtain plains where pl: "pages_seal P kind key s (pages_of s pgs) plains" "concat plains = bs"
    using assms(1) unfolding streams_sealed_def by blast
  have u: "b = bs" if "(s, b) \<in> set streams" for b
    using eq_key_imp_eq_value [OF assms(2) that bs] .
  have "pages_of s pgs = [] \<longleftrightarrow> bs = []"
    using pl by (cases plains) (auto simp: pages_seal_def)
  then show ?thesis using u bs by metis
qed

text \<open>
  C21. Structural verification accepts every image the writer produced: it
  terminates, counts exactly the appended chunks, reports exactly the streams
  that hold data, and finds no page nonce used twice, although all streams of
  the image are sealed under one key.
\<close>

theorem verify_written:
  assumes "prims_ok P" "sb_wf sb" "validate_header sb = Inr ()" "sb_aead_kind sb = Inr (co_kind opts)"
    and "co_compress opts \<longrightarrow> 1 \<le> co_level opts \<and> co_level opts \<le> 22"
    and "file_data f = []" "sink_limit + footer_size \<le> file_capacity f" "image_fits pts streams"
    and "mk = (if encrypted then Some (wk_meta_key keys) else None)"
  shows "\<exists>refs f' ft rep. write_image P f sb mk opts keys pts streams = Some (Inr (refs, f', ft))
    \<and> verify_structure P (file_data f') (wk_meta_key keys) encrypted = Some (Inr rep)
    \<and> vr_chunks rep = word_of_nat (length pts) \<and> \<not> vr_repeated_page_nonces rep
    \<and> vr_data_end_offset rep = data_end_offset ft
    \<and> (\<forall>s. s \<in> fst ` set (vr_pages rep) \<longleftrightarrow> (\<exists>bs. (s, bs) \<in> set streams \<and> bs \<noteq> []))"
proof -
  obtain refs f' ft recs pgs tpgs where
    w: "write_image P f sb mk opts keys pts streams = Some (Inr (refs, f', ft))"
      "written_image P sb mk opts keys pts streams refs ft (file_data f') recs pgs tpgs"
    using write_image_written [OF assms(1-3,5-8), of mk keys] by blast
  define r where "r = opened_image P mk sb ft (file_data f')"
  define key where "key = wk_meta_key keys"
  define kind where "kind = co_kind opts"
  have ok: "hash_ok P" using assms(1) by (simp add: prims_ok_def)
  note wi = w(2) [unfolded written_image_def]
  have rf: "ir_file r = file_data f'" "ir_file_len r = word_of_nat (length (file_data f'))" "ir_footer r = ft"
    by (simp_all add: r_def opened_image_def)
  have fin: "finished_image P key mk kind (sb_image P sb mk) recs pgs tpgs ft (file_data f')"
    and sl: "streams_sealed P kind key streams pgs" and lt: "13 * length pgs \<le> max_page_table_bytes"
    using wi by (simp_all add: key_def kind_def)
  have np: "pages_of PageTable pgs = []"
    using sl assms(8) by (auto simp: streams_sealed_def image_fits_def)
  note tab = reader_page_table_finished [OF ok fin np lt rf]
  have some: "filter (\<lambda>e. pe_stream e = s) (table_of recs pgs) \<noteq> []
      \<longleftrightarrow> (\<exists>bs. (s, bs) \<in> set streams \<and> bs \<noteq> [])" for s
    using written_pages [OF sl] assms(8) by (simp add: table_of_def pe_streams_filter image_fits_def)
  define ss where "ss = [Manifest, HashIndex, Extras, PageTable]"
  have "\<forall>s \<in> set ss. filter (\<lambda>e. pe_stream e = s) (table_of recs pgs) \<noteq> [] \<longrightarrow>
      (\<exists>st. stream_reader P r s key kind = Inr st \<and> pages_ok P st \<and> pages_nonempty P st)"
    using some written_stream [OF assms(1) w(2)] assms(8) unfolding r_def key_def kind_def image_fits_def by blast
  note vs = verify_streams_ok [OF this]
  have mk: "(if encrypted then Some key else None) = mk" using assms(9) by (simp add: key_def)
  have o: "reader_open P (file_data f') = Inr r" "sb_aead_kind (ir_superblock r) = Inr kind"
    "reader_authenticate P r (if encrypted then Some key else None) = Inr ()"
    "scan_chunk_headers r = Some (Inr (word_of_nat (length pts)))"
    unfolding mk using written_opens [OF assms(1-3) w(2)] assms(4)
    by (simp_all add: r_def kind_def) (simp add: opened_image_def)
  let ?pages = "map (\<lambda>s. (s, length (filter (\<lambda>e. pe_stream e = s) (table_of recs pgs))))
    (filter (\<lambda>s. filter (\<lambda>e. pe_stream e = s) (table_of recs pgs) \<noteq> []) ss)"
  have "verify_structure P (file_data f') key encrypted = Some (Inr
      \<lparr> vr_file_len = ir_file_len r, vr_data_end_offset = data_end_offset ft,
        vr_chunks = word_of_nat (length pts), vr_pages = ?pages, vr_repeated_page_nonces = False \<rparr>)"
    using o tab vs repeated_nonces_finished [OF ok fin np lt rf] rf(3)
    by (simp add: verify_structure_def ss_def [symmetric])
  moreover have "s \<in> fst ` set ?pages \<longleftrightarrow> (\<exists>bs. (s, bs) \<in> set streams \<and> bs \<noteq> [])" for s
    using some [of s] by (cases s) (auto simp: ss_def image_image)
  ultimately show ?thesis using w(1) by (auto simp: key_def)
qed

lemma demo_sb_aead: "sb_aead_kind demo_sb = Inr (co_kind demo_opts)"
  by (simp add: sb_aead_kind_def demo_sb_def demo_opts_def aead_from_id_def)

theorem verify_written_witness:
  "\<exists>refs f' ft rep. write_image demo_prims demo_file demo_sb (Some (replicate 32 2)) demo_opts demo_keys
        [[1, 2, 3], [4]] [(Manifest, [5, 6]), (HashIndex, []), (Extras, [7])] = Some (Inr (refs, f', ft))
    \<and> verify_structure demo_prims (file_data f') (wk_meta_key demo_keys) True = Some (Inr rep)
    \<and> vr_chunks rep = word_of_nat (length [[1 :: u8, 2, 3], [4]]) \<and> \<not> vr_repeated_page_nonces rep
    \<and> vr_data_end_offset rep = data_end_offset ft
    \<and> (\<forall>s. s \<in> fst ` set (vr_pages rep) \<longleftrightarrow>
        (\<exists>bs. (s, bs) \<in> set [(Manifest, [5, 6]), (HashIndex, []), (Extras, [7 :: u8])] \<and> bs \<noteq> []))"
  by (rule verify_written)
    (simp_all add: demo_prims_ok demo_sb_ok demo_sb_aead demo_file_def sink_limit_def footer_size_def
      image_fits_def max_stored_len_eq demo_opts_def demo_keys_def)

section \<open>Reading files nobody vouches for\<close>

lemma check_layout_entries_Inr:
  assumes "check_layout_entries data_end pages_end es = Inr u" "e \<in> set es"
  shows "unat (pe_len e) \<le> max_page_len \<and> data_end \<le> pe_offset e
    \<and> unat (pe_offset e) + unat (pe_len e) + page_overhead \<le> unat pages_end"
  using assms
proof (induction es)
  case (Cons x es)
  have l: "unat (pe_len x) \<le> max_page_len" using Cons.prems(1) by (auto split: if_splits)
  then have u: "unat (ucast (pe_len x) + word_of_nat page_overhead :: u64) = unat (pe_len x) + page_overhead"
    by (simp add: unat_word_ariths page_consts max_page_len_def)
  obtain en where en: "checked_add_u64 (pe_offset x) (ucast (pe_len x) + word_of_nat page_overhead) = Some en"
    "data_end \<le> pe_offset x" "en \<le> pages_end" "check_layout_entries data_end pages_end es = Inr u"
    using Cons.prems(1) by (auto split: if_splits option.splits simp: not_less)
  have "unat en = unat (pe_offset x) + unat (pe_len x) + page_overhead"
    using en(1) u by (simp only: checked_add_u64_Some)
  then show ?case using Cons en l by (auto simp: word_le_nat_alt)
qed simp

lemma reader_open_sound_facts:
  assumes "reader_open P file = Inr r" "length file < 2 ^ 64"
  shows "8192 \<le> length file \<and> ir_file r = file
    \<and> sb_decode P (take 4096 file) = Inr (ir_superblock r)
    \<and> footer_decode P (drop (length file - 4096) file) (take 1024 file) = Inr (ir_footer r)
    \<and> 4096 \<le> unat (data_end_offset (ir_footer r))
    \<and> unat (data_end_offset (ir_footer r)) \<le> length file - 4096
    \<and> (\<forall>e \<in> set (page_table (ir_footer r)).
         unat (data_end_offset (ir_footer r)) \<le> unat (pe_offset e)
         \<and> unat (pe_offset e) + unat (pe_len e) + page_overhead \<le> length file - 4096)"
proof -
  define fl :: u64 where "fl = word_of_nat (length file)"
  have fl: "unat fl = length file" unfolding fl_def by (rule unat_of_nat_u64 [OF assms(2)])
  note op = assms(1) [unfolded reader_open_def Let_def fl_def [symmetric]]
  from op have "\<not> fl < word_of_nat (sb_size + footer_size)" by (auto split: if_splits)
  then have len: "8192 \<le> length file" by (simp add: word_less_nat_alt fl sb_size_def footer_size_def)
  have pe: "unat (fl - word_of_nat footer_size) = length file - 4096"
    using len fl by (subst unat_sub) (simp_all add: word_le_nat_alt footer_size_def)
  have rd: "read_exact_io file 0 sb_size = Inr (take 4096 file)"
    "read_exact_io file (length file - 4096) footer_size = Inr (drop (length file - 4096) file)"
    using len by (simp_all add: read_exact_io_Inr sb_size_def footer_size_def slice_def)
  have cp: "min superblock_copy_len 4096 = 1024" by (simp add: sb_consts)
  from op rd obtain sb ft where d: "sb_decode P (take 4096 file) = Inr sb"
    "footer_decode P (drop (length file - 4096) file) (take 1024 file) = Inr ft"
    "validate_layout sb ft fl = Inr ()" "ir_file r = file" "ir_superblock r = sb" "ir_footer r = ft"
    by (auto simp: pe cp res_bind_eq_Inr split: if_splits)
  from d(3) have v: "\<not> data_end_offset ft < word_of_nat sb_size"
    "\<not> data_end_offset ft > fl - word_of_nat footer_size"
    "\<exists>u. check_layout_entries (data_end_offset ft) (fl - word_of_nat footer_size) (page_table ft) = Inr u"
    by (auto simp: validate_layout_def Let_def res_bind_eq_Inr split: if_splits)
  have "4096 \<le> unat (data_end_offset ft)" "unat (data_end_offset ft) \<le> length file - 4096"
    using v(1,2) pe by (simp_all add: word_less_nat_alt sb_size_def)
  moreover have "unat (data_end_offset ft) \<le> unat (pe_offset e)
      \<and> unat (pe_offset e) + unat (pe_len e) + page_overhead \<le> length file - 4096"
    if "e \<in> set (page_table ft)" for e
  proof -
    obtain u where "check_layout_entries (data_end_offset ft) (fl - word_of_nat footer_size) (page_table ft) = Inr u"
      using v(3) by blast
    from check_layout_entries_Inr [OF this that] show ?thesis by (simp only: pe word_le_nat_alt)
  qed
  ultimately show ?thesis using d len by simp
qed

text \<open>
  C22. An image that opens has a decodable superblock with a valid header, a
  footer bound to it, a chunk region inside the file, and every page extent of
  the footer lies between the chunk region and the footer: no later read of a
  page can leave the metadata region.
\<close>

theorem reader_open_sound:
  assumes "reader_open P file = Inr r" "length file < 2 ^ 64"
  shows "8192 \<le> length file \<and> ir_file r = file
    \<and> sb_decode P (take 4096 file) = Inr (ir_superblock r)
    \<and> footer_decode P (drop (length file - 4096) file) (take 1024 file) = Inr (ir_footer r)
    \<and> 4096 \<le> unat (data_end_offset (ir_footer r))
    \<and> unat (data_end_offset (ir_footer r)) \<le> length file - 4096
    \<and> (\<forall>e \<in> set (page_table (ir_footer r)).
         unat (data_end_offset (ir_footer r)) \<le> unat (pe_offset e)
         \<and> unat (pe_offset e) + unat (pe_len e) + page_overhead \<le> length file - 4096)"
  by (rule reader_open_sound_facts [OF assms])

lemma reader_open_demo:
  "\<exists>data r. reader_open demo_prims data = Inr r \<and> length data < 2 ^ 63 + 4096"
proof -
  have "image_fits [[1 :: u8, 2, 3]] [(Manifest, [5 :: u8])]"
    "co_compress demo_opts \<longrightarrow> 1 \<le> co_level demo_opts \<and> co_level demo_opts \<le> 22"
    "file_data demo_file = []" "sink_limit + footer_size \<le> file_capacity demo_file"
    by (simp_all add: image_fits_def max_stored_len_eq demo_opts_def demo_file_def sink_limit_def footer_size_def)
  then obtain refs ft recs pgs tpgs and f' :: disk_file where
    w: "written_image demo_prims demo_sb None demo_opts demo_keys [[1, 2, 3]] [(Manifest, [5])] refs ft
      (file_data f') recs pgs tpgs"
    using write_image_written [OF demo_prims_ok demo_sb_ok, of demo_opts demo_file "[[1, 2, 3]]"
        "[(Manifest, [5])]" None demo_keys] by blast
  then have "finished_image demo_prims (wk_meta_key demo_keys) None (co_kind demo_opts)
      (sb_image demo_prims demo_sb None) recs pgs tpgs ft (file_data f')"
    unfolding written_image_def by blast
  from finished_facts(1-3) [OF hash_ok_demo this] have "length (file_data f') < 2 ^ 63 + 4096" by simp
  then show ?thesis using written_opens(1) [OF demo_prims_ok demo_sb_ok w] by blast
qed

theorem reader_open_sound_witness:
  "\<exists>data r. reader_open demo_prims data = Inr r \<and> 8192 \<le> length data \<and> ir_file r = data
    \<and> sb_decode demo_prims (take 4096 data) = Inr (ir_superblock r)
    \<and> footer_decode demo_prims (drop (length data - 4096) data) (take 1024 data)
      = Inr (ir_footer r)
    \<and> 4096 \<le> unat (data_end_offset (ir_footer r))
    \<and> unat (data_end_offset (ir_footer r)) \<le> length data - 4096
    \<and> (\<forall>e \<in> set (page_table (ir_footer r)).
         unat (data_end_offset (ir_footer r)) \<le> unat (pe_offset e)
         \<and> unat (pe_offset e) + unat (pe_len e) + page_overhead \<le> length data - 4096)"
proof -
  obtain data r where o: "reader_open demo_prims data = Inr r" "length data < 2 ^ 63 + 4096"
    using reader_open_demo by blast
  then have "length data < 2 ^ 64" by simp
  from reader_open_sound [OF o(1) this] o(1) show ?thesis by blast
qed

text \<open>
  C23. The scan of the chunk region of any file that opens returns, and when it
  succeeds the region is exactly a sequence of framed records, as many as the
  footer declares.
\<close>

theorem scan_chunk_headers_sound:
  assumes "reader_open P file = Inr r" "length file < 2 ^ 63 + 4096"
  shows "\<exists>q. scan_chunk_headers r = Some q
    \<and> (\<forall>n. q = Inr n \<longrightarrow> n = total_chunks (ir_footer r)
         \<and> (\<exists>recs. slice 4096 (unat (data_end_offset (ir_footer r))) file = concat recs
              \<and> (\<forall>rec \<in> set recs. chunk_framed rec) \<and> n = word_of_nat (length recs)))"
proof -
  have "length file < 2 ^ 64" using assms(2) by simp
  from reader_open_sound_facts [OF assms(1) this] have
    d: "ir_file r = file" "4096 \<le> unat (data_end_offset (ir_footer r))"
      "unat (data_end_offset (ir_footer r)) \<le> length file - 4096" by blast+
  define de where "de = data_end_offset (ir_footer r)"
  have b: "unat de < 2 ^ 63" "unat de \<le> length file" "(4096 :: u64) \<le> de"
    using d(2,3) assms(2) by (simp_all add: de_def word_le_nat_alt)
  obtain q where q: "scan_loop file de 4096 0 = Some q" using scan_loop_total [OF b(1)] by blast
  have sound: "o' = de \<and> (\<exists>recs. slice 4096 (unat de) file = concat recs
      \<and> (\<forall>rec \<in> set recs. chunk_framed rec) \<and> c = word_of_nat (length recs))"
    if "q = Inr (o', c)" for o' c
    using scan_loop_sound [OF q [unfolded that] b(3,2,1)] by simp
  define q' where "q' = res_bind q (\<lambda>(offset, count).
      if offset \<noteq> de then Inl (Corrupt ''chunk records do not end at data_end_offset'')
      else if count \<noteq> total_chunks (ir_footer r) then Inl (Corrupt ''footer declares '') else Inr count)"
  have "scan_chunk_headers r = Some q'"
    using q by (simp add: scan_chunk_headers_def d(1) de_def [symmetric] sb_size_def q'_def)
  moreover have "n = total_chunks (ir_footer r) \<and> (\<exists>recs. slice 4096 (unat de) file = concat recs
      \<and> (\<forall>rec \<in> set recs. chunk_framed rec) \<and> n = word_of_nat (length recs))" if n: "q' = Inr n" for n
  proof -
    obtain o' where "q = Inr (o', n)" "n = total_chunks (ir_footer r)"
      using n by (auto simp: q'_def res_bind_eq_Inr split: if_splits)
    then show ?thesis using sound by blast
  qed
  ultimately show ?thesis unfolding de_def by blast
qed

theorem scan_chunk_headers_sound_witness:
  "\<exists>data r q. reader_open demo_prims data = Inr r \<and> scan_chunk_headers r = Some q
    \<and> (\<forall>n. q = Inr n \<longrightarrow> n = total_chunks (ir_footer r)
         \<and> (\<exists>recs. slice 4096 (unat (data_end_offset (ir_footer r))) data = concat recs
              \<and> (\<forall>rec \<in> set recs. chunk_framed rec) \<and> n = word_of_nat (length recs)))"
proof -
  obtain data r where o: "reader_open demo_prims data = Inr r" "length data < 2 ^ 63 + 4096"
    using reader_open_demo by blast
  from scan_chunk_headers_sound [OF o] o(1) show ?thesis by blast
qed

lemma chunk_reader_agrees:
  "ckr_read_bytes (chunk_reader_with r (ir_file r)) off n = read_chunk_bytes r off n"
  "ckr_read_record (chunk_reader_with r (ir_file r)) off = read_chunk_record r off"
proof -
  show eq: "ckr_read_bytes (chunk_reader_with r (ir_file r)) off n = read_chunk_bytes r off n" for n
    by (simp add: ckr_read_bytes_def read_chunk_bytes_def chunk_reader_with_def chunk_reader_new_def
        split: option.split)
  show "ckr_read_record (chunk_reader_with r (ir_file r)) off = read_chunk_record r off"
    by (simp add: ckr_read_record_def read_chunk_record_def eq)
qed

text \<open>Both readers of chunk records never leave the chunk region: a record
  that is returned lies between the superblock and \<open>data_end_offset\<close> and is
  byte for byte what the file holds there, and the independent chunk reader
  agrees with the image reader.
\<close>

lemma chunk_read_confined:
  "ckr_read_record (chunk_reader_with r (ir_file r)) offset = read_chunk_record r offset
   \<and> (\<forall>rec. read_chunk_record r offset = Inr rec \<longrightarrow>
        4096 \<le> unat offset
        \<and> rec = slice (unat offset) (unat offset + length rec) (ir_file r)
        \<and> (length rec < 2 ^ 64 \<longrightarrow> unat offset + length rec \<le> unat (data_end_offset (ir_footer r))))"
proof -
  have "4096 \<le> unat off \<and> b = slice (unat off) (unat off + length b) (ir_file r)
      \<and> (length b < 2 ^ 64 \<longrightarrow> unat off + length b \<le> unat (data_end_offset (ir_footer r)))"
    if rd: "read_chunk_bytes r off n = Inr b" for off n b
  proof -
    obtain en where en: "checked_add_u64 off (word_of_nat n) = Some en" "\<not> off < word_of_nat sb_size"
      "en \<le> data_end_offset (ir_footer r)" "read_exact_io (ir_file r) (unat off) n = Inr b"
      using rd by (auto simp: read_chunk_bytes_def split: option.splits if_splits)
    have l: "length b = n" "b = slice (unat off) (unat off + n) (ir_file r)"
      using en(4) by (auto simp: read_exact_io_Inr)
    have "unat en = unat off + n" if "n < 2 ^ 64"
      using en(1) that by (simp only: checked_add_u64_Some unat_of_nat_u64)
    then show ?thesis
      using en(2,3) l by (auto simp: word_less_nat_alt word_le_nat_alt sb_size_def)
  qed
  then show ?thesis
    by (auto simp: chunk_reader_agrees read_chunk_record_def res_bind_eq_Inr)
qed

definition demo_record :: chunk_record where
  "demo_record = \<lparr> cr_flags = 0, cr_nonce = replicate 12 0, cr_payload = [1, 2, 3], cr_tag = None \<rparr>"

definition demo_reader :: image_reader where
  "demo_reader = opened_image demo_prims None demo_sb
     \<lparr> total_chunks = 1, data_end_offset = 4118, page_table = [], footer_flags = 0 \<rparr>
     (replicate 4096 0 @ chunk_encode demo_record @ [])"

lemma demo_reader_record: "read_chunk_record demo_reader 4096 = Inr (chunk_encode demo_record)"
proof -
  have wf: "chunk_record_wf demo_record"
    by (simp add: chunk_record_wf_def demo_record_def max_stored_len_eq chunk_is_encrypted_def)
  have "length (chunk_encode demo_record) = 22"
    using length_chunk_encode [OF wf]
    by (simp add: chunk_record_total_len_def chunk_consts demo_record_def chunk_is_encrypted_def)
  then show ?thesis
    using read_chunk_record_at [of demo_reader "replicate 4096 0" "chunk_encode demo_record" "[]"]
      chunk_framed_encode [OF wf]
    by (simp add: demo_reader_def opened_image_def sb_size_def)
qed

end
