(* ===== verification/Engine_Keys.thy ===== *)
theory Engine_Keys
  imports Superblock
begin

text \<open>
  \<open>crates/lr-engine/src/keys.rs\<close> and \<open>derive_kek\<close> of \<open>crates/lr-crypto/src/kdf.rs\<close>: how the keys of
  an image are made and how they are recovered from its superblock.  Argon2id is the parameter
  \<open>argon2\<close>; what the code draws from the system's random source is an argument.
\<close>

type_synonym argon2id = "bytes \<Rightarrow> bytes \<Rightarrow> kdf_params \<Rightarrow> bytes option"

definition derive_kek :: "argon2id \<Rightarrow> bytes \<Rightarrow> bytes \<Rightarrow> kdf_params \<Rightarrow> bytes res" where
  "derive_kek argon2 passphrase salt params =
     res_bind (check_budget params) (\<lambda>_.
       case argon2 passphrase salt params of None \<Rightarrow> Inl (Unsupported ''argon2: '') | Some kek \<Rightarrow> Inr kek)"

datatype encryption = Passphrase bytes | NoEncrypt

record image_keys =
  ik_data_key :: "bytes option"
  ik_meta_key :: bytes
  ik_dedup_key :: bytes

definition make_image_keys :: "prims \<Rightarrow> bytes \<Rightarrow> uuid \<Rightarrow> uuid \<Rightarrow> bool \<Rightarrow> image_keys res" where
  "make_image_keys P chain_key cid uuid encrypted =
     res_bind (file_keys P chain_key uuid) (\<lambda>(data_key, meta_key).
     res_bind (dedup_key_of P chain_key cid) (\<lambda>dedup_key.
       Inr \<lparr> ik_data_key = (if encrypted then Some data_key else None), ik_meta_key = meta_key,
             ik_dedup_key = dedup_key \<rparr>))"

definition chain_key_of :: "prims \<Rightarrow> argon2id \<Rightarrow> encryption \<Rightarrow> superblock \<Rightarrow> (bytes \<times> bool) res" where
  "chain_key_of P argon2 encryption sb =
     (if \<not> sb_is_encrypted sb then Inr (fixed_public_mac_key P, False)
      else (case encryption of
          NoEncrypt \<Rightarrow> Inl (Unsupported ''this image is encrypted; supply a passphrase file'')
        | Passphrase pass \<Rightarrow>
            res_bind (derive_kek argon2 pass (kdf_salt sb) (sb_kdf_params sb)) (\<lambda>kek.
            res_bind (unwrap_chain_key P kek (chain_id sb) (wrap_nonce sb) (wrapped_chain_key sb)) (\<lambda>chain_key.
              Inr (chain_key, True)))))"

record new_chain_keys =
  nk_keys :: image_keys
  nk_kdf_salt :: bytes
  nk_params :: kdf_params
  nk_wrap_nonce :: bytes
  nk_wrapped_chain_key :: bytes
  nk_encrypted :: bool

definition kdf_params_default :: kdf_params where
  "kdf_params_default = \<lparr> m_cost_kib = 256 * 1024, t_cost = 3, p_cost = 4 \<rparr>"

definition make_new_chain_keys ::
    "prims \<Rightarrow> argon2id \<Rightarrow> encryption \<Rightarrow> uuid \<Rightarrow> uuid \<Rightarrow> bytes \<Rightarrow> bytes \<Rightarrow> bytes \<Rightarrow> new_chain_keys res" where
  "make_new_chain_keys P argon2 encryption cid uuid random_salt random_key random_nonce =
     (case encryption of
        Passphrase pass \<Rightarrow>
          res_bind (derive_kek argon2 pass random_salt kdf_params_default) (\<lambda>kek.
          res_bind (wrap_chain_key P random_nonce kek random_key cid) (\<lambda>(wrap_nonce, wrapped).
          res_bind (make_image_keys P random_key cid uuid True) (\<lambda>keys.
            Inr \<lparr> nk_keys = keys, nk_kdf_salt = random_salt, nk_params = kdf_params_default,
                  nk_wrap_nonce = wrap_nonce, nk_wrapped_chain_key = wrapped, nk_encrypted = True \<rparr>)))
      | NoEncrypt \<Rightarrow>
          res_bind (make_image_keys P (fixed_public_mac_key P) cid uuid False) (\<lambda>keys.
            Inr \<lparr> nk_keys = keys, nk_kdf_salt = replicate 16 0,
                  nk_params = \<lparr> m_cost_kib = 0, t_cost = 0, p_cost = 0 \<rparr>,
                  nk_wrap_nonce = replicate 12 0, nk_wrapped_chain_key = replicate 48 0, nk_encrypted = False \<rparr>))"

definition member_chain_keys ::
    "prims \<Rightarrow> argon2id \<Rightarrow> encryption \<Rightarrow> superblock \<Rightarrow> uuid \<Rightarrow> uuid \<Rightarrow> bytes \<Rightarrow> new_chain_keys res" where
  "member_chain_keys P argon2 encryption parent cid uuid random_nonce =
     (if chain_id parent \<noteq> cid then Inl (Unsupported ''parent belongs to chain '')
      else if \<not> sb_is_encrypted parent then
        (case encryption of
           Passphrase _ \<Rightarrow> Inl (Unsupported ''the parent chain is not encrypted, and encryption cannot be added to an existing chain; start a new encrypted chain with a full backup, or back up without a passphrase to continue this one'')
         | NoEncrypt \<Rightarrow>
             res_bind (make_image_keys P (fixed_public_mac_key P) cid uuid False) (\<lambda>keys.
               Inr \<lparr> nk_keys = keys, nk_kdf_salt = kdf_salt parent, nk_params = sb_kdf_params parent,
                     nk_wrap_nonce = replicate 12 0, nk_wrapped_chain_key = replicate 48 0, nk_encrypted = False \<rparr>))
      else (case encryption of
          NoEncrypt \<Rightarrow> Inl (Unsupported ''the chain is encrypted; supply a passphrase file'')
        | Passphrase pass \<Rightarrow>
            res_bind (derive_kek argon2 pass (kdf_salt parent) (sb_kdf_params parent)) (\<lambda>kek.
            res_bind (unwrap_chain_key P kek (chain_id parent) (wrap_nonce parent) (wrapped_chain_key parent)) (\<lambda>chain_key.
            res_bind (wrap_chain_key P random_nonce kek chain_key cid) (\<lambda>(wrap_nonce, wrapped).
            res_bind (make_image_keys P chain_key cid uuid True) (\<lambda>keys.
              Inr \<lparr> nk_keys = keys, nk_kdf_salt = kdf_salt parent, nk_params = sb_kdf_params parent,
                    nk_wrap_nonce = wrap_nonce, nk_wrapped_chain_key = wrapped, nk_encrypted = True \<rparr>))))))"

definition unlock_with_chain_key ::
    "prims \<Rightarrow> bytes \<Rightarrow> uuid \<Rightarrow> superblock \<Rightarrow> bool \<Rightarrow> image_keys res" where
  "unlock_with_chain_key P chain_key cid sb encrypted =
     (if chain_id sb \<noteq> cid then Inl (Unsupported ''member '')
      else make_image_keys P chain_key cid (image_uuid sb) encrypted)"

definition unlock_image :: "prims \<Rightarrow> argon2id \<Rightarrow> encryption \<Rightarrow> superblock \<Rightarrow> image_keys res" where
  "unlock_image P argon2 encryption sb =
     (if sb_is_encrypted sb then
        (case encryption of
           NoEncrypt \<Rightarrow> Inl (Unsupported ''this image is encrypted; supply a passphrase file'')
         | Passphrase pass \<Rightarrow>
             res_bind (derive_kek argon2 pass (kdf_salt sb) (sb_kdf_params sb)) (\<lambda>kek.
             res_bind (unwrap_chain_key P kek (chain_id sb) (wrap_nonce sb) (wrapped_chain_key sb)) (\<lambda>chain_key.
               make_image_keys P chain_key (chain_id sb) (image_uuid sb) True)))
      else make_image_keys P (fixed_public_mac_key P) (chain_id sb) (image_uuid sb) False)"

section \<open>Lemmas\<close>

text \<open>Opening one image and opening it as a member of its chain derive the same keys.\<close>

lemma unlock_image_eq:
  "unlock_image P argon2 encryption sb =
     res_bind (chain_key_of P argon2 encryption sb) (\<lambda>(chain_key, encrypted).
       unlock_with_chain_key P chain_key (chain_id sb) sb encrypted)"
  by (simp add: unlock_image_def chain_key_of_def unlock_with_chain_key_def res_bind_assoc split: encryption.split)

text \<open>A superblock that carries the keys as the backup writes them.\<close>

definition carries :: "superblock \<Rightarrow> uuid \<Rightarrow> uuid \<Rightarrow> new_chain_keys \<Rightarrow> bool" where
  "carries sb cid uuid nk \<longleftrightarrow> chain_id sb = cid \<and> image_uuid sb = uuid \<and> sb_is_encrypted sb = nk_encrypted nk
     \<and> kdf_salt sb = nk_kdf_salt nk \<and> sb_kdf_params sb = nk_params nk
     \<and> wrap_nonce sb = nk_wrap_nonce nk \<and> wrapped_chain_key sb = nk_wrapped_chain_key nk"

lemma new_chain_unlocks:
  assumes "aead_ok P" "length random_key = 32"
    and "make_new_chain_keys P argon2 enc cid uuid salt random_key nonce = Inr nk" "carries sb cid uuid nk"
  shows "unlock_image P argon2 enc sb = Inr (nk_keys nk) \<and> (nk_encrypted nk \<longleftrightarrow> enc \<noteq> NoEncrypt)"
proof (cases enc)
  case (Passphrase pass)
  then obtain kek n w keys where k: "derive_kek argon2 pass salt kdf_params_default = Inr kek"
    "wrap_chain_key P nonce kek random_key cid = Inr (n, w)" "make_image_keys P random_key cid uuid True = Inr keys"
    "nk = \<lparr> nk_keys = keys, nk_kdf_salt = salt, nk_params = kdf_params_default,
            nk_wrap_nonce = n, nk_wrapped_chain_key = w, nk_encrypted = True \<rparr>"
    using assms(3) by (auto simp: make_new_chain_keys_def res_bind_eq_Inr)
  then show ?thesis
    using assms(4) unwrap_wrap_chain_key [OF assms(1,2) k(2)] Passphrase
    by (auto simp: unlock_image_def carries_def)
next
  case NoEncrypt
  then show ?thesis
    using assms(3,4) by (auto simp: make_new_chain_keys_def unlock_image_def carries_def res_bind_eq_Inr)
qed

lemma make_image_keys_dedup:
  "make_image_keys P ck cid uuid e = Inr k \<Longrightarrow> dedup_key_of P ck cid = Inr (ik_dedup_key k)"
  by (auto simp: make_image_keys_def res_bind_eq_Inr)

lemma unlock_image_dedup:
  assumes "unlock_image P argon2 enc sb = Inr k"
  obtains ck e where "chain_key_of P argon2 enc sb = Inr (ck, e)"
    "dedup_key_of P ck (chain_id sb) = Inr (ik_dedup_key k)"
  using assms unfolding unlock_image_eq
  by (auto simp: res_bind_eq_Inr unlock_with_chain_key_def dest: make_image_keys_dedup)

lemma unwrap_length: "unwrap_chain_key P kek cid n w = Inr k \<Longrightarrow> length k = 32"
  by (auto simp: unwrap_chain_key_def res_bind_eq_Inr Let_def split: if_splits)

lemma member_unlocks:
  assumes "aead_ok P"
    and "member_chain_keys P argon2 enc parent cid uuid nonce = Inr nk" "carries sb cid uuid nk"
  shows "unlock_image P argon2 enc sb = Inr (nk_keys nk)
    \<and> chain_key_of P argon2 enc sb = chain_key_of P argon2 enc parent
    \<and> sb_is_encrypted sb = sb_is_encrypted parent"
proof (cases enc)
  case (Passphrase pass)
  then have cid: "chain_id parent = cid" and enc: "sb_is_encrypted parent"
    using assms(2) by (auto simp: member_chain_keys_def split: if_splits)
  then obtain kek ck n w keys where k: "derive_kek argon2 pass (kdf_salt parent) (sb_kdf_params parent) = Inr kek"
    "unwrap_chain_key P kek cid (wrap_nonce parent) (wrapped_chain_key parent) = Inr ck"
    "wrap_chain_key P nonce kek ck cid = Inr (n, w)" "make_image_keys P ck cid uuid True = Inr keys"
    "nk = \<lparr> nk_keys = keys, nk_kdf_salt = kdf_salt parent, nk_params = sb_kdf_params parent,
            nk_wrap_nonce = n, nk_wrapped_chain_key = w, nk_encrypted = True \<rparr>"
    using assms(2) Passphrase by (auto simp: member_chain_keys_def res_bind_eq_Inr)
  then show ?thesis
    using assms(3) unwrap_wrap_chain_key [OF assms(1) unwrap_length [OF k(2)] k(3)] Passphrase cid enc
    by (auto simp: unlock_image_def carries_def chain_key_of_def)
next
  case NoEncrypt
  then show ?thesis
    using assms(2,3) by (auto simp: member_chain_keys_def unlock_image_def carries_def chain_key_of_def
        res_bind_eq_Inr split: if_splits)
qed

section \<open>Properties\<close>


definition demo_argon2 :: argon2id where
  "demo_argon2 pass salt params = (if length salt = 16 then Some (take 32 (pass @ replicate 32 7)) else None)"

definition superblock_with :: "superblock \<Rightarrow> uuid \<Rightarrow> new_chain_keys \<Rightarrow> superblock" where
  "superblock_with sb uuid nk = sb\<lparr> image_uuid := uuid, kdf_salt := nk_kdf_salt nk,
     argon2_m_cost_kib := m_cost_kib (nk_params nk), argon2_t_cost := t_cost (nk_params nk),
     argon2_p_cost := p_cost (nk_params nk), wrap_nonce := nk_wrap_nonce nk,
     wrapped_chain_key := nk_wrapped_chain_key nk \<rparr>"


end
