(* ===== verification/Chain_Walk.thy ===== *)
theory Chain_Walk
  imports Block_Manifest Image_Roundtrip Catalog Engine_Keys
begin

text \<open>
  \<open>crates/lr-engine/src/chain.rs\<close>: a chain of images - a full backup and the members that build on
  it - opened, checked and walked chunk by chunk.  The walk holds one cursor per member over the
  member's manifest stream and resolves, for every chunk number, what the newest member of the chain
  says about it.

  The readers work over any byte source, so the cursor lemmas are proved in the locale
  \<open>byte_source\<close> and used for page streams.  The closure a caller passes to \<open>walk\<close> is a function
  \<open>visit\<close> on a state of its own; a panic on an empty list of members cannot happen after \<open>new\<close>.
\<close>

section \<open>Members\<close>

record chain_member_file =
  cf_file_name :: string
  cf_seq_in_chain :: u32
  cf_image_uuid :: uuid

record open_member =
  om_file_name :: string
  om_seq_in_chain :: u32
  om_image_uuid :: uuid
  om_kind :: member_kind
  om_superblock :: superblock
  om_reader :: image_reader
  om_chunks :: chunk_reader
  om_keys :: image_keys

function stream_bytes_loop :: "prims \<Rightarrow> page_stream_reader \<Rightarrow> bytes \<Rightarrow> bytes res" where
  "stream_bytes_loop P st sink =
     (case read_bytes_partial P (64 * 1024) st of
        Inl e \<Rightarrow> Inl e
      | Inr (bs, st') \<Rightarrow> if bs = [] then Inr sink else stream_bytes_loop P st' (sink @ bs))"
  by pat_completeness auto
termination
  by (relation "inv_image (measures [\<lambda>s. length (pr_entries s) - pr_index s,
      \<lambda>s. length (pr_buf s) - pr_pos s]) (\<lambda>(P, st, sink). st)")
    (auto intro: read_bytes_partial_progress simp del: in_measures)

declare stream_bytes_loop.simps [simp del]

definition stream_bytes :: "prims \<Rightarrow> open_member \<Rightarrow> stream_id \<Rightarrow> bytes res" where
  "stream_bytes P m stream =
     res_bind (sb_aead_kind (om_superblock m)) (\<lambda>kind.
     res_bind (stream_reader P (om_reader m) stream (ik_meta_key (om_keys m)) kind) (\<lambda>page.
       stream_bytes_loop P page []))"

definition chunk_plaintext :: "prims \<Rightarrow> open_member \<Rightarrow> block_entry \<Rightarrow> nat \<Rightarrow> bytes res" where
  "chunk_plaintext P m e max_plaintext =
     res_bind (sb_aead_kind (om_superblock m)) (\<lambda>kind.
     res_bind (if sb_is_encrypted (om_superblock m) then
         (case ik_data_key (om_keys m) of
            None \<Rightarrow> Inl (Corrupt ''the member has no data key'') | Some k \<Rightarrow> Inr (Some k))
       else Inr None) (\<lambda>data_key.
     res_bind (ckr_read_record (om_chunks m) (be_offset e)) (\<lambda>b.
       open_chunk P kind data_key (ik_dedup_key (om_keys m)) (sb_image_kind (om_superblock m))
         (be_hash e) max_plaintext b)))"

fun open_readers :: "prims \<Rightarrow> (string \<Rightarrow> bytes res) \<Rightarrow> chain_member_file list \<Rightarrow> image_reader list res" where
  "open_readers P open_ro [] = Inr []"
| "open_readers P open_ro (f # fs) =
     res_bind (open_ro (cf_file_name f)) (\<lambda>content.
     res_bind (reader_open P content) (\<lambda>r.
     res_bind (open_readers P open_ro fs) (\<lambda>rs. Inr (r # rs))))"

definition open_one ::
    "prims \<Rightarrow> (string \<Rightarrow> bytes res) \<Rightarrow> bytes \<Rightarrow> uuid \<Rightarrow> bool \<Rightarrow> chain_member_file \<Rightarrow> image_reader \<Rightarrow> open_member res" where
  "open_one P open_ro chain_key cid encrypted f r =
     (let sb = ir_superblock r in
      if chain_id sb \<noteq> cid then Inl (Corrupt ''member belongs to chain '')
      else res_bind (unlock_with_chain_key P chain_key cid sb encrypted) (\<lambda>member_keys.
        res_bind (reader_authenticate P r (if encrypted then Some (ik_meta_key member_keys) else None)) (\<lambda>_.
        res_bind (open_ro (cf_file_name f)) (\<lambda>content.
          Inr \<lparr> om_file_name = cf_file_name f, om_seq_in_chain = seq_in_chain sb,
                om_image_uuid = image_uuid sb, om_kind = member_kind_of sb, om_superblock = sb,
                om_reader = r, om_chunks = chunk_reader_with r content, om_keys = member_keys \<rparr>))))"

fun open_members ::
    "prims \<Rightarrow> (string \<Rightarrow> bytes res) \<Rightarrow> bytes \<Rightarrow> uuid \<Rightarrow> bool
     \<Rightarrow> (chain_member_file \<times> image_reader) list \<Rightarrow> open_member list res" where
  "open_members P open_ro chain_key cid encrypted [] = Inr []"
| "open_members P open_ro chain_key cid encrypted ((f, r) # rest) =
     res_bind (open_one P open_ro chain_key cid encrypted f r) (\<lambda>m.
     res_bind (open_members P open_ro chain_key cid encrypted rest) (\<lambda>ms. Inr (m # ms)))"

definition open_chain ::
    "prims \<Rightarrow> argon2id \<Rightarrow> 's destination_ops \<Rightarrow> 's \<Rightarrow> chain_member_file list \<Rightarrow> encryption \<Rightarrow> open_member list res" where
  "open_chain P argon2 D s files encryption =
     (if files = [] then Inl (Unsupported ''the chain has no members'')
      else res_bind (open_readers P (d_open_ro D s) files) (\<lambda>readers.
        let first = ir_superblock (hd readers) in
        res_bind (chain_key_of P argon2 encryption first) (\<lambda>(chain_key, encrypted).
          open_members P (d_open_ro D s) chain_key (chain_id first) encrypted (zip files readers))))"

definition is_change :: "chunk_state \<Rightarrow> chunk_state \<Rightarrow> bool" where
  "is_change source parent =
     (case (source, parent) of
        (Stored _ left _ _, Stored _ right _ _) \<Rightarrow> left \<noteq> right
      | (Zero, Zero) \<Rightarrow> False
      | (Unused, Unused) \<Rightarrow> False
      | _ \<Rightarrow> True)"

section \<open>Finding the members of a chain\<close>

definition read_superblock :: "prims \<Rightarrow> (string \<Rightarrow> bytes res) \<Rightarrow> string \<Rightarrow> superblock res" where
  "read_superblock P open_ro name =
     res_bind (open_ro name) (\<lambda>content.
     res_bind (read_exact_io content 0 sb_size) (\<lambda>b. sb_decode P b))"

definition chain_candidate ::
    "prims \<Rightarrow> (string \<Rightarrow> bytes res) \<Rightarrow> superblock \<Rightarrow> string \<Rightarrow> chain_member_file option" where
  "chain_candidate P open_ro target name =
     (if \<not> ends_with ''.lrimg'' name then None
      else (case read_superblock P open_ro name of
          Inl _ \<Rightarrow> None
        | Inr candidate \<Rightarrow>
            if chain_id candidate \<noteq> chain_id target \<or> seq_in_chain candidate > seq_in_chain target then None
            else Some \<lparr> cf_file_name = name, cf_seq_in_chain = seq_in_chain candidate,
                        cf_image_uuid = image_uuid candidate \<rparr>))"

text \<open>\<open>u32::try_from(index).unwrap_or(u32::MAX)\<close>.\<close>

definition u32_of_index :: "nat \<Rightarrow> u32" where
  "u32_of_index i = (if i < 2 ^ 32 then word_of_nat i else - 1)"

fun check_sequence :: "nat \<Rightarrow> chain_member_file list \<Rightarrow> unit res" where
  "check_sequence i [] = Inr ()"
| "check_sequence i (m # ms) =
     (if cf_seq_in_chain m \<noteq> u32_of_index i then Inl (Corrupt ''the chain is incomplete: no member at sequence '')
      else check_sequence (Suc i) ms)"

definition resolve_chain :: "prims \<Rightarrow> 's destination_ops \<Rightarrow> 's \<Rightarrow> string \<Rightarrow> chain_member_file list res" where
  "resolve_chain P D s image_name =
     res_bind (read_superblock P (d_open_ro D s) image_name) (\<lambda>target.
     res_bind (d_list D s) (\<lambda>names.
       let candidates = sort_key cf_seq_in_chain (List.map_filter (chain_candidate P (d_open_ro D s) target) names) in
       res_bind (check_sequence 0 candidates) (\<lambda>_.
         if candidates = [] then Inl (Corrupt ''no chain members found for '') else Inr candidates)))"

section \<open>The checks of a chain\<close>

record chain_walk =
  cw_members :: "open_member list"
  cw_chunk_count :: u64
  cw_chunk_size :: u32

definition disagrees :: "superblock \<Rightarrow> superblock \<Rightarrow> bool" where
  "disagrees sb first \<longleftrightarrow> chunk_size sb \<noteq> chunk_size first \<or> source_size_bytes sb \<noteq> source_size_bytes first
     \<or> sb_image_kind sb \<noteq> sb_image_kind first \<or> set_id sb \<noteq> set_id first"

text \<open>\<open>previous\<close> is the member before the current one in the sorted list, itself at the first.\<close>

fun check_members :: "open_member \<Rightarrow> open_member \<Rightarrow> nat \<Rightarrow> open_member list \<Rightarrow> unit res" where
  "check_members first previous i [] = Inr ()"
| "check_members first previous i (m # ms) =
     (if om_seq_in_chain m \<noteq> u32_of_index i then Inl (Corrupt ''chain has a gap at sequence '')
      else if om_seq_in_chain m > 0 \<and> parent_uuid (om_superblock m) \<noteq> om_image_uuid previous
        then Inl (Corrupt ''member does not link to '')
      else if disagrees (om_superblock m) (om_superblock first) then Inl (Corrupt ''member disagrees about the '')
      else check_members first m (Suc i) ms)"

definition manifest_stream :: "prims \<Rightarrow> open_member \<Rightarrow> page_stream_reader res" where
  "manifest_stream P m =
     res_bind (sb_aead_kind (om_superblock m)) (\<lambda>kind.
       stream_reader P (om_reader m) Manifest (ik_meta_key (om_keys m)) kind)"

definition chain_walk_new :: "prims \<Rightarrow> open_member list \<Rightarrow> chain_walk res" where
  "chain_walk_new P members =
     (if members = [] then Inl (Unsupported ''the chain has no members'')
      else (let members = sort_key om_seq_in_chain members; first = hd members in
        if om_seq_in_chain first \<noteq> 0 \<or> om_kind first \<noteq> Full
          then Inl (Corrupt ''chain does not start with a full member'')
        else res_bind (check_members first first 0 members) (\<lambda>_.
          res_bind (manifest_stream P first) (\<lambda>stream.
          res_bind (block_header_read (page_read_bytes P) stream) (\<lambda>((header, _), _).
            Inr \<lparr> cw_members = members, cw_chunk_count = bm_chunk_count header,
                  cw_chunk_size = chunk_size (om_superblock first) \<rparr>)))))"

section \<open>Cursors\<close>

record 's cursor =
  cu_wire :: 's
  cu_is_full :: bool
  cu_file_name :: string
  cu_chunk_count :: u64
  cu_chunk_size :: u32
  cu_remaining :: u64
  cu_pending :: "delta_entry option"

definition cursor_read_delta ::
    "(nat \<Rightarrow> ('s, bytes) reader) \<Rightarrow> 's cursor \<Rightarrow> (delta_entry option \<times> 's cursor) res" where
  "cursor_read_delta rb c =
     (if cu_remaining c = 0 then Inr (None, c)
      else res_bind (delta_read rb (cu_wire c)) (\<lambda>(d, w).
        Inr (Some d, c\<lparr> cu_wire := w, cu_remaining := cu_remaining c - 1 \<rparr>)))"

definition cursor_open ::
    "(nat \<Rightarrow> ('s, bytes) reader) \<Rightarrow> 's \<Rightarrow> bool \<Rightarrow> string \<Rightarrow> 's cursor res" where
  "cursor_open rb stream delta file_name =
     res_bind (block_header_read rb stream) (\<lambda>((header, header_delta), w).
       if header_delta \<noteq> delta then Inl (Corrupt ''the manifest kind disagrees with the superblock'')
       else let c = \<lparr> cu_wire = w, cu_is_full = \<not> delta, cu_file_name = file_name,
                      cu_chunk_count = bm_chunk_count header, cu_chunk_size = bm_chunk_size header,
                      cu_remaining = bm_entry_count header, cu_pending = None \<rparr> in
         if delta then res_bind (cursor_read_delta rb c) (\<lambda>(p, c). Inr (c\<lparr> cu_pending := p \<rparr>))
         else Inr c)"

definition cursor_state_at ::
    "(nat \<Rightarrow> ('s, bytes) reader) \<Rightarrow> u64 \<Rightarrow> chunk_state \<Rightarrow> 's cursor \<Rightarrow> (chunk_state \<times> 's cursor) res" where
  "cursor_state_at rb index current c =
     (if cu_is_full c then
        (if cu_remaining c = 0 then Inl (Corrupt ''member ends before chunk '')
         else res_bind (entry_read rb (cu_wire c)) (\<lambda>(e, w).
           Inr (chunk_state_from e, c\<lparr> cu_wire := w, cu_remaining := cu_remaining c - 1 \<rparr>)))
      else (case cu_pending c of
          None \<Rightarrow> Inr (current, c)
        | Some pending \<Rightarrow>
            if de_chunk_no pending < index then Inl (Corrupt ''member has an out-of-order delta entry for chunk '')
            else if de_chunk_no pending > index then Inr (current, c)
            else res_bind (cursor_read_delta rb (c\<lparr> cu_pending := None \<rparr>)) (\<lambda>(p, c).
              Inr (chunk_state_from (de_entry pending), c\<lparr> cu_pending := p \<rparr>))))"

section \<open>Reading payloads\<close>

record member_access_keys =
  mk_data_key :: "bytes option"
  mk_dedup_key :: bytes

record chunk_access =
  ca_readers :: "chunk_reader list"
  ca_keys :: "member_access_keys list"
  ca_aead :: aead_kind
  ca_image_kind :: image_kind
  ca_max_plaintext :: nat

definition chunk_access_read :: "prims \<Rightarrow> chunk_access \<Rightarrow> chunk_state \<Rightarrow> bytes res" where
  "chunk_access_read P acc state =
     (case state of
        Stored member hash offset _ \<Rightarrow>
          (let index = unat member in
           if index \<ge> length (ca_readers acc) then Inl (Corrupt ''chunk points at member '')
           else if index \<ge> length (ca_keys acc) then Inl (Corrupt ''chunk points at member '')
           else res_bind (ckr_read_record (ca_readers acc ! index) offset) (\<lambda>record_bytes.
             open_chunk P (ca_aead acc) (mk_data_key (ca_keys acc ! index)) (mk_dedup_key (ca_keys acc ! index))
               (ca_image_kind acc) hash (ca_max_plaintext acc) record_bytes))
      | _ \<Rightarrow> Inl (Corrupt ''only stored chunks have a payload''))"

section \<open>The walk\<close>

type_synonym 'v visitor = "chunk_access \<Rightarrow> u64 \<Rightarrow> chunk_state \<Rightarrow> 'v \<Rightarrow> unit res \<times> 'v"

fun open_cursors :: "prims \<Rightarrow> open_member list \<Rightarrow> page_stream_reader cursor list res" where
  "open_cursors P [] = Inr []"
| "open_cursors P (m # ms) =
     res_bind (manifest_stream P m) (\<lambda>stream.
     res_bind (cursor_open (page_read_bytes P) stream (om_kind m = Incremental) (om_file_name m)) (\<lambda>c.
     res_bind (open_cursors P ms) (\<lambda>cs. Inr (c # cs))))"

fun check_cursors :: "u64 \<Rightarrow> u32 \<Rightarrow> 's cursor list \<Rightarrow> unit res" where
  "check_cursors chunks sz [] = Inr ()"
| "check_cursors chunks sz (c # cs) =
     (if cu_chunk_count c \<noteq> chunks then Inl (Corrupt ''member declares another chunk count'')
      else if cu_chunk_size c \<noteq> sz then Inl (Corrupt ''member declares a chunk size of '')
      else check_cursors chunks sz cs)"

text \<open>One chunk through all cursors, oldest member first.\<close>

fun resolve_index ::
    "(nat \<Rightarrow> ('s, bytes) reader) \<Rightarrow> u64 \<Rightarrow> chunk_state \<Rightarrow> 's cursor list \<Rightarrow> (chunk_state \<times> 's cursor list) res" where
  "resolve_index rb index state [] = Inr (state, [])"
| "resolve_index rb index state (c # cs) =
     res_bind (cursor_state_at rb index state c) (\<lambda>(state, c).
     res_bind (resolve_index rb index state cs) (\<lambda>(state, cs). Inr (state, c # cs)))"

text \<open>\<open>for index in 0..chunk_count\<close>: the first argument counts the chunks left.\<close>

fun walk_chunks ::
    "nat \<Rightarrow> (nat \<Rightarrow> ('s, bytes) reader) \<Rightarrow> (u64 \<Rightarrow> chunk_state \<Rightarrow> 'v \<Rightarrow> unit res \<times> 'v)
     \<Rightarrow> u64 \<Rightarrow> 's cursor list \<Rightarrow> 'v \<Rightarrow> 's cursor list res \<times> 'v" where
  "walk_chunks 0 rb visit index cursors v = (Inr cursors, v)"
| "walk_chunks (Suc n) rb visit index cursors v =
     st_bind (resolve_index rb index Unused cursors, v) (\<lambda>(state, cursors) v.
     st_bind (visit index state v) (\<lambda>_ v. walk_chunks n rb visit (index + 1) cursors v))"

fun walk_own_member ::
    "nat \<Rightarrow> (nat \<Rightarrow> ('s, bytes) reader) \<Rightarrow> (u64 \<Rightarrow> chunk_state \<Rightarrow> 'v \<Rightarrow> unit res \<times> 'v)
     \<Rightarrow> u16 \<Rightarrow> u64 \<Rightarrow> 's cursor \<Rightarrow> 'v \<Rightarrow> 's cursor res \<times> 'v" where
  "walk_own_member 0 rb visit own index c v = (Inr c, v)"
| "walk_own_member (Suc n) rb visit own index c v =
     st_bind (cursor_state_at rb index Unused c, v) (\<lambda>(state, c) v.
     st_bind (case state of Stored m _ _ _ \<Rightarrow> if m = own then visit index state v else (Inr (), v)
              | _ \<Rightarrow> (Inr (), v)) (\<lambda>_ v.
       walk_own_member n rb visit own (index + 1) c v))"

definition u16_of_index :: "nat \<Rightarrow> u16" where
  "u16_of_index i = (if i < 2 ^ 16 then word_of_nat i else - 1)"

fun walk_own_members ::
    "nat \<Rightarrow> (nat \<Rightarrow> ('s, bytes) reader) \<Rightarrow> (u64 \<Rightarrow> chunk_state \<Rightarrow> 'v \<Rightarrow> unit res \<times> 'v)
     \<Rightarrow> nat \<Rightarrow> 's cursor list \<Rightarrow> 'v \<Rightarrow> 's cursor list res \<times> 'v" where
  "walk_own_members n rb visit position [] v = (Inr [], v)"
| "walk_own_members n rb visit position (c # cs) v =
     st_bind (walk_own_member n rb visit (u16_of_index position) 0 c v) (\<lambda>c v.
     st_bind (walk_own_members n rb visit (Suc position) cs v) (\<lambda>cs v. (Inr (c # cs), v)))"

fun check_exhausted :: "'s cursor list \<Rightarrow> unit res" where
  "check_exhausted [] = Inr ()"
| "check_exhausted (c # cs) =
     (if cu_pending c \<noteq> None then Inl (Corrupt ''member has a delta entry for a chunk outside the image'')
      else if cu_remaining c \<noteq> 0 then Inl (Corrupt ''member has unused manifest entries'')
      else check_exhausted cs)"

definition access_of :: "open_member list \<Rightarrow> aead_kind \<Rightarrow> u32 \<Rightarrow> chunk_access" where
  "access_of members aead sz =
     \<lparr> ca_readers = map om_chunks members,
       ca_keys = map (\<lambda>m. \<lparr> mk_data_key = ik_data_key (om_keys m), mk_dedup_key = ik_dedup_key (om_keys m) \<rparr>) members,
       ca_aead = aead, ca_image_kind = sb_image_kind (om_superblock (hd members)),
       ca_max_plaintext = unat sz \<rparr>"

definition walk_with :: "prims \<Rightarrow> bool \<Rightarrow> 'v visitor \<Rightarrow> chain_walk \<Rightarrow> 'v \<Rightarrow> unit res \<times> 'v" where
  "walk_with P own_payloads visit w v =
     st_bind (sb_aead_kind (om_superblock (hd (cw_members w))), v) (\<lambda>aead v.
     st_bind (open_cursors P (cw_members w), v) (\<lambda>cursors v.
     st_bind (check_cursors (cw_chunk_count w) (cw_chunk_size w) cursors, v) (\<lambda>_ v.
     let visit' = visit (access_of (cw_members w) aead (cw_chunk_size w)); n = unat (cw_chunk_count w) in
     st_bind (if own_payloads then walk_own_members n (page_read_bytes P) visit' 0 cursors v
              else walk_chunks n (page_read_bytes P) visit' 0 cursors v) (\<lambda>cursors v.
     st_bind (check_exhausted cursors, v) (\<lambda>_ v.
       if \<not> cu_is_full (hd cursors) then (Inl (Corrupt ''the base manifest is not a full manifest''), v)
       else (Inr (), v))))))"

definition chain_walk_walk :: "prims \<Rightarrow> 'v visitor \<Rightarrow> chain_walk \<Rightarrow> 'v \<Rightarrow> unit res \<times> 'v" where
  "chain_walk_walk P visit w v = walk_with P False visit w v"

definition walk_own_payloads :: "prims \<Rightarrow> 'v visitor \<Rightarrow> chain_walk \<Rightarrow> 'v \<Rightarrow> unit res \<times> 'v" where
  "walk_own_payloads P visit w v = walk_with P True visit w v"

section \<open>What a manifest says\<close>

text \<open>
  A manifest as the list of its entries: one per chunk for a full or differential member, the
  changed chunks for an incremental.  \<open>state_in\<close> is the state a member gives to chunk \<open>i\<close> on top of the
  members before it, \<open>resolved\<close> the state of the whole chain.
\<close>

datatype manifest = Entries "block_entry list" | Deltas "delta_entry list"

fun state_in :: "manifest \<Rightarrow> nat \<Rightarrow> chunk_state \<Rightarrow> chunk_state" where
  "state_in (Entries es) i st = chunk_state_from (es ! i)"
| "state_in (Deltas ds) i st =
     (case find (\<lambda>d. unat (de_chunk_no d) = i) ds of None \<Rightarrow> st | Some d \<Rightarrow> chunk_state_from (de_entry d))"

definition resolved :: "manifest list \<Rightarrow> nat \<Rightarrow> chunk_state" where
  "resolved ms i = fold (\<lambda>m. state_in m i) ms Unused"

fun covers_chunks :: "nat \<Rightarrow> nat \<Rightarrow> manifest \<Rightarrow> bool" where
  "covers_chunks i n (Entries es) \<longleftrightarrow> length es = n - i"
| "covers_chunks i n (Deltas ds) \<longleftrightarrow> sorted_wrt (\<lambda>a b. de_chunk_no a < de_chunk_no b) ds
     \<and> (\<forall>d \<in> set ds. i \<le> unat (de_chunk_no d) \<and> unat (de_chunk_no d) < n)"

fun is_entries :: "manifest \<Rightarrow> bool" where
  "is_entries (Entries _) = True"
| "is_entries (Deltas _) = False"

fun manifest_wf :: "manifest \<Rightarrow> bool" where
  "manifest_wf (Entries es) \<longleftrightarrow> (\<forall>e \<in> set es. entry_wf e)"
| "manifest_wf (Deltas ds) \<longleftrightarrow> (\<forall>d \<in> set ds. entry_wf (de_entry d))"

definition delta_layout :: "delta_entry \<Rightarrow> bytes" where
  "delta_layout d = put_u64 (de_chunk_no d) @ entry_layout (de_entry d)"

fun manifest_layout :: "manifest \<Rightarrow> bytes" where
  "manifest_layout (Entries es) = concat (map entry_layout es)"
| "manifest_layout (Deltas ds) = concat (map delta_layout ds)"

fun manifest_entries :: "manifest \<Rightarrow> nat" where
  "manifest_entries (Entries es) = length es"
| "manifest_entries (Deltas ds) = length ds"

text \<open>The step a cursor takes on the entries that are left to it.\<close>

fun manifest_step :: "nat \<Rightarrow> chunk_state \<Rightarrow> manifest \<Rightarrow> (chunk_state \<times> manifest) option" where
  "manifest_step i st (Entries []) = None"
| "manifest_step i st (Entries (e # es)) = Some (chunk_state_from e, Entries es)"
| "manifest_step i st (Deltas []) = Some (st, Deltas [])"
| "manifest_step i st (Deltas (d # ds)) =
     (if unat (de_chunk_no d) < i then None
      else if unat (de_chunk_no d) > i then Some (st, Deltas (d # ds))
      else Some (chunk_state_from (de_entry d), Deltas ds))"

text \<open>\<open>later i m j st\<close>: what the entries left after chunk \<open>i - 1\<close> say about a chunk \<open>j\<close> from \<open>i\<close> on.\<close>

fun later :: "nat \<Rightarrow> manifest \<Rightarrow> nat \<Rightarrow> chunk_state \<Rightarrow> chunk_state" where
  "later i (Entries es) j st = chunk_state_from (es ! (j - i))"
| "later i (Deltas ds) j st = state_in (Deltas ds) j st"

lemma later_0 [simp]: "later 0 m = state_in m"
  by (cases m) (auto simp: fun_eq_iff)

lemma manifest_step_covers:
  assumes "covers_chunks i n m" "i < n"
  shows "\<exists>m'. manifest_step i st m = Some (later i m i st, m') \<and> covers_chunks (Suc i) n m'
    \<and> (is_entries m' \<longleftrightarrow> is_entries m) \<and> (\<forall>j st. i < j \<and> j < n \<longrightarrow> later (Suc i) m' j st = later i m j st)"
proof (cases m)
  case (Entries es)
  then obtain e es' where es: "es = e # es'" using assms by (cases es) auto
  then have "chunk_state_from (es' ! (j - Suc i)) = chunk_state_from ((e # es') ! (j - i))" if "i < j" for j
    using that by (simp add: nth_Cons' )
  then show ?thesis using Entries es assms by auto
next
  case (Deltas ds)
  show ?thesis
  proof (cases ds)
    case Nil
    then show ?thesis using Deltas assms by auto
  next
    case (Cons d l)
    have l: "\<And>x. x \<in> set l \<Longrightarrow> unat (de_chunk_no d) < unat (de_chunk_no x)"
      using assms Deltas Cons by (auto simp: word_less_nat_alt)
    have d: "i \<le> unat (de_chunk_no d)" using assms Deltas Cons by auto
    show ?thesis
    proof (cases "unat (de_chunk_no d) = i")
      case True
      then show ?thesis using assms Deltas Cons l by (auto simp: Suc_le_eq)
    next
      case False
      moreover from this have "find (\<lambda>d. unat (de_chunk_no d) = i) l = None"
        using l d by (fastforce simp: find_None_iff)
      ultimately show ?thesis using assms Deltas Cons l d by (fastforce simp: Suc_le_eq)
    qed
  qed
qed

lemma manifest_step_back:
  assumes "manifest_step i st m = Some (st', m')" "covers_chunks (Suc i) n m'" "i < n"
  shows "covers_chunks i n m \<and> (is_entries m' \<longleftrightarrow> is_entries m)"
proof (cases m)
  case (Entries es)
  then show ?thesis using assms by (cases es) auto
next
  case (Deltas ds)
  show ?thesis
  proof (cases ds)
    case (Cons d l)
    then show ?thesis using assms Deltas
      by (auto simp: word_less_nat_alt Suc_le_eq intro: less_imp_le split: if_splits)
  qed (use assms Deltas in auto)
qed

lemma unat_Suc_u64: "unat (a :: u64) < n \<Longrightarrow> n < 2 ^ 64 \<Longrightarrow> unat (a + 1) = Suc (unat a)"
  by (simp add: unat_word_ariths(1))

section \<open>Cursors simulate manifests\<close>

fun cursor_holds :: "('s \<Rightarrow> bytes) \<Rightarrow> ('s \<Rightarrow> bool) \<Rightarrow> 's cursor \<Rightarrow> manifest \<Rightarrow> bool" where
  "cursor_holds rem ok c (Entries es) \<longleftrightarrow> ok (cu_wire c) \<and> cu_is_full c \<and> cu_pending c = None \<and> unat (cu_remaining c) = length es
     \<and> (\<forall>e \<in> set es. entry_wf e) \<and> (\<exists>rest. rem (cu_wire c) = concat (map entry_layout es) @ rest)"
| "cursor_holds rem ok c (Deltas []) \<longleftrightarrow> \<not> cu_is_full c \<and> cu_pending c = None \<and> cu_remaining c = 0"
| "cursor_holds rem ok c (Deltas (d # ds)) \<longleftrightarrow> ok (cu_wire c) \<and> \<not> cu_is_full c \<and> cu_pending c = Some d \<and> unat (cu_remaining c) = length ds
     \<and> (\<forall>d \<in> set ds. entry_wf (de_entry d)) \<and> (\<exists>rest. rem (cu_wire c) = concat (map delta_layout ds) @ rest)"

context byte_source
begin

abbreviation holds :: "'s cursor \<Rightarrow> manifest \<Rightarrow> bool" where
  "holds \<equiv> cursor_holds rem ok"

lemma read_delta_holds:
  assumes "ok (cu_wire c)" "\<not> cu_is_full c" "unat (cu_remaining c) = length ds"
    and "\<forall>d \<in> set ds. entry_wf (de_entry d)" "rem (cu_wire c) = concat (map delta_layout ds) @ rest"
  shows "\<exists>p c'. cursor_read_delta rb c = Inr (p, c') \<and> holds (c'\<lparr> cu_pending := p \<rparr>) (Deltas ds)
    \<and> cu_chunk_count c' = cu_chunk_count c \<and> cu_chunk_size c' = cu_chunk_size c"
proof (cases ds)
  case Nil
  then have "cu_remaining c = 0" using assms(3) by (simp add: unat_eq_0)
  then show ?thesis using assms Nil by (simp add: cursor_read_delta_def)
next
  case (Cons d l)
  have "delta_write d = Inr (delta_layout d)"
    using assms(4) Cons by (simp add: delta_write_def entry_encode_eq delta_layout_def)
  with decodesD [OF delta_decodes [OF _ this] assms(1)]
  obtain w where w: "delta_read rb (cu_wire c) = Inr (d, w)" "rem w = concat (map delta_layout l) @ rest" "ok w"
    using assms(4,5) Cons by fastforce
  have r: "cu_remaining c \<noteq> 0" using assms(3) Cons by auto
  then have "unat (cu_remaining c - 1) = length l" using assms(3) Cons by (simp add: unat_minus_one)
  then show ?thesis using w r assms(2,4) Cons by (simp add: cursor_read_delta_def)
qed

lemma cursor_step:
  assumes "holds c m"
  shows "case manifest_step (unat index) st m of
      None \<Rightarrow> \<exists>e. cursor_state_at rb index st c = Inl (Corrupt e)
    | Some (st', m') \<Rightarrow> \<exists>c'. cursor_state_at rb index st c = Inr (st', c') \<and> holds c' m'"
proof (cases m)
  case (Entries es)
  show ?thesis
  proof (cases es)
    case Nil
    then show ?thesis using assms Entries by (simp add: cursor_state_at_def unat_eq_0)
  next
    case (Cons e l)
    then obtain rest where h: "ok (cu_wire c)" "entry_wf e" "rem (cu_wire c) = entry_layout e @ concat (map entry_layout l) @ rest"
      using assms Entries by auto
    obtain w where w: "entry_read rb (cu_wire c) = Inr (e, w)" "rem w = concat (map entry_layout l) @ rest" "ok w"
      using decodesD [OF entry_decodes [OF h(2)] h(1,3)] by auto
    have r: "cu_remaining c \<noteq> 0" using assms Entries Cons by auto
    then have "unat (cu_remaining c - 1) = length l" using assms Entries Cons by (simp add: unat_minus_one)
    then show ?thesis using assms Entries Cons w r by (simp add: cursor_state_at_def)
  qed
next
  case (Deltas ds)
  show ?thesis
  proof (cases ds)
    case Nil
    then show ?thesis using assms Deltas by (simp add: cursor_state_at_def)
  next
    case (Cons d l)
    consider "unat (de_chunk_no d) < unat index" | "unat (de_chunk_no d) > unat index" | "de_chunk_no d = index"
      by (metis linorder_neqE_nat word_unat_eq_iff)
    then show ?thesis
    proof cases
      case 3
      obtain rest where "ok (cu_wire c)" "rem (cu_wire c) = concat (map delta_layout l) @ rest"
        using assms Deltas Cons by auto
      then obtain p c' where "cursor_read_delta rb (c\<lparr> cu_pending := None \<rparr>) = Inr (p, c')"
          "holds (c'\<lparr> cu_pending := p \<rparr>) (Deltas l)"
        using read_delta_holds [of "c\<lparr> cu_pending := None \<rparr>" l rest] assms Deltas Cons by auto
      then show ?thesis using assms Deltas Cons 3 by (simp add: cursor_state_at_def)
    qed (use assms Deltas Cons in \<open>simp_all add: cursor_state_at_def word_less_nat_alt\<close>)
  qed
qed

lemma holds_exhausted:
  assumes "holds c m"
  shows "cu_pending c = None \<and> cu_remaining c = 0 \<longleftrightarrow> covers_chunks n n m" "cu_is_full c \<longleftrightarrow> is_entries m"
  using assms by (cases "(rem, ok, c, m)" rule: cursor_holds.cases; auto simp: unat_eq_0 [symmetric])+

lemma resolve_index_covers:
  assumes "list_all2 holds cs ms" "list_all (covers_chunks (unat index) n) ms" "unat index < n"
  shows "\<exists>cs' ms'. resolve_index rb index st cs = Inr (fold (\<lambda>m. later (unat index) m (unat index)) ms st, cs')
    \<and> list_all2 holds cs' ms' \<and> list_all (covers_chunks (Suc (unat index)) n) ms' \<and> map is_entries ms' = map is_entries ms
    \<and> (\<forall>j st. unat index < j \<and> j < n \<longrightarrow>
          fold (\<lambda>m. later (Suc (unat index)) m j) ms' st = fold (\<lambda>m. later (unat index) m j) ms st)"
  using assms(1,2)
proof (induction cs ms arbitrary: st rule: list_all2_induct)
  case (Cons c cs m ms)
  obtain m' where m': "manifest_step (unat index) st m = Some (later (unat index) m (unat index) st, m')"
      "covers_chunks (Suc (unat index)) n m'" "is_entries m' \<longleftrightarrow> is_entries m"
      "\<And>j st. unat index < j \<Longrightarrow> j < n \<Longrightarrow> later (Suc (unat index)) m' j st = later (unat index) m j st"
    using manifest_step_covers [of "unat index" n m st] Cons.prems assms(3) by auto
  obtain c' where c': "cursor_state_at rb index st c = Inr (later (unat index) m (unat index) st, c')" "holds c' m'"
    using cursor_step [OF Cons.hyps(1), of index st] m'(1) by auto
  obtain cs' ms' where r: "resolve_index rb index (later (unat index) m (unat index) st) cs
        = Inr (fold (\<lambda>m. later (unat index) m (unat index)) ms (later (unat index) m (unat index) st), cs')"
      "list_all2 holds cs' ms'" "list_all (covers_chunks (Suc (unat index)) n) ms'" "map is_entries ms' = map is_entries ms"
      "\<And>j st. unat index < j \<Longrightarrow> j < n \<Longrightarrow>
          fold (\<lambda>m. later (Suc (unat index)) m j) ms' st = fold (\<lambda>m. later (unat index) m j) ms st"
    using Cons.IH [of "later (unat index) m (unat index) st"] Cons.prems by auto
  show ?case
    by (rule exI [of _ "c' # cs'"], rule exI [of _ "m' # ms'"]) (simp add: c' m' r)
qed auto

lemma resolve_index_back:
  assumes "list_all2 holds cs ms" "resolve_index rb index st cs = Inr (st', cs')" "unat index < n"
  shows "\<exists>ms'. list_all2 holds cs' ms'
    \<and> (list_all (covers_chunks (Suc (unat index)) n) ms' \<longrightarrow> list_all (covers_chunks (unat index) n) ms)"
  using assms(1,2)
proof (induction cs ms arbitrary: st cs' rule: list_all2_induct)
  case (Cons c cs m ms)
  obtain st1 c1 cs1 where c1: "cursor_state_at rb index st c = Inr (st1, c1)"
      "resolve_index rb index st1 cs = Inr (st', cs1)" "cs' = c1 # cs1"
    using Cons.prems by (auto simp: res_bind_eq_Inr)
  obtain m1 where m1: "manifest_step (unat index) st m = Some (st1, m1)" "holds c1 m1"
    using cursor_step [OF Cons.hyps(1), of index st] c1(1) by (auto split: option.splits)
  obtain ms1 where "list_all2 holds cs1 ms1"
      "list_all (covers_chunks (Suc (unat index)) n) ms1 \<longrightarrow> list_all (covers_chunks (unat index) n) ms"
    using Cons.IH [OF c1(2)] by auto
  then show ?case
    using m1 manifest_step_back [OF m1(1) _ assms(3)] c1(3) by (intro exI [of _ "m1 # ms1"]) auto
qed auto

end

text \<open>The visits of a walk, stopped by the first that fails.\<close>

fun run_visits :: "(u64 \<Rightarrow> chunk_state \<Rightarrow> 'v \<Rightarrow> unit res \<times> 'v) \<Rightarrow> (u64 \<times> chunk_state) list \<Rightarrow> 'v \<Rightarrow> unit res \<times> 'v" where
  "run_visits visit [] v = (Inr (), v)"
| "run_visits visit ((i, st) # xs) v = st_bind (visit i st v) (\<lambda>_ v. run_visits visit xs v)"

lemma run_visits_append:
  "run_visits visit (xs @ ys) v = st_bind (run_visits visit xs v) (\<lambda>_ v. run_visits visit ys v)"
  by (induction visit xs v rule: run_visits.induct) (auto simp: st_bind_def split: prod.splits sum.splits)

context byte_source
begin

lemma walk_chunks_covers:
  assumes "list_all2 holds cs ms" "list_all (covers_chunks (unat index) n) ms" "unat index + k = n" "n < 2 ^ 64"
  shows "\<exists>cs' ms'. walk_chunks k rb visit index cs v
      = st_bind (run_visits visit (map (\<lambda>j. (word_of_nat j, fold (\<lambda>m. later (unat index) m j) ms Unused)) [unat index..<n]) v)
          (\<lambda>_ v. (Inr cs', v))
    \<and> list_all2 holds cs' ms' \<and> list_all (covers_chunks n n) ms' \<and> map is_entries ms' = map is_entries ms"
  using assms(1-3)
proof (induction k arbitrary: index cs ms v)
  case (Suc k)
  let ?i = "unat index"
  have i: "?i < n" using Suc.prems by simp
  then have i1: "unat (index + 1) = Suc ?i" using assms(4) by (rule unat_Suc_u64)
  obtain cs1 ms1 where r: "resolve_index rb index Unused cs = Inr (fold (\<lambda>m. later ?i m ?i) ms Unused, cs1)"
      "list_all2 holds cs1 ms1" "list_all (covers_chunks (Suc ?i) n) ms1" "map is_entries ms1 = map is_entries ms"
      "\<And>j st. ?i < j \<Longrightarrow> j < n \<Longrightarrow> fold (\<lambda>m. later (Suc ?i) m j) ms1 st = fold (\<lambda>m. later ?i m j) ms st"
    using resolve_index_covers [OF Suc.prems(1,2) i, of Unused] by auto
  have eq: "map (\<lambda>j. (word_of_nat j, fold (\<lambda>m. later (Suc ?i) m j) ms1 Unused)) [Suc ?i..<n]
      = map (\<lambda>j. (word_of_nat j :: u64, fold (\<lambda>m. later ?i m j) ms Unused)) [Suc ?i..<n]"
    using r(5) by auto
  have up: "[?i..<n] = ?i # [Suc ?i..<n]" using i by (rule upt_conv_Cons)
  show ?case
  proof (cases "visit index (fold (\<lambda>m. later ?i m ?i) ms Unused) v")
    case (Pair res v1)
    obtain cs' ms' where "walk_chunks k rb visit (index + 1) cs1 v1
        = st_bind (run_visits visit (map (\<lambda>j. (word_of_nat j, fold (\<lambda>m. later ?i m j) ms Unused)) [Suc ?i..<n]) v1)
            (\<lambda>_ v. (Inr cs', v))"
      "list_all2 holds cs' ms'" "list_all (covers_chunks n n) ms'" "map is_entries ms' = map is_entries ms"
      using Suc.IH [OF r(2), of "index + 1" v1] Suc.prems(3) r(3,4) unfolding i1 eq by auto
    then show ?thesis
      by (intro exI [of _ cs'] exI [of _ ms']) (cases res; simp add: up r(1) Pair)
  qed
qed auto

lemma walk_chunks_back:
  assumes "list_all2 holds cs ms" "walk_chunks k rb visit index cs v = (Inr cs', v')" "unat index + k = n" "n < 2 ^ 64"
  shows "\<exists>ms'. list_all2 holds cs' ms' \<and> (list_all (covers_chunks n n) ms' \<longrightarrow> list_all (covers_chunks (unat index) n) ms)"
  using assms(1-3)
proof (induction k arbitrary: index cs ms v)
  case (Suc k)
  let ?i = "unat index"
  have i: "?i < n" using Suc.prems by simp
  then have i1: "unat (index + 1) = Suc ?i" using assms(4) by (rule unat_Suc_u64)
  obtain st cs1 v1 where r: "resolve_index rb index Unused cs = Inr (st, cs1)"
      "walk_chunks k rb visit (index + 1) cs1 v1 = (Inr cs', v')"
    using Suc.prems(2) by (auto simp: st_bind_eq split: prod.splits)
  obtain ms1 where ms1: "list_all2 holds cs1 ms1" "list_all (covers_chunks (Suc ?i) n) ms1 \<longrightarrow> list_all (covers_chunks ?i n) ms"
    using resolve_index_back [OF Suc.prems(1) r(1) i] by auto
  show ?case using Suc.IH [OF ms1(1) r(2)] Suc.prems(3) ms1(2) unfolding i1 by auto
qed auto

end

text \<open>The payloads a member stored itself: the visits of \<open>walk_own_payloads\<close>.\<close>

definition is_own :: "u16 \<Rightarrow> chunk_state \<Rightarrow> bool" where
  "is_own own st = (case st of Stored m _ _ _ \<Rightarrow> m = own | _ \<Rightarrow> False)"

definition own_visits :: "nat \<Rightarrow> nat \<Rightarrow> manifest \<Rightarrow> u16 \<Rightarrow> (u64 \<times> chunk_state) list" where
  "own_visits i n m own =
     filter (\<lambda>(_, st). is_own own st) (map (\<lambda>j. (word_of_nat j, later i m j Unused)) [i..<n])"

lemma own_visits_Cons:
  assumes "unat index < n" "\<And>j. unat index < j \<Longrightarrow> j < n \<Longrightarrow> later (Suc (unat index)) m' j Unused = later (unat index) m j Unused"
  shows "own_visits (unat index) n m own =
    (if is_own own (later (unat index) m (unat index) Unused) then [(index, later (unat index) m (unat index) Unused)] else [])
    @ own_visits (Suc (unat index)) n m' own"
proof -
  have "map (\<lambda>j. (word_of_nat j :: u64, later (Suc (unat index)) m' j Unused)) [Suc (unat index)..<n]
      = map (\<lambda>j. (word_of_nat j, later (unat index) m j Unused)) [Suc (unat index)..<n]"
    using assms(2) by auto
  note eq = this
  show ?thesis unfolding own_visits_def eq upt_conv_Cons [OF assms(1)] by simp
qed

lemma own_visit_case:
  "(case st of Stored m _ _ _ \<Rightarrow> if m = own then visit i st v else (Inr (), v) | _ \<Rightarrow> (Inr (), v))
     = (if is_own own st then visit i st v else (Inr (), v))"
  by (cases st) (simp_all add: is_own_def)

context byte_source
begin

lemma walk_own_member_covers:
  assumes "holds c m" "covers_chunks (unat index) n m" "unat index + k = n" "n < 2 ^ 64"
  shows "\<exists>c' m'. walk_own_member k rb visit own index c v
      = st_bind (run_visits visit (own_visits (unat index) n m own) v) (\<lambda>_ v. (Inr c', v))
    \<and> holds c' m' \<and> covers_chunks n n m' \<and> is_entries m' = is_entries m"
  using assms(1-3)
proof (induction k arbitrary: index c m v)
  case 0
  then show ?case by (auto simp: own_visits_def)
next
  case (Suc k)
  let ?i = "unat index" let ?st = "later (unat index) m (unat index) Unused"
  have i: "?i < n" using Suc.prems by simp
  then have i1: "unat (index + 1) = Suc ?i" using assms(4) by (rule unat_Suc_u64)
  obtain m1 where m1: "manifest_step ?i Unused m = Some (?st, m1)" "covers_chunks (Suc ?i) n m1" "is_entries m1 = is_entries m"
      "\<And>j st. ?i < j \<Longrightarrow> j < n \<Longrightarrow> later (Suc ?i) m1 j st = later ?i m j st"
    using manifest_step_covers [OF Suc.prems(2) i, of Unused] by auto
  obtain c1 where c1: "cursor_state_at rb index Unused c = Inr (?st, c1)" "holds c1 m1"
    using cursor_step [OF Suc.prems(1), of index Unused] m1(1) by auto
  note ov = own_visits_Cons [OF i m1(4)]
  obtain res v1 where v1: "(if is_own own ?st then visit index ?st v else (Inr (), v)) = (res, v1)" by fastforce
  obtain c' m' where "walk_own_member k rb visit own (index + 1) c1 v1
        = st_bind (run_visits visit (own_visits (Suc ?i) n m1 own) v1) (\<lambda>_ v. (Inr c', v))"
      "holds c' m'" "covers_chunks n n m'" "is_entries m' = is_entries m"
    using Suc.IH [OF c1(2), of "index + 1" v1] Suc.prems(3) m1(2,3) unfolding i1 by auto
  then show ?case using v1
    by (intro exI [of _ c'] exI [of _ m'])
      (cases res; simp add: c1(1) own_visit_case ov run_visits_append split: if_splits)
qed

lemma walk_own_member_back:
  assumes "holds c m" "walk_own_member k rb visit own index c v = (Inr c', v')" "unat index + k = n" "n < 2 ^ 64"
  shows "\<exists>m'. holds c' m' \<and> (covers_chunks n n m' \<longrightarrow> covers_chunks (unat index) n m)"
  using assms(1-3)
proof (induction k arbitrary: index c m v)
  case (Suc k)
  let ?i = "unat index"
  have i: "?i < n" using Suc.prems by simp
  then have i1: "unat (index + 1) = Suc ?i" using assms(4) by (rule unat_Suc_u64)
  obtain st c1 v1 where r: "cursor_state_at rb index Unused c = Inr (st, c1)"
      "walk_own_member k rb visit own (index + 1) c1 v1 = (Inr c', v')"
    using Suc.prems(2) by (auto simp: st_bind_eq split: prod.splits)
  obtain m1 where m1: "manifest_step ?i Unused m = Some (st, m1)" "holds c1 m1"
    using cursor_step [OF Suc.prems(1), of index Unused] r(1) by (auto split: option.splits)
  show ?case using Suc.IH [OF m1(2) r(2)] Suc.prems(3) manifest_step_back [OF m1(1) _ i] unfolding i1 by auto
qed auto

lemma walk_own_members_covers:
  assumes "list_all2 holds cs ms" "list_all (covers_chunks 0 n) ms" "n < 2 ^ 64"
  shows "\<exists>cs' ms'. walk_own_members n rb visit p cs v
      = st_bind (run_visits visit (concat (map (\<lambda>(p, m). own_visits 0 n m (u16_of_index p)) (enumerate p ms))) v)
          (\<lambda>_ v. (Inr cs', v))
    \<and> list_all2 holds cs' ms' \<and> list_all (covers_chunks n n) ms' \<and> map is_entries ms' = map is_entries ms"
  using assms(1,2)
proof (induction cs ms arbitrary: p v rule: list_all2_induct)
  case (Cons c cs m ms)
  obtain c' m' where c': "walk_own_member n rb visit (u16_of_index p) 0 c v
        = st_bind (run_visits visit (own_visits 0 n m (u16_of_index p)) v) (\<lambda>_ v. (Inr c', v))"
      "holds c' m'" "covers_chunks n n m'" "is_entries m' = is_entries m"
    using walk_own_member_covers [OF Cons.hyps(1), of 0 n n visit "u16_of_index p" v] Cons.prems assms(3) by auto
  obtain res v1 where v1: "run_visits visit (own_visits 0 n m (u16_of_index p)) v = (res, v1)" by fastforce
  obtain cs' ms' where "walk_own_members n rb visit (Suc p) cs v1
        = st_bind (run_visits visit (concat (map (\<lambda>(p, m). own_visits 0 n m (u16_of_index p)) (enumerate (Suc p) ms))) v1)
          (\<lambda>_ v. (Inr cs', v))"
      "list_all2 holds cs' ms'" "list_all (covers_chunks n n) ms'" "map is_entries ms' = map is_entries ms"
    using Cons.IH [of "Suc p" v1] Cons.prems by auto
  then show ?case
    by (intro exI [of _ "c' # cs'"] exI [of _ "m' # ms'"])
      (cases res; simp add: c' v1 run_visits_append st_bind_def split: prod.splits sum.splits)
qed auto

lemma walk_own_members_back:
  assumes "list_all2 holds cs ms" "walk_own_members n rb visit p cs v = (Inr cs', v')" "n < 2 ^ 64"
  shows "\<exists>ms'. list_all2 holds cs' ms' \<and> (list_all (covers_chunks n n) ms' \<longrightarrow> list_all (covers_chunks 0 n) ms)"
  using assms(1,2)
proof (induction cs ms arbitrary: p v cs' rule: list_all2_induct)
  case (Cons c cs m ms)
  obtain c1 v1 cs1 where c1: "walk_own_member n rb visit (u16_of_index p) 0 c v = (Inr c1, v1)"
      "walk_own_members n rb visit (Suc p) cs v1 = (Inr cs1, v')" "cs' = c1 # cs1"
    using Cons.prems by (auto simp: st_bind_eq)
  obtain m1 where "holds c1 m1" "covers_chunks n n m1 \<longrightarrow> covers_chunks 0 n m"
    using walk_own_member_back [OF Cons.hyps(1) c1(1), of n] assms(3) by auto
  moreover obtain ms1 where "list_all2 holds cs1 ms1" "list_all (covers_chunks n n) ms1 \<longrightarrow> list_all (covers_chunks 0 n) ms"
    using Cons.IH [OF c1(2)] by auto
  ultimately show ?case using c1(3) by (intro exI [of _ "m1 # ms1"]) auto
qed auto

lemma cursor_open_holds:
  assumes "ok st" "block_header_wf h" "block_header_write h (\<not> is_entries m) = Inr hb"
    and "rem st = hb @ manifest_layout m @ rest" "manifest_wf m" "unat (bm_entry_count h) = manifest_entries m"
  shows "\<exists>c. cursor_open rb st (\<not> is_entries m) name = Inr c \<and> holds c m
    \<and> cu_chunk_count c = bm_chunk_count h \<and> cu_chunk_size c = bm_chunk_size h"
proof -
  obtain w where w: "block_header_read rb st = Inr ((h, \<not> is_entries m), w)" "rem w = manifest_layout m @ rest" "ok w"
    using decodesD [OF block_header_decodes [OF assms(2,3)] assms(1,4)] by auto
  show ?thesis
  proof (cases m)
    case (Entries es)
    then show ?thesis using assms(5,6) w by (simp add: cursor_open_def)
  next
    case (Deltas ds)
    define c where "c = \<lparr> cu_wire = w, cu_is_full = False, cu_file_name = name,
      cu_chunk_count = bm_chunk_count h, cu_chunk_size = bm_chunk_size h,
      cu_remaining = bm_entry_count h, cu_pending = None \<rparr>"
    obtain p c' where "cursor_read_delta rb c = Inr (p, c')" "holds (c'\<lparr> cu_pending := p \<rparr>) (Deltas ds)"
        "cu_chunk_count c' = cu_chunk_count c" "cu_chunk_size c' = cu_chunk_size c"
      using read_delta_holds [of c ds rest] assms(5,6) w Deltas by (auto simp: c_def)
    then show ?thesis using w(1) Deltas by (simp add: cursor_open_def c_def [symmetric]) (simp add: c_def)
  qed
qed

lemma check_exhausted_iff:
  "list_all2 holds cs ms \<Longrightarrow> check_exhausted cs = Inr () \<longleftrightarrow> list_all (covers_chunks n n) ms"
  by (induction cs ms rule: list_all2_induct) (auto dest: holds_exhausted(1) [of _ _ n])

end

section \<open>The walk over the members of a chain\<close>

text \<open>
  \<open>member_manifest P m h mf\<close>: the manifest stream of the open member decrypts page by page to the
  header \<open>h\<close> followed by the entries \<open>mf\<close>, of the kind the superblock announces.
\<close>

definition member_manifest :: "prims \<Rightarrow> open_member \<Rightarrow> block_manifest_header \<Rightarrow> manifest \<Rightarrow> bool" where
  "member_manifest P m h mf \<longleftrightarrow> (\<exists>st hb rest. manifest_stream P m = Inr st \<and> pages_ok P st
     \<and> block_header_wf h \<and> block_header_write h (\<not> is_entries mf) = Inr hb
     \<and> page_remaining P st = hb @ manifest_layout mf @ rest \<and> manifest_wf mf
     \<and> unat (bm_entry_count h) = manifest_entries mf \<and> (om_kind m = Incremental \<longleftrightarrow> \<not> is_entries mf))"

definition chain_manifests :: "prims \<Rightarrow> chain_walk \<Rightarrow> manifest list \<Rightarrow> bool" where
  "chain_manifests P w mfs \<longleftrightarrow> cw_members w \<noteq> [] \<and> list_all2 (\<lambda>m mf. \<exists>h. member_manifest P m h mf
     \<and> bm_chunk_count h = cw_chunk_count w \<and> bm_chunk_size h = cw_chunk_size w) (cw_members w) mfs"

definition chain_covers :: "nat \<Rightarrow> manifest list \<Rightarrow> bool" where
  "chain_covers n mfs \<longleftrightarrow> list_all (covers_chunks 0 n) mfs \<and> is_entries (hd mfs)"

lemma open_cursors_hold:
  assumes "list_all2 (\<lambda>m mf. \<exists>h. member_manifest P m h mf
     \<and> bm_chunk_count h = chunks \<and> bm_chunk_size h = sz) ms mfs"
  shows "\<exists>cs. open_cursors P ms = Inr cs \<and> list_all2 (cursor_holds (page_remaining P) (pages_ok P)) cs mfs
    \<and> check_cursors chunks sz cs = Inr ()"
  using assms
proof (induction ms mfs rule: list_all2_induct)
  case (Cons m ms mf mfs)
  obtain h st hb rest where h: "manifest_stream P m = Inr st" "pages_ok P st"
      "block_header_wf h" "block_header_write h (\<not> is_entries mf) = Inr hb"
      "page_remaining P st = hb @ manifest_layout mf @ rest" "manifest_wf mf"
      "unat (bm_entry_count h) = manifest_entries mf" "om_kind m = Incremental \<longleftrightarrow> \<not> is_entries mf"
      "bm_chunk_count h = chunks" "bm_chunk_size h = sz"
    using Cons.hyps(1) unfolding member_manifest_def by blast
  obtain c where "cursor_open (page_read_bytes P) st (\<not> is_entries mf) (om_file_name m) = Inr c"
      "cursor_holds (page_remaining P) (pages_ok P) c mf" "cu_chunk_count c = chunks" "cu_chunk_size c = sz"
    using page_src.cursor_open_holds [OF h(2-7)] h(9,10) by blast
  then show ?case using Cons.IH h(1,8) by auto
qed auto

lemma walk_tail:
  assumes "list_all2 (cursor_holds rem ok) cs ms" "ms \<noteq> []" "byte_source rb rem ok"
  shows "st_bind (check_exhausted cs, v) (\<lambda>_ v.
       if \<not> cu_is_full (hd cs) then (Inl (Corrupt ''the base manifest is not a full manifest''), v) else (Inr (), v))
     = (Inr (), v) \<longleftrightarrow> list_all (covers_chunks n n) ms \<and> is_entries (hd ms)"
proof -
  have "check_exhausted cs = Inr () \<longleftrightarrow> list_all (covers_chunks n n) ms"
    by (rule byte_source.check_exhausted_iff [OF assms(3,1)])
  moreover have "cu_is_full (hd cs) \<longleftrightarrow> is_entries (hd ms)"
    using assms(1,2) byte_source.holds_exhausted(2) [OF assms(3), of "hd cs" "hd ms"]
    by (cases cs; cases ms) auto
  ultimately show ?thesis by (cases "check_exhausted cs") auto
qed

lemma walk_with_resolves:
  assumes "chain_manifests P w mfs" "sb_aead_kind (om_superblock (hd (cw_members w))) = Inr aead"
    and "n = unat (cw_chunk_count w)" "acc = access_of (cw_members w) aead (cw_chunk_size w)"
    and "visits = (if own then concat (map (\<lambda>(p, m). own_visits 0 n m (u16_of_index p)) (enumerate 0 mfs))
                   else map (\<lambda>i. (word_of_nat i, resolved mfs i)) [0..<n])"
  shows "if chain_covers n mfs then walk_with P own visit w v = run_visits (visit acc) visits v
    else \<exists>e v'. walk_with P own visit w v = (Inl e, v')"
proof -
  let ?H = "cursor_holds (page_remaining P) (pages_ok P)"
  have n: "n < 2 ^ 64" unfolding assms(3) by simp
  have ne: "mfs \<noteq> []" using assms(1) by (auto simp: chain_manifests_def)
  obtain cs where cs: "open_cursors P (cw_members w) = Inr cs" "list_all2 ?H cs mfs"
      "check_cursors (cw_chunk_count w) (cw_chunk_size w) cs = Inr ()"
    using open_cursors_hold assms(1) unfolding chain_manifests_def by blast
  define body where "body = (if own then walk_own_members n (page_read_bytes P) (visit acc) 0 cs v
    else walk_chunks n (page_read_bytes P) (visit acc) 0 cs v)"
  define tail where "tail = (\<lambda>cursors :: page_stream_reader cursor list. \<lambda>v :: 'a. st_bind (check_exhausted cursors, v) (\<lambda>_ v.
       if \<not> cu_is_full (hd cursors) then (Inl (Corrupt ''the base manifest is not a full manifest''), v)
       else (Inr (), v)))"
  have w: "walk_with P own visit w v = st_bind body tail"
    by (simp add: walk_with_def assms(2) cs body_def tail_def assms(3,4) Let_def cong: if_cong)
  have tail_cases: "tail c v = (Inr (), v) \<or> (\<exists>e. tail c v = (Inl e, v))" for c v
    by (cases "check_exhausted c") (simp_all add: tail_def)
  show ?thesis
  proof (cases "list_all (covers_chunks 0 n) mfs")
    case True
    obtain cs' ms' where b: "body = st_bind (run_visits (visit acc) visits v) (\<lambda>_ v. (Inr cs', v))"
        and cs': "list_all2 ?H cs' ms'" "list_all (covers_chunks n n) ms'" "map is_entries ms' = map is_entries mfs"
      using page_src.walk_own_members_covers [OF cs(2) True n, of "visit acc" 0 v]
        page_src.walk_chunks_covers [OF cs(2), of 0 n n "visit acc" v] True n
      unfolding body_def assms(5) resolved_def by (cases own) auto
    have "ms' \<noteq> []" and "is_entries (hd ms') = is_entries (hd mfs)"
      using cs'(3) ne by (metis map_is_Nil_conv, metis hd_map list.map_disc_iff ne)
    then have t: "tail cs' v = (Inr (), v) \<longleftrightarrow> is_entries (hd mfs)" for v
      using walk_tail [OF cs'(1) _ page_src.byte_source_axioms, of v n] cs'(2) by (simp add: tail_def)
    obtain r v1 where r: "run_visits (visit acc) visits v = (r, v1)" by fastforce
    show ?thesis
      using t [of v1] tail_cases [of cs' v1] by (cases r) (auto simp: w b r chain_covers_def True)
  next
    case False
    have "False" if ok: "walk_with P own visit w v = (Inr u, v')" for u v'
    proof -
      obtain cs' v1 where c: "body = (Inr cs', v1)" "tail cs' v1 = (Inr u, v')"
        using ok unfolding w by (auto simp: st_bind_eq)
      obtain ms' where ms': "list_all2 ?H cs' ms'" "list_all (covers_chunks n n) ms' \<longrightarrow> list_all (covers_chunks 0 n) mfs"
        using page_src.walk_own_members_back [OF cs(2) _ n, of "visit acc" 0 v cs' v1]
          page_src.walk_chunks_back [OF cs(2), of n "visit acc" 0 v cs' v1 n] c(1) n
        unfolding body_def by (cases own) auto
      have "check_exhausted cs' = Inr ()" using c(2) by (auto simp: tail_def st_bind_eq)
      then show False using page_src.check_exhausted_iff [OF ms'(1)] ms'(2) False by blast
    qed
    then show ?thesis
      using False by (cases "walk_with P own visit w v"; cases "fst (walk_with P own visit w v)")
        (auto simp: chain_covers_def)
  qed
qed

section \<open>Checked chains\<close>

text \<open>\<open>linked\<close>: a full member first, consecutive sequence numbers, every later member the child of
  the one before it, one geometry, one kind and one set.\<close>

definition linked :: "open_member list \<Rightarrow> bool" where
  "linked ms \<longleftrightarrow> ms \<noteq> [] \<and> om_kind (hd ms) = Full
     \<and> (\<forall>i < length ms. om_seq_in_chain (ms ! i) = u32_of_index i
          \<and> \<not> disagrees (om_superblock (ms ! i)) (om_superblock (hd ms))
          \<and> (0 < i \<longrightarrow> parent_uuid (om_superblock (ms ! i)) = om_image_uuid (ms ! (i - 1))))"

lemma u32_of_index_pos: "u32_of_index i > 0 \<longleftrightarrow> i > 0"
proof (cases "i < 2 ^ 32")
  case True
  then show ?thesis by (simp add: u32_of_index_def word_less_nat_alt unat_of_nat_u32 [OF True])
next
  case False
  moreover have "(0 :: u32) < - 1" by (simp add: word_greater_zero_iff)
  ultimately show ?thesis by (simp add: u32_of_index_def)
qed

lemma check_members_iff:
  "check_members first prev k ms = Inr () \<longleftrightarrow>
     (\<forall>i < length ms. om_seq_in_chain (ms ! i) = u32_of_index (k + i)
        \<and> \<not> disagrees (om_superblock (ms ! i)) (om_superblock first)
        \<and> (om_seq_in_chain (ms ! i) > 0 \<longrightarrow> parent_uuid (om_superblock (ms ! i)) = om_image_uuid ((prev # ms) ! i)))"
proof (induction first prev k ms rule: check_members.induct)
  case (2 first prev k m ms)
  show ?case
    unfolding check_members.simps
    using 2 by (auto simp: All_less_Suc2)
qed auto

lemma linked_iff:
  assumes "ms \<noteq> []"
  shows "om_seq_in_chain (hd ms) = 0 \<and> om_kind (hd ms) = Full \<and> check_members (hd ms) (hd ms) 0 ms = Inr ()
    \<longleftrightarrow> linked ms"
proof -
  have step: "(om_seq_in_chain m = u32_of_index i \<and> A \<and> (0 < om_seq_in_chain m \<longrightarrow> p = om_image_uuid ((hd ms # ms) ! i)))
      \<longleftrightarrow> (om_seq_in_chain m = u32_of_index i \<and> A \<and> (0 < i \<longrightarrow> p = om_image_uuid (ms ! (i - 1))))" for m i A p
    by (cases i) (auto simp: u32_of_index_pos)
  have "om_seq_in_chain (hd ms) = 0" if "\<forall>i < length ms. om_seq_in_chain (ms ! i) = u32_of_index i"
    using that assms by (simp add: hd_conv_nth u32_of_index_def)
  then show ?thesis
    unfolding linked_def check_members_iff add_0 step using assms by auto
qed

lemma chain_walk_new_iff:
  "chain_walk_new P members = Inr w \<longleftrightarrow>
     (let ms = sort_key om_seq_in_chain members in
      linked ms \<and> (\<exists>st h d st'. manifest_stream P (hd ms) = Inr st \<and> block_header_read (page_read_bytes P) st = Inr ((h, d), st')
        \<and> w = \<lparr> cw_members = ms, cw_chunk_count = bm_chunk_count h, cw_chunk_size = chunk_size (om_superblock (hd ms)) \<rparr>))"
proof (cases "members = []")
  case True
  then show ?thesis by (simp add: chain_walk_new_def linked_def)
next
  case False
  then have "sort_key om_seq_in_chain members \<noteq> []" by (metis length_0_conv length_sort)
  note l = linked_iff [OF this]
  show ?thesis
    unfolding chain_walk_new_def Let_def l [symmetric] using False
    by (auto simp: res_bind_eq_Inr)
qed

lemma check_sequence_iff:
  "check_sequence k ms = Inr () \<longleftrightarrow> (\<forall>i < length ms. cf_seq_in_chain (ms ! i) = u32_of_index (k + i))"
  by (induction k ms rule: check_sequence.induct) (auto simp: All_less_Suc2)

lemma check_sequence_distinct:
  assumes "check_sequence 0 cs = Inr ()" "length cs < 2 ^ 32"
  shows "map (\<lambda>c. unat (cf_seq_in_chain c)) cs = [0..<length cs]"
  using assms by (intro nth_equalityI) (auto simp: check_sequence_iff u32_of_index_def unat_of_nat)

lemma chain_candidate_Some:
  "chain_candidate P open_ro target name = Some c \<Longrightarrow> \<exists>sb. read_superblock P open_ro name = Inr sb
     \<and> chain_id sb = chain_id target \<and> seq_in_chain sb \<le> seq_in_chain target
     \<and> c = \<lparr> cf_file_name = name, cf_seq_in_chain = seq_in_chain sb, cf_image_uuid = image_uuid sb \<rparr>"
  by (auto simp: chain_candidate_def not_less split: if_splits sum.splits)

section \<open>Written members\<close>

lemma written_member_manifest:
  assumes "prims_ok P" "written_image P sb mk opts keys pts streams refs ft data recs pgs tpgs"
    and "PageTable \<notin> fst ` set streams" "(Manifest, hb @ manifest_layout mf @ rest) \<in> set streams"
    and "sb_aead_kind sb = Inr (co_kind opts)" "block_header_wf h" "block_header_write h (\<not> is_entries mf) = Inr hb"
    and "manifest_wf mf" "unat (bm_entry_count h) = manifest_entries mf"
    and "om_reader m = opened_image P mk sb ft data" "om_superblock m = sb" "ik_meta_key (om_keys m) = wk_meta_key keys"
    and "om_kind m = Incremental \<longleftrightarrow> \<not> is_entries mf"
  shows "member_manifest P m h mf"
proof -
  obtain st where "stream_reader P (opened_image P mk sb ft data) Manifest (wk_meta_key keys) (co_kind opts) = Inr st"
      "pages_ok P st" "page_remaining P st = hb @ manifest_layout mf @ rest"
    using written_stream [OF assms(1-4)] by auto
  then show ?thesis using assms(5-13) by (auto simp: member_manifest_def manifest_stream_def)
qed

section \<open>Properties\<close>

text \<open>A chain is accepted for a walk exactly when, in the order of the sequence numbers, it starts
  with a full member, has every sequence number from zero on once, every later member names the
  image before it as its parent, and all members agree on the chunk size, the source size, the image
  kind and the set; the chunk count is the one the full member's manifest declares.\<close>

lemma chain_walk_new_accepts:
  "chain_walk_new P members = Inr w \<longleftrightarrow>
     (let ms = sort_key om_seq_in_chain members in
      linked ms \<and> (\<exists>st h d st'. manifest_stream P (hd ms) = Inr st \<and> block_header_read (page_read_bytes P) st = Inr ((h, d), st')
        \<and> w = \<lparr> cw_members = ms, cw_chunk_count = bm_chunk_count h, cw_chunk_size = chunk_size (om_superblock (hd ms)) \<rparr>))"
  by (rule chain_walk_new_iff)

text \<open>C39. A walk over members whose manifests read back visits every chunk of the image once, in
  ascending order, with the state the newest member that mentions it gives it; a walk over the own
  payloads visits, member by member, the chunks each member stored.  When a manifest does not fit
  the image - entries missing or left over, delta entries out of order, repeated or outside the
  image, no full manifest at the base - the walk ends with an error.\<close>

theorem chain_walk_resolves:
  assumes "chain_manifests P w mfs" "sb_aead_kind (om_superblock (hd (cw_members w))) = Inr aead"
    and "n = unat (cw_chunk_count w)" "acc = access_of (cw_members w) aead (cw_chunk_size w)"
  shows "if chain_covers n mfs then
      chain_walk_walk P visit w v = run_visits (visit acc) (map (\<lambda>i. (word_of_nat i, resolved mfs i)) [0..<n]) v
      \<and> walk_own_payloads P visit w v
          = run_visits (visit acc) (concat (map (\<lambda>(p, m). own_visits 0 n m (u16_of_index p)) (enumerate 0 mfs))) v
    else (\<exists>e v'. chain_walk_walk P visit w v = (Inl e, v')) \<and> (\<exists>e v'. walk_own_payloads P visit w v = (Inl e, v'))"
  using walk_with_resolves [OF assms refl, of False visit v] walk_with_resolves [OF assms refl, of True visit v]
  by (simp add: chain_walk_walk_def walk_own_payloads_def)

definition demo_member_of :: "image_reader \<Rightarrow> open_member" where
  "demo_member_of r = \<lparr> om_file_name = ''a.lrimg'', om_seq_in_chain = 0, om_image_uuid = replicate 16 1, om_kind = Full,
     om_superblock = demo_sb, om_reader = r, om_chunks = chunk_reader_with r (ir_file r),
     om_keys = \<lparr> ik_data_key = wk_data_key demo_keys, ik_meta_key = wk_meta_key demo_keys,
                 ik_dedup_key = wk_dedup_key demo_keys \<rparr> \<rparr>"

definition recording :: "(u64 \<times> chunk_state) list visitor" where
  "recording acc i st v = (Inr (), v @ [(i, st)])"

theorem chain_walk_resolves_witness:
  "\<exists>w. chain_walk_walk demo_prims recording w [] = (Inr (), [(0, chunk_state_from demo_entry)])"
proof -
  define streams where "streams = [(Manifest, demo_header_bytes @ entry_layout demo_entry)]"
  have fits: "image_fits [[1, 2, 3]] streams"
    using demo_header_ok(3) length_entry_layout [OF demo_entry_wf]
    by (auto simp: image_fits_def streams_def max_stored_len_eq)
  obtain refs ft recs pgs tpgs and f' :: disk_file where
    wi: "written_image demo_prims demo_sb None demo_opts demo_keys [[1, 2, 3]] streams refs ft (file_data f') recs pgs tpgs"
    using write_image_written [OF demo_prims_ok demo_sb_ok _ _ _ fits, of demo_opts demo_file None demo_keys]
    by (auto simp: demo_opts_def demo_file_def sink_limit_def footer_size_def)
  define m where "m = demo_member_of (opened_image demo_prims None demo_sb ft (file_data f'))"
  have mm: "member_manifest demo_prims m demo_header (Entries [demo_entry])"
    by (rule written_member_manifest [OF demo_prims_ok wi, where hb = demo_header_bytes and rest = "[]"])
      (simp_all add: streams_def demo_header_ok demo_entry_wf demo_sb_aead m_def demo_member_of_def, simp add: demo_header_def)
  define w where "w = \<lparr> cw_members = [m], cw_chunk_count = 1, cw_chunk_size = 1048576 \<rparr>"
  have cm: "chain_manifests demo_prims w [Entries [demo_entry]]"
    using mm by (auto simp: chain_manifests_def w_def demo_header_def intro!: exI [of _ demo_header])
  have "sb_aead_kind (om_superblock (hd (cw_members w))) = Inr (co_kind demo_opts)"
    by (simp add: w_def m_def demo_member_of_def demo_sb_aead)
  from chain_walk_resolves [OF cm this refl refl, of recording "[]"]
  have "chain_walk_walk demo_prims recording w [] = (Inr (), [(0, chunk_state_from demo_entry)])"
    by (simp add: chain_covers_def w_def recording_def resolved_def)
  then show ?thesis by blast
qed

text \<open>The chain resolved for an image is complete and ends with that image: one member for every
  sequence number from zero to the image's own, in order, each a readable file of the image's chain.\<close>

lemma resolve_chain_complete:
  assumes "resolve_chain P D s image_name = Inr cs" "d_list D s = Inr names"
    and "image_name \<in> set names" "ends_with ''.lrimg'' image_name" "length names < 2 ^ 32"
  shows "\<exists>target. read_superblock P (d_open_ro D s) image_name = Inr target
    \<and> length cs = Suc (unat (seq_in_chain target)) \<and> cf_file_name (last cs) = image_name
    \<and> (\<forall>i < length cs. cf_file_name (cs ! i) \<in> set names \<and> (\<exists>sb. read_superblock P (d_open_ro D s) (cf_file_name (cs ! i)) = Inr sb
         \<and> chain_id sb = chain_id target \<and> unat (seq_in_chain sb) = i \<and> image_uuid sb = cf_image_uuid (cs ! i)))"
proof -
  obtain target where t: "read_superblock P (d_open_ro D s) image_name = Inr target"
    and cs: "cs = sort_key cf_seq_in_chain (List.map_filter (chain_candidate P (d_open_ro D s) target) names)"
    and seq: "check_sequence 0 cs = Inr ()"
    using assms(1,2) by (auto simp: resolve_chain_def res_bind_eq_Inr Let_def split: if_splits)
  have "length cs \<le> length names" unfolding cs by (simp add: List.map_filter_def)
  then have up: "map (\<lambda>c. unat (cf_seq_in_chain c)) cs = [0..<length cs]"
    using check_sequence_distinct [OF seq] assms(5) by simp
  have at: "unat (cf_seq_in_chain (cs ! i)) = i" if "i < length cs" for i
    using arg_cong [OF up, of "\<lambda>l. l ! i"] that by simp
  have mem: "\<exists>name \<in> set names. \<exists>sb. read_superblock P (d_open_ro D s) name = Inr sb \<and> chain_id sb = chain_id target
      \<and> seq_in_chain sb \<le> seq_in_chain target
      \<and> c = \<lparr> cf_file_name = name, cf_seq_in_chain = seq_in_chain sb, cf_image_uuid = image_uuid sb \<rparr>" if c: "c \<in> set cs" for c
  proof -
    obtain name where "name \<in> set names" "chain_candidate P (d_open_ro D s) target name = Some c"
      using c unfolding cs by (auto simp: List.map_filter_def)
    then show ?thesis using chain_candidate_Some by blast
  qed
  define c0 where "c0 = \<lparr> cf_file_name = image_name, cf_seq_in_chain = seq_in_chain target, cf_image_uuid = image_uuid target \<rparr>"
  have "chain_candidate P (d_open_ro D s) target image_name = Some c0"
    by (simp add: chain_candidate_def assms(4) t c0_def)
  then have "c0 \<in> set cs" unfolding cs using assms(3) by (force simp: List.map_filter_def)
  then obtain k where k: "k < length cs" "cs ! k = c0" by (auto simp: in_set_conv_nth)
  have kt: "k = unat (seq_in_chain target)" using at [OF k(1)] k(2) by (simp add: c0_def)
  have "length cs = Suc k"
  proof (rule ccontr)
    assume "length cs \<noteq> Suc k"
    then have "Suc k < length cs" using k(1) by simp
    with mem [OF nth_mem [OF this]] at [OF this] kt show False by (auto simp: word_le_nat_alt)
  qed
  moreover from this have "last cs = c0" using k by (metis diff_Suc_1 last_conv_nth list.size(3) nat.simps(3))
  moreover have "cf_file_name (cs ! i) \<in> set names \<and> (\<exists>sb. read_superblock P (d_open_ro D s) (cf_file_name (cs ! i)) = Inr sb
         \<and> chain_id sb = chain_id target \<and> unat (seq_in_chain sb) = i \<and> image_uuid sb = cf_image_uuid (cs ! i))"
    if "i < length cs" for i
    using mem [OF nth_mem [OF that]] at [OF that] by auto
  ultimately show ?thesis using t kt by (auto simp: c0_def)
qed

lemma demo_read_superblock: "read_superblock demo_prims (local_open_ro demo_store) ''a.lrimg'' = Inr demo_sb"
  using sb_decode_image [OF hash_ok_demo demo_sb_ok] length_sb_image [OF hash_ok_demo demo_sb_ok(1)]
  by (simp add: read_superblock_def demo_open read_exact_io_def read_exact_at_def sb_size_def slice_whole)

end
