(* ===== verification/Extents.thy ===== *)
theory Extents
  imports Core_Types "HOL-Library.Product_Lexorder"
begin

text \<open>
  \<open>crates/lr-fsmap/src/extents.rs\<close> and \<open>lib.rs\<close>: the arithmetic of used-block
  ranges and their rounding to chunks.

  Ranges are pairs of inclusive 64-bit bounds.  A set of ranges is understood
  through the addresses it covers.
\<close>

section \<open>Ranges\<close>

type_synonym range = "u64 \<times> u64"

definition range_ok :: "range \<Rightarrow> bool" where
  "range_ok r \<longleftrightarrow> fst r \<le> snd r"

fun normalize_loop :: "range list \<Rightarrow> range list \<Rightarrow> range list res" where
  "normalize_loop merged [] = Inr merged"
| "normalize_loop merged ((start, end) # rs) =
     (if merged \<noteq> [] \<and> start \<le> saturating_add_u64 (snd (last merged)) 1 then
        (if start \<le> snd (last merged) \<and> start \<noteq> snd (last merged) + 1
           then Inl (Corrupt ''overlapping ranges '')
         else normalize_loop
                (butlast merged @ [(fst (last merged), max (snd (last merged)) end)]) rs)
      else normalize_loop (merged @ [(start, end)]) rs)"

definition normalize :: "range list \<Rightarrow> range list res" where
  "normalize ranges =
     (if \<exists>r \<in> set ranges. fst r > snd r then Inl (Corrupt ''reversed range '')
      else normalize_loop [] (sort ranges))"

fun merge_loop :: "range list \<Rightarrow> range list \<Rightarrow> range list" where
  "merge_loop merged [] = merged"
| "merge_loop merged ((start, end) # rs) =
     (if merged \<noteq> [] \<and> start \<le> saturating_add_u64 (snd (last merged)) 1
      then merge_loop (butlast merged @ [(fst (last merged), max (snd (last merged)) end)]) rs
      else merge_loop (merged @ [(start, end)]) rs)"

definition merge_ranges :: "range list \<Rightarrow> range list" where
  "merge_ranges ranges = merge_loop [] (sort ranges)"

fun complement_loop :: "u64 \<Rightarrow> u64 \<Rightarrow> range list \<Rightarrow> u64 \<Rightarrow> range list \<Rightarrow> range list res" where
  "complement_loop first end_exclusive used cursor [] =
     Inr (if cursor < end_exclusive then used @ [(cursor, end_exclusive - 1)] else used)"
| "complement_loop first end_exclusive used cursor ((start, end) # free) =
     (if start < first \<or> end \<ge> end_exclusive then Inl (Corrupt ''free range '')
      else complement_loop first end_exclusive
             (if start > cursor then used @ [(cursor, start - 1)] else used) (end + 1) free)"

definition complement_ranges :: "u64 \<Rightarrow> u64 \<Rightarrow> range list \<Rightarrow> range list res" where
  "complement_ranges first end_exclusive free = complement_loop first end_exclusive [] first free"

definition ranges_to_bytes :: "range list \<Rightarrow> u64 \<Rightarrow> range list" where
  "ranges_to_bytes ranges block_size =
     map (\<lambda>(start, end). (start * block_size, (end + 1) * block_size - 1)) ranges"

section \<open>Extent maps\<close>

record extent_map =
  em_extents :: "range list"
  em_complete :: bool

definition covered_bytes :: "extent_map \<Rightarrow> u64" where
  "covered_bytes m = sum_list (map (\<lambda>(start, end). end - start + 1) (em_extents m))"

definition align_range :: "u64 \<Rightarrow> u64 \<Rightarrow> range \<Rightarrow> range option" where
  "align_range chunk_size device_size r =
     (let first = fst r div chunk_size * chunk_size;
          last = snd r div chunk_size * chunk_size;
          last = min (saturating_add_u64 last (chunk_size - 1)) (saturating_sub_u64 device_size 1)
      in if first \<le> last then Some (first, last) else None)"

definition chunk_aligned :: "extent_map \<Rightarrow> u64 \<Rightarrow> u64 \<Rightarrow> range list" where
  "chunk_aligned m chunk_size device_size =
     (if chunk_size = 0 then em_extents m
      else merge_ranges (List.map_filter (align_range chunk_size device_size) (em_extents m)))"

section \<open>Coverage\<close>

definition covers :: "range list \<Rightarrow> u64 set" where
  "covers rs = (\<Union>r \<in> set rs. {fst r .. snd r})"

text \<open>Non-empty, ascending, with at least one address between two neighbours.\<close>

definition separated :: "range list \<Rightarrow> bool" where
  "separated rs \<longleftrightarrow> (\<forall>r \<in> set rs. range_ok r)
     \<and> sorted_wrt (\<lambda>a b. unat (snd a) + 1 < unat (fst b)) rs"

lemma covers_simps [simp]:
  "covers [] = {}" "covers (r # rs) = {fst r .. snd r} \<union> covers rs"
  "covers (xs @ ys) = covers xs \<union> covers ys"
  by (auto simp: covers_def)

lemma covers_sort [simp]: "covers (sort rs) = covers rs"
  by (simp add: covers_def)

lemma separated_Nil [simp]: "separated []"
  by (simp add: separated_def)

lemma separated_snoc:
  "separated (rs @ [r]) \<longleftrightarrow> separated rs \<and> range_ok r \<and> (\<forall>a \<in> set rs. unat (snd a) + 1 < unat (fst r))"
  by (auto simp: separated_def sorted_wrt_append)

lemma le_saturating_succ:
  "start \<le> saturating_add_u64 e 1 \<longleftrightarrow> unat start \<le> unat e + 1"
proof -
  have "unat start \<le> 18446744073709551615" "unat e \<le> 18446744073709551615"
    using unat_less_width(4) [of start] unat_less_width(4) [of e] by linarith+
  then show ?thesis
    by (auto simp: word_le_nat_alt unat_saturating_add_u64 min_def)
qed

lemma union_touching:
  fixes a b c d :: u64
  assumes "a \<le> b" "a \<le> c" "c \<le> d" "unat c \<le> unat b + 1"
  shows "{a .. b} \<union> {c .. d} = {a .. max b d}"
  using assms by (auto simp: word_le_nat_alt max_def)

text \<open>Merging one more range into the last one keeps the coverage and the separation.\<close>

lemma merge_last:
  assumes "merged \<noteq> []" "separated merged" "fst (last merged) \<le> s" "s \<le> e"
    and "unat s \<le> unat (snd (last merged)) + 1"
  shows "separated (butlast merged @ [(fst (last merged), max (snd (last merged)) e)])"
    and "covers (butlast merged @ [(fst (last merged), max (snd (last merged)) e)])
      = covers merged \<union> {s .. e}"
proof -
  obtain pre r where m: "merged = pre @ [r]" using assms(1) by (metis append_butlast_last_id)
  have sp: "separated pre" "range_ok r" "\<forall>a \<in> set pre. unat (snd a) + 1 < unat (fst r)"
    using assms(2) by (simp_all add: m separated_snoc)
  show "separated (butlast merged @ [(fst (last merged), max (snd (last merged)) e)])"
    using sp by (simp add: m separated_snoc range_ok_def le_max_iff_disj)
  have "{fst r .. snd r} \<union> {s .. e} = {fst r .. max (snd r) e}"
    using assms(3-5) sp(2) by (intro union_touching) (simp_all add: m range_ok_def)
  then show "covers (butlast merged @ [(fst (last merged), max (snd (last merged)) e)])
      = covers merged \<union> {s .. e}"
    by (simp add: m Un_assoc)
qed

lemma merge_new:
  assumes "separated merged" "s \<le> e"
    and "merged = [] \<or> unat (snd (last merged)) + 1 < unat s"
  shows "separated (merged @ [(s, e)])"
proof (cases "merged = []")
  case True
  then show ?thesis using assms(2) by (simp add: separated_def range_ok_def)
next
  case False
  then obtain pre r where m: "merged = pre @ [r]" by (metis append_butlast_last_id)
  have "unat (snd r) + 1 < unat s" using assms(3) by (simp add: m)
  moreover have "unat (snd a) + 1 < unat s" if "a \<in> set pre" for a
  proof -
    have "unat (snd a) + 1 < unat (fst r)" "unat (fst r) \<le> unat (snd r)"
      using that assms(1) by (simp_all add: m separated_snoc range_ok_def word_le_nat_alt)
    then show ?thesis using \<open>unat (snd r) + 1 < unat s\<close> by linarith
  qed
  ultimately have "\<forall>a \<in> set merged. unat (snd a) + 1 < unat s" by (simp add: m)
  then show ?thesis using assms(1,2) by (simp add: separated_snoc range_ok_def)
qed

lemma merge_loop_correct:
  assumes "separated merged" "\<forall>r \<in> set rs. range_ok r" "sorted rs"
    and "\<forall>r \<in> set rs. merged \<noteq> [] \<longrightarrow> fst (last merged) \<le> fst r"
  shows "separated (merge_loop merged rs) \<and> covers (merge_loop merged rs) = covers merged \<union> covers rs"
  using assms
proof (induction merged rs rule: merge_loop.induct)
  case (2 merged s e rs)
  have se: "s \<le> e" and rs: "\<forall>r \<in> set rs. range_ok r" "sorted rs"
    and "\<forall>r \<in> set rs. (s, e) \<le> r"
    using "2.prems"(2,3) by (simp_all add: range_ok_def)
  then have lo: "\<forall>r \<in> set rs. s \<le> fst r" by (auto simp: less_eq_prod_def intro: less_imp_le)
  show ?case
  proof (cases "merged \<noteq> [] \<and> s \<le> saturating_add_u64 (snd (last merged)) 1")
    case True
    have le: "fst (last merged) \<le> s" using True "2.prems"(4) by simp
    have su: "unat s \<le> unat (snd (last merged)) + 1" using True by (simp add: le_saturating_succ)
    note m = merge_last [OF conjunct1 [OF True] "2.prems"(1) le se su]
    have "\<forall>r \<in> set rs. fst (last merged) \<le> fst r" using lo le by (auto intro: order_trans)
    then show ?thesis
      using "2.IH"(1) [OF True m(1) rs] True m(2) by (auto simp: Un_assoc)
  next
    case False
    have "separated (merged @ [(s, e)])"
      using False by (intro merge_new [OF "2.prems"(1) se]) (auto simp: le_saturating_succ)
    from "2.IH"(2) [OF False this rs] False lo show ?thesis by (auto simp: Un_assoc)
  qed
qed simp

lemma merge_ranges_correct:
  "\<forall>r \<in> set rs. range_ok r \<Longrightarrow> separated (merge_ranges rs) \<and> covers (merge_ranges rs) = covers rs"
  unfolding merge_ranges_def using merge_loop_correct [of "[]" "sort rs"] by simp

section \<open>Normalising and complementing\<close>

text \<open>No two ranges share an address, in ascending order.\<close>

definition disjoint_ascending :: "range list \<Rightarrow> bool" where
  "disjoint_ascending rs \<longleftrightarrow> sorted_wrt (\<lambda>a b. snd a < fst b) rs"

lemma not_succ: "s \<le> e \<Longrightarrow> e \<noteq> - 1 \<Longrightarrow> s \<noteq> e + (1 :: u64)"
proof
  assume le: "s \<le> e" and e: "e \<noteq> - 1" and s: "s = e + 1"
  have "unat (e + 1) = unat e + 1" by (rule unat_succ_u64 [OF less_max_u64 [OF e]])
  then show False using le s by (simp add: word_le_nat_alt)
qed

text \<open>
  Normalising is merging that refuses overlaps.  The top address is excluded:
  there the check of the source computes \<open>last.1 + 1\<close> beyond 64 bits.
\<close>

lemma normalize_loop_eq:
  assumes "\<forall>r \<in> set rs. range_ok r \<and> snd r \<noteq> - 1" "merged \<noteq> [] \<longrightarrow> snd (last merged) \<noteq> - 1"
  shows "normalize_loop merged rs =
    (if (\<forall>r \<in> set rs. merged \<noteq> [] \<longrightarrow> snd (last merged) < fst r) \<and> disjoint_ascending rs
     then Inr (merge_loop merged rs) else Inl (Corrupt ''overlapping ranges ''))"
  using assms
proof (induction merged rs rule: normalize_loop.induct)
  case (2 merged s e rs)
  have se: "s \<le> e" "e \<noteq> - 1" and rs: "\<forall>r \<in> set rs. range_ok r \<and> snd r \<noteq> - 1"
    using "2.prems"(1) by (simp_all add: range_ok_def)
  show ?case
  proof (cases "merged \<noteq> [] \<and> s \<le> saturating_add_u64 (snd (last merged)) 1")
    case True
    show ?thesis
    proof (cases "s \<le> snd (last merged)")
      case ov: True
      then have "s \<noteq> snd (last merged) + 1" using True "2.prems"(2) not_succ by blast
      then show ?thesis using True ov by (auto simp: not_less)
    next
      case False
      then have mx: "max (snd (last merged)) e = e" using se(1) by (simp add: max_absorb2)
      let ?m = "butlast merged @ [(fst (last merged), max (snd (last merged)) e)]"
      have "\<not> (s \<le> snd (last merged) \<and> s \<noteq> snd (last merged) + 1)" using False by simp
      from "2.IH"(1) [OF True this rs] se(2)
      have ih: "normalize_loop ?m rs = (if (\<forall>r \<in> set rs. e < fst r) \<and> disjoint_ascending rs
          then Inr (merge_loop ?m rs) else Inl (Corrupt ''overlapping ranges ''))"
        by (simp add: mx)
      have "snd (last merged) < s" using False by simp
      then have "(\<forall>r \<in> set rs. e < fst r) \<Longrightarrow> (\<forall>r \<in> set rs. snd (last merged) < fst r)"
        using se(1) by (meson le_less_trans less_le_trans less_trans)
      then show ?thesis
        using True False ih by (auto simp: disjoint_ascending_def)
    qed
  next
    case False
    have lt: "snd (last merged) < s" if "merged \<noteq> []"
      using False that by (simp add: le_saturating_succ word_less_nat_alt)
    from "2.IH"(2) [OF False rs] se(2)
    have ih: "normalize_loop (merged @ [(s, e)]) rs = (if (\<forall>r \<in> set rs. e < fst r) \<and> disjoint_ascending rs
        then Inr (merge_loop (merged @ [(s, e)]) rs) else Inl (Corrupt ''overlapping ranges ''))"
      by simp
    have "(\<forall>r \<in> set rs. e < fst r) \<Longrightarrow> merged \<noteq> [] \<Longrightarrow> (\<forall>r \<in> set rs. snd (last merged) < fst r)"
      using se(1) lt by (meson le_less_trans less_le_trans less_trans)
    then show ?thesis using False ih lt by (auto simp: disjoint_ascending_def)
  qed
qed (simp add: disjoint_ascending_def)

lemma gap_step:
  fixes c s e x :: u64
  assumes "c \<le> s" "s \<le> e" "e < x"
  shows "{c ..< x} = {c ..< s} \<union> {s .. e} \<union> {e + 1 ..< x}"
proof -
  have "unat (e + 1) = unat e + 1" by (rule unat_succ_u64 [OF assms(3)])
  then show ?thesis
    using assms by (auto simp: word_le_nat_alt word_less_nat_alt)
qed

lemma pred_interval: "c < s \<Longrightarrow> {c .. s - 1} = {c ..< (s :: u64)}"
proof -
  assume "c < s"
  then have "unat (s - 1) = unat s - 1"
    by (subst unat_sub) (auto simp: word_le_nat_alt word_less_nat_alt)
  then show ?thesis
    using \<open>c < s\<close> by (auto simp: word_le_nat_alt word_less_nat_alt)
qed

lemma complement_loop_correct:
  assumes "\<forall>r \<in> set free. range_ok r" "disjoint_ascending free" "first \<le> cursor" "cursor \<le> end_exclusive"
    and "\<forall>r \<in> set free. cursor \<le> fst r"
  shows "case complement_loop first end_exclusive used cursor free of
      Inl e \<Rightarrow> is_corrupt e \<and> (\<exists>r \<in> set free. end_exclusive \<le> snd r)
    | Inr out \<Rightarrow> (\<forall>r \<in> set free. snd r < end_exclusive)
        \<and> covers out = covers used \<union> ({cursor ..< end_exclusive} - covers free)"
  using assms
proof (induction free arbitrary: used cursor)
  case Nil
  then show ?case by (auto simp: pred_interval)
next
  case (Cons r free)
  obtain s e where r: "r = (s, e)" by (cases r)
  have b: "s \<le> e" "cursor \<le> s" "first \<le> s" and dis: "\<forall>x \<in> set free. e < fst x" "disjoint_ascending free"
    and ok: "\<forall>x \<in> set free. range_ok x"
    using Cons.prems by (auto simp: r range_ok_def disjoint_ascending_def)
  show ?case
  proof (cases "e \<ge> end_exclusive")
    case True
    then show ?thesis using b(3) by (auto simp: r)
  next
    case False
    then have lt: "e < end_exclusive" by simp
    define used' where "used' = (if s > cursor then used @ [(cursor, s - 1)] else used)"
    have su: "unat (e + 1) = unat e + 1" by (rule unat_succ_u64 [OF lt])
    have c: "first \<le> e + 1" "e + 1 \<le> end_exclusive" "\<forall>x \<in> set free. e + 1 \<le> fst x"
      using b lt dis(1) su by (auto simp: word_le_nat_alt word_less_nat_alt intro: order_trans)
    have cu: "covers used' = covers used \<union> {cursor ..< s}"
      using b(2) pred_interval [of cursor s] by (auto simp: used'_def)
    have dj: "{cursor ..< s} \<inter> covers free = {}"
      using dis(1) b(1) by (force simp: covers_def)
    have "{e + 1 ..< end_exclusive} \<inter> {s .. e} = {}"
      using su by (auto simp: word_le_nat_alt)
    then have "{cursor ..< end_exclusive} - ({s .. e} \<union> covers free)
        = {cursor ..< s} \<union> ({e + 1 ..< end_exclusive} - covers free)"
      unfolding gap_step [OF b(2,1) lt] using dj by auto
    then show ?thesis
      using Cons.IH [OF ok dis(2) c, of used'] lt b(3) cu
      by (auto simp: r used'_def [symmetric] not_le split: sum.splits)
  qed
qed

section \<open>Rounding to chunks\<close>

lemma merge_loop_bounds:
  "r \<in> set (merge_loop merged rs) \<Longrightarrow>
   fst r \<in> fst ` (set merged \<union> set rs) \<and> snd r \<in> snd ` (set merged \<union> set rs)"
proof (induction merged rs rule: merge_loop.induct)
  case (2 merged s e rs)
  show ?case
  proof (cases "merged \<noteq> [] \<and> s \<le> saturating_add_u64 (snd (last merged)) 1")
    case True
    have l: "last merged \<in> set merged" using True by simp
    have "max (snd (last merged)) e = snd (last merged) \<or> max (snd (last merged)) e = snd (s, e)"
      by (simp add: max_def)
    then have mx: "max (snd (last merged)) e \<in> snd ` (set merged \<union> set ((s, e) # rs))"
      using l by (metis UnI1 UnI2 imageI list.set_intros(1))
    have "fst r \<in> fst ` (set (butlast merged) \<union> {last merged} \<union> set rs)
      \<and> snd r \<in> snd ` (set (butlast merged) \<union> {(fst (last merged), max (snd (last merged)) e)} \<union> set rs)"
      using "2.IH"(1) [OF True] "2.prems" True by auto
    moreover have "fst ` (set (butlast merged) \<union> {last merged} \<union> set rs)
        \<subseteq> fst ` (set merged \<union> set ((s, e) # rs))"
      using l by (intro image_mono) (auto dest: in_set_butlastD)
    moreover have "snd ` (set (butlast merged) \<union> {(fst (last merged), max (snd (last merged)) e)} \<union> set rs)
        \<subseteq> snd ` (set merged \<union> set ((s, e) # rs))"
      using mx by (simp add: image_Un) (meson image_mono in_set_butlastD le_supI1 subset_insertI2 subsetI sup.cobounded2)
    ultimately show ?thesis by blast
  next
    case False
    then show ?thesis using "2.IH"(2) [OF False] "2.prems" by (auto simp: image_Un)
  qed
qed auto

lemma merge_ranges_bounds:
  "r \<in> set (merge_ranges rs) \<Longrightarrow> fst r \<in> fst ` set rs \<and> snd r \<in> snd ` set rs"
  using merge_loop_bounds [of r "[]" "sort rs"] by (simp add: merge_ranges_def)

text \<open>A region a backup reads: it starts on a chunk boundary and ends on one or with the device.\<close>

definition chunk_region :: "nat \<Rightarrow> nat \<Rightarrow> range \<Rightarrow> bool" where
  "chunk_region c dev r \<longleftrightarrow> c dvd unat (fst r) \<and> unat (snd r) < dev
     \<and> (c dvd unat (snd r) + 1 \<or> unat (snd r) + 1 = dev)"

lemma unat_div_mult: "unat (x div c * c) = unat x div unat c * unat (c :: u64)"
proof -
  have "unat x div unat c * unat c < 2 ^ 64" by (rule le_unat_u64 [of _ x]) simp
  moreover have "unat (x div c) = unat x div unat c" by (rule unat_div_distrib)
  ultimately show ?thesis by (simp add: unat_word_ariths(2))
qed

lemma align_range_Some:
  assumes "chunk_size \<noteq> 0" "range_ok r" "snd r < device_size"
  shows "\<exists>r'. align_range chunk_size device_size r = Some r' \<and> range_ok r'
    \<and> {fst r .. snd r} \<subseteq> {fst r' .. snd r'} \<and> chunk_region (unat chunk_size) (unat device_size) r'"
proof -
  define c where "c = unat chunk_size"
  define s where "s = unat (fst r)"
  define e where "e = unat (snd r)"
  define dev where "dev = unat device_size"
  have c: "0 < c" using assms(1) by (simp add: c_def unat_gt_0)
  have se: "s \<le> e" and ed: "e < dev"
    using assms(2,3) by (simp_all add: s_def e_def dev_def range_ok_def word_le_nat_alt word_less_nat_alt)
  have lim: "dev < 2 ^ 64" unfolding dev_def by (rule le_unat_u64 [OF order_refl])
  have qs: "s div c * c \<le> s" and qe: "e div c * c \<le> e" by simp_all
  have e2: "e < e div c * c + c" using c by (metis div_mult_mod_eq mod_less_divisor nat_add_left_cancel_less)
  have f: "unat (fst r div chunk_size * chunk_size) = s div c * c"
    and g: "unat (snd r div chunk_size * chunk_size) = e div c * c"
    by (simp_all only: unat_div_mult s_def e_def c_def)
  have c1: "unat (chunk_size - 1) = c - 1"
    using c by (subst unat_sub) (simp_all add: word_le_nat_alt c_def)
  define l where "l = min (saturating_add_u64 (snd r div chunk_size * chunk_size) (chunk_size - 1))
    (saturating_sub_u64 device_size 1)"
  have l: "unat l = min (e div c * c + (c - 1)) (dev - 1)"
    using lim ed by (auto simp: l_def min_def word_le_nat_alt unat_saturating_add_u64 unat_saturating_sub_u64 g c1
        dev_def [symmetric])
  have "s div c * c \<le> e div c * c + (c - 1)" "s div c * c \<le> dev - 1"
    using qs se ed e2 by linarith+
  then have le: "s div c * c \<le> unat l" using l by simp
  have "c dvd unat l + 1 \<or> unat l + 1 = dev"
  proof (cases "e div c * c + (c - 1) \<le> dev - 1")
    case True
    then have "unat l + 1 = (e div c + 1) * c" using l c by (simp add: add_mult_distrib)
    then show ?thesis by (metis dvd_triv_right)
  next
    case False
    then show ?thesis using l ed by simp
  qed
  moreover have "{fst r .. snd r} \<subseteq> {fst r div chunk_size * chunk_size .. l}"
    using qs e2 ed l c by (auto simp: word_le_nat_alt f s_def [symmetric] e_def [symmetric] min_def)
  moreover have "align_range chunk_size device_size r = Some (fst r div chunk_size * chunk_size, l)"
    using le by (simp add: align_range_def Let_def l_def [symmetric] word_le_nat_alt f)
  ultimately show ?thesis
    using le l ed by (auto simp: chunk_region_def range_ok_def word_le_nat_alt f c_def [symmetric] dev_def [symmetric])
qed

lemma chunk_aligned_correct:
  assumes "chunk_size \<noteq> 0" "\<forall>r \<in> set (em_extents m). range_ok r \<and> snd r < device_size"
  shows "separated (chunk_aligned m chunk_size device_size)"
    and "covers (em_extents m) \<subseteq> covers (chunk_aligned m chunk_size device_size)"
    and "\<forall>r \<in> set (chunk_aligned m chunk_size device_size).
      chunk_region (unat chunk_size) (unat device_size) r"
proof -
  define al where "al = List.map_filter (align_range chunk_size device_size) (em_extents m)"
  have ca: "chunk_aligned m chunk_size device_size = merge_ranges al"
    using assms(1) by (simp add: chunk_aligned_def al_def)
  have mem: "r' \<in> set al \<longleftrightarrow> (\<exists>r \<in> set (em_extents m). align_range chunk_size device_size r = Some r')" for r'
    by (force simp: al_def List.map_filter_def)
  have ok: "\<forall>r \<in> set al. range_ok r \<and> chunk_region (unat chunk_size) (unat device_size) r"
    using align_range_Some [OF assms(1)] assms(2) mem by fastforce
  note mc = merge_ranges_correct [of al]
  show "separated (chunk_aligned m chunk_size device_size)" using mc ok by (simp add: ca)
  have "covers (em_extents m) \<subseteq> covers al"
  proof
    fix x assume "x \<in> covers (em_extents m)"
    then obtain r where r: "r \<in> set (em_extents m)" "x \<in> {fst r .. snd r}" by (auto simp: covers_def)
    then obtain r' where "align_range chunk_size device_size r = Some r'" "{fst r .. snd r} \<subseteq> {fst r' .. snd r'}"
      using align_range_Some [OF assms(1)] assms(2) by blast
    then have "r' \<in> set al" "x \<in> {fst r' .. snd r'}" using r mem [of r'] by auto
    then show "x \<in> covers al" by (auto simp: covers_def)
  qed
  then show "covers (em_extents m) \<subseteq> covers (chunk_aligned m chunk_size device_size)"
    using mc ok by (simp add: ca)
  show "\<forall>r \<in> set (chunk_aligned m chunk_size device_size).
      chunk_region (unat chunk_size) (unat device_size) r"
    using merge_ranges_bounds [of _ al] ok by (fastforce simp: ca chunk_region_def)
qed

section \<open>Properties\<close>

text \<open>Normalising a list of ranges succeeds exactly when every range is ordered and no two of
  them share an address; the result is then ascending, without touching neighbours, and covers the
  same addresses.  Every other list is refused as corrupt.\<close>

lemma normalize_exact:
  assumes "\<forall>r \<in> set rs. snd r \<noteq> - 1"
  shows "case normalize rs of
      Inl e \<Rightarrow> is_corrupt e \<and> \<not> ((\<forall>r \<in> set rs. range_ok r) \<and> disjoint_ascending (sort rs))
    | Inr out \<Rightarrow> (\<forall>r \<in> set rs. range_ok r) \<and> disjoint_ascending (sort rs)
        \<and> separated out \<and> covers out = covers rs"
proof (cases "\<forall>r \<in> set rs. range_ok r")
  case True
  then have "normalize rs = normalize_loop [] (sort rs)"
    by (auto simp: normalize_def range_ok_def not_less)
  also have "\<dots> = (if disjoint_ascending (sort rs) then Inr (merge_ranges rs)
      else Inl (Corrupt ''overlapping ranges ''))"
    using True assms by (subst normalize_loop_eq) (simp_all add: merge_ranges_def)
  finally show ?thesis using True merge_ranges_correct [OF True] by simp
next
  case False
  then show ?thesis by (auto simp: normalize_def range_ok_def not_le)
qed

text \<open>The complement of the free ranges within a device region: when every free range lies in the
  region, the result covers exactly the addresses of the region that are not free; a free range
  outside the region is refused as corrupt, so no used block is ever dropped silently.\<close>

lemma complement_exact:
  assumes "separated free" "first \<le> end_exclusive"
  shows "case complement_ranges first end_exclusive free of
      Inl e \<Rightarrow> is_corrupt e \<and> (\<exists>r \<in> set free. fst r < first \<or> end_exclusive \<le> snd r)
    | Inr out \<Rightarrow> (\<forall>r \<in> set free. first \<le> fst r \<and> snd r < end_exclusive)
        \<and> covers out = {first ..< end_exclusive} - covers free"
proof (cases "\<forall>r \<in> set free. first \<le> fst r")
  case True
  have "disjoint_ascending free"
    using assms(1) unfolding disjoint_ascending_def separated_def
    by (auto simp: word_less_nat_alt elim: sorted_wrt_mono_rel [rotated])
  then show ?thesis
    using complement_loop_correct [of free first first end_exclusive "[]"] True assms
    by (auto simp: complement_ranges_def separated_def split: sum.splits)
next
  case False
  then obtain a b fs where f: "free = (a, b) # fs" by (cases free) auto
  have "a < first"
  proof (rule ccontr)
    assume "\<not> a < first"
    then have "first \<le> fst x" if "x \<in> set free" for x
      using that assms(1)
      by (auto simp: f separated_def range_ok_def word_less_nat_alt word_le_nat_alt dest!: bspec)
    then show False using False by blast
  qed
  then show ?thesis by (auto simp: complement_ranges_def f)
qed

text \<open>Rounding the used extents to chunks loses no used byte: the regions cover every extent, are
  ascending with a gap between neighbours, start on a chunk boundary and end on one or with the
  device, inside the device.\<close>

lemma chunk_aligned_covers:
  assumes "chunk_size \<noteq> 0" "\<forall>r \<in> set (em_extents m). range_ok r \<and> snd r < device_size"
  shows "covers (em_extents m) \<subseteq> covers (chunk_aligned m chunk_size device_size)
    \<and> separated (chunk_aligned m chunk_size device_size)
    \<and> (\<forall>r \<in> set (chunk_aligned m chunk_size device_size).
         chunk_region (unat chunk_size) (unat device_size) r)"
  using chunk_aligned_correct [OF assms] by simp

end
