(* ===== verification/Chunk_Plan.thy ===== *)
theory Chunk_Plan
  imports Extents
begin

text \<open>
  \<open>crates/lr-blocksource/src/plan.rs\<close>: the plan of chunks a backup reads.  An iterator walks the
  chunk-aligned regions of an extent map and hands out one chunk per call.  Its reference
  definition is the list of chunks still to come, computed on natural numbers.
\<close>

section \<open>The plan of chunks\<close>

record chunk_plan =
  cp_index :: u64
  cp_offset :: u64
  cp_len :: u32

record used_chunks =
  uc_chunk_size :: u64
  uc_device_size :: u64
  uc_chunk_count :: u64
  uc_regions :: "range list"
  uc_region :: nat
  uc_next_offset :: u64

definition used_chunks_new :: "extent_map \<Rightarrow> u64 \<Rightarrow> u64 \<Rightarrow> used_chunks res" where
  "used_chunks_new m chunk_size device_size =
     (if chunk_size = 0 then Inl (Unsupported ''chunk size must not be zero'')
      else Inr \<lparr> uc_chunk_size = chunk_size, uc_device_size = device_size,
                 uc_chunk_count = div_ceil_u64 device_size chunk_size,
                 uc_regions = chunk_aligned m chunk_size device_size, uc_region = 0,
                 uc_next_offset = 0 \<rparr>)"

definition planned_chunks :: "used_chunks \<Rightarrow> u64" where
  "planned_chunks u =
     sum_list (map (\<lambda>(start, end). div_ceil_u64 (end - start + 1) (uc_chunk_size u)) (uc_regions u))"

definition planned_bytes :: "used_chunks \<Rightarrow> u64" where
  "planned_bytes u = sum_list (map (\<lambda>(start, end). end - start + 1) (uc_regions u))"

function next_chunk :: "used_chunks \<Rightarrow> chunk_plan option \<times> used_chunks" where
  "next_chunk u =
     (if uc_region u \<ge> length (uc_regions u) then (None, u)
      else (let (start, end) = uc_regions u ! uc_region u;
                offset = max (uc_next_offset u) start in
        if offset > end then next_chunk (u\<lparr> uc_region := uc_region u + 1, uc_next_offset := 0 \<rparr>)
        else (let available = end - offset + 1;
                  len = min available (uc_chunk_size u);
                  len = min len (uc_device_size u - offset)
              in (Some \<lparr> cp_index = offset div uc_chunk_size u, cp_offset = offset,
                         cp_len = (if unat len < 2 ^ 32 then ucast len else - 1) \<rparr>,
                  u\<lparr> uc_next_offset := offset + uc_chunk_size u \<rparr>))))"
  by pat_completeness auto
termination
  by (relation "measure (\<lambda>u. length (uc_regions u) - uc_region u)") auto

declare next_chunk.simps [simp del]

definition is_all_zero :: "bytes \<Rightarrow> bool" where
  "is_all_zero bs \<longleftrightarrow> list_all (\<lambda>b. b = 0) bs"

section \<open>Reading one planned chunk\<close>

text \<open>
  A block source is a state with a positional read; \<open>read_at\<close> returns the bytes it put into the
  buffer.  \<open>read_chunk\<close> of \<open>lib.rs\<close> turns every failure and every short read into a bad sector.
\<close>

definition read_chunk :: "('s \<Rightarrow> u64 \<Rightarrow> nat \<Rightarrow> bytes res \<times> 's) \<Rightarrow> 's \<Rightarrow> chunk_plan \<Rightarrow> nat \<Rightarrow> bytes res \<times> 's" where
  "read_chunk read_at src p buf_len =
     (if buf_len < unat (cp_len p) then (Inl (Unsupported '' byte buffer cannot hold a chunk''), src)
      else (case read_at src (cp_offset p) (unat (cp_len p)) of
        (Inl e, src') \<Rightarrow> (Inl (BadSector (cp_offset p) (ucast (cp_len p))), src')
      | (Inr bs, src') \<Rightarrow>
          (if length bs \<noteq> unat (cp_len p) then Inl (BadSector (cp_offset p) (ucast (cp_len p))) else Inr bs, src')))"

section \<open>The reference plan\<close>

text \<open>The chunks of one region from an offset to its last byte.\<close>

function chunks_from :: "nat \<Rightarrow> nat \<Rightarrow> nat \<Rightarrow> (nat \<times> nat) list" where
  "chunks_from c a e = (if c = 0 \<or> e < a then [] else (a, min c (e + 1 - a)) # chunks_from c (a + c) e)"
  by pat_completeness auto
termination
  by (relation "measure (\<lambda>(c, a, e). e + 1 - a)") auto

declare chunks_from.simps [simp del]

definition span :: "nat \<times> nat \<Rightarrow> nat set" where
  "span p = {fst p ..< fst p + snd p}"

definition regions_chunks :: "nat \<Rightarrow> range list \<Rightarrow> (nat \<times> nat) list" where
  "regions_chunks c rs = concat (map (\<lambda>(s, e). chunks_from c (unat s) (unat e)) rs)"

text \<open>Chunks in ascending order that never share a byte.\<close>

definition ascending_chunks :: "(nat \<times> nat) list \<Rightarrow> bool" where
  "ascending_chunks ps \<longleftrightarrow> sorted_wrt (\<lambda>p q. fst p + snd p \<le> fst q) ps"

lemma chunks_from_bounds:
  "p \<in> set (chunks_from c a e) \<Longrightarrow>
     a \<le> fst p \<and> fst p + snd p \<le> e + 1 \<and> 0 < snd p \<and> snd p \<le> c \<and> (c dvd a \<longrightarrow> c dvd fst p)"
proof (induction c a e rule: chunks_from.induct)
  case (1 c a e)
  show ?case
  proof (cases "c = 0 \<or> e < a")
    case True
    then show ?thesis using "1.prems" by (simp add: chunks_from.simps)
  next
    case False
    then consider "p = (a, min c (e + 1 - a))" | "p \<in> set (chunks_from c (a + c) e)"
      using "1.prems" by (auto simp: chunks_from.simps [of c a])
    then show ?thesis using False "1.IH" [OF False] by cases auto
  qed
qed

lemma chunks_from_ascending: "ascending_chunks (chunks_from c a e)"
proof (induction c a e rule: chunks_from.induct)
  case (1 c a e)
  have "a + min c (e + 1 - a) \<le> fst p" if "p \<in> set (chunks_from c (a + c) e)" for p
    using chunks_from_bounds [OF that] min.cobounded1 [of c "e + 1 - a"] by linarith
  then show ?case using 1 by (simp add: chunks_from.simps [of c a] ascending_chunks_def)
qed

lemma chunks_from_span: "0 < c \<Longrightarrow> (\<Union>p \<in> set (chunks_from c a e). span p) = {a .. e}"
proof (induction c a e rule: chunks_from.induct)
  case (1 c a e)
  show ?case
  proof (cases "e < a")
    case False
    then have "(\<Union>p \<in> set (chunks_from c a e). span p) = {a ..< a + min c (e + 1 - a)} \<union> {a + c .. e}"
      using 1 by (simp add: chunks_from.simps [of c a] span_def)
    also have "\<dots> = {a .. e}" using False by auto
    finally show ?thesis .
  qed (simp add: chunks_from.simps)
qed

lemma chunks_from_total: "0 < c \<Longrightarrow> sum_list (map snd (chunks_from c a e)) = e + 1 - a"
proof (induction c a e rule: chunks_from.induct)
  case (1 c a e)
  then show ?case
    by (cases "e < a") (auto simp: chunks_from.simps [of c a] min_def)
qed

lemma chunks_from_length: "0 < c \<Longrightarrow> length (chunks_from c a e) = (e + 1 - a + c - 1) div c"
proof (induction c a e rule: chunks_from.induct)
  case (1 c a e)
  show ?case
  proof (cases "e < a")
    case False
    then have "length (chunks_from c a e) = Suc ((e + 1 - (a + c) + c - 1) div c)"
      using 1 by (simp add: chunks_from.simps [of c a])
    also have "\<dots> = (e + 1 - a + c - 1) div c"
    proof (cases "a + c \<le> e + 1")
      case True
      then have "e + 1 - a + c - 1 = (e + 1 - (a + c) + c - 1) + c" using "1.prems" by simp
      then show ?thesis using "1.prems" by (metis Suc_eq_plus1 div_add_self2 not_gr_zero)
    next
      case small: False
      have "(e + 1 - a + c - 1) div c = 1"
        using small False "1.prems" by (intro div_nat_eqI) simp_all
      then show ?thesis using small "1.prems" by simp
    qed
    finally show ?thesis .
  qed (use "1.prems" in \<open>simp add: chunks_from.simps\<close>)
qed

section \<open>The iterator against the reference plan\<close>

definition plan_ok :: "used_chunks \<Rightarrow> bool" where
  "plan_ok u \<longleftrightarrow> 0 < unat (uc_chunk_size u) \<and> unat (uc_chunk_size u) < 2 ^ 32
     \<and> unat (uc_device_size u) + unat (uc_chunk_size u) < 2 ^ 64
     \<and> separated (uc_regions u) \<and> (\<forall>r \<in> set (uc_regions u). unat (snd r) < unat (uc_device_size u))"

text \<open>What the iterator still has to hand out.\<close>

definition pending_chunks :: "used_chunks \<Rightarrow> (nat \<times> nat) list" where
  "pending_chunks u =
     (if uc_region u \<ge> length (uc_regions u) then []
      else (let (s, e) = uc_regions u ! uc_region u; c = unat (uc_chunk_size u) in
        chunks_from c (max (unat (uc_next_offset u)) (unat s)) (unat e)
        @ regions_chunks c (drop (uc_region u + 1) (uc_regions u))))"

lemma regions_chunks_simps [simp]:
  "regions_chunks c [] = []"
  "regions_chunks c (r # rs) = chunks_from c (unat (fst r)) (unat (snd r)) @ regions_chunks c rs"
  by (simp_all add: regions_chunks_def split_beta)

lemma pending_skip:
  assumes "uc_region u < length (uc_regions u)" "uc_regions u ! uc_region u = (s, e)"
    and "e < max (uc_next_offset u) s"
  shows "pending_chunks u = pending_chunks (u\<lparr> uc_region := uc_region u + 1, uc_next_offset := 0 \<rparr>)"
proof -
  have "unat e < max (unat (uc_next_offset u)) (unat s)"
    using assms(3) by (auto simp: max_def word_less_nat_alt word_le_nat_alt split: if_splits)
  then have "chunks_from (unat (uc_chunk_size u)) (max (unat (uc_next_offset u)) (unat s)) (unat e) = []"
    by (simp add: chunks_from.simps)
  moreover have "regions_chunks c (drop (Suc (uc_region u)) (uc_regions u)) =
      (if length (uc_regions u) \<le> Suc (uc_region u) then []
       else chunks_from c (unat (fst (uc_regions u ! Suc (uc_region u)))) (unat (snd (uc_regions u ! Suc (uc_region u))))
         @ regions_chunks c (drop (Suc (Suc (uc_region u))) (uc_regions u)))" for c
    by (simp add: Cons_nth_drop_Suc [symmetric])
  ultimately show ?thesis using assms(1,2) by (simp add: pending_chunks_def split_beta)
qed

text \<open>A planned chunk and its reference: same place, same length, and the index of its slot.\<close>

definition chunk_matches :: "u64 \<Rightarrow> chunk_plan \<Rightarrow> nat \<times> nat \<Rightarrow> bool" where
  "chunk_matches c p r \<longleftrightarrow> unat (cp_offset p) = fst r \<and> unat (cp_len p) = snd r
     \<and> unat (cp_index p) = fst r div unat c"

lemma next_chunk_emit:
  assumes ok: "plan_ok u" and "uc_region u < length (uc_regions u)" "uc_regions u ! uc_region u = (s, e)"
    and le: "max (uc_next_offset u) s \<le> e"
  shows "\<exists>p u' r. next_chunk u = (Some p, u') \<and> u' = u\<lparr> uc_next_offset := max (uc_next_offset u) s + uc_chunk_size u \<rparr>
    \<and> chunk_matches (uc_chunk_size u) p r \<and> pending_chunks u = r # pending_chunks u'"
proof -
  define c where "c = unat (uc_chunk_size u)"
  define dev where "dev = unat (uc_device_size u)"
  define off where "off = max (uc_next_offset u) s"
  have c: "0 < c" "c < 2 ^ 32" "dev + c < 2 ^ 64" using ok by (simp_all add: plan_ok_def c_def dev_def)
  have "(s, e) \<in> set (uc_regions u)" using assms(2,3) by (metis nth_mem)
  then have e: "unat e < dev" using ok by (auto simp: plan_ok_def dev_def)
  have oe: "unat off \<le> unat e" using le by (simp add: off_def word_le_nat_alt)
  have so: "unat s \<le> unat off" by (simp add: off_def word_le_nat_alt [symmetric])
  define len where "len = min (min (e - off + 1) (uc_chunk_size u)) (uc_device_size u - off)"
  have eo: "unat (e - off) = unat e - unat off" by (rule unat_sub) (simp add: word_le_nat_alt oe)
  have av: "unat (e - off + 1) = unat e + 1 - unat off"
    using oe e c(3) by (subst unat_add_u64) (simp_all add: eo)
  have dv: "unat (uc_device_size u - off) = dev - unat off"
    unfolding dev_def using oe e by (intro unat_sub) (simp add: word_le_nat_alt dev_def)
  have len: "unat len = min c (unat e + 1 - unat off)"
    using e oe by (auto simp: len_def min_def word_le_nat_alt av dv c_def [symmetric])
  then have len32: "unat len < 2 ^ 32" using c(2) by simp
  have nx: "unat (off + uc_chunk_size u) = unat off + c"
    using oe e c(3) by (subst unat_add_u64) (simp_all add: c_def)
  define u' where "u' = u\<lparr> uc_next_offset := off + uc_chunk_size u \<rparr>"
  define p where "p = \<lparr> cp_index = off div uc_chunk_size u, cp_offset = off, cp_len = (ucast len :: u32) \<rparr>"
  have "next_chunk u = (Some p, u')"
    using assms(2,3) len32 leD [OF le]
    by (simp add: next_chunk.simps [of u] Let_def off_def [symmetric] len_def [symmetric] p_def u'_def del: not_less linorder_not_less)
  moreover have "chunk_matches (uc_chunk_size u) p (unat off, unat len)"
    using len32 by (simp add: chunk_matches_def p_def unat_div_distrib unsigned_ucast_eq take_bit_nat_eq_self)
  moreover have "max (unat (uc_next_offset u)) (unat s) = unat off"
    by (simp add: off_def max_def word_le_nat_alt)
  then have "pending_chunks u = (unat off, unat len) # pending_chunks u'"
    using assms(2,3) c(1) oe so
    by (simp add: pending_chunks_def u'_def c_def [symmetric] nx len chunks_from.simps [of c "unat off"] max_def)
  ultimately show ?thesis by (auto simp: u'_def off_def)
qed

lemma next_chunk_pending:
  "plan_ok u \<Longrightarrow> case next_chunk u of
      (None, u') \<Rightarrow> pending_chunks u = []
    | (Some p, u') \<Rightarrow> plan_ok u' \<and> uc_chunk_size u' = uc_chunk_size u
        \<and> (\<exists>r. chunk_matches (uc_chunk_size u) p r \<and> pending_chunks u = r # pending_chunks u')"
proof (induction u rule: next_chunk.induct)
  case (1 u)
  show ?case
  proof (cases "uc_region u \<ge> length (uc_regions u)")
    case True
    then show ?thesis by (simp add: next_chunk.simps [of u] pending_chunks_def)
  next
    case False
    obtain s e where r: "uc_regions u ! uc_region u = (s, e)" by (cases "uc_regions u ! uc_region u")
    show ?thesis
    proof (cases "max (uc_next_offset u) s > e")
      case True
      let ?u = "u\<lparr> uc_region := uc_region u + 1, uc_next_offset := 0 \<rparr>"
      have "next_chunk u = next_chunk ?u" using False r True by (simp add: next_chunk.simps [of u])
      moreover have "plan_ok ?u" using "1.prems" by (simp add: plan_ok_def)
      moreover have "pending_chunks u = pending_chunks ?u"
        using False by (intro pending_skip [OF _ r True]) simp
      ultimately show ?thesis using "1.IH" [OF False r [symmetric] refl refl True] by (simp split: prod.splits option.splits)
    next
      case le: False
      have "max (uc_next_offset u) s \<le> e" "uc_region u < length (uc_regions u)" using False le by (simp_all only: not_less not_le)
      then obtain p u' x where n: "next_chunk u = (Some p, u')" "chunk_matches (uc_chunk_size u) p x"
          "pending_chunks u = x # pending_chunks u'"
        and "u' = u\<lparr> uc_next_offset := max (uc_next_offset u) s + uc_chunk_size u \<rparr>"
        using next_chunk_emit [OF "1.prems" _ r] by metis
      then have "plan_ok u'" "uc_chunk_size u' = uc_chunk_size u" using "1.prems" by (simp_all add: plan_ok_def)
      then show ?thesis using n by (cases x) auto
    qed
  qed
qed

text \<open>The chunks handed out by at most \<open>n\<close> calls.\<close>

fun run_plan :: "nat \<Rightarrow> used_chunks \<Rightarrow> chunk_plan list" where
  "run_plan 0 u = []"
| "run_plan (Suc n) u = (case next_chunk u of (None, _) \<Rightarrow> [] | (Some p, u') \<Rightarrow> p # run_plan n u')"

lemma run_plan_pending:
  "plan_ok u \<Longrightarrow> list_all2 (chunk_matches (uc_chunk_size u)) (run_plan n u) (take n (pending_chunks u))"
proof (induction n arbitrary: u)
  case (Suc n)
  show ?case
  proof (cases "next_chunk u")
    case (Pair po u')
    then show ?thesis
      using next_chunk_pending [OF Suc.prems] Suc.IH [of u'] by (cases po) auto
  qed
qed simp

section \<open>The reference plan of separated regions\<close>

lemma separated_Cons:
  "separated (r # rs) \<longleftrightarrow> range_ok r \<and> separated rs \<and> (\<forall>b \<in> set rs. unat (snd r) + 1 < unat (fst b))"
  by (auto simp: separated_def)

lemma regions_chunks_bounds:
  assumes "p \<in> set (regions_chunks c rs)"
  obtains r where "r \<in> set rs" "p \<in> set (chunks_from c (unat (fst r)) (unat (snd r)))"
  using assms by (auto simp: regions_chunks_def)

lemma regions_chunks_ascending: "separated rs \<Longrightarrow> ascending_chunks (regions_chunks c rs)"
proof (induction rs)
  case (Cons r rs)
  have "fst p + snd p \<le> fst q"
    if p: "p \<in> set (chunks_from c (unat (fst r)) (unat (snd r)))" and q: "q \<in> set (regions_chunks c rs)" for p q
  proof -
    obtain r' where r': "r' \<in> set rs" "q \<in> set (chunks_from c (unat (fst r')) (unat (snd r')))"
      using q by (rule regions_chunks_bounds)
    have "unat (snd r) + 1 < unat (fst r')" using Cons.prems r'(1) by (simp add: separated_Cons)
    then show ?thesis using chunks_from_bounds [OF p] chunks_from_bounds [OF r'(2)] by linarith
  qed
  then show ?case
    using Cons chunks_from_ascending [of c] by (auto simp: ascending_chunks_def sorted_wrt_append separated_Cons)
qed (simp add: ascending_chunks_def)

lemma regions_chunks_span:
  "0 < c \<Longrightarrow> (\<Union>p \<in> set (regions_chunks c rs). span p) = unat ` covers rs"
proof (induction rs)
  case (Cons r rs)
  have "unat ` {fst r .. snd r} = {unat (fst r) .. unat (snd r)}"
  proof (intro equalityI subsetI)
    fix n assume "n \<in> {unat (fst r) .. unat (snd r)}"
    moreover from this have "unat (word_of_nat n :: u64) = n"
      using le_unat_u64 [of n "snd r"] by (intro unat_of_nat_u64) simp
    ultimately show "n \<in> unat ` {fst r .. snd r}"
      by (intro image_eqI [of _ _ "word_of_nat n"]) (simp_all add: word_le_nat_alt)
  qed (auto simp: word_le_nat_alt)
  then show ?case using Cons chunks_from_span [OF Cons.prems] by (simp add: image_Un)
qed simp

lemma separated_total:
  assumes "separated rs" "\<forall>r \<in> set rs. unat (snd r) < dev" "\<forall>r \<in> set rs. lo \<le> unat (fst r)"
  shows "lo + sum_list (map (\<lambda>r. unat (snd r) + 1 - unat (fst r)) rs) \<le> max lo dev"
  using assms
proof (induction rs arbitrary: lo)
  case (Cons r rs)
  have "unat (snd r) + 1 + sum_list (map (\<lambda>r. unat (snd r) + 1 - unat (fst r)) rs) \<le> max (unat (snd r) + 1) dev"
    using Cons by (intro Cons.IH) (auto simp: separated_Cons)
  moreover have "unat (fst r) \<le> unat (snd r)" "unat (snd r) < dev" "lo \<le> unat (fst r)"
    using Cons.prems by (simp_all add: separated_Cons range_ok_def word_le_nat_alt)
  moreover from this have "lo + (unat (snd r) + 1 - unat (fst r)) \<le> unat (snd r) + 1" by linarith
  ultimately show ?case by simp
qed simp

text \<open>Sums that stay below the word size are the sums of the source.\<close>

lemma unat_sum_list_u64:
  "sum_list (map (\<lambda>x. unat (f x)) xs) < 2 ^ 64 \<Longrightarrow> unat (sum_list (map f xs) :: u64) = sum_list (map (\<lambda>x. unat (f x)) xs)"
proof (induction xs)
  case (Cons x xs)
  then show ?case by (simp add: unat_add_u64)
qed simp

lemma chunks_from_length_le: "0 < c \<Longrightarrow> length (chunks_from c a e) \<le> e + 1 - a"
proof (induction c a e rule: chunks_from.induct)
  case (1 c a e)
  show ?case
  proof (cases "e < a")
    case False
    then have "length (chunks_from c (a + c) e) \<le> e + 1 - (a + c)" using 1 by simp
    then show ?thesis using False "1.prems" by (simp add: chunks_from.simps [of c a])
  qed (simp add: chunks_from.simps)
qed

lemma regions_chunks_total:
  "0 < c \<Longrightarrow> sum_list (map snd (regions_chunks c rs)) = sum_list (map (\<lambda>r. unat (snd r) + 1 - unat (fst r)) rs)"
  by (induction rs) (simp_all add: chunks_from_total)

lemma pending_new: "used_chunks_new m c dev = Inr u \<Longrightarrow> pending_chunks u = regions_chunks (unat c) (uc_regions u)"
  by (cases "uc_regions u") (auto simp: used_chunks_new_def pending_chunks_def Let_def split: if_splits)

lemma plan_ok_new:
  assumes "used_chunks_new m c dev = Inr u" "unat c < 2 ^ 32" "unat dev + unat c < 2 ^ 64"
    and "\<forall>r \<in> set (em_extents m). range_ok r \<and> snd r < dev"
  shows "plan_ok u" "uc_chunk_size u = c" "uc_regions u = chunk_aligned m c dev"
proof -
  have c: "c \<noteq> 0" and u: "uc_chunk_size u = c" "uc_device_size u = dev" "uc_regions u = chunk_aligned m c dev"
    using assms(1) by (auto simp: used_chunks_new_def split: if_splits)
  have "unat c \<noteq> 0" using c by (simp add: unat_eq_zero)
  then show "plan_ok u"
    using assms(2,3) u chunk_aligned_correct [OF c assms(4)] by (simp add: plan_ok_def chunk_region_def)
qed (use assms(1) in \<open>auto simp: used_chunks_new_def split: if_splits\<close>)

text \<open>The two totals a backup reports are those of the reference plan.\<close>

lemma plan_totals:
  assumes ok: "plan_ok u"
  shows "unat (planned_bytes u) = sum_list (map snd (regions_chunks (unat (uc_chunk_size u)) (uc_regions u)))"
    and "unat (planned_chunks u) = length (regions_chunks (unat (uc_chunk_size u)) (uc_regions u))"
proof -
  define c where "c = unat (uc_chunk_size u)"
  define dev where "dev = unat (uc_device_size u)"
  have c: "0 < c" and dev: "dev + c < 2 ^ 64" and sep: "separated (uc_regions u)"
    and le: "\<forall>r \<in> set (uc_regions u). unat (snd r) < dev"
    using ok by (simp_all add: plan_ok_def c_def dev_def)
  have size: "unat (snd r - fst r + 1) = unat (snd r) + 1 - unat (fst r)" if "r \<in> set (uc_regions u)" for r
  proof -
    have "unat (fst r) \<le> unat (snd r)" "unat (snd r) < dev"
      using sep le that by (simp_all add: separated_def range_ok_def word_le_nat_alt)
    moreover from this have "unat (snd r - fst r) = unat (snd r) - unat (fst r)"
      by (intro unat_sub) (simp add: word_le_nat_alt)
    ultimately show ?thesis using dev by (subst unat_add_u64) simp_all
  qed
  have tot: "sum_list (map (\<lambda>r. unat (snd r) + 1 - unat (fst r)) (uc_regions u)) \<le> dev"
    using separated_total [OF sep le, of 0] by simp
  have bytes: "map (\<lambda>r. unat (snd r - fst r + 1)) (uc_regions u)
      = map (\<lambda>r. unat (snd r) + 1 - unat (fst r)) (uc_regions u)"
    using size by simp
  have "unat (planned_bytes u) = sum_list (map (\<lambda>r. unat (snd r - fst r + 1)) (uc_regions u))"
    unfolding planned_bytes_def split_beta using tot dev by (intro unat_sum_list_u64) (simp only: bytes)
  also have "\<dots> = sum_list (map snd (regions_chunks c (uc_regions u)))"
    unfolding bytes by (simp add: regions_chunks_total [OF c])
  finally show "unat (planned_bytes u) = sum_list (map snd (regions_chunks (unat (uc_chunk_size u)) (uc_regions u)))"
    by (simp add: c_def)
  have cnt: "unat (div_ceil_u64 (snd r - fst r + 1) (uc_chunk_size u)) = length (chunks_from c (unat (fst r)) (unat (snd r)))"
    if "r \<in> set (uc_regions u)" for r
    using c size [OF that] by (subst unat_div_ceil_u64) (auto simp: c_def chunks_from_length)
  have "sum_list (map (\<lambda>r. length (chunks_from c (unat (fst r)) (unat (snd r)))) (uc_regions u)) \<le> dev"
    by (intro order_trans [OF _ tot] sum_list_mono chunks_from_length_le c)
  moreover have counts: "map (\<lambda>r. unat (div_ceil_u64 (snd r - fst r + 1) (uc_chunk_size u))) (uc_regions u)
      = map (\<lambda>r. length (chunks_from c (unat (fst r)) (unat (snd r)))) (uc_regions u)"
    using cnt by simp
  ultimately have "unat (planned_chunks u) = sum_list (map (\<lambda>r. length (chunks_from c (unat (fst r)) (unat (snd r)))) (uc_regions u))"
    unfolding planned_chunks_def split_beta using dev by (subst unat_sum_list_u64) (simp_all only: counts)
  then show "unat (planned_chunks u) = length (regions_chunks (unat (uc_chunk_size u)) (uc_regions u))"
    by (simp add: regions_chunks_def length_concat o_def split_beta c_def)
qed

section \<open>Properties\<close>

abbreviation plan_place :: "chunk_plan \<Rightarrow> nat \<times> nat" where
  "plan_place p \<equiv> (unat (cp_offset p), unat (cp_len p))"

lemma run_plan_places:
  assumes "plan_ok u" "uc_chunk_size u = c" "pending_chunks u = rs" "length rs \<le> n"
  shows "map plan_place (run_plan n u) = rs"
    and "\<forall>p \<in> set (run_plan n u). unat (cp_index p) = unat (cp_offset p) div unat c"
proof -
  have m: "list_all2 (chunk_matches c) (run_plan n u) rs"
    using run_plan_pending [OF assms(1), of n] assms(2-4) by simp
  then show "map plan_place (run_plan n u) = rs"
    by (induction rule: list_all2_induct) (auto simp: chunk_matches_def)
  show "\<forall>p \<in> set (run_plan n u). unat (cp_index p) = unat (cp_offset p) div unat c"
    using m by (induction rule: list_all2_induct) (auto simp: chunk_matches_def)
qed

text \<open>C33. The chunk iterator reads what a backup needs, once.  From a fresh plan over ordered extents
  inside the device, \<open>planned_chunks\<close> calls hand out every chunk and later calls none; their lengths
  add up to \<open>planned_bytes\<close>; they ascend and share no byte; each starts on the chunk boundary of its
  index, is not empty, not longer than a chunk and inside the device; and together they contain every
  byte of every used extent.\<close>

theorem plan_reads_used_once:
  assumes "used_chunks_new m c dev = Inr u" "unat c < 2 ^ 32" "unat dev + unat c < 2 ^ 64"
    and "\<forall>r \<in> set (em_extents m). range_ok r \<and> snd r < dev" "unat (planned_chunks u) \<le> n"
  shows "length (run_plan n u) = unat (planned_chunks u)
    \<and> sum_list (map (\<lambda>p. unat (cp_len p)) (run_plan n u)) = unat (planned_bytes u)
    \<and> sorted_wrt (\<lambda>p q. unat (cp_offset p) + unat (cp_len p) \<le> unat (cp_offset q)) (run_plan n u)
    \<and> (\<forall>p \<in> set (run_plan n u). unat (cp_offset p) = unat (cp_index p) * unat c \<and> 0 < cp_len p
          \<and> unat (cp_len p) \<le> unat c \<and> unat (cp_offset p) + unat (cp_len p) \<le> unat dev)
    \<and> unat ` covers (em_extents m)
        \<subseteq> (\<Union>p \<in> set (run_plan n u). {unat (cp_offset p) ..< unat (cp_offset p) + unat (cp_len p)})"
proof -
  note ok = plan_ok_new [OF assms(1-4)]
  define rs where "rs = regions_chunks (unat c) (uc_regions u)"
  have c: "c \<noteq> 0" using assms(1) by (auto simp: used_chunks_new_def)
  then have c0: "0 < unat c" by (simp add: unat_gt_0)
  note al = chunk_aligned_correct [OF c assms(4), folded ok(3)]
  note tot = plan_totals [OF ok(1), unfolded ok(2), folded rs_def]
  have "length rs \<le> n" using tot(2) assms(5) by simp
  note run = run_plan_places [OF ok(1,2) pending_new [OF assms(1), folded rs_def] this]
  have "length (run_plan n u) = length rs" using run(1) by (metis length_map)
  moreover have "map snd rs = map (\<lambda>p. unat (cp_len p)) (run_plan n u)"
    unfolding run(1) [symmetric] by simp
  moreover have "sorted_wrt (\<lambda>p q. unat (cp_offset p) + unat (cp_len p) \<le> unat (cp_offset q)) (run_plan n u)"
    using regions_chunks_ascending [OF al(1), of "unat c"]
    unfolding rs_def [symmetric] run(1) [symmetric] ascending_chunks_def by (simp add: sorted_wrt_map)
  moreover have each: "unat (cp_offset p) = unat (cp_index p) * unat c \<and> 0 < cp_len p
      \<and> unat (cp_len p) \<le> unat c \<and> unat (cp_offset p) + unat (cp_len p) \<le> unat dev" if "p \<in> set (run_plan n u)" for p
  proof -
    have "plan_place p \<in> set rs" using that unfolding run(1) [symmetric] by simp
    then obtain r where r: "r \<in> set (uc_regions u)" "plan_place p \<in> set (chunks_from (unat c) (unat (fst r)) (unat (snd r)))"
      unfolding rs_def by (rule regions_chunks_bounds)
    have "unat c dvd unat (fst r)" "unat (snd r) < unat dev" using al(3) r(1) by (simp_all add: chunk_region_def)
    then show ?thesis using chunks_from_bounds [OF r(2)] run(2) that by (auto simp: word_less_nat_alt)
  qed
  moreover have "(\<Union>p \<in> set (run_plan n u). {unat (cp_offset p) ..< unat (cp_offset p) + unat (cp_len p)})
      = unat ` covers (uc_regions u)"
    using regions_chunks_span [OF c0, of "uc_regions u"]
    unfolding rs_def [symmetric] run(1) [symmetric] by (simp add: span_def)
  ultimately show ?thesis
    using tot image_mono [OF al(2), of unat] by (intro conjI ballI each) simp_all
qed

theorem plan_reads_used_once_witness:
  "\<exists>u. used_chunks_new \<lparr> em_extents = [(5, 6), (20, 21)], em_complete = True \<rparr> 8 22 = Inr u
     \<and> length (run_plan 9 u) = 2 \<and> sum_list (map (\<lambda>p. unat (cp_len p)) (run_plan 9 u)) = 14"
proof -
  let ?m = "\<lparr> em_extents = [(5, 6), (20, 21)], em_complete = True \<rparr> :: extent_map"
  have al: "chunk_aligned ?m 8 22 = [(0, 7), (16, 21)]"
    by (simp add: chunk_aligned_def align_range_def List.map_filter_simps merge_ranges_def less_eq_prod_def
        saturating_add_u64_def saturating_sub_u64_def max_def min_def)
  define u where "u = \<lparr> uc_chunk_size = 8, uc_device_size = 22, uc_chunk_count = 3,
    uc_regions = [(0, 7), (16, 21)], uc_region = 0, uc_next_offset = 0 \<rparr>"
  have u: "used_chunks_new ?m 8 22 = Inr u"
    by (simp add: used_chunks_new_def u_def al div_ceil_u64_def)
  have t: "planned_chunks u = 2" "planned_bytes u = 14"
    by (simp_all add: u_def planned_chunks_def planned_bytes_def div_ceil_u64_def)
  show ?thesis
    using plan_reads_used_once [OF u, of 9] u t by (auto simp: range_ok_def)
qed

end
