(* ===== verification/Extras.thy ===== *)
theory Extras
  imports Page_Stream
begin

text \<open>
  \<open>crates/lr-format/src/extras.rs\<close>: the extras stream of an image, a sequence of typed records: the
  members of the chain, the CDC parameters, the change tokens of a file backup.  A writer is the bytes
  it emits; the reader of a record works over any byte source.
\<close>

section \<open>Records\<close>

definition extras_ver :: u16 where "extras_ver = 1"
definition extras_chain_members :: u8 where "extras_chain_members = 1"
definition extras_image_metadata :: u8 where "extras_image_metadata = 5"
definition extras_cdc_params :: u8 where "extras_cdc_params = 6"
definition extras_file_changes :: u8 where "extras_file_changes = 7"
definition max_extras_payload :: nat where "max_extras_payload = 16 * 1024 * 1024"

definition write_record :: "u8 \<Rightarrow> bytes \<Rightarrow> bytes res" where
  "write_record kind payload =
     (if length payload \<ge> 2 ^ 32 then Inl (Unsupported ''extras payload larger than 4 GiB'')
      else Inr (put_u16 extras_ver @ put_u8 kind @ put_u8 0 @ put_u32 (word_of_nat (length payload)) @ payload))"

definition read_record :: "(nat \<Rightarrow> ('s, bytes) reader) \<Rightarrow> ('s, u8 \<times> bytes) reader" where
  "read_record rb =
     rd_bind (reader_u16 rb) (\<lambda>ver.
     rd_bind (rd_lift (fail_if (ver \<noteq> extras_ver) (Corrupt ''extras version ''))) (\<lambda>_.
     rd_bind (reader_u8 rb) (\<lambda>kind.
     rd_bind (reader_u8 rb) (\<lambda>_.
     rd_bind (reader_u32 rb) (\<lambda>len.
     rd_bind (rd_lift (fail_if (unat len > max_extras_payload) (Corrupt ''extras payload of ''))) (\<lambda>_.
     rd_bind (reader_bytes rb (unat len)) (\<lambda>payload.
       rd_return (kind, payload))))))))"

section \<open>Payloads\<close>

text \<open>\<open>slice.chunks(n)\<close>: pieces of \<open>n\<close> elements, the last one maybe shorter.\<close>

function list_chunks :: "nat \<Rightarrow> 'a list \<Rightarrow> 'a list list" where
  "list_chunks n xs = (if n = 0 \<or> xs = [] then [] else take n xs # list_chunks n (drop n xs))"
  by pat_completeness auto
termination
  by (relation "measure (\<lambda>(n, xs). length xs)") auto

declare list_chunks.simps [simp del]

record extras_member =
  cm_index :: u8
  cm_image_uuid :: uuid

definition chain_member_len :: nat where "chain_member_len = 19"

definition chain_members_payload :: "extras_member list \<Rightarrow> bytes" where
  "chain_members_payload ms = concat (map (\<lambda>m. put_u8 (cm_index m) @ put_u16 0 @ cm_image_uuid m) ms)"

definition write_chain_members :: "extras_member list \<Rightarrow> bytes res" where
  "write_chain_members ms = write_record extras_chain_members (chain_members_payload ms)"

definition read_chain_members :: "bytes \<Rightarrow> extras_member list res" where
  "read_chain_members payload =
     (if length payload mod chain_member_len \<noteq> 0
        then Inl (Corrupt ''chain member list length is not a multiple of 19'')
      else Inr (map (\<lambda>c. \<lparr> cm_index = c ! 0, cm_image_uuid = slice 3 19 c \<rparr>) (list_chunks chain_member_len payload)))"

record cdc_params =
  cdc_min_size :: u32
  cdc_avg_size :: u32
  cdc_max_size :: u32
  cdc_normalization :: u8

definition cdc_params_len :: nat where "cdc_params_len = 13"

definition write_cdc_params :: "cdc_params \<Rightarrow> bytes res" where
  "write_cdc_params p = write_record extras_cdc_params
     (put_u32 (cdc_min_size p) @ put_u32 (cdc_avg_size p) @ put_u32 (cdc_max_size p) @ put_u8 (cdc_normalization p))"

definition read_cdc_params :: "bytes \<Rightarrow> cdc_params res" where
  "read_cdc_params payload =
     (if length payload \<noteq> cdc_params_len then Inl (Corrupt ''cdc params payload of '')
      else res_bind (slice_u32 payload) (\<lambda>min_size.
        res_bind (slice_u32 (drop 4 payload)) (\<lambda>avg_size.
        res_bind (slice_u32 (drop 8 payload)) (\<lambda>max_size.
          Inr \<lparr> cdc_min_size = min_size, cdc_avg_size = avg_size, cdc_max_size = max_size,
                cdc_normalization = payload ! 12 \<rparr>))))"

text \<open>The signed seconds of a change token are kept as their 64 bits.\<close>

record change_token =
  ct_index :: u32
  ct_ino :: u64
  ct_ctime_sec :: u64
  ct_ctime_nsec :: u32

definition change_token_len :: nat where "change_token_len = 24"

definition change_token_bytes :: "change_token \<Rightarrow> bytes" where
  "change_token_bytes t = put_u32 (ct_index t) @ put_u64 (ct_ino t) @ put_u64 (ct_ctime_sec t) @ put_u32 (ct_ctime_nsec t)"

fun write_batches :: "change_token list list \<Rightarrow> bytes res" where
  "write_batches [] = Inr []"
| "write_batches (batch # rest) =
     res_bind (write_record extras_file_changes (concat (map change_token_bytes batch))) (\<lambda>r.
     res_bind (write_batches rest) (\<lambda>rs. Inr (r @ rs)))"

definition write_file_changes :: "change_token list \<Rightarrow> bytes res" where
  "write_file_changes tokens = write_batches (list_chunks (max_extras_payload div change_token_len) tokens)"

definition change_token_decode :: "bytes \<Rightarrow> change_token res" where
  "change_token_decode t =
     res_bind (slice_u32 t) (\<lambda>index.
     res_bind (slice_u64 (drop 4 t)) (\<lambda>ino.
     res_bind (slice_u64 (drop 12 t)) (\<lambda>sec.
     res_bind (slice_u32 (drop 20 t)) (\<lambda>nsec.
       Inr \<lparr> ct_index = index, ct_ino = ino, ct_ctime_sec = sec, ct_ctime_nsec = nsec \<rparr>))))"

fun decode_all :: "(bytes \<Rightarrow> 'a res) \<Rightarrow> bytes list \<Rightarrow> 'a list res" where
  "decode_all dec [] = Inr []"
| "decode_all dec (c # cs) = res_bind (dec c) (\<lambda>x. res_bind (decode_all dec cs) (\<lambda>xs. Inr (x # xs)))"

definition read_file_changes :: "bytes \<Rightarrow> change_token list res" where
  "read_file_changes payload =
     (if length payload mod change_token_len \<noteq> 0 then Inl (Corrupt ''file change payload of '')
      else decode_all change_token_decode (list_chunks change_token_len payload))"

section \<open>Lemmas\<close>

lemma list_chunks_concat:
  assumes "0 < n" "\<forall>x \<in> set xs. length (f x) = n"
  shows "list_chunks n (concat (map f xs)) = map f xs"
  using assms(2)
proof (induction xs)
  case (Cons x xs)
  have "f x \<noteq> []" using Cons.prems assms(1) by auto
  then show ?case using Cons assms(1) by (simp add: list_chunks.simps [of n "f x @ _"])
qed (simp add: list_chunks.simps)

lemma length_concat_const: "\<forall>x \<in> set xs. length (f x) = n \<Longrightarrow> length (concat (map f xs)) = length xs * n"
  by (induction xs) auto

lemma concat_list_chunks: "0 < n \<Longrightarrow> concat (list_chunks n xs) = xs"
  by (induction n xs rule: list_chunks.induct) (subst list_chunks.simps, auto)

lemma length_list_chunks: "ys \<in> set (list_chunks n xs) \<Longrightarrow> length ys \<le> n"
  by (induction n xs rule: list_chunks.induct) (subst (asm) (2) list_chunks.simps, auto split: if_splits)

lemma decode_all_map: "\<forall>x \<in> set xs. dec (f x) = Inr x \<Longrightarrow> decode_all dec (map f xs) = Inr xs"
  by (induction xs) auto

lemma change_token_roundtrip: "change_token_decode (change_token_bytes t) = Inr t"
  by (cases t) (simp add: change_token_decode_def change_token_bytes_def put_u32_def put_u64_def slice_u32_def)

lemma chain_members_roundtrip:
  assumes "\<forall>m \<in> set ms. uuid_wf (cm_image_uuid m)"
  shows "read_chain_members (chain_members_payload ms) = Inr ms" "length (chain_members_payload ms) = 19 * length ms"
proof -
  let ?f = "\<lambda>m. put_u8 (cm_index m) @ put_u16 0 @ cm_image_uuid m"
  have l: "\<forall>m \<in> set ms. length (?f m) = 19" using assms by (simp add: uuid_wf_def)
  show len: "length (chain_members_payload ms) = 19 * length ms"
    unfolding chain_members_payload_def using length_concat_const [OF l] by simp
  have "\<lparr> cm_index = ?f m ! 0, cm_image_uuid = slice 3 19 (?f m) \<rparr> = m" if "m \<in> set ms" for m
    using that assms by (cases m) (auto simp: put_u8_def slice_def uuid_wf_def)
  then have "map (\<lambda>c. \<lparr> cm_index = c ! 0, cm_image_uuid = slice 3 19 c \<rparr>) (map ?f ms) = ms"
    by (simp add: map_idI)
  then show "read_chain_members (chain_members_payload ms) = Inr ms"
    using list_chunks_concat [OF _ l] len
    by (simp add: read_chain_members_def chain_members_payload_def chain_member_len_def)
qed

lemma cdc_params_roundtrip:
  "read_cdc_params (put_u32 (cdc_min_size p) @ put_u32 (cdc_avg_size p) @ put_u32 (cdc_max_size p) @ put_u8 (cdc_normalization p)) = Inr p"
  by (cases p) (simp add: read_cdc_params_def cdc_params_len_def put_u8_def put_u32_def slice_u32_def nth_append)

lemma file_changes_roundtrip:
  "read_file_changes (concat (map change_token_bytes ts)) = Inr ts"
  "length (concat (map change_token_bytes ts)) = 24 * length ts"
proof -
  have l: "\<forall>t \<in> set ts. length (change_token_bytes t) = 24" by (simp add: change_token_bytes_def)
  then show "length (concat (map change_token_bytes ts)) = 24 * length ts" using length_concat_const [OF l] by simp
  then show "read_file_changes (concat (map change_token_bytes ts)) = Inr ts"
    using list_chunks_concat [OF _ l] decode_all_map [of ts change_token_decode change_token_bytes]
    by (simp add: read_file_changes_def change_token_len_def change_token_roundtrip)
qed

text \<open>The batches of \<open>write_file_changes\<close> stay below the limit of the reader.\<close>

lemma write_batches_ok:
  assumes "\<forall>b \<in> set batches. 24 * length b \<le> max_extras_payload"
  shows "write_batches batches = Inr (concat (map (\<lambda>b. put_u16 extras_ver @ put_u8 extras_file_changes @ put_u8 0
      @ put_u32 (word_of_nat (24 * length b)) @ concat (map change_token_bytes b)) batches))"
  using assms
proof (induction batches)
  case (Cons b bs)
  have "24 * length b < 2 ^ 32" using Cons.prems by (simp add: max_extras_payload_def)
  then show ?case using Cons file_changes_roundtrip(2) [of b] by (simp add: write_record_def)
qed simp

context byte_source
begin

lemma record_decodes:
  assumes "length payload \<le> max_extras_payload"
  shows "decodes rem ok (read_record rb)
    (put_u16 extras_ver @ put_u8 kind @ put_u8 0 @ put_u32 (word_of_nat (length payload)) @ payload) (kind, payload)"
proof -
  have u: "unat (word_of_nat (length payload) :: u32) = length payload"
    using assms by (intro unat_of_nat_u32) (simp add: max_extras_payload_def)
  show ?thesis
    unfolding read_record_def reader_bytes_def
    apply (rule src_bind(2), rule decodes_bind_lift [where x = "()"], simp)
    apply (rule src_bind(1), rule src_bind(1), rule src_bind(3), rule decodes_bind_lift [where x = "()"])
     apply (simp add: u assms not_less)
    apply (rule decodes_bind_last, rule src_bytes)
    by (simp_all add: u decodes_return)
qed

end

section \<open>Properties\<close>

text \<open>C40. Extras records read back.  From a metadata stream that holds the record a writer emitted, the
  reader returns its kind and payload and stops behind it, and the payload decodes to the chain
  members, the CDC parameters or the change tokens that were written; change tokens are split so that
  no record exceeds the limit the reader enforces, whatever their number.\<close>

theorem extras_roundtrip:
  assumes "pages_ok P st" "\<forall>m \<in> set ms. uuid_wf (cm_image_uuid m)" "19 * length ms \<le> max_extras_payload"
    and "write_chain_members ms = Inr mb" "write_cdc_params cdc = Inr cb" "write_file_changes ts = Inr tb"
  shows "(page_remaining P st = mb @ rest \<longrightarrow> (\<exists>payload st'. read_record (page_read_bytes P) st = Inr ((extras_chain_members, payload), st')
      \<and> read_chain_members payload = Inr ms \<and> page_remaining P st' = rest \<and> pages_ok P st'))
    \<and> (page_remaining P st = cb @ rest \<longrightarrow> (\<exists>payload st'. read_record (page_read_bytes P) st = Inr ((extras_cdc_params, payload), st')
      \<and> read_cdc_params payload = Inr cdc \<and> page_remaining P st' = rest \<and> pages_ok P st'))
    \<and> (page_remaining P st = tb @ rest \<longrightarrow> (\<exists>payloads batches st'.
         read_list (length payloads) (read_record (page_read_bytes P)) st = Inr (map (\<lambda>p. (extras_file_changes, p)) payloads, st')
      \<and> decode_all read_file_changes payloads = Inr batches \<and> concat batches = ts
      \<and> page_remaining P st' = rest \<and> pages_ok P st'))"
proof (intro conjI impI)
  assume r: "page_remaining P st = mb @ rest"
  note c = chain_members_roundtrip [OF assms(2)]
  have "mb = put_u16 extras_ver @ put_u8 extras_chain_members @ put_u8 0
      @ put_u32 (word_of_nat (length (chain_members_payload ms))) @ chain_members_payload ms"
    using assms(4) by (simp add: write_chain_members_def write_record_def split: if_splits)
  then show "\<exists>payload st'. read_record (page_read_bytes P) st = Inr ((extras_chain_members, payload), st')
      \<and> read_chain_members payload = Inr ms \<and> page_remaining P st' = rest \<and> pages_ok P st'"
    using decodesD [OF page_src.record_decodes [of "chain_members_payload ms" P extras_chain_members] assms(1), of rest]
      c assms(3) r by auto
next
  assume r: "page_remaining P st = cb @ rest"
  let ?p = "put_u32 (cdc_min_size cdc) @ put_u32 (cdc_avg_size cdc) @ put_u32 (cdc_max_size cdc) @ put_u8 (cdc_normalization cdc)"
  have "cb = put_u16 extras_ver @ put_u8 extras_cdc_params @ put_u8 0 @ put_u32 (word_of_nat (length ?p)) @ ?p"
    using assms(5) by (simp add: write_cdc_params_def write_record_def)
  then show "\<exists>payload st'. read_record (page_read_bytes P) st = Inr ((extras_cdc_params, payload), st')
      \<and> read_cdc_params payload = Inr cdc \<and> page_remaining P st' = rest \<and> pages_ok P st'"
    using decodesD [OF page_src.record_decodes [of ?p P extras_cdc_params] assms(1), of rest]
      cdc_params_roundtrip [of cdc] r by (auto simp: max_extras_payload_def)
next
  assume r: "page_remaining P st = tb @ rest"
  define batches where "batches = list_chunks (max_extras_payload div change_token_len) ts"
  have small: "\<forall>b \<in> set batches. 24 * length b \<le> max_extras_payload"
    using length_list_chunks unfolding batches_def by (fastforce simp: max_extras_payload_def change_token_len_def)
  let ?rec = "\<lambda>p. put_u16 extras_ver @ put_u8 extras_file_changes @ put_u8 0 @ put_u32 (word_of_nat (length p)) @ p"
  let ?pay = "\<lambda>b. concat (map change_token_bytes b)"
  have tb: "tb = concat (map ?rec (map ?pay batches))"
    using write_batches_ok [OF small] assms(6) file_changes_roundtrip(2)
    by (simp add: write_file_changes_def batches_def o_def)
  have dec: "decodes (page_remaining P) (pages_ok P) (read_list (length batches) (read_record (page_read_bytes P)))
      (concat (map (\<lambda>b. ?rec (?pay b)) batches)) (map (\<lambda>b. (extras_file_changes, ?pay b)) batches)"
  proof -
    let ?xs = "map (\<lambda>b. (extras_file_changes, ?pay b)) batches"
    have "decodes (page_remaining P) (pages_ok P) (read_record (page_read_bytes P)) (?rec (snd x)) x" if "x \<in> set ?xs" for x
      using that small file_changes_roundtrip(2) page_src.record_decodes [of "snd x" P extras_file_changes] by auto
    then have "decodes (page_remaining P) (pages_ok P) (read_list (length ?xs) (read_record (page_read_bytes P)))
        (concat (map (\<lambda>x. ?rec (snd x)) ?xs)) ?xs"
      by (rule decodes_list)
    then show ?thesis by (simp only: map_map o_def snd_conv length_map)
  qed
  have "decode_all read_file_changes (map ?pay batches) = Inr batches"
    by (rule decode_all_map) (simp add: file_changes_roundtrip(1))
  moreover have "concat batches = ts"
    unfolding batches_def by (rule concat_list_chunks) (simp add: max_extras_payload_def change_token_len_def)
  ultimately show "\<exists>payloads batches st'.
         read_list (length payloads) (read_record (page_read_bytes P)) st = Inr (map (\<lambda>p. (extras_file_changes, p)) payloads, st')
      \<and> decode_all read_file_changes payloads = Inr batches \<and> concat batches = ts
      \<and> page_remaining P st' = rest \<and> pages_ok P st'"
    using decodesD [OF dec assms(1), of rest] r
    by (intro exI [of _ "map ?pay batches"] exI [of _ batches]) (auto simp: tb o_def)
qed

definition demo_extras_page :: "bytes \<Rightarrow> page_stream_reader" where
  "demo_extras_page b = \<lparr> pr_file = [], pr_kind = Aes256Gcm, pr_meta_key = [], pr_stream = Extras,
     pr_entries = [], pr_index = 0, pr_buf = b @ [9], pr_pos = 0 \<rparr>"

theorem extras_roundtrip_witness:
  "\<exists>mb payload st'. write_chain_members [\<lparr> cm_index = 0, cm_image_uuid = replicate 16 1 \<rparr>] = Inr mb
     \<and> read_record (page_read_bytes demo_prims) (demo_extras_page mb) = Inr ((extras_chain_members, payload), st')
     \<and> read_chain_members payload = Inr [\<lparr> cm_index = 0, cm_image_uuid = replicate 16 1 \<rparr>]
     \<and> page_remaining demo_prims st' = [9]"
proof -
  let ?ms = "[\<lparr> cm_index = 0, cm_image_uuid = replicate 16 1 \<rparr>] :: extras_member list"
  let ?cdc = "\<lparr> cdc_min_size = 1, cdc_avg_size = 2, cdc_max_size = 3, cdc_normalization = 0 \<rparr>"
  obtain mb cb where b: "write_chain_members ?ms = Inr mb" "write_cdc_params ?cdc = Inr cb"
    by (simp add: write_chain_members_def write_cdc_params_def write_record_def chain_members_payload_def)
  have "write_file_changes [] = Inr []"
    by (simp add: write_file_changes_def list_chunks.simps)
  moreover have "pages_ok demo_prims (demo_extras_page mb)" "page_remaining demo_prims (demo_extras_page mb) = mb @ [9]"
    by (simp_all add: pages_ok_def page_remaining_def demo_extras_page_def)
  moreover have "\<forall>m \<in> set ?ms. uuid_wf (cm_image_uuid m)" by (simp add: uuid_wf_def)
  ultimately show ?thesis
    using extras_roundtrip [of demo_prims "demo_extras_page mb" ?ms mb ?cdc cb "[]" "[]" "[9]"] b
    by (auto simp: max_extras_payload_def)
qed

end
