(* ===== verification/Block_Backup.thy ===== *)
theory Block_Backup
  imports Chain_Walk Chunk_Plan Extras
begin

text \<open>
  \<open>crates/lr-engine/src/backup.rs\<close>, the block backup: reading the planned chunks of a snapshot, storing
  what differs from the parent, and spooling the manifest.  The snapshot's device is a record of
  operations on a state \<open>'s\<close>: positional reads, the health check of the snapshot and the progress
  report through which a job is cancelled.  The image file and the spool file are files with a
  capacity, so that every write may fail.
\<close>

section \<open>The source and the state of a backup\<close>

record 's source_ops =
  so_read_at :: "'s \<Rightarrow> u64 \<Rightarrow> nat \<Rightarrow> bytes res \<times> 's"
  so_check_health :: "'s \<Rightarrow> unit res \<times> 's"
  so_check_final_health :: "'s \<Rightarrow> unit res \<times> 's"
  so_report :: "u64 \<Rightarrow> 's \<Rightarrow> unit res \<times> 's"

datatype bad_sector_policy = Abort | Record

record counts =
  n_stored :: u64
  n_zero :: u64
  n_bad :: u64
  n_changed :: u64
  n_inherited :: u64
  n_visited :: u64

definition counts_default :: counts where
  "counts_default = \<lparr> n_stored = 0, n_zero = 0, n_bad = 0, n_changed = 0, n_inherited = 0, n_visited = 0 \<rparr>"

datatype source_state = SrcUnchanged | SrcStored block_entry | SrcZero | SrcBadSector block_entry | SrcMissing

record backup_args =
  ba_options :: chunk_options
  ba_keys :: writer_keys
  ba_buffer_len :: nat
  ba_on_bad_sector :: bad_sector_policy

record 's backup_state =
  bs_source :: 's
  bs_writer :: image_writer
  bs_nonces :: nonce_seq
  bs_spool :: disk_file

definition on_source :: "('s \<Rightarrow> 'a res \<times> 's) \<Rightarrow> 's backup_state \<Rightarrow> 'a res \<times> 's backup_state" where
  "on_source f st = (case f (bs_source st) of (r, src) \<Rightarrow> (r, st\<lparr> bs_source := src \<rparr>))"

definition spool_write :: "bytes res \<Rightarrow> 's backup_state \<Rightarrow> unit res \<times> 's backup_state" where
  "spool_write encoded st =
     (case res_bind encoded (\<lambda>b. file_write_all b (bs_spool st)) of
        Inl e \<Rightarrow> (Inl e, st) | Inr f \<Rightarrow> (Inr (), st\<lparr> bs_spool := f \<rparr>))"

section \<open>One chunk\<close>

definition store_bytes ::
    "prims \<Rightarrow> backup_args \<Rightarrow> u16 \<Rightarrow> chunk_state \<Rightarrow> bytes \<Rightarrow> 's backup_state \<Rightarrow> source_state res \<times> 's backup_state" where
  "store_bytes P args member parent b st =
     (if is_all_zero b then (Inr (if parent = Zero then SrcUnchanged else SrcZero), st)
      else (let hash = content_hash P (wk_dedup_key (ba_keys args)) b in
        if (case parent of Stored _ parent_hash _ _ \<Rightarrow> parent_hash = hash | _ \<Rightarrow> False) then (Inr SrcUnchanged, st)
        else (case append_chunk P (ba_options args) (ba_keys args) Block (bs_nonces st) b (bs_writer st) of
            Inl e \<Rightarrow> (Inl e, st)
          | Inr (ref, nonces, w) \<Rightarrow>
              (res_bind (entry_stored member (cref_hash ref) (cref_offset ref) (cref_stored_len ref))
                 (\<lambda>entry. Inr (SrcStored entry)),
               st\<lparr> bs_writer := w, bs_nonces := nonces \<rparr>))))"

definition store_chunk ::
    "prims \<Rightarrow> 's source_ops \<Rightarrow> backup_args \<Rightarrow> u16 \<Rightarrow> chunk_plan \<Rightarrow> chunk_state \<Rightarrow> 's backup_state
     \<Rightarrow> source_state res \<times> 's backup_state" where
  "store_chunk P S args member chunk parent st =
     st_bind (on_source (so_check_health S) st) (\<lambda>_ st.
       case on_source (\<lambda>src. read_chunk (so_read_at S) src chunk (ba_buffer_len args)) st of
         (Inr b, st) \<Rightarrow>
           st_bind (on_source (so_check_health S) st) (\<lambda>_ st. store_bytes P args member parent b st)
       | (Inl e, st) \<Rightarrow>
           (case e of
              BadSector _ _ \<Rightarrow>
                (case ba_on_bad_sector args of
                   Abort \<Rightarrow> (Inl e, st)
                 | Record \<Rightarrow> (Inr (SrcBadSector (entry_bad_sector (cp_offset chunk) (cp_len chunk))), st))
            | _ \<Rightarrow> (Inl e, st)))"

section \<open>A full manifest\<close>

fun fill_unused :: "nat \<Rightarrow> 's backup_state \<Rightarrow> unit res \<times> 's backup_state" where
  "fill_unused 0 st = (Inr (), st)"
| "fill_unused (Suc n) st = st_bind (spool_write (entry_encode entry_unused) st) (\<lambda>_ st. fill_unused n st)"

definition full_entry :: "source_state \<Rightarrow> counts \<Rightarrow> block_entry \<times> counts" where
  "full_entry state c =
     (case state of
        SrcStored entry \<Rightarrow> (entry, c\<lparr> n_stored := n_stored c + 1 \<rparr>)
      | SrcZero \<Rightarrow> (entry_zero, c\<lparr> n_zero := n_zero c + 1 \<rparr>)
      | SrcBadSector entry \<Rightarrow> (entry, c\<lparr> n_bad := n_bad c + 1 \<rparr>)
      | _ \<Rightarrow> (entry_unused, c))"

text \<open>
  \<open>while let Some(chunk) = plan.next_chunk()\<close>; the outer \<open>None\<close> would be a loop that does not end.
  The inner loop \<open>while next_index < chunk.index\<close> runs \<open>chunk.index - next_index\<close> times.
\<close>

definition full_step ::
    "prims \<Rightarrow> 's source_ops \<Rightarrow> backup_args \<Rightarrow> chunk_plan \<Rightarrow> u64 \<Rightarrow> counts \<Rightarrow> 's backup_state
     \<Rightarrow> (u64 \<times> counts) res \<times> 's backup_state" where
  "full_step P S args chunk next_index c st =
     st_bind (on_source (so_report S (cp_offset chunk)) st) (\<lambda>_ st.
     st_bind (fill_unused (unat (cp_index chunk) - unat next_index) st) (\<lambda>_ st.
     st_bind (store_chunk P S args 0 chunk Unused st) (\<lambda>state st.
     let (entry, c) = full_entry state c in
     st_bind (spool_write (entry_encode entry) st) (\<lambda>_ st.
       (Inr (cp_index chunk + 1, c\<lparr> n_visited := n_visited c + 1 \<rparr>), st)))))"

partial_function (option) full_entries_loop ::
    "prims \<Rightarrow> 's source_ops \<Rightarrow> backup_args \<Rightarrow> used_chunks \<Rightarrow> u64 \<Rightarrow> counts \<Rightarrow> 's backup_state
     \<Rightarrow> ((u64 \<times> counts) res \<times> 's backup_state) option" where
  "full_entries_loop P S args plan next_index c st =
     (case next_chunk plan of
        (None, _) \<Rightarrow> Some (Inr (next_index, c), st)
      | (Some chunk, plan) \<Rightarrow>
          (case full_step P S args chunk next_index c st of
             (Inl e, st) \<Rightarrow> Some (Inl e, st)
           | (Inr (next_index, c), st) \<Rightarrow> full_entries_loop P S args plan next_index c st))"

definition write_full_entries ::
    "prims \<Rightarrow> 's source_ops \<Rightarrow> backup_args \<Rightarrow> used_chunks \<Rightarrow> u64 \<Rightarrow> 's backup_state
     \<Rightarrow> (counts res \<times> 's backup_state) option" where
  "write_full_entries P S args plan chunk_count st =
     map_option (\<lambda>r. st_bind r (\<lambda>(next_index, c) st.
         st_bind (fill_unused (unat chunk_count - unat next_index) st) (\<lambda>_ st. (Inr c, st))))
       (full_entries_loop P S args plan 0 counts_default st)"

section \<open>A member of a chain\<close>

definition entry_of :: "chunk_state \<Rightarrow> block_entry" where
  "entry_of state =
     (case state of
        Stored member hash offset stored_len \<Rightarrow>
          (case entry_stored member hash offset stored_len of Inl _ \<Rightarrow> entry_unused | Inr e \<Rightarrow> e)
      | Zero \<Rightarrow> entry_zero
      | Unused \<Rightarrow> entry_unused
      | BadSectorState \<Rightarrow> entry_bad_sector 0 0)"

record 's member_state =
  ms_io :: "'s backup_state"
  ms_plan :: used_chunks
  ms_next :: "chunk_plan option"
  ms_counts :: counts

definition with_io :: "'a res \<times> 's backup_state \<Rightarrow> 's member_state \<Rightarrow> 'a res \<times> 's member_state" where
  "with_io r v = (fst r, v\<lparr> ms_io := snd r \<rparr>)"

definition member_source ::
    "prims \<Rightarrow> 's source_ops \<Rightarrow> backup_args \<Rightarrow> u16 \<Rightarrow> u64 \<Rightarrow> chunk_state \<Rightarrow> 's member_state
     \<Rightarrow> source_state res \<times> 's member_state" where
  "member_source P S args member index parent v =
     (case ms_next v of
        Some chunk \<Rightarrow>
          if cp_index chunk = index then
            (let (next, plan) = next_chunk (ms_plan v); v = v\<lparr> ms_next := next, ms_plan := plan \<rparr> in
             with_io (store_chunk P S args member chunk parent (ms_io v)) v)
          else (Inr (if parent = Unused then SrcUnchanged else SrcMissing), v)
      | None \<Rightarrow> (Inr (if parent = Unused then SrcUnchanged else SrcMissing), v))"

definition write_changed ::
    "bool \<Rightarrow> u64 \<Rightarrow> block_entry \<Rightarrow> 's member_state \<Rightarrow> unit res \<times> 's member_state" where
  "write_changed delta index entry v =
     (let v = v\<lparr> ms_counts := ms_counts v\<lparr> n_changed := n_changed (ms_counts v) + 1 \<rparr> \<rparr> in
      with_io (spool_write (if delta then delta_write \<lparr> de_chunk_no = index, de_entry = entry \<rparr> else entry_encode entry)
        (ms_io v)) v)"

definition member_visit ::
    "prims \<Rightarrow> 's source_ops \<Rightarrow> backup_args \<Rightarrow> bool \<Rightarrow> u16 \<Rightarrow> u32 \<Rightarrow> 's member_state visitor" where
  "member_visit P S args delta member chunk_sz access index parent v =
     st_bind (with_io (on_source (so_report S (index * ucast chunk_sz)) (ms_io v)) v) (\<lambda>_ v.
     let v = v\<lparr> ms_counts := ms_counts v\<lparr> n_visited := n_visited (ms_counts v) + 1 \<rparr> \<rparr> in
     st_bind (member_source P S args member index parent v) (\<lambda>state v.
       case state of
         SrcUnchanged \<Rightarrow>
           (let v = v\<lparr> ms_counts := ms_counts v\<lparr> n_inherited := n_inherited (ms_counts v) + 1 \<rparr> \<rparr> in
            if delta then (Inr (), v)
            else with_io (spool_write (entry_encode (entry_of parent)) (ms_io v)) v)
       | SrcStored entry \<Rightarrow>
           write_changed delta index entry (v\<lparr> ms_counts := ms_counts v\<lparr> n_stored := n_stored (ms_counts v) + 1 \<rparr> \<rparr>)
       | SrcZero \<Rightarrow>
           write_changed delta index entry_zero (v\<lparr> ms_counts := ms_counts v\<lparr> n_zero := n_zero (ms_counts v) + 1 \<rparr> \<rparr>)
       | SrcBadSector entry \<Rightarrow>
           write_changed delta index entry (v\<lparr> ms_counts := ms_counts v\<lparr> n_bad := n_bad (ms_counts v) + 1 \<rparr> \<rparr>)
       | SrcMissing \<Rightarrow> write_changed delta index entry_unused v))"

definition write_member_entries ::
    "prims \<Rightarrow> 's source_ops \<Rightarrow> backup_args \<Rightarrow> bool \<Rightarrow> u32 \<Rightarrow> u32 \<Rightarrow> used_chunks \<Rightarrow> u64 \<Rightarrow> open_member list res
     \<Rightarrow> 's backup_state \<Rightarrow> (counts \<times> u64) res \<times> 's backup_state" where
  "write_member_entries P S args delta seq chunk_sz plan chunk_count members st =
     (if unat seq \<ge> 2 ^ 16 then (Inl (Unsupported ''chains longer than 65535 members are not supported''), st)
      else st_bind (res_bind members (chain_walk_new P), st) (\<lambda>walk st.
        if cw_chunk_count walk \<noteq> chunk_count
          then (Inl (Unsupported ''the source has another number of chunks than the parent image; start a new full chain''), st)
        else (let (next, plan) = next_chunk plan;
                  v = \<lparr> ms_io = st, ms_plan = plan, ms_next = next, ms_counts = counts_default \<rparr>;
                  (r, v) = chain_walk_walk P (member_visit P S args delta (ucast seq) chunk_sz) walk v in
          (res_bind r (\<lambda>_. Inr (ms_counts v, if delta then n_changed (ms_counts v) else chunk_count)), ms_io v))))"

section \<open>The spooled manifest\<close>

text \<open>The entry count stands behind the version, the kind, a reserved byte, the chunk size and the
  chunk count.\<close>

definition patch_entry_count :: "u64 \<Rightarrow> u64 \<Rightarrow> disk_file \<Rightarrow> disk_file res" where
  "patch_entry_count header_offset entry_count f =
     (let end = word_of_nat (file_pos f) in
      res_bind (file_write_all (u64_to_le_bytes entry_count) (file_seek (header_offset + (2 + 1 + 1 + 4 + 8)) f)) (\<lambda>f.
        Inr (file_seek end f)))"

text \<open>Phase B copies the spool into the page stream, a buffer of 64 KiB at a time.\<close>

function copy_spool ::
    "prims \<Rightarrow> image_writer page_stream \<Rightarrow> bytes \<Rightarrow> image_writer page_stream res option" where
  "copy_spool P st spool =
     (if spool = [] then Some (Inr st)
      else (case page_write P writer_sink st (take (64 * 1024) spool) of
          None \<Rightarrow> None
        | Some (Inl e) \<Rightarrow> Some (Inl e)
        | Some (Inr st) \<Rightarrow> copy_spool P st (drop (64 * 1024) spool)))"
  by pat_completeness auto
termination
  by (relation "measure (\<lambda>(P, st, spool). length spool)") auto

declare copy_spool.simps [simp del]

definition validate_chunk_size :: "u32 \<Rightarrow> unit res" where
  "validate_chunk_size sz =
     (if \<not> is_power_of_two_in_range sz min_chunk_size max_chunk_size
        then Inl (Unsupported ''chunk size must be a power of two between '') else Inr ())"

section \<open>What a backup promises of one chunk\<close>

text \<open>
  The reads of the source deliver the bytes of one device image \<open>dev\<close>: a snapshot does not change.
\<close>

definition source_shows :: "'s source_ops \<Rightarrow> bytes \<Rightarrow> bool" where
  "source_shows S dev \<longleftrightarrow> (\<forall>s off n b s'. so_read_at S s off n = (Inr b, s') \<longrightarrow> length b = n
     \<longrightarrow> b = slice (unat off) (unat off + n) dev)"

definition chunk_bytes :: "bytes \<Rightarrow> nat \<times> nat \<Rightarrow> bytes" where
  "chunk_bytes dev r = slice (fst r) (fst r + snd r) dev"

text \<open>A state that describes the bytes: a zero chunk, or a stored one with their content hash.\<close>

definition state_shows :: "prims \<Rightarrow> bytes \<Rightarrow> chunk_state \<Rightarrow> bytes \<Rightarrow> bool" where
  "state_shows P dedup_key state b =
     (case state of
        Zero \<Rightarrow> is_all_zero b
      | Stored _ hash _ _ \<Rightarrow> \<not> is_all_zero b \<and> hash = content_hash P dedup_key b
      | _ \<Rightarrow> False)"

text \<open>An entry whose payload is one of the records written so far and opens to the bytes.\<close>

definition stored_in :: "prims \<Rightarrow> backup_args \<Rightarrow> bytes list \<Rightarrow> u16 \<Rightarrow> block_entry \<Rightarrow> bytes \<Rightarrow> bool" where
  "stored_in P args recs member e b \<longleftrightarrow> entry_wf e \<and> be_state e = state_stored \<and> be_member e = member
     \<and> (\<exists>k < length recs. chunk_stored P (ba_options args) (ba_keys args) Block (take k recs) (recs ! k)
          \<lparr> cref_offset = be_offset e, cref_stored_len = be_stored_len e, cref_hash = be_hash e \<rparr> b)"

lemma stored_in_mono: "stored_in P args recs member e b \<Longrightarrow> stored_in P args (recs @ more_recs) member e b"
  unfolding stored_in_def by (auto simp: nth_append intro: exI [where x = "length recs"])

text \<open>The writer holds the records \<open>recs\<close> and has room for \<open>n\<close> more bytes of payload and overhead.\<close>

definition recs_stored :: "prims \<Rightarrow> backup_args \<Rightarrow> bytes list \<Rightarrow> bool" where
  "recs_stored P args recs \<longleftrightarrow> (\<forall>k < length recs. \<exists>ref pt.
     chunk_stored P (ba_options args) (ba_keys args) Block (take k recs) (recs ! k) ref pt)"

lemma recs_stored_snoc:
  assumes "recs_stored P args recs" "chunk_stored P (ba_options args) (ba_keys args) Block recs rec ref pt"
  shows "recs_stored P args (recs @ [rec])"
  unfolding recs_stored_def
proof (intro allI impI)
  fix k assume "k < length (recs @ [rec])"
  then consider "k < length recs" | "k = length recs" by force
  then show "\<exists>ref pt. chunk_stored P (ba_options args) (ba_keys args) Block (take k (recs @ [rec])) ((recs @ [rec]) ! k) ref pt"
    by cases (use assms in \<open>auto simp: recs_stored_def nth_append\<close>)
qed

definition backup_ok :: "prims \<Rightarrow> backup_args \<Rightarrow> bytes \<Rightarrow> bytes list \<Rightarrow> nat \<Rightarrow> 's backup_state \<Rightarrow> bool" where
  "backup_ok P args sbb recs n st \<longleftrightarrow> writer_holds sbb recs [] (bs_writer st)
     \<and> writer_size (bs_writer st) + n < sink_limit \<and> unat (bs_nonces st) + n < 2 ^ 96
     \<and> iw_meta_nonces (bs_writer st) = 0 \<and> recs_stored P args recs"

lemma backup_ok_frame [simp]:
  "backup_ok P args sbb recs n (st\<lparr> bs_source := src \<rparr>) = backup_ok P args sbb recs n st"
  "backup_ok P args sbb recs n (st\<lparr> bs_spool := f \<rparr>) = backup_ok P args sbb recs n st"
  by (simp_all add: backup_ok_def)

lemma backup_ok_le: "backup_ok P args sbb recs n st \<Longrightarrow> m \<le> n \<Longrightarrow> backup_ok P args sbb recs m st"
  by (simp add: backup_ok_def)

definition outcome_shows :: "prims \<Rightarrow> backup_args \<Rightarrow> bytes list \<Rightarrow> u16 \<Rightarrow> chunk_state \<Rightarrow> bytes \<Rightarrow> source_state \<Rightarrow> bool" where
  "outcome_shows P args recs member parent b state =
     (case state of
        SrcUnchanged \<Rightarrow> state_shows P (wk_dedup_key (ba_keys args)) parent b
      | SrcStored e \<Rightarrow> stored_in P args recs member e b \<and> \<not> is_all_zero b
      | SrcZero \<Rightarrow> is_all_zero b
      | SrcBadSector e \<Rightarrow> ba_on_bad_sector args = Record \<and> entry_wf e \<and> be_state e = state_bad_sector
      | SrcMissing \<Rightarrow> False)"

lemma store_bytes_shows:
  assumes "prims_ok P" "co_compress (ba_options args) \<longrightarrow> 1 \<le> co_level (ba_options args) \<and> co_level (ba_options args) \<le> 22"
    and "backup_ok P args sbb recs (n + length b + 36) st" "length b \<le> max_stored_len"
    and "store_bytes P args member parent b st = (r, st')"
  shows "\<exists>recs'. backup_ok P args sbb (recs @ recs') n st' \<and> bs_spool st' = bs_spool st \<and> bs_source st' = bs_source st
    \<and> (\<forall>state. r = Inr state \<longrightarrow> outcome_shows P args (recs @ recs') member parent b state)"
proof -
  let ?hash = "content_hash P (wk_dedup_key (ba_keys args)) b"
  consider "is_all_zero b" | "\<not> is_all_zero b" "\<exists>m o' l. parent = Stored m ?hash o' l"
    | "\<not> is_all_zero b" "\<nexists>m o' l. parent = Stored m ?hash o' l" by blast
  then show ?thesis
  proof cases
    case 1
    then show ?thesis using assms(3,5) backup_ok_le [OF assms(3), of n]
      by (intro exI [of _ "[]"]) (auto simp: store_bytes_def outcome_shows_def state_shows_def split: if_splits)
  next
    case 2
    then show ?thesis using assms(3,5) backup_ok_le [OF assms(3), of n]
      by (intro exI [of _ "[]"]) (auto simp: store_bytes_def outcome_shows_def state_shows_def)
  next
    case 3
    have w: "writer_holds sbb recs [] (bs_writer st)" "writer_size (bs_writer st) + length b + 35 < sink_limit"
        "unat (bs_nonces st) < 2 ^ 96"
      using assms(3) by (simp_all add: backup_ok_def)
    obtain ref ns w' rec where a: "append_chunk P (ba_options args) (ba_keys args) Block (bs_nonces st) b (bs_writer st) = Inr (ref, ns, w')"
        "writer_holds sbb (recs @ [rec]) [] w'" "chunk_stored P (ba_options args) (ba_keys args) Block recs rec ref b"
        "iw_meta_nonces w' = iw_meta_nonces (bs_writer st)" "unat ns \<le> unat (bs_nonces st) + 1"
        "writer_size w' \<le> writer_size (bs_writer st) + length b + 35"
      using append_chunk_holds [OF assms(1) w(1) assms(4,2) w(3,2), of "ba_keys args" Block] by blast
    define e where "e = \<lparr> be_state = state_stored, be_member = member, be_hash = cref_hash ref, be_offset = cref_offset ref,
      be_stored_len = cref_stored_len ref \<rparr>"
    have res: "r = (if member > max_member then Inl (Unsupported ''chain member index '') else Inr (SrcStored e))"
        "st' = st\<lparr> bs_writer := w', bs_nonces := ns \<rparr>"
      using assms(5) 3 a(1) by (auto simp: store_bytes_def Let_def entry_stored_def e_def split: chunk_state.splits)
    have "length (cref_hash ref) = 32"
      using a(3) assms(1) by (simp add: chunk_stored_def prims_ok_def bytes_len)
    then have "stored_in P args (recs @ [rec]) member e b" if "\<not> member > max_member"
      using a(3) that unfolding stored_in_def
      by (auto simp: e_def entry_wf_def state_stored_def state_bad_sector_def chunk_stored_def intro!: exI [of _ "length recs"])
    moreover have "backup_ok P args sbb (recs @ [rec]) n st'"
      using a(2,4-6) assms(3) recs_stored_snoc [OF _ a(3)] by (simp add: backup_ok_def res(2))
    ultimately show ?thesis
      using res 3(1) by (intro exI [of _ "[rec]"]) (auto simp: outcome_shows_def split: if_splits)
  qed
qed

lemma on_source_eq: "on_source f st = (r, st') \<longleftrightarrow> (\<exists>src. f (bs_source st) = (r, src) \<and> st' = st\<lparr> bs_source := src \<rparr>)"
  by (auto simp: on_source_def split: prod.splits)

lemma read_chunk_shows:
  assumes "source_shows S dev" "read_chunk (so_read_at S) src chunk n = (Inr b, src')" "chunk_matches c chunk r"
  shows "b = chunk_bytes dev r \<and> length b = snd r"
proof -
  obtain s where "so_read_at S src (cp_offset chunk) (unat (cp_len chunk)) = (Inr b, s)" "length b = unat (cp_len chunk)"
    using assms(2) by (auto simp: read_chunk_def split: if_splits prod.splits sum.splits)
  moreover from this have "b = slice (unat (cp_offset chunk)) (unat (cp_offset chunk) + unat (cp_len chunk)) dev"
    using assms(1) unfolding source_shows_def by blast
  ultimately show ?thesis using assms(3) by (simp add: chunk_matches_def chunk_bytes_def)
qed

lemma bad_sector_wf: "entry_wf (entry_bad_sector o' l)" "be_state (entry_bad_sector o' l) = state_bad_sector"
  by (simp_all add: entry_bad_sector_def entry_wf_def)

lemma store_chunk_shows:
  assumes "prims_ok P" "co_compress (ba_options args) \<longrightarrow> 1 \<le> co_level (ba_options args) \<and> co_level (ba_options args) \<le> 22"
    and "source_shows S dev" "chunk_matches c chunk r" "snd r \<le> max_stored_len"
    and "backup_ok P args sbb recs (n + snd r + 36) st" "store_chunk P S args member chunk parent st = (q, st')"
  shows "\<exists>recs'. backup_ok P args sbb (recs @ recs') n st' \<and> bs_spool st' = bs_spool st
    \<and> (\<forall>state. q = Inr state \<longrightarrow> outcome_shows P args (recs @ recs') member parent (chunk_bytes dev r) state)"
proof -
  have small: "backup_ok P args sbb (recs @ []) n st" using backup_ok_le [OF assms(6), of n] by simp
  obtain h src1 where h: "so_check_health S (bs_source st) = (h, src1)" by fastforce
  obtain rd src2 where rd: "read_chunk (so_read_at S) src1 chunk (ba_buffer_len args) = (rd, src2)" by fastforce
  obtain h2 src3 where h2: "so_check_health S src2 = (h2, src3)" by fastforce
  show ?thesis
  proof (cases "\<exists>b. is_ok h \<and> rd = Inr b \<and> is_ok h2")
    case True
    then obtain b where b: "h = Inr ()" "rd = Inr b" "h2 = Inr ()" by (auto simp: is_ok_iff)
    have "b = chunk_bytes dev r" "length b = snd r" using read_chunk_shows [OF assms(3) rd [unfolded b] assms(4)] by blast+
    moreover have "store_bytes P args member parent b (st\<lparr> bs_source := src3 \<rparr>) = (q, st')"
      using assms(7) h rd h2 b by (simp add: store_chunk_def on_source_def)
    ultimately show ?thesis
      using store_bytes_shows [OF assms(1,2), of sbb recs n b "st\<lparr> bs_source := src3 \<rparr>" member parent q st'] assms(5,6) by auto
  next
    case False
    have "\<exists>src. st' = st\<lparr> bs_source := src \<rparr>"
      and "\<And>state. q = Inr state \<Longrightarrow> outcome_shows P args (recs @ []) member parent (chunk_bytes dev r) state"
      using assms(7) False h rd h2
      by (cases h; cases rd; cases h2; auto simp: store_chunk_def on_source_def outcome_shows_def bad_sector_wf
          split: lr_error.splits bad_sector_policy.splits)+
    then show ?thesis using small by (intro exI [of _ "[]"]) auto
  qed
qed

section \<open>The full manifest\<close>

definition spool_holds :: "bytes \<Rightarrow> 's backup_state \<Rightarrow> bool" where
  "spool_holds data st \<longleftrightarrow> file_data (bs_spool st) = data \<and> file_pos (bs_spool st) = length data"

lemma spool_holds_frame [simp]:
  "spool_holds data (st\<lparr> bs_source := src \<rparr>) = spool_holds data st"
  by (simp add: spool_holds_def)

lemma spool_write_ok:
  assumes "spool_holds data st" "spool_write (Inr b) st = (Inr u, st')"
  shows "spool_holds (data @ b) st' \<and> (\<exists>f. st' = st\<lparr> bs_spool := f \<rparr>)"
  using assms
  by (auto simp: spool_write_def spool_holds_def file_write_all_def file_put_def overwrite_def split: if_splits)

lemma unused_wf [simp]: "entry_wf entry_unused" "entry_wf entry_zero"
  by (simp_all add: entry_wf_def entry_unused_def entry_zero_def state_unused_def state_zero_def state_bad_sector_def)

lemma fill_unused_ok:
  assumes "spool_holds data st" "fill_unused n st = (Inr u, st')"
  shows "spool_holds (data @ concat (map entry_layout (replicate n entry_unused))) st' \<and> (\<exists>f. st' = st\<lparr> bs_spool := f \<rparr>)"
  using assms
proof (induction n arbitrary: data st)
  case 0
  then have "st' = st\<lparr> bs_spool := bs_spool st' \<rparr>" by simp
  then show ?case using 0 by (simp add: exI [of _ "bs_spool st'"])
next
  case (Suc n)
  obtain st1 where st1: "spool_write (Inr (entry_layout entry_unused)) st = (Inr (), st1)" "fill_unused n st1 = (Inr u, st')"
    using Suc.prems(2) by (auto simp: st_bind_eq entry_encode_eq)
  from spool_write_ok [OF Suc.prems(1) st1(1)] Suc.IH [OF _ st1(2), of "data @ entry_layout entry_unused"]
  show ?case by auto
qed

text \<open>
  Entry \<open>i\<close> of a full manifest over the chunks \<open>rs\<close> of the plan: the planned chunk with that index,
  captured; unused when the plan has none.
\<close>

definition captures :: "prims \<Rightarrow> backup_args \<Rightarrow> bytes list \<Rightarrow> bytes \<Rightarrow> block_entry \<Rightarrow> bytes \<Rightarrow> bool" where
  "captures P args recs dev e b \<longleftrightarrow> stored_in P args recs 0 e b \<and> \<not> is_all_zero b \<or> e = entry_zero \<and> is_all_zero b
     \<or> ba_on_bad_sector args = Record \<and> entry_wf e \<and> be_state e = state_bad_sector"

definition entry_shows ::
    "prims \<Rightarrow> backup_args \<Rightarrow> bytes list \<Rightarrow> bytes \<Rightarrow> nat \<Rightarrow> (nat \<times> nat) list \<Rightarrow> nat \<Rightarrow> block_entry \<Rightarrow> bool" where
  "entry_shows P args recs dev c rs i e \<longleftrightarrow>
     (\<exists>r \<in> set rs. fst r div c = i \<and> captures P args recs dev e (chunk_bytes dev r))
     \<or> e = entry_unused \<and> (\<forall>r \<in> set rs. fst r div c \<noteq> i)"

lemma entry_shows_mono:
  assumes "entry_shows P args recs dev c rs i e" "\<forall>r \<in> set rs'. fst r div c \<noteq> i"
  shows "entry_shows P args (recs @ recs') dev c (rs @ rs') i e"
  using assms stored_in_mono unfolding entry_shows_def captures_def by fastforce

definition entries_show ::
    "prims \<Rightarrow> backup_args \<Rightarrow> bytes list \<Rightarrow> bytes \<Rightarrow> nat \<Rightarrow> (nat \<times> nat) list \<Rightarrow> block_entry list \<Rightarrow> bool" where
  "entries_show P args recs dev c rs es \<longleftrightarrow> (\<forall>i < length es. entry_shows P args recs dev c rs i (es ! i) \<and> entry_wf (es ! i))"

lemma entries_show_snoc:
  assumes "entries_show P args recs dev c rs es" "length es \<le> fst r div c" "captures P args (recs @ recs') dev e (chunk_bytes dev r)"
    and "\<forall>q \<in> set rs. fst q div c < length es" "entry_wf e"
  shows "entries_show P args (recs @ recs') dev c (rs @ [r]) (es @ replicate (fst r div c - length es) entry_unused @ [e])"
  unfolding entries_show_def
proof (intro allI impI)
  let ?k = "fst r div c"
  fix i assume "i < length (es @ replicate (?k - length es) entry_unused @ [e])"
  then consider "i < length es" | "length es \<le> i" "i < ?k" | "i = ?k" using assms(2) by force
  then show "entry_shows P args (recs @ recs') dev c (rs @ [r]) i ((es @ replicate (?k - length es) entry_unused @ [e]) ! i)
    \<and> entry_wf ((es @ replicate (?k - length es) entry_unused @ [e]) ! i)"
  proof cases
    case 1
    then show ?thesis using assms(1,2) entry_shows_mono [of P args recs dev c rs i "es ! i" "[r]" recs']
      by (auto simp: entries_show_def nth_append)
  next
    case 2
    then have "(es @ replicate (?k - length es) entry_unused @ [e]) ! i = entry_unused" by (simp add: nth_append)
    then show ?thesis using 2 assms(4) by (fastforce simp: entry_shows_def)
  next
    case 3
    then have "(es @ replicate (?k - length es) entry_unused @ [e]) ! i = e" using assms(2) by (simp add: nth_append)
    then show ?thesis using 3 assms(3,5) by (auto simp: entry_shows_def)
  qed
qed

lemma entries_show_fill:
  assumes "entries_show P args recs dev c rs es" "\<forall>q \<in> set rs. fst q div c < length es"
  shows "entries_show P args recs dev c rs (es @ replicate n entry_unused)"
  using assms unfolding entries_show_def by (fastforce simp: nth_append entry_shows_def)

lemma full_entry_captures:
  assumes "outcome_shows P args recs 0 Unused b state" "full_entry state cnt = (e, cnt')"
  shows "captures P args recs dev e b \<and> entry_wf e"
  using assms
  by (cases state) (auto simp: outcome_shows_def full_entry_def captures_def state_shows_def stored_in_def)

definition layouts :: "block_entry list \<Rightarrow> bytes" where
  "layouts es = concat (map entry_layout es)"

lemma layouts_append [simp]: "layouts (xs @ ys) = layouts xs @ layouts ys"
  by (simp add: layouts_def)

lemma full_step_ok:
  assumes "prims_ok P" "co_compress (ba_options args) \<longrightarrow> 1 \<le> co_level (ba_options args) \<and> co_level (ba_options args) \<le> 22"
    and "source_shows S dev" "chunk_matches c chunk r" "snd r \<le> max_stored_len"
    and "backup_ok P args sbb recs (n + snd r + 36) st" "spool_holds (data @ layouts es) st"
    and "entries_show P args recs dev (unat c) rs es" "\<forall>q \<in> set rs. fst q div unat c < length es"
    and "unat nx = length es" "length es \<le> fst r div unat c"
    and "full_step P S args chunk nx cnt st = (Inr (nx', cnt'), st')"
  shows "\<exists>recs' es'. backup_ok P args sbb (recs @ recs') n st' \<and> spool_holds (data @ layouts es') st'
    \<and> entries_show P args (recs @ recs') dev (unat c) (rs @ [r]) es' \<and> length es' = Suc (fst r div unat c)
    \<and> nx' = cp_index chunk + 1"
proof -
  obtain src1 where s1: "so_report S (cp_offset chunk) (bs_source st) = (Inr (), src1)"
    and rest: "st_bind (fill_unused (unat (cp_index chunk) - unat nx) (st\<lparr> bs_source := src1 \<rparr>)) (\<lambda>_ st.
     st_bind (store_chunk P S args 0 chunk Unused st) (\<lambda>state st.
     let (entry, c) = full_entry state cnt in
     st_bind (spool_write (entry_encode entry) st) (\<lambda>_ st.
       (Inr (cp_index chunk + 1, c\<lparr> n_visited := n_visited c + 1 \<rparr>), st)))) = (Inr (nx', cnt'), st')"
    using assms(12) by (auto simp: full_step_def st_bind_eq on_source_eq)
  obtain st1 where f: "fill_unused (unat (cp_index chunk) - unat nx) (st\<lparr> bs_source := src1 \<rparr>) = (Inr (), st1)"
    and rest2: "st_bind (store_chunk P S args 0 chunk Unused st1) (\<lambda>state st.
     let (entry, c) = full_entry state cnt in
     st_bind (spool_write (entry_encode entry) st) (\<lambda>_ st.
       (Inr (cp_index chunk + 1, c\<lparr> n_visited := n_visited c + 1 \<rparr>), st))) = (Inr (nx', cnt'), st')"
    using rest by (auto simp: st_bind_eq)
  obtain state st2 where sc: "store_chunk P S args 0 chunk Unused st1 = (Inr state, st2)"
    and rest3: "(let (entry, c) = full_entry state cnt in
     st_bind (spool_write (entry_encode entry) st2) (\<lambda>_ st.
       (Inr (cp_index chunk + 1, c\<lparr> n_visited := n_visited c + 1 \<rparr>), st))) = (Inr (nx', cnt'), st')"
    using rest2 by (auto simp: st_bind_eq)
  obtain e cnt1 where fe: "full_entry state cnt = (e, cnt1)" by fastforce
  have k: "unat (cp_index chunk) - unat nx = fst r div unat c - length es"
    using assms(4,10) by (simp add: chunk_matches_def)
  have st1: "spool_holds (data @ layouts es @ layouts (replicate (fst r div unat c - length es) entry_unused)) st1"
    "backup_ok P args sbb recs (n + snd r + 36) st1"
    using fill_unused_ok [OF _ f, of "data @ layouts es"] assms(6,7) unfolding k by (auto simp: layouts_def)
  obtain recs' where st2: "backup_ok P args sbb (recs @ recs') n st2" "bs_spool st2 = bs_spool st1"
      "outcome_shows P args (recs @ recs') 0 Unused (chunk_bytes dev r) state"
    using store_chunk_shows [OF assms(1-5) st1(2) sc] by blast
  note cap = full_entry_captures [OF st2(3) fe, of dev]
  have sw: "spool_write (Inr (entry_layout e)) st2 = (Inr (), st')" "nx' = cp_index chunk + 1"
    using rest3 fe cap by (auto simp: st_bind_eq entry_encode_eq)
  have "spool_holds (data @ layouts es @ layouts (replicate (fst r div unat c - length es) entry_unused)) st2"
    using st1(1) st2(2) by (simp add: spool_holds_def)
  from spool_write_ok [OF this sw(1)] st2(1)
  have "spool_holds (data @ layouts (es @ replicate (fst r div unat c - length es) entry_unused @ [e])) st'"
    "backup_ok P args sbb (recs @ recs') n st'"
    by (auto simp: layouts_def)
  then show ?thesis
    using entries_show_snoc [OF assms(8,11) _ assms(9)] cap sw(2) assms(11)
    by (intro exI [of _ recs'] exI [of _ "es @ replicate (fst r div unat c - length es) entry_unused @ [e]"]) auto
qed

definition plan_cost :: "(nat \<times> nat) list \<Rightarrow> nat" where
  "plan_cost rs = sum_list (map (\<lambda>r. snd r + 36) rs)"

definition plan_fits :: "u64 \<Rightarrow> nat \<Rightarrow> nat \<Rightarrow> (nat \<times> nat) list \<Rightarrow> bool" where
  "plan_fits c i n rs \<longleftrightarrow> sorted_wrt (\<lambda>p q. fst p div unat c < fst q div unat c) rs
     \<and> (\<forall>r \<in> set rs. i \<le> fst r div unat c \<and> fst r div unat c < n \<and> snd r \<le> max_stored_len)"

lemma full_loop_ok:
  assumes "prims_ok P" "co_compress (ba_options args) \<longrightarrow> 1 \<le> co_level (ba_options args) \<and> co_level (ba_options args) \<le> 22"
    and "source_shows S dev" "k < 2 ^ 64"
    and "plan_ok u" "uc_chunk_size u = c" "pending_chunks u = rs" "plan_fits c (length es) k rs"
    and "backup_ok P args sbb recs (n + plan_cost rs) st" "spool_holds (data @ layouts es) st"
    and "entries_show P args recs dev (unat c) before es" "\<forall>q \<in> set before. fst q div unat c < length es" "unat nx = length es"
  shows "\<exists>q. full_entries_loop P S args u nx cnt st = Some q \<and> (\<forall>nx' cnt' st'. q = (Inr (nx', cnt'), st') \<longrightarrow>
    (\<exists>recs' es'. backup_ok P args sbb (recs @ recs') n st' \<and> spool_holds (data @ layouts es') st'
      \<and> entries_show P args (recs @ recs') dev (unat c) (before @ rs) es'
      \<and> (\<forall>q \<in> set (before @ rs). fst q div unat c < length es') \<and> unat nx' = length es' \<and> (length es' \<le> k \<or> es' = es)))"
  using assms(5-13)
proof (induction rs arbitrary: u es recs before nx cnt st)
  case Nil
  then have "next_chunk u = (None, snd (next_chunk u))"
    using next_chunk_pending [OF Nil(1)] by (auto split: prod.splits option.splits)
  then have "full_entries_loop P S args u nx cnt st = Some (Inr (nx, cnt), st)"
    by (subst full_entries_loop.simps) (metis (no_types, lifting) case_prod_conv option.simps(4))
  then show ?case
    using Nil.prems by (auto simp: plan_cost_def intro!: exI [of _ "[]"] exI [of _ es])
next
  case (Cons r rs)
  obtain chunk u' where nc: "next_chunk u = (Some chunk, u')" "plan_ok u'" "uc_chunk_size u' = c"
      "chunk_matches c chunk r" "pending_chunks u' = rs"
    using next_chunk_pending [OF Cons.prems(1)] Cons.prems(2,3) by (auto split: prod.splits option.splits)
  have r: "snd r \<le> max_stored_len" "length es \<le> fst r div unat c" "fst r div unat c < k"
    and later: "\<forall>q \<in> set rs. fst r div unat c < fst q div unat c"
    using Cons.prems(4) by (auto simp: plan_fits_def)
  have room: "backup_ok P args sbb recs ((n + plan_cost rs) + snd r + 36) st"
    using Cons.prems(5) by (simp add: plan_cost_def algebra_simps)
  obtain q st1 where step: "full_step P S args chunk nx cnt st = (q, st1)" by fastforce
  show ?case
  proof (cases q)
    case (Inl e)
    then have "full_entries_loop P S args u nx cnt st = Some (Inl e, st1)"
      by (subst full_entries_loop.simps) (simp add: nc(1) step)
    then show ?thesis by simp
  next
    case (Inr p)
    obtain nx1 cnt1 where p: "p = (nx1, cnt1)" by (cases p)
    obtain recs1 es1 where s1: "backup_ok P args sbb (recs @ recs1) (n + plan_cost rs) st1" "spool_holds (data @ layouts es1) st1"
        "entries_show P args (recs @ recs1) dev (unat c) (before @ [r]) es1" "length es1 = Suc (fst r div unat c)"
        "nx1 = cp_index chunk + 1"
      using full_step_ok [OF assms(1-3) nc(4) r(1) room Cons.prems(6-9) r(2) step [unfolded Inr p]] by blast
    have nx1: "unat nx1 = length es1"
      using s1(4,5) nc(4) r(3) assms(4) unat_Suc_u64 [of "cp_index chunk" k] by (simp add: chunk_matches_def)
    have "full_entries_loop P S args u nx cnt st = full_entries_loop P S args u' nx1 cnt1 st1"
      by (subst full_entries_loop.simps) (simp add: nc(1) step Inr p)
    moreover have "plan_fits c (length es1) k rs" "\<forall>q \<in> set (before @ [r]). fst q div unat c < length es1"
      using Cons.prems(4,8) later s1(4) r(2) by (auto simp: plan_fits_def Suc_le_eq)
    ultimately obtain q' where q': "full_entries_loop P S args u nx cnt st = Some q'"
        "\<And>nx' cnt' st'. q' = (Inr (nx', cnt'), st') \<Longrightarrow> \<exists>recs' es'. backup_ok P args sbb ((recs @ recs1) @ recs') n st' \<and> spool_holds (data @ layouts es') st'
          \<and> entries_show P args ((recs @ recs1) @ recs') dev (unat c) ((before @ [r]) @ rs) es'
          \<and> (\<forall>q \<in> set ((before @ [r]) @ rs). fst q div unat c < length es') \<and> unat nx' = length es' \<and> (length es' \<le> k \<or> es' = es1)"
      using Cons.IH [OF nc(2,3,5) _ s1(1,2,3) _ nx1, of cnt1] by metis
    show ?thesis
    proof (rule exI [of _ q'], intro conjI allI impI)
      show "full_entries_loop P S args u nx cnt st = Some q'" by (rule q'(1))
      fix nx' cnt' st' assume "q' = (Inr (nx', cnt'), st')"
      from q'(2) [OF this] obtain recs' es' where "backup_ok P args sbb ((recs @ recs1) @ recs') n st' \<and> spool_holds (data @ layouts es') st'
          \<and> entries_show P args ((recs @ recs1) @ recs') dev (unat c) ((before @ [r]) @ rs) es'
          \<and> (\<forall>q \<in> set ((before @ [r]) @ rs). fst q div unat c < length es') \<and> unat nx' = length es' \<and> (length es' \<le> k \<or> es' = es1)"
        by (elim exE)
      moreover have "length es1 \<le> k" using s1(4) r(3) by simp
      ultimately show "\<exists>recs' es'. backup_ok P args sbb (recs @ recs') n st' \<and> spool_holds (data @ layouts es') st'
        \<and> entries_show P args (recs @ recs') dev (unat c) (before @ r # rs) es'
        \<and> (\<forall>q \<in> set (before @ r # rs). fst q div unat c < length es') \<and> unat nx' = length es' \<and> (length es' \<le> k \<or> es' = es)"
        by (intro exI [of _ "recs1 @ recs'"] exI [of _ es']) auto
    qed
  qed
qed

lemma write_full_entries_ok:
  assumes "prims_ok P" "co_compress (ba_options args) \<longrightarrow> 1 \<le> co_level (ba_options args) \<and> co_level (ba_options args) \<le> 22"
    and "source_shows S dev" "plan_ok u" "pending_chunks u = rs" "plan_fits (uc_chunk_size u) 0 (unat chunk_count) rs"
    and "backup_ok P args sbb [] (n + plan_cost rs) st" "spool_holds data st"
  shows "\<exists>q. write_full_entries P S args u chunk_count st = Some q \<and> (\<forall>cnt st'. q = (Inr cnt, st') \<longrightarrow>
    (\<exists>recs es. backup_ok P args sbb recs n st' \<and> spool_holds (data @ layouts es) st'
      \<and> length es = unat chunk_count \<and> entries_show P args recs dev (unat (uc_chunk_size u)) rs es))"
proof -
  obtain q where q: "full_entries_loop P S args u 0 counts_default st = Some q"
    and ok: "\<And>nx' cnt' st'. q = (Inr (nx', cnt'), st') \<Longrightarrow> \<exists>recs' es'. backup_ok P args sbb recs' n st' \<and> spool_holds (data @ layouts es') st'
      \<and> entries_show P args recs' dev (unat (uc_chunk_size u)) rs es'
      \<and> (\<forall>q \<in> set rs. fst q div unat (uc_chunk_size u) < length es') \<and> unat nx' = length es' \<and> length es' \<le> unat chunk_count"
  proof -
    have p: "unat chunk_count < 2 ^ 64" "plan_fits (uc_chunk_size u) (length ([] :: block_entry list)) (unat chunk_count) rs"
        "spool_holds (data @ layouts []) st" "entries_show P args [] dev (unat (uc_chunk_size u)) [] []"
        "\<forall>q \<in> set []. fst q div unat (uc_chunk_size u) < length ([] :: block_entry list)" "unat (0 :: u64) = length ([] :: block_entry list)"
      using assms(6,8) by (simp_all add: entries_show_def layouts_def)
    from full_loop_ok [OF assms(1-3) p(1) assms(4) refl assms(5) p(2) assms(7) p(3-6), of counts_default]
    obtain q where "full_entries_loop P S args u 0 counts_default st = Some q"
      "\<And>nx' cnt' st'. q = (Inr (nx', cnt'), st') \<Longrightarrow> \<exists>recs' es'. backup_ok P args sbb ([] @ recs') n st' \<and> spool_holds (data @ layouts es') st'
      \<and> entries_show P args ([] @ recs') dev (unat (uc_chunk_size u)) ([] @ rs) es'
      \<and> (\<forall>q \<in> set ([] @ rs). fst q div unat (uc_chunk_size u) < length es') \<and> unat nx' = length es' \<and> (length es' \<le> unat chunk_count \<or> es' = [])"
      by metis
    then show thesis by (intro that) (simp, metis append_Nil le0 list.size(3))
  qed
  define q' where "q' = st_bind q (\<lambda>(next_index, c) st.
         st_bind (fill_unused (unat chunk_count - unat next_index) st) (\<lambda>_ st. (Inr c, st)))"
  have "write_full_entries P S args u chunk_count st = Some q'"
    by (simp add: write_full_entries_def q q'_def)
  moreover have "\<exists>recs es. backup_ok P args sbb recs n st' \<and> spool_holds (data @ layouts es) st'
      \<and> length es = unat chunk_count \<and> entries_show P args recs dev (unat (uc_chunk_size u)) rs es"
    if q'_ok: "q' = (Inr cnt, st')" for cnt st'
  proof -
    obtain nx st1 where q1: "q = (Inr (nx, cnt), st1)" "fill_unused (unat chunk_count - unat nx) st1 = (Inr (), st')"
      using q'_ok by (auto simp: q'_def st_bind_eq)
    obtain recs es where e: "backup_ok P args sbb recs n st1" "spool_holds (data @ layouts es) st1"
        "entries_show P args recs dev (unat (uc_chunk_size u)) rs es"
        "\<forall>q \<in> set rs. fst q div unat (uc_chunk_size u) < length es" "unat nx = length es" "length es \<le> unat chunk_count"
      using ok [OF q1(1)] by blast
    let ?es = "es @ replicate (unat chunk_count - length es) entry_unused"
    have "spool_holds (data @ layouts ?es) st'" "backup_ok P args sbb recs n st'"
      using fill_unused_ok [OF e(2) q1(2)] e(1,5) by (auto simp: layouts_def)
    moreover have "length ?es = unat chunk_count" using e(6) by simp
    ultimately show ?thesis using entries_show_fill [OF e(3,4)] by blast
  qed
  ultimately show ?thesis by blast
qed

section \<open>The manifest of a chain member\<close>

text \<open>
  What a member says about chunk \<open>i\<close> is a change - a new entry - or nothing.  A delta manifest holds
  the changes, a full one repeats the parent's state where there is none.
\<close>

fun deltas_of :: "nat \<Rightarrow> block_entry option list \<Rightarrow> delta_entry list" where
  "deltas_of k [] = []"
| "deltas_of k (None # cs) = deltas_of (Suc k) cs"
| "deltas_of k (Some e # cs) = \<lparr> de_chunk_no = word_of_nat k, de_entry = e \<rparr> # deltas_of (Suc k) cs"

definition new_state :: "chunk_state \<Rightarrow> block_entry option \<Rightarrow> chunk_state" where
  "new_state parent ch = (case ch of None \<Rightarrow> parent | Some e \<Rightarrow> chunk_state_from e)"

definition new_entry :: "chunk_state \<Rightarrow> block_entry option \<Rightarrow> block_entry" where
  "new_entry parent ch = (case ch of None \<Rightarrow> entry_of parent | Some e \<Rightarrow> e)"

definition member_manifest_of :: "bool \<Rightarrow> (nat \<Rightarrow> chunk_state) \<Rightarrow> block_entry option list \<Rightarrow> manifest" where
  "member_manifest_of delta parent chs =
     (if delta then Deltas (deltas_of 0 chs) else Entries (map (\<lambda>i. new_entry (parent i) (chs ! i)) [0..<length chs]))"

lemma deltas_of_append: "deltas_of k (a @ b) = deltas_of k a @ deltas_of (k + length a) b"
  by (induction k a rule: deltas_of.induct) auto

lemma deltas_of_mem: "d \<in> set (deltas_of k cs) \<Longrightarrow> \<exists>j < length cs. de_chunk_no d = word_of_nat (k + j) \<and> cs ! j = Some (de_entry d)"
proof (induction k cs rule: deltas_of.induct)
  case (2 k cs)
  then obtain j where "j < length cs" "de_chunk_no d = word_of_nat (Suc k + j)" "cs ! j = Some (de_entry d)" by auto
  then show ?case by (intro exI [of _ "Suc j"]) simp
next
  case (3 k e cs)
  show ?case
  proof (cases "d \<in> set (deltas_of (Suc k) cs)")
    case True
    then obtain j where "j < length cs" "de_chunk_no d = word_of_nat (Suc k + j)" "cs ! j = Some (de_entry d)" using 3 by auto
    then show ?thesis by (intro exI [of _ "Suc j"]) simp
  next
    case False
    then show ?thesis using "3.prems" by (intro exI [of _ 0]) simp
  qed
qed simp

lemma deltas_of_find:
  assumes "k + length cs \<le> 2 ^ 64" "k \<le> i" "i < k + length cs"
  shows "find (\<lambda>d. unat (de_chunk_no d) = i) (deltas_of k cs)
    = map_option (\<lambda>e. \<lparr> de_chunk_no = word_of_nat i, de_entry = e \<rparr>) (cs ! (i - k))"
  using assms
proof (induction k cs rule: deltas_of.induct)
  case (2 k cs)
  have n: "find (\<lambda>d. unat (de_chunk_no d) = k) (deltas_of (Suc k) cs) = None"
  proof (unfold find_None_iff, rule notI, elim exE conjE)
    fix d assume "d \<in> set (deltas_of (Suc k) cs)" "unat (de_chunk_no d) = k"
    then obtain j where "j < length cs" "unat (word_of_nat (Suc k + j) :: u64) = k" using deltas_of_mem by metis
    then show False using "2.prems"(1) unat_of_nat_u64 [of "Suc k + j"] by simp
  qed
  show ?case
  proof (cases "i = k")
    case True
    then show ?thesis using n by simp
  next
    case False
    then show ?thesis using 2 by (simp add: nth_Cons' Suc_le_eq)
  qed
next
  case (3 k e cs)
  have "unat (word_of_nat k :: u64) = k" using "3.prems"(1) by (intro unat_of_nat_u64) simp
  then show ?case using 3 by (cases "i = k") (simp_all add: nth_Cons')
qed simp

lemma deltas_of_covers:
  assumes "k + length cs \<le> n" "n < 2 ^ 64"
  shows "covers_chunks k n (Deltas (deltas_of k cs))"
  using assms
proof (induction k cs rule: deltas_of.induct)
  case (2 k cs)
  then have "covers_chunks (Suc k) n (Deltas (deltas_of (Suc k) cs))" by simp
  then show ?case by (auto intro: Suc_leD)
next
  case (3 k e cs)
  have u: "unat (word_of_nat k :: u64) = k" using 3(2,3) by (intro unat_of_nat_u64) simp
  have "covers_chunks (Suc k) n (Deltas (deltas_of (Suc k) cs))" using 3 by simp
  then show ?case using 3(2) u by (auto simp: word_less_nat_alt Suc_le_eq intro: less_imp_le)
qed simp

text \<open>States that a manifest can hold again.\<close>

definition state_wf :: "chunk_state \<Rightarrow> bool" where
  "state_wf st = (case st of Stored m h _ _ \<Rightarrow> m \<le> max_member \<and> length h = 32 | _ \<Rightarrow> True)"

lemma entry_of_wf: "state_wf st \<Longrightarrow> entry_wf (entry_of st) \<and> chunk_state_from (entry_of st) = st"
  by (cases st) (simp_all add: entry_of_def state_wf_def entry_stored_def entry_wf_def chunk_state_from_def entry_zero_def
      entry_unused_def entry_bad_sector_def state_stored_def state_bad_sector_def state_zero_def state_unused_def not_less [symmetric])

lemma chunk_state_from_wf: "entry_wf e \<Longrightarrow> state_wf (chunk_state_from e)"
  by (simp add: chunk_state_from_def state_wf_def entry_wf_def)

lemma member_manifest_of_ok:
  assumes "length chs = n" "n < 2 ^ 64" "\<forall>i < n. state_wf (parent i)" "\<forall>i < n. \<forall>e. chs ! i = Some e \<longrightarrow> entry_wf e"
  shows "covers_chunks 0 n (member_manifest_of delta parent chs)" "manifest_wf (member_manifest_of delta parent chs)"
    and "i < n \<Longrightarrow> state_in (member_manifest_of delta parent chs) i (parent i) = new_state (parent i) (chs ! i)"
    and "is_entries (member_manifest_of delta parent chs) \<longleftrightarrow> \<not> delta"
proof -
  show "covers_chunks 0 n (member_manifest_of delta parent chs)"
    using deltas_of_covers [of 0 chs n] assms(1,2) by (simp add: member_manifest_of_def)
  have e: "entry_wf (new_entry (parent i) (chs ! i)) \<and> chunk_state_from (new_entry (parent i) (chs ! i)) = new_state (parent i) (chs ! i)"
    if "i < n" for i
    using that assms(3,4) entry_of_wf [of "parent i"] by (auto simp: new_entry_def new_state_def split: option.splits)
  show "manifest_wf (member_manifest_of delta parent chs)"
    using e assms(1,4) deltas_of_mem [of _ 0 chs] by (fastforce simp: member_manifest_of_def)
  show "state_in (member_manifest_of delta parent chs) i (parent i) = new_state (parent i) (chs ! i)" if "i < n"
    using e [OF that] deltas_of_find [of 0 chs i] that assms(1,2)
    by (auto simp: member_manifest_of_def new_state_def split: option.splits)
  show "is_entries (member_manifest_of delta parent chs) \<longleftrightarrow> \<not> delta" by (simp add: member_manifest_of_def)
qed

section \<open>A visit of the parent's walk\<close>

definition plan_ahead :: "u64 \<Rightarrow> 's member_state \<Rightarrow> (nat \<times> nat) list \<Rightarrow> bool" where
  "plan_ahead c v rs \<longleftrightarrow> (case ms_next v of None \<Rightarrow> rs = []
     | Some p \<Rightarrow> plan_ok (ms_plan v) \<and> uc_chunk_size (ms_plan v) = c
         \<and> (\<exists>r. rs = r # pending_chunks (ms_plan v) \<and> chunk_matches c p r))"

lemma plan_ahead_next:
  assumes "plan_ok u" "uc_chunk_size u = c" "next_chunk u = (nx, u')"
  shows "plan_ahead c \<lparr> ms_io = io, ms_plan = u', ms_next = nx, ms_counts = cnt \<rparr> (pending_chunks u)"
  using next_chunk_pending [OF assms(1)] assms(2,3) by (auto simp: plan_ahead_def split: option.splits)

lemma plan_ahead_frame [simp]:
  "plan_ahead c (v\<lparr> ms_io := io \<rparr>) rs = plan_ahead c v rs"
  "plan_ahead c (v\<lparr> ms_counts := cnt \<rparr>) rs = plan_ahead c v rs"
  by (simp_all add: plan_ahead_def split: option.splits)

text \<open>What the member, after the visit of chunk \<open>i\<close>, says about it.\<close>

definition now_shows ::
    "prims \<Rightarrow> backup_args \<Rightarrow> u16 \<Rightarrow> bytes list \<Rightarrow> bytes \<Rightarrow> nat \<Rightarrow> (nat \<times> nat) list \<Rightarrow> chunk_state \<Rightarrow> nat \<Rightarrow> chunk_state \<Rightarrow> bool" where
  "now_shows P args member recs dev c rs parent i st \<longleftrightarrow>
     (\<exists>r \<in> set rs. fst r div c = i
        \<and> (state_shows P (wk_dedup_key (ba_keys args)) st (chunk_bytes dev r)
             \<and> (st = parent \<or> st = Zero \<or> (\<exists>e. st = chunk_state_from e \<and> stored_in P args recs member e (chunk_bytes dev r)))
           \<or> ba_on_bad_sector args = Record \<and> st = BadSectorState))
     \<or> st = Unused \<and> (\<forall>r \<in> set rs. fst r div c \<noteq> i)"

lemma now_shows_mono:
  assumes "now_shows P args member recs dev c rs parent i st" "\<forall>r \<in> set rs'. fst r div c \<noteq> i"
  shows "now_shows P args member (recs @ recs') dev c (rs @ rs') parent i st"
  using assms stored_in_mono unfolding now_shows_def by fastforce

definition changed_entry :: "source_state \<Rightarrow> block_entry option" where
  "changed_entry state =
     (case state of SrcUnchanged \<Rightarrow> None | SrcStored e \<Rightarrow> Some e | SrcZero \<Rightarrow> Some entry_zero
      | SrcBadSector e \<Rightarrow> Some e | SrcMissing \<Rightarrow> Some entry_unused)"

definition spooled :: "bool \<Rightarrow> chunk_state \<Rightarrow> nat \<Rightarrow> block_entry option \<Rightarrow> bytes" where
  "spooled delta parent i ch =
     (if delta then concat (map delta_layout (deltas_of i [ch])) else entry_layout (new_entry parent ch))"

lemma stored_from:
  "stored_in P args recs member e b \<Longrightarrow> chunk_state_from e = Stored member (be_hash e) (be_offset e) (be_stored_len e)
     \<and> be_hash e = content_hash P (wk_dedup_key (ba_keys args)) b \<and> entry_wf e"
  by (auto simp: stored_in_def chunk_state_from_def chunk_stored_def)

lemma outcome_now_shows:
  assumes "outcome_shows P args recs member parent (chunk_bytes dev r) state" "fst r div c = i"
  shows "now_shows P args member recs dev c [r] parent i (new_state parent (changed_entry state))
    \<and> (\<forall>e. changed_entry state = Some e \<longrightarrow> entry_wf e)"
proof (cases state)
  case (SrcStored e)
  then have "stored_in P args recs member e (chunk_bytes dev r)" "\<not> is_all_zero (chunk_bytes dev r)"
    using assms(1) by (simp_all add: outcome_shows_def)
  then show ?thesis
    using assms(2) stored_from [of P args recs member e "chunk_bytes dev r"] SrcStored
    by (auto simp: now_shows_def changed_entry_def new_state_def state_shows_def)
next
  case SrcZero
  have "chunk_state_from entry_zero = Zero"
    by (simp add: chunk_state_from_def entry_zero_def state_zero_def state_stored_def)
  then show ?thesis
    using assms SrcZero by (simp add: outcome_shows_def now_shows_def changed_entry_def new_state_def state_shows_def)
next
  case (SrcBadSector e)
  then have "chunk_state_from e = BadSectorState"
    using assms(1) by (simp add: outcome_shows_def chunk_state_from_def state_bad_sector_def state_stored_def state_zero_def)
  then show ?thesis
    using assms SrcBadSector by (simp add: outcome_shows_def now_shows_def changed_entry_def new_state_def)
qed (use assms in \<open>simp_all add: outcome_shows_def now_shows_def changed_entry_def new_state_def\<close>)

lemma with_io_eq: "with_io q v = (r, v') \<longleftrightarrow> r = fst q \<and> v' = v\<lparr> ms_io := snd q \<rparr>"
  by (auto simp: with_io_def)

lemma member_source_ok:
  assumes "prims_ok P" "co_compress (ba_options args) \<longrightarrow> 1 \<le> co_level (ba_options args) \<and> co_level (ba_options args) \<le> 22"
    and "source_shows S dev" "backup_ok P args sbb recs (n + plan_cost rs) (ms_io v)" "plan_ahead c v rs"
    and "plan_fits c (unat index) k rs" "member_source P S args member index parent v = (Inr state, v')"
  shows "\<exists>recs' rs1 rs2. rs = rs1 @ rs2 \<and> (\<forall>r \<in> set rs1. fst r div unat c = unat index) \<and> backup_ok P args sbb (recs @ recs') (n + plan_cost rs2) (ms_io v')
    \<and> bs_spool (ms_io v') = bs_spool (ms_io v) \<and> plan_ahead c v' rs2 \<and> plan_fits c (Suc (unat index)) k rs2
    \<and> now_shows P args member (recs @ recs') dev (unat c) rs1 parent (unat index) (new_state parent (changed_entry state))
    \<and> (\<forall>e. changed_entry state = Some e \<longrightarrow> entry_wf e) \<and> ms_counts v' = ms_counts v"
proof (cases "\<exists>p. ms_next v = Some p \<and> cp_index p = index")
  case True
  then obtain p where p: "ms_next v = Some p" "cp_index p = index" by blast
  then obtain r where r: "rs = r # pending_chunks (ms_plan v)" "chunk_matches c p r"
    using assms(5) by (auto simp: plan_ahead_def)
  obtain nx u' where u': "next_chunk (ms_plan v) = (nx, u')" by fastforce
  obtain q io where sc: "store_chunk P S args member p parent (ms_io v) = (q, io)" by fastforce
  have v': "q = Inr state" "v' = v\<lparr> ms_next := nx, ms_plan := u', ms_io := io \<rparr>"
    using assms(7) p u' sc by (auto simp: member_source_def with_io_eq)
  have ri: "fst r div unat c = unat index" using r(2) p(2) by (simp add: chunk_matches_def)
  have room: "backup_ok P args sbb recs ((n + plan_cost (pending_chunks (ms_plan v))) + snd r + 36) (ms_io v)"
    using assms(4) r(1) by (simp add: plan_cost_def algebra_simps)
  have "snd r \<le> max_stored_len" using assms(6) r(1) by (simp add: plan_fits_def)
  from store_chunk_shows [OF assms(1-3) r(2) this room sc] v'(1)
  obtain recs' where recs': "backup_ok P args sbb (recs @ recs') (n + plan_cost (pending_chunks (ms_plan v))) io"
      "bs_spool io = bs_spool (ms_io v)" "outcome_shows P args (recs @ recs') member parent (chunk_bytes dev r) state"
    by blast
  have "plan_ahead c v' (pending_chunks (ms_plan v))"
    using next_chunk_pending [of "ms_plan v"] assms(5) u' p(1) unfolding v'(2) by (auto simp: plan_ahead_def split: option.splits)
  moreover have "plan_fits c (Suc (unat index)) k (pending_chunks (ms_plan v))"
    using assms(6) r(1) ri by (auto simp: plan_fits_def Suc_le_eq)
  ultimately show ?thesis
    using recs' outcome_now_shows [OF recs'(3) ri] r(1) v'(2) ri
    by (intro exI [of _ recs'] exI [of _ "[r]"] exI [of _ "pending_chunks (ms_plan v)"]) simp
next
  case False
  then have m: "v' = v" "state = (if parent = Unused then SrcUnchanged else SrcMissing)"
    using assms(7) by (auto simp: member_source_def split: option.splits if_splits)
  have "chunk_state_from entry_unused = Unused"
    by (simp add: chunk_state_from_def entry_unused_def state_unused_def state_stored_def state_zero_def state_bad_sector_def)
  then have "new_state parent (changed_entry state) = Unused" by (simp add: m(2) new_state_def changed_entry_def)
  moreover have "fst r div unat c \<noteq> unat index" if "r \<in> set rs" for r
  proof (cases "ms_next v")
    case (Some p)
    then obtain r0 where r0: "rs = r0 # pending_chunks (ms_plan v)" "chunk_matches c p r0"
      using assms(5) by (auto simp: plan_ahead_def)
    have "fst r0 div unat c \<noteq> unat index" using False Some r0(2) by (auto simp: chunk_matches_def word_unat_eq_iff)
    then show ?thesis using assms(6) r0(1) that by (auto simp: plan_fits_def)
  qed (use assms(5) that in \<open>simp add: plan_ahead_def\<close>)
  moreover from this have "plan_fits c (Suc (unat index)) k rs"
    using assms(6) by (fastforce simp: plan_fits_def Suc_le_eq order.order_iff_strict)
  ultimately show ?thesis
    using assms(4,5) m by (intro exI [of _ "[]"] exI [of _ "[]"] exI [of _ rs]) (auto simp: now_shows_def changed_entry_def)
qed

lemma write_changed_ok:
  assumes "spool_holds data io" "ms_io v = io" "write_changed delta index e v = (Inr u, v')" "entry_wf e"
  shows "\<exists>f. v' = v\<lparr> ms_counts := ms_counts v\<lparr> n_changed := n_changed (ms_counts v) + 1 \<rparr>, ms_io := io\<lparr> bs_spool := f \<rparr> \<rparr>
    \<and> spool_holds (data @ spooled delta parent (unat index) (Some e)) (ms_io v')"
proof -
  let ?b = "if delta then delta_layout \<lparr> de_chunk_no = index, de_entry = e \<rparr> else entry_layout e"
  have enc: "(if delta then delta_write \<lparr> de_chunk_no = index, de_entry = e \<rparr> else entry_encode e) = Inr ?b"
    using assms(4) by (simp add: delta_write_def entry_encode_eq delta_layout_def)
  obtain q io' where q: "spool_write (Inr ?b) io = (q, io')" by fastforce
  then have v': "q = Inr u" "v' = v\<lparr> ms_counts := ms_counts v\<lparr> n_changed := n_changed (ms_counts v) + 1 \<rparr>, ms_io := io' \<rparr>"
    using assms(2,3) unfolding write_changed_def enc by (auto simp: with_io_def)
  then show ?thesis using spool_write_ok [OF assms(1) q [unfolded v'(1)]] by (auto simp: spooled_def new_entry_def)
qed

lemma spool_same:
  assumes "spool_holds data io"
    and "(if delta then (Inr (), v) else with_io (spool_write (entry_encode (entry_of parent)) (ms_io v)) v) = (Inr u, v')"
    and "ms_io v = io" "state_wf parent"
  shows "\<exists>f. v' = v\<lparr> ms_io := io\<lparr> bs_spool := f \<rparr> \<rparr> \<and> spool_holds (data @ spooled delta parent (unat index) None) (ms_io v')"
proof (cases delta)
  case True
  then show ?thesis using assms(1-3) by (auto simp: spooled_def intro!: exI [of _ "bs_spool io"])
next
  case False
  obtain q io' where q: "spool_write (Inr (entry_layout (entry_of parent))) io = (q, io')" by fastforce
  then have v': "q = Inr u" "v' = v\<lparr> ms_io := io' \<rparr>"
    using assms(2,3) False entry_of_wf [OF assms(4)] by (auto simp: with_io_def entry_encode_eq)
  then show ?thesis using spool_write_ok [OF assms(1) q [unfolded v'(1)]] False by (auto simp: spooled_def new_entry_def)
qed

lemma member_visit_ok:
  assumes "prims_ok P" "co_compress (ba_options args) \<longrightarrow> 1 \<le> co_level (ba_options args) \<and> co_level (ba_options args) \<le> 22"
    and "source_shows S dev" "backup_ok P args sbb recs (n + plan_cost rs) (ms_io v)" "plan_ahead c v rs"
    and "plan_fits c (unat index) k rs" "spool_holds data (ms_io v)" "state_wf parent"
    and "member_visit P S args delta member csz access index parent v = (Inr u, v')"
  shows "\<exists>recs' rs1 rs2 ch. rs = rs1 @ rs2 \<and> (\<forall>r \<in> set rs1. fst r div unat c = unat index) \<and> backup_ok P args sbb (recs @ recs') (n + plan_cost rs2) (ms_io v')
    \<and> spool_holds (data @ spooled delta parent (unat index) ch) (ms_io v') \<and> plan_ahead c v' rs2
    \<and> plan_fits c (Suc (unat index)) k rs2
    \<and> now_shows P args member (recs @ recs') dev (unat c) rs1 parent (unat index) (new_state parent ch)
    \<and> (\<forall>e. ch = Some e \<longrightarrow> entry_wf e)
    \<and> n_changed (ms_counts v') = n_changed (ms_counts v) + (if ch = None then 0 else 1)"
proof -
  obtain src1 where s1: "so_report S (index * ucast csz) (bs_source (ms_io v)) = (Inr (), src1)"
    using assms(9) by (auto simp: member_visit_def st_bind_eq with_io_eq on_source_def split: prod.splits)
  define v1 where "v1 = v\<lparr> ms_io := (ms_io v)\<lparr> bs_source := src1 \<rparr>, ms_counts := ms_counts v\<lparr> n_visited := n_visited (ms_counts v) + 1 \<rparr> \<rparr>"
  obtain state v2 where ms: "member_source P S args member index parent v1 = (Inr state, v2)"
    and rest: "(case state of
         SrcUnchanged \<Rightarrow>
           (let v = v2\<lparr> ms_counts := ms_counts v2\<lparr> n_inherited := n_inherited (ms_counts v2) + 1 \<rparr> \<rparr> in
            if delta then (Inr (), v)
            else with_io (spool_write (entry_encode (entry_of parent)) (ms_io v)) v)
       | SrcStored entry \<Rightarrow>
           write_changed delta index entry (v2\<lparr> ms_counts := ms_counts v2\<lparr> n_stored := n_stored (ms_counts v2) + 1 \<rparr> \<rparr>)
       | SrcZero \<Rightarrow>
           write_changed delta index entry_zero (v2\<lparr> ms_counts := ms_counts v2\<lparr> n_zero := n_zero (ms_counts v2) + 1 \<rparr> \<rparr>)
       | SrcBadSector entry \<Rightarrow>
           write_changed delta index entry (v2\<lparr> ms_counts := ms_counts v2\<lparr> n_bad := n_bad (ms_counts v2) + 1 \<rparr> \<rparr>)
       | SrcMissing \<Rightarrow> write_changed delta index entry_unused v2) = (Inr u, v')"
    using assms(9) s1 by (auto simp: member_visit_def with_io_def on_source_def v1_def st_bind_eq)
  have v1: "backup_ok P args sbb recs (n + plan_cost rs) (ms_io v1)" "plan_ahead c v1 rs"
    using assms(4,5) by (simp_all add: v1_def)
  obtain recs' rs1 rs2 where m: "rs = rs1 @ rs2" "backup_ok P args sbb (recs @ recs') (n + plan_cost rs2) (ms_io v2)"
      "bs_spool (ms_io v2) = bs_spool (ms_io v1)" "plan_ahead c v2 rs2" "plan_fits c (Suc (unat index)) k rs2"
      "now_shows P args member (recs @ recs') dev (unat c) rs1 parent (unat index) (new_state parent (changed_entry state))"
      "\<And>e. changed_entry state = Some e \<Longrightarrow> entry_wf e" "ms_counts v2 = ms_counts v1"
      "\<forall>r \<in> set rs1. fst r div unat c = unat index"
    using member_source_ok [OF assms(1-3) v1 assms(6) ms] by blast
  have sp: "spool_holds data (ms_io v2)" using assms(7) m(3) by (simp add: spool_holds_def v1_def)
  have ch: "spool_holds (data @ spooled delta parent (unat index) (changed_entry state)) (ms_io v')
      \<and> backup_ok P args sbb (recs @ recs') (n + plan_cost rs2) (ms_io v') \<and> plan_ahead c v' rs2
      \<and> n_changed (ms_counts v') = n_changed (ms_counts v) + (if changed_entry state = None then 0 else 1)"
  proof (cases "changed_entry state")
    case None
    then have st: "state = SrcUnchanged" by (cases state) (simp_all add: changed_entry_def)
    define v3 where "v3 = v2\<lparr> ms_counts := ms_counts v2\<lparr> n_inherited := n_inherited (ms_counts v2) + 1 \<rparr> \<rparr>"
    have "(if delta then (Inr (), v3) else with_io (spool_write (entry_encode (entry_of parent)) (ms_io v3)) v3) = (Inr u, v')"
      using rest st by (simp add: v3_def Let_def split: if_splits)
    then show ?thesis
      using spool_same [OF sp, of delta v3 parent u v' index] m(2,4) None assms(8) by (auto simp: v3_def m(8) v1_def)
  next
    case (Some e)
    then obtain v3 where "write_changed delta index e v3 = (Inr u, v')" "ms_io v3 = ms_io v2"
        "n_changed (ms_counts v3) = n_changed (ms_counts v)" "plan_ahead c v3 rs2"
      using rest m(4,8) by (cases state) (auto simp: changed_entry_def v1_def)
    then show ?thesis
      using write_changed_ok [OF sp, of v3 delta index e u v' parent] Some m(2,7) by auto
  qed
  then show ?thesis
    using m by (intro exI [of _ recs'] exI [of _ rs1] exI [of _ rs2] exI [of _ "changed_entry state"]) simp
qed

text \<open>All visits of a walk, from chunk \<open>i\<close> to the last.\<close>

definition spooled_all :: "bool \<Rightarrow> (nat \<Rightarrow> chunk_state) \<Rightarrow> block_entry option list \<Rightarrow> bytes" where
  "spooled_all delta parent chs = concat (map (\<lambda>i. spooled delta (parent i) i (chs ! i)) [0..<length chs])"

lemma map_upt_snoc: "map (\<lambda>i. f i ((xs @ [x]) ! i)) [0..<length xs] = map (\<lambda>i. f i (xs ! i)) [0..<length xs]"
  by (simp add: nth_append)

lemma spooled_all_snoc: "spooled_all delta parent (chs @ [ch])
    = spooled_all delta parent chs @ spooled delta (parent (length chs)) (length chs) ch"
  using map_upt_snoc [of "\<lambda>i. spooled delta (parent i) i" chs ch] by (simp add: spooled_all_def del: map_eq_conv)

lemma spooled_all_layout: "spooled_all delta parent chs = manifest_layout (member_manifest_of delta parent chs)"
proof (induction chs rule: rev_induct)
  case (snoc ch chs)
  then show ?case
    using map_upt_snoc [of "\<lambda>i. new_entry (parent i)" chs ch]
    by (cases delta) (simp_all add: spooled_all_snoc member_manifest_of_def deltas_of_append spooled_def
        del: map_eq_conv map_map)
qed (simp add: spooled_all_def member_manifest_of_def)

definition changes_ok ::
    "prims \<Rightarrow> backup_args \<Rightarrow> u16 \<Rightarrow> bytes list \<Rightarrow> bytes \<Rightarrow> nat \<Rightarrow> (nat \<times> nat) list \<Rightarrow> (nat \<Rightarrow> chunk_state)
     \<Rightarrow> block_entry option list \<Rightarrow> bool" where
  "changes_ok P args member recs dev c rs parent chs \<longleftrightarrow> (\<forall>i < length chs.
     now_shows P args member recs dev c rs (parent i) i (new_state (parent i) (chs ! i))
     \<and> (\<forall>e. chs ! i = Some e \<longrightarrow> entry_wf e))"

lemma changes_ok_snoc:
  assumes "changes_ok P args member recs dev c rs parent chs" "\<forall>r \<in> set rs'. length chs \<le> fst r div c" "\<forall>r \<in> set rs. fst r div c < length chs"
    and "now_shows P args member (recs @ recs') dev c rs' (parent (length chs)) (length chs) (new_state (parent (length chs)) ch)"
    and "\<forall>e. ch = Some e \<longrightarrow> entry_wf e"
  shows "changes_ok P args member (recs @ recs') dev c (rs @ rs') parent (chs @ [ch])"
  unfolding changes_ok_def
proof (intro allI impI)
  fix i assume "i < length (chs @ [ch])"
  then consider "i < length chs" | "i = length chs" by force
  then show "now_shows P args member (recs @ recs') dev c (rs @ rs') (parent i) i (new_state (parent i) ((chs @ [ch]) ! i))
    \<and> (\<forall>e. (chs @ [ch]) ! i = Some e \<longrightarrow> entry_wf e)"
  proof cases
    case 1
    then have "\<forall>r \<in> set rs'. fst r div c \<noteq> i" using assms(2) by fastforce
    then show ?thesis using 1 assms(1) now_shows_mono by (fastforce simp: changes_ok_def nth_append)
  next
    case 2
    then show ?thesis using assms(3-5) by (fastforce simp: now_shows_def)
  qed
qed

lemma member_visits_ok:
  assumes "prims_ok P" "co_compress (ba_options args) \<longrightarrow> 1 \<le> co_level (ba_options args) \<and> co_level (ba_options args) \<le> 22"
    and "source_shows S dev" "\<forall>i < k. state_wf (parent i)" "k < 2 ^ 64"
    and "backup_ok P args sbb recs (n + plan_cost rs) (ms_io v)" "plan_ahead c v rs" "plan_fits c (length chs) k rs"
    and "spool_holds (data @ spooled_all delta parent chs) (ms_io v)"
    and "changes_ok P args member recs dev (unat c) before parent chs" "\<forall>r \<in> set before. fst r div unat c < length chs"
    and "n_changed (ms_counts v) = word_of_nat (length (deltas_of 0 chs))" "length chs + m = k"
    and "run_visits (member_visit P S args delta member csz access)
           (map (\<lambda>i. (word_of_nat i, parent i)) [length chs..<k]) v = (Inr u, v')"
  shows "\<exists>recs' chs'. backup_ok P args sbb (recs @ recs') n (ms_io v') \<and> spool_holds (data @ spooled_all delta parent chs') (ms_io v')
    \<and> changes_ok P args member (recs @ recs') dev (unat c) (before @ rs) parent chs' \<and> length chs' = k
    \<and> n_changed (ms_counts v') = word_of_nat (length (deltas_of 0 chs'))"
  using assms(6-14)
proof (induction m arbitrary: recs rs v chs before)
  case 0
  then have "rs = []" by (cases rs) (auto simp: plan_fits_def)
  then show ?case using 0 by (intro exI [of _ "[]"] exI [of _ chs]) (auto simp: plan_cost_def)
next
  case (Suc m)
  let ?i = "length chs"
  have i: "?i < k" "unat (word_of_nat ?i :: u64) = ?i"
    using Suc.prems(8) assms(5) by (simp, intro unat_of_nat_u64) simp
  have up: "[?i..<k] = ?i # [Suc ?i..<k]" using i(1) by (rule upt_conv_Cons)
  obtain v1 where v1: "member_visit P S args delta member csz access (word_of_nat ?i) (parent ?i) v = (Inr (), v1)"
      "run_visits (member_visit P S args delta member csz access) (map (\<lambda>i. (word_of_nat i, parent i)) [Suc ?i..<k]) v1 = (Inr u, v')"
    using Suc.prems(9) unfolding up by (auto simp: st_bind_eq)
  have fits: "plan_fits c (unat (word_of_nat ?i :: u64)) k rs" using Suc.prems(3) i(2) by simp
  obtain recs' rs1 rs2 ch where s: "rs = rs1 @ rs2" "backup_ok P args sbb (recs @ recs') (n + plan_cost rs2) (ms_io v1)"
      "spool_holds ((data @ spooled_all delta parent chs) @ spooled delta (parent ?i) ?i ch) (ms_io v1)" "plan_ahead c v1 rs2"
      "plan_fits c (Suc ?i) k rs2"
      "now_shows P args member (recs @ recs') dev (unat c) rs1 (parent ?i) ?i (new_state (parent ?i) ch)"
      "\<forall>e. ch = Some e \<longrightarrow> entry_wf e" "n_changed (ms_counts v1) = n_changed (ms_counts v) + (if ch = None then 0 else 1)"
      "\<forall>r \<in> set rs1. fst r div unat c = ?i"
    using member_visit_ok [OF assms(1-3) Suc.prems(1,2) fits Suc.prems(4) _ v1(1)] assms(4) i unfolding i(2) by blast
  have rs1: "\<forall>r \<in> set rs1. ?i \<le> fst r div unat c" using Suc.prems(3) s(1) by (simp add: plan_fits_def)
  have le: "\<forall>r \<in> set (before @ rs1). fst r div unat c < length (chs @ [ch])"
    using s(9) Suc.prems(6) by (auto simp: less_Suc_eq)
  have c: "changes_ok P args member (recs @ recs') dev (unat c) (before @ rs1) parent (chs @ [ch])"
    using changes_ok_snoc [OF Suc.prems(5) rs1 Suc.prems(6) s(6,7)] .
  have d: "n_changed (ms_counts v1) = word_of_nat (length (deltas_of 0 (chs @ [ch])))"
    using s(8) Suc.prems(7) by (cases ch) (simp_all add: deltas_of_append)
  have "\<exists>recs'' chs'. backup_ok P args sbb ((recs @ recs') @ recs'') n (ms_io v') \<and> spool_holds (data @ spooled_all delta parent chs') (ms_io v')
    \<and> changes_ok P args member ((recs @ recs') @ recs'') dev (unat c) ((before @ rs1) @ rs2) parent chs' \<and> length chs' = k
    \<and> n_changed (ms_counts v') = word_of_nat (length (deltas_of 0 chs'))"
    using Suc.prems(6,8) v1(2) s(3,5) le
    by (intro Suc.IH [OF s(2,4) _ _ c le d]) (simp_all add: spooled_all_snoc)
  then show ?case using s(1) by (metis append.assoc)
qed

end
