(* ===== verification/Backup_Plan.thy ===== *)
theory Backup_Plan
  imports Chain_Walk
begin

text \<open>
  \<open>crates/lr-engine/src/backup_plan.rs\<close> and \<open>resolve_parent_chain\<close> of \<open>backup.rs\<close>: which parent a new
  image gets, which member of which chain it becomes, and which manifest it carries.
\<close>

section \<open>Types\<close>

datatype member_type = TypeFull | TypeIncremental | TypeDifferential

definition file_tag :: "member_type \<Rightarrow> string" where
  "file_tag t = (case t of TypeFull \<Rightarrow> ''full'' | TypeIncremental \<Rightarrow> ''incr'' | TypeDifferential \<Rightarrow> ''diff'')"

datatype backup_mode = ModeBlock | ModeFile | ModeBtrfsStream

datatype manifest_encoding = BlockFull | BlockDelta | FileTree | BtrfsSend

record parent_chain =
  pc_member :: member_record
  pc_chain_id :: uuid
  pc_set_id :: uuid
  pc_prefix :: "(u8 \<times> uuid) list"
  pc_files :: "chain_member_file list"
  pc_superblock :: superblock

record resolved_plan =
  rp_parent :: "parent_chain option"
  rp_member_type :: member_type
  rp_encoding :: manifest_encoding
  rp_set_id :: uuid
  rp_chain_id :: uuid
  rp_seq_in_chain :: u32
  rp_parent_uuid :: uuid

section \<open>The parent chain\<close>

fun chain_prefix :: "nat \<Rightarrow> member_record list \<Rightarrow> (chain_member_file list \<times> (u8 \<times> uuid) list) res" where
  "chain_prefix index [] = Inr ([], [])"
| "chain_prefix index (m # ms) =
     (if index \<ge> 2 ^ 8 then Inl (Unsupported ''chains longer than 255 members are not supported'')
      else res_bind (chain_prefix (Suc index) ms) (\<lambda>(files, prefix).
        Inr (\<lparr> cf_file_name = mr_file_name m, cf_seq_in_chain = mr_seq_in_chain m, cf_image_uuid = mr_image_uuid m \<rparr> # files,
             (word_of_nat index, mr_image_uuid m) # prefix)))"

definition parent_chain_of ::
    "prims \<Rightarrow> 's destination_ops \<Rightarrow> 's \<Rightarrow> u64 option \<Rightarrow> catalog \<Rightarrow> member_record \<Rightarrow> parent_chain option res" where
  "parent_chain_of P D s max_incrementals cat parent =
     (case find (\<lambda>c. chain_member c (mr_image_uuid parent) \<noteq> None) (cat_chains cat) of
        None \<Rightarrow> Inl (Corrupt ''the parent's chain vanished from the catalog'')
      | Some chain \<Rightarrow>
          if (case max_incrementals of None \<Rightarrow> False
              | Some limit \<Rightarrow> 0 < limit \<and> word_of_nat (length (filter (\<lambda>m. 0 < mr_seq_in_chain m) (ch_members chain))) \<ge> limit)
            then Inr None
          else (let records = sort_key mr_seq_in_chain
                      (filter (\<lambda>m. mr_seq_in_chain m \<le> mr_seq_in_chain parent) (ch_members chain)) in
            res_bind (chain_prefix 0 records) (\<lambda>(files, prefix).
            res_bind (read_superblock P (d_open_ro D s) (mr_file_name parent)) (\<lambda>sb.
              Inr (Some \<lparr> pc_member = parent, pc_chain_id = ch_chain_id chain, pc_set_id = set_id sb,
                          pc_prefix = prefix, pc_files = files, pc_superblock = sb \<rparr>)))))"

definition resolve_parent_chain ::
    "prims \<Rightarrow> (bytes \<Rightarrow> catalog option) \<Rightarrow> 's destination_ops \<Rightarrow> 's \<Rightarrow> string \<Rightarrow> u64 \<Rightarrow> member_type \<Rightarrow> string option
     \<Rightarrow> u64 option \<Rightarrow> parent_chain option res" where
  "resolve_parent_chain P from_json D s set_name now member_type parent max_incrementals =
     (if member_type = TypeFull then
        (if parent \<noteq> None then Inl (Unsupported ''a full image starts a new chain and has no --parent'') else Inr None)
      else res_bind (load P from_json D s set_name now) (\<lambda>loaded.
        res_bind (resolve_parent (ld_catalog loaded) (case parent of None \<Rightarrow> ''latest'' | Some p \<Rightarrow> p)) (\<lambda>m.
          parent_chain_of P D s max_incrementals (ld_catalog loaded) m)))"

section \<open>The plan\<close>

definition validate_mode :: "backup_mode \<Rightarrow> member_type \<Rightarrow> unit res" where
  "validate_mode mode member_type =
     fail_if (mode = ModeBtrfsStream \<and> member_type = TypeDifferential)
       (Unsupported ''btrfs Stream images are incremental or full'')"

definition plan_encoding :: "backup_mode \<Rightarrow> member_type \<Rightarrow> manifest_encoding" where
  "plan_encoding mode member_type =
     (case mode of
        ModeBlock \<Rightarrow> (if member_type = TypeIncremental then BlockDelta else BlockFull)
      | ModeFile \<Rightarrow> FileTree
      | ModeBtrfsStream \<Rightarrow> BtrfsSend)"

definition plan_from_parent ::
    "backup_mode \<Rightarrow> member_type \<Rightarrow> uuid \<Rightarrow> uuid \<Rightarrow> parent_chain option \<Rightarrow> resolved_plan res" where
  "plan_from_parent mode requested_type requested_chain requested_set parent =
     res_bind (validate_mode mode requested_type) (\<lambda>_.
     res_bind (fail_if (requested_type = TypeFull \<and> parent \<noteq> None) (Unsupported ''a full image cannot use a resolved parent'')) (\<lambda>_.
     let member_type = (if parent \<noteq> None then requested_type else TypeFull) in
     res_bind (case parent of
         Some p \<Rightarrow>
           if mr_seq_in_chain (pc_member p) = - 1 then Inl (Unsupported ''backup chain sequence overflow'')
           else Inr (pc_set_id p, pc_chain_id p, mr_seq_in_chain (pc_member p) + 1, mr_image_uuid (pc_member p))
       | None \<Rightarrow> Inr (requested_set, requested_chain, 0, uuid_zero)) (\<lambda>(set, chain, seq, parent_id).
       Inr \<lparr> rp_parent = parent, rp_member_type = member_type, rp_encoding = plan_encoding mode member_type,
             rp_set_id = set, rp_chain_id = chain, rp_seq_in_chain = seq, rp_parent_uuid = parent_id \<rparr>)))"

definition resolve_plan ::
    "prims \<Rightarrow> (bytes \<Rightarrow> catalog option) \<Rightarrow> 's destination_ops \<Rightarrow> 's \<Rightarrow> string \<Rightarrow> u64 \<Rightarrow> backup_mode \<Rightarrow> member_type
     \<Rightarrow> string option \<Rightarrow> u64 option \<Rightarrow> uuid \<Rightarrow> uuid \<Rightarrow> resolved_plan res" where
  "resolve_plan P from_json D s set_name now mode member_type parent max_incrementals requested_chain requested_set =
     res_bind (validate_mode mode member_type) (\<lambda>_.
     res_bind (resolve_parent_chain P from_json D s set_name now member_type parent max_incrementals) (\<lambda>found.
       plan_from_parent mode member_type requested_chain requested_set found))"

definition plan_member_kind :: "member_type \<Rightarrow> member_kind" where
  "plan_member_kind t = (case t of TypeFull \<Rightarrow> Full | TypeIncremental \<Rightarrow> Incremental | TypeDifferential \<Rightarrow> Differential)"

section \<open>The prefix of a chain\<close>

lemma chain_prefix_Inr:
  "chain_prefix k ms = Inr (files, prefix) \<Longrightarrow>
     map cf_seq_in_chain files = map mr_seq_in_chain ms \<and> map cf_image_uuid files = map mr_image_uuid ms
     \<and> map cf_file_name files = map mr_file_name ms
     \<and> map snd prefix = map mr_image_uuid ms \<and> map (\<lambda>p. unat (fst p)) prefix = [k..<k + length ms] \<and> (ms \<noteq> [] \<longrightarrow> k + length ms \<le> 2 ^ 8)"
proof (induction k ms arbitrary: files prefix rule: chain_prefix.induct)
  case (2 k m ms)
  then have k: "k < 2 ^ 8" by (simp split: if_splits)
  then obtain fs ps where "chain_prefix (Suc k) ms = Inr (fs, ps)"
      "files = \<lparr> cf_file_name = mr_file_name m, cf_seq_in_chain = mr_seq_in_chain m, cf_image_uuid = mr_image_uuid m \<rparr> # fs"
      "prefix = (word_of_nat k, mr_image_uuid m) # ps"
    using 2(2) by (auto simp: res_bind_eq_Inr)
  moreover have "unat (word_of_nat k :: u8) = k" using k by (simp add: unat_of_nat)
  moreover have "[k..<k + length (m # ms)] = k # [Suc k..<Suc k + length ms]" by (subst upt_conv_Cons) simp_all
  ultimately show ?case using 2(1) [of fs ps] k by (cases ms) (simp_all del: upt_Suc)
qed simp

lemma sort_key_all:
  assumes "\<forall>m \<in> set ms. f m \<le> t"
  shows "map f (sort_key f (filter (\<lambda>m. f m \<le> t) ms)) = sort (map f ms)"
proof -
  have "filter (\<lambda>m. f m \<le> t) ms = ms" using assms by (simp add: filter_id_conv)
  then show ?thesis by (simp add: properties_for_sort [of "map f (sort_key f ms)" "map f ms"])
qed

lemma concat_disjoint:
  "distinct (concat (map f xs)) \<Longrightarrow> a \<in> set xs \<Longrightarrow> b \<in> set xs \<Longrightarrow> a \<noteq> b \<Longrightarrow> set (f a) \<inter> set (f b) = {}"
  by (induction xs) auto

text \<open>The chain the parent is looked up in is the complete chain it is the newest member of.\<close>

lemma parent_is_newest:
  assumes "resolve_parent cat p = Inr m" "distinct (map mr_image_uuid (concat (map ch_members (cat_chains cat))))"
    and "find (\<lambda>c. chain_member c (mr_image_uuid m) \<noteq> None) (cat_chains cat) = Some chain"
  shows "is_complete chain \<and> m \<in> set (ch_members chain) \<and> (\<forall>x \<in> set (ch_members chain). mr_seq_in_chain x \<le> mr_seq_in_chain m)"
proof -
  obtain c l where c: "c \<in> set (cat_chains cat)" "is_complete c" "m \<in> set (ch_members c)" "chain_latest_member c = Some l"
      "mr_image_uuid l = mr_image_uuid m"
  proof (cases "p = ''latest''")
    case True
    then have "latest_member cat = Inr (Some m)"
      using assms(1) by (auto simp: resolve_parent_def res_bind_eq_Inr split: option.splits)
    then show ?thesis using that latest_member_Inr chain_latest_memberD by blast
  next
    case False
    then obtain w where "resolve_among w (cat_chains cat) = Inr m"
      using assms(1) by (auto simp: resolve_parent_def split: sum.splits)
    then show ?thesis using that resolve_among_Inr by blast
  qed
  have same: "x = y" if "x \<in> set (ch_members a)" "y \<in> set (ch_members b)" "a \<in> set (cat_chains cat)" "b \<in> set (cat_chains cat)"
      "mr_image_uuid x = mr_image_uuid y" for x y a b
    using that assms(2) by (auto simp: distinct_map inj_on_def)
  have l: "l = m" using chain_latest_memberD [OF c(4)] c by (auto intro: same)
  have ch: "chain \<in> set (cat_chains cat)" "chain_member chain (mr_image_uuid m) \<noteq> None"
    using assms(3) find_Some_mem by fastforce+
  then obtain x where x: "x \<in> set (ch_members chain)" "mr_image_uuid x = mr_image_uuid m"
    using chain_member_SomeD by (metis option.exhaust)
  have "chain = c"
  proof (rule ccontr)
    assume "chain \<noteq> c"
    moreover have "distinct (concat (map ch_members (cat_chains cat)))" using assms(2) by (simp add: distinct_map)
    ultimately have "set (ch_members chain) \<inter> set (ch_members c) = {}"
      using concat_disjoint [of ch_members "cat_chains cat"] ch(1) c(1) by blast
    moreover have "x = m" using same x ch(1) c(1,3) by blast
    ultimately show False using x(1) c(3) by auto
  qed
  then show ?thesis using c l chain_latest_memberD [OF c(4)] by auto
qed

section \<open>Properties\<close>



end
