(* ===== verification/Block_Image.thy ===== *)
theory Block_Image
  imports Block_Backup Backup_Plan
begin

text \<open>
  \<open>crates/lr-engine/src/backup.rs\<close>, from the temporary file to the finished image: the superblock, the
  chunk records and the spooled manifest (phase A), the copy of the manifest and the extras into page
  streams (phase B), the footer.  What the destination does with the file is in \<open>Destination\<close>.
\<close>

section \<open>Metadata\<close>

definition image_metadata :: "string \<Rightarrow> consistency \<Rightarrow> string \<Rightarrow> string \<Rightarrow> u32 \<Rightarrow> bytes" where
  "image_metadata source level fs_type tag seq = bytes_of_string
     (''source='' @ source @ [CHR 0x0A] @ ''consistency='' @ consistency_label level @ [CHR 0x0A]
      @ ''fs_type='' @ fs_type @ [CHR 0x0A] @ ''kind='' @ tag @ [CHR 0x0A] @ ''seq='' @ decimal (unat seq) @ [CHR 0x0A])"

definition extras_members :: "resolved_plan \<Rightarrow> uuid \<Rightarrow> extras_member list" where
  "extras_members plan uuid =
     (case rp_parent plan of None \<Rightarrow> [] | Some p \<Rightarrow> map (\<lambda>(i, u). \<lparr> cm_index = i, cm_image_uuid = u \<rparr>) (pc_prefix p))
     @ [\<lparr> cm_index = (if unat (rp_seq_in_chain plan) < 2 ^ 8 then ucast (rp_seq_in_chain plan) else - 1), cm_image_uuid = uuid \<rparr>]"

definition write_manifest_stream ::
    "prims \<Rightarrow> aead_kind \<Rightarrow> bytes \<Rightarrow> bytes \<Rightarrow> image_writer \<Rightarrow> image_writer res option" where
  "write_manifest_stream P kind key spool w =
     (case page_stream_new w Manifest kind key of
        None \<Rightarrow> None
      | Some st \<Rightarrow> map_option (\<lambda>r. res_bind r (\<lambda>st.
          res_bind (page_finish P writer_sink st) (\<lambda>st. Inr (ps_sink st)))) (copy_spool P st spool))"

definition write_extras_stream ::
    "prims \<Rightarrow> aead_kind \<Rightarrow> bytes \<Rightarrow> extras_member list \<Rightarrow> bytes \<Rightarrow> image_writer \<Rightarrow> image_writer res option" where
  "write_extras_stream P kind key members metadata w =
     (case res_bind (write_chain_members members) (\<lambda>a.
             res_bind (write_record extras_image_metadata metadata) (\<lambda>b. Inr (a @ b))) of
        Inl e \<Rightarrow> Some (Inl e)
      | Inr bs \<Rightarrow> write_stream P Extras kind key bs w)"

section \<open>One image\<close>

text \<open>What is settled before the temporary file exists.\<close>

record image_job =
  ij_superblock :: superblock
  ij_mac_key :: "bytes option"
  ij_header :: block_manifest_header
  ij_source :: string
  ij_plan :: resolved_plan

definition spool_patch :: "u64 \<Rightarrow> u64 \<Rightarrow> 's backup_state \<Rightarrow> unit res \<times> 's backup_state" where
  "spool_patch header_offset n st =
     (case patch_entry_count header_offset n (bs_spool st) of
        Inl e \<Rightarrow> (Inl e, st) | Inr f \<Rightarrow> (Inr (), st\<lparr> bs_spool := f \<rparr>))"

definition write_entries ::
    "prims \<Rightarrow> 's source_ops \<Rightarrow> backup_args \<Rightarrow> (chain_member_file list \<Rightarrow> open_member list res) \<Rightarrow> image_job \<Rightarrow> used_chunks
     \<Rightarrow> 's backup_state \<Rightarrow> (counts res \<times> 's backup_state) option" where
  "write_entries P S args open_parent job plan st =
     (let header_offset = word_of_nat (file_pos (bs_spool st)); chunk_count = uc_chunk_count plan in
      case rp_parent (ij_plan job) of
        None \<Rightarrow>
          (case spool_write (block_header_write (ij_header job) False) st of
             (Inl e, st) \<Rightarrow> Some (Inl e, st)
           | (Inr _, st) \<Rightarrow>
               map_option (\<lambda>r. st_bind r (\<lambda>c st.
                   st_bind (spool_patch header_offset chunk_count st) (\<lambda>_ st. (Inr c, st))))
                 (write_full_entries P S args plan chunk_count st))
      | Some p \<Rightarrow>
          (let delta = (rp_encoding (ij_plan job) = BlockDelta) in
           Some (st_bind (spool_write (block_header_write (ij_header job) delta) st) (\<lambda>_ st.
             st_bind (write_member_entries P S args delta (rp_seq_in_chain (ij_plan job)) (chunk_size (ij_superblock job)) plan
                 chunk_count (open_parent (pc_files p)) st) (\<lambda>(c, entries) st.
             st_bind (spool_patch header_offset entries st) (\<lambda>_ st. (Inr c, st)))))))"

definition finish_block_image ::
    "prims \<Rightarrow> backup_args \<Rightarrow> image_job \<Rightarrow> bytes \<Rightarrow> image_writer \<Rightarrow> (disk_file \<times> footer) res option" where
  "finish_block_image P args job spool w =
     (let kind = co_kind (ba_options args); key = wk_meta_key (ba_keys args); sb = ij_superblock job; plan = ij_plan job in
      case write_manifest_stream P kind key spool w of
        None \<Rightarrow> None
      | Some (Inl e) \<Rightarrow> Some (Inl e)
      | Some (Inr w) \<Rightarrow>
          (case write_extras_stream P kind key (extras_members plan (image_uuid sb))
               (image_metadata (ij_source job) (sb_consistency sb) (bm_fs_type (ij_header job)) (file_tag (rp_member_type plan))
                  (rp_seq_in_chain plan)) w of
             None \<Rightarrow> None
           | Some (Inl e) \<Rightarrow> Some (Inl e)
           | Some (Inr w) \<Rightarrow> writer_finish P key (ij_mac_key job) kind w))"

definition write_block_image ::
    "prims \<Rightarrow> 's source_ops \<Rightarrow> backup_args \<Rightarrow> (chain_member_file list \<Rightarrow> open_member list res) \<Rightarrow> image_job \<Rightarrow> used_chunks
     \<Rightarrow> disk_file \<Rightarrow> disk_file \<Rightarrow> 's \<Rightarrow> (counts \<times> disk_file \<times> footer) res option" where
  "write_block_image P S args open_parent job plan tmp spool src =
     (case writer_create P tmp (ij_superblock job) (ij_mac_key job) of
        Inl e \<Rightarrow> Some (Inl e)
      | Inr w \<Rightarrow>
          (case write_entries P S args open_parent job plan
               \<lparr> bs_source = src, bs_writer = w, bs_nonces = nonce_seq_new, bs_spool = spool \<rparr> of
             None \<Rightarrow> None
           | Some (Inl e, _) \<Rightarrow> Some (Inl e)
           | Some (Inr c, st) \<Rightarrow>
               (case fst (so_check_final_health S (bs_source st)) of
                  Inl e \<Rightarrow> Some (Inl e)
                | Inr _ \<Rightarrow> map_option (\<lambda>r. res_bind r (\<lambda>(f, ft). Inr (c, f, ft)))
                    (finish_block_image P args job (file_data (bs_spool st)) (bs_writer st)))))"

section \<open>Phase B\<close>

lemma copy_spool_eq:
  assumes "length (ps_buf st) < ps_page_len st"
  shows "copy_spool P st spool = page_write P writer_sink st spool"
  using assms
proof (induction P st spool rule: copy_spool.induct)
  case (1 P st spool)
  show ?case
  proof (cases "spool = []")
    case True
    then show ?thesis by (simp add: copy_spool.simps page_write.simps)
  next
    case False
    have split: "page_write P writer_sink st spool = (case page_write P writer_sink st (take (64 * 1024) spool) of
        Some (Inr st') \<Rightarrow> page_write P writer_sink st' (drop (64 * 1024) spool) | r \<Rightarrow> r)"
      using page_write_append [OF 1(2), of P writer_sink "take (64 * 1024) spool" "drop (64 * 1024) spool"]
      by (simp only: append_take_drop_id)
    show ?thesis
    proof (cases "\<exists>st'. page_write P writer_sink st (take (64 * 1024) spool) = Some (Inr st')")
      case True
      then obtain st' where st': "page_write P writer_sink st (take (64 * 1024) spool) = Some (Inr st')" by blast
      note room = page_write_room [OF 1(2) st']
      show ?thesis
        unfolding copy_spool.simps [of P st spool] split st'
        using False 1(1) [OF False st' refl room] by simp
    next
      case False
      then show ?thesis
        unfolding copy_spool.simps [of P st spool] split using \<open>spool \<noteq> []\<close> by (auto split: option.splits sum.splits)
    qed
  qed
qed

lemma write_manifest_stream_eq: "write_manifest_stream P kind key spool w = write_stream P Manifest kind key spool w"
proof (cases "page_stream_new w Manifest kind key")
  case (Some st)
  then have "length (ps_buf st) < ps_page_len st"
    by (auto simp: page_stream_new_def page_stream_with_page_len_def split: if_splits)
  then show ?thesis
    using Some by (simp add: write_manifest_stream_def write_stream_def copy_spool_eq split: option.split)
qed (simp add: write_manifest_stream_def write_stream_def)

definition extras_bytes :: "image_job \<Rightarrow> bytes" where
  "extras_bytes job =
     (let sb = ij_superblock job; plan = ij_plan job;
          members = chain_members_payload (extras_members plan (image_uuid sb));
          metadata = image_metadata (ij_source job) (sb_consistency sb) (bm_fs_type (ij_header job)) (file_tag (rp_member_type plan))
                  (rp_seq_in_chain plan) in
      put_u16 extras_ver @ put_u8 extras_chain_members @ put_u8 0 @ put_u32 (word_of_nat (length members)) @ members
      @ put_u16 extras_ver @ put_u8 extras_image_metadata @ put_u8 0 @ put_u32 (word_of_nat (length metadata)) @ metadata)"

definition job_extras_fit :: "image_job \<Rightarrow> bool" where
  "job_extras_fit job \<longleftrightarrow> length (extras_bytes job) \<le> 2 ^ 25"

lemma finish_block_image_eq:
  assumes "job_extras_fit job"
  shows "finish_block_image P args job spool w =
    (case write_streams P (co_kind (ba_options args)) (wk_meta_key (ba_keys args)) [(Manifest, spool), (Extras, extras_bytes job)] w of
       None \<Rightarrow> None | Some (Inl e) \<Rightarrow> Some (Inl e)
     | Some (Inr w) \<Rightarrow> writer_finish P (wk_meta_key (ba_keys args)) (ij_mac_key job) (co_kind (ba_options args)) w)"
proof -
  let ?ms = "extras_members (ij_plan job) (image_uuid (ij_superblock job))"
  let ?md = "image_metadata (ij_source job) (sb_consistency (ij_superblock job)) (bm_fs_type (ij_header job))
      (file_tag (rp_member_type (ij_plan job))) (rp_seq_in_chain (ij_plan job))"
  have l: "length (chain_members_payload ?ms) < 2 ^ 32" "length ?md < 2 ^ 32"
    using assms by (simp_all add: job_extras_fit_def extras_bytes_def Let_def)
  then have "write_extras_stream P kind key ?ms ?md v = write_stream P Extras kind key (extras_bytes job) v" for kind key v
    by (simp add: write_extras_stream_def write_chain_members_def write_record_def extras_bytes_def Let_def)
  then show ?thesis
    unfolding finish_block_image_def Let_def write_manifest_stream_eq
    by (simp split: option.split sum.split)
qed

lemma finish_block_image_ok:
  assumes "prims_ok P" "backup_ok P args (sb_image P sb mk) recs n st" "ij_superblock job = sb" "ij_mac_key job = mk"
    and "sb_image_kind sb = Block" "job_extras_fit job" "spool \<noteq> []" "length spool \<le> 2 ^ 38" "writer_size (bs_writer st) < 2 ^ 62 + 4096"
  shows "\<exists>f ft pts refs pgs tpgs. finish_block_image P args job spool (bs_writer st) = Some (Inr (f, ft))
    \<and> written_image P sb mk (ba_options args) (ba_keys args) pts [(Manifest, spool), (Extras, extras_bytes job)] refs ft
        (file_data f) recs pgs tpgs"
proof -
  have h: "writer_holds (sb_image P sb mk) recs [] (bs_writer st)" "iw_meta_nonces (bs_writer st) = 0" "recs_stored P args recs"
    using assms(2) by (simp_all add: backup_ok_def)
  have "streams_fit [(Manifest, spool), (Extras, extras_bytes job)]"
    using assms(6-8) by (simp add: streams_fit_def job_extras_fit_def)
  from write_metadata_finish [OF assms(1) h(1,2) assms(9) this, of "co_kind (ba_options args)" "wk_meta_key (ba_keys args)" mk]
  obtain w' f ft pgs tpgs where w: "write_streams P (co_kind (ba_options args)) (wk_meta_key (ba_keys args))
        [(Manifest, spool), (Extras, extras_bytes job)] (bs_writer st) = Some (Inr w')"
      "writer_finish P (wk_meta_key (ba_keys args)) mk (co_kind (ba_options args)) w' = Some (Inr (f, ft))"
      "finished_image P (wk_meta_key (ba_keys args)) mk (co_kind (ba_options args)) (sb_image P sb mk) recs pgs tpgs ft (file_data f)"
      "streams_sealed P (co_kind (ba_options args)) (wk_meta_key (ba_keys args)) [(Manifest, spool), (Extras, extras_bytes job)] pgs"
      "13 * length pgs \<le> max_page_table_bytes"
    by blast
  obtain ref pt where rp: "\<And>k. k < length recs \<Longrightarrow>
      chunk_stored P (ba_options args) (ba_keys args) Block (take k recs) (recs ! k) (ref k) (pt k)"
    using h(3) unfolding recs_stored_def by metis
  define pts where "pts = map pt [0..<length recs]"
  define refs where "refs = map ref [0..<length recs]"
  have "written_image P sb mk (ba_options args) (ba_keys args) pts [(Manifest, spool), (Extras, extras_bytes job)] refs ft
        (file_data f) recs pgs tpgs"
    using w(3-5) rp assms(5) by (simp add: written_image_def pts_def refs_def)
  moreover have "finish_block_image P args job spool (bs_writer st) = Some (Inr (f, ft))"
    unfolding finish_block_image_eq [OF assms(6)] w(1) using w(2) assms(4) by simp
  ultimately show ?thesis by blast
qed

section \<open>Patching the entry count\<close>

lemma header_patched:
  assumes "block_header_write h delta = Inr hb" "b = u64_to_le_bytes n"
  shows "\<exists>hb'. block_header_write (h\<lparr> bm_entry_count := n \<rparr>) delta = Inr hb' \<and> length hb' = length hb
    \<and> overwrite 16 b (hb @ rest) = hb' @ rest \<and> 24 \<le> length hb"
proof -
  obtain a c d where x: "put_u16_prefixed (bytes_of_string (bm_fs_type h)) = Inr a" "put_u16_prefixed (bytes_of_string (bm_fs_uuid h)) = Inr c"
      "put_u16_prefixed (bytes_of_string (bm_label h)) = Inr d"
    using assms(1) by (auto simp: block_header_write_def res_bind_eq_Inr)
  define pre where "pre = put_u16 manifest_ver @ put_u8 (if delta then section_block_delta else section_block_full)
         @ put_u8 0 @ put_u32 (bm_chunk_size h) @ put_u64 (bm_chunk_count h)"
  define post where "post = put_u64 (bm_used_extent_count h) @ put_u64 (bm_used_bytes h) @ a @ c @ d @ put_u16 0"
  have hb: "hb = pre @ put_u64 (bm_entry_count h) @ post"
    using assms(1) x by (simp add: block_header_write_def pre_def post_def)
  have hb': "block_header_write (h\<lparr> bm_entry_count := n \<rparr>) delta = Inr (pre @ put_u64 n @ post)"
    using x by (simp add: block_header_write_def pre_def post_def)
  have "length pre = 16" by (simp add: pre_def)
  then show ?thesis
    unfolding hb hb' assms(2) by (simp add: overwrite_def put_u64_def)
qed

lemma spool_patch_ok:
  assumes "spool_holds (hb @ data) st" "block_header_write h delta = Inr hb" "spool_patch 0 n st = (Inr u, st')"
    and "length (hb @ data) < 2 ^ 64"
  shows "\<exists>hb'. block_header_write (h\<lparr> bm_entry_count := n \<rparr>) delta = Inr hb' \<and> length hb' = length hb
    \<and> spool_holds (hb' @ data) st' \<and> (\<exists>f. st' = st\<lparr> bs_spool := f \<rparr>)"
proof -
  obtain hb' where hb': "block_header_write (h\<lparr> bm_entry_count := n \<rparr>) delta = Inr hb'" "length hb' = length hb"
      "overwrite 16 (u64_to_le_bytes n) (hb @ data) = hb' @ data" "24 \<le> length hb"
    using header_patched [OF assms(2) refl, of n data] by blast
  define f where "f = bs_spool st"
  have f: "file_data f = hb @ data" "file_pos f = length (hb @ data)" using assms(1) by (simp_all add: spool_holds_def f_def)
  obtain f1 where f1: "file_write_all (u64_to_le_bytes n) (file_seek 16 f) = Inr f1"
      "st' = st\<lparr> bs_spool := file_seek (word_of_nat (file_pos f)) f1 \<rparr>"
    using assms(3) by (auto simp: spool_patch_def patch_entry_count_def Let_def f_def res_bind_def split: sum.splits)
  have "file_data f1 = hb' @ data"
    using f1(1) f(1) hb'(3,4) by (auto simp: file_write_all_def file_seek_def file_put_def split: if_splits)
  then have "spool_holds (hb' @ data) st'"
    using f1(2) f(2) hb'(2) unat_of_nat_u64 [OF assms(4)] by (simp add: spool_holds_def file_seek_def)
  then show ?thesis using hb'(1,2) f1(2) by blast
qed

section \<open>A fresh plan\<close>

lemma chunks_from_len: "p \<in> set (chunks_from c a e) \<Longrightarrow> snd p = min c (e + 1 - fst p)"
proof (induction c a e rule: chunks_from.induct)
  case (1 c a e)
  then show ?case by (cases "c = 0 \<or> e < a") (auto simp: chunks_from.simps [of c a])
qed

lemma plan_fits_new:
  assumes "used_chunks_new m c dev = Inr u" "unat c < 2 ^ 32" "unat c \<le> max_stored_len" "unat dev + unat c < 2 ^ 64"
    and "\<forall>r \<in> set (em_extents m). range_ok r \<and> snd r < dev"
  shows "plan_fits c 0 (unat (uc_chunk_count u)) (pending_chunks u)"
    and "\<forall>r \<in> set (pending_chunks u). snd r = min (unat c) (unat dev - fst r) \<and> unat c dvd fst r \<and> fst r < unat dev"
    and "unat (uc_chunk_count u) = (unat dev + unat c - 1) div unat c" "plan_cost (pending_chunks u) \<le> 37 * unat dev"
proof -
  note ok = plan_ok_new [OF assms(1,2,4,5)]
  note pn = pending_new [OF assms(1)]
  have c: "c \<noteq> 0" "unat c \<noteq> 0" using assms(1) by (auto simp: used_chunks_new_def unat_eq_zero)
  note al = chunk_aligned_correct [OF c(1) assms(5), folded ok(3)]
  show ch: "\<forall>r \<in> set (pending_chunks u). snd r = min (unat c) (unat dev - fst r) \<and> unat c dvd fst r \<and> fst r < unat dev"
  proof
    fix p assume "p \<in> set (pending_chunks u)"
    then obtain r where r: "r \<in> set (uc_regions u)" "p \<in> set (chunks_from (unat c) (unat (fst r)) (unat (snd r)))"
      unfolding pn by (rule regions_chunks_bounds)
    have reg: "unat c dvd unat (fst r)" "unat (snd r) < unat dev" "unat c dvd unat (snd r) + 1 \<or> unat (snd r) + 1 = unat dev"
      using al(3) r(1) by (simp_all add: chunk_region_def)
    note b = chunks_from_bounds [OF r(2)]
    have d: "unat c dvd fst p" using b reg(1) by blast
    have l: "snd p = min (unat c) (unat (snd r) + 1 - fst p)" by (rule chunks_from_len [OF r(2)])
    have "snd p = min (unat c) (unat dev - fst p)"
    proof (cases "unat (snd r) + 1 = unat dev")
      case False
      then have "unat c dvd unat (snd r) + 1 - fst p" using reg(3) d by (simp add: dvd_diff_nat)
      then have "unat c \<le> unat (snd r) + 1 - fst p" using b by (intro dvd_imp_le) auto
      then show ?thesis using l reg(2) b by auto
    qed (use l in simp)
    then show "snd p = min (unat c) (unat dev - fst p) \<and> unat c dvd fst p \<and> fst p < unat dev" using d b reg(2) by linarith
  qed
  show cnt: "unat (uc_chunk_count u) = (unat dev + unat c - 1) div unat c"
    using assms(1) c unat_div_ceil_u64 [of c dev] by (auto simp: used_chunks_new_def split: if_splits)
  have asc: "sorted_wrt (\<lambda>p q. fst p + snd p \<le> fst q) (pending_chunks u)"
    using regions_chunks_ascending [OF al(1), of "unat c"] unfolding pn ascending_chunks_def .
  have div: "fst p div unat c < fst q div unat c"
    if "p \<in> set (pending_chunks u)" "q \<in> set (pending_chunks u)" "fst p + snd p \<le> fst q" for p q
  proof -
    have "0 < snd p" using ch that(1) c(2) by auto
    then have "fst p < fst q" using that(3) by simp
    moreover have "unat c dvd fst p" "unat c dvd fst q" using ch that(1,2) by blast+
    ultimately show ?thesis using c(2) by (auto elim!: dvdE)
  qed
  have "fst r div unat c < unat (uc_chunk_count u)" if "r \<in> set (pending_chunks u)" for r
  proof -
    obtain k where k: "fst r = unat c * k" "unat c * k < unat dev" using ch \<open>r \<in> _\<close> by (metis dvdE)
    then have "unat c * (k + 1) \<le> unat dev + unat c - 1" using c(2) by simp
    then have "k + 1 \<le> (unat dev + unat c - 1) div unat c" using c(2) by (metis div_le_mono nonzero_mult_div_cancel_left)
    then show ?thesis using k(1) c(2) cnt by simp
  qed
  then show "plan_fits c 0 (unat (uc_chunk_count u)) (pending_chunks u)"
    using ch assms(3) sorted_wrt_mono_rel [OF _ asc] div by (auto simp: plan_fits_def)
  have "sum_list (map snd (pending_chunks u)) \<le> unat dev"
    using separated_total [OF al(1), of "unat dev" 0] al(3) c(2) unfolding pn
    by (simp add: regions_chunks_total chunk_region_def)
  moreover have "plan_cost rs \<le> 37 * sum_list (map snd rs)" if "\<forall>r \<in> set rs. 0 < snd r" for rs
    using that by (induction rs) (auto simp: plan_cost_def)
  moreover have "\<forall>r \<in> set (pending_chunks u). 0 < snd r" using ch c(2) by simp
  ultimately show "plan_cost (pending_chunks u) \<le> 37 * unat dev" by (meson le_trans mult_le_mono2)
qed

section \<open>Phase A\<close>

text \<open>
  What phase A leaves behind: the records \<open>recs\<close> in the image file and, in the spool, a manifest that
  says of every chunk what the device holds there, on top of what the parent said.
\<close>

definition manifest_written ::
    "prims \<Rightarrow> backup_args \<Rightarrow> u16 \<Rightarrow> bytes \<Rightarrow> used_chunks \<Rightarrow> (nat \<Rightarrow> chunk_state) \<Rightarrow> block_manifest_header \<Rightarrow> bytes list
     \<Rightarrow> manifest \<Rightarrow> 's backup_state \<Rightarrow> bool" where
  "manifest_written P args member dev plan parent h recs mf st \<longleftrightarrow>
     (\<exists>hb. block_header_write (h\<lparr> bm_entry_count := word_of_nat (manifest_entries mf) \<rparr>) (\<not> is_entries mf) = Inr hb
        \<and> spool_holds (hb @ manifest_layout mf) st)
     \<and> manifest_wf mf \<and> covers_chunks 0 (unat (uc_chunk_count plan)) mf
     \<and> (\<forall>i < unat (uc_chunk_count plan). now_shows P args member recs dev (unat (uc_chunk_size plan)) (pending_chunks plan)
          (parent i) i (state_in mf i (parent i)))"

lemma header_length: "block_header_write h delta = Inr hb \<Longrightarrow> length hb \<le> 2 ^ 18"
  by (auto simp: block_header_write_def res_bind_eq_Inr put_u16_prefixed_def split: if_splits)

lemma length_entries: "\<forall>e \<in> set es. entry_wf e \<Longrightarrow> length (layouts es) = 46 * length es"
  by (induction es) (simp_all add: layouts_def length_entry_layout)

lemma entry_shows_now:
  assumes "entry_shows P args recs dev c rs i e"
  shows "now_shows P args 0 recs dev c rs Unused i (chunk_state_from e)"
proof -
  have "state_shows P (wk_dedup_key (ba_keys args)) (chunk_state_from e) b
      \<and> (chunk_state_from e = Zero \<or> stored_in P args recs 0 e b) \<or> ba_on_bad_sector args = Record \<and> chunk_state_from e = BadSectorState"
    if cap: "captures P args recs dev e b" for b
  proof -
    consider (st) "stored_in P args recs 0 e b" "\<not> is_all_zero b" | (zero) "e = entry_zero" "is_all_zero b"
      | (bad) "ba_on_bad_sector args = Record" "be_state e = state_bad_sector"
      using cap by (auto simp: captures_def)
    then show ?thesis
    proof cases
      case st
      then show ?thesis using stored_from [OF st(1)] by (simp add: state_shows_def)
    qed (simp_all add: state_shows_def chunk_state_from_def entry_zero_def state_zero_def state_stored_def state_bad_sector_def)
  qed
  then show ?thesis
    using assms unfolding entry_shows_def now_shows_def
    by (fastforce simp: chunk_state_from_def entry_unused_def state_unused_def state_stored_def state_zero_def state_bad_sector_def)
qed

lemma write_entries_full:
  assumes "prims_ok P" "co_compress (ba_options args) \<longrightarrow> 1 \<le> co_level (ba_options args) \<and> co_level (ba_options args) \<le> 22"
    and "source_shows S dev" "plan_ok u" "plan_fits (uc_chunk_size u) 0 (unat (uc_chunk_count u)) (pending_chunks u)"
    and "backup_ok P args sbb [] (n + plan_cost (pending_chunks u)) st" "spool_holds [] st" "rp_parent (ij_plan job) = None"
    and "unat (uc_chunk_count u) \<le> 2 ^ 32"
  shows "\<exists>q. write_entries P S args open_parent job u st = Some q \<and> (\<forall>cnt st'. q = (Inr cnt, st') \<longrightarrow>
    (\<exists>recs mf. backup_ok P args sbb recs n st' \<and> manifest_written P args 0 dev u (\<lambda>_. Unused) (ij_header job) recs mf st' \<and> is_entries mf))"
proof (cases "spool_write (block_header_write (ij_header job) False) st")
  case (Pair r st1)
  have pos: "word_of_nat (file_pos (bs_spool st)) = (0 :: u64)" using assms(7) by (simp add: spool_holds_def)
  show ?thesis
  proof (cases r)
    case (Inl e)
    then show ?thesis using Pair assms(8) by (simp add: write_entries_def)
  next
    case (Inr x)
    obtain hb where hb: "block_header_write (ij_header job) False = Inr hb"
      using Pair Inr by (cases "block_header_write (ij_header job) False") (auto simp: spool_write_def)
    have st1: "spool_holds hb st1" "backup_ok P args sbb [] (n + plan_cost (pending_chunks u)) st1"
      using spool_write_ok [OF assms(7), of hb x st1] Pair Inr assms(6) unfolding hb by auto
    obtain q where q: "write_full_entries P S args u (uc_chunk_count u) st1 = Some q"
        "\<And>cnt st'. q = (Inr cnt, st') \<Longrightarrow> \<exists>recs es. backup_ok P args sbb recs n st' \<and> spool_holds (hb @ layouts es) st'
           \<and> length es = unat (uc_chunk_count u) \<and> entries_show P args recs dev (unat (uc_chunk_size u)) (pending_chunks u) es"
      using write_full_entries_ok [OF assms(1-4) refl assms(5) st1(2,1)] by blast
    define q' where "q' = st_bind q (\<lambda>c st. st_bind (spool_patch 0 (uc_chunk_count u) st) (\<lambda>_ st. (Inr c, st)))"
    have "write_entries P S args open_parent job u st = Some q'"
      using Pair Inr q(1) assms(8) by (simp add: write_entries_def pos q'_def)
    moreover have "\<exists>recs mf. backup_ok P args sbb recs n st' \<and> manifest_written P args 0 dev u (\<lambda>_. Unused) (ij_header job) recs mf st' \<and> is_entries mf"
      if eq: "q' = (Inr cnt, st')" for cnt st'
    proof -
      obtain st2 where st2: "q = (Inr cnt, st2)" "spool_patch 0 (uc_chunk_count u) st2 = (Inr (), st')"
        using eq by (auto simp: q'_def st_bind_eq)
      obtain recs es where e: "backup_ok P args sbb recs n st2" "spool_holds (hb @ layouts es) st2"
          "length es = unat (uc_chunk_count u)" "entries_show P args recs dev (unat (uc_chunk_size u)) (pending_chunks u) es"
        using q(2) [OF st2(1)] by blast
      have wf: "\<forall>e \<in> set es. entry_wf e" using e(4) by (auto simp: entries_show_def in_set_conv_nth)
      have "length (hb @ layouts es) < 2 ^ 64"
        using header_length [OF hb] length_entries [OF wf] e(3) assms(9) by simp
      from spool_patch_ok [OF e(2) hb st2(2) this] obtain hb' where
        p: "block_header_write (ij_header job\<lparr> bm_entry_count := uc_chunk_count u \<rparr>) False = Inr hb'"
          "spool_holds (hb' @ layouts es) st'" "\<exists>f. st' = st2\<lparr> bs_spool := f \<rparr>" by blast
      have "word_of_nat (length es) = uc_chunk_count u" using e(3) by simp
      then have "manifest_written P args 0 dev u (\<lambda>_. Unused) (ij_header job) recs (Entries es) st'"
        using p(1,2) wf e(3,4) entry_shows_now by (auto simp: manifest_written_def layouts_def entries_show_def)
      then show ?thesis using e(1) p(3) by (intro exI [of _ recs] exI [of _ "Entries es"]) auto
    qed
    ultimately show ?thesis by blast
  qed
qed

lemma state_in_wf: "manifest_wf mf \<Longrightarrow> covers_chunks 0 n mf \<Longrightarrow> i < n \<Longrightarrow> state_wf st \<Longrightarrow> state_wf (state_in mf i st)"
  by (cases mf) (auto simp: chunk_state_from_wf find_Some_iff split: option.splits)

lemma resolved_wf:
  assumes "list_all manifest_wf mfs" "list_all (covers_chunks 0 n) mfs" "i < n"
  shows "state_wf (resolved mfs i)"
proof -
  have "state_wf (fold (\<lambda>m. state_in m i) mfs st)" if "state_wf st" for st
    using assms(1,2) that by (induction mfs arbitrary: st) (simp_all add: state_in_wf [OF _ _ assms(3)])
  then show ?thesis by (simp add: resolved_def state_wf_def)
qed

lemma chain_manifests_wf: "chain_manifests P w mfs \<Longrightarrow> list_all manifest_wf mfs"
  by (auto simp: chain_manifests_def member_manifest_def list_all2_conv_all_nth list_all_length)

lemma manifest_entries_of: "manifest_entries (member_manifest_of delta parent chs) = (if delta then length (deltas_of 0 chs) else length chs)"
  by (simp add: member_manifest_of_def)

lemma manifest_layout_len: "manifest_wf mf \<Longrightarrow> length (manifest_layout mf) \<le> 54 * manifest_entries mf"
proof (cases mf)
  case (Entries es)
  moreover have "length (concat (map entry_layout es)) = 46 * length es" if "\<forall>e \<in> set es. entry_wf e"
    using length_entries [OF that] by (simp add: layouts_def)
  ultimately show "manifest_wf mf \<Longrightarrow> ?thesis" by simp
next
  case (Deltas ds)
  moreover have "length (concat (map delta_layout ds)) = 54 * length ds" if "\<forall>d \<in> set ds. entry_wf (de_entry d)"
    using that by (induction ds) (simp_all add: delta_layout_def length_entry_layout)
  ultimately show "manifest_wf mf \<Longrightarrow> ?thesis" by simp
qed

lemma deltas_of_length: "length (deltas_of k cs) \<le> length cs"
  by (induction k cs rule: deltas_of.induct) auto

lemma write_member_entries_ok:
  assumes "prims_ok P" "co_compress (ba_options args) \<longrightarrow> 1 \<le> co_level (ba_options args) \<and> co_level (ba_options args) \<le> 22"
    and "source_shows S dev" "plan_ok u" "plan_fits (uc_chunk_size u) 0 (unat (uc_chunk_count u)) (pending_chunks u)"
    and "backup_ok P args sbb [] (n + plan_cost (pending_chunks u)) st" "spool_holds data st"
    and "chain_walk_new P ms = Inr w" "chain_manifests P w mfs" "sb_aead_kind (om_superblock (hd (cw_members w))) = Inr aead"
    and "write_member_entries P S args delta seq csz u (uc_chunk_count u) (Inr ms) st = (Inr (cnt, entries), st')"
    and "k = unat (uc_chunk_count u)"
  shows "\<exists>recs chs. backup_ok P args sbb recs n st' \<and> spool_holds (data @ manifest_layout (member_manifest_of delta (resolved mfs) chs)) st'
    \<and> changes_ok P args (ucast seq) recs dev (unat (uc_chunk_size u)) (pending_chunks u) (resolved mfs) chs \<and> length chs = k
    \<and> entries = word_of_nat (manifest_entries (member_manifest_of delta (resolved mfs) chs)) \<and> chain_covers k mfs"
proof -
  obtain nx u' where nx: "next_chunk u = (nx, u')" by fastforce
  define v where "v = \<lparr> ms_io = st, ms_plan = u', ms_next = nx, ms_counts = counts_default \<rparr>"
  define visit where "visit = (member_visit P S args delta (ucast seq) csz :: 'a member_state visitor)"
  obtain x v' where walk: "chain_walk_walk P visit w v = (Inr x, v')"
    and res: "cnt = ms_counts v'" "entries = (if delta then n_changed cnt else uc_chunk_count u)" "st' = ms_io v'"
    and cc: "cw_chunk_count w = uc_chunk_count u"
    using assms(11) unfolding write_member_entries_def visit_def v_def
    by (auto simp: assms(8) nx res_bind_eq_Inr st_bind_eq split: if_splits prod.splits)
  define acc where "acc = access_of (cw_members w) aead (cw_chunk_size w)"
  have k: "k = unat (cw_chunk_count w)" by (simp add: assms(12) cc)
  have cov: "chain_covers k mfs"
    and run: "run_visits (visit acc) (map (\<lambda>i. (word_of_nat i, resolved mfs i)) [0..<k]) v = (Inr x, v')"
    using walk_with_resolves [OF assms(9,10) k acc_def refl, of False visit v] walk
    by (auto simp: chain_walk_walk_def split: if_splits)
  have wf: "\<forall>i < k. state_wf (resolved mfs i)"
    using resolved_wf [OF chain_manifests_wf [OF assms(9)]] cov unfolding chain_covers_def by blast
  have k64: "k < 2 ^ 64" unfolding k by simp
  have pre: "plan_ahead (uc_chunk_size u) v (pending_chunks u)" "plan_fits (uc_chunk_size u) (length ([] :: block_entry option list)) k (pending_chunks u)"
      "spool_holds (data @ spooled_all delta (resolved mfs) []) (ms_io v)"
      "changes_ok P args (ucast seq) [] dev (unat (uc_chunk_size u)) [] (resolved mfs) []"
      "\<forall>r \<in> set []. fst r div unat (uc_chunk_size u) < length ([] :: block_entry option list)"
      "n_changed (ms_counts v) = word_of_nat (length (deltas_of 0 []))" "length ([] :: block_entry option list) + k = k"
    using plan_ahead_next [OF assms(4) refl nx] assms(5,7,12)
    by (simp_all add: v_def spooled_all_def changes_ok_def counts_default_def)
  have io: "backup_ok P args sbb [] (n + plan_cost (pending_chunks u)) (ms_io v)" using assms(6) by (simp add: v_def)
  from member_visits_ok [OF assms(1-3) wf k64 io pre, of csz acc x v'] run
  obtain recs chs where r: "backup_ok P args sbb recs n (ms_io v')" "spool_holds (data @ spooled_all delta (resolved mfs) chs) (ms_io v')"
      "changes_ok P args (ucast seq) recs dev (unat (uc_chunk_size u)) (pending_chunks u) (resolved mfs) chs" "length chs = k"
      "n_changed (ms_counts v') = word_of_nat (length (deltas_of 0 chs))"
    by (auto simp: visit_def)
  have "entries = word_of_nat (manifest_entries (member_manifest_of delta (resolved mfs) chs))"
    using r(4,5) res assms(12) by (simp add: manifest_entries_of)
  then show ?thesis
    using r cov res(3) by (intro exI [of _ recs] exI [of _ chs]) (simp add: spooled_all_layout)
qed

lemma write_entries_member:
  assumes "prims_ok P" "co_compress (ba_options args) \<longrightarrow> 1 \<le> co_level (ba_options args) \<and> co_level (ba_options args) \<le> 22"
    and "source_shows S dev" "plan_ok u" "plan_fits (uc_chunk_size u) 0 (unat (uc_chunk_count u)) (pending_chunks u)"
    and "backup_ok P args sbb [] (n + plan_cost (pending_chunks u)) st" "spool_holds [] st" "rp_parent (ij_plan job) = Some pc"
    and "unat (uc_chunk_count u) \<le> 2 ^ 32" "open_parent (pc_files pc) = Inr ms"
    and "chain_walk_new P ms = Inr w" "chain_manifests P w mfs" "sb_aead_kind (om_superblock (hd (cw_members w))) = Inr aead"
    and "write_entries P S args open_parent job u st = Some (Inr cnt, st')"
  shows "\<exists>recs mf. backup_ok P args sbb recs n st'
    \<and> manifest_written P args (ucast (rp_seq_in_chain (ij_plan job))) dev u (resolved mfs) (ij_header job) recs mf st'
    \<and> (is_entries mf \<longleftrightarrow> rp_encoding (ij_plan job) \<noteq> BlockDelta) \<and> chain_covers (unat (uc_chunk_count u)) mfs"
proof -
  define delta where "delta = (rp_encoding (ij_plan job) = BlockDelta)"
  define seq where "seq = rp_seq_in_chain (ij_plan job)"
  have pos: "word_of_nat (file_pos (bs_spool st)) = (0 :: u64)" using assms(7) by (simp add: spool_holds_def)
  obtain x st1 entries st2 where st1: "spool_write (block_header_write (ij_header job) delta) st = (Inr x, st1)"
    and wm: "write_member_entries P S args delta seq (chunk_size (ij_superblock job)) u (uc_chunk_count u) (Inr ms) st1 = (Inr (cnt, entries), st2)"
    and pt: "spool_patch 0 entries st2 = (Inr (), st')"
    using assms(14) unfolding write_entries_def Let_def pos
    by (auto simp: assms(8,10) st_bind_eq delta_def [symmetric] seq_def [symmetric])
  obtain hb where hb: "block_header_write (ij_header job) delta = Inr hb"
    using st1 by (cases "block_header_write (ij_header job) delta") (auto simp: spool_write_def)
  have s1: "spool_holds hb st1" "backup_ok P args sbb [] (n + plan_cost (pending_chunks u)) st1"
    using spool_write_ok [OF assms(7), of hb x st1] st1 assms(6) unfolding hb by auto
  let ?mf = "member_manifest_of delta (resolved mfs)"
  obtain recs chs where r: "backup_ok P args sbb recs n st2" "spool_holds (hb @ manifest_layout (?mf chs)) st2"
      "changes_ok P args (ucast seq) recs dev (unat (uc_chunk_size u)) (pending_chunks u) (resolved mfs) chs"
      "length chs = unat (uc_chunk_count u)" "entries = word_of_nat (manifest_entries (?mf chs))"
      "chain_covers (unat (uc_chunk_count u)) mfs"
    using write_member_entries_ok [OF assms(1-5) s1(2,1) assms(11-13) wm refl] by blast
  have wf: "\<forall>i < unat (uc_chunk_count u). state_wf (resolved mfs i)"
    using resolved_wf [OF chain_manifests_wf [OF assms(12)]] r(6) unfolding chain_covers_def by blast
  have ewf: "\<forall>i < unat (uc_chunk_count u). \<forall>e. chs ! i = Some e \<longrightarrow> entry_wf e" using r(3,4) by (simp add: changes_ok_def)
  have mf: "covers_chunks 0 (unat (uc_chunk_count u)) (?mf chs)" "manifest_wf (?mf chs)"
      "\<And>i. i < unat (uc_chunk_count u) \<Longrightarrow> state_in (?mf chs) i (resolved mfs i) = new_state (resolved mfs i) (chs ! i)"
      "is_entries (?mf chs) \<longleftrightarrow> \<not> delta"
    using member_manifest_of_ok [OF r(4) _ wf ewf] by simp_all
  have "length (manifest_layout (?mf chs)) \<le> 54 * manifest_entries (?mf chs)" using manifest_layout_len mf(2) by simp
  also have "\<dots> \<le> 54 * 2 ^ 32" using r(4) assms(9) deltas_of_length [of 0 chs] by (simp add: manifest_entries_of)
  finally have "length (hb @ manifest_layout (?mf chs)) < 2 ^ 64" using header_length [OF hb] by simp
  from spool_patch_ok [OF r(2) hb pt this] obtain hb' where
    p: "block_header_write (ij_header job\<lparr> bm_entry_count := entries \<rparr>) delta = Inr hb'"
      "spool_holds (hb' @ manifest_layout (?mf chs)) st'" "\<exists>f. st' = st2\<lparr> bs_spool := f \<rparr>" by blast
  have "manifest_written P args (ucast seq) dev u (resolved mfs) (ij_header job) recs (?mf chs) st'"
    unfolding manifest_written_def
  proof (intro conjI exI [of _ hb'] allI impI)
    fix i assume "i < unat (uc_chunk_count u)"
    then show "now_shows P args (ucast seq) recs dev (unat (uc_chunk_size u)) (pending_chunks u) (resolved mfs i) i
        (state_in (?mf chs) i (resolved mfs i))"
      using mf(3) r(3,4) by (simp add: changes_ok_def)
  qed (use p(1,2) mf(1,2,4) r(5) in simp_all)
  then show ?thesis
    using r(1,6) p(3) mf(4) by (intro exI [of _ recs] exI [of _ "?mf chs"]) (auto simp: delta_def seq_def)
qed

section \<open>The finished image, read back\<close>

text \<open>How \<open>open_chain\<close> opens a file under the keys it was written with.\<close>

definition opens_as :: "prims \<Rightarrow> bytes \<Rightarrow> writer_keys \<Rightarrow> open_member \<Rightarrow> bool" where
  "opens_as P data keys m \<longleftrightarrow> reader_open P data = Inr (om_reader m) \<and> om_superblock m = ir_superblock (om_reader m)
     \<and> om_seq_in_chain m = seq_in_chain (om_superblock m) \<and> om_image_uuid m = image_uuid (om_superblock m)
     \<and> om_kind m = member_kind_of (om_superblock m) \<and> om_chunks m = chunk_reader_with (om_reader m) data
     \<and> ik_data_key (om_keys m) = wk_data_key keys \<and> ik_meta_key (om_keys m) = wk_meta_key keys
     \<and> ik_dedup_key (om_keys m) = wk_dedup_key keys"

lemma opened_member:
  assumes "prims_ok P" "sb_wf sb" "validate_header sb = Inr ()"
    and "written_image P sb mk opts keys pts streams refs ft data recs pgs tpgs" "opens_as P data keys m"
  shows "om_reader m = opened_image P mk sb ft data" "om_superblock m = sb"
proof -
  show r: "om_reader m = opened_image P mk sb ft data"
    using written_opens(1) [OF assms(1-4)] assms(5) by (simp add: opens_as_def)
  show "om_superblock m = sb" using assms(5) by (simp add: opens_as_def r opened_image_def)
qed

lemma opened_member_manifest:
  assumes "prims_ok P" "sb_wf sb" "validate_header sb = Inr ()"
    and "written_image P sb mk opts keys pts [(Manifest, hb @ manifest_layout mf), (Extras, eb)] refs ft data recs pgs tpgs"
    and "opens_as P data keys m" "sb_aead_kind sb = Inr (co_kind opts)" "block_header_wf h"
    and "block_header_write h (\<not> is_entries mf) = Inr hb" "manifest_wf mf" "unat (bm_entry_count h) = manifest_entries mf"
    and "member_kind_of sb = Incremental \<longleftrightarrow> \<not> is_entries mf"
  shows "member_manifest P m h mf"
  using written_member_manifest [OF assms(1,4), of hb mf "[]" h m] opened_member [OF assms(1-5)] assms(5-11)
  by (simp add: opens_as_def)

lemma stored_reads:
  assumes "prims_ok P" "sb_wf sb" "validate_header sb = Inr ()"
    and wi: "written_image P sb mk (ba_options args) (ba_keys args) pts streams refs ft data recs pgs tpgs"
    and "opens_as P data (ba_keys args) m" "stored_in P args recs member e b" "unat member < length ms" "ms ! unat member = m"
    and "length b \<le> unat csz" "sb_image_kind (om_superblock (hd ms)) = Block" "aead = co_kind (ba_options args)"
  shows "chunk_access_read P (access_of ms aead csz) (chunk_state_from e) = Inr b"
proof -
  obtain k where k: "k < length recs" "chunk_stored P (ba_options args) (ba_keys args) Block (take k recs) (recs ! k)
          \<lparr> cref_offset = be_offset e, cref_stored_len = be_stored_len e, cref_hash = be_hash e \<rparr> b"
    using assms(6) by (auto simp: stored_in_def)
  have ok: "hash_ok P" using assms(1) by (simp add: prims_ok_def)
  note om = opened_member [OF assms(1-5)]
  have "read_chunk_record (om_reader m) (word_of_nat (sb_size + length (concat (take k recs)))) = Inr (recs ! k)"
    using wi [unfolded written_image_def] unfolding om(1)
    by (intro chunk_of_finished [OF ok _ written_opens(3) [OF assms(1-3) wi] _ _ k(1)]) (auto simp: opened_image_def)
  moreover have "ir_file (om_reader m) = data" by (simp add: om(1) opened_image_def)
  ultimately have "ckr_read_record (om_chunks m) (be_offset e) = Inr (recs ! k)"
    using k(2) assms(5) chunk_reader_agrees(2) [of "om_reader m"] by (simp add: opens_as_def chunk_stored_def)
  then show ?thesis
    using stored_from [OF assms(6)] k(2) assms(5,7-11)
    by (auto simp: chunk_access_read_def access_of_def chunk_stored_def opens_as_def Let_def)
qed

text \<open>
  \<open>chunk_captured R\<close>: the state \<open>st\<close> of chunk \<open>i\<close> leads back to the bytes the device held, up to \<open>R\<close>; a
  chunk the plan does not name is unused.
\<close>

definition chunk_captured ::
    "(bytes \<Rightarrow> bytes \<Rightarrow> bool) \<Rightarrow> prims \<Rightarrow> bad_sector_policy \<Rightarrow> chunk_access \<Rightarrow> bytes \<Rightarrow> used_chunks \<Rightarrow> nat \<Rightarrow> chunk_state \<Rightarrow> bool" where
  "chunk_captured R P policy acc dev plan i st \<longleftrightarrow>
     (\<exists>r \<in> set (pending_chunks plan). fst r div unat (uc_chunk_size plan) = i
        \<and> (st = Zero \<and> is_all_zero (chunk_bytes dev r)
           \<or> (\<exists>b m h off l. st = Stored m h off l \<and> chunk_access_read P acc st = Inr b \<and> R b (chunk_bytes dev r))
           \<or> policy = Record \<and> st = BadSectorState))
     \<or> st = Unused \<and> (\<forall>r \<in> set (pending_chunks plan). fst r div unat (uc_chunk_size plan) \<noteq> i)"

lemma open_chunk_hash: "open_chunk P kind key dedup ik h n rec = Inr b \<Longrightarrow> content_hash P dedup b = h"
  by (auto simp: open_chunk_def res_bind_eq_Inr Let_def split: if_splits)

lemma now_shows_captured:
  assumes "now_shows P args member recs dev (unat (uc_chunk_size plan)) (pending_chunks plan) parent i st"
    and "\<And>e r. stored_in P args recs member e (chunk_bytes dev r) \<Longrightarrow> r \<in> set (pending_chunks plan) \<Longrightarrow>
           chunk_access_read P acc (chunk_state_from e) = Inr (chunk_bytes dev r)"
    and "\<And>b. R b b"
    and "\<And>m h off l r. parent = Stored m h off l \<Longrightarrow> h = content_hash P (wk_dedup_key (ba_keys args)) (chunk_bytes dev r) \<Longrightarrow>
           \<exists>b. chunk_access_read P acc parent = Inr b \<and> R b (chunk_bytes dev r)"
  shows "chunk_captured R P (ba_on_bad_sector args) acc dev plan i st"
proof -
  consider r where "r \<in> set (pending_chunks plan)" "fst r div unat (uc_chunk_size plan) = i"
        "state_shows P (wk_dedup_key (ba_keys args)) st (chunk_bytes dev r)"
        "st = parent \<or> st = Zero \<or> (\<exists>e. st = chunk_state_from e \<and> stored_in P args recs member e (chunk_bytes dev r))"
    | r where "r \<in> set (pending_chunks plan)" "fst r div unat (uc_chunk_size plan) = i" "ba_on_bad_sector args = Record" "st = BadSectorState"
    | "st = Unused" "\<forall>r \<in> set (pending_chunks plan). fst r div unat (uc_chunk_size plan) \<noteq> i"
    using assms(1) unfolding now_shows_def by blast
  then show ?thesis
  proof cases
    case 1
    show ?thesis
    proof (cases st)
      case (Stored m h off l)
      have h: "h = content_hash P (wk_dedup_key (ba_keys args)) (chunk_bytes dev r)" using 1(3) Stored by (simp add: state_shows_def)
      have "\<exists>b. chunk_access_read P acc st = Inr b \<and> R b (chunk_bytes dev r)"
        using 1(4) assms(2) [OF _ 1(1)] assms(3) assms(4) [OF _ h] Stored by blast
      then show ?thesis using 1(1,2) Stored unfolding chunk_captured_def by blast
    qed (use 1 in \<open>auto simp: chunk_captured_def state_shows_def\<close>)
  qed (unfold chunk_captured_def, blast+)
qed

text \<open>What a backup run brings: a device image, its used extents, an empty temporary file and spool.\<close>

definition backup_job_ok ::
    "'s source_ops \<Rightarrow> backup_args \<Rightarrow> image_job \<Rightarrow> bytes \<Rightarrow> extent_map \<Rightarrow> used_chunks \<Rightarrow> disk_file \<Rightarrow> disk_file \<Rightarrow> bool" where
  "backup_job_ok S args job dev used plan tmp spool \<longleftrightarrow>
     (let sb = ij_superblock job in
      sb_wf sb \<and> validate_header sb = Inr () \<and> sb_image_kind sb = Block
      \<and> sb_aead_kind sb = Inr (co_kind (ba_options args))
      \<and> (co_compress (ba_options args) \<longrightarrow> 1 \<le> co_level (ba_options args) \<and> co_level (ba_options args) \<le> 22)
      \<and> source_shows S dev \<and> length dev = unat (source_size_bytes sb) \<and> length dev \<le> 2 ^ 49
      \<and> used_chunks_new used (ucast (chunk_size sb)) (source_size_bytes sb) = Inr plan
      \<and> (\<forall>r \<in> set (em_extents used). range_ok r \<and> snd r < source_size_bytes sb)
      \<and> block_header_wf (ij_header job) \<and> bm_chunk_size (ij_header job) = chunk_size sb
      \<and> bm_chunk_count (ij_header job) = uc_chunk_count plan \<and> job_extras_fit job
      \<and> (member_kind_of sb = Incremental \<longleftrightarrow> rp_parent (ij_plan job) \<noteq> None \<and> rp_encoding (ij_plan job) = BlockDelta)
      \<and> file_data tmp = [] \<and> sink_limit + footer_size \<le> file_capacity tmp \<and> file_data spool = [] \<and> file_pos spool = 0)"

lemma chunk_size_bounds:
  assumes "validate_header sb = Inr ()"
  shows "262144 \<le> unat (chunk_size sb)" "unat (chunk_size sb) \<le> 4194304"
proof -
  have "min_chunk_size \<le> chunk_size sb" "chunk_size sb \<le> max_chunk_size"
    using assms by (auto simp: validate_header_def is_power_of_two_in_range_def split: if_splits)
  then show "262144 \<le> unat (chunk_size sb)" "unat (chunk_size sb) \<le> 4194304"
    by (simp_all add: word_le_nat_alt min_chunk_size_def max_chunk_size_def)
qed

lemma job_plan:
  assumes "backup_job_ok S args job dev used plan tmp spool" "sb = ij_superblock job"
  shows "plan_ok plan" "uc_chunk_size plan = ucast (chunk_size sb)" "unat (uc_chunk_size plan) = unat (chunk_size sb)"
    and "plan_fits (uc_chunk_size plan) 0 (unat (uc_chunk_count plan)) (pending_chunks plan)"
    and "\<forall>r \<in> set (pending_chunks plan). snd r = min (unat (chunk_size sb)) (length dev - fst r)
          \<and> unat (chunk_size sb) dvd fst r \<and> fst r < length dev"
    and "unat (uc_chunk_count plan) = (length dev + unat (chunk_size sb) - 1) div unat (chunk_size sb)"
    and "unat (uc_chunk_count plan) \<le> 2 ^ 32" "plan_cost (pending_chunks plan) \<le> 2 ^ 56"
proof -
  note j = assms(1) [unfolded backup_job_ok_def Let_def, folded assms(2)]
  have b: "262144 \<le> unat (chunk_size sb)" "unat (chunk_size sb) \<le> 4194304" using chunk_size_bounds j by blast+
  have c: "unat (ucast (chunk_size sb) :: u64) = unat (chunk_size sb)" by simp
  have u: "used_chunks_new used (ucast (chunk_size sb)) (source_size_bytes sb) = Inr plan" "\<forall>r \<in> set (em_extents used). range_ok r \<and> snd r < source_size_bytes sb"
    and d: "unat (source_size_bytes sb) = length dev" "length dev \<le> 2 ^ 49" using j by simp_all
  have lim: "unat (ucast (chunk_size sb) :: u64) < 2 ^ 32" "unat (ucast (chunk_size sb) :: u64) \<le> max_stored_len"
      "unat (source_size_bytes sb) + unat (ucast (chunk_size sb) :: u64) < 2 ^ 64"
    using b d unfolding c by (simp_all add: max_stored_len_eq)
  note ok = plan_ok_new [OF u(1) lim(1,3) u(2)]
  note new = plan_fits_new [OF u(1) lim u(2), unfolded c d(1)]
  show "plan_ok plan" "uc_chunk_size plan = ucast (chunk_size sb)" by (rule ok(1), rule ok(2))
  then show "unat (uc_chunk_size plan) = unat (chunk_size sb)" by (simp add: c)
  show "plan_fits (uc_chunk_size plan) 0 (unat (uc_chunk_count plan)) (pending_chunks plan)" using new(1) by (simp add: ok(2))
  show "\<forall>r \<in> set (pending_chunks plan). snd r = min (unat (chunk_size sb)) (length dev - fst r)
          \<and> unat (chunk_size sb) dvd fst r \<and> fst r < length dev" by (rule new(2))
  show cnt: "unat (uc_chunk_count plan) = (length dev + unat (chunk_size sb) - 1) div unat (chunk_size sb)" by (rule new(3))
  have "(length dev + unat (chunk_size sb) - 1) div unat (chunk_size sb) \<le> (2 ^ 49 + unat (chunk_size sb) - 1) div unat (chunk_size sb)"
    using d(2) by (intro div_le_mono) simp
  also have "\<dots> \<le> (2 ^ 49 + 2 ^ 22) div 262144" using b by (intro order_trans [OF div_le_mono2 div_le_mono]) simp_all
  finally show "unat (uc_chunk_count plan) \<le> 2 ^ 32" using cnt by simp
  show "plan_cost (pending_chunks plan) \<le> 2 ^ 56" using new(4) d(2) by simp
qed

lemma job_started:
  assumes "prims_ok P" "backup_job_ok S args job dev used plan tmp spool" "sb = ij_superblock job"
  shows "\<exists>w. writer_create P tmp sb (ij_mac_key job) = Inr w
    \<and> backup_ok P args (sb_image P sb (ij_mac_key job)) [] (2 ^ 62 + plan_cost (pending_chunks plan))
        \<lparr> bs_source = src, bs_writer = w, bs_nonces = nonce_seq_new, bs_spool = spool \<rparr>
    \<and> spool_holds [] \<lparr> bs_source = src, bs_writer = w, bs_nonces = nonce_seq_new, bs_spool = spool \<rparr>"
proof -
  note j = assms(2) [unfolded backup_job_ok_def Let_def, folded assms(3)]
  have ok: "hash_ok P" using assms(1) by (simp add: prims_ok_def)
  obtain w where w: "writer_create P tmp sb (ij_mac_key job) = Inr w" "writer_holds (sb_image P sb (ij_mac_key job)) [] [] w"
      "iw_meta_nonces w = 0"
    using writer_create_holds [OF ok, of sb tmp "ij_mac_key job"] j by blast
  have "writer_size w = 4096"
    using w(2) by (simp add: writer_holds_def writer_size_def image_body_def sb_size_def)
  then show ?thesis
    using w j job_plan(8) [OF assms(2,3)]
    by (simp add: backup_ok_def recs_stored_def spool_holds_def sink_limit_def nonce_seq_new_def)
qed

text \<open>The manifest stream has no empty page, so a reader that takes an empty read for the end sees all of it.\<close>

definition manifest_pages :: "prims \<Rightarrow> open_member \<Rightarrow> bool" where
  "manifest_pages P m \<longleftrightarrow> (\<exists>st. manifest_stream P m = Inr st \<and> pages_nonempty P st)"

lemma opened_member_pages:
  assumes "prims_ok P" "sb_wf sb" "validate_header sb = Inr ()"
    and "written_image P sb mk opts keys pts [(Manifest, mb), (Extras, eb)] refs ft data recs pgs tpgs"
    and "opens_as P data keys m" "sb_aead_kind sb = Inr (co_kind opts)"
  shows "manifest_pages P m"
  using written_stream [OF assms(1,4), of Manifest mb] opened_member [OF assms(1-5)] assms(5,6)
  by (auto simp: manifest_pages_def manifest_stream_def opens_as_def)

lemma job_finished:
  assumes "prims_ok P" "backup_job_ok S args job dev used plan tmp spool" "sb = ij_superblock job"
    and "backup_ok P args (sb_image P sb (ij_mac_key job)) recs (2 ^ 62) st"
    and "manifest_written P args member dev plan parent (ij_header job) recs mf st"
    and "is_entries mf \<longleftrightarrow> rp_parent (ij_plan job) = None \<or> rp_encoding (ij_plan job) \<noteq> BlockDelta"
  shows "\<exists>f ft. finish_block_image P args job (file_data (bs_spool st)) (bs_writer st) = Some (Inr (f, ft))
    \<and> reader_open P (file_data f) = Inr (opened_image P (ij_mac_key job) sb ft (file_data f))
    \<and> reader_authenticate P (opened_image P (ij_mac_key job) sb ft (file_data f)) (ij_mac_key job) = Inr ()
    \<and> (\<forall>m. opens_as P (file_data f) (ba_keys args) m \<longrightarrow> om_superblock m = sb \<and> manifest_pages P m
        \<and> (\<exists>h. member_manifest P m h mf \<and> bm_chunk_count h = uc_chunk_count plan \<and> bm_chunk_size h = chunk_size sb)
        \<and> (\<forall>e r ms. stored_in P args recs member e (chunk_bytes dev r) \<longrightarrow> r \<in> set (pending_chunks plan) \<longrightarrow>
             unat member < length ms \<longrightarrow> ms ! unat member = m \<longrightarrow> sb_image_kind (om_superblock (hd ms)) = Block \<longrightarrow>
             chunk_access_read P (access_of ms (co_kind (ba_options args)) (chunk_size sb)) (chunk_state_from e) = Inr (chunk_bytes dev r)))"
proof -
  note j = assms(2) [unfolded backup_job_ok_def Let_def, folded assms(3)]
  obtain hb where hb: "block_header_write (ij_header job\<lparr> bm_entry_count := word_of_nat (manifest_entries mf) \<rparr>) (\<not> is_entries mf) = Inr hb"
      "file_data (bs_spool st) = hb @ manifest_layout mf" and mf: "manifest_wf mf" "covers_chunks 0 (unat (uc_chunk_count plan)) mf"
    using assms(5) by (auto simp: manifest_written_def spool_holds_def)
  have n: "manifest_entries mf \<le> unat (uc_chunk_count plan)"
  proof (cases mf)
    case (Deltas ds)
    have "sorted_wrt (<) (map (\<lambda>d. unat (de_chunk_no d)) ds)"
      using mf(2) Deltas by (simp add: sorted_wrt_map word_less_nat_alt)
    then have "distinct (map (\<lambda>d. unat (de_chunk_no d)) ds)" by (simp add: strict_sorted_iff)
    moreover have "set (map (\<lambda>d. unat (de_chunk_no d)) ds) \<subseteq> {0..<unat (uc_chunk_count plan)}" using mf(2) Deltas by auto
    ultimately have "length (map (\<lambda>d. unat (de_chunk_no d)) ds) \<le> card {0..<unat (uc_chunk_count plan)}"
      using distinct_card [of "map (\<lambda>d. unat (de_chunk_no d)) ds"] card_mono [OF finite_atLeastLessThan] by metis
    then show ?thesis using Deltas by simp
  qed (use mf(2) in simp)
  have nb: "manifest_entries mf \<le> 2 ^ 32" using n job_plan(7) [OF assms(2,3)] by simp
  have len: "length (file_data (bs_spool st)) \<le> 2 ^ 38" "file_data (bs_spool st) \<noteq> []"
    using hb header_length [OF hb(1)] manifest_layout_len [OF mf(1)] nb header_patched [OF hb(1) refl, of 0 "[]"] by auto
  have size: "writer_size (bs_writer st) < 2 ^ 62 + 4096" using assms(4) by (simp add: backup_ok_def sink_limit_def)
  obtain f ft pts refs pgs tpgs where fin: "finish_block_image P args job (file_data (bs_spool st)) (bs_writer st) = Some (Inr (f, ft))"
    and wi: "written_image P sb (ij_mac_key job) (ba_options args) (ba_keys args) pts
        [(Manifest, hb @ manifest_layout mf), (Extras, extras_bytes job)] refs ft (file_data f) recs pgs tpgs"
    using finish_block_image_ok [OF assms(1,4) assms(3) [symmetric] refl, of "file_data (bs_spool st)"] j len size unfolding hb(2) by blast
  have sb: "sb_wf sb" "validate_header sb = Inr ()" using j by simp_all
  have mem: "om_superblock m = sb \<and> manifest_pages P m
        \<and> (\<exists>h. member_manifest P m h mf \<and> bm_chunk_count h = uc_chunk_count plan \<and> bm_chunk_size h = chunk_size sb)
        \<and> (\<forall>e r ms. stored_in P args recs member e (chunk_bytes dev r) \<longrightarrow> r \<in> set (pending_chunks plan) \<longrightarrow>
             unat member < length ms \<longrightarrow> ms ! unat member = m \<longrightarrow> sb_image_kind (om_superblock (hd ms)) = Block \<longrightarrow>
             chunk_access_read P (access_of ms (co_kind (ba_options args)) (chunk_size sb)) (chunk_state_from e) = Inr (chunk_bytes dev r))"
    if m: "opens_as P (file_data f) (ba_keys args) m" for m
  proof (intro conjI allI impI)
    show "om_superblock m = sb" by (rule opened_member(2) [OF assms(1) sb wi m])
    show "manifest_pages P m" using opened_member_pages [OF assms(1) sb wi m] j by blast
    define h where "h = ij_header job\<lparr> bm_entry_count := word_of_nat (manifest_entries mf) \<rparr>"
    have "unat (word_of_nat (manifest_entries mf) :: u64) = manifest_entries mf" using nb by (intro unat_of_nat_u64) simp
    then have "member_manifest P m h mf"
      using j hb(1) mf(1) assms(6)
      by (intro opened_member_manifest [OF assms(1) sb wi m]) (auto simp: h_def block_header_wf_def)
    then show "\<exists>h. member_manifest P m h mf \<and> bm_chunk_count h = uc_chunk_count plan \<and> bm_chunk_size h = chunk_size sb"
      using j by (intro exI [of _ h]) (simp add: h_def)
    fix e r ms
    assume a: "stored_in P args recs member e (chunk_bytes dev r)" "r \<in> set (pending_chunks plan)"
      "unat member < length ms" "ms ! unat member = m" "sb_image_kind (om_superblock (hd ms)) = Block"
    have "length (chunk_bytes dev r) \<le> unat (chunk_size sb)"
      using job_plan(5) [OF assms(2,3)] a(2) by (auto simp: chunk_bytes_def slice_def)
    then show "chunk_access_read P (access_of ms (co_kind (ba_options args)) (chunk_size sb)) (chunk_state_from e) = Inr (chunk_bytes dev r)"
      using stored_reads [OF assms(1) sb wi m a(1,3,4)] a(5) by simp
  qed
  show ?thesis
    by (intro exI [of _ f] exI [of _ ft] conjI fin written_opens(1,2) [OF assms(1) sb wi] allI impI mem)
qed

section \<open>Images as members of chains\<close>

lemma member_manifest_header:
  assumes "member_manifest P m h mf"
  shows "\<exists>st st'. manifest_stream P m = Inr st \<and> block_header_read (page_read_bytes P) st = Inr ((h, \<not> is_entries mf), st')"
proof -
  obtain st hb rest where st: "manifest_stream P m = Inr st" "pages_ok P st" "block_header_wf h"
      "block_header_write h (\<not> is_entries mf) = Inr hb" "page_remaining P st = hb @ manifest_layout mf @ rest"
    using assms by (auto simp: member_manifest_def)
  have dec: "decodes (page_remaining P) (pages_ok P) (block_header_read (page_read_bytes P)) hb (h, \<not> is_entries mf)"
    by (rule page_src.block_header_decodes [OF st(3,4)])
  show ?thesis using decodesD [OF dec st(2,5)] st(1) by blast
qed

lemma write_block_image_runs:
  assumes "writer_create P tmp (ij_superblock job) (ij_mac_key job) = Inr w"
    and "write_entries P S args open_parent job plan
        \<lparr> bs_source = src, bs_writer = w, bs_nonces = nonce_seq_new, bs_spool = spool \<rparr> = Some (z, st)"
  obtains (failed) e where "write_block_image P S args open_parent job plan tmp spool src = Some (Inl e)"
    | (finished) c where "z = Inr c" "write_block_image P S args open_parent job plan tmp spool src
        = map_option (\<lambda>r. res_bind r (\<lambda>(f, ft). Inr (c, f, ft))) (finish_block_image P args job (file_data (bs_spool st)) (bs_writer st))"
  using assms unfolding write_block_image_def
  by (cases z; cases "fst (so_check_final_health S (bs_source st))") simp_all

text \<open>A full image is a chain of its own, and every walk over it sees the device.\<close>

definition walk_of :: "used_chunks \<Rightarrow> superblock \<Rightarrow> open_member list \<Rightarrow> chain_walk" where
  "walk_of plan sb ms = \<lparr> cw_members = ms, cw_chunk_count = uc_chunk_count plan, cw_chunk_size = chunk_size sb \<rparr>"

definition chain_captures ::
    "(bytes \<Rightarrow> bytes \<Rightarrow> bool) \<Rightarrow> prims \<Rightarrow> backup_args \<Rightarrow> superblock \<Rightarrow> bytes \<Rightarrow> used_chunks \<Rightarrow> open_member list \<Rightarrow> manifest list \<Rightarrow> bool" where
  "chain_captures R P args sb dev plan ms mfs \<longleftrightarrow> chain_manifests P (walk_of plan sb ms) mfs
     \<and> chain_covers (unat (uc_chunk_count plan)) mfs
     \<and> (\<forall>i < unat (uc_chunk_count plan). chunk_captured R P (ba_on_bad_sector args)
          (access_of ms (co_kind (ba_options args)) (chunk_size sb)) dev plan i (resolved mfs i))"

definition image_opens :: "prims \<Rightarrow> bytes option \<Rightarrow> bytes \<Rightarrow> bool" where
  "image_opens P mk data \<longleftrightarrow> (\<exists>r. reader_open P data = Inr r \<and> reader_authenticate P r mk = Inr ())"

lemma full_image_chain:
  assumes "prims_ok P" "backup_job_ok S args job dev used plan tmp spool" "sb = ij_superblock job"
    and "rp_parent (ij_plan job) = None" "seq_in_chain sb = 0"
  shows "\<exists>q. write_block_image P S args open_parent job plan tmp spool src = Some q \<and> (\<forall>cnt f ft. q = Inr (cnt, f, ft) \<longrightarrow>
    image_opens P (ij_mac_key job) (file_data f)
    \<and> (\<forall>m. opens_as P (file_data f) (ba_keys args) m \<longrightarrow> om_superblock m = sb \<and>
        manifest_pages P m \<and> chain_walk_new P [m] = Inr (walk_of plan sb [m]) \<and> (\<exists>mf. chain_captures (=) P args sb dev plan [m] [mf])))"
proof -
  note j = assms(2) [unfolded backup_job_ok_def Let_def, folded assms(3)]
  note pl = job_plan [OF assms(2,3)]
  obtain w where w: "writer_create P tmp sb (ij_mac_key job) = Inr w"
      "backup_ok P args (sb_image P sb (ij_mac_key job)) [] (2 ^ 62 + plan_cost (pending_chunks plan))
        \<lparr> bs_source = src, bs_writer = w, bs_nonces = nonce_seq_new, bs_spool = spool \<rparr>"
      "spool_holds [] \<lparr> bs_source = src, bs_writer = w, bs_nonces = nonce_seq_new, bs_spool = spool \<rparr>"
    using job_started [OF assms(1-3), of src] by (elim exE conjE)
  have lv: "co_compress (ba_options args) \<longrightarrow> 1 \<le> co_level (ba_options args) \<and> co_level (ba_options args) \<le> 22" and ss: "source_shows S dev"
    using j by blast+
  obtain z st where q0: "write_entries P S args open_parent job plan
        \<lparr> bs_source = src, bs_writer = w, bs_nonces = nonce_seq_new, bs_spool = spool \<rparr> = Some (z, st)"
      "\<And>cnt st'. (z, st) = (Inr cnt, st') \<Longrightarrow> \<exists>recs mf. backup_ok P args (sb_image P sb (ij_mac_key job)) recs (2 ^ 62) st'
         \<and> manifest_written P args 0 dev plan (\<lambda>_. Unused) (ij_header job) recs mf st' \<and> is_entries mf"
    using write_entries_full [OF assms(1) lv ss pl(1,4) w(2,3) assms(4) pl(7), of open_parent] by (metis surj_pair)
  from w(1) [unfolded assms(3)] q0(1) show ?thesis
  proof (cases rule: write_block_image_runs)
    case (failed e)
    then show ?thesis by simp
  next
    case (finished cnt)
    obtain recs mf where mf: "backup_ok P args (sb_image P sb (ij_mac_key job)) recs (2 ^ 62) st"
        "manifest_written P args 0 dev plan (\<lambda>_. Unused) (ij_header job) recs mf st" "is_entries mf"
      using q0(2) [of cnt st] finished(1) by blast
    have en: "is_entries mf \<longleftrightarrow> rp_parent (ij_plan job) = None \<or> rp_encoding (ij_plan job) \<noteq> BlockDelta" using mf(3) assms(4) by simp
    obtain f ft where f: "finish_block_image P args job (file_data (bs_spool st)) (bs_writer st) = Some (Inr (f, ft))"
        "image_opens P (ij_mac_key job) (file_data f)"
        "\<And>m. opens_as P (file_data f) (ba_keys args) m \<Longrightarrow> om_superblock m = sb \<and> manifest_pages P m
          \<and> (\<exists>h. member_manifest P m h mf \<and> bm_chunk_count h = uc_chunk_count plan \<and> bm_chunk_size h = chunk_size sb)
          \<and> (\<forall>e r ms. stored_in P args recs 0 e (chunk_bytes dev r) \<longrightarrow> r \<in> set (pending_chunks plan) \<longrightarrow>
             unat (0 :: u16) < length ms \<longrightarrow> ms ! unat (0 :: u16) = m \<longrightarrow> sb_image_kind (om_superblock (hd ms)) = Block \<longrightarrow>
             chunk_access_read P (access_of ms (co_kind (ba_options args)) (chunk_size sb)) (chunk_state_from e) = Inr (chunk_bytes dev r))"
      using job_finished [OF assms(1-3) mf(1,2) en] unfolding image_opens_def by blast
    have chain: "om_superblock m = sb \<and> manifest_pages P m \<and> chain_walk_new P [m] = Inr (walk_of plan sb [m])
        \<and> (\<exists>mf. chain_captures (=) P args sb dev plan [m] [mf])"
      if m: "opens_as P (file_data f) (ba_keys args) m" for m
    proof (intro conjI exI [of _ mf])
      note fm = f(3) [OF m]
      show sb: "om_superblock m = sb" and "manifest_pages P m" using fm by blast+
      obtain h where h: "member_manifest P m h mf" "bm_chunk_count h = uc_chunk_count plan" "bm_chunk_size h = chunk_size sb"
        using fm by blast
      have "linked [m]"
        using m sb assms(5) by (simp add: linked_def opens_as_def member_kind_of_def u32_of_index_def disagrees_def)
      then show "chain_walk_new P [m] = Inr (walk_of plan sb [m])"
        using member_manifest_header [OF h(1)] h(2) sb by (auto simp: chain_walk_new_iff walk_of_def)
      have "chunk_captured (=) P (ba_on_bad_sector args) (access_of [m] (co_kind (ba_options args)) (chunk_size sb)) dev plan i (resolved [mf] i)"
        if i: "i < unat (uc_chunk_count plan)" for i
      proof -
        have "now_shows P args 0 recs dev (unat (uc_chunk_size plan)) (pending_chunks plan) Unused i (resolved [mf] i)"
          using mf(2) i by (simp add: manifest_written_def resolved_def)
        then show ?thesis using fm sb j by (intro now_shows_captured) auto
      qed
      then show "chain_captures (=) P args sb dev plan [m] [mf]"
        using h mf(2,3) by (auto simp: chain_captures_def chain_manifests_def walk_of_def chain_covers_def manifest_written_def)
    qed
    have "write_block_image P S args open_parent job plan tmp spool src = Some (Inr (cnt, f, ft))"
      using finished(2) f(1) by simp
    then show ?thesis using f(2) chain by (intro exI [of _ "Inr (cnt, f, ft)"]) auto
  qed
qed

text \<open>A later member extends the chain of its parent.\<close>

lemma insort_key_snoc: "f y \<le> f x \<Longrightarrow> insort_key f y (zs @ [x]) = insort_key f y zs @ [x]"
  by (induction zs) auto

lemma sort_key_snoc: "\<forall>y \<in> set ys. f y \<le> f x \<Longrightarrow> sort_key f (ys @ [x]) = sort_key f ys @ [x]"
  by (induction ys) (simp_all add: insort_key_snoc)

lemma access_extends:
  assumes "chunk_access_read P (access_of ms aead csz) st = Inr b" "ms \<noteq> []"
  shows "chunk_access_read P (access_of (ms @ [m]) aead csz) st = Inr b"
  using assms by (auto simp: chunk_access_read_def access_of_def Let_def nth_append split: chunk_state.splits if_splits)

lemma access_hash:
  assumes "chunk_access_read P (access_of ms aead csz) (Stored mem h off l) = Inr b" "\<forall>x \<in> set ms. ik_dedup_key (om_keys x) = dk"
  shows "content_hash P dk b = h"
  using assms open_chunk_hash
  by (fastforce simp: chunk_access_read_def access_of_def Let_def res_bind_eq_Inr split: if_splits)

lemma covers_same: "chain_covers a mfs \<Longrightarrow> chain_covers b mfs \<Longrightarrow> mfs \<noteq> [] \<Longrightarrow> a = b"
  by (cases mfs; cases "hd mfs") (auto simp: chain_covers_def)

lemma resolved_snoc: "resolved (mfs @ [mf]) i = state_in mf i (resolved mfs i)"
  by (simp add: resolved_def)

definition same_hash :: "prims \<Rightarrow> backup_args \<Rightarrow> bytes \<Rightarrow> bytes \<Rightarrow> bool" where
  "same_hash P args b b' \<longleftrightarrow> content_hash P (wk_dedup_key (ba_keys args)) b = content_hash P (wk_dedup_key (ba_keys args)) b'"

lemma linked_chain:
  assumes "chain_walk_new P (ms @ [m]) = Inr w'" "chain_walk_new P ms = Inr w" "unat (om_seq_in_chain m) = length ms" "length ms < 2 ^ 16"
  shows "cw_members w' = cw_members w @ [m]" "\<not> disagrees (om_superblock m) (om_superblock (hd (cw_members w)))"
    and "cw_chunk_count w' = cw_chunk_count w" "cw_chunk_size w' = cw_chunk_size w" "length (cw_members w) = length ms" "ms \<noteq> []"
proof -
  let ?s = "sort_key om_seq_in_chain ms"
  have w: "linked ?s" "cw_members w = ?s" using assms(2) by (auto simp: chain_walk_new_iff Let_def)
  have le: "om_seq_in_chain x \<le> om_seq_in_chain m" if "x \<in> set ms" for x
  proof -
    obtain i where i: "i < length ?s" "?s ! i = x" using \<open>x \<in> set ms\<close> by (metis in_set_conv_nth set_sort)
    then have "om_seq_in_chain x = word_of_nat i" "i < 2 ^ 32"
      using w(1) assms(4) by (auto simp: linked_def u32_of_index_def)
    then show ?thesis using i assms(3) by (simp add: word_le_nat_alt unat_of_nat_u32)
  qed
  have srt: "sort_key om_seq_in_chain (ms @ [m]) = ?s @ [m]" using le by (simp add: sort_key_snoc)
  have ne: "?s \<noteq> []" using w(1) by (simp add: linked_def)
  have w': "linked (?s @ [m])" "cw_members w' = ?s @ [m]"
    using assms(1) unfolding chain_walk_new_iff Let_def srt by auto
  show "cw_members w' = cw_members w @ [m]" "length (cw_members w) = length ms" "ms \<noteq> []"
    using w w' ne by (simp_all, metis length_0_conv length_sort)
  show "\<not> disagrees (om_superblock m) (om_superblock (hd (cw_members w)))"
    using w'(1) w(2) ne unfolding linked_def by (metis hd_append length_append_singleton lessI nth_append_length)
  show "cw_chunk_count w' = cw_chunk_count w" "cw_chunk_size w' = cw_chunk_size w"
    using assms(1,2) ne unfolding chain_walk_new_iff Let_def srt by auto
qed

lemma extended_captures:
  assumes "chain_captures R0 P args0 sb0 dev0 plan0 ms mfs" "co_kind (ba_options args0) = co_kind (ba_options args)"
    and "\<forall>x \<in> set ms. ik_dedup_key (om_keys x) = wk_dedup_key (ba_keys args)" "chunk_size sb = chunk_size sb0"
    and "sb_image_kind (om_superblock (hd ms)) = Block" "unat member = length ms"
    and "manifest_written P args member dev plan (resolved mfs) h0 recs mf st" "chain_covers (unat (uc_chunk_count plan)) mfs"
    and "member_manifest P m h mf" "bm_chunk_count h = uc_chunk_count plan" "bm_chunk_size h = chunk_size sb"
    and "\<And>e r ms. stored_in P args recs member e (chunk_bytes dev r) \<Longrightarrow> r \<in> set (pending_chunks plan) \<Longrightarrow>
             unat member < length ms \<Longrightarrow> ms ! unat member = m \<Longrightarrow> sb_image_kind (om_superblock (hd ms)) = Block \<Longrightarrow>
             chunk_access_read P (access_of ms (co_kind (ba_options args)) (chunk_size sb)) (chunk_state_from e) = Inr (chunk_bytes dev r)"
  shows "chain_captures (same_hash P args) P args sb dev plan (ms @ [m]) (mfs @ [mf])"
proof -
  note c0 = assms(1) [unfolded chain_captures_def walk_of_def]
  have ne: "ms \<noteq> []" "mfs \<noteq> []" using c0 by (auto simp: chain_manifests_def)
  have cnt: "uc_chunk_count plan0 = uc_chunk_count plan"
    using covers_same [OF _ assms(8) ne(2)] c0 by (simp add: word_unat_eq_iff)
  have man: "chain_manifests P (walk_of plan sb (ms @ [m])) (mfs @ [mf])"
    using c0 assms(4,9-11) cnt by (auto simp: chain_manifests_def walk_of_def intro!: list_all2_appendI)
  have cov: "chain_covers (unat (uc_chunk_count plan)) (mfs @ [mf])"
    using assms(7,8) ne(2) by (simp add: chain_covers_def manifest_written_def)
  let ?acc = "access_of (ms @ [m]) (co_kind (ba_options args)) (chunk_size sb)"
  have "chunk_captured (same_hash P args) P (ba_on_bad_sector args) ?acc dev plan i (resolved (mfs @ [mf]) i)"
    if i: "i < unat (uc_chunk_count plan)" for i
  proof (rule now_shows_captured)
    show "now_shows P args member recs dev (unat (uc_chunk_size plan)) (pending_chunks plan) (resolved mfs i) i (resolved (mfs @ [mf]) i)"
      using assms(7) i by (simp add: manifest_written_def resolved_snoc)
    show "same_hash P args b b" for b by (simp add: same_hash_def)
    show "chunk_access_read P ?acc (chunk_state_from e) = Inr (chunk_bytes dev r)"
      if "stored_in P args recs member e (chunk_bytes dev r)" "r \<in> set (pending_chunks plan)" for e r
      using assms(12) [OF that] assms(5,6) ne(1) by (simp add: nth_append)
    fix mem hash off l r
    assume st: "resolved mfs i = Stored mem hash off l" "hash = content_hash P (wk_dedup_key (ba_keys args)) (chunk_bytes dev r)"
    obtain b where b: "chunk_access_read P (access_of ms (co_kind (ba_options args)) (chunk_size sb)) (resolved mfs i) = Inr b"
      using c0 i cnt st(1) assms(2,4) by (fastforce simp: chunk_captured_def)
    have "content_hash P (wk_dedup_key (ba_keys args)) b = hash" using access_hash [OF b [unfolded st(1)] assms(3)] .
    then show "\<exists>b. chunk_access_read P ?acc (resolved mfs i) = Inr b \<and> same_hash P args b (chunk_bytes dev r)"
      using access_extends [OF b ne(1)] st(2) by (auto simp: same_hash_def)
  qed
  then show ?thesis using man cov by (simp add: chain_captures_def)
qed

end
