(* ===== verification/Block_Progress.thy ===== *)
theory Block_Progress
  imports Block_Image
begin

text \<open>
  Progress of the block backup of \<open>crates/lr-engine/src/backup.rs\<close>: with a healthy snapshot and room in the
  image file and the spool, a full backup always completes.  Together with what \<open>Block_Image\<close> shows of the
  image this gives the properties of the backup at the end of this theory.
\<close>

section \<open>A healthy source\<close>

definition healthy :: "'s source_ops \<Rightarrow> bytes \<Rightarrow> bool" where
  "healthy S dev \<longleftrightarrow> (\<forall>s. fst (so_check_health S s) = Inr ()) \<and> (\<forall>s. fst (so_check_final_health S s) = Inr ())
     \<and> (\<forall>off s. fst (so_report S off s) = Inr ())
     \<and> (\<forall>s off n. unat off + n \<le> length dev \<longrightarrow> fst (so_read_at S s off n) = Inr (slice (unat off) (unat off + n) dev))"

abbreviation spool_capacity :: "'s backup_state \<Rightarrow> nat" where
  "spool_capacity st \<equiv> file_capacity (bs_spool st)"

lemma spool_write_runs:
  assumes "spool_holds data st" "length data + length b \<le> spool_capacity st"
  shows "\<exists>st'. spool_write (Inr b) st = (Inr (), st') \<and> spool_capacity st' = spool_capacity st"
  using assms by (simp add: spool_write_def spool_holds_def file_write_all_def)

lemma fill_unused_runs:
  assumes "spool_holds data st" "length data + 46 * n \<le> spool_capacity st"
  shows "\<exists>st'. fill_unused n st = (Inr (), st') \<and> spool_capacity st' = spool_capacity st"
  using assms
proof (induction n arbitrary: data st)
  case (Suc n)
  have l: "length (entry_layout entry_unused) = 46" by (simp add: length_entry_layout)
  obtain st1 where st1: "spool_write (Inr (entry_layout entry_unused)) st = (Inr (), st1)" "spool_capacity st1 = spool_capacity st"
    using spool_write_runs [OF Suc.prems(1), of "entry_layout entry_unused"] Suc.prems(2) l by auto
  from spool_write_ok [OF Suc.prems(1) st1(1)] have "spool_holds (data @ entry_layout entry_unused) st1" by blast
  from Suc.IH [OF this] Suc.prems(2) st1 l show ?case by (simp add: entry_encode_eq)
qed simp

lemma store_bytes_runs:
  assumes "prims_ok P" "co_compress (ba_options args) \<longrightarrow> 1 \<le> co_level (ba_options args) \<and> co_level (ba_options args) \<le> 22"
    and "backup_ok P args sbb recs (n + length b + 36) st" "length b \<le> max_stored_len"
  shows "\<exists>state st'. store_bytes P args 0 parent b st = (Inr state, st') \<and> bs_spool st' = bs_spool st"
proof -
  have w: "writer_holds sbb recs [] (bs_writer st)" "writer_size (bs_writer st) + length b + 35 < sink_limit" "unat (bs_nonces st) < 2 ^ 96"
    using assms(3) by (simp_all add: backup_ok_def)
  from append_chunk_holds [OF assms(1) w(1) assms(4,2) w(3,2), of "ba_keys args" Block]
  obtain ref ns w' where "append_chunk P (ba_options args) (ba_keys args) Block (bs_nonces st) b (bs_writer st) = Inr (ref, ns, w')" by blast
  moreover have "entry_stored 0 h off l = Inr \<lparr> be_state = state_stored, be_member = 0, be_hash = h, be_offset = off, be_stored_len = l \<rparr>" for h off l
    by (simp add: entry_stored_def)
  ultimately show ?thesis by (simp add: store_bytes_def Let_def split: chunk_state.split)
qed

lemma store_chunk_runs:
  assumes "prims_ok P" "co_compress (ba_options args) \<longrightarrow> 1 \<le> co_level (ba_options args) \<and> co_level (ba_options args) \<le> 22"
    and "healthy S dev" "chunk_matches c chunk r" "snd r \<le> max_stored_len" "snd r \<le> ba_buffer_len args" "fst r + snd r \<le> length dev"
    and "backup_ok P args sbb recs (n + snd r + 36) st"
  shows "\<exists>state st'. store_chunk P S args 0 chunk parent st = (Inr state, st') \<and> bs_spool st' = bs_spool st"
proof -
  obtain src1 where h1: "so_check_health S (bs_source st) = (Inr (), src1)"
    using assms(3) by (metis healthy_def prod.collapse)
  define b where "b = slice (fst r) (fst r + snd r) dev"
  have lb: "length b = snd r" using assms(7) by (simp add: b_def)
  have m: "unat (cp_offset chunk) = fst r" "unat (cp_len chunk) = snd r" using assms(4) by (simp_all add: chunk_matches_def)
  have "fst (so_read_at S src1 (cp_offset chunk) (unat (cp_len chunk))) = Inr b"
    using assms(3,7) m by (auto simp: healthy_def b_def)
  then obtain src2 where rd: "so_read_at S src1 (cp_offset chunk) (unat (cp_len chunk)) = (Inr b, src2)" by (metis prod.collapse)
  obtain src3 where h2: "so_check_health S src2 = (Inr (), src3)"
    using assms(3) by (metis healthy_def prod.collapse)
  have "read_chunk (so_read_at S) src1 chunk (ba_buffer_len args) = (Inr b, src2)"
    using rd m lb assms(6) by (simp add: read_chunk_def)
  then have "store_chunk P S args 0 chunk parent st = store_bytes P args 0 parent b (st\<lparr> bs_source := src3 \<rparr>)"
    using h1 h2 by (simp add: store_chunk_def on_source_def)
  then show ?thesis
    using store_bytes_runs [OF assms(1,2), of sbb recs n b "st\<lparr> bs_source := src3 \<rparr>" parent] assms(5,8) lb by auto
qed

lemma full_entry_wf:
  assumes "outcome_shows P args recs 0 Unused b state" "full_entry state c = (e, c')"
  shows "entry_wf e"
  using full_entry_captures [OF assms, of "[]"] by simp

lemma full_step_runs:
  assumes "prims_ok P" "co_compress (ba_options args) \<longrightarrow> 1 \<le> co_level (ba_options args) \<and> co_level (ba_options args) \<le> 22"
    and "source_shows S dev" "healthy S dev" "chunk_matches c chunk r" "snd r \<le> max_stored_len" "snd r \<le> ba_buffer_len args" "fst r + snd r \<le> length dev"
    and "backup_ok P args sbb recs (n + snd r + 36) st" "spool_holds data st" "unat nx \<le> fst r div unat c"
    and "length data + 46 * (Suc (fst r div unat c) - unat nx) \<le> spool_capacity st"
  shows "\<exists>nx' cnt' st'. full_step P S args chunk nx cnt st = (Inr (nx', cnt'), st') \<and> spool_capacity st' = spool_capacity st"
proof -
  obtain src1 where s1: "so_report S (cp_offset chunk) (bs_source st) = (Inr (), src1)"
    using assms(4) by (metis healthy_def prod.collapse)
  let ?st0 = "st\<lparr> bs_source := src1 \<rparr>" and ?k = "unat (cp_index chunk) - unat nx"
  have k: "?k = fst r div unat c - unat nx" using assms(5) by (simp add: chunk_matches_def)
  have cap: "length data + 46 * ?k + 46 \<le> spool_capacity st" using assms(11,12) k by (simp add: Suc_diff_le)
  obtain st1 where f: "fill_unused ?k ?st0 = (Inr (), st1)" "spool_capacity st1 = spool_capacity st"
    using fill_unused_runs [of data ?st0 ?k] assms(10) cap by auto
  have st1: "spool_holds (data @ layouts (replicate ?k entry_unused)) st1" "backup_ok P args sbb recs (n + snd r + 36) st1"
    using fill_unused_ok [OF _ f(1), of data] assms(9,10) by (auto simp: layouts_def)
  obtain state st2 where sc: "store_chunk P S args 0 chunk Unused st1 = (Inr state, st2)" "bs_spool st2 = bs_spool st1"
    using store_chunk_runs [OF assms(1,2,4-8) st1(2)] by blast
  obtain e cnt1 where fe: "full_entry state cnt = (e, cnt1)" by fastforce
  obtain recs' where "outcome_shows P args (recs @ recs') 0 Unused (chunk_bytes dev r) state"
    using store_chunk_shows [OF assms(1-3,5,6) st1(2) sc(1)] by blast
  then have ewf: "entry_wf e" using full_entry_wf fe by blast
  have sp: "spool_holds (data @ layouts (replicate ?k entry_unused)) st2" using st1(1) sc(2) by (simp add: spool_holds_def)
  have "length (layouts (replicate ?k entry_unused)) = 46 * ?k" by (subst length_entries) simp_all
  then have "length (data @ layouts (replicate ?k entry_unused)) + length (entry_layout e) \<le> spool_capacity st2"
    using cap f(2) sc(2) length_entry_layout [OF ewf] by simp
  from spool_write_runs [OF sp this] obtain st3 where st3: "spool_write (Inr (entry_layout e)) st2 = (Inr (), st3)"
      "spool_capacity st3 = spool_capacity st2" by blast
  have "full_step P S args chunk nx cnt st = (Inr (cp_index chunk + 1, cnt1\<lparr> n_visited := n_visited cnt1 + 1 \<rparr>), st3)"
    using s1 f(1) sc(1) fe ewf st3(1) by (simp add: full_step_def on_source_def entry_encode_eq)
  then show ?thesis using f(2) sc(2) st3(2) by simp
qed

lemma full_loop_runs:
  assumes "prims_ok P" "co_compress (ba_options args) \<longrightarrow> 1 \<le> co_level (ba_options args) \<and> co_level (ba_options args) \<le> 22"
    and "source_shows S dev" "healthy S dev" "k < 2 ^ 64"
    and "plan_ok u" "uc_chunk_size u = c" "pending_chunks u = rs" "plan_fits c (length es) k rs"
    and "\<forall>r \<in> set rs. snd r \<le> ba_buffer_len args \<and> fst r + snd r \<le> length dev"
    and "backup_ok P args sbb recs (n + plan_cost rs) st" "spool_holds (data @ layouts es) st"
    and "entries_show P args recs dev (unat c) before es" "\<forall>q \<in> set before. fst q div unat c < length es" "unat nx = length es"
    and "length data + 46 * max k (length es) \<le> spool_capacity st"
  shows "\<exists>nx' cnt' st'. full_entries_loop P S args u nx cnt st = Some (Inr (nx', cnt'), st') \<and> spool_capacity st' = spool_capacity st"
  using assms(6-16)
proof (induction rs arbitrary: u es recs before nx cnt st)
  case Nil
  then have "next_chunk u = (None, snd (next_chunk u))"
    using next_chunk_pending [OF Nil(1)] by (auto split: prod.splits option.splits)
  then have "full_entries_loop P S args u nx cnt st = Some (Inr (nx, cnt), st)"
    by (subst full_entries_loop.simps) (metis (no_types, lifting) case_prod_conv option.simps(4))
  then show ?case by simp
next
  case (Cons r rs)
  obtain chunk u' where nc: "next_chunk u = (Some chunk, u')" "plan_ok u'" "uc_chunk_size u' = c"
      "chunk_matches c chunk r" "pending_chunks u' = rs"
    using next_chunk_pending [OF Cons.prems(1)] Cons.prems(2,3) by (auto split: prod.splits option.splits)
  have r: "snd r \<le> max_stored_len" "length es \<le> fst r div unat c" "fst r div unat c < k" "snd r \<le> ba_buffer_len args" "fst r + snd r \<le> length dev"
    and later: "\<forall>q \<in> set rs. fst r div unat c < fst q div unat c"
    using Cons.prems(4,5) by (auto simp: plan_fits_def)
  have room: "backup_ok P args sbb recs ((n + plan_cost rs) + snd r + 36) st"
    using Cons.prems(6) by (simp add: plan_cost_def algebra_simps)
  have "length (layouts es) = 46 * length es"
    using Cons.prems(8) by (intro length_entries) (auto simp: entries_show_def in_set_conv_nth)
  then have cap: "length (data @ layouts es) + 46 * (Suc (fst r div unat c) - unat nx) \<le> spool_capacity st"
    using Cons.prems(10,11) r(2,3) by simp
  obtain nx1 cnt1 st1 where step: "full_step P S args chunk nx cnt st = (Inr (nx1, cnt1), st1)" "spool_capacity st1 = spool_capacity st"
    using full_step_runs [OF assms(1-4) nc(4) r(1,4,5) room Cons.prems(7) _ cap, of cnt] Cons.prems(10) r(2) by auto
  obtain recs1 es1 where s1: "backup_ok P args sbb (recs @ recs1) (n + plan_cost rs) st1" "spool_holds (data @ layouts es1) st1"
      "entries_show P args (recs @ recs1) dev (unat c) (before @ [r]) es1" "length es1 = Suc (fst r div unat c)"
      "nx1 = cp_index chunk + 1"
    using full_step_ok [OF assms(1-3) nc(4) r(1) room Cons.prems(7-10) r(2) step(1)] by blast
  have nx1: "unat nx1 = length es1"
    using s1(4,5) nc(4) r(3) assms(5) unat_Suc_u64 [of "cp_index chunk" k] by (simp add: chunk_matches_def)
  have "full_entries_loop P S args u nx cnt st = full_entries_loop P S args u' nx1 cnt1 st1"
    by (subst full_entries_loop.simps) (simp add: nc(1) step)
  moreover have "plan_fits c (length es1) k rs" "\<forall>q \<in> set (before @ [r]). fst q div unat c < length es1"
    using Cons.prems(4,9) later s1(4) r(2) by (auto simp: plan_fits_def Suc_le_eq)
  moreover have "length data + 46 * max k (length es1) \<le> spool_capacity st1" using Cons.prems(11) s1(4) r(3) step(2) by simp
  moreover have "\<forall>r \<in> set rs. snd r \<le> ba_buffer_len args \<and> fst r + snd r \<le> length dev" using Cons.prems(5) by simp
  ultimately show ?case
    using Cons.IH [OF nc(2,3,5) _ _ s1(1,2,3) _ nx1, of cnt1] step(2) by simp
qed

lemma write_full_entries_runs:
  assumes "prims_ok P" "co_compress (ba_options args) \<longrightarrow> 1 \<le> co_level (ba_options args) \<and> co_level (ba_options args) \<le> 22"
    and "source_shows S dev" "healthy S dev" "plan_ok u" "plan_fits (uc_chunk_size u) 0 (unat chunk_count) (pending_chunks u)"
    and "\<forall>r \<in> set (pending_chunks u). snd r \<le> ba_buffer_len args \<and> fst r + snd r \<le> length dev"
    and "backup_ok P args sbb [] (n + plan_cost (pending_chunks u)) st" "spool_holds data st"
    and "length data + 46 * unat chunk_count \<le> spool_capacity st"
  shows "\<exists>cnt st'. write_full_entries P S args u chunk_count st = Some (Inr cnt, st') \<and> spool_capacity st' = spool_capacity st"
proof -
  have p: "unat chunk_count < 2 ^ 64" "plan_fits (uc_chunk_size u) (length ([] :: block_entry list)) (unat chunk_count) (pending_chunks u)"
      "spool_holds (data @ layouts []) st" "entries_show P args [] dev (unat (uc_chunk_size u)) [] []"
      "\<forall>q \<in> set []. fst q div unat (uc_chunk_size u) < length ([] :: block_entry list)" "unat (0 :: u64) = length ([] :: block_entry list)"
      "length data + 46 * max (unat chunk_count) (length ([] :: block_entry list)) \<le> spool_capacity st"
    using assms(6,9,10) by (simp_all add: entries_show_def layouts_def)
  obtain nx cnt st1 where l: "full_entries_loop P S args u 0 counts_default st = Some (Inr (nx, cnt), st1)" "spool_capacity st1 = spool_capacity st"
    using full_loop_runs [OF assms(1-4) p(1) assms(5) refl refl p(2) assms(7,8) p(3-7), of counts_default] by blast
  obtain es' where es: "spool_holds (data @ layouts es') st1" "unat nx = length es'" "length es' \<le> unat chunk_count" "length (layouts es') = 46 * length es'"
  proof -
    from full_loop_ok [OF assms(1-3) p(1) assms(5) refl refl p(2) assms(8) p(3-6), of counts_default] l(1)
    obtain recs' es' where "spool_holds (data @ layouts es') st1" "entries_show P args recs' dev (unat (uc_chunk_size u)) (pending_chunks u) es'"
        "unat nx = length es'" "length es' \<le> unat chunk_count \<or> es' = []" by auto
    moreover from this(2) have "length (layouts es') = 46 * length es'"
      by (intro length_entries) (auto simp: entries_show_def in_set_conv_nth)
    ultimately show thesis using that by auto
  qed
  have "length (data @ layouts es') + 46 * (unat chunk_count - unat nx) \<le> spool_capacity st1" using es assms(10) l(2) by simp
  from fill_unused_runs [OF es(1) this] l show ?thesis by (auto simp: write_full_entries_def)
qed

section \<open>The whole image\<close>

lemma spool_patch_runs:
  assumes "spool_holds data st" "24 \<le> spool_capacity st"
  shows "\<exists>st'. spool_patch 0 n st = (Inr (), st')"
  using assms by (simp add: spool_patch_def patch_entry_count_def file_write_all_def file_seek_def Let_def)

lemma full_backup_runs:
  assumes "prims_ok P" "backup_job_ok S args job dev used plan tmp spool" "sb = ij_superblock job"
    and "rp_parent (ij_plan job) = None" "healthy S dev" "unat (chunk_size sb) \<le> ba_buffer_len args"
    and "block_header_write (ij_header job) False = Inr hb" "2 ^ 38 \<le> file_capacity spool"
  shows "\<exists>cnt f ft. write_block_image P S args open_parent job plan tmp spool src = Some (Inr (cnt, f, ft))"
proof -
  note j = assms(2) [unfolded backup_job_ok_def Let_def, folded assms(3)]
  note pl = job_plan [OF assms(2,3)]
  let ?st0 = "\<lambda>w. \<lparr> bs_source = src, bs_writer = w, bs_nonces = nonce_seq_new, bs_spool = spool \<rparr>"
  obtain w where w: "writer_create P tmp sb (ij_mac_key job) = Inr w"
      "backup_ok P args (sb_image P sb (ij_mac_key job)) [] (2 ^ 62 + plan_cost (pending_chunks plan)) (?st0 w)" "spool_holds [] (?st0 w)"
    using job_started [OF assms(1-3), of src] by (elim exE conjE)
  have lv: "co_compress (ba_options args) \<longrightarrow> 1 \<le> co_level (ba_options args) \<and> co_level (ba_options args) \<le> 22" and ss: "source_shows S dev"
    using j by blast+
  have chunks: "\<forall>r \<in> set (pending_chunks plan). snd r \<le> ba_buffer_len args \<and> fst r + snd r \<le> length dev"
    using pl(5) assms(6) by auto
  have cap: "length hb + 46 * unat (uc_chunk_count plan) \<le> 2 ^ 38" using header_length [OF assms(7)] pl(7) by simp
  have pos: "word_of_nat (file_pos (bs_spool (?st0 w))) = (0 :: u64)" using w(3) by (simp add: spool_holds_def)
  obtain st1 where st1: "spool_write (Inr hb) (?st0 w) = (Inr (), st1)" "spool_capacity st1 = file_capacity spool"
    using spool_write_runs [OF w(3), of hb] cap assms(8) by auto
  have s1: "spool_holds hb st1" "backup_ok P args (sb_image P sb (ij_mac_key job)) [] (2 ^ 62 + plan_cost (pending_chunks plan)) st1"
    using spool_write_ok [OF w(3) st1(1)] w(2) by (auto simp: backup_ok_def)
  have cap1: "length hb + 46 * unat (uc_chunk_count plan) \<le> spool_capacity st1" using cap assms(8) st1(2) by simp
  obtain cnt st2 where st2: "write_full_entries P S args plan (uc_chunk_count plan) st1 = Some (Inr cnt, st2)" "spool_capacity st2 = spool_capacity st1"
    using write_full_entries_runs [OF assms(1) lv ss assms(5) pl(1,4) chunks s1(2,1) cap1] by blast
  obtain es where "spool_holds (hb @ layouts es) st2"
    using write_full_entries_ok [OF assms(1) lv ss pl(1) refl pl(4) s1(2,1)] st2(1) by auto
  then obtain st3 where st3: "spool_patch 0 (uc_chunk_count plan) st2 = (Inr (), st3)"
    using spool_patch_runs [of _ st2 "uc_chunk_count plan"] st2(2) st1(2) assms(8) by auto
  have we: "write_entries P S args open_parent job plan (?st0 w) = Some (Inr cnt, st3)"
    using st1(1) st2(1) st3 assms(4,7) unfolding write_entries_def pos by simp
  obtain q where q: "write_entries P S args open_parent job plan (?st0 w) = Some q"
      "\<And>cnt st'. q = (Inr cnt, st') \<Longrightarrow> \<exists>recs mf. backup_ok P args (sb_image P sb (ij_mac_key job)) recs (2 ^ 62) st'
         \<and> manifest_written P args 0 dev plan (\<lambda>_. Unused) (ij_header job) recs mf st' \<and> is_entries mf"
    using write_entries_full [OF assms(1) lv ss pl(1,4) w(2,3) assms(4) pl(7), of open_parent] by blast
  obtain recs mf where mf: "backup_ok P args (sb_image P sb (ij_mac_key job)) recs (2 ^ 62) st3"
      "manifest_written P args 0 dev plan (\<lambda>_. Unused) (ij_header job) recs mf st3" "is_entries mf"
    using q we by (metis option.inject)
  have en: "is_entries mf \<longleftrightarrow> rp_parent (ij_plan job) = None \<or> rp_encoding (ij_plan job) \<noteq> BlockDelta" using mf(3) assms(4) by simp
  obtain f ft where f: "finish_block_image P args job (file_data (bs_spool st3)) (bs_writer st3) = Some (Inr (f, ft))"
    using job_finished [OF assms(1-3) mf(1,2) en] by (elim exE conjE)
  have "fst (so_check_final_health S (bs_source st3)) = Inr ()" using assms(5) by (simp add: healthy_def)
  then show ?thesis
    using w(1) we f by (simp add: write_block_image_def assms(3) [symmetric])
qed

section \<open>Properties\<close>

text \<open>C3. A full backup records the device.  Whatever the snapshot does - reads may fail, health checks
  may fail, space may run out - the run returns; and when it returns an image, that image opens and
  authenticates, is accepted as a chain of its own, and a walk over it visits every chunk of the device
  once, in order, with a state that leads back to the bytes: a planned chunk of zeros is recorded as
  zeros, any other planned chunk decrypts to exactly its bytes, and a chunk is recorded as a bad sector
  only under the policy that asks for it; chunks outside the plan are unused.\<close>

theorem full_backup_captures:
  assumes "prims_ok P" "backup_job_ok S args job dev used plan tmp spool"
    and "rp_parent (ij_plan job) = None" "seq_in_chain (ij_superblock job) = 0"
  shows "\<exists>q. write_block_image P S args open_parent job plan tmp spool src = Some q \<and> (\<forall>cnt f ft. q = Inr (cnt, f, ft) \<longrightarrow>
    image_opens P (ij_mac_key job) (file_data f)
    \<and> (\<forall>m. opens_as P (file_data f) (ba_keys args) m \<longrightarrow> (\<exists>w st. chain_walk_new P [m] = Inr w
        \<and> chain_walk_walk P visit w v
            = run_visits (visit (access_of [m] (co_kind (ba_options args)) (chunk_size (ij_superblock job))))
                (map (\<lambda>i. (word_of_nat i, st i)) [0..<unat (uc_chunk_count plan)]) v
        \<and> (\<forall>i < unat (uc_chunk_count plan). chunk_captured (=) P (ba_on_bad_sector args)
             (access_of [m] (co_kind (ba_options args)) (chunk_size (ij_superblock job))) dev plan i (st i)))))"
proof -
  define sb where "sb = ij_superblock job"
  have aead: "sb_aead_kind sb = Inr (co_kind (ba_options args))"
    using assms(2) by (simp add: backup_job_ok_def Let_def sb_def)
  have walk: "\<exists>w st. chain_walk_new P [m] = Inr w
        \<and> chain_walk_walk P visit w v
            = run_visits (visit (access_of [m] (co_kind (ba_options args)) (chunk_size sb)))
                (map (\<lambda>i. (word_of_nat i, st i)) [0..<unat (uc_chunk_count plan)]) v
        \<and> (\<forall>i < unat (uc_chunk_count plan). chunk_captured (=) P (ba_on_bad_sector args)
             (access_of [m] (co_kind (ba_options args)) (chunk_size sb)) dev plan i (st i))"
    if "om_superblock m = sb" "chain_walk_new P [m] = Inr (walk_of plan sb [m])" "\<exists>mf. chain_captures (=) P args sb dev plan [m] [mf]" for m
  proof -
    obtain mf where mf: "chain_captures (=) P args sb dev plan [m] [mf]" using \<open>\<exists>mf. _ mf\<close> by blast
    have "chain_walk_walk P visit (walk_of plan sb [m]) v
        = run_visits (visit (access_of [m] (co_kind (ba_options args)) (chunk_size sb)))
            (map (\<lambda>i. (word_of_nat i, resolved [mf] i)) [0..<unat (uc_chunk_count plan)]) v"
      using walk_with_resolves [of P "walk_of plan sb [m]" "[mf]" "co_kind (ba_options args)", OF _ _ refl refl refl, of False visit v]
        mf that(1) aead by (simp add: chain_captures_def chain_walk_walk_def walk_of_def)
    then show ?thesis using that(2) mf unfolding chain_captures_def by blast
  qed
  from full_image_chain [OF assms(1,2) sb_def assms(3) assms(4) [folded sb_def], of open_parent src]
  show ?thesis unfolding sb_def [symmetric] using walk by (elim exE conjE) (intro exI conjI, assumption, blast)
qed

text \<open>C5. With a snapshot that stays healthy and readable, a buffer that holds a chunk and room for the
  manifest, a full backup produces an image.\<close>

theorem full_backup_completes:
  assumes "prims_ok P" "backup_job_ok S args job dev used plan tmp spool" "rp_parent (ij_plan job) = None"
    and "healthy S dev" "unat (chunk_size (ij_superblock job)) \<le> ba_buffer_len args"
    and "block_header_write (ij_header job) False = Inr hb" "2 ^ 38 \<le> file_capacity spool"
  shows "\<exists>cnt f ft. write_block_image P S args open_parent job plan tmp spool src = Some (Inr (cnt, f, ft))"
  by (rule full_backup_runs [OF assms(1,2) refl assms(3-7)])


section \<open>An example\<close>

definition demo_dev :: bytes where "demo_dev = replicate 1048576 1"

definition demo_source :: "unit source_ops" where
  "demo_source = \<lparr> so_read_at = (\<lambda>s off n. (Inr (slice (unat off) (unat off + n) demo_dev), s)),
     so_check_health = (\<lambda>s. (Inr (), s)), so_check_final_health = (\<lambda>s. (Inr (), s)), so_report = (\<lambda>off s. (Inr (), s)) \<rparr>"

definition demo_args :: backup_args where
  "demo_args = \<lparr> ba_options = demo_opts, ba_keys = demo_keys, ba_buffer_len = 1048576, ba_on_bad_sector = Abort \<rparr>"

definition demo_job :: image_job where
  "demo_job = \<lparr> ij_superblock = demo_sb\<lparr> source_size_bytes := 1048576 \<rparr>, ij_mac_key = Some (replicate 32 2), ij_header = demo_header,
     ij_source = ''/dev/sda1'', ij_plan = \<lparr> rp_parent = None, rp_member_type = TypeFull, rp_encoding = BlockFull,
       rp_set_id = replicate 16 3, rp_chain_id = replicate 16 2, rp_seq_in_chain = 0, rp_parent_uuid = uuid_zero \<rparr> \<rparr>"

definition demo_used :: extent_map where
  "demo_used = \<lparr> em_extents = [(0, 1048575)], em_complete = True \<rparr>"

definition demo_plan :: used_chunks where
  "demo_plan = \<lparr> uc_chunk_size = 1048576, uc_device_size = 1048576, uc_chunk_count = 1, uc_regions = [(0, 1048575)],
     uc_region = 0, uc_next_offset = 0 \<rparr>"

definition demo_spool :: disk_file where
  "demo_spool = \<lparr> file_data = [], file_pos = 0, file_capacity = 2 ^ 40 \<rparr>"

lemma demo_source_shows: "source_shows demo_source demo_dev" "healthy demo_source demo_dev"
  by (simp_all add: source_shows_def healthy_def demo_source_def)

lemma demo_plan_new: "used_chunks_new demo_used 1048576 1048576 = Inr demo_plan"
  by (simp add: used_chunks_new_def demo_plan_def demo_used_def chunk_aligned_def align_range_def List.map_filter_simps
      merge_ranges_def less_eq_prod_def saturating_add_u64_def saturating_sub_u64_def max_def min_def div_ceil_u64_def)

lemma validate_header_frame:
  "validate_header (sb\<lparr> source_size_bytes := n \<rparr>) = validate_header sb"
  "validate_header (sb\<lparr> seq_in_chain := k \<rparr>) = validate_header sb"
  "validate_header (sb\<lparr> parent_uuid := u \<rparr>) = validate_header sb"
  "validate_header (sb\<lparr> image_uuid := u \<rparr>) = validate_header sb"
  by (simp_all add: validate_header_def sb_is_inconsistent_def sb_is_encrypted_def)

lemma demo_job_ok: "backup_job_ok demo_source demo_args demo_job demo_dev demo_used demo_plan demo_file demo_spool"
proof -
  have "sb_wf (demo_sb\<lparr> source_size_bytes := 1048576 \<rparr>)" "validate_header (demo_sb\<lparr> source_size_bytes := 1048576 \<rparr>) = Inr ()"
    "sb_aead_kind (demo_sb\<lparr> source_size_bytes := 1048576 \<rparr>) = Inr (co_kind demo_opts)"
    using demo_sb_ok demo_sb_aead by (simp_all add: validate_header_frame sb_aead_kind_def) (simp add: sb_wf_def)
  moreover have "job_extras_fit demo_job"
    by (simp add: job_extras_fit_def extras_bytes_def demo_job_def Let_def chain_members_payload_def extras_members_def
        image_metadata_def demo_header_def demo_sb_def file_tag_def decimal.simps)
  moreover have "ucast (chunk_size demo_sb) = (1048576 :: u64)" by (simp add: demo_sb_def)
  ultimately show ?thesis
    using demo_header_ok(1) demo_source_shows(1) demo_plan_new
    by (simp add: backup_job_ok_def Let_def demo_job_def demo_args_def demo_file_def demo_spool_def demo_dev_def sink_limit_def footer_size_def
        member_kind_of_def demo_sb_def demo_used_def range_ok_def demo_header_def demo_plan_def demo_opts_def)
qed

lemma opens_as_exists: "image_opens P mk data \<Longrightarrow> \<exists>m. opens_as P data keys m"
proof -
  assume "image_opens P mk data"
  then obtain r where r: "reader_open P data = Inr r" by (auto simp: image_opens_def)
  define m where "m = \<lparr> om_file_name = [], om_seq_in_chain = seq_in_chain (ir_superblock r), om_image_uuid = image_uuid (ir_superblock r),
    om_kind = member_kind_of (ir_superblock r), om_superblock = ir_superblock r, om_reader = r, om_chunks = chunk_reader_with r data,
    om_keys = \<lparr> ik_data_key = wk_data_key keys, ik_meta_key = wk_meta_key keys, ik_dedup_key = wk_dedup_key keys \<rparr> \<rparr>"
  have "opens_as P data keys m" using r by (simp add: opens_as_def m_def)
  then show ?thesis by blast
qed

lemma demo_job_simps:
  "ba_keys demo_args = demo_keys" "ba_options demo_args = demo_opts" "ba_on_bad_sector demo_args = Abort" "rp_parent (ij_plan demo_job) = None"
  "seq_in_chain (ij_superblock demo_job) = 0" "chunk_size (ij_superblock demo_job) = 1048576" "uc_chunk_count demo_plan = 1"
  "ij_header demo_job = demo_header" "ba_buffer_len demo_args = 1048576" "file_capacity demo_spool = 2 ^ 40"
  by (simp_all add: demo_args_def demo_job_def demo_plan_def demo_sb_def demo_spool_def)

lemma demo_runs:
  "\<exists>cnt f ft. write_block_image demo_prims demo_source demo_args open_parent demo_job demo_plan demo_file demo_spool src = Some (Inr (cnt, f, ft))"
  by (rule full_backup_runs [OF demo_prims_ok demo_job_ok refl _ demo_source_shows(2)])
    (simp_all add: demo_job_simps demo_header_ok(2))

theorem full_backup_completes_witness:
  "\<exists>cnt f ft. write_block_image demo_prims demo_source demo_args (\<lambda>_. Inl (Io [])) demo_job demo_plan demo_file demo_spool () = Some (Inr (cnt, f, ft))"
  by (rule full_backup_completes [OF demo_prims_ok demo_job_ok _ demo_source_shows(2)])
    (simp_all add: demo_job_simps demo_header_ok(2))

theorem full_backup_captures_witness:
  "\<exists>cnt f ft m w st. write_block_image demo_prims demo_source demo_args (\<lambda>_. Inl (Io [])) demo_job demo_plan demo_file demo_spool () = Some (Inr (cnt, f, ft))
     \<and> opens_as demo_prims (file_data f) demo_keys m \<and> chain_walk_new demo_prims [m] = Inr w
     \<and> chain_walk_walk demo_prims recording w [] = (Inr (), [(0, st)])
     \<and> chunk_captured (=) demo_prims Abort (access_of [m] (co_kind demo_opts) 1048576) demo_dev demo_plan 0 st"
proof -
  obtain cnt f ft where run: "write_block_image demo_prims demo_source demo_args (\<lambda>_. Inl (Io [])) demo_job demo_plan demo_file demo_spool ()
      = Some (Inr (cnt, f, ft))" using demo_runs by blast
  note cap = full_backup_captures [OF demo_prims_ok demo_job_ok demo_job_simps(4,5), of "\<lambda>_. Inl (Io [])" "()" recording "[]",
    unfolded run demo_job_simps]
  then have "image_opens demo_prims (ij_mac_key demo_job) (file_data f)" by auto
  then obtain m where m: "opens_as demo_prims (file_data f) demo_keys m" using opens_as_exists by blast
  then obtain w st where w: "chain_walk_new demo_prims [m] = Inr w"
      "chain_walk_walk demo_prims recording w [] = run_visits (recording (access_of [m] (co_kind demo_opts) 1048576)) (map (\<lambda>i. (word_of_nat i, st i)) [0..<1]) []"
      "chunk_captured (=) demo_prims Abort (access_of [m] (co_kind demo_opts) 1048576) demo_dev demo_plan 0 (st 0)"
    using cap by auto
  have "chain_walk_walk demo_prims recording w [] = (Inr (), [(0, st 0)])" unfolding w(2) by (simp add: recording_def)
  then show ?thesis using run m w(1,3) by blast
qed

text \<open>A second, incremental member on top of the demo image.\<close>

definition demo_parent :: parent_chain where
  "demo_parent = \<lparr> pc_member = record_of demo_member, pc_chain_id = replicate 16 2, pc_set_id = replicate 16 3,
     pc_prefix = [(0, replicate 16 1)], pc_files = [\<lparr> cf_file_name = ''a.lrimg'', cf_seq_in_chain = 0, cf_image_uuid = replicate 16 1 \<rparr>],
     pc_superblock = demo_sb \<rparr>"

definition demo_sb1 :: superblock where
  "demo_sb1 = demo_sb\<lparr> source_size_bytes := 1048576, seq_in_chain := 1, parent_uuid := replicate 16 1, image_uuid := replicate 16 9,
     sb_flags := 1 OR flag_delta_manifest \<rparr>"

definition demo_job1 :: image_job where
  "demo_job1 = demo_job\<lparr> ij_superblock := demo_sb1, ij_plan := \<lparr> rp_parent = Some demo_parent, rp_member_type = TypeIncremental,
     rp_encoding = BlockDelta, rp_set_id = replicate 16 3, rp_chain_id = replicate 16 2, rp_seq_in_chain = 1, rp_parent_uuid = replicate 16 1 \<rparr> \<rparr>"

lemma demo_sb1_ok: "sb_wf demo_sb1" "validate_header demo_sb1 = Inr ()" "sb_aead_kind demo_sb1 = Inr (co_kind demo_opts)"
  "member_kind_of demo_sb1 = Incremental"
  unfolding demo_sb1_def
  by (simp add: sb_wf_def demo_sb_def flag_delta_manifest_def, code_simp, simp add: sb_aead_kind_def demo_sb_def demo_opts_def aead_from_id_def,
      simp add: member_kind_of_def demo_sb_def flag_delta_manifest_def)

lemma demo_job1_ok: "backup_job_ok demo_source demo_args demo_job1 demo_dev demo_used demo_plan demo_file demo_spool"
proof -
  have "job_extras_fit demo_job1"
    by (simp add: job_extras_fit_def extras_bytes_def demo_job1_def demo_job_def Let_def chain_members_payload_def extras_members_def
        image_metadata_def demo_header_def demo_sb1_def demo_sb_def file_tag_def decimal.simps demo_parent_def)
  moreover have "chunk_size demo_sb1 = 1048576" "source_size_bytes demo_sb1 = 1048576" "sb_image_kind demo_sb1 = Block"
    by (simp_all add: demo_sb1_def demo_sb_def)
  ultimately show ?thesis
    using demo_header_ok(1) demo_source_shows(1) demo_plan_new demo_sb1_ok
    by (simp add: backup_job_ok_def Let_def demo_job1_def demo_job_def demo_args_def demo_file_def demo_spool_def demo_dev_def sink_limit_def
        footer_size_def demo_used_def range_ok_def demo_header_def demo_plan_def demo_opts_def)
qed


end
