(* ===== verification/Block_Restore.thy ===== *)
theory Block_Restore
  imports Block_Progress
begin

text \<open>
  Restoring a block chain: \<open>DirectBlockTarget::write_at\<close> and \<open>sync\<close> of \<open>crates/lr-blocksource/src/direct.rs\<close>, the
  plan check \<open>block_chain\<close> and \<open>refuse_bad_sectors\<close> of \<open>crates/lr-engine/src/plan.rs\<close> and
  \<open>write_block_chain\<close> of \<open>crates/lr-engine/src/restore.rs\<close>.  A target is its bytes; a write that fails may
  have written a part of its data.
\<close>

section \<open>The target device\<close>

text \<open>\<open>bt_faults\<close> schedules the outcome of the system calls to come: \<open>None\<close> is success, \<open>Some k\<close> a failure
  after \<open>k\<close> bytes; an exhausted schedule means success.  The unaligned tail of a direct target goes through a
  second descriptor; that its opening fails is a failure after no bytes.\<close>

record block_target =
  bt_data :: bytes
  bt_alignment :: nat
  bt_direct :: bool
  bt_faults :: "nat option list"

definition bt_size_bytes :: "block_target \<Rightarrow> u64" where
  "bt_size_bytes t = word_of_nat (length (bt_data t))"

definition bt_pwrite :: "nat \<Rightarrow> bytes \<Rightarrow> block_target \<Rightarrow> unit res \<times> block_target" where
  "bt_pwrite off bs t =
     (case bt_faults t of
        Some k # fs \<Rightarrow> (Inl (Io ''input/output error''), t\<lparr> bt_data := overwrite off (take k bs) (bt_data t), bt_faults := fs \<rparr>)
      | fs \<Rightarrow> (Inr (), t\<lparr> bt_data := overwrite off bs (bt_data t), bt_faults := tl fs \<rparr>))"

definition write_at :: "u64 \<Rightarrow> bytes \<Rightarrow> nat \<Rightarrow> nat \<Rightarrow> block_target \<Rightarrow> unit res \<times> block_target" where
  "write_at offset buf buf_alignment len t =
     (if len = 0 then (Inr (), t)
      else if len > length buf then (Inl (Unsupported '' bytes requested from a ''), t)
      else if offset + word_of_nat len > bt_size_bytes t then (Inl NoSpace, t)
      else if bt_direct t \<and> buf_alignment < bt_alignment t then (Inl (Unsupported ''unaligned direct write of ''), t)
      else bt_pwrite (unat offset) (take len buf) t)"

definition bt_sync :: "block_target \<Rightarrow> unit res \<times> block_target" where
  "bt_sync t =
     (case bt_faults t of
        Some _ # fs \<Rightarrow> (Inl (Io ''input/output error''), t\<lparr> bt_faults := fs \<rparr>)
      | fs \<Rightarrow> (Inr (), t\<lparr> bt_faults := tl fs \<rparr>))"

section \<open>The plan check\<close>

record block_summary =
  su_stored :: u64
  su_zero :: u64
  su_unused :: u64
  su_bad :: u64
  su_first_bad :: "u64 option"

definition summary_default :: block_summary where
  "summary_default = \<lparr> su_stored = 0, su_zero = 0, su_unused = 0, su_bad = 0, su_first_bad = None \<rparr>"

definition summary_visit :: "u64 \<Rightarrow> block_summary visitor" where
  "summary_visit csz access index state s =
     (Inr (), (case state of
        Stored _ _ _ _ \<Rightarrow> s\<lparr> su_stored := su_stored s + 1 \<rparr>
      | Zero \<Rightarrow> s\<lparr> su_zero := su_zero s + 1 \<rparr>
      | Unused \<Rightarrow> s\<lparr> su_unused := su_unused s + 1 \<rparr>
      | BadSectorState \<Rightarrow> s\<lparr> su_bad := su_bad s + 1,
          su_first_bad := (case su_first_bad s of None \<Rightarrow> Some (index * csz) | Some b \<Rightarrow> Some b) \<rparr>))"

definition check_geometry :: "superblock \<Rightarrow> chain_walk \<Rightarrow> unit res" where
  "check_geometry sb w =
     (if cw_chunk_size w \<noteq> chunk_size sb \<or> cw_chunk_count w \<noteq> div_ceil_u64 (source_size_bytes sb) (ucast (chunk_size sb))
        then Inl (Corrupt ''the chain's chunk geometry does not match the image superblock'') else Inr ())"

definition block_chain :: "prims \<Rightarrow> open_member list \<Rightarrow> superblock \<Rightarrow> block_summary res" where
  "block_chain P members sb =
     res_bind (chain_walk_new P members) (\<lambda>w.
     res_bind (check_geometry sb w) (\<lambda>_.
       case chain_walk_walk P (summary_visit (ucast (chunk_size sb))) w summary_default of
         (Inl e, _) \<Rightarrow> Inl e | (Inr _, summary) \<Rightarrow> Inr summary))"

definition refuse_bad_sectors :: "block_summary \<Rightarrow> unit res" where
  "refuse_bad_sectors summary =
     (if su_bad summary = 0 then Inr () else Inl (Unsupported ''the image records ''))"

section \<open>Writing the chain\<close>

record 'r restore_state =
  re_target :: block_target
  re_reporter :: 'r
  re_stored :: u64
  re_zero :: u64
  re_skipped :: u64
  re_bytes :: u64

text \<open>The aligned buffer and the zero buffer have the size of a chunk and the target's alignment; only the
  first \<open>chunk_len\<close> bytes of the buffer are written, so what it held before does not matter.\<close>

definition restore_write :: "nat \<Rightarrow> u64 \<Rightarrow> bytes \<Rightarrow> nat \<Rightarrow> 'r restore_state \<Rightarrow> unit res \<times> 'r restore_state" where
  "restore_write csz offset bs chunk_len v =
     (case write_at offset (bs @ replicate (csz - length bs) 0) (bt_alignment (re_target v)) chunk_len (re_target v) of
        (r, t) \<Rightarrow> (r, v\<lparr> re_target := t \<rparr>))"

definition restore_visit ::
    "prims \<Rightarrow> (u64 \<Rightarrow> 'r \<Rightarrow> unit res \<times> 'r) \<Rightarrow> superblock \<Rightarrow> 'r restore_state visitor" where
  "restore_visit P report sb access index state v =
     (let csz = ucast (chunk_size sb) :: u64 in
      case report (index * csz) (re_reporter v) of
        (Inl e, rep) \<Rightarrow> (Inl e, v\<lparr> re_reporter := rep \<rparr>)
      | (Inr _, rep) \<Rightarrow>
          (let v = v\<lparr> re_reporter := rep \<rparr>; offset = index * csz in
           if offset \<ge> source_size_bytes sb then (Inr (), v)
           else (let chunk_len = unat (min csz (source_size_bytes sb - offset)) in
             case state of
               Stored _ _ _ _ \<Rightarrow>
                 (case chunk_access_read P access state of
                    Inl e \<Rightarrow> (Inl e, v)
                  | Inr plaintext \<Rightarrow>
                      if length plaintext \<noteq> chunk_len then (Inl (Corrupt ''chunk restored to ''), v)
                      else st_bind (restore_write (unat csz) offset plaintext chunk_len v) (\<lambda>_ v.
                        (Inr (), v\<lparr> re_stored := re_stored v + 1, re_bytes := re_bytes v + word_of_nat chunk_len \<rparr>)))
             | Zero \<Rightarrow>
                 st_bind (restore_write (unat csz) offset [] chunk_len v) (\<lambda>_ v.
                   (Inr (), v\<lparr> re_zero := re_zero v + 1, re_bytes := re_bytes v + word_of_nat chunk_len \<rparr>))
             | Unused \<Rightarrow> (Inr (), v\<lparr> re_skipped := re_skipped v + 1 \<rparr>)
             | BadSectorState \<Rightarrow> (Inl (BadSector offset (word_of_nat chunk_len)), v))))"

definition write_block_chain ::
    "prims \<Rightarrow> (u64 \<Rightarrow> 'r \<Rightarrow> unit res \<times> 'r) \<Rightarrow> open_member list \<Rightarrow> superblock \<Rightarrow> 'r restore_state
     \<Rightarrow> unit res \<times> 'r restore_state" where
  "write_block_chain P report members sb v =
     st_bind (res_bind (chain_walk_new P members) (\<lambda>w. res_bind (check_geometry sb w) (\<lambda>_. Inr w)), v) (\<lambda>w v.
       if bt_size_bytes (re_target v) < source_size_bytes sb then (Inl NoSpace, v)
       else st_bind (chain_walk_walk P (restore_visit P report sb) w v) (\<lambda>_ v.
         case bt_sync (re_target v) of (r, t) \<Rightarrow> (r, v\<lparr> re_target := t \<rparr>)))"

section \<open>What one visit writes\<close>

definition chunk_range :: "superblock \<Rightarrow> nat \<Rightarrow> nat \<times> nat" where
  "chunk_range sb i = (i * unat (chunk_size sb), min (unat (chunk_size sb)) (unat (source_size_bytes sb) - i * unat (chunk_size sb)))"

abbreviation target_bytes :: "'r restore_state \<Rightarrow> bytes" where
  "target_bytes v \<equiv> bt_data (re_target v)"

text \<open>\<open>chunk_written\<close> is what a visit that succeeds does to the bytes of the target, \<open>touches_only\<close> what any
  visit does at most.\<close>

definition chunk_written :: "prims \<Rightarrow> chunk_access \<Rightarrow> nat \<times> nat \<Rightarrow> chunk_state \<Rightarrow> bytes \<Rightarrow> bytes \<Rightarrow> bool" where
  "chunk_written P acc r state data data' \<longleftrightarrow>
     (case state of
        Stored _ _ _ _ \<Rightarrow> (\<exists>b. chunk_access_read P acc state = Inr b \<and> length b = snd r \<and> data' = overwrite (fst r) b data)
      | Zero \<Rightarrow> data' = overwrite (fst r) (replicate (snd r) 0) data
      | Unused \<Rightarrow> data' = data
      | BadSectorState \<Rightarrow> False)"

definition touches_only :: "nat \<times> nat \<Rightarrow> bytes \<Rightarrow> bytes \<Rightarrow> bool" where
  "touches_only r data data' \<longleftrightarrow> length data' = length data \<and> take (fst r) data' = take (fst r) data
     \<and> drop (fst r + snd r) data' = drop (fst r + snd r) data"

lemma touches_only_refl [simp]: "touches_only r data data"
  by (simp add: touches_only_def)

lemma overwrite_touches: "length b \<le> snd r \<Longrightarrow> fst r + snd r \<le> length data \<Longrightarrow> touches_only r data (overwrite (fst r) b data)"
proof (cases "length data \<le> fst r")
  case True
  moreover assume "length b \<le> snd r" "fst r + snd r \<le> length data"
  ultimately have "length b = 0" by linarith
  then have "b = []" by simp
  then show ?thesis by (simp add: overwrite_def)
qed (simp add: touches_only_def overwrite_def min_def ac_simps)

lemma touches_only_mono:
  assumes "touches_only r data data'" "fst q \<le> fst r" "fst r + snd r \<le> fst q + snd q"
  shows "touches_only q data data'"
proof -
  have "take (fst q) xs = take (fst q) (take (fst r) xs)" for xs :: bytes using assms(2) by (simp add: min_absorb1)
  moreover have "drop (fst q + snd q) xs = drop (fst q + snd q - (fst r + snd r)) (drop (fst r + snd r) xs)" for xs :: bytes
    using assms(3) by simp
  ultimately show ?thesis using assms(1) unfolding touches_only_def by metis
qed

lemma touches_only_trans: "touches_only r a b \<Longrightarrow> touches_only r b c \<Longrightarrow> touches_only r a c"
  by (simp add: touches_only_def)

lemma touches_only_slice:
  assumes "touches_only r data data'" "fst q + snd q \<le> fst r \<or> fst r + snd r \<le> fst q"
  shows "chunk_bytes data' q = chunk_bytes data q"
  using assms(2)
proof
  assume "fst q + snd q \<le> fst r"
  then have "chunk_bytes xs q = slice (fst q) (fst q + snd q) (take (fst r) xs)" for xs
    by (simp add: chunk_bytes_def slice_def take_drop min_def)
  then show ?thesis using assms(1) by (simp add: touches_only_def)
next
  assume le: "fst r + snd r \<le> fst q"
  have "chunk_bytes xs q = take (snd q) (drop (fst q - (fst r + snd r)) (drop (fst r + snd r) xs))" for xs
    using le by (simp add: chunk_bytes_def slice_def)
  moreover have "drop (fst r + snd r) data' = drop (fst r + snd r) data" using assms(1) by (simp add: touches_only_def)
  ultimately show ?thesis by metis
qed

lemma write_at_outcome:
  assumes "write_at offset buf al len t = (z, t')" "unat offset + len \<le> length (bt_data t)" "length (bt_data t) < 2 ^ 64"
    and "len \<le> length buf" "bt_alignment t \<le> al"
  shows "z = Inr () \<Longrightarrow> bt_data t' = overwrite (unat offset) (take len buf) (bt_data t)"
    and "touches_only (unat offset, len) (bt_data t) (bt_data t')"
    and "bt_faults t = [] \<Longrightarrow> z = Inr () \<and> bt_faults t' = []"
    and "bt_alignment t' = bt_alignment t"
proof -
  have fits: "\<not> bt_size_bytes t < offset + word_of_nat len"
    using assms(2,3) by (simp add: bt_size_bytes_def word_less_nat_alt unat_word_ariths unat_of_nat_u64)
  have run: "write_at offset buf al len t = (if len = 0 then (Inr (), t) else bt_pwrite (unat offset) (take len buf) t)"
    using fits assms(4,5) by (simp add: write_at_def)
  have tk: "touches_only (unat offset, len) (bt_data t) (overwrite (unat offset) (take k (take len buf)) (bt_data t))" for k
    using overwrite_touches [of "take k (take len buf)" "(unat offset, len)" "bt_data t"] assms(2) by simp
  from tk [of len] have whole: "touches_only (unat offset, len) (bt_data t) (overwrite (unat offset) (take len buf) (bt_data t))" by simp
  show "z = Inr () \<Longrightarrow> bt_data t' = overwrite (unat offset) (take len buf) (bt_data t)"
    using assms(1) by (auto simp: run bt_pwrite_def overwrite_def split: if_splits list.splits option.splits)
  show "touches_only (unat offset, len) (bt_data t) (bt_data t')"
    using assms(1) tk whole by (auto simp: run bt_pwrite_def split: if_splits list.splits option.splits)
  show "bt_faults t = [] \<Longrightarrow> z = Inr () \<and> bt_faults t' = []" "bt_alignment t' = bt_alignment t"
    using assms(1) by (auto simp: run bt_pwrite_def split: if_splits list.splits option.splits)
qed

definition restore_fits :: "superblock \<Rightarrow> bytes \<Rightarrow> bool" where
  "restore_fits sb data \<longleftrightarrow> unat (source_size_bytes sb) \<le> length data \<and> length data < 2 ^ 64 \<and> 0 < unat (chunk_size sb)"

lemma restore_write_outcome:
  assumes "restore_write csz offset bs len v = (z, v')" "unat offset + len \<le> length (target_bytes v)" "length (target_bytes v) < 2 ^ 64"
    and "len \<le> csz" "length bs = len \<or> bs = []"
  shows "z = Inr () \<Longrightarrow> target_bytes v' = overwrite (unat offset) (if bs = [] then replicate len 0 else bs) (target_bytes v)"
    and "touches_only (unat offset, len) (target_bytes v) (target_bytes v')"
    and "bt_faults (re_target v) = [] \<Longrightarrow> z = Inr () \<and> bt_faults (re_target v') = []"
proof -
  let ?buf = "bs @ replicate (csz - length bs) 0"
  obtain t where w: "write_at offset ?buf (bt_alignment (re_target v)) len (re_target v) = (z, t)" "v' = v\<lparr> re_target := t \<rparr>"
    using assms(1) by (auto simp: restore_write_def split: prod.splits)
  have l: "len \<le> length ?buf" "take len ?buf = (if bs = [] then replicate len 0 else bs)" using assms(4,5) by (auto simp: min_def)
  note o = write_at_outcome [OF w(1) assms(2,3) l(1) order_refl]
  show "z = Inr () \<Longrightarrow> target_bytes v' = overwrite (unat offset) (if bs = [] then replicate len 0 else bs) (target_bytes v)"
    using o(1) l(2) w(2) by simp
  show "touches_only (unat offset, len) (target_bytes v) (target_bytes v')"
    "bt_faults (re_target v) = [] \<Longrightarrow> z = Inr () \<and> bt_faults (re_target v') = []"
    using o(2,3) w(2) by simp_all
qed

lemma ucast_nonzero: "0 < unat (a :: u32) \<Longrightarrow> (ucast a :: u64) \<noteq> 0"
  by (metis less_numeral_extra(3) unat_0 unat_ucast_u64(1))

lemma chunk_offset:
  assumes "i < unat (div_ceil_u64 (source_size_bytes sb) (ucast (chunk_size sb)))" "0 < unat (chunk_size sb)"
  shows "i * unat (chunk_size sb) < unat (source_size_bytes sb)"
    and "unat (word_of_nat i * ucast (chunk_size sb) :: u64) = i * unat (chunk_size sb)"
    and "unat (min (ucast (chunk_size sb)) (source_size_bytes sb - word_of_nat i * ucast (chunk_size sb))) = snd (chunk_range sb i)"
    and "\<not> source_size_bytes sb \<le> word_of_nat i * ucast (chunk_size sb)"
proof -
  let ?c = "unat (chunk_size sb)" and ?s = "unat (source_size_bytes sb)"
  have c: "unat (ucast (chunk_size sb) :: u64) = ?c" by simp
  note nz = ucast_nonzero [OF assms(2)]
  have i: "i < (?s + ?c - 1) div ?c" using assms(1) unat_div_ceil_u64 [OF nz, of "source_size_bytes sb"] c by simp
  then have "Suc i * ?c \<le> (?s + ?c - 1) div ?c * ?c" by (intro mult_le_mono1) simp
  then show a: "i * ?c < ?s" using nat_div_ceil_bounds(2) [OF assms(2), of ?s] by simp
  then have b: "i * ?c < 2 ^ 64" using unat_less_width(4) [of "source_size_bytes sb"] by (simp del: unat_less_width)
  moreover have "i \<le> i * ?c" using assms(2) by simp
  ultimately have "i < 2 ^ 64" by linarith
  then show o: "unat (word_of_nat i * ucast (chunk_size sb) :: u64) = i * ?c"
    using b by (simp add: unat_word_ariths unat_of_nat_u64)
  then show l: "\<not> source_size_bytes sb \<le> word_of_nat i * ucast (chunk_size sb)" using a by (simp add: word_le_nat_alt)
  show "unat (min (ucast (chunk_size sb)) (source_size_bytes sb - word_of_nat i * ucast (chunk_size sb))) = snd (chunk_range sb i)"
    using l o by (simp add: chunk_range_def min_def word_le_nat_alt unat_sub)
qed

lemma restore_visit_outcome:
  assumes "restore_visit P report sb acc (word_of_nat i) state v = (z, v')" "restore_fits sb (target_bytes v)"
    and "i < unat (div_ceil_u64 (source_size_bytes sb) (ucast (chunk_size sb)))"
  shows "z = Inr () \<Longrightarrow> chunk_written P acc (chunk_range sb i) state (target_bytes v) (target_bytes v')"
    and "touches_only (chunk_range sb i) (target_bytes v) (target_bytes v')"
    and "\<forall>off rp. fst (report off rp) = Inr () \<Longrightarrow> bt_faults (re_target v) = [] \<Longrightarrow>
           (\<exists>data. chunk_written P acc (chunk_range sb i) state (target_bytes v) data) \<Longrightarrow> z = Inr () \<and> bt_faults (re_target v') = []"
proof -
  let ?o = "word_of_nat i * ucast (chunk_size sb) :: u64" and ?c = "unat (chunk_size sb)"
  have c0: "0 < ?c" and sz: "unat (source_size_bytes sb) \<le> length (target_bytes v)" "length (target_bytes v) < 2 ^ 64"
    using assms(2) by (simp_all add: restore_fits_def)
  note o = chunk_offset [OF assms(3) c0]
  define len where "len = snd (chunk_range sb i)"
  have r: "chunk_range sb i = (unat ?o, len)" using o(2) by (simp add: chunk_range_def len_def)
  have c: "unat (ucast (chunk_size sb) :: u64) = ?c" by simp
  have fits: "unat ?o + len \<le> length (target_bytes v)" "len \<le> ?c" "0 < len" using sz o(1,2) c0 by (auto simp: len_def chunk_range_def)
  obtain q rep where q: "report ?o (re_reporter v) = (q, rep)" by fastforce
  let ?v = "v\<lparr> re_reporter := rep \<rparr>"
  note wr = restore_write_outcome [where csz = ?c and offset = ?o and len = len and v = ?v, OF _ _ _ fits(2)]
  have run: "(z, v') = (case q of Inl e \<Rightarrow> (Inl e, ?v) | Inr _ \<Rightarrow>
     (case state of
        Stored _ _ _ _ \<Rightarrow>
          (case chunk_access_read P acc state of
             Inl e \<Rightarrow> (Inl e, ?v)
           | Inr plaintext \<Rightarrow>
               if length plaintext \<noteq> len then (Inl (Corrupt ''chunk restored to ''), ?v)
               else st_bind (restore_write ?c ?o plaintext len ?v) (\<lambda>_ v.
                 (Inr (), v\<lparr> re_stored := re_stored v + 1, re_bytes := re_bytes v + word_of_nat len \<rparr>)))
      | Zero \<Rightarrow>
          st_bind (restore_write ?c ?o [] len ?v) (\<lambda>_ v.
            (Inr (), v\<lparr> re_zero := re_zero v + 1, re_bytes := re_bytes v + word_of_nat len \<rparr>))
      | Unused \<Rightarrow> (Inr (), ?v\<lparr> re_skipped := re_skipped ?v + 1 \<rparr>)
      | BadSectorState \<Rightarrow> (Inl (BadSector ?o (word_of_nat len)), ?v)))"
    unfolding assms(1) [symmetric] restore_visit_def Let_def q prod.case o(3) if_not_P [OF o(4)] len_def [symmetric] c by (rule refl)
  have stored: "(z = Inr () \<longrightarrow> chunk_written P acc (chunk_range sb i) state (target_bytes v) (target_bytes v'))
      \<and> touches_only (chunk_range sb i) (target_bytes v) (target_bytes v')
      \<and> (bt_faults (re_target v) = [] \<longrightarrow> z = Inr () \<and> bt_faults (re_target v') = [])"
    if "state = Stored m h off l" "chunk_access_read P acc state = Inr b" "length b = len" "q = Inr x" for m h off l b x
  proof -
    have b: "b \<noteq> []" using that(3) fits(3) by auto
    obtain v1 z1 where w: "restore_write ?c ?o b len ?v = (z1, v1)" by fastforce
    show ?thesis using wr [OF w] fits sz b that run w
      by (cases z1) (auto simp: chunk_written_def r)
  qed
  have zero: "(z = Inr () \<longrightarrow> chunk_written P acc (chunk_range sb i) state (target_bytes v) (target_bytes v'))
      \<and> touches_only (chunk_range sb i) (target_bytes v) (target_bytes v')
      \<and> (bt_faults (re_target v) = [] \<longrightarrow> z = Inr () \<and> bt_faults (re_target v') = [])"
    if "state = Zero" "q = Inr x" for x
  proof -
    obtain v1 z1 where w: "restore_write ?c ?o [] len ?v = (z1, v1)" by fastforce
    show ?thesis using wr [OF w] fits sz that run w
      by (cases z1) (auto simp: chunk_written_def r)
  qed
  show "z = Inr () \<Longrightarrow> chunk_written P acc (chunk_range sb i) state (target_bytes v) (target_bytes v')"
    using run stored zero by (auto simp: chunk_written_def split: sum.splits chunk_state.splits if_splits)
  show "touches_only (chunk_range sb i) (target_bytes v) (target_bytes v')"
    using run stored zero by (auto split: sum.splits chunk_state.splits if_splits)
  show "z = Inr () \<and> bt_faults (re_target v') = []" if "\<forall>off rp. fst (report off rp) = Inr ()" "bt_faults (re_target v) = []"
    "\<exists>data. chunk_written P acc (chunk_range sb i) state (target_bytes v) data"
  proof -
    have "q = Inr ()" using q that(1) by (metis fst_conv)
    then show ?thesis using run stored zero that(2,3)
      by (auto simp: chunk_written_def len_def split: chunk_state.splits if_splits)
  qed
qed

section \<open>What the walk writes\<close>

definition chunk_restored :: "prims \<Rightarrow> chunk_access \<Rightarrow> nat \<times> nat \<Rightarrow> chunk_state \<Rightarrow> bytes \<Rightarrow> bytes \<Rightarrow> bool" where
  "chunk_restored P acc r state old data \<longleftrightarrow>
     (case state of
        Stored _ _ _ _ \<Rightarrow> chunk_access_read P acc state = Inr (chunk_bytes data r) \<and> length (chunk_bytes data r) = snd r
      | Zero \<Rightarrow> chunk_bytes data r = replicate (snd r) 0
      | Unused \<Rightarrow> chunk_bytes data r = chunk_bytes old r
      | BadSectorState \<Rightarrow> False)"

definition chunk_restorable :: "prims \<Rightarrow> chunk_access \<Rightarrow> nat \<times> nat \<Rightarrow> chunk_state \<Rightarrow> bool" where
  "chunk_restorable P acc r state \<longleftrightarrow>
     (case state of
        Stored _ _ _ _ \<Rightarrow> (\<exists>b. chunk_access_read P acc state = Inr b \<and> length b = snd r)
      | BadSectorState \<Rightarrow> False
      | _ \<Rightarrow> True)"

lemma written_restored:
  "chunk_written P acc r state old data \<Longrightarrow> fst r + snd r \<le> length old \<Longrightarrow> chunk_restored P acc r state old data"
  by (auto simp: chunk_written_def chunk_restored_def chunk_bytes_def slice_overwrite_same split: chunk_state.splits)

lemma written_restorable: "(\<exists>data'. chunk_written P acc r state data data') \<longleftrightarrow> chunk_restorable P acc r state"
  by (auto simp: chunk_written_def chunk_restorable_def split: chunk_state.splits)

lemma restored_restorable: "chunk_restored P acc r state old data \<Longrightarrow> chunk_restorable P acc r state"
  by (auto simp: chunk_restored_def chunk_restorable_def split: chunk_state.splits)

lemma chunk_restored_cong:
  "chunk_bytes data r = chunk_bytes data' r \<Longrightarrow> chunk_bytes old r = chunk_bytes old' r \<Longrightarrow>
   chunk_restored P acc r state old data = chunk_restored P acc r state old' data'"
  by (simp add: chunk_restored_def split: chunk_state.split)

lemma restore_visits_outcome:
  assumes "run_visits (restore_visit P report sb acc) (map (\<lambda>i. (word_of_nat i, st i)) [k..<n]) v = (z, v')"
    and "restore_fits sb (target_bytes v)" "n = unat (div_ceil_u64 (source_size_bytes sb) (ucast (chunk_size sb)))" "k \<le> n"
  shows "(z = Inr () \<longrightarrow> (\<forall>i \<in> {k..<n}. chunk_restored P acc (chunk_range sb i) (st i) (target_bytes v) (target_bytes v')))
    \<and> touches_only (min (k * unat (chunk_size sb)) (unat (source_size_bytes sb)), unat (source_size_bytes sb) - k * unat (chunk_size sb)) (target_bytes v) (target_bytes v')
    \<and> ((\<forall>off rp. fst (report off rp) = Inr ()) \<longrightarrow> bt_faults (re_target v) = [] \<longrightarrow>
         (\<forall>i \<in> {k..<n}. chunk_restorable P acc (chunk_range sb i) (st i)) \<longrightarrow> z = Inr () \<and> bt_faults (re_target v') = [])"
  using assms(1,2,4)
proof (induction "n - k" arbitrary: k v)
  case 0
  then show ?case by simp
next
  case (Suc d)
  let ?c = "unat (chunk_size sb)" and ?s = "unat (source_size_bytes sb)"
  have k: "k < n" and c: "0 < ?c" and s: "?s \<le> length (target_bytes v)" using Suc(2,4) by (simp_all add: restore_fits_def)
  have kc: "k * ?c < ?s" using chunk_offset(1) k c assms(3) by blast
  obtain z1 v1 where one: "restore_visit P report sb acc (word_of_nat k) (st k) v = (z1, v1)" by fastforce
  note o = restore_visit_outcome [OF one Suc.prems(2) k [unfolded assms(3)]]
  have r: "fst (chunk_range sb k) + snd (chunk_range sb k) = min (Suc k * ?c) ?s" "fst (chunk_range sb i) = i * ?c"
    "fst (chunk_range sb i) + snd (chunk_range sb i) \<le> max (i * ?c) (min (Suc i * ?c) ?s)" for i
    using kc by (auto simp: chunk_range_def)
  have whole: "touches_only (min (k * ?c) ?s, ?s - k * ?c) (target_bytes v) (target_bytes v1)"
    by (rule touches_only_mono [OF o(2)]) (use r(1,2) kc in simp_all)
  show ?case
  proof (cases z1)
    case (Inl e)
    then have "z = Inl e" "v' = v1" using Suc.prems(1) one k by (simp_all add: upt_conv_Cons)
    moreover have "\<not> ((\<forall>off rp. fst (report off rp) = Inr ()) \<and> bt_faults (re_target v) = []
        \<and> (\<forall>i \<in> {k..<n}. chunk_restorable P acc (chunk_range sb i) (st i)))"
      using o(3) Inl k written_restorable by fastforce
    ultimately show ?thesis using whole by auto
  next
    case (Inr u)
    have rest: "run_visits (restore_visit P report sb acc) (map (\<lambda>i. (word_of_nat i, st i)) [Suc k..<n]) v1 = (z, v')"
      using Suc.prems(1) one k Inr by (simp add: upt_conv_Cons)
    have f1: "restore_fits sb (target_bytes v1)" using Suc.prems(2) o(2) by (simp add: restore_fits_def touches_only_def)
    note ih = Suc.hyps(1) [OF _ rest f1] 
    have hd: "chunk_restored P acc (chunk_range sb k) (st k) (target_bytes v) (target_bytes v1)"
      using written_restored [OF o(1)] Inr r(1) s by simp
    have later: "touches_only (min (Suc k * ?c) ?s, ?s - Suc k * ?c) (target_bytes v1) (target_bytes v')" using ih Suc(2) k by simp
    have "chunk_bytes (target_bytes v') (chunk_range sb k) = chunk_bytes (target_bytes v1) (chunk_range sb k)"
      by (rule touches_only_slice [OF later]) (use r(1) in simp)
    moreover have "chunk_bytes (target_bytes v1) (chunk_range sb i) = chunk_bytes (target_bytes v) (chunk_range sb i)" if "k < i" for i
    proof (rule touches_only_slice [OF o(2)])
      have "Suc k * ?c \<le> i * ?c" using that by (intro mult_le_mono1) simp
      then show "fst (chunk_range sb i) + snd (chunk_range sb i) \<le> fst (chunk_range sb k)
          \<or> fst (chunk_range sb k) + snd (chunk_range sb k) \<le> fst (chunk_range sb i)"
        using r(1,2) by (simp add: min_le_iff_disj)
    qed
    ultimately have cong: "chunk_restored P acc (chunk_range sb i) (st i) (target_bytes v) (target_bytes v')"
      if "k \<le> i" "i \<noteq> k \<longrightarrow> chunk_restored P acc (chunk_range sb i) (st i) (target_bytes v1) (target_bytes v')" for i
      using that hd chunk_restored_cong [of _ "chunk_range sb i"] by (metis le_neq_implies_less)
    have "touches_only (min (k * ?c) ?s, ?s - k * ?c) (target_bytes v) (target_bytes v')"
      by (rule touches_only_trans [OF whole]) (rule touches_only_mono [OF later], use kc in auto)
    then show ?thesis using ih cong Suc(2) k o(3) written_restorable by (auto simp: Suc_le_eq)
  qed
qed

section \<open>The restored chain\<close>

definition chain_ready :: "prims \<Rightarrow> open_member list \<Rightarrow> superblock \<Rightarrow> chain_walk \<Rightarrow> manifest list \<Rightarrow> aead_kind \<Rightarrow> bool" where
  "chain_ready P ms sb w mfs aead \<longleftrightarrow> chain_walk_new P ms = Inr w \<and> chain_manifests P w mfs
     \<and> sb_aead_kind (om_superblock (hd (cw_members w))) = Inr aead
     \<and> chain_covers (unat (cw_chunk_count w)) mfs \<and> check_geometry sb w = Inr () \<and> chunk_size sb \<noteq> 0"

abbreviation walk_access :: "chain_walk \<Rightarrow> aead_kind \<Rightarrow> chunk_access" where
  "walk_access w aead \<equiv> access_of (cw_members w) aead (cw_chunk_size w)"

lemma check_geometry_iff:
  "check_geometry sb w = Inr () \<longleftrightarrow>
   cw_chunk_size w = chunk_size sb \<and> cw_chunk_count w = div_ceil_u64 (source_size_bytes sb) (ucast (chunk_size sb))"
  by (simp add: check_geometry_def)

lemma ready_walk:
  assumes "chain_ready P ms sb w mfs aead"
  shows "chain_walk_walk P visit w v = run_visits (visit (walk_access w aead))
    (map (\<lambda>i. (word_of_nat i, resolved mfs i)) [0..<unat (cw_chunk_count w)]) v"
  using walk_with_resolves [of P w mfs aead, OF _ _ refl refl refl, of False visit v] assms
  by (simp add: chain_ready_def chain_walk_walk_def)

lemma bt_sync_simps:
  "bt_sync t = (z, t') \<Longrightarrow> bt_data t' = bt_data t" "bt_faults t = [] \<Longrightarrow> \<exists>t'. bt_sync t = (Inr (), t')"
  by (auto simp: bt_sync_def split: list.splits option.splits)

lemma write_block_chain_outcome:
  assumes "chain_ready P ms sb w mfs aead" "write_block_chain P report ms sb v = (z, v')" "length (target_bytes v) < 2 ^ 64"
  shows "z = Inr () \<Longrightarrow> i < unat (cw_chunk_count w) \<Longrightarrow>
      chunk_restored P (walk_access w aead) (chunk_range sb i) (resolved mfs i) (target_bytes v) (target_bytes v')"
    and "length (target_bytes v') = length (target_bytes v)"
    and "drop (unat (source_size_bytes sb)) (target_bytes v') = drop (unat (source_size_bytes sb)) (target_bytes v)"
    and "\<forall>off rp. fst (report off rp) = Inr () \<Longrightarrow> bt_faults (re_target v) = [] \<Longrightarrow>
      z = Inr () \<longleftrightarrow> unat (source_size_bytes sb) \<le> length (target_bytes v)
        \<and> (\<forall>i < unat (cw_chunk_count w). chunk_restorable P (walk_access w aead) (chunk_range sb i) (resolved mfs i))"
proof -
  let ?s = "unat (source_size_bytes sb)" and ?n = "unat (cw_chunk_count w)" and ?acc = "walk_access w aead"
  note rd = assms(1) [unfolded chain_ready_def]
  have c: "0 < unat (chunk_size sb)" using rd by (metis unat_gt_0)
  have n: "?n = unat (div_ceil_u64 (source_size_bytes sb) (ucast (chunk_size sb)))" using rd by (simp add: check_geometry_iff)
  have sz: "bt_size_bytes (re_target v) < source_size_bytes sb \<longleftrightarrow> length (target_bytes v) < ?s"
    using assms(3) by (simp add: bt_size_bytes_def word_less_nat_alt unat_of_nat_u64)
  have run: "write_block_chain P report ms sb v = (if length (target_bytes v) < ?s then (Inl NoSpace, v)
      else st_bind (chain_walk_walk P (restore_visit P report sb) w v) (\<lambda>_ v.
         case bt_sync (re_target v) of (r, t) \<Rightarrow> (r, v\<lparr> re_target := t \<rparr>)))"
    using rd sz by (simp add: write_block_chain_def res_bind_def)
  have "(z = Inr () \<longrightarrow> (\<forall>i < ?n. chunk_restored P ?acc (chunk_range sb i) (resolved mfs i) (target_bytes v) (target_bytes v')))
    \<and> touches_only (0, ?s) (target_bytes v) (target_bytes v')
    \<and> ((\<forall>off rp. fst (report off rp) = Inr ()) \<longrightarrow> bt_faults (re_target v) = [] \<longrightarrow>
        (z = Inr () \<longleftrightarrow> ?s \<le> length (target_bytes v) \<and> (\<forall>i < ?n. chunk_restorable P ?acc (chunk_range sb i) (resolved mfs i))))"
  proof (cases "length (target_bytes v) < ?s")
    case True
    then show ?thesis using assms(2) run by auto
  next
    case False
    then have fits: "restore_fits sb (target_bytes v)" using assms(3) c by (simp add: restore_fits_def)
    obtain z1 v1 where w: "chain_walk_walk P (restore_visit P report sb) w v = (z1, v1)" by fastforce
    note o = restore_visits_outcome [OF w [unfolded ready_walk [OF assms(1)]] fits n, simplified]
    obtain r t where sy: "bt_sync (re_target v1) = (r, t)" by fastforce
    have zv: "(z, v') = (case z1 of Inl e \<Rightarrow> (Inl e, v1) | Inr _ \<Rightarrow> (r, v1\<lparr> re_target := t \<rparr>))"
      using assms(2) run False w sy by (cases z1) auto
    then have data: "target_bytes v' = target_bytes v1" using bt_sync_simps(1) [OF sy] by (cases z1) simp_all
    show ?thesis
    proof (cases z1)
      case (Inl e)
      then show ?thesis using o zv data False by (auto simp: atLeast0LessThan)
    next
      case (Inr u)
      then have rs: "\<forall>i < ?n. chunk_restored P ?acc (chunk_range sb i) (resolved mfs i) (target_bytes v) (target_bytes v')"
        using o data by (simp add: atLeast0LessThan)
      then have ra: "\<forall>i < ?n. chunk_restorable P ?acc (chunk_range sb i) (resolved mfs i)" using restored_restorable by blast
      have "z = Inr ()" if "\<forall>off rp. fst (report off rp) = Inr ()" "bt_faults (re_target v) = []"
      proof -
        have "bt_faults (re_target v1) = []" using o ra that by (simp add: atLeast0LessThan)
        then show ?thesis using bt_sync_simps(2) [of "re_target v1"] sy zv Inr by auto
      qed
      moreover have "touches_only (0, ?s) (target_bytes v) (target_bytes v')" using o data by simp
      ultimately show ?thesis using rs ra False by auto
    qed
  qed
  then show "z = Inr () \<Longrightarrow> i < ?n \<Longrightarrow> chunk_restored P ?acc (chunk_range sb i) (resolved mfs i) (target_bytes v) (target_bytes v')"
    "length (target_bytes v') = length (target_bytes v)" "drop ?s (target_bytes v') = drop ?s (target_bytes v)"
    "\<forall>off rp. fst (report off rp) = Inr () \<Longrightarrow> bt_faults (re_target v) = [] \<Longrightarrow>
      z = Inr () \<longleftrightarrow> ?s \<le> length (target_bytes v) \<and> (\<forall>i < ?n. chunk_restorable P ?acc (chunk_range sb i) (resolved mfs i))"
    by (simp_all add: touches_only_def)
qed

text \<open>The plan check counts every chunk once.\<close>

definition count_chunks :: "(chunk_state \<Rightarrow> bool) \<Rightarrow> manifest list \<Rightarrow> nat \<Rightarrow> nat" where
  "count_chunks p mfs n = length (filter (\<lambda>i. p (resolved mfs i)) [0..<n])"

lemma summary_visits:
  "run_visits (summary_visit csz acc) (map (\<lambda>i. (word_of_nat i, st i)) is) s = (z, s') \<Longrightarrow>
   z = Inr () \<and> su_bad s' = su_bad s + word_of_nat (length (filter (\<lambda>i. st i = BadSectorState) is))"
  by (induction "is" arbitrary: s) (auto simp: summary_visit_def split: chunk_state.splits)

lemma block_chain_summary:
  assumes "chain_ready P ms sb w mfs aead"
  shows "\<exists>s. block_chain P ms sb = Inr s \<and> unat (su_bad s) = count_chunks (\<lambda>st. st = BadSectorState) mfs (unat (cw_chunk_count w))"
proof -
  let ?n = "unat (cw_chunk_count w)"
  obtain z s where w: "chain_walk_walk P (summary_visit (ucast (chunk_size sb))) w summary_default = (z, s)" by fastforce
  from summary_visits [OF this [unfolded ready_walk [OF assms]]]
  have "z = Inr ()" "su_bad s = word_of_nat (count_chunks (\<lambda>st. st = BadSectorState) mfs ?n)"
    by (simp_all add: summary_default_def count_chunks_def)
  moreover have "count_chunks (\<lambda>st. st = BadSectorState) mfs ?n \<le> ?n"
    unfolding count_chunks_def by (rule order_trans [OF length_filter_le]) simp
  then have "count_chunks (\<lambda>st. st = BadSectorState) mfs ?n < 2 ^ 64"
    using unat_less_width(4) [of "cw_chunk_count w"] by (simp del: unat_less_width)
  ultimately show ?thesis using w assms by (simp add: block_chain_def chain_ready_def unat_of_nat_u64)
qed

lemma job_used_planned:
  assumes "backup_job_ok S args job dev used plan tmp spool"
  shows "unat ` covers (em_extents used) \<subseteq> (\<Union>r \<in> set (pending_chunks plan). span r)"
proof -
  let ?sb = "ij_superblock job"
  note j = assms [unfolded backup_job_ok_def Let_def]
  have b: "262144 \<le> unat (chunk_size ?sb)" "unat (chunk_size ?sb) \<le> 4194304" using chunk_size_bounds j by blast+
  have c: "(ucast (chunk_size ?sb) :: u64) \<noteq> 0" by (rule ucast_nonzero) (use b in simp)
  have u: "used_chunks_new used (ucast (chunk_size ?sb)) (source_size_bytes ?sb) = Inr plan"
      "\<forall>r \<in> set (em_extents used). range_ok r \<and> snd r < source_size_bytes ?sb"
      "unat (ucast (chunk_size ?sb) :: u64) < 2 ^ 32" "unat (source_size_bytes ?sb) + unat (ucast (chunk_size ?sb) :: u64) < 2 ^ 64"
    using j b by simp_all
  note al = chunk_aligned_correct [OF c u(2), folded plan_ok_new(3) [OF u(1,3,4,2)]]
  have "(\<Union>r \<in> set (pending_chunks plan). span r) = unat ` covers (uc_regions plan)"
    unfolding pending_new [OF u(1)] using b by (intro regions_chunks_span) simp
  then show ?thesis using image_mono [OF al(2), of unat] by simp
qed

lemma full_chain_ready:
  assumes "backup_job_ok S args job dev used plan tmp spool" "sb = ij_superblock job" "om_superblock m = sb"
    and "chain_walk_new P [m] = Inr (walk_of plan sb [m])" "chain_captures (=) P args sb dev plan [m] [mf]"
  shows "chain_ready P [m] sb (walk_of plan sb [m]) [mf] (co_kind (ba_options args))"
proof -
  note j = assms(1) [unfolded backup_job_ok_def Let_def, folded assms(2)]
  note pl = job_plan [OF assms(1,2)]
  have c: "0 < unat (chunk_size sb)" using chunk_size_bounds(1) [of sb] j by simp
  then have nz: "(ucast (chunk_size sb) :: u64) \<noteq> 0" by (rule ucast_nonzero)
  have "uc_chunk_count plan = div_ceil_u64 (source_size_bytes sb) (ucast (chunk_size sb))"
    using pl(6) j unat_div_ceil_u64 [OF nz, of "source_size_bytes sb"] by (simp add: word_unat_eq_iff)
  then show ?thesis using assms(3-5) j c by (auto simp: chain_ready_def chain_captures_def walk_of_def check_geometry_iff)
qed

lemma captured_restored:
  assumes "chunk_captured (=) P Abort acc dev plan i st" "chunk_restored P acc q st old new"
    and "r \<in> set (pending_chunks plan)" "fst r div unat (uc_chunk_size plan) = i" "q = r" "fst r + snd r \<le> length dev"
    and "\<forall>r' \<in> set (pending_chunks plan). fst r' div unat (uc_chunk_size plan) = i \<longrightarrow> r' = r"
  shows "chunk_bytes new r = chunk_bytes dev r"
proof -
  have "chunk_bytes dev r = replicate (snd r) 0" if "is_all_zero (chunk_bytes dev r)"
  proof -
    have "length (chunk_bytes dev r) = snd r" using assms(6) by (simp add: chunk_bytes_def)
    then show ?thesis using that by (intro replicate_eqI) (simp_all add: is_all_zero_def list_all_iff)
  qed
  moreover obtain r' where r': "r' \<in> set (pending_chunks plan)" "fst r' div unat (uc_chunk_size plan) = i"
      "st = Zero \<and> is_all_zero (chunk_bytes dev r')
        \<or> (\<exists>b m h off l. st = Stored m h off l \<and> chunk_access_read P acc st = Inr b \<and> b = chunk_bytes dev r')"
    using assms(1,3,4) unfolding chunk_captured_def by blast
  moreover have "r' = r" using assms(7) r'(1,2) by blast
  ultimately show ?thesis using assms(2,5) by (elim disjE exE conjE) (simp_all add: chunk_restored_def)
qed

lemma full_backup_restored:
  fixes v :: "'r restore_state"
  assumes "prims_ok P" "backup_job_ok S args job dev used plan tmp spool" "sb = ij_superblock job"
    and "rp_parent (ij_plan job) = None" "seq_in_chain sb = 0" "ba_on_bad_sector args = Abort"
    and "write_block_image P S args open_parent job plan tmp spool src = Some (Inr (cnt, f, ft))"
    and "opens_as P (file_data f) (ba_keys args) m"
    and "length dev \<le> length (target_bytes v)" "length (target_bytes v) < 2 ^ 64" "bt_faults (re_target v) = []"
    and "\<forall>off rp. fst (report off rp) = Inr ()"
  shows "\<exists>v'. write_block_chain P report [m] sb v = (Inr (), v') \<and> length (target_bytes v') = length (target_bytes v)
    \<and> (\<forall>k \<in> unat ` covers (em_extents used). target_bytes v' ! k = dev ! k)
    \<and> (\<forall>i < unat (uc_chunk_count plan). (\<forall>r \<in> set (pending_chunks plan). fst r div unat (chunk_size sb) \<noteq> i) \<longrightarrow>
         chunk_bytes (target_bytes v') (chunk_range sb i) = chunk_bytes (target_bytes v) (chunk_range sb i))
    \<and> drop (length dev) (target_bytes v') = drop (length dev) (target_bytes v)"
proof -
  let ?w = "walk_of plan sb [m]" and ?acc = "access_of [m] (co_kind (ba_options args)) (chunk_size sb)"
  note pl = job_plan [OF assms(2,3)]
  have dev: "unat (source_size_bytes sb) = length dev" using assms(2,3) by (simp add: backup_job_ok_def Let_def)
  obtain mf where mf: "om_superblock m = sb" "chain_walk_new P [m] = Inr ?w" "chain_captures (=) P args sb dev plan [m] [mf]"
    using full_image_chain [OF assms(1-5), of open_parent src] assms(7,8) by auto
  have cap: "chunk_captured (=) P Abort ?acc dev plan i (resolved [mf] i)" if "i < unat (uc_chunk_count plan)" for i
    using mf(3) that assms(6) by (simp add: chain_captures_def)
  have acc: "walk_access ?w (co_kind (ba_options args)) = ?acc" and n: "cw_chunk_count ?w = uc_chunk_count plan"
    by (simp_all add: walk_of_def)
  obtain z v' where run: "write_block_chain P report [m] sb v = (z, v')" by fastforce
  note o = write_block_chain_outcome [OF full_chain_ready [OF assms(2,3) mf] run assms(10), unfolded acc n]
  have planned: "fst r div unat (chunk_size sb) < unat (uc_chunk_count plan)" "chunk_range sb (fst r div unat (chunk_size sb)) = r"
      "fst r + snd r \<le> length dev" if "r \<in> set (pending_chunks plan)" for r
    using pl(3,4,5) that dev by (auto simp: plan_fits_def chunk_range_def prod_eq_iff)
  then have "length (chunk_bytes dev r) = snd r" if "r \<in> set (pending_chunks plan)" for r
    using that by (fastforce simp: chunk_bytes_def)
  then have "chunk_restorable P ?acc (chunk_range sb i) (resolved [mf] i)" if i: "i < unat (uc_chunk_count plan)" for i
    using cap [OF i] planned pl(3) by (auto simp: chunk_captured_def chunk_restorable_def)
  then have z: "z = Inr ()" using o(4) assms(9,11,12) dev by simp
  note restored = o(1) [OF z]
  have same: "chunk_bytes (target_bytes v') r = chunk_bytes dev r" if r: "r \<in> set (pending_chunks plan)" for r
  proof (rule captured_restored [OF cap restored r])
    show "\<forall>r' \<in> set (pending_chunks plan). fst r' div unat (uc_chunk_size plan) = fst r div unat (chunk_size sb) \<longrightarrow> r' = r"
      using planned(2) r pl(3) by metis
  qed (use planned [OF r] pl(3) in simp_all)
  have "target_bytes v' ! k = dev ! k" if k: "k \<in> unat ` covers (em_extents used)" for k
  proof -
    obtain r where r: "r \<in> set (pending_chunks plan)" "fst r \<le> k" "k < fst r + snd r"
      using job_used_planned [OF assms(2)] k by (auto simp: span_def)
    have "xs ! k = chunk_bytes xs r ! (k - fst r)" if "length dev \<le> length xs" for xs
      using r planned(3) [OF r(1)] that by (simp add: chunk_bytes_def slice_def)
    then show ?thesis using same [OF r(1)] o(2) assms(9) by simp
  qed
  moreover have "chunk_bytes (target_bytes v') (chunk_range sb i) = chunk_bytes (target_bytes v) (chunk_range sb i)"
    if i: "i < unat (uc_chunk_count plan)" "\<forall>r \<in> set (pending_chunks plan). fst r div unat (chunk_size sb) \<noteq> i" for i
    using cap [OF i(1)] restored [OF i(1)] i(2) pl(3) by (auto simp: chunk_captured_def chunk_restored_def)
  ultimately show ?thesis using run z o(2,3) dev by auto
qed

section \<open>Properties\<close>

text \<open>C6. A restore writes what the chain resolves to and nothing else.  Whatever the target does, its size
  and everything behind the end of the source stay; on success each chunk holds what its newest entry says:
  the stored payload, read back and of the right length, zeros, or, for an unused chunk, what the target held
  before.  On a target whose writes succeed, the restore succeeds if and only if the target is large enough
  and no chunk is unreadable, of the wrong length or recorded as a bad sector.\<close>

theorem restore_writes_chain:
  fixes v :: "'r restore_state"
  assumes "chain_ready P ms sb w mfs aead" "write_block_chain P report ms sb v = (z, v')" "length (target_bytes v) < 2 ^ 64"
  shows "length (target_bytes v') = length (target_bytes v)
    \<and> drop (unat (source_size_bytes sb)) (target_bytes v') = drop (unat (source_size_bytes sb)) (target_bytes v)
    \<and> (z = Inr () \<longrightarrow> (\<forall>i < unat (cw_chunk_count w).
         chunk_restored P (walk_access w aead) (chunk_range sb i) (resolved mfs i) (target_bytes v) (target_bytes v')))
    \<and> ((\<forall>off rp. fst (report off rp) = Inr ()) \<and> bt_faults (re_target v) = [] \<longrightarrow>
         (z = Inr () \<longleftrightarrow> unat (source_size_bytes sb) \<le> length (target_bytes v)
           \<and> (\<forall>i < unat (cw_chunk_count w). chunk_restorable P (walk_access w aead) (chunk_range sb i) (resolved mfs i))))"
  using write_block_chain_outcome [OF assms] by blast

text \<open>C18. An image with recorded bad sectors is refused before the target is touched: the plan check walks
  the whole chain, counts the chunks recorded as bad sectors without overflow, and lets a restore through
  exactly when there is none.\<close>

theorem bad_sectors_refused:
  assumes "chain_ready P ms sb w mfs aead"
  shows "\<exists>s. block_chain P ms sb = Inr s
    \<and> (refuse_bad_sectors s = Inr () \<longleftrightarrow> (\<forall>i < unat (cw_chunk_count w). resolved mfs i \<noteq> BadSectorState))"
proof -
  from block_chain_summary [OF assms] obtain s where s: "block_chain P ms sb = Inr s"
      "unat (su_bad s) = count_chunks (\<lambda>st. st = BadSectorState) mfs (unat (cw_chunk_count w))" by blast
  have "su_bad s = 0 \<longleftrightarrow> (\<forall>i < unat (cw_chunk_count w). resolved mfs i \<noteq> BadSectorState)"
    using s(2) by (auto simp: count_chunks_def filter_empty_conv simp flip: unat_eq_zero)
  then show ?thesis using s(1) by (simp add: refuse_bad_sectors_def)
qed

section \<open>An example\<close>

definition demo_target :: "unit restore_state" where
  "demo_target = \<lparr> re_target = \<lparr> bt_data = replicate 1048580 7, bt_alignment = 4096, bt_direct = True, bt_faults = [] \<rparr>,
     re_reporter = (), re_stored = 0, re_zero = 0, re_skipped = 0, re_bytes = 0 \<rparr>"

abbreviation quiet :: "u64 \<Rightarrow> unit \<Rightarrow> unit res \<times> unit" where
  "quiet \<equiv> \<lambda>off s. (Inr (), s)"

lemma demo_target_simps:
  "target_bytes demo_target = replicate 1048580 7" "bt_faults (re_target demo_target) = []" "length demo_dev = 1048576"
  "source_size_bytes (ij_superblock demo_job) = 1048576"
  by (simp_all add: demo_target_def demo_dev_def demo_job_def)

lemma demo_opened:
  obtains cnt f ft m where
    "write_block_image demo_prims demo_source demo_args (\<lambda>_. Inl (Io [])) demo_job demo_plan demo_file demo_spool () = Some (Inr (cnt, f, ft))"
    "opens_as demo_prims (file_data f) demo_keys m"
proof -
  obtain cnt f ft where run: "write_block_image demo_prims demo_source demo_args (\<lambda>_. Inl (Io [])) demo_job demo_plan demo_file demo_spool ()
      = Some (Inr (cnt, f, ft))" using demo_runs by blast
  have "image_opens demo_prims (ij_mac_key demo_job) (file_data f)"
    using full_image_chain [OF demo_prims_ok demo_job_ok refl demo_job_simps(4,5), of "\<lambda>_. Inl (Io [])" "()", unfolded run] by auto
  then show thesis using that run opens_as_exists by blast
qed

lemma demo_ready: "\<exists>m w mf. chain_ready demo_prims [m] (ij_superblock demo_job) w [mf] (co_kind demo_opts)"
proof -
  obtain cnt f ft m where run: "write_block_image demo_prims demo_source demo_args (\<lambda>_. Inl (Io [])) demo_job demo_plan demo_file demo_spool ()
      = Some (Inr (cnt, f, ft))" and m: "opens_as demo_prims (file_data f) demo_keys m" by (rule demo_opened)
  obtain mf where "om_superblock m = ij_superblock demo_job" "chain_walk_new demo_prims [m] = Inr (walk_of demo_plan (ij_superblock demo_job) [m])"
      "chain_captures (=) demo_prims demo_args (ij_superblock demo_job) demo_dev demo_plan [m] [mf]"
    using full_image_chain [OF demo_prims_ok demo_job_ok refl demo_job_simps(4,5), of "\<lambda>_. Inl (Io [])" "()", unfolded run demo_job_simps(1)] m by auto
  from full_chain_ready [OF demo_job_ok refl this] show ?thesis unfolding demo_job_simps by blast
qed

theorem restore_writes_chain_witness:
  "\<exists>m v'. write_block_chain demo_prims quiet [m] (ij_superblock demo_job) demo_target = v'
     \<and> length (target_bytes (snd v')) = 1048580 \<and> drop 1048576 (target_bytes (snd v')) = replicate 4 7"
proof -
  obtain m w mf where rd: "chain_ready demo_prims [m] (ij_superblock demo_job) w [mf] (co_kind demo_opts)" using demo_ready by blast
  obtain z v' where run: "write_block_chain demo_prims quiet [m] (ij_superblock demo_job) demo_target = (z, v')" by fastforce
  have "length (target_bytes v') = 1048580 \<and> drop 1048576 (target_bytes v') = replicate 4 7"
    using restore_writes_chain [OF rd run] by (simp add: demo_target_simps)
  then show ?thesis using run by (intro exI [of _ m] exI [of _ "(z, v')"]) simp
qed

theorem bad_sectors_refused_witness:
  "\<exists>m s. block_chain demo_prims [m] (ij_superblock demo_job) = Inr s"
proof -
  obtain m w mf where "chain_ready demo_prims [m] (ij_superblock demo_job) w [mf] (co_kind demo_opts)" using demo_ready by blast
  from bad_sectors_refused [OF this] show ?thesis by blast
qed

end
