(* ===== verification/Image_Export.thy ===== *)
theory Image_Export
  imports Block_Restore
begin

text \<open>
  \<open>crates/lr-export/src/backend.rs\<close>: the read-only block devices an export serves.  \<open>file_backend\<close> and
  \<open>image_backend\<close> are the structs of the two implementations of the trait \<open>BlockBackend\<close>; the mutexes become
  part of the state each read returns.  The locale \<open>block_backend\<close> is the contract of the trait, which both
  are shown to keep; an image is a device whose bytes are the payloads its chain resolves to.
\<close>

section \<open>The contract of a backend\<close>

text \<open>\<open>byte_of b k\<close> is the byte at address \<open>k\<close>, or the error that reading it gives.  A read inside the device
  returns its bytes, or one of the errors of the range; it changes neither.\<close>

definition read_result :: "(nat \<Rightarrow> u8 res) \<Rightarrow> nat \<Rightarrow> nat \<Rightarrow> bytes res \<Rightarrow> bool" where
  "read_result byte_of off n r \<longleftrightarrow>
     (case r of Inr bs \<Rightarrow> length bs = n \<and> (\<forall>k < n. byte_of (off + k) = Inr (bs ! k))
      | Inl e \<Rightarrow> \<exists>k < n. byte_of (off + k) = Inl e)"

locale block_backend =
  fixes size_of :: "'b \<Rightarrow> u64"
    and read_of :: "u64 \<Rightarrow> nat \<Rightarrow> 'b \<Rightarrow> bytes res \<times> 'b"
    and byte_of :: "'b \<Rightarrow> nat \<Rightarrow> u8 res"
    and backend_ok :: "'b \<Rightarrow> bool"
  assumes read_in_range:
    "backend_ok b \<Longrightarrow> unat off + n \<le> unat (size_of b) \<Longrightarrow> read_of off n b = (r, b') \<Longrightarrow>
       backend_ok b' \<and> size_of b' = size_of b \<and> byte_of b' = byte_of b \<and> read_result (byte_of b) (unat off) n r"

section \<open>A file\<close>

record file_backend =
  fb_file :: disk_file
  fb_size :: u64

definition fb_open :: "bytes \<Rightarrow> file_backend" where
  "fb_open content = \<lparr> fb_file = \<lparr> file_data = content, file_pos = 0, file_capacity = length content \<rparr>,
     fb_size = word_of_nat (length content) \<rparr>"

definition fb_read_at :: "u64 \<Rightarrow> nat \<Rightarrow> file_backend \<Rightarrow> bytes res \<times> file_backend" where
  "fb_read_at offset n b =
     (let f = (fb_file b)\<lparr> file_pos := unat offset \<rparr> in
      if unat offset + n \<le> length (file_data f)
        then (Inr (slice (unat offset) (unat offset + n) (file_data f)), b\<lparr> fb_file := f\<lparr> file_pos := unat offset + n \<rparr> \<rparr>)
        else (Inl (Io ''failed to fill whole buffer''), b\<lparr> fb_file := f\<lparr> file_pos := max (unat offset) (length (file_data f)) \<rparr> \<rparr>))"

section \<open>A chain of images\<close>

datatype chunk_slot = SlotZero | SlotBadSector | SlotStored u16 bytes u64 u32

record image_backend =
  ib_size :: u64
  ib_chunk_size :: u64
  ib_chunk_count :: u64
  ib_slots :: "u64 \<rightharpoonup> chunk_slot"
  ib_members :: "open_member list"
  ib_cache :: "(u64 \<times> bytes) option"
  ib_fs_type :: string
  ib_fs_uuid :: string
  ib_label :: string

definition slot_visit :: "(u64 \<rightharpoonup> chunk_slot) visitor" where
  "slot_visit access number state slots =
     (case state of
        Unused \<Rightarrow> (Inr (), slots)
      | Zero \<Rightarrow> (Inr (), slots(number \<mapsto> SlotZero))
      | BadSectorState \<Rightarrow> (Inr (), slots(number \<mapsto> SlotBadSector))
      | Stored member hash offset stored_len \<Rightarrow> (Inr (), slots(number \<mapsto> SlotStored member hash offset stored_len)))"

fun member_files :: "prims \<Rightarrow> (string \<Rightarrow> bytes res) \<Rightarrow> string list \<Rightarrow> chain_member_file list res" where
  "member_files P open_ro [] = Inr []"
| "member_files P open_ro (name # names) =
     res_bind (read_superblock P open_ro name) (\<lambda>m.
     res_bind (member_files P open_ro names) (\<lambda>fs.
       Inr (\<lparr> cf_file_name = name, cf_seq_in_chain = seq_in_chain m, cf_image_uuid = image_uuid m \<rparr> # fs)))"

definition export_check :: "superblock \<Rightarrow> unit res" where
  "export_check head =
     (if sb_image_kind head \<noteq> Block then Inl (Unsupported ''block export needs a Block image; this is '')
      else if sb_is_whole_disk head then
        Inl (Unsupported ''whole-disk export is not part of Slice S13; export one partition image'')
      else Inr ())"

text \<open>The index of the chain and the backend made of it, the second half of \<open>ImageBackend::open\<close>: the walk has
  its own handles, and the manifest header of the first member gives the facts of the filesystem.\<close>

definition index_chain :: "prims \<Rightarrow> open_member list \<Rightarrow> (u64 \<times> u64 \<times> (u64 \<rightharpoonup> chunk_slot)) res" where
  "index_chain P walk_members =
     res_bind (chain_walk_new P walk_members) (\<lambda>w.
       case chain_walk_walk P slot_visit w Map.empty of
         (Inl e, _) \<Rightarrow> Inl e
       | (Inr _, slots) \<Rightarrow> Inr (ucast (cw_chunk_size w), cw_chunk_count w, slots))"

definition backend_of ::
    "prims \<Rightarrow> superblock \<Rightarrow> u64 \<times> u64 \<times> (u64 \<rightharpoonup> chunk_slot) \<Rightarrow> open_member list \<Rightarrow> image_backend res" where
  "backend_of P head index read_members =
     (case index of (csz, chunks, slots) \<Rightarrow>
      res_bind (stream_bytes P (hd read_members) Manifest) (\<lambda>manifest.
      res_bind (block_header_read cursor_read manifest) (\<lambda>((header, delta), rest).
        if ucast (bm_chunk_size header) \<noteq> csz
          then Inl (Corrupt ''the manifest and the superblock disagree about the chunk size'')
        else Inr \<lparr> ib_size = source_size_bytes head, ib_chunk_size = csz, ib_chunk_count = chunks, ib_slots = slots,
          ib_members = read_members, ib_cache = None, ib_fs_type = bm_fs_type header, ib_fs_uuid = bm_fs_uuid header,
          ib_label = bm_label header \<rparr>)))"

definition image_backend_open ::
    "prims \<Rightarrow> argon2id \<Rightarrow> 's destination_ops \<Rightarrow> 's \<Rightarrow> string list \<Rightarrow> encryption \<Rightarrow> image_backend res" where
  "image_backend_open P argon2 D s images encryption =
     res_bind (member_files P (d_open_ro D s) images) (\<lambda>files.
       if files = [] then Inl (Unsupported ''the export has no images'')
       else res_bind (read_superblock P (d_open_ro D s) (cf_file_name (hd files))) (\<lambda>head.
         res_bind (export_check head) (\<lambda>_.
         res_bind (open_chain P argon2 D s files encryption) (\<lambda>walk_members.
         res_bind (index_chain P walk_members) (\<lambda>index.
         res_bind (open_chain P argon2 D s files encryption) (\<lambda>read_members.
           backend_of P head index read_members))))))"

definition saturating_mul_u64 :: "u64 \<Rightarrow> u64 \<Rightarrow> u64" where
  "saturating_mul_u64 a b = (if unat a * unat b < 2 ^ 64 then a * b else - 1)"

definition chunk_length :: "image_backend \<Rightarrow> u64 \<Rightarrow> nat" where
  "chunk_length b number =
     unat (min (saturating_sub_u64 (ib_size b) (saturating_mul_u64 number (ib_chunk_size b))) (ib_chunk_size b))"

text \<open>\<open>plaintext.resize(length, 0)\<close>.\<close>

definition resize :: "nat \<Rightarrow> bytes \<Rightarrow> bytes" where
  "resize n bs = take n bs @ replicate (n - length bs) 0"

definition chunk_decoded :: "prims \<Rightarrow> image_backend \<Rightarrow> u64 \<Rightarrow> bytes res" where
  "chunk_decoded P b number =
     (let len = chunk_length b number in
      case ib_slots b number of
        None \<Rightarrow> Inr (replicate len 0)
      | Some SlotZero \<Rightarrow> Inr (replicate len 0)
      | Some SlotBadSector \<Rightarrow> Inl (BadSector (number * ib_chunk_size b) (ib_chunk_size b))
      | Some (SlotStored member hash offset stored_len) \<Rightarrow>
          res_bind (entry_stored member hash offset stored_len) (\<lambda>entry.
            if unat member \<ge> length (ib_members b) then Inl (Corrupt ''chunk points at member '')
            else res_bind (chunk_plaintext P (ib_members b ! unat member) entry (unat (ib_chunk_size b))) (\<lambda>plaintext.
              Inr (resize len plaintext))))"

definition ib_chunk :: "prims \<Rightarrow> u64 \<Rightarrow> image_backend \<Rightarrow> bytes res \<times> image_backend" where
  "ib_chunk P number b =
     (case ib_cache b of
        Some (cached, bs) \<Rightarrow>
          if cached = number then (Inr bs, b)
          else (case chunk_decoded P b number of
                  Inl e \<Rightarrow> (Inl e, b) | Inr bs \<Rightarrow> (Inr bs, b\<lparr> ib_cache := Some (number, bs) \<rparr>))
      | None \<Rightarrow>
          (case chunk_decoded P b number of
             Inl e \<Rightarrow> (Inl e, b) | Inr bs \<Rightarrow> (Inr bs, b\<lparr> ib_cache := Some (number, bs) \<rparr>)))"

text \<open>The loop of \<open>read_at\<close>: \<open>n\<close> bytes of the buffer are still to be filled.\<close>

function ib_read_loop :: "prims \<Rightarrow> u64 \<Rightarrow> nat \<Rightarrow> image_backend \<Rightarrow> bytes res \<times> image_backend" where
  "ib_read_loop P position n b =
     (if n = 0 then (Inr [], b)
      else
        (let number = position div ib_chunk_size b in
         if number \<ge> ib_chunk_count b then (Inr (replicate n 0), b)
         else st_bind (ib_chunk P number b) (\<lambda>chunk b.
           let within = unat (position mod ib_chunk_size b);
               available = length chunk - within;
               take = min available n in
           if take = 0 then
             st_bind (ib_read_loop P (position + 1) (n - 1) b) (\<lambda>rest b. (Inr (0 # rest), b))
           else
             st_bind (ib_read_loop P (position + word_of_nat take) (n - take) b) (\<lambda>rest b.
               (Inr (slice within (within + take) chunk @ rest), b)))))"
  by pat_completeness auto
termination
  by (relation "measure (\<lambda>(P, p, n, b). n)") auto

declare ib_read_loop.simps [simp del]

definition ib_read_at :: "prims \<Rightarrow> u64 \<Rightarrow> nat \<Rightarrow> image_backend \<Rightarrow> bytes res \<times> image_backend" where
  "ib_read_at P offset n b =
     (case checked_add_u64 offset (word_of_nat n) of
        None \<Rightarrow> (Inl (Corrupt ''read past the address space''), b)
      | Some end \<Rightarrow>
          if end > ib_size b then (Inl (Corrupt ''read of ''), b) else ib_read_loop P offset n b)"

section \<open>Both backends keep the contract\<close>

definition fb_byte :: "file_backend \<Rightarrow> nat \<Rightarrow> u8 res" where
  "fb_byte b k = (if k < length (file_data (fb_file b)) then Inr (file_data (fb_file b) ! k) else Inl (Io ''failed to fill whole buffer''))"

interpretation file_dev: block_backend fb_size fb_read_at fb_byte "\<lambda>b. unat (fb_size b) \<le> length (file_data (fb_file b))"
  by unfold_locales (auto simp: fb_read_at_def fb_byte_def read_result_def Let_def fun_eq_iff slice_def split: if_splits)

definition ib_byte :: "prims \<Rightarrow> image_backend \<Rightarrow> nat \<Rightarrow> u8 res" where
  "ib_byte P b k =
     (let c = unat (ib_chunk_size b); number = k div c in
      if number \<ge> unat (ib_chunk_count b) then Inr 0
      else (case chunk_decoded P b (word_of_nat number) of
              Inl e \<Rightarrow> Inl e
            | Inr bs \<Rightarrow> if k mod c < length bs then Inr (bs ! (k mod c)) else Inr 0))"

definition ib_ok :: "prims \<Rightarrow> image_backend \<Rightarrow> bool" where
  "ib_ok P b \<longleftrightarrow> ib_chunk_size b \<noteq> 0 \<and> (\<forall>k bs. ib_cache b = Some (k, bs) \<longrightarrow> chunk_decoded P b k = Inr bs)"

lemma cache_frame [simp]:
  "chunk_decoded P (b\<lparr> ib_cache := c \<rparr>) = chunk_decoded P b" "ib_byte P (b\<lparr> ib_cache := c \<rparr>) = ib_byte P b"
proof -
  show d: "chunk_decoded P (b\<lparr> ib_cache := c \<rparr>) = chunk_decoded P b"
    by (rule ext) (simp add: chunk_decoded_def chunk_length_def Let_def cong: if_cong split: option.split chunk_slot.split)
  show "ib_byte P (b\<lparr> ib_cache := c \<rparr>) = ib_byte P b" by (rule ext) (simp add: ib_byte_def d Let_def cong: if_cong)
qed

lemma decoded_length: "chunk_decoded P b k = Inr bs \<Longrightarrow> length bs = chunk_length b k"
  by (auto simp: chunk_decoded_def Let_def resize_def res_bind_eq_Inr split: option.splits chunk_slot.splits if_splits)

lemma chunk_length_le: "chunk_length b k \<le> unat (ib_chunk_size b)"
  by (simp add: chunk_length_def min_def word_le_nat_alt)

lemma ib_chunk_cached:
  assumes "ib_ok P b" "ib_chunk P k b = (r, b')"
  shows "r = chunk_decoded P b k" "ib_ok P b'" "\<exists>c. b' = b\<lparr> ib_cache := c \<rparr>"
proof -
  have "b\<lparr> ib_cache := ib_cache b \<rparr> = b" by simp
  then have b: "\<exists>c. b = b\<lparr> ib_cache := c \<rparr>" by metis
  show "r = chunk_decoded P b k"
    using assms by (auto simp: ib_chunk_def ib_ok_def split: option.splits if_splits sum.splits)
  show "ib_ok P b'"
    using assms by (auto simp: ib_chunk_def ib_ok_def split: option.splits if_splits sum.splits)
  show "\<exists>c. b' = b\<lparr> ib_cache := c \<rparr>"
    using assms(2) b by (auto simp: ib_chunk_def split: option.splits if_splits sum.splits)
qed

lemma read_result_Nil [simp]: "read_result f off 0 (Inr [])"
  by (simp add: read_result_def)

lemma read_result_append:
  assumes "read_result f (off + length bs) m r" "\<forall>k < length bs. f (off + k) = Inr (bs ! k)" "n = length bs + m"
  shows "read_result f off n (case r of Inl e \<Rightarrow> Inl e | Inr rest \<Rightarrow> Inr (bs @ rest))"
proof (cases r)
  case (Inl e)
  then obtain k where "k < m" "f (off + (length bs + k)) = Inl e" using assms(1) by (auto simp: read_result_def add.assoc)
  then show ?thesis using Inl assms(3) by (auto simp: read_result_def intro!: exI [of _ "length bs + k"])
next
  case (Inr rest)
  have "f (off + k) = Inr ((bs @ rest) ! k)" if "k < n" for k
    using assms that Inr by (cases "k < length bs") (auto simp: read_result_def nth_append add.assoc dest: spec [of _ "k - length bs"])
  then show ?thesis using Inr assms(1,3) by (simp add: read_result_def)
qed

lemma add_within_block:
  assumes "(a :: nat) mod c + j < c"
  shows "(a + j) mod c = a mod c + j" "(a + j) div c = a div c"
proof -
  have e: "a + j = (a mod c + j) + a div c * c" by simp
  show "(a + j) mod c = a mod c + j" unfolding e using assms by (subst mod_mult_self1) simp
  show "(a + j) div c = a div c" unfolding e using assms by (subst div_mult_self1) auto
qed

lemma ib_read_loop_result:
  assumes "ib_ok P b" "unat p + n < 2 ^ 64" "ib_read_loop P p n b = (r, b')"
  shows "ib_ok P b' \<and> (\<exists>c. b' = b\<lparr> ib_cache := c \<rparr>) \<and> read_result (ib_byte P b) (unat p) n r"
  using assms
proof (induction n arbitrary: p b r b' rule: less_induct)
  case (less n)
  let ?c = "unat (ib_chunk_size b)" and ?k = "p div ib_chunk_size b"
  have c: "0 < ?c" using less.prems(1) by (simp add: ib_ok_def unat_gt_0)
  have k: "unat ?k = unat p div ?c" "unat (p mod ib_chunk_size b) = unat p mod ?c" by (simp_all add: unat_div unat_mod)
  then have kw: "word_of_nat (unat p div ?c) = ?k" by (metis word_of_unat)
  consider (nothing) "n = 0" | (past) "0 < n" "?k \<ge> ib_chunk_count b" | (inside) "0 < n" "\<not> ?k \<ge> ib_chunk_count b" by linarith
  then show ?case
  proof cases
    case nothing
    then show ?thesis using less.prems by (subst (asm) ib_read_loop.simps) (auto intro: exI [of _ "ib_cache b"])
  next
    case past
    have "unat (ib_chunk_count b) \<le> (unat p + j) div ?c" for j
      using past(2) k(1) div_le_mono [of "unat p" "unat p + j" ?c] by (simp add: word_le_nat_alt)
    then show ?thesis using past less.prems
      by (subst (asm) ib_read_loop.simps) (auto simp: ib_byte_def Let_def read_result_def intro: exI [of _ "ib_cache b"])
  next
    case inside
    obtain q b1 where q: "ib_chunk P ?k b = (q, b1)" by fastforce
    note ch = ib_chunk_cached [OF less.prems(1) q]
    obtain cc where b1: "b1 = b\<lparr> ib_cache := cc \<rparr>" using ch(3) by blast
    have byte: "ib_byte P b j = (case q of Inl e \<Rightarrow> Inl e | Inr bs \<Rightarrow> if j mod ?c < length bs then Inr (bs ! (j mod ?c)) else Inr 0)"
      if "j div ?c = unat p div ?c" for j
      using inside(2) ch(1) that k(1) by (simp add: ib_byte_def Let_def word_le_nat_alt kw)
    show ?thesis
    proof (cases q)
      case (Inl e)
      have "ib_byte P b (unat p) = Inl e" using byte [of "unat p"] Inl by simp
      then have "read_result (ib_byte P b) (unat p) n (Inl e)" using inside(1) by (auto simp: read_result_def)
      moreover have "ib_read_loop P p n b = (Inl e, b1)" using inside q Inl by (subst ib_read_loop.simps) (simp add: Let_def)
      ultimately show ?thesis using less.prems(3) ch(2,3) by auto
    next
      case (Inr bs)
      define w t where "w = unat p mod ?c" and "t = min (length bs - w) n"
      define d part where "d = (if t = 0 then 1 else t)" and "part = (if t = 0 then [0] else slice w (w + t) bs)"
      have lb: "length bs \<le> ?c" using decoded_length chunk_length_le Inr ch(1) by metis
      have w: "unat (p mod ib_chunk_size b1) = w" using k(2) b1 by (simp add: w_def)
      have d: "0 < d" "d \<le> n" "length part = d" using inside(1) by (auto simp: d_def part_def t_def)
      obtain r2 b2 where rest: "ib_read_loop P (p + word_of_nat d) (n - d) b1 = (r2, b2)" by fastforce
      have p: "unat (p + word_of_nat d) = unat p + d"
        using less.prems(2) d(2) by (simp add: unat_word_ariths unat_of_nat_u64)
      have ih: "ib_ok P b2" "\<exists>c. b2 = b\<lparr> ib_cache := c \<rparr>" "read_result (ib_byte P b) (unat p + d) (n - d) r2"
        using less.IH [OF _ ch(2) _ rest] d less.prems(2) p b1 by auto
      have "ib_read_loop P p n b = ((case r2 of Inl e \<Rightarrow> Inl e | Inr rest \<Rightarrow> Inr (part @ rest)), b2)"
        using inside q Inr rest by (subst ib_read_loop.simps)
          (cases r2; simp add: Let_def w d_def part_def t_def [symmetric] split: if_splits)
      moreover have "\<forall>j < length part. ib_byte P b (unat p + j) = Inr (part ! j)"
      proof (intro allI impI)
        fix j assume j: "j < length part"
        show "ib_byte P b (unat p + j) = Inr (part ! j)"
        proof (cases "t = 0")
          case True
          then have "j = 0" "\<not> w < length bs" using j inside(1) by (auto simp: part_def t_def)
          then show ?thesis using byte [of "unat p"] Inr True by (simp add: part_def w_def)
        next
          case False
          then have jt: "j < t" using j by (simp add: part_def)
          then have "w + j < length bs" unfolding t_def by linarith
          moreover have "(unat p + j) mod ?c = w + j" "(unat p + j) div ?c = unat p div ?c"
            using \<open>w + j < length bs\<close> lb by (auto simp: w_def intro!: add_within_block)
          ultimately show ?thesis using byte [of "unat p + j"] Inr False jt by (simp add: part_def slice_def)
        qed
      qed
      ultimately show ?thesis
        using read_result_append [OF ih(3) [folded d(3)]] d less.prems(3) ih(1,2) by auto
    qed
  qed
qed

interpretation image_dev: block_backend ib_size "ib_read_at P" "ib_byte P" "ib_ok P" for P
proof unfold_locales
  fix b off n r b'
  assume b: "ib_ok P b" "unat off + n \<le> unat (ib_size b)" "ib_read_at P off n b = (r, b')"
  have size: "unat (ib_size b) < 2 ^ 64" by simp
  then have n: "unat (word_of_nat n :: u64) = n" using b(2) by (intro unat_of_nat_u64) linarith
  have lt: "unat off + n < 2 ^ 64" using b(2) size by linarith
  have "unat (off + word_of_nat n) = unat off + n" using lt n by (subst unat_add_u64) simp_all
  then have "ib_read_loop P off n b = (r, b')"
    using b(2,3) lt n by (simp add: ib_read_at_def checked_add_u64_def word_less_nat_alt)
  from ib_read_loop_result [OF b(1) lt this]
  show "ib_ok P b' \<and> ib_size b' = ib_size b \<and> ib_byte P b' = ib_byte P b \<and> read_result (ib_byte P b) (unat off) n r"
    by auto
qed

section \<open>The index of a chain\<close>

definition slot_of :: "chunk_state \<Rightarrow> chunk_slot option" where
  "slot_of st = (case st of Unused \<Rightarrow> None | Zero \<Rightarrow> Some SlotZero | BadSectorState \<Rightarrow> Some SlotBadSector
     | Stored m h off l \<Rightarrow> Some (SlotStored m h off l))"

lemma slot_visits:
  assumes "n < 2 ^ 64"
  shows "run_visits (slot_visit acc) (map (\<lambda>i. (word_of_nat i, st i)) [0..<n]) Map.empty
    = (Inr (), \<lambda>k. if unat k < n then slot_of (st (unat k)) else None)"
  using assms
proof (induction n)
  case (Suc n)
  have n: "unat (word_of_nat n :: u64) = n" using Suc.prems by (intro unat_of_nat_u64) simp
  have k: "unat k = n \<longleftrightarrow> k = word_of_nat n" for k :: u64 using n by (metis word_of_unat)
  have upd: "(\<lambda>k :: u64. if unat k < Suc n then slot_of (st (unat k)) else None)
      = (case slot_of (st n) of None \<Rightarrow> (\<lambda>k. if unat k < n then slot_of (st (unat k)) else None)
         | Some s \<Rightarrow> (\<lambda>k. if unat k < n then slot_of (st (unat k)) else None)(word_of_nat n \<mapsto> s))" (is "?L = ?R")
  proof (rule ext)
    fix k :: u64
    show "?L k = ?R k" using n k [of k] by (cases "k = word_of_nat n") (auto simp: less_Suc_eq split: option.split)
  qed
  show ?case
    unfolding upd using Suc by (simp add: run_visits_append slot_visit_def slot_of_def split: chunk_state.split)
qed simp

definition backend_shows :: "chain_walk \<Rightarrow> superblock \<Rightarrow> manifest list \<Rightarrow> image_backend \<Rightarrow> bool" where
  "backend_shows w sb mfs b \<longleftrightarrow> ib_size b = source_size_bytes sb \<and> ib_chunk_size b = ucast (chunk_size sb)
     \<and> ib_chunk_count b = cw_chunk_count w \<and> ib_members b = cw_members w \<and> ib_cache b = None
     \<and> (\<forall>i < unat (cw_chunk_count w). ib_slots b (word_of_nat i) = slot_of (resolved mfs i))"

lemma stream_bytes_loop_ok:
  "pages_ok P st \<Longrightarrow> pages_nonempty P st \<Longrightarrow> stream_bytes_loop P st sink = Inr (sink @ page_remaining P st)"
proof (induction P st sink rule: stream_bytes_loop.induct)
  case (1 P st sink)
  obtain bs st' where r: "read_bytes_partial P (64 * 1024) st = Inr (bs, st')" "page_remaining P st = bs @ page_remaining P st'"
      "pages_ok P st'" "pages_nonempty P st'" "bs = [] \<longrightarrow> page_remaining P st = []"
    using read_bytes_partial_spec [OF "1.prems", of "64 * 1024"] by auto
  show ?case
  proof (cases "bs = []")
    case True
    then show ?thesis using r(1,5) by (subst stream_bytes_loop.simps) simp
  next
    case False
    then have "stream_bytes_loop P st' (sink @ bs) = Inr ((sink @ bs) @ page_remaining P st')"
      by (intro "1.IH" [OF r(1) refl]) (use r in auto)
    then show ?thesis using False r(1,2) by (subst stream_bytes_loop.simps) simp
  qed
qed

lemma export_opens:
  assumes "chain_ready P ms sb w mfs aead" "cw_members w = ms" "manifest_pages P (hd ms)"
  shows "\<exists>index b. index_chain P ms = Inr index \<and> backend_of P sb index ms = Inr b \<and> backend_shows w sb mfs b"
proof -
  note rd = assms(1) [unfolded chain_ready_def]
  define slots where "slots = (\<lambda>k :: u64. if unat k < unat (cw_chunk_count w) then slot_of (resolved mfs (unat k)) else None)"
  have n: "unat (cw_chunk_count w) < 2 ^ 64" by simp
  have idx: "index_chain P ms = Inr (ucast (cw_chunk_size w), cw_chunk_count w, slots)"
    using rd ready_walk [OF assms(1), of slot_visit Map.empty] slot_visits [OF n] by (simp add: index_chain_def slots_def)
  obtain mf h where h: "member_manifest P (hd ms) h mf" "bm_chunk_size h = cw_chunk_size w"
    using rd assms(2) by (cases ms; cases mfs) (auto simp: chain_manifests_def)
  obtain st hb rest where st: "manifest_stream P (hd ms) = Inr st" "pages_ok P st" "block_header_wf h"
      "block_header_write h (\<not> is_entries mf) = Inr hb" "page_remaining P st = hb @ manifest_layout mf @ rest"
    using h(1) by (auto simp: member_manifest_def)
  have "pages_nonempty P st" using assms(3) st(1) by (auto simp: manifest_pages_def)
  then have "stream_bytes P (hd ms) Manifest = Inr (hb @ manifest_layout mf @ rest)"
    using st(1,2,5) stream_bytes_loop_ok [of P st "[]"] by (auto simp: stream_bytes_def manifest_stream_def res_bind_eq_Inr)
  moreover obtain s' where "block_header_read cursor_read (hb @ manifest_layout mf @ rest) = Inr ((h, \<not> is_entries mf), s')"
    using decodesD [OF cursor.block_header_decodes [OF st(3,4)], of "hb @ manifest_layout mf @ rest"] by auto
  ultimately obtain b where b: "backend_of P sb (ucast (cw_chunk_size w), cw_chunk_count w, slots) ms = Inr b"
      "ib_size b = source_size_bytes sb" "ib_chunk_size b = ucast (cw_chunk_size w)" "ib_chunk_count b = cw_chunk_count w"
      "ib_slots b = slots" "ib_members b = ms" "ib_cache b = None"
    using h(2) by (simp add: backend_of_def)
  moreover have "unat (word_of_nat i :: u64) = i" if "i < unat (cw_chunk_count w)" for i
    using that n by (intro unat_of_nat_u64) linarith
  then have "slots (word_of_nat i) = slot_of (resolved mfs i)" if "i < unat (cw_chunk_count w)" for i
    using that by (simp add: slots_def)
  ultimately show ?thesis
    using idx rd assms(2) by (auto simp: backend_shows_def check_geometry_iff)
qed

section \<open>The bytes an export serves\<close>

text \<open>A member whose keys fit its header: the walk uses the first member's cipher and the keys as they are,
  \<open>chunk_plaintext\<close> the member's own header.\<close>

definition member_fits :: "aead_kind \<Rightarrow> image_kind \<Rightarrow> open_member \<Rightarrow> bool" where
  "member_fits aead kind m \<longleftrightarrow> sb_aead_kind (om_superblock m) = Inr aead \<and> sb_image_kind (om_superblock m) = kind
     \<and> (sb_is_encrypted (om_superblock m) \<longleftrightarrow> ik_data_key (om_keys m) \<noteq> None)"

lemma plaintext_access:
  assumes "unat member < length ms" "member_fits aead (sb_image_kind (om_superblock (hd ms))) (ms ! unat member)" "member \<le> max_member"
  shows "res_bind (entry_stored member h off l) (\<lambda>e. chunk_plaintext P (ms ! unat member) e (unat csz))
    = chunk_access_read P (access_of ms aead csz) (Stored member h off l)"
  using assms
  by (auto simp: entry_stored_def chunk_plaintext_def chunk_access_read_def access_of_def member_fits_def Let_def split: option.split)

lemma export_chunk_length:
  assumes "chain_ready P ms sb w mfs aead" "backend_shows w sb mfs b" "i < unat (cw_chunk_count w)"
  shows "chunk_length b (word_of_nat i) = snd (chunk_range sb i)"
proof -
  have c: "0 < unat (chunk_size sb)" and n: "i < unat (div_ceil_u64 (source_size_bytes sb) (ucast (chunk_size sb)))"
    using assms(1,3) by (auto simp: chain_ready_def check_geometry_iff unat_gt_0)
  note o = chunk_offset [OF n c]
  have s: "unat (source_size_bytes sb) < 2 ^ 64" by simp
  have "i \<le> i * unat (chunk_size sb)" using c by simp
  then have i: "unat (word_of_nat i :: u64) = i" using o(1) s by (intro unat_of_nat_u64) linarith
  have "i * unat (chunk_size sb) < 2 ^ 64" using o(1) s by linarith
  then have "saturating_mul_u64 (word_of_nat i) (ucast (chunk_size sb)) = word_of_nat i * ucast (chunk_size sb)"
    using i by (simp add: saturating_mul_u64_def)
  moreover have "\<not> source_size_bytes sb < word_of_nat i * ucast (chunk_size sb)" using o(1,2) by (simp add: word_less_nat_alt)
  ultimately show ?thesis
    using assms(2) o(3) by (simp add: chunk_length_def backend_shows_def saturating_sub_u64_def min.commute)
qed

lemma export_chunk_restored:
  assumes "chain_ready P ms sb w mfs aead" "cw_members w = ms" "backend_shows w sb mfs b" "i < unat (cw_chunk_count w)"
    and "\<forall>m \<in> set ms. member_fits aead (sb_image_kind (om_superblock (hd ms))) m"
    and "chunk_restored P (walk_access w aead) (chunk_range sb i) (resolved mfs i) old new"
    and "chunk_bytes old (chunk_range sb i) = replicate (snd (chunk_range sb i)) 0"
  shows "chunk_decoded P b (word_of_nat i) = Inr (chunk_bytes new (chunk_range sb i))"
proof -
  note rd = assms(1) [unfolded chain_ready_def]
  note bs = assms(3) [unfolded backend_shows_def]
  note len = export_chunk_length [OF assms(1,3,4)]
  have slot: "ib_slots b (word_of_nat i) = slot_of (resolved mfs i)" using bs assms(4) by blast
  have cs: "unat (ib_chunk_size b) = unat (cw_chunk_size w)" using bs rd by (simp add: check_geometry_iff)
  show ?thesis
  proof (cases "resolved mfs i")
    case (Stored member h off l)
    have wf: "member \<le> max_member"
      using resolved_wf [OF chain_manifests_wf, of P w mfs "unat (cw_chunk_count w)" i] rd assms(4) Stored
      by (simp add: chain_covers_def state_wf_def)
    have rdc: "chunk_access_read P (access_of ms aead (cw_chunk_size w)) (Stored member h off l) = Inr (chunk_bytes new (chunk_range sb i))"
        "length (chunk_bytes new (chunk_range sb i)) = snd (chunk_range sb i)"
      using assms(2,6) Stored by (simp_all add: chunk_restored_def)
    then have m: "unat member < length ms" by (auto simp: chunk_access_read_def access_of_def Let_def split: if_splits)
    have fit: "member_fits aead (sb_image_kind (om_superblock (hd ms))) (ms ! unat member)" using assms(5) m by simp
    have pa: "res_bind (entry_stored member h off l) (\<lambda>e. chunk_plaintext P (ms ! unat member) e (unat (cw_chunk_size w)))
        = Inr (chunk_bytes new (chunk_range sb i))"
      using plaintext_access [OF m fit wf, of h off l P "cw_chunk_size w"] rdc(1) by simp
    then obtain e where e: "entry_stored member h off l = Inr e"
        "chunk_plaintext P (ms ! unat member) e (unat (cw_chunk_size w)) = Inr (chunk_bytes new (chunk_range sb i))"
      by (auto simp: res_bind_eq_Inr)
    have "resize (chunk_length b (word_of_nat i)) (chunk_bytes new (chunk_range sb i)) = chunk_bytes new (chunk_range sb i)"
      using len rdc(2) by (simp add: resize_def)
    then show ?thesis using e m bs assms(2) slot Stored cs by (simp add: chunk_decoded_def slot_of_def Let_def)
  next
    case Zero
    then show ?thesis using slot len assms(6) by (simp add: chunk_decoded_def slot_of_def chunk_restored_def Let_def)
  next
    case Unused
    then show ?thesis using slot len assms(6,7) by (simp add: chunk_decoded_def slot_of_def chunk_restored_def Let_def)
  next
    case BadSectorState
    then show ?thesis using assms(6) by (simp add: chunk_restored_def)
  qed
qed

lemma block_of_byte:
  assumes "0 < (c :: nat)" "k < s"
  shows "k div c * c \<le> k" "k < k div c * c + min c (s - k div c * c)" "k div c * c + min c (s - k div c * c) \<le> s"
    and "k - k div c * c = k mod c"
proof -
  define a b where "a = k div c * c" and "b = k mod c"
  have "k = a + b" "b < c" using assms(1) by (simp_all add: a_def b_def)
  then have "a \<le> k" "k < a + min c (s - a)" "a + min c (s - a) \<le> s" "k - a = b" using assms(2) by (auto simp: min_def)
  then show "k div c * c \<le> k" "k < k div c * c + min c (s - k div c * c)" "k div c * c + min c (s - k div c * c) \<le> s"
    "k - k div c * c = k mod c" unfolding a_def b_def by blast+
qed

lemma export_byte_restored:
  assumes "chain_ready P ms sb w mfs aead" "cw_members w = ms" "backend_shows w sb mfs b"
    and "\<forall>m \<in> set ms. member_fits aead (sb_image_kind (om_superblock (hd ms))) m"
    and "\<forall>i < unat (cw_chunk_count w). chunk_restored P (walk_access w aead) (chunk_range sb i) (resolved mfs i) old new"
    and "\<forall>k < unat (source_size_bytes sb). old ! k = 0" "unat (source_size_bytes sb) \<le> length old" "length new = length old"
    and "k < unat (source_size_bytes sb)"
  shows "ib_byte P b k = Inr (new ! k)"
proof -
  let ?c = "unat (chunk_size sb)" and ?s = "unat (source_size_bytes sb)" and ?i = "k div unat (chunk_size sb)"
  note rd = assms(1) [unfolded chain_ready_def]
  have c: "0 < ?c" and cw: "cw_chunk_count w = div_ceil_u64 (source_size_bytes sb) (ucast (chunk_size sb))"
    using rd by (auto simp: check_geometry_iff unat_gt_0)
  have "unat (cw_chunk_count w) = (?s + ?c - 1) div ?c"
    unfolding cw using unat_div_ceil_u64 [OF ucast_nonzero [OF c], of "source_size_bytes sb"] by simp
  then have i: "?i < unat (cw_chunk_count w)"
    using nat_div_ceil_bounds(1) [OF c, of ?s] assms(9) c by (metis less_mult_imp_div_less order_less_le_trans)
  define r where "r = chunk_range sb ?i"
  have r: "fst r = ?i * ?c" "fst r \<le> k" "k < fst r + snd r" "fst r + snd r \<le> ?s" "k - fst r = k mod ?c"
    using block_of_byte [OF c assms(9)] by (simp_all add: r_def chunk_range_def)
  have "chunk_bytes old r = replicate (snd r) 0"
    using assms(6,7) r(4) by (intro nth_equalityI) (auto simp: chunk_bytes_def slice_def)
  then have d: "chunk_decoded P b (word_of_nat ?i) = Inr (chunk_bytes new r)"
    unfolding r_def by (rule export_chunk_restored [OF assms(1-3) i assms(4) assms(5) [rule_format, OF i]])
  have "k mod ?c < length (chunk_bytes new r)" "chunk_bytes new r ! (k mod ?c) = new ! k"
    using r(2-4) assms(7,8) unfolding r(5) [symmetric] by (auto simp: chunk_bytes_def slice_def)
  then show ?thesis using d i assms(3) by (simp add: ib_byte_def backend_shows_def Let_def)
qed

text \<open>A client's reads, one after the other on the same backend.\<close>

fun read_all :: "prims \<Rightarrow> (u64 \<times> nat) list \<Rightarrow> image_backend \<Rightarrow> bytes res list" where
  "read_all P [] b = []"
| "read_all P ((off, n) # rs) b = (case ib_read_at P off n b of (r, b') \<Rightarrow> r # read_all P rs b')"

lemma read_result_known:
  assumes "read_result f off n r" "\<forall>k < n. f (off + k) = Inr (xs ! (off + k))" "off + n \<le> length xs"
  shows "r = Inr (slice off (off + n) xs)"
proof (cases r)
  case (Inl e)
  then show ?thesis using assms(1,2) by (auto simp: read_result_def)
next
  case (Inr bs)
  then have "bs = slice off (off + n) xs" using assms by (intro nth_equalityI) (auto simp: read_result_def slice_def)
  then show ?thesis using Inr by simp
qed

lemma read_all_known:
  assumes "ib_ok P b" "\<forall>(off, n) \<in> set rs. unat off + n \<le> unat (ib_size b)"
    and "\<forall>k < unat (ib_size b). ib_byte P b k = Inr (xs ! k)" "unat (ib_size b) \<le> length xs"
  shows "read_all P rs b = map (\<lambda>(off, n). Inr (slice (unat off) (unat off + n) xs)) rs"
  using assms
proof (induction rs arbitrary: b)
  case (Cons q rs)
  obtain off n where q: "q = (off, n)" by fastforce
  obtain r b' where r: "ib_read_at P off n b = (r, b')" by fastforce
  have off: "unat off + n \<le> unat (ib_size b)" using Cons.prems(2) q by simp
  note step = image_dev.read_in_range [OF Cons.prems(1) off r]
  have "r = Inr (slice (unat off) (unat off + n) xs)"
    using step Cons.prems(3,4) off by (intro read_result_known [of "ib_byte P b"]) auto
  moreover have "read_all P rs b' = map (\<lambda>(off, n). Inr (slice (unat off) (unat off + n) xs)) rs"
    using step Cons.prems by (intro Cons.IH) auto
  ultimately show ?case using q r by simp
qed simp

lemma backend_shows_ok: "backend_shows w sb mfs b \<Longrightarrow> chunk_size sb \<noteq> 0 \<Longrightarrow> ib_ok P b"
  using ucast_nonzero [of "chunk_size sb"] by (simp add: backend_shows_def ib_ok_def unat_gt_0)

text \<open>The export of a full backup: the bytes the filesystem used are those of the device, and a chunk the
  backup did not read is zeros.\<close>

definition blank_target :: "nat \<Rightarrow> unit restore_state" where
  "blank_target n = \<lparr> re_target = \<lparr> bt_data = replicate n 0, bt_alignment = 512, bt_direct = False, bt_faults = [] \<rparr>,
     re_reporter = (), re_stored = 0, re_zero = 0, re_skipped = 0, re_bytes = 0 \<rparr>"

lemma blank_target_simps [simp]:
  "target_bytes (blank_target n) = replicate n 0" "bt_faults (re_target (blank_target n)) = []"
  by (simp_all add: blank_target_def)

lemma full_backup_exported:
  assumes "prims_ok P" "backup_job_ok S args job dev used plan tmp spool" "sb = ij_superblock job"
    and "rp_parent (ij_plan job) = None" "seq_in_chain sb = 0" "ba_on_bad_sector args = Abort"
    and "write_block_image P S args open_parent job plan tmp spool src = Some (Inr (cnt, f, ft))"
    and "opens_as P (file_data f) (ba_keys args) m" "sb_is_encrypted sb \<longleftrightarrow> wk_data_key (ba_keys args) \<noteq> None"
  shows "\<exists>index b. index_chain P [m] = Inr index \<and> backend_of P sb index [m] = Inr b \<and> ib_ok P b
    \<and> ib_size b = source_size_bytes sb \<and> (\<forall>k \<in> unat ` covers (em_extents used). ib_byte P b k = Inr (dev ! k))
    \<and> (\<forall>k < length dev. \<exists>x. ib_byte P b k = Inr x)"
proof -
  let ?w = "walk_of plan sb [m]" and ?v = "blank_target (length dev)" and ?aead = "co_kind (ba_options args)"
  note j = assms(2) [unfolded backup_job_ok_def Let_def, folded assms(3)]
  obtain mf where mf: "om_superblock m = sb" "manifest_pages P m" "chain_walk_new P [m] = Inr ?w" "chain_captures (=) P args sb dev plan [m] [mf]"
    using full_image_chain [OF assms(1-5), of open_parent src] assms(7,8) by auto
  note rd = full_chain_ready [OF assms(2,3) mf(1,3,4)]
  have w: "cw_members ?w = [m]" "hd [m] = m" by (simp_all add: walk_of_def)
  have dev: "unat (source_size_bytes sb) = length dev" "length dev < 2 ^ 64" using j by simp_all
  have fits: "\<forall>x \<in> set [m]. member_fits ?aead (sb_image_kind (om_superblock (hd [m]))) x"
    using mf(1) j assms(8,9) by (simp add: member_fits_def opens_as_def)
  have bl: "length dev \<le> length (target_bytes ?v)" "length (target_bytes ?v) < 2 ^ 64" "bt_faults (re_target ?v) = []"
    "\<forall>off rp. fst (quiet off rp) = Inr ()" using dev by simp_all
  obtain v' where v': "write_block_chain P quiet [m] sb ?v = (Inr (), v')" "length (target_bytes v') = length dev"
      "\<forall>k \<in> unat ` covers (em_extents used). target_bytes v' ! k = dev ! k"
    using full_backup_restored [OF assms(1-8) bl] by auto
  obtain index b where b: "index_chain P [m] = Inr index" "backend_of P sb index [m] = Inr b" "backend_shows ?w sb [mf] b"
    using export_opens [OF rd w(1)] mf(2) w(2) by auto
  note o = write_block_chain_outcome [OF rd v'(1) bl(2)]
  have ok: "ib_ok P b" using backend_shows_ok [OF b(3)] rd by (simp add: chain_ready_def)
  have byte: "ib_byte P b k = Inr (target_bytes v' ! k)" if "k < unat (source_size_bytes sb)" for k
    using export_byte_restored [OF rd w(1) b(3) fits, of "target_bytes ?v" "target_bytes v'" k] o(1) dev v'(2) that by simp
  have "k < unat (source_size_bytes sb)" if "k \<in> unat ` covers (em_extents used)" for k
    using j that by (auto simp: covers_def word_less_nat_alt word_le_nat_alt)
  then show ?thesis using b ok byte v'(3) dev by (auto simp: backend_shows_def)
qed

section \<open>Properties\<close>

text \<open>C7. An exported chain is the device a restore would write.  If a chain restores to a target that was
  zeros before, then exporting it succeeds, and any sequence of reads inside the device, whatever the cache
  holds by then, returns exactly the bytes of the restored target.\<close>

theorem export_equals_restore:
  fixes v :: "'r restore_state"
  assumes "chain_ready P ms sb w mfs aead" "cw_members w = ms" "manifest_pages P (hd ms)"
    and "\<forall>m \<in> set ms. member_fits aead (sb_image_kind (om_superblock (hd ms))) m"
    and "write_block_chain P report ms sb v = (Inr (), v')" "length (target_bytes v) < 2 ^ 64"
    and "unat (source_size_bytes sb) \<le> length (target_bytes v)" "\<forall>k < unat (source_size_bytes sb). target_bytes v ! k = 0"
    and "\<forall>(off, n) \<in> set rs. unat off + n \<le> unat (source_size_bytes sb)"
  shows "\<exists>index b. index_chain P ms = Inr index \<and> backend_of P sb index ms = Inr b
    \<and> read_all P rs b = map (\<lambda>(off, n). Inr (slice (unat off) (unat off + n) (target_bytes v'))) rs"
proof -
  obtain index b where b: "index_chain P ms = Inr index" "backend_of P sb index ms = Inr b" "backend_shows w sb mfs b"
    using export_opens [OF assms(1-3)] by blast
  note o = write_block_chain_outcome [OF assms(1,5,6)]
  have size: "ib_size b = source_size_bytes sb" using b(3) by (simp add: backend_shows_def)
  have "ib_ok P b" using backend_shows_ok [OF b(3)] assms(1) by (simp add: chain_ready_def)
  moreover have "ib_byte P b k = Inr (target_bytes v' ! k)" if "k < unat (source_size_bytes sb)" for k
    using export_byte_restored [OF assms(1,2) b(3) assms(4) _ assms(8,7) o(2) that] o(1) by simp
  ultimately have "read_all P rs b = map (\<lambda>(off, n). Inr (slice (unat off) (unat off + n) (target_bytes v'))) rs"
    using size assms(7,9) o(2) by (intro read_all_known) auto
  then show ?thesis using b(1,2) by blast
qed

section \<open>An example\<close>

lemma demo_fits: "sb_is_encrypted (ij_superblock demo_job) \<longleftrightarrow> wk_data_key demo_keys \<noteq> None"
  by (simp add: demo_job_def sb_is_encrypted_def demo_sb_def demo_keys_def flag_encrypted_def)

theorem export_equals_restore_witness:
  "\<exists>m index b v'. write_block_chain demo_prims quiet [m] (ij_superblock demo_job) (blank_target 1048576) = (Inr (), v')
     \<and> index_chain demo_prims [m] = Inr index \<and> backend_of demo_prims (ij_superblock demo_job) index [m] = Inr b
     \<and> read_all demo_prims [(0, 512), (1048000, 576), (0, 512)] b
         = [Inr (slice 0 512 (target_bytes v')), Inr (slice 1048000 1048576 (target_bytes v')), Inr (slice 0 512 (target_bytes v'))]"
proof -
  let ?sb = "ij_superblock demo_job" and ?w = "\<lambda>m. walk_of demo_plan (ij_superblock demo_job) [m]" and ?v = "blank_target 1048576"
  obtain cnt f ft m where run: "write_block_image demo_prims demo_source demo_args (\<lambda>_. Inl (Io [])) demo_job demo_plan demo_file demo_spool ()
      = Some (Inr (cnt, f, ft))" and m: "opens_as demo_prims (file_data f) demo_keys m" by (rule demo_opened)
  obtain mf where mf: "om_superblock m = ?sb" "manifest_pages demo_prims m" "chain_walk_new demo_prims [m] = Inr (?w m)"
      "chain_captures (=) demo_prims demo_args ?sb demo_dev demo_plan [m] [mf]"
    using full_image_chain [OF demo_prims_ok demo_job_ok refl demo_job_simps(4,5), of "\<lambda>_. Inl (Io [])" "()", unfolded run demo_job_simps(1)] m by auto
  note rd = full_chain_ready [OF demo_job_ok refl mf(1,3,4)]
  have h: "length demo_dev \<le> length (target_bytes ?v)" "length (target_bytes ?v) < 2 ^ 64" "bt_faults (re_target ?v) = []"
      "\<forall>off rp. fst (quiet off rp) = Inr ()" by (simp_all add: demo_target_simps)
  obtain v' where v': "write_block_chain demo_prims quiet [m] ?sb ?v = (Inr (), v')"
    using full_backup_restored [OF demo_prims_ok demo_job_ok refl demo_job_simps(4,5,3) run m [folded demo_job_simps(1)] h] by blast
  have fits: "\<forall>x \<in> set [m]. member_fits (co_kind (ba_options demo_args)) (sb_image_kind (om_superblock (hd [m]))) x"
    using mf(1) m demo_fits demo_job_ok by (simp add: member_fits_def opens_as_def backup_job_ok_def Let_def)
  have "\<exists>index b. index_chain demo_prims [m] = Inr index \<and> backend_of demo_prims ?sb index [m] = Inr b
    \<and> read_all demo_prims [(0, 512), (1048000, 576), (0, 512)] b
      = map (\<lambda>(off, n). Inr (slice (unat off) (unat off + n) (target_bytes v'))) [(0 :: u64, 512), (1048000, 576), (0, 512)]"
    by (rule export_equals_restore [OF rd _ _ fits v' h(2)]) (use mf(2) in \<open>simp_all add: walk_of_def demo_target_simps\<close>)
  then obtain index b where b: "index_chain demo_prims [m] = Inr index" "backend_of demo_prims ?sb index [m] = Inr b"
    "read_all demo_prims [(0, 512), (1048000, 576), (0, 512)] b
      = map (\<lambda>(off, n). Inr (slice (unat off) (unat off + n) (target_bytes v'))) [(0 :: u64, 512), (1048000, 576), (0, 512)]"
    by (elim exE conjE)
  have e: "map (\<lambda>(off, n). Inr (slice (unat off) (unat off + n) (target_bytes v'))) [(0 :: u64, 512), (1048000, 576), (0, 512)]
      = [Inr (slice 0 512 (target_bytes v')), Inr (slice 1048000 1048576 (target_bytes v')), Inr (slice 0 512 (target_bytes v')) :: bytes res]"
    by simp
  show ?thesis by (intro exI conjI) (rule v', rule b(1), rule b(2), rule b(3) [unfolded e])
qed

end
