(* ===== verification/Nbd_Server.thy ===== *)
theory Nbd_Server
  imports Image_Export
begin

unbundle bit_operations_syntax

text \<open>
  \<open>crates/lr-export/src/nbd.rs\<close>: the NBD server of an export - handshake, option haggling and the
  transmission phase - over any backend.  A connection is the bytes the client sends, followed by an error of
  some kind (usually the end of the stream), the bytes sent to it and how many more it takes; the stop flag is
  the sequence of values the server will see.  The loops are written as a step that ends the loop with a
  result or lets it continue.
\<close>

section \<open>Big-endian integers\<close>

definition u16_to_be_bytes :: "u16 \<Rightarrow> bytes" where "u16_to_be_bytes v = rev (u16_to_le_bytes v)"
definition u32_to_be_bytes :: "u32 \<Rightarrow> bytes" where "u32_to_be_bytes v = rev (u32_to_le_bytes v)"
definition u64_to_be_bytes :: "u64 \<Rightarrow> bytes" where "u64_to_be_bytes v = rev (u64_to_le_bytes v)"
definition u16_from_be_bytes :: "bytes \<Rightarrow> u16" where "u16_from_be_bytes bs = u16_from_le_bytes (rev bs)"
definition u32_from_be_bytes :: "bytes \<Rightarrow> u32" where "u32_from_be_bytes bs = u32_from_le_bytes (rev bs)"
definition u64_from_be_bytes :: "bytes \<Rightarrow> u64" where "u64_from_be_bytes bs = u64_from_le_bytes (rev bs)"

lemma be_bytes [simp]:
  "length (u16_to_be_bytes a) = 2" "length (u32_to_be_bytes b) = 4" "length (u64_to_be_bytes c) = 8"
  "u16_from_be_bytes (u16_to_be_bytes a) = a" "u32_from_be_bytes (u32_to_be_bytes b) = b" "u64_from_be_bytes (u64_to_be_bytes c) = c"
  by (simp_all add: u16_to_be_bytes_def u32_to_be_bytes_def u64_to_be_bytes_def u16_from_be_bytes_def u32_from_be_bytes_def u64_from_be_bytes_def)

section \<open>Constants\<close>

definition nbdmagic :: u64 where "nbdmagic = 0x4e42444d41474943"
definition ihaveopt :: u64 where "ihaveopt = 0x49484156454f5054"
definition rep_magic :: u64 where "rep_magic = 0x0003e889045565a9"
definition request_magic :: u32 where "request_magic = 0x25609513"
definition simple_reply_magic :: u32 where "simple_reply_magic = 0x67446698"

definition flag_fixed_newstyle :: u16 where "flag_fixed_newstyle = 1"
definition flag_no_zeroes :: u16 where "flag_no_zeroes = 2"
definition flag_c_fixed_newstyle :: u32 where "flag_c_fixed_newstyle = 1"

definition flag_has_flags :: u16 where "flag_has_flags = 1"
definition flag_read_only :: u16 where "flag_read_only = 2"
definition flag_send_flush :: u16 where "flag_send_flush = 4"
definition flag_send_trim :: u16 where "flag_send_trim = 32"

definition opt_export_name :: u32 where "opt_export_name = 1"
definition opt_abort :: u32 where "opt_abort = 2"
definition opt_list :: u32 where "opt_list = 3"
definition opt_info :: u32 where "opt_info = 6"
definition opt_go :: u32 where "opt_go = 7"

definition rep_ack :: u32 where "rep_ack = 1"
definition rep_server :: u32 where "rep_server = 2"
definition rep_info :: u32 where "rep_info = 3"
definition rep_err_unsup :: u32 where "rep_err_unsup = 0x80000001"
definition rep_err_invalid :: u32 where "rep_err_invalid = 0x80000003"

definition info_export :: u16 where "info_export = 0"
definition info_name :: u16 where "info_name = 1"
definition info_block_size :: u16 where "info_block_size = 3"

definition cmd_read :: u16 where "cmd_read = 0"
definition cmd_write :: u16 where "cmd_write = 1"
definition cmd_disc :: u16 where "cmd_disc = 2"
definition cmd_flush :: u16 where "cmd_flush = 3"
definition cmd_trim :: u16 where "cmd_trim = 4"
definition cmd_write_zeroes :: u16 where "cmd_write_zeroes = 6"

definition err_perm :: u32 where "err_perm = 1"
definition err_io :: u32 where "err_io = 5"
definition err_notsup :: u32 where "err_notsup = 95"

lemmas cmd_defs = cmd_read_def cmd_write_def cmd_disc_def cmd_flush_def cmd_trim_def cmd_write_zeroes_def

section \<open>The connection\<close>

record nbd_stream =
  ns_in :: bytes
  ns_error :: string
  ns_out :: bytes
  ns_room :: nat
  ns_stop :: "bool list"

record export_config =
  ex_name :: string
  ex_description :: string
  ex_read_only :: bool

record 'b backend_ops =
  bk_size :: "'b \<Rightarrow> u64"
  bk_read :: "u64 \<Rightarrow> nat \<Rightarrow> 'b \<Rightarrow> bytes res \<times> 'b"

definition read_exact :: "nat \<Rightarrow> nbd_stream \<Rightarrow> bytes res \<times> nbd_stream" where
  "read_exact n s =
     (if n \<le> length (ns_in s) then (Inr (take n (ns_in s)), s\<lparr> ns_in := drop n (ns_in s) \<rparr>)
      else (Inl (Io (ns_error s)), s\<lparr> ns_in := [] \<rparr>))"

definition write_all :: "bytes \<Rightarrow> nbd_stream \<Rightarrow> unit res \<times> nbd_stream" where
  "write_all bs s =
     (if length bs \<le> ns_room s then (Inr (), s\<lparr> ns_out := ns_out s @ bs, ns_room := ns_room s - length bs \<rparr>)
      else (Inl (Io ''broken pipe''), s\<lparr> ns_out := ns_out s @ take (ns_room s) bs, ns_room := 0 \<rparr>))"

definition is_disconnect :: "lr_error \<Rightarrow> bool" where
  "is_disconnect e =
     (case e of
        Io kind \<Rightarrow> kind = ''unexpected end of file'' \<or> kind = ''connection reset'' \<or> kind = ''connection aborted'' \<or> kind = ''broken pipe''
      | _ \<Rightarrow> False)"

definition read_u32 :: "nbd_stream \<Rightarrow> u32 res \<times> nbd_stream" where
  "read_u32 s = st_bind (read_exact 4 s) (\<lambda>bs s. (Inr (u32_from_be_bytes bs), s))"

definition read_u64 :: "nbd_stream \<Rightarrow> u64 res \<times> nbd_stream" where
  "read_u64 s = st_bind (read_exact 8 s) (\<lambda>bs s. (Inr (u64_from_be_bytes bs), s))"

definition write_u16 :: "u16 \<Rightarrow> nbd_stream \<Rightarrow> unit res \<times> nbd_stream" where
  "write_u16 v = write_all (u16_to_be_bytes v)"

definition write_u32 :: "u32 \<Rightarrow> nbd_stream \<Rightarrow> unit res \<times> nbd_stream" where
  "write_u32 v = write_all (u32_to_be_bytes v)"

definition write_u64 :: "u64 \<Rightarrow> nbd_stream \<Rightarrow> unit res \<times> nbd_stream" where
  "write_u64 v = write_all (u64_to_be_bytes v)"

text \<open>\<open>String::from_utf8_lossy\<close>: each maximal ill-formed part becomes U+FFFD.\<close>

definition second_ok :: "u8 \<Rightarrow> u8 \<Rightarrow> bool" where
  "second_ok b c \<longleftrightarrow>
     (if b = 0xE0 then byte_in 0xA0 0xBF c
      else if b = 0xED then byte_in 0x80 0x9F c
      else if b = 0xF0 then byte_in 0x90 0xBF c
      else if b = 0xF4 then byte_in 0x80 0x8F c
      else byte_in 0x80 0xBF c)"

abbreviation replacement :: bytes where "replacement \<equiv> [0xEF, 0xBF, 0xBD]"

function utf8_lossy :: "bytes \<Rightarrow> bytes" where
  "utf8_lossy [] = []"
| "utf8_lossy (b # bs) =
     (if byte_in 0 0x7F b then b # utf8_lossy bs
      else if \<not> byte_in 0xC2 0xF4 b then replacement @ utf8_lossy bs
      else (case bs of
          [] \<Rightarrow> replacement
        | c # cs \<Rightarrow>
            if \<not> second_ok b c then replacement @ utf8_lossy bs
            else if byte_in 0xC2 0xDF b then b # c # utf8_lossy cs
            else (case cs of
                [] \<Rightarrow> replacement
              | d # ds \<Rightarrow>
                  if \<not> byte_in 0x80 0xBF d then replacement @ utf8_lossy cs
                  else if byte_in 0xE0 0xEF b then b # c # d # utf8_lossy ds
                  else (case ds of
                      [] \<Rightarrow> replacement
                    | e # es \<Rightarrow>
                        if \<not> byte_in 0x80 0xBF e then replacement @ utf8_lossy ds
                        else b # c # d # e # utf8_lossy es))))"
  by pat_completeness auto
termination
  by (relation "measure length") auto

definition wrong_name :: "export_config \<Rightarrow> bytes \<Rightarrow> bool" where
  "wrong_name config data \<longleftrightarrow> ex_name config \<noteq> [] \<and> string_of_bytes (utf8_lossy data) \<noteq> ex_name config"

section \<open>Handshake and options\<close>

definition transmission_flags :: "export_config \<Rightarrow> u16" where
  "transmission_flags config =
     (let flags = flag_has_flags OR flag_send_flush OR flag_send_trim in
      if ex_read_only config then flags OR flag_read_only else flags)"

definition handshake :: "nbd_stream \<Rightarrow> bool res \<times> nbd_stream" where
  "handshake s =
     st_bind (write_u64 nbdmagic s) (\<lambda>_ s.
     st_bind (write_u64 ihaveopt s) (\<lambda>_ s.
     st_bind (write_u16 (flag_fixed_newstyle OR flag_no_zeroes) s) (\<lambda>_ s.
       case read_u32 s of
         (Inl e, s) \<Rightarrow> if is_disconnect e then (Inr False, s) else (Inl e, s)
       | (Inr client_flags, s) \<Rightarrow>
           if client_flags AND flag_c_fixed_newstyle = 0
             then (Inl (Corrupt ''the client did not accept the fixed newstyle handshake''), s)
             else (Inr True, s))))"

definition option_reply :: "u32 \<Rightarrow> u32 \<Rightarrow> bytes \<Rightarrow> nbd_stream \<Rightarrow> unit res \<times> nbd_stream" where
  "option_reply opt reply_type payload s =
     st_bind (write_u64 rep_magic s) (\<lambda>_ s.
     st_bind (write_u32 opt s) (\<lambda>_ s.
     st_bind (write_u32 reply_type s) (\<lambda>_ s.
     st_bind (write_u32 (word_of_nat (length payload)) s) (\<lambda>_ s.
       write_all payload s))))"

text \<open>\<open>Vec::vec_dedup\<close> drops repeated neighbours.\<close>

fun vec_dedup :: "'a list \<Rightarrow> 'a list" where
  "vec_dedup (x # y # xs) = (if x = y then vec_dedup (x # xs) else x # vec_dedup (y # xs))"
| "vec_dedup xs = xs"

definition info_reply :: "u64 \<Rightarrow> export_config \<Rightarrow> u32 \<Rightarrow> u16 \<Rightarrow> nbd_stream \<Rightarrow> unit res \<times> nbd_stream" where
  "info_reply dev_size config opt info s =
     (if info = info_export then
        option_reply opt rep_info (u16_to_be_bytes info_export @ u64_to_be_bytes dev_size @ u16_to_be_bytes (transmission_flags config)) s
      else if info = info_name then
        option_reply opt rep_info (u16_to_be_bytes info_name @ bytes_of_string (ex_name config)) s
      else if info = info_block_size then
        option_reply opt rep_info (u16_to_be_bytes info_block_size @ u32_to_be_bytes 512 @ u32_to_be_bytes 4096
          @ u32_to_be_bytes (32 * 1024 * 1024)) s
      else (Inr (), s))"

fun info_replies :: "u64 \<Rightarrow> export_config \<Rightarrow> u32 \<Rightarrow> u16 list \<Rightarrow> nbd_stream \<Rightarrow> unit res \<times> nbd_stream" where
  "info_replies dev_size config opt [] s = (Inr (), s)"
| "info_replies dev_size config opt (i # is) s =
     st_bind (info_reply dev_size config opt i s) (\<lambda>_ s. info_replies dev_size config opt is s)"

definition requested_infos :: "bytes \<Rightarrow> nat \<Rightarrow> nat \<Rightarrow> u16 list" where
  "requested_infos data count_at requested =
     List.map_filter (\<lambda>index.
       let at = count_at + 2 + index * 2 in
       if at + 2 \<le> length data then Some (u16_from_be_bytes (slice at (at + 2) data)) else None) [0..<requested]"

definition info_option ::
    "u64 \<Rightarrow> export_config \<Rightarrow> u32 \<Rightarrow> bytes \<Rightarrow> nbd_stream \<Rightarrow> bool option res \<times> nbd_stream" where
  "info_option dev_size config opt data s =
     (if length data < 6 then
        st_bind (option_reply opt rep_err_invalid (bytes_of_string ''short info request'') s) (\<lambda>_ s. (Inr None, s))
      else
        (let name_len = unat (u32_from_be_bytes (take 4 data)) in
         if 4 + name_len + 2 > length data then
           st_bind (option_reply opt rep_err_invalid (bytes_of_string ''bad info request'') s) (\<lambda>_ s. (Inr None, s))
         else if wrong_name config (slice 4 (4 + name_len) data) then
           st_bind (option_reply opt rep_err_unsup (bytes_of_string ''unknown export'') s) (\<lambda>_ s. (Inr None, s))
         else
           (let count_at = 4 + name_len;
                requested = unat (u16_from_be_bytes (slice count_at (count_at + 2) data));
                infos = requested_infos data count_at requested;
                requests = (if opt = opt_go then info_export # infos
                            else if requested = 0 then [info_export, info_block_size] else infos) in
            st_bind (info_replies dev_size config opt (vec_dedup requests) s) (\<lambda>_ s.
            st_bind (option_reply opt rep_ack [] s) (\<lambda>_ s.
              (Inr (if opt = opt_go then Some True else None), s))))))"

definition answer_option ::
    "u64 \<Rightarrow> export_config \<Rightarrow> u32 \<Rightarrow> bytes \<Rightarrow> nbd_stream \<Rightarrow> bool option res \<times> nbd_stream" where
  "answer_option dev_size config opt data s =
     (if opt = opt_export_name then
        (if wrong_name config data then (Inr (Some False), s)
         else st_bind (write_u64 dev_size s) (\<lambda>_ s.
           st_bind (write_u16 (transmission_flags config) s) (\<lambda>_ s. (Inr (Some True), s))))
      else if opt = opt_abort then (Inr (Some False), s)
      else if opt = opt_list then
        (let entry = u32_to_be_bytes (word_of_nat (length (ex_name config))) @ bytes_of_string (ex_name config)
               @ u32_to_be_bytes (word_of_nat (length (ex_description config))) @ bytes_of_string (ex_description config) in
         st_bind (option_reply opt rep_server entry s) (\<lambda>_ s.
         st_bind (option_reply opt rep_ack [] s) (\<lambda>_ s. (Inr None, s))))
      else if opt = opt_info \<or> opt = opt_go then info_option dev_size config opt data s
      else st_bind (option_reply opt rep_err_unsup (bytes_of_string ''unsupported option'') s) (\<lambda>_ s. (Inr None, s)))"

definition option_step :: "u64 \<Rightarrow> export_config \<Rightarrow> nbd_stream \<Rightarrow> bool option res \<times> nbd_stream" where
  "option_step dev_size config s =
     (case read_u64 s of
        (Inl e, s) \<Rightarrow> if is_disconnect e then (Inr (Some False), s) else (Inl e, s)
      | (Inr magic, s) \<Rightarrow>
          if magic \<noteq> ihaveopt then (Inl (Corrupt ''option magic ''), s)
          else st_bind (read_u32 s) (\<lambda>opt s.
            st_bind (read_u32 s) (\<lambda>len s.
            st_bind (read_exact (unat len) s) (\<lambda>data s.
              answer_option dev_size config opt data s))))"

lemma read_exact_shrinks: "read_exact n s = (Inr bs, s') \<Longrightarrow> ns_in s' = drop n (ns_in s) \<and> n \<le> length (ns_in s) \<and> length bs = n"
  by (auto simp: read_exact_def split: if_splits)

lemma write_in [simp]: "ns_in (snd (write_all bs s)) = ns_in s"
  by (simp add: write_all_def)

lemma st_bind_in: "ns_in (snd m) = xs \<Longrightarrow> (\<And>x s. ns_in s = xs \<Longrightarrow> ns_in (snd (f x s)) = xs) \<Longrightarrow> ns_in (snd (st_bind m f)) = xs"
  by (auto simp: st_bind_def split: prod.splits sum.splits)

lemma writes_in [simp]:
  "ns_in (snd (write_u16 a s)) = ns_in s" "ns_in (snd (write_u32 b s)) = ns_in s" "ns_in (snd (write_u64 c s)) = ns_in s"
  by (simp_all add: write_u16_def write_u32_def write_u64_def)

lemma option_reply_in [simp]: "ns_in (snd (option_reply opt ty payload s)) = ns_in s"
  unfolding option_reply_def by (intro st_bind_in) simp_all

lemma info_replies_in [simp]: "ns_in (snd (info_replies dev config opt is s)) = ns_in s"
proof (induction "is" arbitrary: s)
  case (Cons i "is")
  have "ns_in (snd (info_reply dev config opt i s)) = ns_in s" by (simp add: info_reply_def)
  then show ?case unfolding info_replies.simps by (intro st_bind_in) (simp_all add: Cons.IH)
qed simp

lemma answer_option_in: "ns_in (snd (answer_option dev config opt data s)) = ns_in s"
  unfolding answer_option_def info_option_def Let_def
  by (simp add: st_bind_in)

lemma option_step_shrinks:
  assumes "option_step dev config s = (Inr r, s')" "r = None"
  shows "length (ns_in s') < length (ns_in s)"
proof -
  from assms obtain magic s1 opt s2 len s3 data s4 where
      r: "read_u64 s = (Inr magic, s1)" "read_u32 s1 = (Inr opt, s2)" "read_u32 s2 = (Inr len, s3)" "read_exact (unat len) s3 = (Inr data, s4)"
      "answer_option dev config opt data s4 = (Inr r, s')"
    by (auto simp: option_step_def st_bind_eq split: prod.splits sum.splits if_splits)
  have "ns_in s' = ns_in s4" using answer_option_in [of dev config opt data s4] r(5) by simp
  moreover have "length (ns_in s1) < length (ns_in s)" "length (ns_in s2) \<le> length (ns_in s1)" "length (ns_in s3) \<le> length (ns_in s2)"
      "length (ns_in s4) \<le> length (ns_in s3)"
    using r(1-4) by (auto simp: read_u64_def read_u32_def st_bind_eq dest!: read_exact_shrinks)
  ultimately show ?thesis by simp
qed

function option_haggling :: "u64 \<Rightarrow> export_config \<Rightarrow> nbd_stream \<Rightarrow> bool res \<times> nbd_stream" where
  "option_haggling dev_size config s =
     (case option_step dev_size config s of
        (Inl e, s') \<Rightarrow> (Inl e, s')
      | (Inr (Some r), s') \<Rightarrow> (Inr r, s')
      | (Inr None, s') \<Rightarrow> option_haggling dev_size config s')"
  by pat_completeness auto
termination
  by (relation "measure (\<lambda>(d, c, s). length (ns_in s))") (auto intro: option_step_shrinks [OF sym refl])

declare option_haggling.simps [simp del]

section \<open>Transmission\<close>

record 'b nbd_session =
  nx_stream :: nbd_stream
  nx_backend :: 'b

definition with_stream :: "(nbd_stream \<Rightarrow> 'a res \<times> nbd_stream) \<Rightarrow> 'b nbd_session \<Rightarrow> 'a res \<times> 'b nbd_session" where
  "with_stream f x = (case f (nx_stream x) of (r, s) \<Rightarrow> (r, x\<lparr> nx_stream := s \<rparr>))"

definition read_backend :: "'b backend_ops \<Rightarrow> u64 \<Rightarrow> nat \<Rightarrow> 'b \<Rightarrow> bytes res \<times> 'b" where
  "read_backend B offset n b =
     (case checked_add_u64 offset (word_of_nat n) of
        None \<Rightarrow> (Inl (Corrupt ''NBD read overflows the address space''), b)
      | Some end \<Rightarrow>
          if end > bk_size B b then (Inl (Corrupt ''NBD read of ''), b) else bk_read B offset n b)"

definition simple_error :: "u32 \<Rightarrow> u64 \<Rightarrow> nbd_stream \<Rightarrow> unit res \<times> nbd_stream" where
  "simple_error code handle s =
     st_bind (write_u32 simple_reply_magic s) (\<lambda>_ s.
     st_bind (write_u32 code s) (\<lambda>_ s. write_u64 handle s))"

definition reply_data :: "u64 \<Rightarrow> bytes \<Rightarrow> nbd_stream \<Rightarrow> unit res \<times> nbd_stream" where
  "reply_data handle buffer s =
     st_bind (write_u32 simple_reply_magic s) (\<lambda>_ s.
     st_bind (write_u32 0 s) (\<lambda>_ s.
     st_bind (write_u64 handle s) (\<lambda>_ s. write_all buffer s)))"

text \<open>A request after its header was read: \<open>Some ()\<close> ends the transmission.\<close>

definition answer_request :: "'b backend_ops \<Rightarrow> bytes \<Rightarrow> 'b nbd_session \<Rightarrow> unit option res \<times> 'b nbd_session" where
  "answer_request B header x =
     (let magic = u32_from_be_bytes (slice 0 4 header);
          command = u16_from_be_bytes (slice 6 8 header);
          handle = u64_from_be_bytes (slice 8 16 header);
          offset = u64_from_be_bytes (slice 16 24 header);
          len = u32_from_be_bytes (slice 24 28 header) in
      if magic \<noteq> request_magic then (Inl (Corrupt ''request magic ''), x)
      else if command = cmd_read then
        (case read_backend B offset (unat len) (nx_backend x) of
           (Inr buffer, b) \<Rightarrow> st_bind (with_stream (reply_data handle buffer) (x\<lparr> nx_backend := b \<rparr>)) (\<lambda>_ x. (Inr None, x))
         | (Inl e, b) \<Rightarrow> st_bind (with_stream (simple_error err_io handle) (x\<lparr> nx_backend := b \<rparr>)) (\<lambda>_ x. (Inr None, x)))
      else if command = cmd_disc then (Inr (Some ()), x)
      else if command = cmd_flush \<or> command = cmd_trim then
        st_bind (with_stream (simple_error 0 handle) x) (\<lambda>_ x. (Inr None, x))
      else if command = cmd_write \<or> command = cmd_write_zeroes then
        st_bind (with_stream (simple_error err_perm handle) x) (\<lambda>_ x. (Inr None, x))
      else st_bind (with_stream (simple_error err_notsup handle) x) (\<lambda>_ x. (Inr None, x)))"

definition load_stop :: "nbd_stream \<Rightarrow> bool \<times> nbd_stream" where
  "load_stop s = (case ns_stop s of [] \<Rightarrow> (False, s) | v # vs \<Rightarrow> (v, s\<lparr> ns_stop := vs \<rparr>))"

definition request_step :: "'b backend_ops \<Rightarrow> 'b nbd_session \<Rightarrow> unit option res \<times> 'b nbd_session" where
  "request_step B x =
     (case load_stop (nx_stream x) of
        (True, s) \<Rightarrow> (Inr (Some ()), x\<lparr> nx_stream := s \<rparr>)
      | (False, s) \<Rightarrow>
          (case read_exact 28 s of
             (Inl e, s) \<Rightarrow> (if is_disconnect e then Inr (Some ()) else Inl e, x\<lparr> nx_stream := s \<rparr>)
           | (Inr header, s) \<Rightarrow> answer_request B header (x\<lparr> nx_stream := s \<rparr>)))"

lemma answers_in [simp]:
  "ns_in (snd (simple_error c h s)) = ns_in s" "ns_in (snd (reply_data h bs s)) = ns_in s"
  unfolding simple_error_def reply_data_def by (intro st_bind_in; simp)+

lemma with_stream_in:
  "ns_in (snd (f (nx_stream x))) = ns_in (nx_stream x) \<Longrightarrow>
   ns_in (nx_stream (snd (st_bind (with_stream f x) (\<lambda>_ x. (Inr q, x))))) = ns_in (nx_stream x)"
  by (auto simp: with_stream_def st_bind_def split: prod.splits sum.splits)

lemma answer_request_in: "ns_in (nx_stream (snd (answer_request B header x))) = ns_in (nx_stream x)"
proof -
  obtain q b where "read_backend B (u64_from_be_bytes (slice 16 24 header)) (unat (u32_from_be_bytes (slice 24 28 header))) (nx_backend x) = (q, b)"
    by fastforce
  then show ?thesis
    by (cases q) (simp_all add: answer_request_def Let_def with_stream_in [where f = "simple_error c h" for c h]
        with_stream_in [where f = "reply_data h bs" for h bs] del: split_paired_All)
qed

lemma request_step_shrinks:
  assumes "request_step B x = (Inr r, x')" "r = None"
  shows "length (ns_in (nx_stream x')) < length (ns_in (nx_stream x))"
proof -
  have "ns_in (snd (load_stop (nx_stream x))) = ns_in (nx_stream x)"
    by (cases "ns_stop (nx_stream x)") (simp_all add: load_stop_def)
  then obtain st s where st: "load_stop (nx_stream x) = (st, s)" "ns_in s = ns_in (nx_stream x)" by (metis prod.collapse)
  obtain header s1 where h: "read_exact 28 s = (Inr header, s1)" "answer_request B header (x\<lparr> nx_stream := s1 \<rparr>) = (Inr r, x')"
    using assms st(1) by (auto simp: request_step_def split: bool.splits prod.splits sum.splits if_splits)
  then show ?thesis
    using answer_request_in [of B header "x\<lparr> nx_stream := s1 \<rparr>"] st(2) by (auto dest!: read_exact_shrinks)
qed

function transmission :: "'b backend_ops \<Rightarrow> 'b nbd_session \<Rightarrow> unit res \<times> 'b nbd_session" where
  "transmission B x =
     (case request_step B x of
        (Inl e, x') \<Rightarrow> (Inl e, x')
      | (Inr (Some _), x') \<Rightarrow> (Inr (), x')
      | (Inr None, x') \<Rightarrow> transmission B x')"
  by pat_completeness auto
termination
  by (relation "measure (\<lambda>(B, x). length (ns_in (nx_stream x)))") (auto intro: request_step_shrinks [OF sym refl])

declare transmission.simps [simp del]

definition serve_connection :: "'b backend_ops \<Rightarrow> export_config \<Rightarrow> 'b nbd_session \<Rightarrow> unit res \<times> 'b nbd_session" where
  "serve_connection B config x =
     st_bind (with_stream handshake x) (\<lambda>go x.
       if \<not> go then (Inr (), x)
       else st_bind (with_stream (option_haggling (bk_size B (nx_backend x)) config) x) (\<lambda>go x.
         if \<not> go then (Inr (), x) else transmission B x))"

section \<open>What a client sees\<close>

record nbd_request =
  rq_flags :: u16
  rq_command :: u16
  rq_handle :: u64
  rq_offset :: u64
  rq_length :: u32

definition request_bytes :: "nbd_request \<Rightarrow> bytes" where
  "request_bytes r = u32_to_be_bytes request_magic @ u16_to_be_bytes (rq_flags r) @ u16_to_be_bytes (rq_command r)
     @ u64_to_be_bytes (rq_handle r) @ u64_to_be_bytes (rq_offset r) @ u32_to_be_bytes (rq_length r)"

definition error_reply :: "u32 \<Rightarrow> u64 \<Rightarrow> bytes" where
  "error_reply code handle = u32_to_be_bytes simple_reply_magic @ u32_to_be_bytes code @ u64_to_be_bytes handle"

text \<open>The reply to a request, on a device of \<open>n\<close> bytes with the contents \<open>byte\<close>.\<close>

definition nbd_reply :: "(nat \<Rightarrow> u8 res) \<Rightarrow> nat \<Rightarrow> nbd_request \<Rightarrow> bytes" where
  "nbd_reply byte n r =
     (let off = unat (rq_offset r); len = unat (rq_length r) in
      if rq_command r = cmd_read then
        (if off + len \<le> n \<and> (\<forall>k < len. is_ok (byte (off + k)))
         then error_reply 0 (rq_handle r) @ map (\<lambda>k. projr (byte (off + k))) [0..<len]
         else error_reply err_io (rq_handle r))
      else if rq_command r = cmd_flush \<or> rq_command r = cmd_trim then error_reply 0 (rq_handle r)
      else if rq_command r = cmd_write_zeroes then error_reply err_perm (rq_handle r)
      else error_reply err_notsup (rq_handle r))"

lemma request_fields:
  "length (request_bytes r) = 28" "u32_from_be_bytes (slice 0 4 (request_bytes r)) = request_magic"
  "u16_from_be_bytes (slice 6 8 (request_bytes r)) = rq_command r" "u64_from_be_bytes (slice 8 16 (request_bytes r)) = rq_handle r"
  "u64_from_be_bytes (slice 16 24 (request_bytes r)) = rq_offset r" "u32_from_be_bytes (slice 24 28 (request_bytes r)) = rq_length r"
  by (simp_all add: request_bytes_def bytes_simps)

lemma writes_fit:
  assumes "length bs \<le> ns_room s"
  shows "write_all bs s = (Inr (), s\<lparr> ns_out := ns_out s @ bs, ns_room := ns_room s - length bs \<rparr>)"
  using assms by (simp add: write_all_def)

lemma replies_fit:
  "length (error_reply code h) \<le> ns_room s \<Longrightarrow>
     simple_error code h s = (Inr (), s\<lparr> ns_out := ns_out s @ error_reply code h, ns_room := ns_room s - length (error_reply code h) \<rparr>)"
  "length (error_reply 0 h @ bs) \<le> ns_room s \<Longrightarrow>
     reply_data h bs s = (Inr (), s\<lparr> ns_out := ns_out s @ error_reply 0 h @ bs, ns_room := ns_room s - length (error_reply 0 h @ bs) \<rparr>)"
  by (simp_all add: simple_error_def reply_data_def error_reply_def write_u32_def write_u64_def writes_fit)

lemma read_exact_front: "read_exact (length bs) s = (if length bs \<le> length (ns_in s) then (Inr (take (length bs) (ns_in s)), s\<lparr> ns_in := drop (length bs) (ns_in s) \<rparr>)
     else (Inl (Io (ns_error s)), s\<lparr> ns_in := [] \<rparr>))"
  by (simp add: read_exact_def)

definition answered :: "bytes \<Rightarrow> nbd_stream \<Rightarrow> nbd_stream" where
  "answered bs s = s\<lparr> ns_in := drop 28 (ns_in s), ns_out := ns_out s @ bs, ns_room := ns_room s - length bs \<rparr>"

context block_backend
begin

abbreviation ops :: "'b backend_ops" where
  "ops \<equiv> \<lparr> bk_size = size_of, bk_read = read_of \<rparr>"

lemma read_backend_result:
  assumes "backend_ok b" "read_backend ops off n b = (q, b')" "n < 2 ^ 32"
  shows "backend_ok b'" "size_of b' = size_of b" "byte_of b' = byte_of b"
    and "unat off + n \<le> unat (size_of b) \<Longrightarrow> read_result (byte_of b) (unat off) n q"
    and "\<not> unat off + n \<le> unat (size_of b) \<Longrightarrow> \<exists>e. q = Inl e"
proof -
  have n: "unat (word_of_nat n :: u64) = n" using assms(3) by (intro unat_of_nat_u64) simp
  have "unat (size_of b) < 2 ^ 64" by simp
  then have s: "unat off + n < 2 ^ 64" if "unat off + n \<le> unat (size_of b)" using that by linarith
  have run: "read_backend ops off n b = (if unat off + n < 2 ^ 64
      then if unat off + n > unat (size_of b) then (Inl (Corrupt ''NBD read of ''), b) else read_of off n b
      else (Inl (Corrupt ''NBD read overflows the address space''), b))"
  proof (cases "unat off + n < 2 ^ 64")
    case True
    then have "unat (off + word_of_nat n) = unat off + n" using n by (subst unat_add_u64) simp_all
    then show ?thesis using True n by (simp add: read_backend_def checked_add_u64_def word_less_nat_alt)
  qed (simp add: read_backend_def checked_add_u64_def n)
  show "unat off + n \<le> unat (size_of b) \<Longrightarrow> read_result (byte_of b) (unat off) n q"
    "\<not> unat off + n \<le> unat (size_of b) \<Longrightarrow> \<exists>e. q = Inl e" "backend_ok b'" "size_of b' = size_of b" "byte_of b' = byte_of b"
    using assms(1,2) run s read_in_range [OF assms(1), of off n q b'] by (auto split: if_splits)
qed

lemma answer_step:
  assumes "backend_ok b" "nx_backend x = b" "ns_stop (nx_stream x) = []" "ns_in (nx_stream x) = request_bytes r @ rest"
    and "length (nbd_reply (byte_of b) (unat (size_of b)) r) \<le> ns_room (nx_stream x)"
    and "rq_command r \<noteq> cmd_disc" "rq_command r \<noteq> cmd_write"
  shows "\<exists>b'. request_step ops x = (Inr None, x\<lparr> nx_stream := answered (nbd_reply (byte_of b) (unat (size_of b)) r) (nx_stream x), nx_backend := b' \<rparr>)
    \<and> backend_ok b' \<and> size_of b' = size_of b \<and> byte_of b' = byte_of b"
proof -
  let ?s = "(nx_stream x)\<lparr> ns_in := rest \<rparr>" and ?off = "rq_offset r" and ?n = "unat (rq_length r)"
  let ?reply = "nbd_reply (byte_of b) (unat (size_of b)) r"
  have rd: "read_exact 28 (nx_stream x) = (Inr (request_bytes r), ?s)"
    using assms(4) request_fields(1) [of r] by (simp add: read_exact_def)
  have step: "request_step ops x = answer_request ops (request_bytes r) (x\<lparr> nx_stream := ?s \<rparr>)"
    using assms(3) rd by (simp add: request_step_def load_stop_def)
  have ans: "answered bs (nx_stream x) = ?s\<lparr> ns_out := ns_out ?s @ bs, ns_room := ns_room ?s - length bs \<rparr>" for bs
    using assms(4) request_fields(1) [of r] by (simp add: answered_def)
  have fit: "length ?reply \<le> ns_room ?s" using assms(5) by simp
  show ?thesis
  proof (cases "rq_command r = cmd_read")
    case True
    obtain q b' where q: "read_backend ops ?off ?n b = (q, b')" by fastforce
    have "?n < 2 ^ 32" by simp
    note res = read_backend_result [OF assms(1) q this]
    have "?reply = (case q of Inr buf \<Rightarrow> error_reply 0 (rq_handle r) @ buf | Inl e \<Rightarrow> error_reply err_io (rq_handle r))"
    proof (cases q)
      case (Inl e)
      have "\<not> (unat ?off + ?n \<le> unat (size_of b) \<and> (\<forall>k < ?n. is_ok (byte_of b (unat ?off + k))))"
      proof
        assume a: "unat ?off + ?n \<le> unat (size_of b) \<and> (\<forall>k < ?n. is_ok (byte_of b (unat ?off + k)))"
        then obtain k where "k < ?n" "byte_of b (unat ?off + k) = Inl e" using res(4) Inl by (auto simp: read_result_def)
        moreover from this(1) a have "is_ok (byte_of b (unat ?off + k))" by blast
        ultimately show False by simp
      qed
      then show ?thesis using True Inl by (simp only: nbd_reply_def Let_def if_True if_False sum.case simp_thms)
    next
      case (Inr buf)
      then have in_range: "unat ?off + ?n \<le> unat (size_of b)" using res(5) by auto
      then have buf: "length buf = ?n" "\<forall>k < ?n. byte_of b (unat ?off + k) = Inr (buf ! k)"
        using res(4) Inr by (simp_all add: read_result_def)
      then have "map (\<lambda>k. projr (byte_of b (unat ?off + k))) [0..<?n] = buf" by (intro nth_equalityI) simp_all
      then show ?thesis using True in_range buf(2) Inr by (simp add: nbd_reply_def Let_def)
    qed
    then show ?thesis
      using step q res(1-3) True assms(2) fit request_fields [of r] ans replies_fit
      by (cases q) (auto simp: answer_request_def Let_def with_stream_def intro!: exI [of _ b'])
  next
    case False
    then show ?thesis
      using step assms(1,2,6,7) fit request_fields [of r] ans replies_fit(1)
      by (auto simp: answer_request_def Let_def with_stream_def nbd_reply_def intro!: exI [of _ b])
  qed
qed

lemma session:
  assumes "backend_ok (nx_backend x)" "ns_stop (nx_stream x) = []" "ns_in (nx_stream x) = concat (map request_bytes rs)"
    and "is_disconnect (Io (ns_error (nx_stream x)))" "\<forall>r \<in> set rs. rq_command r \<noteq> cmd_disc \<and> rq_command r \<noteq> cmd_write"
    and "replies = concat (map (nbd_reply (byte_of (nx_backend x)) (unat (size_of (nx_backend x)))) rs)"
    and "length replies \<le> ns_room (nx_stream x)"
  shows "\<exists>x'. transmission ops x = (Inr (), x') \<and> ns_out (nx_stream x') = ns_out (nx_stream x) @ replies
    \<and> backend_ok (nx_backend x') \<and> byte_of (nx_backend x') = byte_of (nx_backend x)"
  using assms
proof (induction rs arbitrary: x replies)
  case Nil
  then have "request_step ops x = (Inr (Some ()), x)"
    by (simp add: request_step_def load_stop_def read_exact_def)
  then show ?case using Nil by (subst transmission.simps) simp
next
  case (Cons r rs)
  let ?b = "nx_backend x" and ?reply = "nbd_reply (byte_of (nx_backend x)) (unat (size_of (nx_backend x))) r"
  have inp: "ns_in (nx_stream x) = request_bytes r @ concat (map request_bytes rs)" using Cons.prems(3) by simp
  have fit: "length ?reply \<le> ns_room (nx_stream x)" using Cons.prems(6,7) by simp
  have cmd: "rq_command r \<noteq> cmd_disc" "rq_command r \<noteq> cmd_write" using Cons.prems(5) by simp_all
  obtain b' where st: "request_step ops x = (Inr None, x\<lparr> nx_stream := answered ?reply (nx_stream x), nx_backend := b' \<rparr>)"
      "backend_ok b'" "size_of b' = size_of ?b" "byte_of b' = byte_of ?b"
    using answer_step [OF Cons.prems(1) refl Cons.prems(2) inp fit cmd] by blast
  let ?x = "x\<lparr> nx_stream := answered ?reply (nx_stream x), nx_backend := b' \<rparr>"
  have tr: "transmission ops x = transmission ops ?x" by (subst transmission.simps) (simp add: st(1))
  have "\<exists>x'. transmission ops ?x = (Inr (), x') \<and> ns_out (nx_stream x') = ns_out (nx_stream ?x) @ concat (map (nbd_reply (byte_of b') (unat (size_of b'))) rs)
    \<and> backend_ok (nx_backend x') \<and> byte_of (nx_backend x') = byte_of (nx_backend ?x)"
    using Cons.prems st inp request_fields(1) [of r] by (intro Cons.IH) (simp_all add: answered_def)
  then show ?case using tr st Cons.prems(6) by (auto simp: answered_def)
qed

end

section \<open>Properties\<close>

definition image_ops :: "prims \<Rightarrow> image_backend backend_ops" where
  "image_ops P = \<lparr> bk_size = ib_size, bk_read = ib_read_at P \<rparr>"

lemma used_read_reply:
  assumes "\<forall>k \<in> U. byte k = Inr (dev ! k) \<and> k < n" "length dev = n"
    and "rq_command r = cmd_read" "0 < rq_length r"
    and "{unat (rq_offset r)..<unat (rq_offset r) + unat (rq_length r)} \<subseteq> U"
  shows "nbd_reply byte n r = error_reply 0 (rq_handle r) @ slice (unat (rq_offset r)) (unat (rq_offset r) + unat (rq_length r)) dev"
proof -
  let ?o = "unat (rq_offset r)" and ?l = "unat (rq_length r)"
  have l: "0 < ?l" using assms(4) by (simp add: word_less_nat_alt)
  then have "?o + ?l - 1 \<in> U" using assms(5) by auto
  then have "?o + ?l - 1 < n" using assms(1) by blast
  then have range: "?o + ?l \<le> n" using l by linarith
  have byte: "byte (?o + k) = Inr (dev ! (?o + k))" if "k < ?l" for k
  proof -
    have "?o + k \<in> U" using that by (intro subsetD [OF assms(5)]) simp
    then show ?thesis using assms(1) by blast
  qed
  then have "map (\<lambda>k. projr (byte (?o + k))) [0..<?l] = slice ?o (?o + ?l) dev"
    using range assms(2) by (intro nth_equalityI) (simp_all add: slice_def)
  then show ?thesis using assms(3) range byte by (simp add: nbd_reply_def Let_def)
qed

text \<open>C8. The NBD server answers a client truthfully and in order.  For any sequence of requests without a
  payload, ended by the client's hanging up, the transmission returns, and the client has received exactly one
  reply per request, in the order of the requests and with their handles: the bytes of the image for a read
  inside the device whose chunks can be decoded, an I/O error for any other read, success for flush and trim,
  \<open>EPERM\<close> for writing zeros and \<open>ENOTSUP\<close> for the rest.\<close>

theorem nbd_session_correct:
  assumes "ib_ok P (nx_backend x)" "ns_stop (nx_stream x) = []" "ns_in (nx_stream x) = concat (map request_bytes rs)"
    and "is_disconnect (Io (ns_error (nx_stream x)))" "\<forall>r \<in> set rs. rq_command r \<noteq> cmd_disc \<and> rq_command r \<noteq> cmd_write"
    and "replies = concat (map (nbd_reply (ib_byte P (nx_backend x)) (unat (ib_size (nx_backend x)))) rs)"
    and "length replies \<le> ns_room (nx_stream x)"
  shows "\<exists>x'. transmission (image_ops P) x = (Inr (), x') \<and> ns_out (nx_stream x') = ns_out (nx_stream x) @ replies
    \<and> ib_ok P (nx_backend x') \<and> ib_byte P (nx_backend x') = ib_byte P (nx_backend x)"
  unfolding image_ops_def by (rule image_dev.session [OF assms])

text \<open>C11. A write desynchronises the connection.  The server answers \<open>EPERM\<close> to a write request without
  reading the data that follows it, so it takes the data for the next request: with at least one header's
  worth of data that does not start with the request magic, the reply is followed by the end of the connection
  with an error, whatever the client sends next.\<close>

theorem nbd_write_desynchronises:
  assumes "rq_command r = cmd_write" "ns_stop (nx_stream x) = []" "ns_in (nx_stream x) = request_bytes r @ payload @ rest"
    and "28 \<le> length payload" "u32_from_be_bytes (take 4 payload) \<noteq> request_magic" "32 \<le> ns_room (nx_stream x)"
  shows "\<exists>x'. transmission B x = (Inl (Corrupt ''request magic ''), x')
    \<and> ns_out (nx_stream x') = ns_out (nx_stream x) @ error_reply err_perm (rq_handle r)"
proof -
  let ?s = "(nx_stream x)\<lparr> ns_in := payload @ rest \<rparr>"
  let ?s1 = "?s\<lparr> ns_out := ns_out ?s @ error_reply err_perm (rq_handle r), ns_room := ns_room ?s - length (error_reply err_perm (rq_handle r)) \<rparr>"
  define x1 where "x1 = x\<lparr> nx_stream := ?s1 \<rparr>"
  define x2 where "x2 = x1\<lparr> nx_stream := ?s1\<lparr> ns_in := drop 28 (payload @ rest) \<rparr> \<rparr>"
  have "read_exact 28 (nx_stream x) = (Inr (request_bytes r), ?s)"
    using assms(3) request_fields(1) [of r] by (simp add: read_exact_def)
  moreover have "simple_error err_perm (rq_handle r) ?s = (Inr (), ?s1)"
    by (rule replies_fit(1)) (use assms(6) in \<open>simp add: error_reply_def\<close>)
  ultimately have one: "request_step B x = (Inr None, x1)"
    using assms(1,2) request_fields [of r]
    by (simp add: request_step_def load_stop_def answer_request_def Let_def with_stream_def cmd_defs x1_def)
  have "u32_from_be_bytes (slice 0 4 (take 28 (payload @ rest))) \<noteq> request_magic"
    using assms(4,5) by (simp add: slice_def)
  then have two: "request_step B x1 = (Inl (Corrupt ''request magic ''), x2)"
    using assms(2,4) by (simp add: request_step_def load_stop_def answer_request_def Let_def read_exact_def x1_def x2_def)
  have "transmission B x = transmission B x1" by (subst transmission.simps) (simp add: one)
  also have "\<dots> = (Inl (Corrupt ''request magic ''), x2)"
    by (subst transmission.simps) (simp add: two)
  finally show ?thesis by (simp add: x2_def)
qed

section \<open>An example\<close>

definition demo_request :: "u16 \<Rightarrow> nbd_request" where
  "demo_request command = \<lparr> rq_flags = 0, rq_command = command, rq_handle = 7, rq_offset = 4096, rq_length = 512 \<rparr>"

definition demo_stream :: "bytes \<Rightarrow> nbd_stream" where
  "demo_stream inp = \<lparr> ns_in = inp, ns_error = ''unexpected end of file'', ns_out = [], ns_room = 2 ^ 20, ns_stop = [] \<rparr>"

definition demo_empty :: image_backend where
  "demo_empty = \<lparr> ib_size = 8192, ib_chunk_size = 4096, ib_chunk_count = 2, ib_slots = Map.empty, ib_members = [], ib_cache = None,
     ib_fs_type = [], ib_fs_uuid = [], ib_label = [] \<rparr>"

lemma demo_covered: "unat ` covers (em_extents demo_used) = {0..<1048576}"
proof -
  have "k \<in> unat ` {0 :: u64..1048575}" if "k < 1048576" for k
    using that by (intro image_eqI [of _ _ "word_of_nat k"]) (simp_all add: unat_of_nat_u64 word_le_nat_alt)
  then show ?thesis by (auto simp: demo_used_def covers_def word_le_nat_alt)
qed

theorem nbd_session_correct_witness:
  "\<exists>x'. transmission (image_ops demo_prims) \<lparr> nx_stream = demo_stream (concat (map request_bytes [demo_request cmd_flush, demo_request 9])), nx_backend = demo_empty \<rparr> = (Inr (), x')
     \<and> ns_out (nx_stream x') = error_reply 0 7 @ error_reply err_notsup 7"
  using nbd_session_correct [of demo_prims "\<lparr> nx_stream = demo_stream (concat (map request_bytes [demo_request cmd_flush, demo_request 9])), nx_backend = demo_empty \<rparr>"
      "[demo_request cmd_flush, demo_request 9]", OF _ _ _ _ _ refl]
  by (simp add: demo_stream_def is_disconnect_def error_reply_def ib_ok_def demo_empty_def demo_request_def cmd_defs nbd_reply_def Let_def) blast

theorem nbd_write_desynchronises_witness:
  "\<exists>x'. transmission (image_ops demo_prims) \<lparr> nx_stream = demo_stream (request_bytes (demo_request cmd_write) @ replicate 512 0 @ []), nx_backend = demo_empty \<rparr>
     = (Inl (Corrupt ''request magic ''), x') \<and> ns_out (nx_stream x') = [] @ error_reply err_perm 7"
proof -
  let ?x = "\<lparr> nx_stream = demo_stream (request_bytes (demo_request cmd_write) @ replicate 512 0 @ []), nx_backend = demo_empty \<rparr>"
  have "take 4 (replicate 512 (0 :: u8)) = [0, 0, 0, 0]" by (simp add: numeral_eq_Suc)
  then have magic: "u32_from_be_bytes (take 4 (replicate 512 0)) \<noteq> request_magic"
    by (simp add: request_magic_def u32_from_be_bytes_def u32_from_le_bytes_def)
  have "\<exists>x'. transmission (image_ops demo_prims) ?x = (Inl (Corrupt ''request magic ''), x')
      \<and> ns_out (nx_stream x') = ns_out (nx_stream ?x) @ error_reply err_perm (rq_handle (demo_request cmd_write))"
    by (rule nbd_write_desynchronises [OF _ _ _ _ magic, of _ _ "[]"]) (simp_all add: demo_stream_def demo_request_def)
  then show ?thesis by (simp add: demo_stream_def demo_request_def)
qed

end
