(* ===== verification/Daemon_Jobs.thy ===== *)
theory Daemon_Jobs
  imports Core_Types "HOL-Library.AList" "HOL-Library.Product_Lexorder"
begin

text \<open>
  The job registry of the daemon: \<open>crates/lr-daemon/src/jobs.rs\<close> with \<open>error_code\<close> of \<open>status.rs\<close>, \<open>job_outcome\<close>
  of \<open>verification.rs\<close>, the progress sink of \<open>progress_bridge.rs\<close> and the drain watch of \<open>shutdown.rs\<close>.

  The registry is shared by the threads of the daemon behind one mutex, so the model's steps are the sections
  under that mutex.  \<open>register_for\<close> publishes its \<open>Started\<close> event only after it has released the lock: the
  identifiers of registrations in between are part of the state.  The broadcast channel is the sequence of the
  events sent; the hash map is an association list.
\<close>

section \<open>Jobs and events\<close>

datatype job_state = Pending | Running | Finished | Failed | JobCancelled

datatype attempt_outcome = IntegrityVerified | IntegrityVerifiedWithRecordedLoss | Incomplete bool

datatype recording_outcome = Recorded string | NotRecorded | PublicationUnconfirmed string

text \<open>The result of a captured verification; \<open>Incomplete True\<close> was cancelled.\<close>

record captured_result =
  cv_outcome :: attempt_outcome
  cv_recording :: recording_outcome
  cv_report_json :: "string option"

record job_snapshot =
  js_job_id :: string
  js_set :: string
  js_state :: job_state
  js_summary_json :: "string option"
  js_error :: "(string \<times> string) option"
  js_verification :: "captured_result option"

datatype job_event =
    EvStarted string
  | EvPhase string string
  | EvBytes string u64 u64
  | EvFinished string string
  | EvFailed string string string
  | EvVerified string captured_result

fun event_job_id :: "job_event \<Rightarrow> string" where
  "event_job_id (EvStarted i) = i"
| "event_job_id (EvPhase i _) = i"
| "event_job_id (EvBytes i _ _) = i"
| "event_job_id (EvFinished i _) = i"
| "event_job_id (EvFailed i _ _) = i"
| "event_job_id (EvVerified i _) = i"

record job_entry =
  je_set :: string
  je_owner :: u32
  je_state :: job_state
  je_cancel :: bool
  je_summary_json :: "string option"
  je_error :: "(string \<times> string) option"
  je_verification :: "captured_result option"

record jobs =
  jb_entries :: "(string \<times> job_entry) list"
  jb_events :: "job_event list"
  jb_draining :: bool
  jb_starting :: "string list"

definition is_active :: "job_state \<Rightarrow> bool" where
  "is_active st \<longleftrightarrow> st = Pending \<or> st = Running"

definition terminal_event :: "job_snapshot \<Rightarrow> job_event option" where
  "terminal_event s =
     (case js_verification s of
        Some r \<Rightarrow> Some (EvVerified (js_job_id s) r)
      | None \<Rightarrow>
          (case js_state s of
             Finished \<Rightarrow> map_option (EvFinished (js_job_id s)) (js_summary_json s)
           | Failed \<Rightarrow> map_option (\<lambda>(code, message). EvFailed (js_job_id s) code message) (js_error s)
           | JobCancelled \<Rightarrow> map_option (\<lambda>(code, message). EvFailed (js_job_id s) code message) (js_error s)
           | Pending \<Rightarrow> None
           | Running \<Rightarrow> None))"

definition snapshot_of :: "string \<Rightarrow> job_entry \<Rightarrow> job_snapshot" where
  "snapshot_of i e = \<lparr> js_job_id = i, js_set = je_set e, js_state = je_state e, js_summary_json = je_summary_json e,
     js_error = je_error e, js_verification = je_verification e \<rparr>"

text \<open>The message is the error's \<open>Display\<close> text, which is a parameter.\<close>

definition error_code :: "(lr_error \<Rightarrow> string) \<Rightarrow> lr_error \<Rightarrow> string \<times> string" where
  "error_code display e =
     (case e of
        Denied _ _ \<Rightarrow> ''E_DENIED'' | Cancelled \<Rightarrow> ''E_CANCELLED'' | SetLocked _ \<Rightarrow> ''E_SET_LOCKED''
      | TargetChanged \<Rightarrow> ''E_TARGET_CHANGED'' | NoConsistentMethod _ \<Rightarrow> ''E_NO_CONSISTENT_METHOD''
      | StreamParentMissing _ \<Rightarrow> ''E_STREAM_PARENT_MISSING'' | SnapshotOverflow \<Rightarrow> ''E_SNAPSHOT_OVERFLOW''
      | FreezeTimeout \<Rightarrow> ''E_FREEZE_TIMEOUT'' | BadSector _ _ \<Rightarrow> ''E_BAD_SECTOR'' | Unsupported _ \<Rightarrow> ''E_UNSUPPORTED''
      | Corrupt _ \<Rightarrow> ''E_CORRUPT'' | TargetBusy _ \<Rightarrow> ''E_TARGET_BUSY'' | NoSpace \<Rightarrow> ''E_NO_SPACE''
      | NetworkTimeout _ \<Rightarrow> ''E_NETWORK_TIMEOUT'' | Aead \<Rightarrow> ''E_AEAD'' | Io _ \<Rightarrow> ''E_IO'', display e)"

definition job_outcome :: "captured_result \<Rightarrow> job_state \<times> (string \<times> string) option" where
  "job_outcome r =
     (case cv_outcome r of
        Incomplete True \<Rightarrow> (JobCancelled, Some (''E_CANCELLED'', ''verification was cancelled''))
      | Incomplete False \<Rightarrow> (Failed, Some (''E_VERIFY_INCOMPLETE'', ''verification did not complete''))
      | _ \<Rightarrow>
          (case cv_recording r of
             Recorded _ \<Rightarrow> (Finished, None)
           | NotRecorded \<Rightarrow> (Failed, Some (''E_HISTORY_NOT_RECORDED'', ''receipt was not recorded''))
           | PublicationUnconfirmed _ \<Rightarrow>
               (Failed, Some (''E_HISTORY_PUBLICATION_UNCONFIRMED'', ''receipt publication was not confirmed''))))"

section \<open>The registry\<close>

definition jobs_new :: jobs where
  "jobs_new = \<lparr> jb_entries = [], jb_events = [], jb_draining = False, jb_starting = [] \<rparr>"

definition begin_drain :: "jobs \<Rightarrow> jobs" where
  "begin_drain j = j\<lparr> jb_draining := True \<rparr>"

definition active_entries :: "jobs \<Rightarrow> (string \<times> job_entry) list" where
  "active_entries j = filter (\<lambda>(_, e). is_active (je_state e)) (jb_entries j)"

definition jobs_active :: "jobs \<Rightarrow> nat" where
  "jobs_active j = length (active_entries j)"

definition active_jobs :: "jobs \<Rightarrow> (string \<times> string) list" where
  "active_jobs j = sort (map (\<lambda>(i, e). (i, je_set e)) (active_entries j))"

definition cancel_all :: "jobs \<Rightarrow> jobs" where
  "cancel_all j = j\<lparr> jb_entries := map (\<lambda>(i, e). (i, if is_active (je_state e) then e\<lparr> je_cancel := True \<rparr> else e)) (jb_entries j) \<rparr>"

definition publish :: "job_event \<Rightarrow> jobs \<Rightarrow> jobs" where
  "publish ev j = j\<lparr> jb_events := jb_events j @ [ev] \<rparr>"

definition state_name :: "job_state \<Rightarrow> string" where
  "state_name st = (case st of Pending \<Rightarrow> ''pending'' | Running \<Rightarrow> ''running'' | Finished \<Rightarrow> ''finished''
     | Failed \<Rightarrow> ''failed'' | JobCancelled \<Rightarrow> ''cancelled'')"

text \<open>\<open>register_for\<close>: its checks, its section under the lock, and the whole of it.\<close>

definition register_check :: "string \<Rightarrow> string \<Rightarrow> jobs \<Rightarrow> unit res" where
  "register_check job_id set_name j =
     res_bind (fail_if (jb_draining j) (TargetBusy ''the daemon is stopping; start the job again once it is back'')) (\<lambda>_.
     res_bind (case map_of (jb_entries j) job_id of
         Some e \<Rightarrow> fail_if (is_active (je_state e)) (TargetBusy (''job '' @ job_id @ '' is already '' @ state_name (je_state e)))
       | None \<Rightarrow> Inr ()) (\<lambda>_.
       case find (\<lambda>(i, e). i \<noteq> job_id \<and> je_set e = set_name \<and> is_active (je_state e)) (jb_entries j) of
         Some (running, _) \<Rightarrow> Inl (TargetBusy (''set '' @ set_name @ '' is busy with job '' @ running))
       | None \<Rightarrow> Inr ()))"

definition register_locked :: "string \<Rightarrow> string \<Rightarrow> u32 \<Rightarrow> jobs \<Rightarrow> unit res \<times> jobs" where
  "register_locked job_id set_name owner j =
     (case register_check job_id set_name j of
        Inl e \<Rightarrow> (Inl e, j)
      | Inr _ \<Rightarrow>
          (Inr (), j\<lparr> jb_entries := AList.update job_id
             \<lparr> je_set = set_name, je_owner = owner, je_state = Running, je_cancel = False, je_summary_json = None,
               je_error = None, je_verification = None \<rparr> (jb_entries j), jb_starting := job_id # jb_starting j \<rparr>))"

definition publish_started :: "string \<Rightarrow> jobs \<Rightarrow> jobs" where
  "publish_started job_id j = (publish (EvStarted job_id) j)\<lparr> jb_starting := remove1 job_id (jb_starting j) \<rparr>"

definition register_for :: "string \<Rightarrow> string \<Rightarrow> u32 \<Rightarrow> jobs \<Rightarrow> unit res \<times> jobs" where
  "register_for job_id set_name owner j =
     st_bind (register_locked job_id set_name owner j) (\<lambda>_ j. (Inr (), publish_started job_id j))"

definition finish_entry :: "(lr_error \<Rightarrow> string) \<Rightarrow> string res \<Rightarrow> job_entry \<Rightarrow> job_entry" where
  "finish_entry display outcome e =
     (case outcome of
        Inr summary \<Rightarrow> e\<lparr> je_verification := None, je_state := Finished, je_summary_json := Some summary, je_error := None \<rparr>
      | Inl er \<Rightarrow> e\<lparr> je_verification := None, je_state := (if er = Cancelled then JobCancelled else Failed),
          je_summary_json := None, je_error := Some (error_code display er) \<rparr>)"

definition verified_entry :: "captured_result \<Rightarrow> job_entry \<Rightarrow> job_entry" where
  "verified_entry r e = (case job_outcome r of (st, er) \<Rightarrow>
     e\<lparr> je_state := st, je_error := er, je_summary_json := None, je_verification := Some r \<rparr>)"

text \<open>Updating the entry of a job, taking its snapshot and publishing its last event, all under the lock.\<close>

definition conclude :: "string \<Rightarrow> (job_entry \<Rightarrow> job_entry) \<Rightarrow> jobs \<Rightarrow> job_snapshot res \<times> jobs" where
  "conclude job_id f j =
     (case map_of (jb_entries j) job_id of
        None \<Rightarrow> (Inl (Unsupported (''no job '' @ job_id)), j)
      | Some e \<Rightarrow>
          (let j' = j\<lparr> jb_entries := AList.update job_id (f e) (jb_entries j) \<rparr>; s = snapshot_of job_id (f e) in
           (Inr s, case terminal_event s of Some ev \<Rightarrow> publish ev j' | None \<Rightarrow> j')))"

definition jobs_finish :: "(lr_error \<Rightarrow> string) \<Rightarrow> string \<Rightarrow> string res \<Rightarrow> jobs \<Rightarrow> job_snapshot res \<times> jobs" where
  "jobs_finish display job_id outcome j = conclude job_id (finish_entry display outcome) j"

definition finish_verification :: "string \<Rightarrow> captured_result \<Rightarrow> jobs \<Rightarrow> job_snapshot res \<times> jobs" where
  "finish_verification job_id r j = conclude job_id (verified_entry r) j"

definition jobs_snapshot :: "string \<Rightarrow> jobs \<Rightarrow> job_snapshot res" where
  "jobs_snapshot job_id j =
     (case map_of (jb_entries j) job_id of
        None \<Rightarrow> Inl (Unsupported (''no job '' @ job_id)) | Some e \<Rightarrow> Inr (snapshot_of job_id e))"

definition snapshot_owned :: "string \<Rightarrow> u32 \<Rightarrow> jobs \<Rightarrow> job_snapshot res" where
  "snapshot_owned job_id uid j =
     (case map_of (jb_entries j) job_id of
        None \<Rightarrow> Inl (Unsupported (''no job '' @ job_id))
      | Some e \<Rightarrow> if uid \<noteq> 0 \<and> uid \<noteq> je_owner e
          then Inl (Denied ''org.linuxreflect.disk.read'' ''verification result belongs to another user'')
          else Inr (snapshot_of job_id e))"

definition jobs_owner :: "string \<Rightarrow> jobs \<Rightarrow> u32 res" where
  "jobs_owner job_id j =
     (case map_of (jb_entries j) job_id of None \<Rightarrow> Inl (Unsupported (''no job '' @ job_id)) | Some e \<Rightarrow> Inr (je_owner e))"

definition jobs_cancel :: "string \<Rightarrow> jobs \<Rightarrow> job_snapshot res \<times> jobs" where
  "jobs_cancel job_id j =
     (case map_of (jb_entries j) job_id of
        None \<Rightarrow> (Inl (Unsupported (''no job '' @ job_id)), j)
      | Some e \<Rightarrow>
          (let e' = e\<lparr> je_cancel := True, je_state := (if je_state e = Pending then JobCancelled else je_state e) \<rparr>;
               j' = j\<lparr> jb_entries := AList.update job_id e' (jb_entries j) \<rparr> in
           (jobs_snapshot job_id j', j')))"

definition jobs_list :: "jobs \<Rightarrow> job_snapshot list" where
  "jobs_list j = map (\<lambda>(i, e). snapshot_of i e) (sort_key fst (jb_entries j))"

text \<open>The check of the caller's authorization is a parameter, its answer an argument.\<close>

definition authorize_and_register :: "unit res \<Rightarrow> u32 \<Rightarrow> string \<Rightarrow> string \<Rightarrow> jobs \<Rightarrow> unit res \<times> jobs" where
  "authorize_and_register answer uid job_id set_name j =
     st_bind (answer, j) (\<lambda>_ j. register_for job_id set_name uid j)"

text \<open>The sink a running job reports through.\<close>

definition sink_phase :: "string \<Rightarrow> string \<Rightarrow> jobs \<Rightarrow> jobs" where
  "sink_phase job_id name j = publish (EvPhase job_id name) j"

definition sink_bytes :: "string \<Rightarrow> u64 \<Rightarrow> u64 \<Rightarrow> jobs \<Rightarrow> jobs" where
  "sink_bytes job_id n tot j = publish (EvBytes job_id n tot) j"

section \<open>The daemon's steps\<close>

text \<open>A job is running from the end of its registration until it is concluded; only then does the daemon's
  handler, which holds the sink, report progress and conclude it.\<close>

definition runs :: "string \<Rightarrow> jobs \<Rightarrow> bool" where
  "runs i j \<longleftrightarrow> (\<exists>e. map_of (jb_entries j) i = Some e \<and> is_active (je_state e)) \<and> i \<notin> set (jb_starting j)"

inductive jobs_step :: "(lr_error \<Rightarrow> string) \<Rightarrow> jobs \<Rightarrow> jobs \<Rightarrow> bool" for display where
  registers: "register_locked i s owner j = (r, j') \<Longrightarrow> jobs_step display j j'"
| started: "i \<in> set (jb_starting j) \<Longrightarrow> jobs_step display j (publish_started i j)"
| phase: "runs i j \<Longrightarrow> jobs_step display j (sink_phase i name j)"
| bytes: "runs i j \<Longrightarrow> jobs_step display j (sink_bytes i n tot j)"
| finishes: "runs i j \<Longrightarrow> jobs_finish display i outcome j = (r, j') \<Longrightarrow> jobs_step display j j'"
| verifies: "runs i j \<Longrightarrow> finish_verification i res j = (r, j') \<Longrightarrow> jobs_step display j j'"
| cancels: "jobs_cancel i j = (r, j') \<Longrightarrow> jobs_step display j j'"
| cancels_all: "jobs_step display j (cancel_all j)"
| drains: "jobs_step display j (begin_drain j)"

inductive jobs_reachable :: "(lr_error \<Rightarrow> string) \<Rightarrow> jobs \<Rightarrow> bool" for display where
  new: "jobs_reachable display jobs_new"
| step: "jobs_reachable display j \<Longrightarrow> jobs_step display j j' \<Longrightarrow> jobs_reachable display j'"

inductive_cases jobs_stepE: "jobs_step display j j'"

section \<open>The invariant\<close>

text \<open>What the fields of an entry may be, by its state.\<close>

definition job_entry_wf :: "job_entry \<Rightarrow> bool" where
  "job_entry_wf e =
     (case je_state e of
        Pending \<Rightarrow> False
      | Running \<Rightarrow> je_summary_json e = None \<and> je_error e = None \<and> je_verification e = None
      | Finished \<Rightarrow> je_error e = None \<and> (case je_verification e of None \<Rightarrow> je_summary_json e \<noteq> None
          | Some r \<Rightarrow> je_summary_json e = None \<and> job_outcome r = (Finished, None))
      | st \<Rightarrow> je_error e \<noteq> None \<and> je_summary_json e = None
          \<and> (case je_verification e of None \<Rightarrow> True | Some r \<Rightarrow> job_outcome r = (st, je_error e)))"

text \<open>The life of one job as its subscribers see it: \<open>Some True\<close> between its start and its end; \<open>None\<close> if
  an event came out of order.\<close>

fun trace_step :: "string \<Rightarrow> job_event \<Rightarrow> bool option \<Rightarrow> bool option" where
  "trace_step i ev None = None"
| "trace_step i ev (Some live) =
     (if event_job_id ev \<noteq> i then Some live
      else (case ev of
          EvStarted _ \<Rightarrow> if live then None else Some True
        | EvPhase _ _ \<Rightarrow> if live then Some True else None
        | EvBytes _ _ _ \<Rightarrow> if live then Some True else None
        | _ \<Rightarrow> if live then Some False else None))"

definition trace :: "string \<Rightarrow> job_event list \<Rightarrow> bool option" where
  "trace i evs = fold (trace_step i) evs (Some False)"

lemma trace_snoc [simp]: "trace i (evs @ [ev]) = trace_step i ev (trace i evs)"
  by (simp add: trace_def)

definition active_in :: "jobs \<Rightarrow> string \<Rightarrow> job_entry \<Rightarrow> bool" where
  "active_in j i e \<longleftrightarrow> map_of (jb_entries j) i = Some e \<and> is_active (je_state e)"

definition jobs_inv :: "jobs \<Rightarrow> bool" where
  "jobs_inv j \<longleftrightarrow> distinct (map fst (jb_entries j))
     \<and> (\<forall>i e. map_of (jb_entries j) i = Some e \<longrightarrow> job_entry_wf e)
     \<and> (\<forall>i e i' e'. active_in j i e \<longrightarrow> active_in j i' e' \<longrightarrow> je_set e = je_set e' \<longrightarrow> i = i')
     \<and> distinct (jb_starting j) \<and> (\<forall>i \<in> set (jb_starting j). \<exists>e. active_in j i e)
     \<and> (\<forall>i. trace i (jb_events j) = Some (runs i j))"

lemma runs_iff: "runs i j \<longleftrightarrow> (\<exists>e. active_in j i e) \<and> i \<notin> set (jb_starting j)"
  by (simp add: runs_def active_in_def)

lemma job_outcome_cases: "\<exists>st er. job_outcome r = (st, er) \<and> \<not> is_active st \<and> (st = Finished \<longleftrightarrow> er = None)"
  by (simp add: job_outcome_def is_active_def split: attempt_outcome.split recording_outcome.split bool.split)

lemma concluded_wf:
  "job_entry_wf (finish_entry display outcome e)" "job_entry_wf (verified_entry r e)"
  "\<not> is_active (je_state (finish_entry display outcome e))" "\<not> is_active (je_state (verified_entry r e))"
proof -
  show "job_entry_wf (finish_entry display outcome e)" "\<not> is_active (je_state (finish_entry display outcome e))"
    by (simp_all add: job_entry_wf_def finish_entry_def is_active_def split: sum.split)
  obtain st er where o: "job_outcome r = (st, er)" "\<not> is_active st" "st = Finished \<longleftrightarrow> er = None" using job_outcome_cases by blast
  then show "\<not> is_active (je_state (verified_entry r e))" by (simp add: verified_entry_def)
  show "job_entry_wf (verified_entry r e)" using o by (cases st) (auto simp: job_entry_wf_def verified_entry_def is_active_def)
qed

lemma terminal_event_wf:
  assumes "job_entry_wf e" "\<not> is_active (je_state e)"
  shows "terminal_event (snapshot_of i e) \<noteq> None \<and> (\<forall>ev. terminal_event (snapshot_of i e) = Some ev \<longrightarrow>
    event_job_id ev = i \<and> trace_step i ev (Some True) = Some False)"
  using assms
  by (auto simp: job_entry_wf_def is_active_def terminal_event_def snapshot_of_def split: job_state.splits option.splits job_event.split)

lemma jobs_inv_new: "jobs_inv jobs_new"
  by (simp add: jobs_inv_def jobs_new_def active_in_def runs_def trace_def)

text \<open>A step that changes the entries only within active or within inactive states.\<close>

lemma inv_conclude:
  assumes "jobs_inv j" "runs i j" "conclude i f j = (r, j')" "\<And>e. job_entry_wf (f e)" "\<And>e. \<not> is_active (je_state (f e))"
  shows "jobs_inv j'"
proof -
  note I = assms(1) [unfolded jobs_inv_def]
  obtain e where e: "map_of (jb_entries j) i = Some e" "is_active (je_state e)" "i \<notin> set (jb_starting j)" using assms(2) by (auto simp: runs_def)
  obtain ev where ev: "terminal_event (snapshot_of i (f e)) = Some ev" "event_job_id ev = i" "trace_step i ev (Some True) = Some False"
    using terminal_event_wf assms(4,5) by blast
  let ?es = "AList.update i (f e) (jb_entries j)"
  have j': "j' = j\<lparr> jb_entries := ?es, jb_events := jb_events j @ [ev] \<rparr>"
    using assms(3) e(1) ev(1) by (simp add: conclude_def Let_def publish_def)
  have act: "active_in j' k d \<longleftrightarrow> k \<noteq> i \<and> active_in j k d" for k d
    using assms(5) by (auto simp: active_in_def j' update_conv')
  have "trace k (jb_events j') = Some (runs k j')" for k
  proof (cases "k = i")
    case True
    then show ?thesis using I assms(2) ev(2,3) act by (simp add: j' runs_iff)
  next
    case False
    then show ?thesis using I ev(2) act by (simp add: j' runs_iff)
  qed
  moreover have "\<forall>k d. map_of (jb_entries j') k = Some d \<longrightarrow> job_entry_wf d"
    using I assms(4) by (simp add: j' update_conv')
  moreover have "distinct (map fst (jb_entries j'))" using I by (simp add: j' distinct_update)
  moreover have "\<forall>k \<in> set (jb_starting j'). \<exists>d. active_in j' k d" using I e(3) act by (metis j' jobs.select_convs(4) jobs.surjective jobs.update_convs(1,2))
  ultimately show ?thesis using I act unfolding jobs_inv_def by (simp add: j') metis
qed

text \<open>Events of running jobs, and cancellation flags, keep the invariant.\<close>

lemma inv_publish:
  assumes "jobs_inv j" "event_job_id ev = i" "\<And>k. trace_step k ev (Some (runs k j)) = Some (runs k j)"
  shows "jobs_inv (publish ev j)"
  using assms by (auto simp: jobs_inv_def publish_def active_in_def runs_def)

lemma inv_same_states:
  assumes "jobs_inv j" "jb_starting j' = jb_starting j" "jb_events j' = jb_events j" "map fst (jb_entries j') = map fst (jb_entries j)"
    and "\<And>k. rel_option (\<lambda>e e'. \<exists>c. e' = e\<lparr> je_cancel := c \<rparr>) (map_of (jb_entries j) k) (map_of (jb_entries j') k)"
  shows "jobs_inv j'"
proof -
  have fwd: "\<exists>c. map_of (jb_entries j') k = Some (e\<lparr> je_cancel := c \<rparr>)" if "map_of (jb_entries j) k = Some e" for k e
    using assms(5) [of k] that by (auto simp: option_rel_Some1)
  have bwd: "\<exists>e c. map_of (jb_entries j) k = Some e \<and> e' = e\<lparr> je_cancel := c \<rparr>" if "map_of (jb_entries j') k = Some e'" for k e'
    using assms(5) [of k] that by (auto simp: option_rel_Some2)
  have wf: "job_entry_wf (e\<lparr> je_cancel := c \<rparr>) = job_entry_wf e" for e c by (simp add: job_entry_wf_def split: job_state.split option.split)
  have act: "(\<exists>e. active_in j' k e \<and> je_set e = s) \<longleftrightarrow> (\<exists>e. active_in j k e \<and> je_set e = s)" for k s
    unfolding active_in_def using fwd [of k] bwd [of k] by fastforce
  have runs: "runs k j' = runs k j" for k using act assms(2) unfolding runs_iff by metis
  note I = assms(1) [unfolded jobs_inv_def]
  show ?thesis
    unfolding jobs_inv_def runs assms(2-4)
  proof (intro conjI allI impI)
    fix k e' assume "map_of (jb_entries j') k = Some e'"
    then obtain e c where "map_of (jb_entries j) k = Some e" "e' = e\<lparr> je_cancel := c \<rparr>" using bwd by blast
    then show "job_entry_wf e'" using I wf by simp
  next
    fix k e k' e' assume "active_in j' k e" "active_in j' k' e'" "je_set e = je_set e'"
    then show "k = k'" using I act by metis
  next
    show "\<forall>k \<in> set (jb_starting j). \<exists>e. active_in j' k e" using I act by metis
  qed (use I in auto)
qed

lemma register_check_iff:
  "register_check i s j = Inr () \<longleftrightarrow> \<not> jb_draining j \<and> \<not> (\<exists>e. active_in j i e)
     \<and> (\<forall>(k, e) \<in> set (jb_entries j). k \<noteq> i \<longrightarrow> je_set e = s \<longrightarrow> \<not> is_active (je_state e))"
proof -
  let ?p = "\<lambda>(k, e). k \<noteq> i \<and> je_set e = s \<and> is_active (je_state e)"
  have "(case find ?p (jb_entries j) of Some (running, _) \<Rightarrow> Inl (TargetBusy (''set '' @ s @ '' is busy with job '' @ running)) | None \<Rightarrow> Inr ())
      = Inr () \<longleftrightarrow> find ?p (jb_entries j) = None" by (auto split: option.splits)
  then show ?thesis
    unfolding register_check_def res_bind_eq_Inr find_None_iff
    by (auto simp: active_in_def split: option.splits)
qed

lemma inv_register:
  assumes "jobs_inv j" "register_locked i s owner j = (r, j')"
  shows "jobs_inv j'"
proof (cases "register_check i s j")
  case (Inl e)
  then show ?thesis using assms by (simp add: register_locked_def)
next
  case (Inr u)
  note I = assms(1) [unfolded jobs_inv_def]
  define e0 where "e0 = \<lparr> je_set = s, je_owner = owner, je_state = Running, je_cancel = False, je_summary_json = None, je_error = None, je_verification = None \<rparr>"
  have j': "j' = j\<lparr> jb_entries := AList.update i e0 (jb_entries j), jb_starting := i # jb_starting j \<rparr>"
    using assms(2) Inr by (simp add: register_locked_def e0_def)
  have free: "\<not> (\<exists>e. active_in j i e)" "\<forall>(k, e) \<in> set (jb_entries j). k \<noteq> i \<longrightarrow> je_set e = s \<longrightarrow> \<not> is_active (je_state e)"
    using Inr register_check_iff [of i s j] by auto
  have other: "je_set e \<noteq> s" if "active_in j k e" for k e
    using free that map_of_SomeD [of "jb_entries j" k e] by (auto simp: active_in_def)
  have act: "active_in j' k e \<longleftrightarrow> (if k = i then e = e0 else active_in j k e)" for k e
    by (auto simp: active_in_def j' update_conv' e0_def is_active_def)
  have i: "i \<notin> set (jb_starting j)" using I free(1) by blast
  have "job_entry_wf e0" by (simp add: job_entry_wf_def e0_def)
  then have "\<forall>k e. map_of (jb_entries j') k = Some e \<longrightarrow> job_entry_wf e" using I by (simp add: j' update_conv')
  moreover have "runs k j' = runs k j" for k using free(1) act by (auto simp: runs_iff j')
  moreover have "\<forall>k e k' e'. active_in j' k e \<longrightarrow> active_in j' k' e' \<longrightarrow> je_set e = je_set e' \<longrightarrow> k = k'"
    unfolding act using I other by (auto simp: e0_def split: if_splits)
  moreover have "\<forall>k \<in> set (jb_starting j'). \<exists>e. active_in j' k e"
  proof
    fix k assume "k \<in> set (jb_starting j')"
    then show "\<exists>e. active_in j' k e" using I act by (cases "k = i") (auto simp: j')
  qed
  ultimately show ?thesis using I i by (simp add: jobs_inv_def j' distinct_update)
qed

lemma inv_started:
  assumes "jobs_inv j" "i \<in> set (jb_starting j)"
  shows "jobs_inv (publish_started i j)"
proof -
  note I = assms(1) [unfolded jobs_inv_def]
  have act: "active_in (publish_started i j) k e = active_in j k e" for k e by (simp add: active_in_def publish_started_def publish_def)
  have st: "jb_starting (publish_started i j) = remove1 i (jb_starting j)" by (simp add: publish_started_def)
  have ev: "jb_events (publish_started i j) = jb_events j @ [EvStarted i]" "jb_entries (publish_started i j) = jb_entries j"
    by (simp_all add: publish_started_def publish_def)
  have set: "set (remove1 i (jb_starting j)) = set (jb_starting j) - {i}" using I by (simp add: set_remove1_eq)
  have "runs k (publish_started i j) \<longleftrightarrow> k = i \<or> runs k j" for k
    unfolding runs_iff act st set using I assms(2) by blast
  moreover have "\<not> runs i j" using assms(2) by (simp add: runs_iff)
  ultimately show ?thesis
    using I unfolding jobs_inv_def act st ev set by auto
qed

lemma cancel_same: "\<exists>c. (e :: job_entry) = e\<lparr> je_cancel := c \<rparr>"
  by (rule exI [of _ "je_cancel e"]) simp

lemma inv_cancel:
  assumes "jobs_inv j" "jobs_cancel i j = (r, j')"
  shows "jobs_inv j'"
proof (cases "map_of (jb_entries j) i")
  case None
  then show ?thesis using assms by (simp add: jobs_cancel_def)
next
  case (Some e)
  have "je_state e \<noteq> Pending" using assms(1) Some by (auto simp: jobs_inv_def job_entry_wf_def split: job_state.splits)
  then have j': "j' = j\<lparr> jb_entries := AList.update i (e\<lparr> je_cancel := True \<rparr>) (jb_entries j) \<rparr>"
    using assms(2) Some by (simp add: jobs_cancel_def Let_def)
  have key: "i \<in> fst ` set (jb_entries j)" using Some by (metis map_of_eq_None_iff option.distinct(1))
  have "rel_option (\<lambda>e e'. \<exists>c. e' = e\<lparr> je_cancel := c \<rparr>) (map_of (jb_entries j) k) (map_of (jb_entries j') k)" for k
  proof (cases "k = i")
    case False
    then show ?thesis by (auto simp: j' update_conv' intro!: option.rel_refl cancel_same)
  qed (use Some j' in \<open>auto simp: update_conv'\<close>)
  then show ?thesis using key by (intro inv_same_states [OF assms(1)]) (simp_all add: j' update_keys)
qed

lemma jobs_inv_reachable: "jobs_reachable display j \<Longrightarrow> jobs_inv j"
proof (induction rule: jobs_reachable.induct)
  case new
  then show ?case by (rule jobs_inv_new)
next
  case (step j j')
  from step(2) step(3) show ?case
  proof cases
    case (registers i s owner r)
    then show ?thesis using inv_register step(3) by blast
  next
    case (started i)
    then show ?thesis using inv_started step(3) by blast
  next
    case (phase i name)
    then show ?thesis using step(3) unfolding phase(1) sink_phase_def by (intro inv_publish) auto
  next
    case (bytes i n tot)
    then show ?thesis using step(3) unfolding bytes(1) sink_bytes_def by (intro inv_publish) auto
  next
    case (finishes i outcome r)
    then show ?thesis using inv_conclude [OF step(3)] concluded_wf(1,3) unfolding jobs_finish_def by blast
  next
    case (verifies i res r)
    then show ?thesis using inv_conclude [OF step(3)] concluded_wf(2,4) unfolding finish_verification_def by blast
  next
    case (cancels i r)
    then show ?thesis using inv_cancel step(3) by blast
  next
    case cancels_all
    show ?thesis
      unfolding cancels_all using step(3)
    proof (rule inv_same_states)
      fix k
      have "map_of (jb_entries (cancel_all j)) k
          = map_option (\<lambda>e. if is_active (je_state e) then e\<lparr> je_cancel := True \<rparr> else e) (map_of (jb_entries j) k)"
        by (simp add: cancel_all_def map_of_map)
      then show "rel_option (\<lambda>e e'. \<exists>c. e' = e\<lparr> je_cancel := c \<rparr>) (map_of (jb_entries j) k) (map_of (jb_entries (cancel_all j)) k)"
        by (cases "map_of (jb_entries j) k") (auto intro: cancel_same)
    qed (auto simp: cancel_all_def comp_def split_beta)
  next
    case drains
    then show ?thesis using step(3) by (auto simp: jobs_inv_def begin_drain_def active_in_def runs_def)
  qed
qed

lemma step_draining:
  assumes "jobs_step display j j'" "jb_draining j"
  shows "jb_draining j'" "active_in j' i e' \<Longrightarrow> \<exists>e. active_in j i e"
proof -
  have c: "jb_draining j' \<and> (active_in j' i e' \<longrightarrow> (\<exists>e. active_in j i e))" if co: "conclude k f j = (r, j')" "runs k j" for k f r
  proof -
    obtain e where e: "active_in j k e" using co(2) by (auto simp: runs_iff)
    then have j': "jb_entries j' = AList.update k (f e) (jb_entries j)" "jb_draining j' = jb_draining j"
      using co(1) by (auto simp: conclude_def active_in_def Let_def publish_def split: option.splits)
    then show ?thesis using assms(2) e by (cases "i = k") (auto simp: active_in_def update_conv')
  qed
  have "jb_draining j' \<and> (active_in j' i e' \<longrightarrow> (\<exists>e. active_in j i e))"
    using assms(1)
  proof cases
    case (cancels k r)
    then show ?thesis using assms(2)
      by (auto simp: jobs_cancel_def active_in_def update_conv' is_active_def Let_def split: option.splits if_splits)
  next
    case cancels_all
    then show ?thesis using assms(2) by (auto simp: cancel_all_def active_in_def map_of_map split: if_splits)
  next
    case (registers k s owner r)
    then show ?thesis using assms(2) by (auto simp: register_locked_def register_check_def)
  next
    case (finishes k outcome r)
    then show ?thesis using c unfolding jobs_finish_def by blast
  next
    case (verifies k res r)
    then show ?thesis using c unfolding finish_verification_def by blast
  qed (use assms(2) in \<open>auto simp: publish_started_def publish_def sink_phase_def sink_bytes_def begin_drain_def active_in_def\<close>)
  then show "jb_draining j'" "active_in j' i e' \<Longrightarrow> \<exists>e. active_in j i e" by auto
qed

section \<open>Waiting for jobs to end\<close>

text \<open>\<open>DrainWatch\<close>; an \<open>Instant\<close> is a number of seconds, and \<open>duration_since\<close> saturates at zero.\<close>

record seen_job =
  se_phase :: string
  se_done :: u64
  se_total :: u64
  se_advanced :: nat

record drain_watch =
  dw_started :: nat
  dw_jobs :: "string \<rightharpoonup> seen_job"

definition stall_limit :: nat where "stall_limit = 300"

definition drain_watch_new :: "nat \<Rightarrow> drain_watch" where
  "drain_watch_new now = \<lparr> dw_started = now, dw_jobs = Map.empty \<rparr>"

definition seen_of :: "drain_watch \<Rightarrow> string \<Rightarrow> seen_job" where
  "seen_of w i = (case dw_jobs w i of Some s \<Rightarrow> s
     | None \<Rightarrow> \<lparr> se_phase = [], se_done = 0, se_total = 0, se_advanced = dw_started w \<rparr>)"

definition drain_observe :: "job_event \<Rightarrow> nat \<Rightarrow> drain_watch \<Rightarrow> drain_watch" where
  "drain_observe ev now w =
     (case ev of
        EvPhase i name \<Rightarrow>
          (let s = seen_of w i; s' = (if se_phase s \<noteq> name then s\<lparr> se_phase := name, se_advanced := now \<rparr> else s) in
           w\<lparr> dw_jobs := (dw_jobs w)(i \<mapsto> s') \<rparr>)
      | EvBytes i n tot \<Rightarrow>
          (let s = seen_of w i; s' = (if se_done s \<noteq> n then s\<lparr> se_advanced := now \<rparr> else s) in
           w\<lparr> dw_jobs := (dw_jobs w)(i \<mapsto> s'\<lparr> se_done := n, se_total := tot \<rparr>) \<rparr>)
      | EvFinished i _ \<Rightarrow> w\<lparr> dw_jobs := (dw_jobs w)(i := None) \<rparr>
      | EvFailed i _ _ \<Rightarrow> w\<lparr> dw_jobs := (dw_jobs w)(i := None) \<rparr>
      | EvVerified i _ \<Rightarrow> w\<lparr> dw_jobs := (dw_jobs w)(i := None) \<rparr>
      | EvStarted _ \<Rightarrow> w)"

definition drain_advanced :: "drain_watch \<Rightarrow> string \<Rightarrow> nat" where
  "drain_advanced w i = (case dw_jobs w i of None \<Rightarrow> dw_started w | Some s \<Rightarrow> se_advanced s)"

definition should_extend :: "drain_watch \<Rightarrow> (string \<times> string) list \<Rightarrow> nat \<Rightarrow> bool" where
  "should_extend w active now \<longleftrightarrow> (\<exists>(i, _) \<in> set active. now - drain_advanced w i < stall_limit)"

text \<open>Events that repeat what is known of a job earn no time.\<close>

definition repeats :: "drain_watch \<Rightarrow> string \<Rightarrow> job_event \<Rightarrow> bool" where
  "repeats w i ev \<longleftrightarrow> event_job_id ev = i \<longrightarrow> (case ev of EvPhase _ name \<Rightarrow> name = se_phase (seen_of w i)
     | EvBytes _ n _ \<Rightarrow> n = se_done (seen_of w i) | EvStarted _ \<Rightarrow> True | _ \<Rightarrow> False)"

lemma repeats_observe:
  assumes "repeats w i ev"
  shows "drain_advanced (drain_observe ev now w) i = drain_advanced w i" "repeats (drain_observe ev now w) i ev' = repeats w i ev'"
proof -
  have "drain_advanced w i = se_advanced (seen_of w i)" for w by (simp add: drain_advanced_def seen_of_def split: option.split)
  then show "drain_advanced (drain_observe ev now w) i = drain_advanced w i"
    using assms by (cases ev) (auto simp: repeats_def drain_observe_def seen_of_def Let_def split: option.splits)
  have "se_phase (seen_of (drain_observe ev now w) i) = se_phase (seen_of w i) \<and> se_done (seen_of (drain_observe ev now w) i) = se_done (seen_of w i)"
    using assms by (cases ev) (auto simp: repeats_def drain_observe_def seen_of_def Let_def split: option.splits)
  then show "repeats (drain_observe ev now w) i ev' = repeats w i ev'" by (simp add: repeats_def split: job_event.split)
qed

lemma stalled_job_earns_no_time:
  assumes "\<forall>(ev, t) \<in> set evs. repeats w i ev" "drain_advanced w i + stall_limit \<le> now"
  shows "\<not> should_extend (fold (\<lambda>(ev, t). drain_observe ev t) evs w) [(i, s)] now"
proof -
  have "drain_advanced (fold (\<lambda>(ev, t). drain_observe ev t) evs w) i = drain_advanced w i"
    using assms(1) by (induction evs arbitrary: w) (auto simp: repeats_observe)
  then show ?thesis using assms(2) by (simp add: should_extend_def)
qed

section \<open>Properties\<close>

text \<open>C12. The registry of a running daemon, whatever its threads do: identifiers are unique, at most one
  active job works on a set, a job is active exactly as long as it has no final event to report, and every
  subscriber sees the events of a job in order - its start, then its progress, then one final event, and then
  perhaps the next start under the same identifier.\<close>

theorem jobs_registry_invariant:
  assumes "jobs_reachable display j"
  shows "distinct (map fst (jb_entries j))
    \<and> (\<forall>i e i' e'. active_in j i e \<longrightarrow> active_in j i' e' \<longrightarrow> je_set e = je_set e' \<longrightarrow> i = i')
    \<and> (\<forall>i e. map_of (jb_entries j) i = Some e \<longrightarrow> (terminal_event (snapshot_of i e) = None \<longleftrightarrow> is_active (je_state e)))
    \<and> (\<forall>i. trace i (jb_events j) = Some (runs i j))"
proof -
  note I = jobs_inv_reachable [OF assms, unfolded jobs_inv_def]
  have "terminal_event (snapshot_of i e) = None \<longleftrightarrow> is_active (je_state e)" if "map_of (jb_entries j) i = Some e" for i e
  proof -
    have wf: "job_entry_wf e" using I that by blast
    have "terminal_event (snapshot_of i e) = None" if "is_active (je_state e)"
      using wf that by (auto simp: job_entry_wf_def is_active_def terminal_event_def snapshot_of_def)
    then show ?thesis using terminal_event_wf [OF wf] by blast
  qed
  then show ?thesis using I by blast
qed

text \<open>C13. A draining daemon admits no job: from the moment it starts to drain it keeps draining, every
  registration is refused, and no job is active that was not active then; so the drain is over when the jobs
  that were active have been concluded, and each conclusion makes its job inactive for good.\<close>

theorem drain_admits_none:
  assumes "(jobs_step display)\<^sup>*\<^sup>* j j'" "jb_draining j"
  shows "jb_draining j' \<and> (\<forall>i. (\<exists>e. active_in j' i e) \<longrightarrow> (\<exists>e. active_in j i e))
    \<and> (\<forall>i s owner. \<exists>e. register_for i s owner j' = (Inl e, j'))
    \<and> (\<forall>i outcome. runs i j' \<longrightarrow> (\<exists>s j''. jobs_finish display i outcome j' = (Inr s, j'') \<and> \<not> (\<exists>e. active_in j'' i e)))"
proof -
  have "jb_draining j' \<and> (\<forall>i. (\<exists>e. active_in j' i e) \<longrightarrow> (\<exists>e. active_in j i e))"
    using assms
  proof (induction rule: rtranclp_induct)
    case (step y z)
    then show ?case using step_draining [OF step(2)] by blast
  qed blast
  moreover from this have "\<exists>e. register_for i s owner j' = (Inl e, j')" for i s owner
    by (simp add: register_for_def register_locked_def register_check_def)
  moreover have "\<exists>s j''. jobs_finish display i outcome j' = (Inr s, j'') \<and> \<not> (\<exists>e. active_in j'' i e)" if r: "runs i j'" for i outcome
  proof -
    obtain e where e: "map_of (jb_entries j') i = Some e" using r by (auto simp: runs_def)
    then show ?thesis using concluded_wf(3) [of display outcome e]
      by (auto simp: jobs_finish_def conclude_def Let_def publish_def active_in_def update_conv' split: option.split)
  qed
  ultimately show ?thesis by blast
qed

section \<open>An example\<close>

definition demo_jobs :: jobs where
  "demo_jobs = snd (register_for ''j1'' ''laptop'' 1000 jobs_new)"

lemma demo_jobs_reachable: "jobs_reachable (\<lambda>_. []) demo_jobs"
proof -
  let ?j = "snd (register_locked ''j1'' ''laptop'' 1000 jobs_new)"
  have "jobs_reachable (\<lambda>_. []) ?j" by (rule jobs_reachable.step [OF jobs_reachable.new jobs_step.registers]) (rule prod.collapse [symmetric])
  then have "jobs_reachable (\<lambda>_. []) (publish_started ''j1'' ?j)"
    by (rule jobs_reachable.step) (rule jobs_step.started, simp add: register_locked_def register_check_def jobs_new_def)
  moreover have "register_locked ''j1'' ''laptop'' 1000 jobs_new = (Inr (), ?j)" by (simp add: register_locked_def register_check_def jobs_new_def)
  then have "demo_jobs = publish_started ''j1'' ?j" unfolding demo_jobs_def register_for_def by (metis snd_conv st_bind_simps(2))
  ultimately show ?thesis by simp
qed

theorem jobs_registry_invariant_witness:
  "jb_events demo_jobs = [EvStarted ''j1''] \<and> runs ''j1'' demo_jobs \<and> trace ''j1'' (jb_events demo_jobs) = Some (runs ''j1'' demo_jobs)"
proof -
  have "jb_events demo_jobs = [EvStarted ''j1'']" "runs ''j1'' demo_jobs"
    by (simp_all add: demo_jobs_def register_for_def register_locked_def register_check_def jobs_new_def publish_started_def publish_def runs_def is_active_def)
  then show ?thesis using jobs_registry_invariant [OF demo_jobs_reachable] by blast
qed

theorem drain_admits_none_witness:
  "\<exists>e s j''. register_for ''j2'' ''desktop'' 0 (begin_drain demo_jobs) = (Inl e, begin_drain demo_jobs)
     \<and> jobs_finish (\<lambda>_. []) ''j1'' (Inl Cancelled) (begin_drain demo_jobs) = (Inr s, j'') \<and> \<not> (\<exists>e. active_in j'' ''j1'' e)"
proof -
  have "runs ''j1'' (begin_drain demo_jobs)"
    by (simp add: demo_jobs_def register_for_def register_locked_def register_check_def jobs_new_def publish_started_def publish_def runs_def
        is_active_def begin_drain_def)
  moreover have "jb_draining (begin_drain demo_jobs)" by (simp add: begin_drain_def)
  ultimately show ?thesis using drain_admits_none [of "\<lambda>_. []" "begin_drain demo_jobs" "begin_drain demo_jobs"] by blast
qed

end
