(* ===== verification/Disk_Layout.thy ===== *)
theory Disk_Layout
  imports Block_Manifest Superblock
begin

text \<open>
  \<open>crates/lr-format/src/disk.rs\<close>: the layout of a whole disk - its partition table, its regions and their
  records - as the manifest stream of a whole-disk image carries it.  The readers work over any \<open>ByteSource\<close>.
  Multiplications and additions the code does not check wrap, as in a release build.
\<close>

section \<open>Partition tables and regions\<close>

definition section_disk_header :: u8 where "section_disk_header = 6"
definition disk_manifest_ver :: u16 where "disk_manifest_ver = 1"
definition max_leading_bytes :: u64 where "max_leading_bytes = 16 * 1024 * 1024"
definition pt_raw_bytes :: nat where "pt_raw_bytes = 1024 * 1024"
definition swap_header_bytes :: nat where "swap_header_bytes = 4096"
definition region_has_manifest :: u32 where "region_has_manifest = 1"
definition region_bootable :: u32 where "region_bootable = 2"

datatype pt_type = PtNone | PtGpt | PtMbr

fun pt_as_u8 :: "pt_type \<Rightarrow> u8" where
  "pt_as_u8 PtNone = 0"
| "pt_as_u8 PtGpt = 1"
| "pt_as_u8 PtMbr = 2"

definition pt_from_u8 :: "u8 \<Rightarrow> pt_type res" where
  "pt_from_u8 v = (if v = 0 then Inr PtNone else if v = 1 then Inr PtGpt else if v = 2 then Inr PtMbr
     else Inl (Corrupt ''unknown partition table type ''))"

datatype region_kind = Leading | PartitionFs | PartitionRaw | Swap

fun region_as_u8 :: "region_kind \<Rightarrow> u8" where
  "region_as_u8 Leading = 1"
| "region_as_u8 PartitionFs = 2"
| "region_as_u8 PartitionRaw = 3"
| "region_as_u8 Swap = 4"

definition region_from_u8 :: "u8 \<Rightarrow> region_kind res" where
  "region_from_u8 v = (if v = 1 then Inr Leading else if v = 2 then Inr PartitionFs else if v = 3 then Inr PartitionRaw
     else if v = 4 then Inr Swap else Inl (Corrupt ''unknown region kind ''))"

definition kind_has_manifest :: "region_kind \<Rightarrow> bool" where
  "kind_has_manifest k \<longleftrightarrow> k \<noteq> Swap"

record region_record =
  rg_kind :: region_kind
  rg_consistency :: consistency
  rg_bootable :: bool
  rg_index :: u32
  rg_start_lba :: u64
  rg_size_bytes :: u64
  rg_type_guid :: string
  rg_partuuid :: string
  rg_fs_type :: string
  rg_fs_uuid :: string
  rg_fs_label :: string
  rg_swap_header :: bytes

definition region_new :: "region_kind \<Rightarrow> u32 \<Rightarrow> u64 \<Rightarrow> u64 \<Rightarrow> region_record" where
  "region_new kind index start_lba size_bytes =
     \<lparr> rg_kind = kind, rg_consistency = Offline, rg_bootable = False, rg_index = index, rg_start_lba = start_lba,
       rg_size_bytes = size_bytes, rg_type_guid = [], rg_partuuid = [], rg_fs_type = [], rg_fs_uuid = [],
       rg_fs_label = [], rg_swap_header = [] \<rparr>"

definition has_manifest :: "region_record \<Rightarrow> bool" where
  "has_manifest r = kind_has_manifest (rg_kind r)"

definition region_flags :: "region_record \<Rightarrow> u32" where
  "region_flags r =
     (if has_manifest r then region_has_manifest else 0) OR (if rg_bootable r then region_bootable else 0)"

definition region_write :: "region_record \<Rightarrow> bytes res" where
  "region_write r =
     res_bind (put_u16_prefixed (bytes_of_string (rg_type_guid r))) (\<lambda>type_guid.
     res_bind (put_u16_prefixed (bytes_of_string (rg_partuuid r))) (\<lambda>partuuid.
     res_bind (put_u16_prefixed (bytes_of_string (rg_fs_type r))) (\<lambda>fs_type.
     res_bind (put_u16_prefixed (bytes_of_string (rg_fs_uuid r))) (\<lambda>fs_uuid.
     res_bind (put_u16_prefixed (bytes_of_string (rg_fs_label r))) (\<lambda>fs_label.
       Inr (put_u16 disk_manifest_ver @ put_u8 (region_as_u8 (rg_kind r)) @ put_u8 (consistency_as_u8 (rg_consistency r))
         @ put_u32 (region_flags r) @ put_u32 (rg_index r) @ put_u64 (rg_start_lba r) @ put_u64 (rg_size_bytes r)
         @ type_guid @ partuuid @ fs_type @ fs_uuid @ fs_label
         @ put_u32 (word_of_nat (length (rg_swap_header r))) @ rg_swap_header r))))))"

definition region_read :: "(nat \<Rightarrow> ('s, bytes) reader) \<Rightarrow> ('s, region_record) reader" where
  "region_read rb =
     rd_bind (reader_u16 rb) (\<lambda>ver.
     rd_bind (rd_lift (fail_if (ver \<noteq> disk_manifest_ver) (Corrupt ''region record version ''))) (\<lambda>_.
     rd_bind (reader_u8 rb) (\<lambda>k. rd_bind (rd_lift (region_from_u8 k)) (\<lambda>kind.
     rd_bind (reader_u8 rb) (\<lambda>c. rd_bind (rd_lift (consistency_from_u8 c)) (\<lambda>consistency.
     rd_bind (reader_u32 rb) (\<lambda>fl.
     rd_bind (rd_lift (fail_if (fl AND NOT (region_has_manifest OR region_bootable) \<noteq> 0) (Corrupt ''unknown region flags ''))) (\<lambda>_.
     rd_bind (rd_lift (fail_if ((fl AND region_has_manifest \<noteq> 0) \<noteq> kind_has_manifest kind)
         (Corrupt ''region kind disagrees with its manifest flag''))) (\<lambda>_.
     rd_bind (reader_u32 rb) (\<lambda>index.
     rd_bind (reader_u64 rb) (\<lambda>start_lba.
     rd_bind (reader_u64 rb) (\<lambda>size_bytes.
     rd_bind (reader_u16_prefixed rb) (\<lambda>b1. rd_bind (rd_lift (utf8 b1 ''type_guid'')) (\<lambda>type_guid.
     rd_bind (reader_u16_prefixed rb) (\<lambda>b2. rd_bind (rd_lift (utf8 b2 ''partuuid'')) (\<lambda>partuuid.
     rd_bind (reader_u16_prefixed rb) (\<lambda>b3. rd_bind (rd_lift (utf8 b3 ''fs_type'')) (\<lambda>fs_type.
     rd_bind (reader_u16_prefixed rb) (\<lambda>b4. rd_bind (rd_lift (utf8 b4 ''fs_uuid'')) (\<lambda>fs_uuid.
     rd_bind (reader_u16_prefixed rb) (\<lambda>b5. rd_bind (rd_lift (utf8 b5 ''fs_label'')) (\<lambda>fs_label.
     rd_bind (reader_u32 rb) (\<lambda>swap_len.
     rd_bind (rd_lift (fail_if (unat swap_len > swap_header_bytes) (Corrupt ''region declares a swap header beyond the limit''))) (\<lambda>_.
     rd_bind (reader_bytes rb (unat swap_len)) (\<lambda>swap_header.
       rd_return \<lparr> rg_kind = kind, rg_consistency = consistency, rg_bootable = (fl AND region_bootable \<noteq> 0),
         rg_index = index, rg_start_lba = start_lba, rg_size_bytes = size_bytes, rg_type_guid = type_guid,
         rg_partuuid = partuuid, rg_fs_type = fs_type, rg_fs_uuid = fs_uuid, rg_fs_label = fs_label,
         rg_swap_header = swap_header \<rparr>)))))))))))))))))))))))))"

text \<open>The loop of \<open>chunks\<close>: its offset may wrap, and then it does not end.\<close>

definition u32_try_from :: "u64 \<Rightarrow> u32" where
  "u32_try_from len = (if unat len < 2 ^ 32 then ucast len else - 1)"

partial_function (option) chunks_loop :: "u64 \<Rightarrow> u64 \<Rightarrow> u64 \<Rightarrow> u64 \<Rightarrow> (u64 \<times> u32) list option" where
  "chunks_loop start size_bytes csz off =
     (if off < size_bytes then
        Option.bind (chunks_loop start size_bytes csz (off + csz)) (\<lambda>rest.
          Some ((start + off, u32_try_from (min csz (size_bytes - off))) # rest))
      else Some [])"

declare chunks_loop.simps [code]

definition region_chunks :: "region_record \<Rightarrow> u64 \<Rightarrow> u32 \<Rightarrow> (u64 \<times> u32) list res option" where
  "region_chunks r csz lbs =
     (if csz = 0 then Some (Inl (Corrupt ''chunk size must not be zero''))
      else map_option Inr (chunks_loop (rg_start_lba r * ucast lbs) (rg_size_bytes r) csz 0))"

definition region_chunk_count :: "region_record \<Rightarrow> u64 \<Rightarrow> u64 res" where
  "region_chunk_count r csz =
     (if csz = 0 then Inl (Corrupt ''chunk size must not be zero'')
      else Inr (div_ceil_u64 (rg_size_bytes r) csz))"

section \<open>The disk header\<close>

record disk_header =
  dh_disk_size :: u64
  dh_logical_block_size :: u32
  dh_pt_type :: pt_type
  dh_serial_wwid :: string
  dh_pt_raw :: bytes
  dh_regions :: "region_record list"

definition checked_mul_u64 :: "u64 \<Rightarrow> u64 \<Rightarrow> u64 option" where
  "checked_mul_u64 a b = (if unat a * unat b < 2 ^ 64 then Some (a * b) else None)"

definition write_region_check :: "disk_header \<Rightarrow> region_record \<Rightarrow> unit res" where
  "write_region_check d r =
     (case Option.bind (checked_mul_u64 (rg_start_lba r) (ucast (dh_logical_block_size d)))
         (\<lambda>start. checked_add_u64 start (rg_size_bytes r)) of
        None \<Rightarrow> Inl (Corrupt ''region overflows'')
      | Some end \<Rightarrow>
          if end > dh_disk_size d then Inl (Corrupt ''region ends past the disk size '')
          else fail_if (length (rg_swap_header r) > swap_header_bytes) (Corrupt ''swap header larger than 4 KiB''))"

fun write_regions :: "region_record list \<Rightarrow> bytes res" where
  "write_regions [] = Inr []"
| "write_regions (r # rs) = res_bind (region_write r) (\<lambda>b. res_bind (write_regions rs) (\<lambda>bs. Inr (b @ bs)))"

fun check_all :: "('a \<Rightarrow> unit res) \<Rightarrow> 'a list \<Rightarrow> unit res" where
  "check_all f [] = Inr ()"
| "check_all f (x # xs) = res_bind (f x) (\<lambda>_. check_all f xs)"

definition disk_header_write :: "disk_header \<Rightarrow> bytes res" where
  "disk_header_write d =
     res_bind (fail_if (dh_logical_block_size d = 0 \<or> \<not> is_power_of_two (dh_logical_block_size d))
       (Corrupt ''implausible logical block size '')) (\<lambda>_.
     res_bind (fail_if (length (dh_pt_raw d) > pt_raw_bytes) (Corrupt ''pt_raw is too long'')) (\<lambda>_.
     res_bind (check_all (write_region_check d) (dh_regions d)) (\<lambda>_.
     res_bind (put_u16_prefixed (bytes_of_string (dh_serial_wwid d))) (\<lambda>serial_wwid.
     res_bind (write_regions (dh_regions d)) (\<lambda>regions.
       Inr (put_u16 disk_manifest_ver @ put_u8 section_disk_header @ put_u8 0 @ put_u64 (dh_disk_size d)
         @ put_u32 (dh_logical_block_size d) @ put_u8 (pt_as_u8 (dh_pt_type d)) @ [0, 0, 0] @ serial_wwid
         @ put_u32 (word_of_nat (length (dh_pt_raw d))) @ dh_pt_raw d
         @ put_u64 (word_of_nat (length (dh_regions d))) @ regions))))))"

definition disk_header_read :: "(nat \<Rightarrow> ('s, bytes) reader) \<Rightarrow> ('s, disk_header) reader" where
  "disk_header_read rb =
     rd_bind (reader_u16 rb) (\<lambda>ver.
     rd_bind (rd_lift (fail_if (ver \<noteq> disk_manifest_ver) (Corrupt ''disk header version ''))) (\<lambda>_.
     rd_bind (reader_u8 rb) (\<lambda>kind.
     rd_bind (rd_lift (fail_if (kind \<noteq> section_disk_header) (Corrupt ''expected a whole-disk header, got section kind ''))) (\<lambda>_.
     rd_bind (reader_u8 rb) (\<lambda>_.
     rd_bind (reader_u64 rb) (\<lambda>disk_size.
     rd_bind (reader_u32 rb) (\<lambda>lbs.
     rd_bind (rd_lift (fail_if (lbs = 0 \<or> \<not> is_power_of_two lbs) (Corrupt ''implausible logical block size ''))) (\<lambda>_.
     rd_bind (reader_u8 rb) (\<lambda>p. rd_bind (rd_lift (pt_from_u8 p)) (\<lambda>pt_type.
     rd_bind (reader_bytes rb 3) (\<lambda>_.
     rd_bind (reader_u16_prefixed rb) (\<lambda>b. rd_bind (rd_lift (utf8 b ''serial_wwid'')) (\<lambda>serial_wwid.
     rd_bind (reader_u32 rb) (\<lambda>pt_raw_len.
     rd_bind (rd_lift (fail_if (unat pt_raw_len > pt_raw_bytes) (Corrupt ''pt_raw is too long''))) (\<lambda>_.
     rd_bind (reader_bytes rb (unat pt_raw_len)) (\<lambda>pt_raw.
     rd_bind (reader_u64 rb) (\<lambda>region_count.
     rd_bind (read_list (unat region_count) (region_read rb)) (\<lambda>regions.
       rd_return \<lparr> dh_disk_size = disk_size, dh_logical_block_size = lbs, dh_pt_type = pt_type,
         dh_serial_wwid = serial_wwid, dh_pt_raw = pt_raw, dh_regions = regions \<rparr>))))))))))))))))))"

definition manifest_regions :: "disk_header \<Rightarrow> region_record list" where
  "manifest_regions d = filter has_manifest (dh_regions d)"

fun validate_regions :: "u32 \<Rightarrow> u64 \<Rightarrow> u64 \<Rightarrow> region_record list \<Rightarrow> unit res" where
  "validate_regions lbs disk_size previous_end [] = Inr ()"
| "validate_regions lbs disk_size previous_end (r # rs) =
     (if rg_kind r = Leading \<and> rg_size_bytes r > max_leading_bytes then Inl (Corrupt ''leading region is too large'')
      else case checked_mul_u64 (rg_start_lba r) (ucast lbs) of
        None \<Rightarrow> Inl (Corrupt ''region start overflows'')
      | Some start \<Rightarrow>
          if start < previous_end then Inl (Corrupt ''region starts before the previous region ends'')
          else case checked_add_u64 start (rg_size_bytes r) of
            None \<Rightarrow> Inl (Corrupt ''region end overflows'')
          | Some end \<Rightarrow>
              if end > disk_size then Inl (Corrupt ''region ends past the end of the disk'')
              else validate_regions lbs disk_size end rs)"

definition disk_validate :: "disk_header \<Rightarrow> unit res" where
  "disk_validate d =
     (if dh_logical_block_size d \<notin> {512, 1024, 2048, 4096}
        then Inl (Corrupt ''logical block size is not 512, 1024, 2048 or 4096'')
      else validate_regions (dh_logical_block_size d) (dh_disk_size d) 0 (dh_regions d))"

definition validate_geometry :: "disk_header \<Rightarrow> u64 \<Rightarrow> u32 \<Rightarrow> unit res" where
  "validate_geometry d disk_size lbs =
     res_bind (fail_if (dh_disk_size d \<noteq> disk_size) (Corrupt ''the disk header and the superblock disagree on the size'')) (\<lambda>_.
       fail_if (dh_logical_block_size d \<noteq> lbs) (Corrupt ''the disk header and the superblock disagree on the sector size''))"

definition region_manifest_header :: "region_record \<Rightarrow> u32 \<Rightarrow> block_manifest_header res" where
  "region_manifest_header r csz =
     res_bind (region_chunk_count r (ucast csz)) (\<lambda>chunk_count.
       Inr \<lparr> bm_chunk_size = csz, bm_chunk_count = chunk_count, bm_entry_count = chunk_count, bm_used_extent_count = 1,
             bm_used_bytes = rg_size_bytes r, bm_fs_type = rg_fs_type r, bm_fs_uuid = rg_fs_uuid r, bm_label = rg_fs_label r \<rparr>)"

definition manifest_matches_region :: "block_manifest_header \<Rightarrow> u64 \<Rightarrow> bool" where
  "manifest_matches_region h chunk_count \<longleftrightarrow> bm_chunk_count h = chunk_count \<and> bm_entry_count h \<le> bm_chunk_count h"

section \<open>The codec over any source\<close>

definition region_wf :: "region_record \<Rightarrow> bool" where
  "region_wf r \<longleftrightarrow> rust_string (rg_type_guid r) \<and> rust_string (rg_partuuid r) \<and> rust_string (rg_fs_type r)
     \<and> rust_string (rg_fs_uuid r) \<and> rust_string (rg_fs_label r)"

definition disk_header_wf :: "disk_header \<Rightarrow> bool" where
  "disk_header_wf d \<longleftrightarrow> rust_string (dh_serial_wwid d) \<and> (\<forall>r \<in> set (dh_regions d). region_wf r)
     \<and> length (dh_regions d) < 2 ^ 64"

lemma from_as_u8 [simp]:
  "pt_from_u8 (pt_as_u8 p) = Inr p" "region_from_u8 (region_as_u8 k) = Inr k"
  "consistency_from_u8 (consistency_as_u8 c) = Inr c"
proof -
  show "pt_from_u8 (pt_as_u8 p) = Inr p" by (cases p) (simp_all add: pt_from_u8_def)
  show "region_from_u8 (region_as_u8 k) = Inr k" by (cases k) (simp_all add: region_from_u8_def)
  show "consistency_from_u8 (consistency_as_u8 c) = Inr c" by (cases c) (simp_all add: consistency_from_u8_def)
qed

lemma region_flags_read:
  "fail_if (region_flags r AND NOT (region_has_manifest OR region_bootable) \<noteq> 0) e = Inr ()"
  "fail_if ((region_flags r AND region_has_manifest \<noteq> 0) \<noteq> kind_has_manifest (rg_kind r)) e = Inr ()"
  "(region_flags r AND region_bootable \<noteq> 0) = rg_bootable r"
  by (simp_all add: region_flags_def region_has_manifest_def region_bootable_def has_manifest_def)

lemma check_all_Inr: "check_all f xs = Inr () \<longleftrightarrow> (\<forall>x \<in> set xs. f x = Inr ())"
  by (induction xs) (auto simp: res_bind_eq_Inr)

lemma write_regions_Inr: "write_regions rs = Inr bs \<Longrightarrow> \<exists>ebs. map region_write rs = map Inr ebs \<and> bs = concat ebs"
proof (induction rs arbitrary: bs)
  case (Cons r rs)
  then obtain b bs' where b: "region_write r = Inr b" "write_regions rs = Inr bs'" "bs = b @ bs'" by (auto simp: res_bind_eq_Inr)
  from Cons.IH [OF b(2)] obtain ebs where "map region_write rs = map Inr ebs" "bs' = concat ebs" by blast
  then show ?case using b by (intro exI [of _ "b # ebs"]) simp
qed simp

context byte_source
begin

lemma region_decodes:
  assumes "region_wf r" "region_write r = Inr bs" "length (rg_swap_header r) \<le> swap_header_bytes"
  shows "decodes rem ok (region_read rb) bs r"
proof -
  obtain a b c d e where abc: "put_u16_prefixed (bytes_of_string (rg_type_guid r)) = Inr a"
    "put_u16_prefixed (bytes_of_string (rg_partuuid r)) = Inr b" "put_u16_prefixed (bytes_of_string (rg_fs_type r)) = Inr c"
    "put_u16_prefixed (bytes_of_string (rg_fs_uuid r)) = Inr d" "put_u16_prefixed (bytes_of_string (rg_fs_label r)) = Inr e"
    and bs: "bs = put_u16 disk_manifest_ver @ put_u8 (region_as_u8 (rg_kind r)) @ put_u8 (consistency_as_u8 (rg_consistency r))
         @ put_u32 (region_flags r) @ put_u32 (rg_index r) @ put_u64 (rg_start_lba r) @ put_u64 (rg_size_bytes r)
         @ a @ b @ c @ d @ e @ put_u32 (word_of_nat (length (rg_swap_header r))) @ rg_swap_header r"
    using assms(2) by (auto simp: region_write_def res_bind_eq_Inr)
  have u: "utf8 (bytes_of_string (rg_type_guid r)) w = Inr (rg_type_guid r)" "utf8 (bytes_of_string (rg_partuuid r)) w = Inr (rg_partuuid r)"
    "utf8 (bytes_of_string (rg_fs_type r)) w = Inr (rg_fs_type r)" "utf8 (bytes_of_string (rg_fs_uuid r)) w = Inr (rg_fs_uuid r)"
    "utf8 (bytes_of_string (rg_fs_label r)) w = Inr (rg_fs_label r)" for w
    using assms(1) by (simp_all add: region_wf_def)
  have l: "unat (word_of_nat (length (rg_swap_header r)) :: u32) = length (rg_swap_header r)"
    using assms(3) by (intro unat_of_nat_u32) (simp add: swap_header_bytes_def)
  show ?thesis
    unfolding bs region_read_def
    apply (rule src_bind(2), rule decodes_bind_lift [where x = "()"], simp)
    apply (rule src_bind(1), rule decodes_bind_lift, rule from_as_u8)
    apply (rule src_bind(1), rule decodes_bind_lift, rule from_as_u8)
    apply (rule src_bind(3), rule decodes_bind_lift, rule region_flags_read(1))
    apply (rule decodes_bind_lift, rule region_flags_read(2))
    apply (rule src_bind(3), rule src_bind(4), rule src_bind(4))
    apply (rule src_bind_u16_prefixed, rule abc(1), rule decodes_bind_lift, rule u(1))
    apply (rule src_bind_u16_prefixed, rule abc(2), rule decodes_bind_lift, rule u(2))
    apply (rule src_bind_u16_prefixed, rule abc(3), rule decodes_bind_lift, rule u(3))
    apply (rule src_bind_u16_prefixed, rule abc(4), rule decodes_bind_lift, rule u(4))
    apply (rule src_bind_u16_prefixed, rule abc(5), rule decodes_bind_lift, rule u(5))
    apply (rule src_bind(3), rule decodes_bind_lift [where x = "()"], simp add: l not_less assms(3))
    apply (rule decodes_bind_last, simp only: l reader_bytes_def, rule src_bytes, rule refl)
    by (rule decodes_return_eq) (cases r, simp add: region_flags_read(3))
qed

lemma disk_header_decodes:
  assumes "disk_header_wf d" "disk_header_write d = Inr bs"
  shows "decodes rem ok (disk_header_read rb) bs d"
proof -
  obtain a rbs where a: "put_u16_prefixed (bytes_of_string (dh_serial_wwid d)) = Inr a" "write_regions (dh_regions d) = Inr rbs"
    and lim: "\<not> (dh_logical_block_size d = 0 \<or> \<not> is_power_of_two (dh_logical_block_size d))" "\<not> pt_raw_bytes < length (dh_pt_raw d)"
      "check_all (write_region_check d) (dh_regions d) = Inr ()"
    and bs: "bs = put_u16 disk_manifest_ver @ put_u8 section_disk_header @ put_u8 0 @ put_u64 (dh_disk_size d)
         @ put_u32 (dh_logical_block_size d) @ put_u8 (pt_as_u8 (dh_pt_type d)) @ [0, 0, 0] @ a
         @ put_u32 (word_of_nat (length (dh_pt_raw d))) @ dh_pt_raw d @ put_u64 (word_of_nat (length (dh_regions d))) @ rbs"
    using assms(2) unfolding disk_header_write_def by (auto simp: res_bind_eq_Inr)
  have u: "utf8 (bytes_of_string (dh_serial_wwid d)) w = Inr (dh_serial_wwid d)" for w
    using assms(1) by (simp add: disk_header_wf_def)
  have l: "unat (word_of_nat (length (dh_pt_raw d)) :: u32) = length (dh_pt_raw d)"
    "unat (word_of_nat (length (dh_regions d)) :: u64) = length (dh_regions d)"
    using lim(2) assms(1) by (simp_all add: unat_of_nat_u32 unat_of_nat_u64 pt_raw_bytes_def disk_header_wf_def)
  have rs: "decodes rem ok (read_list (length (dh_regions d)) (region_read rb)) rbs (dh_regions d)"
  proof -
    from write_regions_Inr [OF a(2)] obtain ebs where e: "map region_write (dh_regions d) = map Inr ebs" "rbs = concat ebs" by blast
    define enc where "enc r = (case region_write r of Inr b \<Rightarrow> b | Inl _ \<Rightarrow> [])" for r
    have w: "region_write r = Inr (enc r)" if "r \<in> set (dh_regions d)" for r
    proof -
      have "region_write r \<in> Inr ` set ebs" using e(1) that by (metis image_eqI list.set_map)
      then show ?thesis by (auto simp: enc_def)
    qed
    then have "map region_write (dh_regions d) = map Inr (map enc (dh_regions d))" by simp
    then have "map Inr ebs = (map Inr (map enc (dh_regions d)) :: bytes res list)" using e(1) by simp
    then have "ebs = map enc (dh_regions d)" by (rule map_injective) (simp add: inj_on_def)
    moreover have "length (rg_swap_header r) \<le> swap_header_bytes" if "r \<in> set (dh_regions d)" for r
      using lim(3) that unfolding check_all_Inr by (fastforce simp: write_region_check_def split: option.splits if_splits)
    ultimately show ?thesis
      unfolding e(2) using assms(1) w by (auto intro!: decodes_list region_decodes simp: disk_header_wf_def)
  qed
  show ?thesis
    unfolding bs disk_header_read_def
    apply (rule src_bind(2), rule decodes_bind_lift [where x = "()"], simp)
    apply (rule src_bind(1), rule decodes_bind_lift [where x = "()"], simp)
    apply (rule src_bind(1), rule src_bind(4), rule src_bind(3), rule decodes_bind_lift [where x = "()"], use lim(1) in simp)
    apply (rule src_bind(1), rule decodes_bind_lift, rule from_as_u8)
    apply (rule src_bind(6), simp)
    apply (rule src_bind_u16_prefixed, rule a(1), rule decodes_bind_lift, rule u)
    apply (rule src_bind(3), rule decodes_bind_lift [where x = "()"], use lim(2) l(1) in simp)
    apply (rule src_bind(6), simp only: l(1), rule src_bind(4))
    apply (rule decodes_bind_last, simp only: l(2), rule rs)
    by (rule decodes_return_eq) (cases d, simp)
qed

end

section \<open>Where regions lie\<close>

definition region_start :: "u32 \<Rightarrow> region_record \<Rightarrow> nat" where
  "region_start lbs r = unat (rg_start_lba r) * unat lbs"

definition region_end :: "u32 \<Rightarrow> region_record \<Rightarrow> nat" where
  "region_end lbs r = region_start lbs r + unat (rg_size_bytes r)"

lemma checked_mul_u64_Some: "checked_mul_u64 a b = Some c \<longleftrightarrow> unat a * unat b < 2 ^ 64 \<and> c = a * b"
  by (auto simp: checked_mul_u64_def)

lemma unat_mult_u64: "unat a * unat b < 2 ^ 64 \<Longrightarrow> unat (a * b :: u64) = unat a * unat b"
  by (simp add: unat_word_ariths)

lemma checked_region:
  "Option.bind (checked_mul_u64 (rg_start_lba r) (ucast lbs)) (\<lambda>start. checked_add_u64 start (rg_size_bytes r)) = Some e
    \<Longrightarrow> unat e = region_end lbs r"
  by (auto simp: checked_mul_u64_Some checked_add_u64_Some region_end_def region_start_def unat_mult_u64 split: bind_splits)

lemma validate_regions_iff:
  "validate_regions lbs disk_size prev rs = Inr () \<longleftrightarrow>
     (\<forall>r \<in> set rs. unat prev \<le> region_start lbs r \<and> region_end lbs r \<le> unat disk_size
        \<and> (rg_kind r = Leading \<longrightarrow> unat (rg_size_bytes r) \<le> 16 * 1024 * 1024))
     \<and> sorted_wrt (\<lambda>r r'. region_end lbs r \<le> region_start lbs r') rs"
proof (induction rs arbitrary: prev)
  case (Cons r rs)
  have lead: "\<not> max_leading_bytes < rg_size_bytes r \<longleftrightarrow> unat (rg_size_bytes r) \<le> 16 * 1024 * 1024"
    by (simp add: max_leading_bytes_def word_less_nat_alt not_less)
  show ?case
  proof (cases "region_end lbs r < 2 ^ 64")
    case False
    then have "\<not> region_end lbs r \<le> unat disk_size" using unat_less_width(4) [of disk_size] by (simp del: unat_less_width)
    moreover have "validate_regions lbs disk_size prev (r # rs) \<noteq> Inr ()"
      using False by (auto simp: checked_mul_u64_Some checked_add_u64_Some region_end_def region_start_def unat_mult_u64 split: option.splits)
        (metis unat_less_width(4))+
    ultimately show ?thesis by auto
  next
    case True
    define s e where "s = rg_start_lba r * ucast lbs" and "e = s + rg_size_bytes r"
    have s: "checked_mul_u64 (rg_start_lba r) (ucast lbs) = Some s" "unat s = region_start lbs r"
      using True by (simp_all add: s_def checked_mul_u64_Some region_end_def region_start_def unat_mult_u64)
    then have e: "checked_add_u64 s (rg_size_bytes r) = Some e" "unat e = region_end lbs r"
      using True by (simp_all add: e_def checked_add_u64_Some region_end_def unat_add_u64)
    have "region_start lbs r' \<ge> unat e \<longrightarrow> unat prev \<le> region_start lbs r \<longrightarrow> unat prev \<le> region_start lbs r'" for r'
      using e(2) by (simp add: region_end_def)
    then show ?thesis
      using lead s e Cons.IH [of e] by (auto simp: word_less_nat_alt not_less)
  qed
qed simp

lemma disk_validate_iff:
  "disk_validate d = Inr () \<longleftrightarrow> dh_logical_block_size d \<in> {512, 1024, 2048, 4096}
     \<and> (\<forall>r \<in> set (dh_regions d). region_end (dh_logical_block_size d) r \<le> unat (dh_disk_size d)
          \<and> (rg_kind r = Leading \<longrightarrow> unat (rg_size_bytes r) \<le> 16 * 1024 * 1024))
     \<and> sorted_wrt (\<lambda>r r'. region_end (dh_logical_block_size d) r \<le> region_start (dh_logical_block_size d) r') (dh_regions d)"
  by (simp add: disk_validate_def validate_regions_iff)

section \<open>The chunks of a region\<close>

lemma chunks_loop_from:
  assumes "0 < unat csz" "unat size_bytes + unat csz \<le> 2 ^ 64" "unat off = i * unat csz"
    and "n = (unat size_bytes + unat csz - 1) div unat csz" "i \<le> n"
  shows "chunks_loop start size_bytes csz off
    = Some (map (\<lambda>i. (start + word_of_nat (i * unat csz), u32_try_from (min csz (size_bytes - word_of_nat (i * unat csz))))) [i..<n])"
  using assms(3,5)
proof (induction "n - i" arbitrary: i off)
  case 0
  have "unat size_bytes \<le> n * unat csz" using nat_div_ceil_bounds(1) [OF assms(1), of "unat size_bytes"] assms(4) by simp
  then have "\<not> off < size_bytes" using 0 by (simp add: word_less_nat_alt)
  then show ?case using 0 by (simp add: chunks_loop.simps)
next
  case (Suc m)
  have "Suc i * unat csz \<le> n * unat csz" using Suc(2) by (intro mult_le_mono1) simp
  then have lt: "i * unat csz < unat size_bytes"
    using nat_div_ceil_bounds(2) [OF assms(1), of "unat size_bytes"] assms(4) by simp
  have w: "off = word_of_nat (i * unat csz)" using Suc.prems(1) by (metis word_of_unat)
  have o: "unat (off + csz) = Suc i * unat csz"
    using lt assms(2) Suc.prems(1) by (subst unat_add_u64) simp_all
  have "chunks_loop start size_bytes csz (off + csz)
    = Some (map (\<lambda>i. (start + word_of_nat (i * unat csz), u32_try_from (min csz (size_bytes - word_of_nat (i * unat csz))))) [Suc i..<n])"
    using Suc(2) by (intro Suc.hyps(1) o) simp_all
  moreover have "off < size_bytes" using lt Suc.prems(1) by (simp add: word_less_nat_alt)
  moreover have "[i..<n] = i # [Suc i..<n]" using Suc(2) by (simp add: upt_rec)
  ultimately show ?case using w by (subst chunks_loop.simps) simp
qed

text \<open>A region whose end comes within a chunk of \<open>2 ^ 64\<close> makes the loop run for ever: the offset wraps to
  zero, because the chunk size is a power of two.\<close>

lemma chunks_loop_diverges:
  assumes "chunks_loop start size_bytes csz off = Some r" "unat csz = 2 ^ k" "2 ^ 64 - unat csz < unat size_bytes" "unat csz dvd unat off"
  shows False
  using assms
proof (induction rule: chunks_loop.raw_induct [rotated 1, consumes 1])
  case (1 f start size_bytes csz off r)
  have "k < 64"
  proof (rule ccontr)
    assume "\<not> k < 64"
    then have "(2 :: nat) ^ 64 \<le> 2 ^ k" by (intro power_increasing) simp_all
    then show False using 1(3) unat_less_width(4) [of csz] by (simp del: unat_less_width)
  qed
  then have d: "unat csz dvd 2 ^ 64" unfolding 1(3) by (intro le_imp_power_dvd) simp
  have "unat off \<le> 2 ^ 64 - unat csz"
  proof -
    obtain a b where ab: "unat off = unat csz * a" "2 ^ 64 = unat csz * b" using d 1(5) by (metis dvdE)
    then have "unat csz * a < unat csz * b" using unat_less_width(4) [of off] by (simp del: unat_less_width)
    then have "Suc a \<le> b" by simp
    then have "unat csz * Suc a \<le> 2 ^ 64" using ab(2) by (metis mult_le_mono2)
    then show ?thesis using ab(1) by simp
  qed
  then have "off < size_bytes" using 1(4) by (simp add: word_less_nat_alt)
  then obtain rest where "f start size_bytes csz (off + csz) = Some rest" using 1(2) by (auto split: bind_splits)
  moreover have "unat csz dvd unat (off + csz)"
    using 1(5) d by (simp add: unat_word_ariths dvd_mod)
  ultimately show False using 1(1) [OF _ 1(3,4)] by blast
qed

lemma concat_tiles:
  "concat (map (\<lambda>i. [s + i * c ..< s + i * c + min c (n - i * c)]) [0..<j]) = [s ..< s + min (j * c) (n :: nat)]"
proof (induction j)
  case (Suc j)
  have "[s ..< s + min (j * c) n] @ [s + j * c ..< s + j * c + min c (n - j * c)] = [s ..< s + min (Suc j * c) n]"
  proof (cases "j * c \<le> n")
    case True
    then have e: "s + j * c + min c (n - j * c) = s + min (Suc j * c) n" "s + min (j * c) n = s + j * c" by simp_all
    have "[s ..< s + j * c + min c (n - j * c)] = [s ..< s + j * c] @ [s + j * c ..< s + j * c + min c (n - j * c)]"
      by (rule upt_add_eq_append) simp
    then show ?thesis unfolding e by simp
  qed simp
  then show ?case using Suc by simp
qed simp

text \<open>C31. The chunks of a region.  For a region that ends on the disk and a chunk size that is a power of
  two below \<open>2 ^ 32\<close>, the loop returns exactly when the region leaves room for one more chunk below
  \<open>2 ^ 64\<close>; then the chunks are as many as the region's chunk count says and their byte ranges, one after the
  other, are the bytes of the region, each once and in order.  Otherwise the loop never ends.\<close>

theorem region_chunks_cover:
  assumes "region_end lbs r < 2 ^ 64" "unat csz = 2 ^ k" "k < 32"
  shows "if unat (rg_size_bytes r) + unat csz \<le> 2 ^ 64
    then \<exists>cs. region_chunks r csz lbs = Some (Inr cs) \<and> region_chunk_count r csz = Inr (word_of_nat (length cs))
      \<and> concat (map (\<lambda>(off, len). [unat off ..< unat off + unat len]) cs) = [region_start lbs r ..< region_end lbs r]
    else region_chunks r csz lbs = None"
proof (cases "unat (rg_size_bytes r) + unat csz \<le> 2 ^ 64")
  case True
  define n c s m where "n = unat (rg_size_bytes r)" and "c = unat csz" and "s = region_start lbs r" and "m = (n + c - 1) div c"
  have c: "0 < c" "c < 2 ^ 32" "csz \<noteq> 0"
    using assms(2,3) power_strict_increasing [of k 32 "2 :: nat"] by (auto simp: c_def unsigned_eq_0_iff)
  have w: "unat (rg_start_lba r * ucast lbs) = s" using assms(1) by (simp add: s_def region_end_def region_start_def unat_mult_u64)
  define f where "f i = (rg_start_lba r * ucast lbs + word_of_nat (i * c),
    u32_try_from (min csz (rg_size_bytes r - word_of_nat (i * c))))" for i
  have len: "length (map f [0..<m]) = unat (div_ceil_u64 (rg_size_bytes r) csz)"
    using unat_div_ceil_u64 [OF c(3), of "rg_size_bytes r"] by (simp add: m_def n_def c_def)
  have cs: "region_chunks r csz lbs = Some (Inr (map f [0..<m]))"
    using chunks_loop_from [of csz "rg_size_bytes r" 0 0 m] True c unfolding c_def n_def m_def
    by (simp add: region_chunks_def f_def [abs_def] c_def)
  have f: "(case f i of (off, len) \<Rightarrow> [unat off ..< unat off + unat len]) = [s + i * c ..< s + i * c + min c (n - i * c)]" if "i < m" for i
  proof -
    have "Suc i * c \<le> m * c" using that by (intro mult_le_mono1) simp
    then have lt: "i * c < n" using nat_div_ceil_bounds(2) [OF c(1), of n] by (simp add: m_def)
    have e: "s + n < 2 ^ 64" using assms(1) by (simp add: s_def n_def region_end_def)
    have w1: "unat (word_of_nat (i * c) :: u64) = i * c" using lt e by (intro unat_of_nat_u64) simp
    have o: "unat (rg_start_lba r * ucast lbs + word_of_nat (i * c)) = s + i * c"
      using w w1 lt e by (subst unat_add_u64) simp_all
    have "unat (min csz (rg_size_bytes r - word_of_nat (i * c))) = min c (n - i * c)"
      using lt w1 by (simp add: min_def word_le_nat_alt unat_sub c_def n_def)
    moreover from this have "unat (u32_try_from (min csz (rg_size_bytes r - word_of_nat (i * c)))) = min c (n - i * c)"
      using c(2) order_le_less_trans [OF min.cobounded1 c(2), of "n - i * c"] by (simp add: u32_try_from_def unsigned_ucast_eq take_bit_nat_eq_self)
    ultimately show ?thesis unfolding f_def by (simp only: prod.case o)
  qed
  have "concat (map (\<lambda>(off, len). [unat off ..< unat off + unat len]) (map f [0..<m]))
      = concat (map (\<lambda>i. [s + i * c ..< s + i * c + min c (n - i * c)]) [0..<m])"
    using f by (intro arg_cong [of _ _ concat]) simp
  also have "\<dots> = [s ..< s + min (m * c) n]" by (rule concat_tiles)
  also have "min (m * c) n = n" using nat_div_ceil_bounds(1) [OF c(1), of n] by (simp add: m_def)
  finally have "concat (map (\<lambda>(off, len). [unat off ..< unat off + unat len]) (map f [0..<m])) = [region_start lbs r ..< region_end lbs r]"
    by (simp add: s_def n_def region_end_def)
  moreover have "region_chunk_count r csz = Inr (word_of_nat (length (map f [0..<m])))"
    unfolding len by (simp add: region_chunk_count_def c(3))
  ultimately show ?thesis using cs True by auto
next
  case False
  have "csz \<noteq> 0" using assms(2) by auto
  moreover have "chunks_loop (rg_start_lba r * ucast lbs) (rg_size_bytes r) csz 0 = None"
  proof (cases "chunks_loop (rg_start_lba r * ucast lbs) (rg_size_bytes r) csz 0")
    case (Some a)
    have "2 ^ 64 - unat csz < unat (rg_size_bytes r)" using False
      by (simp add: not_le) (metis add.commute less_diff_conv2 linorder_not_le nat_diff_split unat_less_width(4) less_imp_le)
    moreover have "unat csz dvd unat (0 :: u64)" by simp
    ultimately show ?thesis using chunks_loop_diverges [OF Some assms(2)] by blast
  qed
  ultimately show ?thesis using False by (simp add: region_chunks_def)
qed


section \<open>An example\<close>

definition demo_region :: region_record where
  "demo_region = (region_new PartitionFs 1 2048 3000000)\<lparr> rg_fs_type := ''ext4'', rg_bootable := True \<rparr>"

definition demo_disk :: disk_header where
  "demo_disk = \<lparr> dh_disk_size = 8000000, dh_logical_block_size = 512, dh_pt_type = PtMbr, dh_serial_wwid = ''wwn-1'',
     dh_pt_raw = [1, 2, 3], dh_regions = [region_new Leading 0 0 1048576, demo_region] \<rparr>"

definition demo_disk_bytes :: bytes where
  "demo_disk_bytes = (case disk_header_write demo_disk of Inr b \<Rightarrow> b | Inl _ \<Rightarrow> [])"

lemma demo_disk_wf: "disk_header_wf demo_disk"
proof -
  have "rust_string ''wwn-1''" "rust_string ''ext4''" "rust_string []" unfolding rust_string_def by code_simp+
  then show ?thesis by (simp add: disk_header_wf_def demo_disk_def demo_region_def region_wf_def region_new_def)
qed

lemma demo_disk_valid: "disk_validate demo_disk = Inr ()"
  by (simp add: disk_validate_iff demo_disk_def demo_region_def region_new_def region_end_def region_start_def)

lemma demo_disk_written: "disk_header_write demo_disk = Inr demo_disk_bytes"
proof -
  have "is_power_of_two 512" by (auto simp: is_power_of_two_def list_ex_iff intro!: bexI [of _ 9])
  then have "\<exists>b. disk_header_write demo_disk = Inr b"
    by (simp add: disk_header_write_def demo_disk_def demo_region_def region_new_def put_u16_prefixed_def region_write_def pt_raw_bytes_def
        write_region_check_def checked_mul_u64_def checked_add_u64_def swap_header_bytes_def)
  then show ?thesis by (auto simp: demo_disk_bytes_def)
qed

theorem region_chunks_cover_witness:
  "\<exists>cs. region_chunks demo_region 1048576 512 = Some (Inr cs) \<and> region_chunk_count demo_region 1048576 = Inr (word_of_nat (length cs))
     \<and> concat (map (\<lambda>(off, len). [unat off ..< unat off + unat len]) cs) = [region_start 512 demo_region ..< region_end 512 demo_region]"
proof -
  have e: "region_end 512 demo_region < 2 ^ 64" and s: "unat (rg_size_bytes demo_region) + unat (1048576 :: u64) \<le> 2 ^ 64"
    by (simp_all add: demo_region_def region_new_def region_end_def region_start_def)
  have c: "unat (1048576 :: u64) = 2 ^ 20" by simp
  show ?thesis using region_chunks_cover [OF e c] unfolding if_P [OF s] by simp
qed


end
