(* ===== verification/Whole_Disk.thy ===== *)
theory Whole_Disk
  imports Block_Restore Disk_Layout
begin

text \<open>
  Restoring a whole disk: the plan check \<open>whole_disk\<close> of \<open>crates/lr-engine/src/plan.rs\<close> and
  \<open>restore_whole_disk\<close>, \<open>write_swap\<close> and \<open>regenerate_gpt\<close> of \<open>crates/lr-engine/src/whole_disk.rs\<close>.
  The manifest stream of the image is read twice, once to check the plan and once to write; the target is the
  block target of the block restore, whose system calls may fail after any number of bytes.  The checksum of
  \<open>crc32fast\<close> is a parameter.
\<close>

section \<open>The plan check\<close>

definition disk_count :: "u64 \<Rightarrow> chunk_state \<Rightarrow> block_summary \<Rightarrow> block_summary" where
  "disk_count position state s =
     (case state of
        Stored _ _ _ _ \<Rightarrow> s\<lparr> su_stored := su_stored s + 1 \<rparr>
      | Zero \<Rightarrow> s\<lparr> su_zero := su_zero s + 1 \<rparr>
      | Unused \<Rightarrow> s\<lparr> su_unused := su_unused s + 1 \<rparr>
      | BadSectorState \<Rightarrow> s\<lparr> su_bad := su_bad s + 1,
          su_first_bad := (case su_first_bad s of None \<Rightarrow> Some position | Some b \<Rightarrow> Some b) \<rparr>)"

fun plan_entries :: "(nat \<Rightarrow> ('s, bytes) reader) \<Rightarrow> u64 \<Rightarrow> u64 \<Rightarrow> nat \<Rightarrow> u64 \<Rightarrow> block_summary \<Rightarrow> ('s, block_summary) reader" where
  "plan_entries rb start csz 0 index s = rd_return s"
| "plan_entries rb start csz (Suc n) index s =
     rd_bind (entry_read rb) (\<lambda>e. plan_entries rb start csz n (index + 1) (disk_count (start + index * csz) (chunk_state_from e) s))"

definition plan_region :: "(nat \<Rightarrow> ('s, bytes) reader) \<Rightarrow> superblock \<Rightarrow> region_record \<Rightarrow> block_summary \<Rightarrow> ('s, block_summary) reader" where
  "plan_region rb sb r s =
     (let csz = ucast (chunk_size sb) :: u64 in
      rd_bind (block_header_read rb) (\<lambda>(header, delta).
      rd_bind (rd_lift (fail_if delta (Corrupt ''region has a delta manifest''))) (\<lambda>_.
      rd_bind (rd_lift (fail_if (ucast (bm_chunk_size header) \<noteq> csz) (Corrupt ''region declares another chunk size''))) (\<lambda>_.
      rd_bind (rd_lift (region_chunk_count r csz)) (\<lambda>expected.
      rd_bind (rd_lift (fail_if (bm_chunk_count header \<noteq> expected \<or> bm_entry_count header \<noteq> expected)
          (Corrupt ''region needs another number of entries''))) (\<lambda>_.
        plan_entries rb (rg_start_lba r * ucast (logical_block_size sb)) csz (unat expected) 0 s))))))"

fun plan_regions :: "(nat \<Rightarrow> ('s, bytes) reader) \<Rightarrow> superblock \<Rightarrow> region_record list \<Rightarrow> block_summary \<Rightarrow> ('s, block_summary) reader" where
  "plan_regions rb sb [] s = rd_return s"
| "plan_regions rb sb (r # rs) s = rd_bind (plan_region rb sb r s) (\<lambda>s. plan_regions rb sb rs s)"

definition plan_manifest :: "(nat \<Rightarrow> ('s, bytes) reader) \<Rightarrow> superblock \<Rightarrow> ('s, block_summary) reader" where
  "plan_manifest rb sb =
     rd_bind (disk_header_read rb) (\<lambda>disk.
     rd_bind (rd_lift (disk_validate disk)) (\<lambda>_.
     rd_bind (rd_lift (validate_geometry disk (source_size_bytes sb) (logical_block_size sb))) (\<lambda>_.
     rd_bind (plan_regions rb sb (manifest_regions disk) summary_default) (\<lambda>summary st.
       if is_ok (reader_u8 rb st) then Inl (Corrupt ''the whole-disk manifest continues after its last region'')
       else Inr (summary, st)))))"

definition whole_disk :: "prims \<Rightarrow> image_reader \<Rightarrow> bytes \<Rightarrow> superblock \<Rightarrow> block_summary res" where
  "whole_disk P reader meta_key sb =
     res_bind (sb_aead_kind sb) (\<lambda>kind.
     res_bind (stream_reader P reader Manifest meta_key kind) (\<lambda>st.
     res_bind (plan_manifest (page_read_bytes P) sb st) (\<lambda>(summary, _). Inr summary)))"

section \<open>Writing the regions\<close>

text \<open>What a restore reads besides the manifest: the image's keys, its chunk records and the reporter's
  operations, a phase for the region of a number and the position.\<close>

record 'r disk_job =
  dj_keys :: image_keys
  dj_chunks :: chunk_reader
  dj_kind :: aead_kind
  dj_phase :: "u32 \<Rightarrow> 'r \<Rightarrow> 'r"
  dj_report :: "u64 \<Rightarrow> 'r \<Rightarrow> unit res \<times> 'r"

definition entry_plaintext :: "prims \<Rightarrow> 'r disk_job \<Rightarrow> nat \<Rightarrow> block_entry \<Rightarrow> bytes res" where
  "entry_plaintext P job chunk_len e =
     res_bind (ckr_read_record (dj_chunks job) (be_offset e)) (\<lambda>rec.
       open_chunk P (dj_kind job) (ik_data_key (dj_keys job)) (ik_dedup_key (dj_keys job)) Block (be_hash e) chunk_len rec)"

definition restore_entry ::
    "prims \<Rightarrow> 'r disk_job \<Rightarrow> u64 \<Rightarrow> u64 \<Rightarrow> u64 \<Rightarrow> u64 \<Rightarrow> block_entry \<Rightarrow> 'r restore_state \<Rightarrow> unit res \<times> 'r restore_state" where
  "restore_entry P job start size_bytes csz index e v =
     (let offset = start + index * csz; chunk_len = unat (min csz (size_bytes - index * csz)) in
      if be_state e = state_stored then
        (case entry_plaintext P job chunk_len e of
           Inl er \<Rightarrow> (Inl er, v)
         | Inr plaintext \<Rightarrow>
             if length plaintext \<noteq> chunk_len then (Inl (Corrupt ''chunk restored to ''), v)
             else st_bind (restore_write (unat csz) offset plaintext chunk_len v) (\<lambda>_ v.
               (Inr (), v\<lparr> re_stored := re_stored v + 1, re_bytes := re_bytes v + word_of_nat chunk_len \<rparr>)))
      else if be_state e = state_zero then
        st_bind (restore_write (unat csz) offset [] chunk_len v) (\<lambda>_ v.
          (Inr (), v\<lparr> re_zero := re_zero v + 1, re_bytes := re_bytes v + word_of_nat chunk_len \<rparr>))
      else if be_state e = state_unused then (Inr (), v\<lparr> re_skipped := re_skipped v + 1 \<rparr>)
      else if be_state e = state_bad_sector then (Inl (BadSector offset (word_of_nat chunk_len)), v)
      else (Inl (Corrupt ''unknown chunk state ''), v))"

fun restore_entries ::
    "prims \<Rightarrow> 'r disk_job \<Rightarrow> (nat \<Rightarrow> ('s, bytes) reader) \<Rightarrow> u64 \<Rightarrow> u64 \<Rightarrow> u64 \<Rightarrow> nat \<Rightarrow> u64 \<Rightarrow> 's \<Rightarrow> 'r restore_state
     \<Rightarrow> 's res \<times> 'r restore_state" where
  "restore_entries P job rb start size_bytes csz 0 index st v = (Inr st, v)"
| "restore_entries P job rb start size_bytes csz (Suc n) index st v =
     st_bind (entry_read rb st, v) (\<lambda>(e, st) v.
     st_bind (restore_entry P job start size_bytes csz index e v) (\<lambda>_ v.
       restore_entries P job rb start size_bytes csz n (index + 1) st v))"

definition write_swap :: "region_record \<Rightarrow> u64 \<Rightarrow> block_target \<Rightarrow> unit res \<times> block_target" where
  "write_swap r lbs t =
     (if length (rg_swap_header r) \<noteq> swap_header_bytes then (Inl (Corrupt ''swap region has a header of another size''), t)
      else write_at (rg_start_lba r * lbs) (rg_swap_header r) (bt_alignment t) swap_header_bytes t)"

definition restore_manifest_region ::
    "prims \<Rightarrow> 'r disk_job \<Rightarrow> (nat \<Rightarrow> ('s, bytes) reader) \<Rightarrow> superblock \<Rightarrow> region_record \<Rightarrow> 's \<Rightarrow> 'r restore_state
     \<Rightarrow> 's res \<times> 'r restore_state" where
  "restore_manifest_region P job rb sb r st v =
     (let csz = ucast (chunk_size sb) :: u64 in
      st_bind (block_header_read rb st, v) (\<lambda>((header, delta), st) v.
      st_bind (fail_if delta (Unsupported ''delta manifests need their chain''), v) (\<lambda>_ v.
      st_bind (region_chunk_count r csz, v) (\<lambda>expected v.
      st_bind (fail_if (bm_chunk_count header \<noteq> expected \<or> bm_entry_count header \<noteq> expected)
          (Corrupt ''region needs another number of entries''), v) (\<lambda>_ v.
        restore_entries P job rb (rg_start_lba r * ucast (logical_block_size sb)) (rg_size_bytes r) csz
          (unat (bm_entry_count header)) 0 st v)))))"

definition restore_region ::
    "prims \<Rightarrow> 'r disk_job \<Rightarrow> (nat \<Rightarrow> ('s, bytes) reader) \<Rightarrow> superblock \<Rightarrow> region_record \<Rightarrow> 's \<Rightarrow> 'r restore_state
     \<Rightarrow> 's res \<times> 'r restore_state" where
  "restore_region P job rb sb r st v =
     (let lbs = ucast (logical_block_size sb) :: u64;
          v = v\<lparr> re_reporter := dj_phase job (rg_index r) (re_reporter v) \<rparr> in
      case dj_report job (rg_start_lba r * lbs) (re_reporter v) of
        (Inl e, rep) \<Rightarrow> (Inl e, v\<lparr> re_reporter := rep \<rparr>)
      | (Inr _, rep) \<Rightarrow>
          (let v = v\<lparr> re_reporter := rep \<rparr> in
           if rg_kind r = Swap then
             (case write_swap r lbs (re_target v) of (z, t) \<Rightarrow> (map_sum id (\<lambda>_. st) z, v\<lparr> re_target := t \<rparr>))
           else if \<not> has_manifest r then (Inr st, v)
           else restore_manifest_region P job rb sb r st v))"

fun restore_regions ::
    "prims \<Rightarrow> 'r disk_job \<Rightarrow> (nat \<Rightarrow> ('s, bytes) reader) \<Rightarrow> superblock \<Rightarrow> region_record list \<Rightarrow> 's \<Rightarrow> 'r restore_state
     \<Rightarrow> 's res \<times> 'r restore_state" where
  "restore_regions P job rb sb [] st v = (Inr st, v)"
| "restore_regions P job rb sb (r # rs) st v =
     st_bind (restore_region P job rb sb r st v) (\<lambda>st v. restore_regions P job rb sb rs st v)"

section \<open>The partition table\<close>

text \<open>A read of the target; \<open>read_exact_at\<close> fails at the end of the device.\<close>

definition bt_pread :: "u64 \<Rightarrow> nat \<Rightarrow> block_target \<Rightarrow> bytes res \<times> block_target" where
  "bt_pread off n t =
     (case bt_faults t of
        Some _ # fs \<Rightarrow> (Inl (Io ''input/output error''), t\<lparr> bt_faults := fs \<rparr>)
      | fs \<Rightarrow> (if unat off + n \<le> length (bt_data t) then Inr (slice (unat off) (unat off + n) (bt_data t))
               else Inl (Io ''failed to fill whole buffer''), t\<lparr> bt_faults := tl fs \<rparr>))"

definition field64 :: "bytes \<Rightarrow> nat \<Rightarrow> u64" where
  "field64 bs at = u64_from_le_bytes (slice at (at + 8) bs)"

definition field32 :: "bytes \<Rightarrow> nat \<Rightarrow> u32" where
  "field32 bs at = u32_from_le_bytes (slice at (at + 4) bs)"

definition gpt_seal :: "(bytes \<Rightarrow> u32) \<Rightarrow> nat \<Rightarrow> bytes \<Rightarrow> bytes" where
  "gpt_seal crc header_size h =
     (let h = overwrite 16 [0, 0, 0, 0] h in overwrite 16 (u32_to_le_bytes (crc (take header_size h))) h)"

definition efi_part :: bytes where "efi_part = bytes_of_string ''EFI PART''"

record gpt_plan =
  gp_header_size :: nat
  gp_entries_bytes :: u64
  gp_entries_blocks :: u64
  gp_entries_lba :: u64

text \<open>The checks of the restored header and of its partition array.\<close>

definition gpt_check_header :: "(bytes \<Rightarrow> u32) \<Rightarrow> u64 \<Rightarrow> bytes \<Rightarrow> gpt_plan res" where
  "gpt_check_header crc lbs primary =
     (let header_size = unat (field32 primary 12);
          entries_bytes = ucast (field32 primary 80) * ucast (field32 primary 84) :: u64 in
      if take 8 primary \<noteq> efi_part then Inl (Corrupt ''there is no GPT header in block 1'')
      else if \<not> (92 \<le> header_size \<and> header_size \<le> unat lbs) then Inl (Corrupt ''the header claims another size'')
      else if crc (overwrite 16 [0, 0, 0, 0] (take header_size primary)) \<noteq> field32 primary 16
        then Inl (Corrupt ''the header checksum does not match'')
      else if field32 primary 84 < 128 \<or> entries_bytes = 0 \<or> entries_bytes > 16 * 1024 * 1024
        then Inl (Corrupt ''not a partition array'')
      else Inr \<lparr> gp_header_size = header_size, gp_entries_bytes = entries_bytes,
                 gp_entries_blocks = div_ceil_u64 entries_bytes lbs, gp_entries_lba = field64 primary 72 \<rparr>)"

definition gpt_primary :: "(bytes \<Rightarrow> u32) \<Rightarrow> nat \<Rightarrow> u64 \<Rightarrow> u64 \<Rightarrow> bytes \<Rightarrow> bytes" where
  "gpt_primary crc header_size last_lba last_usable primary =
     gpt_seal crc header_size (overwrite 48 (u64_to_le_bytes last_usable) (overwrite 32 (u64_to_le_bytes last_lba) primary))"

definition gpt_backup :: "(bytes \<Rightarrow> u32) \<Rightarrow> nat \<Rightarrow> u64 \<Rightarrow> u64 \<Rightarrow> bytes \<Rightarrow> bytes" where
  "gpt_backup crc header_size last_lba backup_entries_lba primary =
     gpt_seal crc header_size (overwrite 72 (u64_to_le_bytes backup_entries_lba) (overwrite 32 (u64_to_le_bytes 1)
       (overwrite 24 (u64_to_le_bytes last_lba) primary)))"

text \<open>Opening the buffered handle is the first system call.\<close>

definition bt_buffered_handle :: "block_target \<Rightarrow> unit res \<times> block_target" where
  "bt_buffered_handle t = bt_sync t"

definition regenerate_gpt :: "(bytes \<Rightarrow> u32) \<Rightarrow> u32 \<Rightarrow> block_target \<Rightarrow> unit res \<times> block_target" where
  "regenerate_gpt crc logical_block t =
     (let lbs = ucast logical_block :: u64; block = unat lbs in
      st_bind (bt_buffered_handle t) (\<lambda>_ t.
      let blocks = bt_size_bytes t div lbs; last_lba = blocks - 1 in
      if blocks = 0 then (Inl (Corrupt ''the target is empty''), t)
      else
        st_bind (bt_pread lbs block t) (\<lambda>primary t.
        st_bind (gpt_check_header crc lbs primary, t) (\<lambda>g t.
        st_bind (bt_pread (gp_entries_lba g * lbs) (unat (gp_entries_blocks g * lbs)) t) (\<lambda>entries t.
          if crc (take (unat (gp_entries_bytes g)) entries) \<noteq> field32 primary 88
            then (Inl (Corrupt ''the partition array checksum does not match''), t)
          else if last_lba < gp_entries_blocks g then (Inl (Corrupt ''the target is too small''), t)
          else (let backup_entries_lba = last_lba - gp_entries_blocks g; last_usable = backup_entries_lba - 1 in
            if last_usable < field64 primary 48 then (Inl (Corrupt ''the target is smaller than the restored table''), t)
            else (let primary = gpt_primary crc (gp_header_size g) last_lba last_usable primary;
                      backup = gpt_backup crc (gp_header_size g) last_lba backup_entries_lba primary in
              st_bind (bt_pwrite (unat (backup_entries_lba * lbs)) entries t) (\<lambda>_ t.
              st_bind (bt_pwrite (unat (last_lba * lbs)) backup t) (\<lambda>_ t.
              st_bind (bt_pwrite (unat lbs) primary t) (\<lambda>_ t. bt_sync t))))))))))"

section \<open>The restore\<close>

definition on_target :: "(block_target \<Rightarrow> 'a res \<times> block_target) \<Rightarrow> 'r restore_state \<Rightarrow> 'a res \<times> 'r restore_state" where
  "on_target f v = (case f (re_target v) of (z, t) \<Rightarrow> (z, v\<lparr> re_target := t \<rparr>))"

definition restore_whole_disk ::
    "prims \<Rightarrow> (bytes \<Rightarrow> u32) \<Rightarrow> image_reader \<Rightarrow> chunk_reader \<Rightarrow> image_keys \<Rightarrow> superblock \<Rightarrow> (u32 \<Rightarrow> 'r \<Rightarrow> 'r)
     \<Rightarrow> (u64 \<Rightarrow> 'r \<Rightarrow> unit res \<times> 'r) \<Rightarrow> 'r restore_state \<Rightarrow> unit res \<times> 'r restore_state" where
  "restore_whole_disk P crc reader chunks keys sb phase report v =
     st_bind (sb_aead_kind sb, v) (\<lambda>kind v.
       if bt_size_bytes (re_target v) < source_size_bytes sb then (Inl NoSpace, v)
       else
         st_bind (whole_disk P reader (ik_meta_key keys) sb, v) (\<lambda>summary v.
         st_bind (refuse_bad_sectors summary, v) (\<lambda>_ v.
         st_bind (stream_reader P reader Manifest (ik_meta_key keys) kind, v) (\<lambda>st v.
         st_bind (disk_header_read (page_read_bytes P) st, v) (\<lambda>(disk, st) v.
         st_bind (disk_validate disk, v) (\<lambda>_ v.
         st_bind (restore_regions P \<lparr> dj_keys = keys, dj_chunks = chunks, dj_kind = kind, dj_phase = phase, dj_report = report \<rparr>
             (page_read_bytes P) sb (dh_regions disk) st v) (\<lambda>_ v.
         st_bind (if dh_pt_type disk = PtGpt
             then st_bind (on_target bt_sync v) (\<lambda>_ v. on_target (regenerate_gpt crc (logical_block_size sb)) v)
             else (Inr (), v)) (\<lambda>_ v.
           on_target bt_sync v))))))))"

section \<open>The manifest as a value\<close>

text \<open>What the manifest stream says, independent of who reads it: every region with its entries.\<close>

definition parse_region :: "(nat \<Rightarrow> ('s, bytes) reader) \<Rightarrow> superblock \<Rightarrow> region_record \<Rightarrow> ('s, block_entry list) reader" where
  "parse_region rb sb r =
     rd_bind (block_header_read rb) (\<lambda>(header, delta).
     rd_bind (rd_lift (fail_if (delta \<or> ucast (bm_chunk_size header) \<noteq> (ucast (chunk_size sb) :: u64)) (Corrupt []))) (\<lambda>_.
     rd_bind (rd_lift (region_chunk_count r (ucast (chunk_size sb)))) (\<lambda>expected.
     rd_bind (rd_lift (fail_if (bm_chunk_count header \<noteq> expected \<or> bm_entry_count header \<noteq> expected) (Corrupt []))) (\<lambda>_.
       read_list (unat expected) (entry_read rb)))))"

fun parse_disk :: "(nat \<Rightarrow> ('s, bytes) reader) \<Rightarrow> superblock \<Rightarrow> region_record list \<Rightarrow> ('s, (region_record \<times> block_entry list) list) reader" where
  "parse_disk rb sb [] = rd_return []"
| "parse_disk rb sb (r # rs) =
     rd_bind (if has_manifest r then parse_region rb sb r else rd_return []) (\<lambda>es.
     rd_bind (parse_disk rb sb rs) (\<lambda>ds. rd_return ((r, es) # ds)))"

fun count_entries :: "u64 \<Rightarrow> u64 \<Rightarrow> u64 \<Rightarrow> block_entry list \<Rightarrow> block_summary \<Rightarrow> block_summary" where
  "count_entries start csz index [] s = s"
| "count_entries start csz index (e # es) s =
     count_entries start csz (index + 1) es (disk_count (start + index * csz) (chunk_state_from e) s)"

fun count_disk :: "superblock \<Rightarrow> (region_record \<times> block_entry list) list \<Rightarrow> block_summary \<Rightarrow> block_summary" where
  "count_disk sb [] s = s"
| "count_disk sb ((r, es) # ds) s = count_disk sb ds
     (count_entries (rg_start_lba r * ucast (logical_block_size sb)) (ucast (chunk_size sb)) 0 es s)"

fun write_disk_entries ::
    "prims \<Rightarrow> 'r disk_job \<Rightarrow> u64 \<Rightarrow> u64 \<Rightarrow> u64 \<Rightarrow> u64 \<Rightarrow> block_entry list \<Rightarrow> 'r restore_state \<Rightarrow> unit res \<times> 'r restore_state" where
  "write_disk_entries P job start size_bytes csz index [] v = (Inr (), v)"
| "write_disk_entries P job start size_bytes csz index (e # es) v =
     st_bind (restore_entry P job start size_bytes csz index e v) (\<lambda>_ v. write_disk_entries P job start size_bytes csz (index + 1) es v)"

definition write_region :: "prims \<Rightarrow> 'r disk_job \<Rightarrow> superblock \<Rightarrow> region_record \<times> block_entry list \<Rightarrow> 'r restore_state
     \<Rightarrow> unit res \<times> 'r restore_state" where
  "write_region P job sb d v =
     (let r = fst d; lbs = ucast (logical_block_size sb) :: u64;
          v = v\<lparr> re_reporter := dj_phase job (rg_index r) (re_reporter v) \<rparr> in
      case dj_report job (rg_start_lba r * lbs) (re_reporter v) of
        (Inl e, rep) \<Rightarrow> (Inl e, v\<lparr> re_reporter := rep \<rparr>)
      | (Inr _, rep) \<Rightarrow>
          (let v = v\<lparr> re_reporter := rep \<rparr> in
           if rg_kind r = Swap then on_target (write_swap r lbs) v
           else write_disk_entries P job (rg_start_lba r * lbs) (rg_size_bytes r) (ucast (chunk_size sb)) 0 (snd d) v))"

fun write_disk :: "prims \<Rightarrow> 'r disk_job \<Rightarrow> superblock \<Rightarrow> (region_record \<times> block_entry list) list \<Rightarrow> 'r restore_state
     \<Rightarrow> unit res \<times> 'r restore_state" where
  "write_disk P job sb [] v = (Inr (), v)"
| "write_disk P job sb (d # ds) v = st_bind (write_region P job sb d v) (\<lambda>_ v. write_disk P job sb ds v)"

lemma rd_bind_Inr: "rd_bind p f st = Inr (y, st') \<longleftrightarrow> (\<exists>x st1. p st = Inr (x, st1) \<and> f x st1 = Inr (y, st'))"
  by (auto simp: rd_bind_def res_bind_eq_Inr)

lemma rd_lift_Inr: "rd_lift r st = Inr (x, st') \<longleftrightarrow> r = Inr x \<and> st' = st"
  by (auto simp: rd_lift_def res_bind_eq_Inr)

lemma rd_return_Inr: "rd_return x st = Inr (y, st') \<longleftrightarrow> y = x \<and> st' = st"
  by (auto simp: rd_return_def)

lemmas rd_Inr = rd_bind_Inr rd_lift_Inr rd_return_Inr

lemma plan_entries_parse:
  "plan_entries rb start csz n index s st = Inr (s', st') \<longleftrightarrow>
     (\<exists>es. read_list n (entry_read rb) st = Inr (es, st') \<and> s' = count_entries start csz index es s)"
  by (induction n arbitrary: index s st) (fastforce simp: rd_Inr)+

lemma read_list_length: "read_list n p st = Inr (xs, st') \<Longrightarrow> length xs = n"
  by (induction n arbitrary: st xs) (auto simp: rd_Inr)

lemma plan_region_parse:
  "plan_region rb sb r s st = Inr (s', st') \<longleftrightarrow>
     (\<exists>es. parse_region rb sb r st = Inr (es, st')
       \<and> s' = count_entries (rg_start_lba r * ucast (logical_block_size sb)) (ucast (chunk_size sb)) 0 es s)"
  unfolding plan_region_def parse_region_def Let_def by (fastforce simp: rd_Inr plan_entries_parse split: prod.splits)

lemma plan_regions_parse:
  "plan_regions rb sb (filter has_manifest rs) s st = Inr (s', st') \<longleftrightarrow>
     (\<exists>ds. parse_disk rb sb rs st = Inr (ds, st') \<and> s' = count_disk sb ds s)"
proof (induction rs arbitrary: s st)
  case (Cons r rs)
  then show ?case by (cases "has_manifest r") (fastforce simp: rd_Inr plan_region_parse)+
qed (auto simp: rd_Inr)

definition restored_at :: "'s \<Rightarrow> unit res \<times> 'v \<Rightarrow> 's res \<times> 'v" where
  "restored_at st x = (map_sum id (\<lambda>_. st) (fst x), snd x)"

lemma restore_entries_parse:
  "read_list n (entry_read rb) st = Inr (es, st') \<Longrightarrow>
   restore_entries P job rb start size_bytes csz n index st v = restored_at st' (write_disk_entries P job start size_bytes csz index es v)"
proof (induction n arbitrary: st es index v)
  case (Suc n)
  then obtain e st1 es' where e: "entry_read rb st = Inr (e, st1)" "read_list n (entry_read rb) st1 = Inr (es', st')" "es = e # es'"
    by (auto simp: rd_Inr)
  obtain z w where "restore_entry P job start size_bytes csz index e v = (z, w)" by fastforce
  then show ?case using e Suc.IH [OF e(2)] by (cases z) (simp_all add: restored_at_def)
qed (auto simp: rd_Inr restored_at_def)

lemma restore_region_parse:
  assumes "(if has_manifest r then parse_region rb sb r else rd_return []) st = Inr (es, st')"
  shows "restore_region P job rb sb r st v = restored_at st' (write_region P job sb (r, es) v)"
proof (cases "has_manifest r")
  case True
  then obtain h st1 where h: "block_header_read rb st = Inr ((h, False), st1)"
    "region_chunk_count r (ucast (chunk_size sb)) = Inr (bm_entry_count h)" "bm_chunk_count h = bm_entry_count h"
    "read_list (unat (bm_entry_count h)) (entry_read rb) st1 = Inr (es, st')"
    using assms by (fastforce simp: parse_region_def rd_Inr split: prod.splits)
  have "rg_kind r \<noteq> Swap" using True by (simp add: has_manifest_def kind_has_manifest_def)
  then show ?thesis
    using True h
    by (simp add: restore_entries_parse [OF h(4)] restore_region_def write_region_def restore_manifest_region_def Let_def restored_at_def split: prod.split sum.split)
next
  case False
  then have "rg_kind r = Swap" "st' = st" using assms by (simp_all add: has_manifest_def kind_has_manifest_def rd_Inr)
  then show ?thesis
    by (simp add: restore_region_def write_region_def Let_def restored_at_def on_target_def split: prod.split sum.split)
qed

lemma restore_regions_parse:
  "parse_disk rb sb rs st = Inr (ds, st') \<Longrightarrow>
   restore_regions P job rb sb rs st v = restored_at st' (write_disk P job sb ds v)"
proof (induction rs arbitrary: st ds v)
  case (Cons r rs)
  then obtain es st1 ds' where e: "(if has_manifest r then parse_region rb sb r else rd_return []) st = Inr (es, st1)"
    "parse_disk rb sb rs st1 = Inr (ds', st')" "ds = (r, es) # ds'"
    by (auto simp: rd_Inr simp del: if_split)
  obtain z w where "write_region P job sb (r, es) v = (z, w)" by fastforce
  then show ?case
    unfolding restore_regions.simps restore_region_parse [OF e(1)] e(3) write_disk.simps
    using Cons.IH [OF e(2)] by (cases z) (simp_all add: restored_at_def)
qed (auto simp: rd_Inr restored_at_def)

section \<open>What the writes leave on the target\<close>

definition entry_range :: "nat \<Rightarrow> nat \<Rightarrow> nat \<Rightarrow> nat \<Rightarrow> nat \<times> nat" where
  "entry_range start n c i = (start + i * c, min c (n - i * c))"

text \<open>The bytes an entry stands for: its plaintext, zeros, or what the target held before.\<close>

definition entry_restored :: "prims \<Rightarrow> 'r disk_job \<Rightarrow> nat \<times> nat \<Rightarrow> block_entry \<Rightarrow> bytes \<Rightarrow> bytes \<Rightarrow> bool" where
  "entry_restored P job q e old data \<longleftrightarrow>
     (if be_state e = state_stored then entry_plaintext P job (snd q) e = Inr (chunk_bytes data q) \<and> length (chunk_bytes data q) = snd q
      else if be_state e = state_zero then chunk_bytes data q = replicate (snd q) 0
      else be_state e = state_unused \<and> chunk_bytes data q = chunk_bytes old q)"

lemma entry_restored_cong:
  "chunk_bytes data q = chunk_bytes data' q \<Longrightarrow> chunk_bytes old q = chunk_bytes old' q \<Longrightarrow>
   entry_restored P job q e old data = entry_restored P job q e old' data'"
  by (simp add: entry_restored_def)

lemma entry_words:
  fixes size_bytes csz :: u64
  assumes "csz \<noteq> 0" "i < unat (div_ceil_u64 size_bytes csz)"
  shows "i * unat csz < unat size_bytes" "unat (word_of_nat i * csz) = i * unat csz"
    "unat (min csz (size_bytes - word_of_nat i * csz)) = min (unat csz) (unat size_bytes - i * unat csz)"
proof -
  let ?c = "unat csz" and ?s = "unat size_bytes"
  have c: "0 < ?c" using assms(1) by (simp add: unsigned_eq_0_iff neq0_conv [symmetric] del: neq0_conv)
  have "Suc i * ?c \<le> (?s + ?c - 1) div ?c * ?c" using assms unat_div_ceil_u64 [OF assms(1), of size_bytes] by (intro mult_le_mono1) simp
  then show a: "i * ?c < ?s" using nat_div_ceil_bounds(2) [OF c, of ?s] by simp
  then have b: "i * ?c < 2 ^ 64" using unat_less_width(4) [of size_bytes] by (simp del: unat_less_width)
  moreover have "i \<le> i * ?c" using c by simp
  ultimately have "i < 2 ^ 64" by linarith
  then show o: "unat (word_of_nat i * csz) = i * ?c" using b by (subst unat_mult_u64) (simp_all add: unat_of_nat_u64)
  then show "unat (min csz (size_bytes - word_of_nat i * csz)) = min ?c (?s - i * ?c)"
    using a by (simp add: min_def word_le_nat_alt unat_sub)
qed

lemma restore_entry_outcome:
  fixes size_bytes csz :: u64
  assumes "restore_entry P job start size_bytes csz (word_of_nat i) e v = (z, v')" "csz \<noteq> 0" "i < unat (div_ceil_u64 size_bytes csz)"
    and "unat start + unat size_bytes \<le> length (target_bytes v)" "length (target_bytes v) < 2 ^ 64"
  defines "q \<equiv> entry_range (unat start) (unat size_bytes) (unat csz) i"
  shows "z = Inr () \<Longrightarrow> entry_restored P job q e (target_bytes v) (target_bytes v')"
    and "touches_only q (target_bytes v) (target_bytes v')"
proof -
  note w = entry_words [OF assms(2,3)]
  define off len where "off = start + word_of_nat i * csz" and "len = snd q"
  have len: "unat (min csz (size_bytes - word_of_nat i * csz)) = len" using w(3) by (simp add: len_def q_def entry_range_def)
  have o: "unat off = fst q" unfolding off_def using w(1,2) assms(4,5) by (subst unat_add_u64) (simp_all add: q_def entry_range_def)
  have q: "q = (unat off, len)" using o by (simp add: len_def)
  have fits: "unat off + len \<le> length (target_bytes v)" "len \<le> unat csz" using o assms(4) w(1) by (auto simp: len_def q_def entry_range_def)
  note wr = restore_write_outcome [where csz = "unat csz" and offset = off and len = len and v = v, OF _ fits(1) assms(5) fits(2)]
  have pos: "0 < len" using w(1) assms(2) by (auto simp: len_def q_def entry_range_def unsigned_eq_0_iff neq0_conv [symmetric] simp del: neq0_conv)
  have run: "(z, v') =
     (if be_state e = state_stored then
        (case entry_plaintext P job len e of
           Inl er \<Rightarrow> (Inl er, v)
         | Inr plaintext \<Rightarrow>
             if length plaintext \<noteq> len then (Inl (Corrupt ''chunk restored to ''), v)
             else st_bind (restore_write (unat csz) off plaintext len v) (\<lambda>_ v.
               (Inr (), v\<lparr> re_stored := re_stored v + 1, re_bytes := re_bytes v + word_of_nat len \<rparr>)))
      else if be_state e = state_zero then
        st_bind (restore_write (unat csz) off [] len v) (\<lambda>_ v.
          (Inr (), v\<lparr> re_zero := re_zero v + 1, re_bytes := re_bytes v + word_of_nat len \<rparr>))
      else if be_state e = state_unused then (Inr (), v\<lparr> re_skipped := re_skipped v + 1 \<rparr>)
      else if be_state e = state_bad_sector then (Inl (BadSector off (word_of_nat len)), v)
      else (Inl (Corrupt ''unknown chunk state ''), v))"
    using assms(1) unfolding restore_entry_def Let_def len off_def [symmetric] by simp
  consider b where "be_state e = state_stored" "entry_plaintext P job len e = Inr b" "length b = len"
    | "be_state e = state_zero" "be_state e \<noteq> state_stored"
    | "v' = v \<and> z \<noteq> Inr () \<or> z = Inr () \<and> be_state e = state_unused \<and> target_bytes v' = target_bytes v"
    using run by (auto split: if_splits sum.splits)
  then have "(z = Inr () \<longrightarrow> entry_restored P job q e (target_bytes v) (target_bytes v')) \<and> touches_only q (target_bytes v) (target_bytes v')"
  proof cases
    case 1
    obtain z1 v1 where one: "restore_write (unat csz) off b len v = (z1, v1)" by fastforce
    have "z = z1" "target_bytes v' = target_bytes v1" using run 1 one by (cases z1; simp)+
    moreover have "b \<noteq> []" using 1(3) pos by auto
    ultimately show ?thesis using wr [OF one] 1 fits(1) q
      by (auto simp: entry_restored_def chunk_bytes_def slice_overwrite_same)
  next
    case 2
    obtain z1 v1 where one: "restore_write (unat csz) off [] len v = (z1, v1)" by fastforce
    have "z = z1" "target_bytes v' = target_bytes v1" using run 2 one by (cases z1; simp)+
    then show ?thesis using wr [OF one] 2 fits(1) q
      by (auto simp: entry_restored_def chunk_bytes_def slice_overwrite_same)
  next
    case 3
    then show ?thesis by (auto simp: entry_restored_def state_unused_def state_stored_def state_zero_def)
  qed
  then show "z = Inr () \<Longrightarrow> entry_restored P job q e (target_bytes v) (target_bytes v')" "touches_only q (target_bytes v) (target_bytes v')"
    by auto
qed

lemma write_disk_entries_outcome:
  fixes size_bytes csz :: u64
  assumes "write_disk_entries P job start size_bytes csz (word_of_nat i) es v = (z, v')" "csz \<noteq> 0"
    and "i + length es \<le> unat (div_ceil_u64 size_bytes csz)"
    and "unat start + unat size_bytes \<le> length (target_bytes v)" "length (target_bytes v) < 2 ^ 64"
  defines "q \<equiv> entry_range (unat start) (unat size_bytes) (unat csz)"
  shows "(z = Inr () \<longrightarrow> (\<forall>j < length es. entry_restored P job (q (i + j)) (es ! j) (target_bytes v) (target_bytes v')))
    \<and> touches_only (unat start + min (i * unat csz) (unat size_bytes), unat size_bytes - i * unat csz) (target_bytes v) (target_bytes v')"
  using assms(1,3-5)
proof (induction es arbitrary: i v)
  case (Cons e es)
  let ?c = "unat csz" and ?s = "unat size_bytes" and ?st = "unat start"
  have i: "i < unat (div_ceil_u64 size_bytes csz)" using Cons.prems(2) by simp
  have ic: "i * ?c < ?s" by (rule entry_words(1) [OF assms(2) i])
  obtain z1 v1 where one: "restore_entry P job start size_bytes csz (word_of_nat i) e v = (z1, v1)" by fastforce
  note o = restore_entry_outcome [OF one assms(2) i Cons.prems(3,4), folded q_def]
  have qi: "fst (q k) = ?st + k * ?c" "snd (q k) = min ?c (?s - k * ?c)" for k by (simp_all add: q_def entry_range_def)
  have whole: "touches_only (?st + min (i * ?c) ?s, ?s - i * ?c) (target_bytes v) (target_bytes v1)"
    by (rule touches_only_mono [OF o(2)]) (use qi ic in simp_all)
  show ?case
  proof (cases z1)
    case (Inl x)
    then show ?thesis using Cons.prems(1) one whole by auto
  next
    case (Inr u)
    have "(word_of_nat i :: u64) + 1 = word_of_nat (Suc i)" by simp
    then have rest: "write_disk_entries P job start size_bytes csz (word_of_nat (Suc i)) es v1 = (z, v')"
      using Cons.prems(1) one Inr by (simp del: of_nat_Suc)
    have len: "length (target_bytes v1) = length (target_bytes v)" using o(2) by (simp add: touches_only_def)
    note ih = Cons.IH [OF rest, unfolded len]
    have later: "touches_only (?st + min (Suc i * ?c) ?s, ?s - Suc i * ?c) (target_bytes v1) (target_bytes v')"
      using ih Cons.prems(2-4) by simp
    have keep: "chunk_bytes (target_bytes v') (q i) = chunk_bytes (target_bytes v1) (q i)"
      by (rule touches_only_slice [OF later]) (use qi [of i] ic in auto)
    have old: "chunk_bytes (target_bytes v1) (q k) = chunk_bytes (target_bytes v) (q k)" if "i < k" for k
    proof (rule touches_only_slice [OF o(2)])
      have "Suc i * ?c \<le> k * ?c" using that by (intro mult_le_mono1) simp
      then have "i * ?c + ?c \<le> k * ?c" by simp
      then show "fst (q k) + snd (q k) \<le> fst (q i) \<or> fst (q i) + snd (q i) \<le> fst (q k)"
        unfolding qi using min.cobounded1 [of ?c "?s - i * ?c"] by (intro disjI2) linarith
    qed
    have "entry_restored P job (q (i + j)) ((e # es) ! j) (target_bytes v) (target_bytes v')" if z: "z = Inr ()" "j < length (e # es)" for j
    proof (cases j)
      case 0
      then show ?thesis using o(1) Inr by (simp add: entry_restored_cong [OF keep refl])
    next
      case (Suc k)
      then have "entry_restored P job (q (Suc i + k)) (es ! k) (target_bytes v1) (target_bytes v')"
        using ih Cons.prems(2-4) z by simp
      moreover have "chunk_bytes (target_bytes v1) (q (Suc i + k)) = chunk_bytes (target_bytes v) (q (Suc i + k))" by (rule old) simp
      ultimately show ?thesis using Suc by (simp add: entry_restored_def)
    qed
    moreover have "touches_only (?st + min (i * ?c) ?s, ?s - i * ?c) (target_bytes v) (target_bytes v')"
      by (rule touches_only_trans [OF whole]) (rule touches_only_mono [OF later], use ic in auto)
    ultimately show ?thesis by blast
  qed
qed simp

definition region_range :: "superblock \<Rightarrow> region_record \<Rightarrow> nat \<times> nat" where
  "region_range sb r = (region_start (logical_block_size sb) r, unat (rg_size_bytes r))"

definition region_restored :: "prims \<Rightarrow> 'r disk_job \<Rightarrow> superblock \<Rightarrow> bytes \<Rightarrow> bytes \<Rightarrow> region_record \<times> block_entry list \<Rightarrow> bool" where
  "region_restored P job sb old data d \<longleftrightarrow>
     (let r = fst d; start = region_start (logical_block_size sb) r; csz = unat (chunk_size sb); n = unat (rg_size_bytes r) in
      if rg_kind r = Swap then chunk_bytes data (start, swap_header_bytes) = rg_swap_header r
      else length (snd d) = (n + csz - 1) div csz
        \<and> (\<forall>i < length (snd d). entry_restored P job (entry_range start n csz i) (snd d ! i) old data))"

text \<open>A swap region is at least as long as the header it carries; the code does not check it, the target does.\<close>

definition disk_fits :: "superblock \<Rightarrow> bytes \<Rightarrow> (region_record \<times> block_entry list) list \<Rightarrow> bool" where
  "disk_fits sb data ds \<longleftrightarrow> length data < 2 ^ 64 \<and> chunk_size sb \<noteq> 0
     \<and> (\<forall>(r, es) \<in> set ds. region_end (logical_block_size sb) r \<le> length data
          \<and> (if rg_kind r = Swap then swap_header_bytes \<le> unat (rg_size_bytes r)
             else length es = unat (div_ceil_u64 (rg_size_bytes r) (ucast (chunk_size sb)))))"

lemma region_word:
  "region_end lbs r < 2 ^ 64 \<Longrightarrow> unat (rg_start_lba r * ucast lbs) = region_start lbs r"
  by (simp add: region_end_def region_start_def unat_mult_u64)

lemma chunk_bytes_sub:
  assumes "chunk_bytes data q = chunk_bytes data' q" "fst q \<le> fst p" "fst p + snd p \<le> fst q + snd q"
  shows "chunk_bytes data p = chunk_bytes data' p"
proof -
  have "chunk_bytes xs p = take (snd p) (drop (fst p - fst q) (chunk_bytes xs q))" for xs
    using assms(2,3) by (simp add: chunk_bytes_def slice_def drop_take min_def)
  then show ?thesis using assms(1) by simp
qed

lemma write_region_outcome:
  assumes "write_region P job sb d v = (z, v')" "disk_fits sb (target_bytes v) [d]"
  shows "(z = Inr () \<longrightarrow> region_restored P job sb (target_bytes v) (target_bytes v') d)
    \<and> touches_only (region_range sb (fst d)) (target_bytes v) (target_bytes v')"
proof -
  obtain r es where d: "d = (r, es)" by fastforce
  let ?lbs = "logical_block_size sb" and ?c = "ucast (chunk_size sb) :: u64"
  have f: "length (target_bytes v) < 2 ^ 64" "chunk_size sb \<noteq> 0" "region_end ?lbs r \<le> length (target_bytes v)"
    using assms(2) by (simp_all add: disk_fits_def d)
  have st: "unat (rg_start_lba r * ucast ?lbs) = region_start ?lbs r" using f by (intro region_word) simp
  have c: "?c \<noteq> 0" "unat ?c = unat (chunk_size sb)"
    using ucast_nonzero [of "chunk_size sb"] f(2) by (simp_all add: unsigned_eq_0_iff neq0_conv [symmetric] del: neq0_conv)
  define v0 where "v0 = v\<lparr> re_reporter := dj_phase job (rg_index r) (re_reporter v) \<rparr>"
  obtain zr rep where rep: "dj_report job (rg_start_lba r * ucast ?lbs) (re_reporter v0) = (zr, rep)" by fastforce
  define v1 where "v1 = v0\<lparr> re_reporter := rep \<rparr>"
  have t: "re_target v1 = re_target v" by (simp add: v1_def v0_def)
  have run: "(z, v') = (case zr of Inl e \<Rightarrow> (Inl e, v1)
     | Inr _ \<Rightarrow> if rg_kind r = Swap then on_target (write_swap r (ucast ?lbs)) v1
         else write_disk_entries P job (rg_start_lba r * ucast ?lbs) (rg_size_bytes r) ?c 0 es v1)"
    using assms(1) [symmetric] rep unfolding write_region_def d fst_conv snd_conv Let_def v0_def [symmetric] v1_def
    by simp
  consider (failed) e where "zr = Inl e" | (swap) "zr = Inr ()" "rg_kind r = Swap" | (data) "zr = Inr ()" "rg_kind r \<noteq> Swap"
    by (cases zr) auto
  then show ?thesis
  proof cases
    case failed
    then show ?thesis using run t by simp
  next
    case swap
    have sz: "swap_header_bytes \<le> unat (rg_size_bytes r)" using assms(2) swap(2) by (simp add: disk_fits_def d)
    obtain z1 t1 where w: "write_swap r (ucast ?lbs) (re_target v1) = (z1, t1)" by fastforce
    have v': "z = z1" "re_target v' = t1" using run swap w by (auto simp: on_target_def)
    show ?thesis
    proof (cases "length (rg_swap_header r) = swap_header_bytes")
      case False
      then show ?thesis using w v' t by (auto simp: write_swap_def)
    next
      case True
      have w1: "write_at (rg_start_lba r * ucast ?lbs) (rg_swap_header r) (bt_alignment (re_target v)) swap_header_bytes (re_target v) = (z1, t1)"
        using w True t by (simp add: write_swap_def)
      have fit: "unat (rg_start_lba r * ucast ?lbs) + swap_header_bytes \<le> length (target_bytes v)"
        using st sz f(3) by (simp add: region_end_def)
      note o = write_at_outcome [OF w1 fit f(1) _ order_refl]
      have "touches_only (region_range sb r) (target_bytes v) (target_bytes v')"
        unfolding v' by (rule touches_only_mono [OF o(2)]) (use True sz st in \<open>simp_all add: region_range_def\<close>)
      moreover have "z = Inr () \<longrightarrow> region_restored P job sb (target_bytes v) (target_bytes v') d"
        using o(1) True v' swap(2) st fit by (auto simp: region_restored_def d chunk_bytes_def slice_overwrite_same)
      ultimately show ?thesis by (simp add: d)
    qed
  next
    case data
    have n: "length es = unat (div_ceil_u64 (rg_size_bytes r) ?c)" using assms(2) data(2) by (simp add: disk_fits_def d)
    have w: "write_disk_entries P job (rg_start_lba r * ucast ?lbs) (rg_size_bytes r) ?c (word_of_nat 0) es v1 = (z, v')"
      using run data by simp
    have "unat (rg_start_lba r * ucast ?lbs) + unat (rg_size_bytes r) \<le> length (target_bytes v1)"
      using st f(3) t by (simp add: region_end_def)
    from write_disk_entries_outcome [OF w c(1) _ this] show ?thesis
      using n f(1) t data(2) st c(2) unat_div_ceil_u64 [OF c(1), of "rg_size_bytes r"]
      by (simp add: region_restored_def region_range_def d)
  qed
qed

definition off_regions :: "superblock \<Rightarrow> (region_record \<times> block_entry list) list \<Rightarrow> nat \<times> nat \<Rightarrow> bool" where
  "off_regions sb ds q \<longleftrightarrow> (\<forall>d \<in> set ds. fst q + snd q \<le> fst (region_range sb (fst d))
     \<or> fst (region_range sb (fst d)) + snd (region_range sb (fst d)) \<le> fst q)"

lemma region_restored_cong:
  assumes "chunk_bytes data (region_range sb (fst d)) = chunk_bytes data' (region_range sb (fst d))"
    and "chunk_bytes old (region_range sb (fst d)) = chunk_bytes old' (region_range sb (fst d))"
    and "disk_fits sb data [d]" "region_restored P job sb old data d"
  shows "region_restored P job sb old' data' d"
proof -
  obtain r es where d: "d = (r, es)" by fastforce
  let ?s = "region_start (logical_block_size sb) r" and ?n = "unat (rg_size_bytes r)" and ?c = "unat (chunk_size sb)"
  have rr: "region_range sb (fst d) = (?s, ?n)" by (simp add: region_range_def d)
  show ?thesis
  proof (cases "rg_kind r = Swap")
    case True
    have "chunk_bytes data (?s, swap_header_bytes) = chunk_bytes data' (?s, swap_header_bytes)"
      using assms(3) True by (intro chunk_bytes_sub [OF assms(1)]) (simp_all add: region_range_def disk_fits_def d)
    then show ?thesis using assms(4) True by (simp add: region_restored_def d)
  next
    case False
    have nz: "(ucast (chunk_size sb) :: u64) \<noteq> 0"
      using assms(3) ucast_nonzero [of "chunk_size sb"] by (simp add: disk_fits_def unsigned_eq_0_iff neq0_conv [symmetric] del: neq0_conv)
    have "entry_restored P job (entry_range ?s ?n ?c i) (es ! i) old' data'" if i: "i < length es" for i
    proof -
      have "i < unat (div_ceil_u64 (rg_size_bytes r) (ucast (chunk_size sb)))" using assms(3) False i by (simp add: disk_fits_def d)
      from entry_words(1) [OF nz this] have in_r: "fst (?s, ?n) \<le> fst (entry_range ?s ?n ?c i)"
        "fst (entry_range ?s ?n ?c i) + snd (entry_range ?s ?n ?c i) \<le> fst (?s, ?n) + snd (?s, ?n)" by (simp_all add: entry_range_def)
      have "entry_restored P job (entry_range ?s ?n ?c i) (es ! i) old data" using assms(4) False i by (simp add: region_restored_def d Let_def)
      then show ?thesis
        using entry_restored_cong [OF chunk_bytes_sub [OF assms(1) [unfolded rr] in_r] chunk_bytes_sub [OF assms(2) [unfolded rr] in_r]] by blast
    qed
    then show ?thesis using assms(4) False by (simp add: region_restored_def d Let_def)
  qed
qed

lemma write_disk_outcome:
  assumes "write_disk P job sb ds v = (z, v')" "disk_fits sb (target_bytes v) ds"
    and "sorted_wrt (\<lambda>d d'. region_end (logical_block_size sb) (fst d) \<le> region_start (logical_block_size sb) (fst d')) ds"
  shows "(z = Inr () \<longrightarrow> (\<forall>d \<in> set ds. region_restored P job sb (target_bytes v) (target_bytes v') d))
    \<and> length (target_bytes v') = length (target_bytes v)
    \<and> (\<forall>q. off_regions sb ds q \<longrightarrow> chunk_bytes (target_bytes v') q = chunk_bytes (target_bytes v) q)"
  using assms
proof (induction ds arbitrary: v)
  case (Cons d ds)
  obtain z1 v1 where one: "write_region P job sb d v = (z1, v1)" by fastforce
  have fd: "disk_fits sb (target_bytes v) [d]" "disk_fits sb (target_bytes v) ds" using Cons.prems(2) by (auto simp: disk_fits_def)
  note o = write_region_outcome [OF one fd(1)]
  have len: "length (target_bytes v1) = length (target_bytes v)" using o by (simp add: touches_only_def)
  have off: "chunk_bytes (target_bytes v1) q = chunk_bytes (target_bytes v) q"
    if "fst q + snd q \<le> fst (region_range sb (fst d)) \<or> fst (region_range sb (fst d)) + snd (region_range sb (fst d)) \<le> fst q" for q
    using o that touches_only_slice by blast
  show ?case
  proof (cases z1)
    case (Inl e)
    then have "z = Inl e" "v' = v1" using Cons.prems(1) one by simp_all
    then show ?thesis using len off by (simp add: off_regions_def)
  next
    case (Inr u)
    have rest: "write_disk P job sb ds v1 = (z, v')" using Cons.prems(1) one Inr by simp
    have f1: "disk_fits sb (target_bytes v1) ds" using fd(2) len by (simp add: disk_fits_def)
    have so: "sorted_wrt (\<lambda>d d'. region_end (logical_block_size sb) (fst d) \<le> region_start (logical_block_size sb) (fst d')) ds"
      and lt: "\<forall>d' \<in> set ds. region_end (logical_block_size sb) (fst d) \<le> region_start (logical_block_size sb) (fst d')"
      using Cons.prems(3) by simp_all
    note ih = Cons.IH [OF rest f1 so]
    have rr: "fst (region_range sb (fst x)) = region_start (logical_block_size sb) (fst x)"
      "region_start (logical_block_size sb) (fst x) + snd (region_range sb (fst x)) = region_end (logical_block_size sb) (fst x)" for x
      by (simp_all add: region_range_def region_end_def)
    have hd: "chunk_bytes (target_bytes v') (region_range sb (fst d)) = chunk_bytes (target_bytes v1) (region_range sb (fst d))"
    proof -
      have "off_regions sb ds (region_range sb (fst d))" using lt unfolding off_regions_def by (simp only: rr) blast
      then show ?thesis using ih by blast
    qed
    have tl: "chunk_bytes (target_bytes v1) (region_range sb (fst d')) = chunk_bytes (target_bytes v) (region_range sb (fst d'))"
      if "d' \<in> set ds" for d'
      by (rule off) (use lt that in \<open>simp only: rr, blast\<close>)
    have "region_restored P job sb (target_bytes v) (target_bytes v') d'" if z: "z = Inr ()" "d' \<in> set (d # ds)" for d'
    proof (cases "d' = d")
      case True
      have "disk_fits sb (target_bytes v1) [d]" using fd(1) len by (simp add: disk_fits_def)
      moreover have "region_restored P job sb (target_bytes v) (target_bytes v1) d" using o Inr by simp
      ultimately show ?thesis unfolding True by (rule region_restored_cong [OF hd [symmetric] refl])
    next
      case False
      then have d': "d' \<in> set ds" using z by simp
      have "disk_fits sb (target_bytes v') [d']" using f1 ih d' by (auto simp: disk_fits_def)
      moreover have "region_restored P job sb (target_bytes v1) (target_bytes v') d'" using ih z d' by blast
      ultimately show ?thesis by (rule region_restored_cong [OF refl tl [OF d']])
    qed
    moreover have "chunk_bytes (target_bytes v') q = chunk_bytes (target_bytes v) q" if "off_regions sb (d # ds) q" for q
    proof -
      have "off_regions sb ds q" "chunk_bytes (target_bytes v1) q = chunk_bytes (target_bytes v) q"
        using that off [of q] by (simp_all add: off_regions_def)
      then show ?thesis using ih by metis
    qed
    ultimately show ?thesis using ih len by auto
  qed
qed simp

section \<open>The regenerated partition table\<close>

lemma slice_overwrite_other:
  "j \<le> i \<or> i + length ys \<le> k \<Longrightarrow> i + length ys \<le> length xs \<Longrightarrow> slice k j (overwrite i ys xs) = slice k j xs"
  by (auto simp: slice_def overwrite_def take_drop min_def)

lemma take_overwrite:
  "i + length ys \<le> n \<Longrightarrow> n \<le> length xs \<Longrightarrow> take n (overwrite i ys xs) = overwrite i ys (take n xs)"
  by (simp add: overwrite_def take_drop min_absorb2)

lemma overwrite_twice: "length ys = length zs \<Longrightarrow> i \<le> length xs \<Longrightarrow> overwrite i zs (overwrite i ys xs) = overwrite i zs xs"
  by (simp add: overwrite_def)

lemma st_bind_Inr: "st_bind m f = (Inr y, t) \<longleftrightarrow> (\<exists>x s. m = (Inr x, s) \<and> f x s = (Inr y, t))"
  by (cases m; cases "fst m") auto

lemma target_calls:
  "bt_sync t = (Inr (), t') \<Longrightarrow> bt_data t' = bt_data t"
  "bt_pread off n t = (Inr b, t') \<Longrightarrow> bt_data t' = bt_data t \<and> b = slice (unat off) (unat off + n) (bt_data t) \<and> unat off + n \<le> length (bt_data t)"
  "bt_pwrite i bs t = (Inr (), t') \<Longrightarrow> bt_data t' = overwrite i bs (bt_data t)"
  by (auto simp: bt_sync_def bt_pread_def bt_pwrite_def split: list.splits option.splits if_splits)

definition gpt_valid :: "(bytes \<Rightarrow> u32) \<Rightarrow> bytes \<Rightarrow> bool" where
  "gpt_valid crc h \<longleftrightarrow> (let header_size = unat (field32 h 12) in take 8 h = efi_part \<and> 92 \<le> header_size \<and> header_size \<le> length h
     \<and> crc (overwrite 16 [0, 0, 0, 0] (take header_size h)) = field32 h 16)"

lemma gpt_seal_valid:
  assumes "take 8 h = efi_part" "unat (field32 h 12) = n" "92 \<le> n" "n \<le> length h"
  shows "gpt_valid crc (gpt_seal crc n h)" "length (gpt_seal crc n h) = length h"
    "j \<le> 16 \<or> 20 \<le> k \<Longrightarrow> slice k j (gpt_seal crc n h) = slice k j h"
proof -
  define h0 c where "h0 = overwrite 16 [0, 0, 0, 0] h" and "c = u32_to_le_bytes (crc (take n h0))"
  have s: "gpt_seal crc n h = overwrite 16 c h0" by (simp add: gpt_seal_def h0_def c_def Let_def)
  have l: "length h0 = length h" "length c = 4" using assms(3,4) by (simp_all add: h0_def c_def)
  show len: "length (gpt_seal crc n h) = length h" using l assms(3,4) by (simp add: s)
  show other: "slice k j (gpt_seal crc n h) = slice k j h" if "j \<le> 16 \<or> 20 \<le> k" for k j
    using that l assms(3,4) unfolding s h0_def by (subst slice_overwrite_other; simp add: slice_overwrite_other)
  have "take n (gpt_seal crc n h) = overwrite 16 c (take n h0)" unfolding s using l assms(3,4) by (intro take_overwrite) simp_all
  then have "overwrite 16 [0, 0, 0, 0] (take n (gpt_seal crc n h)) = overwrite 16 [0, 0, 0, 0] (take n h0)"
    using l assms(3,4) by (simp add: overwrite_twice)
  also have "\<dots> = take n (overwrite 16 [0, 0, 0, 0] h0)" using l assms(3,4) by (intro take_overwrite [symmetric]) simp_all
  also have "overwrite 16 [0, 0, 0, 0] h0 = h0" unfolding h0_def using assms(3,4) by (intro overwrite_twice) simp_all
  finally have z: "overwrite 16 [0, 0, 0, 0] (take n (gpt_seal crc n h)) = take n h0" .
  have "field32 (gpt_seal crc n h) 16 = crc (take n h0)"
    using l assms(3,4) by (simp add: field32_def s slice_overwrite_same c_def)
  moreover have "take 8 (gpt_seal crc n h) = efi_part" using other [of 8 0] assms(1) by (simp add: slice_def)
  moreover have "field32 (gpt_seal crc n h) 12 = field32 h 12" using other [of 16 12] by (simp add: field32_def)
  ultimately show "gpt_valid crc (gpt_seal crc n h)" using z assms len by (simp add: gpt_valid_def Let_def)
qed

lemma gpt_headers:
  fixes lst usable array :: u64
  assumes "gpt_valid crc h" "n = unat (field32 h 12)"
  defines "p \<equiv> gpt_primary crc n lst usable h"
  defines "b \<equiv> gpt_backup crc n lst array p"
  shows "gpt_valid crc p" "gpt_valid crc b" "length p = length h" "length b = length h"
    and "field64 p 24 = field64 h 24" "field64 p 32 = lst" "field64 p 48 = usable" "field64 p 72 = field64 h 72" "field32 p 88 = field32 h 88"
    and "field64 b 24 = lst" "field64 b 32 = 1" "field64 b 48 = usable" "field64 b 72 = array" "field32 b 88 = field32 h 88"
proof -
  have h: "take 8 h = efi_part" "92 \<le> n" "n \<le> length h" using assms(1,2) by (simp_all add: gpt_valid_def Let_def)
  define h1 where "h1 = overwrite 48 (u64_to_le_bytes usable) (overwrite 32 (u64_to_le_bytes lst) h)"
  have l1: "length h1 = length h" using h by (simp add: h1_def)
  have o1: "slice k j h1 = slice k j h" if "j \<le> 32 \<or> 56 \<le> k \<or> 40 \<le> k \<and> j \<le> 48" for k j
    using that h unfolding h1_def by (subst slice_overwrite_other; auto simp: slice_overwrite_other)
  have h1: "take 8 h1 = efi_part" "unat (field32 h1 12) = n"
    using o1 [of 8 0] o1 [of 16 12] h(1) assms(2) by (simp_all add: slice_def field32_def)
  have p: "p = gpt_seal crc n h1" by (simp add: p_def gpt_primary_def h1_def)
  note sp = gpt_seal_valid [where crc = crc, OF h1 h(2), unfolded l1, OF h(3), folded p]
  have f1: "field64 h1 32 = lst" "field64 h1 48 = usable"
    using h unfolding h1_def field64_def by (simp_all add: slice_overwrite_other slice_overwrite_same)
  show "gpt_valid crc p" "length p = length h" using sp l1 by simp_all
  show fp: "field64 p 24 = field64 h 24" "field64 p 32 = lst" "field64 p 48 = usable" "field64 p 72 = field64 h 72" "field32 p 88 = field32 h 88"
    using sp(3) o1 f1 by (simp_all add: field64_def field32_def)
  define h2 where "h2 = overwrite 72 (u64_to_le_bytes array) (overwrite 32 (u64_to_le_bytes 1) (overwrite 24 (u64_to_le_bytes lst) p))"
  have lp: "length p = length h" using sp(2) l1 by simp
  have l2: "length h2 = length h" using h lp by (simp add: h2_def)
  have o2: "slice k j h2 = slice k j p" if "j \<le> 24 \<or> 40 \<le> k \<and> j \<le> 72 \<or> 80 \<le> k" for k j
    using that h lp unfolding h2_def by (subst slice_overwrite_other; auto simp: slice_overwrite_other)
  have p8: "take 8 p = efi_part" "unat (field32 p 12) = n"
    using sp(3) [of 8 0] sp(3) [of 16 12] h1 by (simp_all add: slice_def field32_def)
  have h2: "take 8 h2 = efi_part" "unat (field32 h2 12) = n"
    using o2 [of 8 0] o2 [of 16 12] p8 by (simp_all add: slice_def field32_def)
  have b: "b = gpt_seal crc n h2" by (simp add: b_def gpt_backup_def h2_def)
  note sb = gpt_seal_valid [where crc = crc, OF h2 h(2), unfolded l2, OF h(3), folded b]
  have f2: "field64 h2 24 = lst" "field64 h2 32 = 1" "field64 h2 72 = array"
    using h lp unfolding h2_def field64_def by (simp_all add: slice_overwrite_other slice_overwrite_same)
  show "gpt_valid crc b" "length b = length h" using sb l2 by simp_all
  show "field64 b 24 = lst" "field64 b 32 = 1" "field64 b 48 = usable" "field64 b 72 = array" "field32 b 88 = field32 h 88"
    using sb(3) o2 f2 fp by (simp_all add: field64_def field32_def)
qed

lemma overwrite_chunk:
  "fst q + snd q \<le> i \<or> i + length ys \<le> fst q \<Longrightarrow> i + length ys \<le> length data \<Longrightarrow>
   chunk_bytes (overwrite i ys data) q = chunk_bytes data q"
  unfolding chunk_bytes_def by (rule slice_overwrite_other) auto

text \<open>The three writes of \<open>regenerate_gpt\<close>, in numbers: \<open>B\<close> is the block size, \<open>k\<close> the last block, \<open>m\<close> the
  number of blocks of the partition array.\<close>

definition gpt_written :: "(bytes \<Rightarrow> u32) \<Rightarrow> nat \<Rightarrow> nat \<Rightarrow> nat \<Rightarrow> bytes \<Rightarrow> bytes \<Rightarrow> bool" where
  "gpt_written crc B k m old data \<longleftrightarrow>
     (let h = chunk_bytes old (B, B); p = chunk_bytes data (B, B); b = chunk_bytes data (k * B, B);
          array = chunk_bytes old (unat (field64 h 72 * word_of_nat B), m * B) in
      gpt_valid crc h \<and> gpt_valid crc p \<and> gpt_valid crc b
      \<and> field64 p 32 = word_of_nat k \<and> field64 p 48 = word_of_nat (k - m - 1) \<and> field64 p 72 = field64 h 72
      \<and> field64 b 24 = word_of_nat k \<and> field64 b 32 = 1 \<and> field64 b 48 = word_of_nat (k - m - 1) \<and> field64 b 72 = word_of_nat (k - m)
      \<and> field64 h 48 \<le> word_of_nat (k - m - 1)
      \<and> chunk_bytes data ((k - m) * B, m * B) = array
      \<and> crc (take (unat (ucast (field32 h 80) * ucast (field32 h 84) :: u64)) array) = field32 p 88 \<and> field32 b 88 = field32 p 88
      \<and> length data = length old
      \<and> (\<forall>q. (fst q + snd q \<le> B \<or> 2 * B \<le> fst q) \<and> fst q + snd q \<le> (k - m) * B \<longrightarrow> chunk_bytes data q = chunk_bytes old q))"

lemma regenerate_gpt_steps:
  assumes "regenerate_gpt crc lb t = (Inr (), t')" "unat lb = B" "length (bt_data t) < 2 ^ 64" "0 < B"
  defines "h \<equiv> chunk_bytes (bt_data t) (B, B)" and "k \<equiv> length (bt_data t) div B - 1"
  obtains m where "gpt_valid crc h" "length h = B" "m \<le> k" "0 < m" "Suc k * B \<le> length (bt_data t)"
    "crc (take (unat (ucast (field32 h 80) * ucast (field32 h 84) :: u64)) (chunk_bytes (bt_data t) (unat (field64 h 72 * word_of_nat B), m * B)))
       = field32 h 88"
    "length (chunk_bytes (bt_data t) (unat (field64 h 72 * word_of_nat B), m * B)) = m * B"
    "\<not> word_of_nat (k - m) - 1 < field64 h 48"
    "bt_data t' = (let p = gpt_primary crc (unat (field32 h 12)) (word_of_nat k) (word_of_nat (k - m) - 1) h in
       overwrite B p (overwrite (k * B) (gpt_backup crc (unat (field32 h 12)) (word_of_nat k) (word_of_nat (k - m)) p)
         (overwrite ((k - m) * B) (chunk_bytes (bt_data t) (unat (field64 h 72 * word_of_nat B), m * B)) (bt_data t))))"
proof -
  define lbs :: u64 where "lbs = ucast lb"
  have B: "unat lbs = B" "lbs = word_of_nat B" using assms(2) by (simp add: lbs_def) (metis assms(2) lbs_def unat_ucast_u64(1) word_of_unat)
  obtain t1 where t1: "bt_buffered_handle t = (Inr (), t1)"
    and blocks: "bt_size_bytes t1 div lbs \<noteq> 0"
    and r1: "st_bind (bt_pread lbs (unat lbs) t1) (\<lambda>primary t.
        st_bind (gpt_check_header crc lbs primary, t) (\<lambda>g t.
        st_bind (bt_pread (gp_entries_lba g * lbs) (unat (gp_entries_blocks g * lbs)) t) (\<lambda>entries t.
          if crc (take (unat (gp_entries_bytes g)) entries) \<noteq> field32 primary 88
            then (Inl (Corrupt ''the partition array checksum does not match''), t)
          else if bt_size_bytes t1 div lbs - 1 < gp_entries_blocks g then (Inl (Corrupt ''the target is too small''), t)
          else (if bt_size_bytes t1 div lbs - 1 - gp_entries_blocks g - 1 < field64 primary 48 then (Inl (Corrupt ''the target is smaller than the restored table''), t)
            else (let primary = gpt_primary crc (gp_header_size g) (bt_size_bytes t1 div lbs - 1) (bt_size_bytes t1 div lbs - 1 - gp_entries_blocks g - 1) primary;
                      backup = gpt_backup crc (gp_header_size g) (bt_size_bytes t1 div lbs - 1) (bt_size_bytes t1 div lbs - 1 - gp_entries_blocks g) primary in
              st_bind (bt_pwrite (unat ((bt_size_bytes t1 div lbs - 1 - gp_entries_blocks g) * lbs)) entries t) (\<lambda>_ t.
              st_bind (bt_pwrite (unat ((bt_size_bytes t1 div lbs - 1) * lbs)) backup t) (\<lambda>_ t.
              st_bind (bt_pwrite (unat lbs) primary t) (\<lambda>_ t. bt_sync t)))))))) = (Inr (), t')"
    using assms(1) unfolding regenerate_gpt_def Let_def lbs_def [symmetric] by (auto simp: st_bind_Inr split: if_splits)
  have d1: "bt_data t1 = bt_data t" using target_calls(1) [of t t1] t1 by (simp add: bt_buffered_handle_def)
  obtain primary t2 where t2: "bt_pread lbs (unat lbs) t1 = (Inr primary, t2)" using r1 unfolding st_bind_Inr by blast
  note c2 = target_calls(2) [OF t2, unfolded d1]
  have pr: "primary = h" using c2 B(1) by (simp add: h_def chunk_bytes_def)
  obtain g where g: "gpt_check_header crc lbs h = Inr g" using r1 t2 pr by (auto simp: st_bind_Inr)
  obtain entries t3 where t3: "bt_pread (gp_entries_lba g * lbs) (unat (gp_entries_blocks g * lbs)) t2 = (Inr entries, t3)"
    using r1 t2 pr g by (auto simp: st_bind_Inr)
  note c3 = target_calls(2) [OF t3]
  define K M where "K = bt_size_bytes t1 div lbs - 1" and "M = gp_entries_blocks g"
  let ?p = "gpt_primary crc (gp_header_size g) K (K - M - 1) h" and ?a = "chunk_bytes (bt_data t) (unat (gp_entries_lba g * lbs), unat (M * lbs))"
  have a: "entries = ?a" "length ?a = unat (M * lbs)" using c3 c2 by (auto simp: chunk_bytes_def M_def min_def)
  from r1 t2 pr g t3 have last: "crc (take (unat (gp_entries_bytes g)) entries) = field32 h 88" "\<not> K < M" "\<not> K - M - 1 < field64 h 48"
    and writes: "st_bind (bt_pwrite (unat ((K - M) * lbs)) entries t3) (\<lambda>_ t.
              st_bind (bt_pwrite (unat (K * lbs)) (gpt_backup crc (gp_header_size g) K (K - M) ?p) t) (\<lambda>_ t.
              st_bind (bt_pwrite (unat lbs) ?p t) (\<lambda>_ t. bt_sync t))) = (Inr (), t')"
    unfolding K_def [symmetric] by (auto simp: M_def Let_def split: if_splits)
  obtain t4 t5 t6 where w: "bt_pwrite (unat ((K - M) * lbs)) entries t3 = (Inr (), t4)"
    "bt_pwrite (unat (K * lbs)) (gpt_backup crc (gp_header_size g) K (K - M) ?p) t4 = (Inr (), t5)"
    "bt_pwrite (unat lbs) ?p t5 = (Inr (), t6)" "bt_sync t6 = (Inr (), t')"
    using writes unfolding st_bind_Inr by auto
  have dat: "bt_data t' = overwrite B ?p (overwrite (unat (K * lbs)) (gpt_backup crc (gp_header_size g) K (K - M) ?p)
      (overwrite (unat ((K - M) * lbs)) entries (bt_data t)))"
    using target_calls(1) [OF w(4)] target_calls(3) [OF w(1)] target_calls(3) [OF w(2)] target_calls(3) [OF w(3)] c3 c2 B(1) by simp
  have sz: "unat (bt_size_bytes t1) = length (bt_data t)" using assms(3) d1 by (simp add: bt_size_bytes_def unat_of_nat_u64)
  have dv: "unat (bt_size_bytes t1 div lbs) = length (bt_data t) div B" using sz B(1) by (simp add: unat_div)
  have pos: "0 < length (bt_data t) div B" using blocks dv by (metis gr0I unat_eq_0)
  have uK: "unat K = k"
    unfolding K_def k_def using dv pos unat_minus_one [OF blocks] by simp
  have full: "Suc k * B \<le> length (bt_data t)" using pos by (simp add: k_def)
  have gg: "gpt_valid crc h" "gp_header_size g = unat (field32 h 12)" "gp_entries_lba g = field64 h 72"
    "gp_entries_bytes g = ucast (field32 h 80) * ucast (field32 h 84)" "gp_entries_bytes g \<noteq> 0" "M = div_ceil_u64 (gp_entries_bytes g) lbs"
    using g c2 B(1) unfolding gpt_check_header_def Let_def M_def
    by (auto simp: gpt_valid_def Let_def h_def chunk_bytes_def split: if_splits)
  have nz: "lbs \<noteq> 0" using B(1) assms(4) by auto
  have m0: "0 < unat M"
  proof -
    have "0 < unat (gp_entries_bytes g)" using gg(5) by (simp add: unat_gt_0)
    then show ?thesis
      using gg(6) unat_div_ceil_u64 [OF nz, of "gp_entries_bytes g"] B(1) assms(4) by (simp add: div_greater_zero_iff)
  qed
  have mk: "unat M \<le> k" using last(2) uK by (simp add: word_less_nat_alt)
  have kB: "k * B < 2 ^ 64" using full assms(3) by simp
  have uKM: "unat (K - M) = k - unat M" using mk uK by (subst unat_sub) (simp_all add: word_le_nat_alt)
  have mul: "unat (x * lbs) = unat x * B" if "unat x \<le> k" for x :: u64
  proof -
    have "unat x * B < 2 ^ 64" using that by (intro order_le_less_trans [OF mult_le_mono1 kB])
    then show ?thesis using unat_mult_u64 [of x lbs] B(1) by simp
  qed
  have wK: "K = word_of_nat k" "K - M = word_of_nat (k - unat M)" using uK uKM by (metis word_of_unat)+
  show ?thesis
  proof (rule that [of "unat M"])
    show "length h = B" using c2 B(1) by (auto simp: h_def chunk_bytes_def min_def)
    show "bt_data t' = (let p = gpt_primary crc (unat (field32 h 12)) (word_of_nat k) (word_of_nat (k - unat M) - 1) h in
       overwrite B p (overwrite (k * B) (gpt_backup crc (unat (field32 h 12)) (word_of_nat k) (word_of_nat (k - unat M)) p)
         (overwrite ((k - unat M) * B) (chunk_bytes (bt_data t) (unat (field64 h 72 * word_of_nat B), unat M * B)) (bt_data t))))"
      using dat mul [of K] mul [of "K - M"] mul [OF mk] uK uKM gg(2,3) B(2) a(1)
      unfolding wK [symmetric] Let_def by simp
    show "\<not> word_of_nat (k - unat M) - 1 < field64 h 48" using last(3) unfolding wK(2) .
  qed (use gg m0 mk full last(1) a mul [OF mk] B(2) in simp_all)
qed


section \<open>The whole restore\<close>

text \<open>What the manifest of an image says: its disk header, and every region with its entries.\<close>

definition disk_contents :: "prims \<Rightarrow> image_reader \<Rightarrow> bytes \<Rightarrow> superblock \<Rightarrow> (disk_header \<times> (region_record \<times> block_entry list) list) res" where
  "disk_contents P reader meta_key sb =
     res_bind (sb_aead_kind sb) (\<lambda>kind.
     res_bind (stream_reader P reader Manifest meta_key kind) (\<lambda>st.
     res_bind (disk_header_read (page_read_bytes P) st) (\<lambda>(d, st).
     res_bind (parse_disk (page_read_bytes P) sb (dh_regions d) st) (\<lambda>(ds, _). Inr (d, ds)))))"

lemma parse_disk_regions:
  "parse_disk rb sb rs st = Inr (ds, st') \<Longrightarrow> map fst ds = rs
     \<and> (\<forall>(r, es) \<in> set ds. rg_kind r \<noteq> Swap \<longrightarrow> length es = unat (div_ceil_u64 (rg_size_bytes r) (ucast (chunk_size sb))))"
proof (induction rs arbitrary: st ds)
  case (Cons r rs)
  then obtain es st1 ds' where e: "(if has_manifest r then parse_region rb sb r else rd_return []) st = Inr (es, st1)"
    "parse_disk rb sb rs st1 = Inr (ds', st')" "ds = (r, es) # ds'"
    by (auto simp: rd_Inr simp del: if_split)
  have "length es = unat (div_ceil_u64 (rg_size_bytes r) (ucast (chunk_size sb)))" if "rg_kind r \<noteq> Swap"
    using e(1) that by (auto simp: parse_region_def rd_Inr has_manifest_def kind_has_manifest_def region_chunk_count_def
        split: prod.splits if_splits dest: read_list_length)
  then show ?case using Cons.IH [OF e(2)] e(3) by auto
qed (simp add: rd_Inr)

lemma whole_disk_contents:
  "whole_disk P reader meta_key sb = Inr summary \<Longrightarrow>
   \<exists>d ds. disk_contents P reader meta_key sb = Inr (d, ds) \<and> disk_validate d = Inr ()
     \<and> validate_geometry d (source_size_bytes sb) (logical_block_size sb) = Inr () \<and> summary = count_disk sb ds summary_default"
  unfolding whole_disk_def disk_contents_def plan_manifest_def manifest_regions_def
  by (fastforce simp: res_bind_eq_Inr rd_Inr plan_regions_parse split: if_splits)

definition restore_job :: "image_keys \<Rightarrow> chunk_reader \<Rightarrow> aead_kind \<Rightarrow> (u32 \<Rightarrow> 'r \<Rightarrow> 'r) \<Rightarrow> (u64 \<Rightarrow> 'r \<Rightarrow> unit res \<times> 'r) \<Rightarrow> 'r disk_job" where
  "restore_job keys chunks kind phase report = \<lparr> dj_keys = keys, dj_chunks = chunks, dj_kind = kind, dj_phase = phase, dj_report = report \<rparr>"

definition swap_regions_ok :: "disk_header \<Rightarrow> bool" where
  "swap_regions_ok d \<longleftrightarrow> (\<forall>r \<in> set (dh_regions d). rg_kind r = Swap \<longrightarrow> swap_header_bytes \<le> unat (rg_size_bytes r))"

lemma on_target_Inr: "on_target f v = (Inr x, v') \<longleftrightarrow> (\<exists>t. f (re_target v) = (Inr x, t) \<and> v' = v\<lparr> re_target := t \<rparr>)"
  by (auto simp: on_target_def split: prod.splits)

lemma disk_restore_fits:
  assumes "length (target_bytes v) < 2 ^ 64" "chunk_size sb \<noteq> 0" "disk_validate d = Inr ()"
    and "validate_geometry d (source_size_bytes sb) (logical_block_size sb) = Inr ()" "map fst ds = dh_regions d"
    and "\<not> bt_size_bytes (re_target v) < source_size_bytes sb"
    and "\<forall>(r, es) \<in> set ds. rg_kind r \<noteq> Swap \<longrightarrow> length es = unat (div_ceil_u64 (rg_size_bytes r) (ucast (chunk_size sb)))"
    and "swap_regions_ok d"
  shows "disk_fits sb (target_bytes v) ds"
    "sorted_wrt (\<lambda>d d'. region_end (logical_block_size sb) (fst d) \<le> region_start (logical_block_size sb) (fst d')) ds"
proof -
  have g: "dh_disk_size d = source_size_bytes sb" "dh_logical_block_size d = logical_block_size sb"
    using assms(4) by (simp_all add: validate_geometry_def res_bind_eq_Inr)
  have sz: "unat (source_size_bytes sb) \<le> length (target_bytes v)"
    using assms(1,6) by (simp add: bt_size_bytes_def word_less_nat_alt unat_of_nat_u64)
  note va = assms(3) [unfolded disk_validate_iff g]
  have mem: "r \<in> set (dh_regions d)" if "(r, es) \<in> set ds" for r es using that assms(5) by (metis fst_conv image_eqI list.set_map)
  have "region_end (logical_block_size sb) r \<le> length (target_bytes v)" if "(r, es) \<in> set ds" for r es
    using va mem [OF that] sz by (metis order_trans)
  then show "disk_fits sb (target_bytes v) ds"
    using assms(1,2,7,8) mem by (fastforce simp: disk_fits_def swap_regions_ok_def)
  have "sorted_wrt (\<lambda>r r'. region_end (logical_block_size sb) r \<le> region_start (logical_block_size sb) r') (map fst ds)"
    using va assms(5) by simp
  then show "sorted_wrt (\<lambda>d d'. region_end (logical_block_size sb) (fst d) \<le> region_start (logical_block_size sb) (fst d')) ds"
    by (simp add: sorted_wrt_map)
qed

lemma restore_plan_refused:
  assumes "\<forall>summary. whole_disk P reader (ik_meta_key keys) sb = Inr summary \<longrightarrow> refuse_bad_sectors summary \<noteq> Inr ()"
  shows "\<exists>e. restore_whole_disk P crc reader chunks keys sb phase report v = (Inl e, v)"
proof (cases "sb_aead_kind sb")
  case (Inr kind)
  show ?thesis
  proof (cases "whole_disk P reader (ik_meta_key keys) sb")
    case (Inr summary)
    then obtain e where "refuse_bad_sectors summary = Inl e" using assms by (cases "refuse_bad_sectors summary") auto
    then show ?thesis using Inr \<open>sb_aead_kind sb = Inr kind\<close> by (simp add: restore_whole_disk_def)
  qed (simp add: restore_whole_disk_def Inr)
qed (simp add: restore_whole_disk_def)

lemma restore_whole_disk_steps:
  assumes "restore_whole_disk P crc reader chunks keys sb phase report v = (Inr (), v')"
  obtains kind d ds v1 where "sb_aead_kind sb = Inr kind" "disk_contents P reader (ik_meta_key keys) sb = Inr (d, ds)" "disk_validate d = Inr ()"
    "validate_geometry d (source_size_bytes sb) (logical_block_size sb) = Inr ()" "map fst ds = dh_regions d"
    "\<not> bt_size_bytes (re_target v) < source_size_bytes sb"
    "\<forall>(r, es) \<in> set ds. rg_kind r \<noteq> Swap \<longrightarrow> length es = unat (div_ceil_u64 (rg_size_bytes r) (ucast (chunk_size sb)))"
    "write_disk P (restore_job keys chunks kind phase report) sb ds v = (Inr (), v1)"
    "if dh_pt_type d = PtGpt then \<exists>t t'. regenerate_gpt crc (logical_block_size sb) t = (Inr (), t') \<and> bt_data t = target_bytes v1 \<and> bt_data t' = target_bytes v'
     else target_bytes v' = target_bytes v1"
proof -
  obtain kind summary st d st1 st2 v1 v2 where s: "sb_aead_kind sb = Inr kind" "\<not> bt_size_bytes (re_target v) < source_size_bytes sb"
    "whole_disk P reader (ik_meta_key keys) sb = Inr summary" "stream_reader P reader Manifest (ik_meta_key keys) kind = Inr st"
    "disk_header_read (page_read_bytes P) st = Inr (d, st1)"
    "restore_regions P (restore_job keys chunks kind phase report) (page_read_bytes P) sb (dh_regions d) st1 v = (Inr st2, v1)"
    "(if dh_pt_type d = PtGpt then st_bind (on_target bt_sync v1) (\<lambda>_ v. on_target (regenerate_gpt crc (logical_block_size sb)) v)
      else (Inr (), v1)) = (Inr (), v2)" "on_target bt_sync v2 = (Inr (), v')"
  proof -
    define G where "G d w = (if dh_pt_type d = PtGpt then st_bind (on_target bt_sync w) (\<lambda>_ v. on_target (regenerate_gpt crc (logical_block_size sb)) v)
      else (Inr (), w))" for d :: disk_header and w :: "'a restore_state"
    have sz: "\<not> bt_size_bytes (re_target v) < source_size_bytes sb"
      using assms by (auto simp: restore_whole_disk_def st_bind_Inr)
    obtain kind where "sb_aead_kind sb = Inr kind"
      and r: "st_bind (whole_disk P reader (ik_meta_key keys) sb, v) (\<lambda>summary v.
         st_bind (refuse_bad_sectors summary, v) (\<lambda>_ v.
         st_bind (stream_reader P reader Manifest (ik_meta_key keys) kind, v) (\<lambda>st v.
         st_bind (disk_header_read (page_read_bytes P) st, v) (\<lambda>(disk, st) v.
         st_bind (disk_validate disk, v) (\<lambda>_ v.
         st_bind (restore_regions P (restore_job keys chunks kind phase report) (page_read_bytes P) sb (dh_regions disk) st v) (\<lambda>_ v.
         st_bind (G disk v) (\<lambda>_ v. on_target bt_sync v))))))) = (Inr (), v')"
      using assms sz unfolding restore_whole_disk_def restore_job_def [symmetric] G_def [symmetric] by (auto simp: st_bind_Inr)
    moreover from r obtain summary st d st1 st2 v1 v2 where "whole_disk P reader (ik_meta_key keys) sb = Inr summary"
      "stream_reader P reader Manifest (ik_meta_key keys) kind = Inr st" "disk_header_read (page_read_bytes P) st = Inr (d, st1)"
      "restore_regions P (restore_job keys chunks kind phase report) (page_read_bytes P) sb (dh_regions d) st1 v = (Inr st2, v1)"
      "G d v1 = (Inr (), v2)" "on_target bt_sync v2 = (Inr (), v')"
      by (auto simp: st_bind_Inr)
    ultimately show ?thesis using that sz unfolding G_def by blast
  qed
  obtain d' ds where c: "disk_contents P reader (ik_meta_key keys) sb = Inr (d', ds)" "disk_validate d' = Inr ()"
    "validate_geometry d' (source_size_bytes sb) (logical_block_size sb) = Inr ()"
    using whole_disk_contents [OF s(3)] by blast
  have d': "d' = d" and p: "\<exists>st3. parse_disk (page_read_bytes P) sb (dh_regions d) st1 = Inr (ds, st3)"
    using c(1) s(1,4,5) by (auto simp: disk_contents_def res_bind_eq_Inr)
  obtain st3 where p: "parse_disk (page_read_bytes P) sb (dh_regions d) st1 = Inr (ds, st3)" using p by blast
  have w: "write_disk P (restore_job keys chunks kind phase report) sb ds v = (Inr (), v1)"
    using s(6) unfolding restore_regions_parse [OF p] restored_at_def
    by (cases "write_disk P (restore_job keys chunks kind phase report) sb ds v"; cases "fst (write_disk P (restore_job keys chunks kind phase report) sb ds v)") auto
  have sync: "target_bytes v' = target_bytes v2" using s(8) target_calls(1) by (auto simp: on_target_Inr)
  have "if dh_pt_type d = PtGpt then \<exists>t t'. regenerate_gpt crc (logical_block_size sb) t = (Inr (), t') \<and> bt_data t = target_bytes v1 \<and> bt_data t' = target_bytes v'
     else target_bytes v' = target_bytes v1"
  proof (cases "dh_pt_type d = PtGpt")
    case True
    obtain t1 t2 where "bt_sync (re_target v1) = (Inr (), t1)" "regenerate_gpt crc (logical_block_size sb) t1 = (Inr (), t2)" "re_target v2 = t2"
      using s(7) True by (auto simp: st_bind_Inr on_target_Inr)
    then show ?thesis using True sync target_calls(1) [of "re_target v1" t1] by auto
  next
    case False
    then show ?thesis using s(7) sync by simp
  qed
  then show ?thesis using that [OF s(1) c [unfolded d'] _ s(2) _ w] parse_disk_regions [OF p] by blast
qed

section \<open>A restore without faults completes\<close>

definition entry_restorable :: "prims \<Rightarrow> 'r disk_job \<Rightarrow> nat \<Rightarrow> block_entry \<Rightarrow> bool" where
  "entry_restorable P job len e \<longleftrightarrow> be_state e = state_stored \<and> (\<exists>b. entry_plaintext P job len e = Inr b \<and> length b = len)
     \<or> be_state e = state_zero \<or> be_state e = state_unused"

definition region_restorable :: "prims \<Rightarrow> 'r disk_job \<Rightarrow> superblock \<Rightarrow> region_record \<times> block_entry list \<Rightarrow> bool" where
  "region_restorable P job sb d \<longleftrightarrow>
     (if rg_kind (fst d) = Swap then length (rg_swap_header (fst d)) = swap_header_bytes
      else \<forall>i < length (snd d). entry_restorable P job (min (unat (chunk_size sb)) (unat (rg_size_bytes (fst d)) - i * unat (chunk_size sb))) (snd d ! i))"

abbreviation quiet_job :: "'r disk_job \<Rightarrow> bool" where
  "quiet_job job \<equiv> \<forall>off rep. fst (dj_report job off rep) = Inr ()"

lemma restore_entry_runs:
  fixes size_bytes csz :: u64
  assumes "csz \<noteq> 0" "i < unat (div_ceil_u64 size_bytes csz)" "unat start + unat size_bytes \<le> length (target_bytes v)" "length (target_bytes v) < 2 ^ 64"
    and "bt_faults (re_target v) = []" "entry_restorable P job (min (unat csz) (unat size_bytes - i * unat csz)) e"
  shows "\<exists>v'. restore_entry P job start size_bytes csz (word_of_nat i) e v = (Inr (), v') \<and> bt_faults (re_target v') = []"
proof -
  note w = entry_words [OF assms(1,2)]
  define off len where "off = start + word_of_nat i * csz" and "len = min (unat csz) (unat size_bytes - i * unat csz)"
  have o: "unat off + len \<le> length (target_bytes v)" "len \<le> unat csz"
    unfolding off_def len_def using w(1,2) assms(3,4) by (subst unat_add_u64) simp_all
  have run: "\<exists>v'. restore_write (unat csz) off bs len v = (Inr (), v') \<and> bt_faults (re_target v') = []" if "length bs = len \<or> bs = []" for bs
  proof -
    obtain z v1 where "restore_write (unat csz) off bs len v = (z, v1)" by fastforce
    from this restore_write_outcome(3) [OF this o(1) assms(4) o(2) that assms(5)] show ?thesis by auto
  qed
  have "be_state e = state_stored \<and> (\<exists>b. entry_plaintext P job len e = Inr b \<and> length b = len) \<or> be_state e = state_zero \<or> be_state e = state_unused"
    using assms(6) unfolding entry_restorable_def len_def .
  then consider b where "be_state e = state_stored" "entry_plaintext P job len e = Inr b" "length b = len"
    | "be_state e = state_zero" | "be_state e = state_unused" by blast
  then show ?thesis
  proof cases
    case (1 b)
    then show ?thesis using run [of b]
      unfolding restore_entry_def Let_def w(3) len_def [symmetric] off_def [symmetric] by (auto simp: state_stored_def)
  next
    case 2
    then show ?thesis using run [of "[]"]
      unfolding restore_entry_def Let_def w(3) len_def [symmetric] off_def [symmetric] by (auto simp: state_stored_def state_zero_def)
  next
    case 3
    then show ?thesis using assms(5) by (simp add: restore_entry_def Let_def state_stored_def state_zero_def state_unused_def)
  qed
qed

lemma write_disk_entries_runs:
  fixes size_bytes csz :: u64
  assumes "csz \<noteq> 0" "i + length es \<le> unat (div_ceil_u64 size_bytes csz)" "unat start + unat size_bytes \<le> length (target_bytes v)"
    and "length (target_bytes v) < 2 ^ 64" "bt_faults (re_target v) = []"
    and "\<forall>j < length es. entry_restorable P job (min (unat csz) (unat size_bytes - (i + j) * unat csz)) (es ! j)"
  shows "\<exists>v'. write_disk_entries P job start size_bytes csz (word_of_nat i) es v = (Inr (), v') \<and> bt_faults (re_target v') = []"
  using assms(2-6)
proof (induction es arbitrary: i v)
  case (Cons e es)
  have i: "i < unat (div_ceil_u64 size_bytes csz)" using Cons.prems(1) by simp
  have "entry_restorable P job (min (unat csz) (unat size_bytes - i * unat csz)) e" using Cons.prems(5) by auto
  from restore_entry_runs [OF assms(1) i Cons.prems(2-4) this]
  obtain v1 where v1: "restore_entry P job start size_bytes csz (word_of_nat i) e v = (Inr (), v1)" "bt_faults (re_target v1) = []" by blast
  have len: "length (target_bytes v1) = length (target_bytes v)"
    using restore_entry_outcome(2) [OF v1(1) assms(1) i Cons.prems(2,3)] by (simp add: touches_only_def)
  have "\<forall>j < length es. entry_restorable P job (min (unat csz) (unat size_bytes - (Suc i + j) * unat csz)) (es ! j)"
    using Cons.prems(5) by (metis add_Suc_shift length_Cons not_less_eq nth_Cons_Suc)
  then have "\<exists>v'. write_disk_entries P job start size_bytes csz (word_of_nat (Suc i)) es v1 = (Inr (), v') \<and> bt_faults (re_target v') = []"
    using Cons.prems(1-3) v1(2) len by (intro Cons.IH) simp_all
  moreover have "(word_of_nat i :: u64) + 1 = word_of_nat (Suc i)" by simp
  ultimately show ?case using v1(1) by (simp del: of_nat_Suc)
qed simp

lemma write_region_runs:
  assumes "disk_fits sb (target_bytes v) [d]" "bt_faults (re_target v) = []" "quiet_job job" "region_restorable P job sb d"
  shows "\<exists>v'. write_region P job sb d v = (Inr (), v') \<and> bt_faults (re_target v') = []"
proof -
  obtain r es where d: "d = (r, es)" by fastforce
  let ?lbs = "logical_block_size sb" and ?c = "ucast (chunk_size sb) :: u64"
  have f: "length (target_bytes v) < 2 ^ 64" "chunk_size sb \<noteq> 0" "region_end ?lbs r \<le> length (target_bytes v)"
    using assms(1) by (simp_all add: disk_fits_def d)
  have st: "unat (rg_start_lba r * ucast ?lbs) = region_start ?lbs r" using f by (intro region_word) simp
  have c: "?c \<noteq> 0" "unat ?c = unat (chunk_size sb)"
    using ucast_nonzero [of "chunk_size sb"] f(2) by (simp_all add: unsigned_eq_0_iff neq0_conv [symmetric] del: neq0_conv)
  define v0 where "v0 = v\<lparr> re_reporter := dj_phase job (rg_index r) (re_reporter v) \<rparr>"
  obtain rep where rep: "dj_report job (rg_start_lba r * ucast ?lbs) (re_reporter v0) = (Inr (), rep)"
    using assms(3) by (metis prod.collapse)
  define v1 where "v1 = v0\<lparr> re_reporter := rep \<rparr>"
  have t: "re_target v1 = re_target v" by (simp add: v1_def v0_def)
  have run: "write_region P job sb d v = (if rg_kind r = Swap then on_target (write_swap r (ucast ?lbs)) v1
         else write_disk_entries P job (rg_start_lba r * ucast ?lbs) (rg_size_bytes r) ?c 0 es v1)"
    using rep unfolding write_region_def d fst_conv snd_conv Let_def v0_def [symmetric] v1_def by simp
  show ?thesis
  proof (cases "rg_kind r = Swap")
    case True
    have h: "length (rg_swap_header r) = swap_header_bytes" "swap_header_bytes \<le> unat (rg_size_bytes r)"
      using assms(1,4) True by (simp_all add: region_restorable_def disk_fits_def d)
    obtain z1 t1 where w: "write_at (rg_start_lba r * ucast ?lbs) (rg_swap_header r) (bt_alignment (re_target v)) swap_header_bytes (re_target v) = (z1, t1)"
      by fastforce
    have "z1 = Inr () \<and> bt_faults t1 = []"
      using write_at_outcome(3) [OF w] f h st assms(2) by (simp add: region_end_def)
    then show ?thesis using run True w h(1) t by (simp add: on_target_def write_swap_def)
  next
    case False
    have "\<exists>v'. write_disk_entries P job (rg_start_lba r * ucast ?lbs) (rg_size_bytes r) ?c (word_of_nat 0) es v1 = (Inr (), v') \<and> bt_faults (re_target v') = []"
      by (rule write_disk_entries_runs) (use assms False f st c t in \<open>simp_all add: disk_fits_def d region_end_def region_restorable_def\<close>)
    then show ?thesis using run False by simp
  qed
qed

lemma write_disk_runs:
  assumes "disk_fits sb (target_bytes v) ds" "bt_faults (re_target v) = []" "quiet_job job" "\<forall>d \<in> set ds. region_restorable P job sb d"
  shows "\<exists>v'. write_disk P job sb ds v = (Inr (), v') \<and> bt_faults (re_target v') = []"
  using assms
proof (induction ds arbitrary: v)
  case (Cons d ds)
  have fd: "disk_fits sb (target_bytes v) [d]" using Cons.prems(1) by (simp add: disk_fits_def)
  from write_region_runs [OF this Cons.prems(2,3)] Cons.prems(4)
  obtain v1 where v1: "write_region P job sb d v = (Inr (), v1)" "bt_faults (re_target v1) = []" by auto
  have "length (target_bytes v1) = length (target_bytes v)" using write_region_outcome [OF v1(1) fd] by (simp add: touches_only_def)
  then have "disk_fits sb (target_bytes v1) ds" using Cons.prems(1) by (simp add: disk_fits_def)
  from Cons.IH [OF this v1(2) Cons.prems(3)] Cons.prems(4) show ?case using v1(1) by auto
qed simp

lemma restore_whole_disk_runs:
  assumes "sb_aead_kind sb = Inr kind" "disk_contents P reader (ik_meta_key keys) sb = Inr (d, ds)"
    "whole_disk P reader (ik_meta_key keys) sb = Inr summary" "refuse_bad_sectors summary = Inr ()" "disk_validate d = Inr ()"
    and "\<not> bt_size_bytes (re_target v) < source_size_bytes sb" "disk_fits sb (target_bytes v) ds" "bt_faults (re_target v) = []"
    and "\<forall>off rep. fst (report off rep) = Inr ()" "\<forall>d \<in> set ds. region_restorable P (restore_job keys chunks kind phase report) sb d"
    and "dh_pt_type d \<noteq> PtGpt"
  shows "\<exists>v'. restore_whole_disk P crc reader chunks keys sb phase report v = (Inr (), v')"
proof -
  obtain st st1 st2 where st: "stream_reader P reader Manifest (ik_meta_key keys) kind = Inr st"
    "disk_header_read (page_read_bytes P) st = Inr (d, st1)" "parse_disk (page_read_bytes P) sb (dh_regions d) st1 = Inr (ds, st2)"
    using assms(1,2) by (auto simp: disk_contents_def res_bind_eq_Inr)
  obtain v1 where v1: "write_disk P (restore_job keys chunks kind phase report) sb ds v = (Inr (), v1)" "bt_faults (re_target v1) = []"
    using write_disk_runs [OF assms(7,8) _ assms(10)] assms(9) by (auto simp: restore_job_def)
  have "\<exists>v'. on_target bt_sync v1 = (Inr (), v')" using v1(2) by (simp add: on_target_def bt_sync_def)
  then show ?thesis
    using assms(1,3-6,11) st(1,2) v1(1) restore_regions_parse [OF st(3), of P "restore_job keys chunks kind phase report" v]
    unfolding restore_whole_disk_def restore_job_def [symmetric] by (simp add: restored_at_def)
qed

section \<open>The manifest a backup writes\<close>

text \<open>The manifest of a region as \<open>backup_whole_disk_with_layout\<close> spools it: its header, then one entry per chunk.\<close>

definition region_manifest :: "superblock \<Rightarrow> region_record \<times> block_entry list \<Rightarrow> bytes res" where
  "region_manifest sb d =
     (if has_manifest (fst d) then
        res_bind (region_manifest_header (fst d) (chunk_size sb)) (\<lambda>h.
        res_bind (block_header_write h False) (\<lambda>hb. Inr (hb @ concat (map entry_layout (snd d)))))
      else Inr [])"

fun region_manifests :: "superblock \<Rightarrow> (region_record \<times> block_entry list) list \<Rightarrow> bytes res" where
  "region_manifests sb [] = Inr []"
| "region_manifests sb (d # ds) = res_bind (region_manifest sb d) (\<lambda>b. res_bind (region_manifests sb ds) (\<lambda>bs. Inr (b @ bs)))"

definition disk_manifest_ok :: "superblock \<Rightarrow> disk_header \<Rightarrow> (region_record \<times> block_entry list) list \<Rightarrow> bool" where
  "disk_manifest_ok sb d ds \<longleftrightarrow> disk_header_wf d \<and> disk_validate d = Inr () \<and> map fst ds = dh_regions d
     \<and> validate_geometry d (source_size_bytes sb) (logical_block_size sb) = Inr ()
     \<and> (\<forall>(r, es) \<in> set ds. (\<forall>e \<in> set es. entry_wf e)
          \<and> (if has_manifest r then length es = unat (div_ceil_u64 (rg_size_bytes r) (ucast (chunk_size sb))) else es = []))"

context byte_source
begin

lemma region_manifest_decodes:
  assumes "region_wf r" "\<forall>e \<in> set es. entry_wf e" "length es = unat (div_ceil_u64 (rg_size_bytes r) (ucast (chunk_size sb)))"
    and "has_manifest r" "region_manifest sb (r, es) = Inr bs"
  shows "decodes rem ok (parse_region rb sb r) bs es"
proof -
  obtain h hb where h: "region_manifest_header r (chunk_size sb) = Inr h" "block_header_write h False = Inr hb"
    "bs = hb @ concat (map entry_layout es)"
    using assms(4,5) by (auto simp: region_manifest_def res_bind_eq_Inr)
  have nz: "ucast (chunk_size sb) \<noteq> (0 :: u64)"
    and f: "bm_chunk_size h = chunk_size sb" "bm_chunk_count h = div_ceil_u64 (rg_size_bytes r) (ucast (chunk_size sb))"
      "bm_entry_count h = div_ceil_u64 (rg_size_bytes r) (ucast (chunk_size sb))" "block_header_wf h"
    using h(1) assms(1) by (auto simp: region_manifest_header_def region_chunk_count_def block_header_wf_def region_wf_def split: if_splits)
  have cc: "region_chunk_count r (ucast (chunk_size sb)) = Inr (div_ceil_u64 (rg_size_bytes r) (ucast (chunk_size sb)))"
    using nz by (simp add: region_chunk_count_def)
  have es: "decodes rem ok (read_list (length es) (entry_read rb)) (concat (map entry_layout es)) es"
    using assms(2) by (intro decodes_list entry_decodes) simp
  show ?thesis
    unfolding h(3) parse_region_def
    apply (rule decodes_bind [OF block_header_decodes [OF f(4) h(2)]])
    apply (simp only: prod.case)
    apply (rule decodes_bind_lift [where x = "()"], simp add: f(1))
    apply (rule decodes_bind_lift, rule cc)
    apply (rule decodes_bind_lift [where x = "()"], simp add: f(2,3))
    using es assms(3) by simp
qed

lemma region_manifests_decodes:
  assumes "\<forall>(r, es) \<in> set ds. region_wf r \<and> (\<forall>e \<in> set es. entry_wf e)
      \<and> (if has_manifest r then length es = unat (div_ceil_u64 (rg_size_bytes r) (ucast (chunk_size sb))) else es = [])"
    and "region_manifests sb ds = Inr bs"
  shows "decodes rem ok (parse_disk rb sb (map fst ds)) bs ds"
  using assms
proof (induction ds arbitrary: bs)
  case (Cons d ds)
  obtain r es where d: "d = (r, es)" by fastforce
  obtain b1 b2 where b: "region_manifest sb d = Inr b1" "region_manifests sb ds = Inr b2" "bs = b1 @ b2"
    using Cons.prems(2) by (auto simp: res_bind_eq_Inr)
  have one: "decodes rem ok (if has_manifest r then parse_region rb sb r else rd_return []) b1 es"
  proof (cases "has_manifest r")
    case True
    then show ?thesis using Cons.prems(1) b(1) by (simp add: d region_manifest_decodes)
  next
    case False
    then show ?thesis using Cons.prems(1) b(1) by (simp add: d region_manifest_def decodes_return)
  qed
  have "decodes rem ok (parse_disk rb sb (map fst ds)) b2 ds" using Cons b(2) by simp
  from decodes_bind_last [OF this decodes_return] show ?case
    unfolding b(3) list.map parse_disk.simps d fst_conv by (rule decodes_bind [OF one])
qed (simp add: decodes_return)

end

lemma disk_contents_written:
  assumes "disk_manifest_ok sb d ds" "disk_header_write d = Inr hb" "region_manifests sb ds = Inr mb"
    and "sb_aead_kind sb = Inr kind" "stream_reader P reader Manifest meta_key kind = Inr st" "pages_ok P st" "page_remaining P st = hb @ mb"
  shows "disk_contents P reader meta_key sb = Inr (d, ds)" "whole_disk P reader meta_key sb = Inr (count_disk sb ds summary_default)"
proof -
  note m = assms(1) [unfolded disk_manifest_ok_def]
  obtain st1 where s1: "disk_header_read (page_read_bytes P) st = Inr (d, st1)" "page_remaining P st1 = mb" "pages_ok P st1"
    using decodesD [OF page_src.disk_header_decodes [OF _ assms(2)] assms(6,7)] m by blast
  have "\<forall>(r, es) \<in> set ds. region_wf r \<and> (\<forall>e \<in> set es. entry_wf e)
      \<and> (if has_manifest r then length es = unat (div_ceil_u64 (rg_size_bytes r) (ucast (chunk_size sb))) else es = [])"
  proof -
    have wf: "\<forall>r \<in> set (map fst ds). region_wf r" using m unfolding disk_header_wf_def by simp
    show ?thesis
    proof (rule ballI)
      fix x
      assume x: "x \<in> set ds"
      then have "region_wf (fst x)" using wf by simp
      moreover have "case x of (r, es) \<Rightarrow> (\<forall>e \<in> set es. entry_wf e)
          \<and> (if has_manifest r then length es = unat (div_ceil_u64 (rg_size_bytes r) (ucast (chunk_size sb))) else es = [])"
        using m x by blast
      ultimately show "case x of (r, es) \<Rightarrow> region_wf r \<and> (\<forall>e \<in> set es. entry_wf e)
          \<and> (if has_manifest r then length es = unat (div_ceil_u64 (rg_size_bytes r) (ucast (chunk_size sb))) else es = [])"
        by (simp only: case_prod_beta)
    qed
  qed
  from decodesD [OF page_src.region_manifests_decodes [OF this assms(3)] s1(3), of "[]"] s1(2) m
  obtain st2 where s2: "parse_disk (page_read_bytes P) sb (dh_regions d) st1 = Inr (ds, st2)" "page_remaining P st2 = []" "pages_ok P st2"
    by auto
  show "disk_contents P reader meta_key sb = Inr (d, ds)"
    using assms(4,5) s1(1) s2(1) by (simp add: disk_contents_def)
  have "\<not> is_ok (reader_u8 (page_read_bytes P) st2)"
    using page_read_spec [OF s2(3), of 1] s2(2) by (auto simp: read_spec_def reader_u8_def rd_bind_def)
  moreover have "plan_regions (page_read_bytes P) sb (filter has_manifest (dh_regions d)) summary_default st1 = Inr (count_disk sb ds summary_default, st2)"
    unfolding plan_regions_parse using s2(1) by blast
  moreover have "disk_validate d = Inr ()" "validate_geometry d (source_size_bytes sb) (logical_block_size sb) = Inr ()" using m by blast+
  ultimately show "whole_disk P reader meta_key sb = Inr (count_disk sb ds summary_default)"
    using assms(4,5) s1(1) by (simp add: whole_disk_def plan_manifest_def rd_bind_def rd_lift_def manifest_regions_def)
qed

section \<open>Properties\<close>


section \<open>Examples\<close>

definition demo_gpt_header :: bytes where
  "demo_gpt_header = efi_part @ [0, 0, 1, 0] @ u32_to_le_bytes 92 @ replicate 8 0 @ u64_to_le_bytes 1 @ replicate 40 0
     @ u64_to_le_bytes 2 @ u32_to_le_bytes 4 @ u32_to_le_bytes 128 @ replicate 424 0"

definition demo_gpt :: block_target where
  "demo_gpt = \<lparr> bt_data = replicate 512 9 @ demo_gpt_header @ replicate 512 5 @ replicate 2560 7, bt_alignment = 512,
     bt_direct = False, bt_faults = [] \<rparr>"

lemma demo_gpt_fields:
  "length demo_gpt_header = 512" "take 8 demo_gpt_header = efi_part" "field32 demo_gpt_header 12 = 92" "field32 demo_gpt_header 16 = 0"
  "field64 demo_gpt_header 48 = 0" "field64 demo_gpt_header 72 = 2" "field32 demo_gpt_header 80 = 4" "field32 demo_gpt_header 84 = 128"
  "field32 demo_gpt_header 88 = 0"
  by code_simp+

lemma demo_gpt_runs: "\<exists>t'. regenerate_gpt (\<lambda>_. 0) 512 demo_gpt = (Inr (), t')"
proof -
  have h: "slice 512 1024 (bt_data demo_gpt) = demo_gpt_header" and l: "length (bt_data demo_gpt) = 4096"
    using demo_gpt_fields(1) by (simp_all add: demo_gpt_def slice_def)
  have c: "gpt_check_header (\<lambda>_. 0) 512 demo_gpt_header = Inr \<lparr> gp_header_size = 92, gp_entries_bytes = 512, gp_entries_blocks = 1, gp_entries_lba = 2 \<rparr>"
    using demo_gpt_fields by (simp add: gpt_check_header_def Let_def div_ceil_u64_def)
  have f: "bt_faults demo_gpt = []" by (simp add: demo_gpt_def)
  show ?thesis
    using h l c f demo_gpt_fields
    by (simp add: regenerate_gpt_def Let_def bt_buffered_handle_def bt_sync_def bt_pread_def bt_pwrite_def bt_size_bytes_def)
qed


definition demo_disk_sb :: superblock where
  "demo_disk_sb = demo_sb\<lparr> source_size_bytes := 1048576 \<rparr>"

definition demo_zero_disk :: disk_header where
  "demo_zero_disk = \<lparr> dh_disk_size = 1048576, dh_logical_block_size = 512, dh_pt_type = PtMbr, dh_serial_wwid = [], dh_pt_raw = [],
     dh_regions = [region_new Leading 0 0 1048576] \<rparr>"

abbreviation demo_zero_regions :: "(region_record \<times> block_entry list) list" where
  "demo_zero_regions \<equiv> [(region_new Leading 0 0 1048576, [entry_zero])]"

lemma demo_disk_sb_ok: "sb_wf demo_disk_sb" "validate_header demo_disk_sb = Inr ()" "sb_aead_kind demo_disk_sb = Inr (co_kind demo_opts)"
  unfolding demo_disk_sb_def
  by (simp add: sb_wf_def demo_sb_def, code_simp, simp add: sb_aead_kind_def demo_sb_def demo_opts_def aead_from_id_def)

lemma entry_zero_wf: "entry_wf entry_zero"
  by (simp add: entry_wf_def entry_zero_def state_zero_def max_member_def state_bad_sector_def)

lemma demo_zero_manifest: "disk_manifest_ok demo_disk_sb demo_zero_disk demo_zero_regions"
proof -
  have "rust_string []" unfolding rust_string_def by code_simp
  then show ?thesis using entry_zero_wf
    by (simp add: disk_manifest_ok_def demo_zero_disk_def disk_header_wf_def region_wf_def region_new_def disk_validate_iff
      region_end_def region_start_def validate_geometry_def demo_disk_sb_def demo_sb_def has_manifest_def kind_has_manifest_def div_ceil_u64_def)
qed

lemma demo_zero_written:
  obtains hb mb where "disk_header_write demo_zero_disk = Inr hb" "region_manifests demo_disk_sb demo_zero_regions = Inr mb"
    "0 < length hb" "length hb + length mb < 1000"
proof -
  have p: "is_power_of_two 512" by (auto simp: is_power_of_two_def list_ex_iff intro!: bexI [of _ 9])
  have "\<exists>hb. disk_header_write demo_zero_disk = Inr hb \<and> length hb < 500 \<and> 0 < length hb"
    using p by (simp add: disk_header_write_def demo_zero_disk_def region_new_def put_u16_prefixed_def region_write_def pt_raw_bytes_def
        write_region_check_def checked_mul_u64_def checked_add_u64_def swap_header_bytes_def)
  moreover have "\<exists>mb. region_manifests demo_disk_sb demo_zero_regions = Inr mb \<and> length mb < 500"
    by (simp add: region_manifest_def region_new_def has_manifest_def kind_has_manifest_def region_manifest_header_def region_chunk_count_def
        demo_disk_sb_def demo_sb_def block_header_write_def put_u16_prefixed_def length_entry_layout entry_zero_wf entry_len_def)
  ultimately show thesis using that by force
qed

lemma demo_disk_image:
  obtains reader where "disk_contents demo_prims reader (wk_meta_key demo_keys) demo_disk_sb = Inr (demo_zero_disk, demo_zero_regions)"
    "whole_disk demo_prims reader (wk_meta_key demo_keys) demo_disk_sb = Inr (count_disk demo_disk_sb demo_zero_regions summary_default)"
    "reader_authenticate demo_prims reader (Some (replicate 32 2)) = Inr ()"
proof -
  obtain hb mb where b: "disk_header_write demo_zero_disk = Inr hb" "region_manifests demo_disk_sb demo_zero_regions = Inr mb"
    "0 < length hb" "length hb + length mb < 1000" by (rule demo_zero_written)
  have fits: "image_fits [] [(Manifest, hb @ mb)]" using b(3,4) by (auto simp: image_fits_def)
  obtain refs ft recs pgs tpgs and f :: disk_file where w: "written_image demo_prims demo_disk_sb (Some (replicate 32 2)) demo_opts demo_keys [] [(Manifest, hb @ mb)] refs ft
      (file_data f) recs pgs tpgs"
    using write_image_written [OF demo_prims_ok demo_disk_sb_ok(1,2) _ _ _ fits, of demo_opts demo_file "Some (replicate 32 2)" demo_keys]
    by (auto simp: demo_opts_def demo_file_def sink_limit_def footer_size_def)
  define reader where "reader = opened_image demo_prims (Some (replicate 32 2)) demo_disk_sb ft (file_data f)"
  obtain st where "stream_reader demo_prims reader Manifest (wk_meta_key demo_keys) (co_kind demo_opts) = Inr st" "pages_ok demo_prims st"
    "page_remaining demo_prims st = hb @ mb"
    using written_stream [OF demo_prims_ok w, of Manifest "hb @ mb"] unfolding reader_def by auto
  from disk_contents_written [OF demo_zero_manifest b(1,2) demo_disk_sb_ok(3) this] written_opens(2) [OF demo_prims_ok demo_disk_sb_ok(1,2) w]
  show thesis using that unfolding reader_def by blast
qed

definition demo_disk_keys :: image_keys where
  "demo_disk_keys = \<lparr> ik_data_key = wk_data_key demo_keys, ik_meta_key = wk_meta_key demo_keys, ik_dedup_key = wk_dedup_key demo_keys \<rparr>"


end
