(* ===== verification/Schedule.thy ===== *)
theory Schedule
  imports Wire
begin

text \<open>
  Scheduled jobs: \<open>crates/lr-engine/src/schedule.rs\<close> with the option parsers of \<open>options.rs\<close> it uses.  A
  configuration file becomes systemd units: one service and one timer per job, and a second pair for the jobs
  that start new chains on a calendar of their own.  The TOML parser, the file system calls and \<open>systemctl\<close>
  are parameters.  A Rust string is its UTF-8 bytes.  Errors carry the constant part of their message.
\<close>

section \<open>Characters\<close>

text \<open>\<open>char::is_control\<close> in UTF-8: the bytes below 0x20, 0x7F, and U+0080 to U+009F after the lead byte 0xC2.\<close>

fun has_control :: "string \<Rightarrow> bool" where
  "has_control [] = False"
| "has_control (c # s) =
     (of_char c < (32 :: nat) \<or> of_char c = (127 :: nat)
      \<or> (of_char c = (0xC2 :: nat) \<and> (case s of d # _ \<Rightarrow> (0x80 :: nat) \<le> of_char d \<and> of_char d \<le> (0x9F :: nat) | [] \<Rightarrow> False))
      \<or> has_control s)"

text \<open>White space at the start and at the end of a string: the length of its first and last white character.\<close>

definition white1 :: "nat \<Rightarrow> bool" where
  "white1 a \<longleftrightarrow> a = 32 \<or> 9 \<le> a \<and> a \<le> 13"

definition white2 :: "nat \<Rightarrow> nat \<Rightarrow> bool" where
  "white2 a b \<longleftrightarrow> a = 0xC2 \<and> (b = 0x85 \<or> b = 0xA0)"

definition white3 :: "nat \<Rightarrow> nat \<Rightarrow> nat \<Rightarrow> bool" where
  "white3 a b c \<longleftrightarrow> a = 0xE1 \<and> b = 0x9A \<and> c = 0x80
     \<or> a = 0xE2 \<and> b = 0x80 \<and> (0x80 \<le> c \<and> c \<le> 0x8A \<or> c = 0xA8 \<or> c = 0xA9 \<or> c = 0xAF)
     \<or> a = 0xE2 \<and> b = 0x81 \<and> c = 0x9F \<or> a = 0xE3 \<and> b = 0x80 \<and> c = 0x80"

definition white_start :: "string \<Rightarrow> nat" where
  "white_start s =
     (case map of_char s of
        a # t \<Rightarrow> if white1 a then 1
          else (case t of b # u \<Rightarrow> if white2 a b then 2
            else (case u of c # _ \<Rightarrow> if white3 a b c then 3 else 0 | [] \<Rightarrow> 0) | [] \<Rightarrow> 0)
      | [] \<Rightarrow> 0)"

definition white_end :: "string \<Rightarrow> nat" where
  "white_end s =
     (case map of_char (rev s) of
        c # t \<Rightarrow> if white1 c then 1
          else (case t of b # u \<Rightarrow> if white2 b c then 2
            else (case u of a # _ \<Rightarrow> if white3 a b c then 3 else 0 | [] \<Rightarrow> 0) | [] \<Rightarrow> 0)
      | [] \<Rightarrow> 0)"

function trim_start :: "string \<Rightarrow> string" where
  "trim_start s = (if s = [] \<or> white_start s = 0 then s else trim_start (drop (white_start s) s))"
  by auto
termination by (relation "measure length") auto

function trim_end :: "string \<Rightarrow> string" where
  "trim_end s = (if s = [] \<or> white_end s = 0 then s else trim_end (take (length s - white_end s) s))"
  by auto
termination by (relation "measure length") auto

declare trim_start.simps [simp del] trim_end.simps [simp del]

definition trim :: "string \<Rightarrow> string" where
  "trim s = trim_end (trim_start s)"

definition to_ascii_lowercase :: "string \<Rightarrow> string" where
  "to_ascii_lowercase s = map (\<lambda>c. if (65 :: nat) \<le> of_char c \<and> of_char c \<le> (90 :: nat) then char_of (of_char c + 32 :: nat) else c) s"

section \<open>Options\<close>

definition is_digit :: "char \<Rightarrow> bool" where
  "is_digit c \<longleftrightarrow> (48 :: nat) \<le> of_char c \<and> of_char c \<le> (57 :: nat)"

definition digits_value :: "string \<Rightarrow> nat" where
  "digits_value s = foldl (\<lambda>n c. 10 * n + (of_char c - 48)) 0 s"

text \<open>\<open>str::parse::<i32>\<close>.\<close>

definition parse_i32 :: "string \<Rightarrow> int option" where
  "parse_i32 s =
     (let (neg, ds) = (case s of c # t \<Rightarrow> if c = CHR ''-'' then (True, t) else if c = CHR ''+'' then (False, t) else (False, s) | [] \<Rightarrow> (False, s));
          v = (if neg then - int (digits_value ds) else int (digits_value ds)) in
      if ds \<noteq> [] \<and> list_all is_digit ds \<and> - (2 ^ 31) \<le> v \<and> v < 2 ^ 31 then Some v else None)"

datatype compression = NoCompression | Zstd int

definition parse_compression :: "string \<Rightarrow> compression res" where
  "parse_compression text =
     (let t = to_ascii_lowercase (trim text) in
      if t = ''none'' then Inr NoCompression
      else case strip_prefix ''zstd:'' t of
        None \<Rightarrow> Inl (Unsupported ''compression must be `zstd:<level>` or `none`'')
      | Some l \<Rightarrow> (case parse_i32 l of
            None \<Rightarrow> Inl (Unsupported ''not a zstd level'')
          | Some level \<Rightarrow> if 1 \<le> level \<and> level \<le> 22 then Inr (Zstd level) else Inl (Unsupported ''zstd level out of range'')))"

datatype mode = ModeAuto | ModeBlock | ModeStream | ModeFile

definition parse_mode :: "string \<Rightarrow> mode res" where
  "parse_mode text =
     (if text = '''' \<or> text = ''auto'' then Inr ModeAuto else if text = ''block'' then Inr ModeBlock
      else if text = ''stream'' then Inr ModeStream else if text = ''file'' then Inr ModeFile
      else Inl (Unsupported ''unknown mode''))"

section \<open>The configuration\<close>

record daemon_config =
  dc_socket :: string
  dc_log_level :: string
  dc_lvm_cow_size :: "string option"

record retention_config =
  rc_keep_chains :: "nat option"
  rc_max_incrementals :: "nat option"
  rc_new_chain_on_calendar :: "string option"

text \<open>A path is a string of bytes, which need not be UTF-8.\<close>

record job_config =
  jc_name :: string
  jc_source :: "string list"
  jc_dest :: string
  jc_set :: string
  jc_member_type :: string
  jc_parent :: "string option"
  jc_mode :: "string option"
  jc_snapshot :: "string option"
  jc_compress :: "string option"
  jc_encrypt :: bool
  jc_passphrase_file :: "string option"
  jc_on_calendar :: string
  jc_randomized_delay :: "string option"
  jc_persistent :: bool
  jc_retention :: "retention_config option"

record destination_config =
  ds_kind :: string
  ds_host :: "string option"
  ds_user :: "string option"
  ds_known_hosts :: "string option"
  ds_identity :: "string option"
  ds_path :: "string option"

record config =
  cf_daemon :: daemon_config
  cf_jobs :: "job_config list"
  cf_destinations :: "(string \<times> destination_config) list"

definition default_socket :: string where "default_socket = ''/run/linuxreflect/daemon.sock''"
definition default_log_level :: string where "default_log_level = ''info''"

definition default_string :: "string option \<Rightarrow> string" where
  "default_string v = (case v of None \<Rightarrow> [] | Some s \<Rightarrow> s)"

definition destination_uri :: "destination_config \<Rightarrow> string" where
  "destination_uri d =
     (case (ds_host d, ds_path d) of
        (Some host, Some path) \<Rightarrow>
          if ds_kind d = ''sftp''
          then ''sftp://'' @ (case ds_user d of None \<Rightarrow> [] | Some user \<Rightarrow> user @ ''@'') @ host @ path
          else path
      | _ \<Rightarrow> default_string (ds_path d))"

definition is_network :: "destination_config \<Rightarrow> bool" where
  "is_network d \<longleftrightarrow> ds_kind d = ''sftp''"

definition unit_safe :: "string \<Rightarrow> unit res" where
  "unit_safe value = fail_if (has_control value) (Corrupt ''contains a control character, which cannot go into a systemd unit'')"

definition unit_safe_path :: "string \<Rightarrow> unit res" where
  "unit_safe_path path = res_bind (fail_if (\<not> rust_string path) (Corrupt ''is not valid UTF-8'')) (\<lambda>_. unit_safe path)"

definition timer_safe :: "string \<Rightarrow> unit res" where
  "timer_safe value = res_bind (unit_safe value) (\<lambda>_. fail_if (CHR ''%'' \<in> set value) (Corrupt ''contains `%`, which systemd would expand''))"

fun all_ok :: "('a \<Rightarrow> unit res) \<Rightarrow> 'a list \<Rightarrow> unit res" where
  "all_ok f [] = Inr ()"
| "all_ok f (x # xs) = res_bind (f x) (\<lambda>_. all_ok f xs)"

definition when_some :: "'a option \<Rightarrow> ('a \<Rightarrow> unit res) \<Rightarrow> unit res" where
  "when_some v f = (case v of None \<Rightarrow> Inr () | Some x \<Rightarrow> f x)"

definition validate_daemon :: "daemon_config \<Rightarrow> unit res" where
  "validate_daemon d =
     res_bind (fail_if (dc_socket d \<noteq> default_socket) (Corrupt ''[daemon] socket is not used'')) (\<lambda>_.
     res_bind (fail_if (dc_log_level d \<noteq> default_log_level) (Corrupt ''[daemon] log_level is not used'')) (\<lambda>_.
       when_some (dc_lvm_cow_size d) unit_safe))"

definition validate_destination :: "string \<times> destination_config \<Rightarrow> unit res" where
  "validate_destination nd =
     (let d = snd nd in
      res_bind (fail_if (ds_kind d \<noteq> ''sftp'' \<and> ds_kind d \<noteq> ''local'') (Corrupt ''kind; use sftp or local'')) (\<lambda>_.
      res_bind (all_ok (\<lambda>v. unit_safe (default_string v)) [Some (ds_kind d), ds_host d, ds_user d, ds_path d]) (\<lambda>_.
        all_ok (\<lambda>p. when_some p unit_safe_path) [ds_identity d, ds_known_hosts d])))"

definition new_chain_calendar :: "job_config \<Rightarrow> string option" where
  "new_chain_calendar j = Option.bind (jc_retention j) rc_new_chain_on_calendar"

text \<open>The checks of a job, in the order of the code; \<open>names\<close> are the names of the jobs before it.\<close>

definition validate_job :: "config \<Rightarrow> string set \<Rightarrow> job_config \<Rightarrow> unit res" where
  "validate_job cf names j =
     res_bind (all_ok unit_safe (jc_source j)) (\<lambda>_.
     res_bind (all_ok (\<lambda>v. unit_safe (default_string v)) [Some (jc_dest j), jc_parent j, jc_mode j, jc_snapshot j, jc_compress j]) (\<lambda>_.
     res_bind (when_some (jc_passphrase_file j) unit_safe_path) (\<lambda>_.
     res_bind (timer_safe (jc_on_calendar j)) (\<lambda>_.
     res_bind (when_some (jc_randomized_delay j) timer_safe) (\<lambda>_.
     res_bind (when_some (new_chain_calendar j) timer_safe) (\<lambda>_.
     res_bind (when_some (jc_mode j) (\<lambda>m. case parse_mode m of Inl _ \<Rightarrow> Inl (Corrupt ''mode'') | Inr _ \<Rightarrow> Inr ())) (\<lambda>_.
     res_bind (when_some (jc_snapshot j) (\<lambda>s. fail_if (s \<notin> {''auto'', ''btrfs'', ''lvm'', ''freeze'', ''offline'', ''none''})
         (Corrupt ''snapshot; use auto, btrfs, lvm, freeze, offline or none''))) (\<lambda>_.
     res_bind (when_some (jc_compress j) (\<lambda>c. case parse_compression c of Inl _ \<Rightarrow> Inl (Corrupt ''compress'') | Inr _ \<Rightarrow> Inr ())) (\<lambda>_.
     res_bind (when_some (jc_parent j) (\<lambda>p. fail_if (p \<noteq> ''latest'' \<and> \<not> is_ok (uuid_from_str p)) (Corrupt ''parent; use latest or an image UUID''))) (\<lambda>_.
     res_bind (case validate_name (jc_name j) of Inl _ \<Rightarrow> Inl (Corrupt ''invalid job name'') | Inr _ \<Rightarrow> Inr ()) (\<lambda>_.
     res_bind (case validate_name (jc_set j) of Inl _ \<Rightarrow> Inl (Corrupt ''invalid set name'') | Inr _ \<Rightarrow> Inr ()) (\<lambda>_.
     res_bind (fail_if (jc_name j \<in> names) (Corrupt ''duplicate job name '')) (\<lambda>_.
     res_bind (fail_if (jc_source j = []) (Corrupt ''job has no source'')) (\<lambda>_.
     res_bind (fail_if (jc_dest j = []) (Corrupt ''job has no destination'')) (\<lambda>_.
     res_bind (fail_if (trim (jc_on_calendar j) = []) (Corrupt ''job has an empty on_calendar'')) (\<lambda>_.
     res_bind (fail_if (jc_member_type j \<notin> {''full'', ''incremental'', ''differential''}) (Corrupt ''job has an unknown type'')) (\<lambda>_.
     res_bind (fail_if (jc_encrypt j \<and> jc_passphrase_file j = None) (Corrupt ''job encrypts but names no passphrase_file'')) (\<lambda>_.
       when_some (map_of (cf_destinations cf) (jc_dest j)) (\<lambda>d.
         fail_if (destination_uri d = []) (Corrupt ''job names a destination which has no path''))))))))))))))))))))"

fun validate_jobs :: "config \<Rightarrow> string set \<Rightarrow> job_config list \<Rightarrow> unit res" where
  "validate_jobs cf names [] = Inr ()"
| "validate_jobs cf names (j # js) = res_bind (validate_job cf names j) (\<lambda>_. validate_jobs cf (insert (jc_name j) names) js)"

definition validate_config :: "config \<Rightarrow> unit res" where
  "validate_config cf =
     res_bind (validate_daemon (cf_daemon cf)) (\<lambda>_.
     res_bind (all_ok validate_destination (cf_destinations cf)) (\<lambda>_.
       validate_jobs cf {} (cf_jobs cf)))"

definition schedule_parse :: "(string \<Rightarrow> config option) \<Rightarrow> string \<Rightarrow> config res" where
  "schedule_parse from_toml text =
     (case from_toml text of
        None \<Rightarrow> Inl (Corrupt ''config.toml: '')
      | Some cf \<Rightarrow> res_bind (validate_config cf) (\<lambda>_. Inr cf))"

section \<open>Command lines\<close>

definition replace_char :: "char \<Rightarrow> string \<Rightarrow> string \<Rightarrow> string" where
  "replace_char c r s = concat (map (\<lambda>d. if d = c then r else [d]) s)"

definition quote :: "string \<Rightarrow> string" where
  "quote argument =
     CHR 0x22 # replace_char (CHR ''$'') ''$$'' (replace_char (CHR ''%'') ''%%''
       (replace_char (CHR 0x22) [CHR 0x5C, CHR 0x22] (replace_char (CHR 0x5C) [CHR 0x5C, CHR 0x5C] argument))) @ [CHR 0x22]"

fun join :: "string \<Rightarrow> string list \<Rightarrow> string" where
  "join sep [] = []"
| "join sep [x] = x"
| "join sep (x # y # r) = x @ sep @ join sep (y # r)"

definition command_line :: "string list \<Rightarrow> string" where
  "command_line arguments = join '' '' (map quote arguments)"

section \<open>Units\<close>

definition unit_prefix :: string where "unit_prefix = ''linuxreflect-job@''"
definition chain_unit_prefix :: string where "chain_unit_prefix = ''linuxreflect-newchain@''"
definition default_systemd_dir :: string where "default_systemd_dir = ''/etc/systemd/system''"

definition unit_name :: "string \<Rightarrow> string \<Rightarrow> string" where
  "unit_name job kind = unit_prefix @ job @ ''.'' @ kind"

definition chain_unit_name :: "string \<Rightarrow> string \<Rightarrow> string" where
  "chain_unit_name job kind = chain_unit_prefix @ job @ ''.'' @ kind"

definition resolve_destination :: "config \<Rightarrow> job_config \<Rightarrow> (string \<times> bool) res" where
  "resolve_destination cf j =
     (case map_of (cf_destinations cf) (jc_dest j) of
        Some d \<Rightarrow> if destination_uri d = [] then Inl (Corrupt ''destination has no path'') else Inr (destination_uri d, is_network d)
      | None \<Rightarrow> Inr (jc_dest j, contains (jc_dest j) ''://'' \<or> take 1 (jc_dest j) = ''@''))"

record command_context =
  cc_program :: string
  cc_destination :: string
  cc_named :: "destination_config option"
  cc_lvm_cow_size :: "string option"

definition option_arg :: "string \<Rightarrow> string option \<Rightarrow> string list" where
  "option_arg name v = (case v of None \<Rightarrow> [] | Some x \<Rightarrow> [name, x])"

definition ssh_options :: "command_context \<Rightarrow> string list" where
  "ssh_options cx = (case cc_named cx of None \<Rightarrow> []
     | Some d \<Rightarrow> option_arg ''--identity'' (ds_identity d) @ option_arg ''--known-hosts'' (ds_known_hosts d))"

definition backup_command :: "command_context \<Rightarrow> job_config \<Rightarrow> string \<Rightarrow> string \<Rightarrow> string list" where
  "backup_command cx j member_type source =
     [cc_program cx, ''backup'', ''create'', ''--source'', source, ''--dest'', cc_destination cx, ''--set'', jc_set j, ''--type'', member_type]
     @ (if member_type \<noteq> ''full''
        then [''--parent'', case jc_parent j of None \<Rightarrow> ''latest'' | Some p \<Rightarrow> p]
          @ option_arg ''--max-incrementals'' (map_option decimal (Option.bind (jc_retention j) rc_max_incrementals))
        else [])
     @ option_arg ''--mode'' (jc_mode j) @ option_arg ''--snapshot'' (jc_snapshot j) @ option_arg ''--compress'' (jc_compress j)
     @ option_arg ''--lvm-cow-size'' (cc_lvm_cow_size cx)
     @ (if jc_encrypt j then option_arg ''--passphrase-file'' (jc_passphrase_file j) else [])
     @ ssh_options cx @ (if jc_encrypt j then [] else [''--no-encrypt'']) @ [''--json'']"

definition retention_command :: "command_context \<Rightarrow> job_config \<Rightarrow> nat \<Rightarrow> string list" where
  "retention_command cx j keep =
     [cc_program cx, ''retention'', ''apply'', ''--dest'', cc_destination cx, ''--set'', jc_set j, ''--keep-chains'', decimal keep]
     @ (if jc_encrypt j then option_arg ''--passphrase-file'' (jc_passphrase_file j) else []) @ ssh_options cx"

definition job_commands :: "command_context \<Rightarrow> job_config \<Rightarrow> string \<Rightarrow> string list list" where
  "job_commands cx j member_type =
     map (backup_command cx j member_type) (jc_source j)
     @ (case Option.bind (jc_retention j) rc_keep_chains of None \<Rightarrow> [] | Some keep \<Rightarrow> [retention_command cx j keep])"

definition nl :: string where "nl = [CHR 0x0A]"

definition service_unit :: "string \<Rightarrow> bool \<Rightarrow> string option \<Rightarrow> string list list \<Rightarrow> string" where
  "service_unit description network after cmds =
     ''[Unit]'' @ nl @ ''Description='' @ description @ nl
     @ (if network then ''Wants=network-online.target'' @ nl @ ''After=network-online.target'' @ nl else [])
     @ (case after of None \<Rightarrow> [] | Some a \<Rightarrow> ''After='' @ a @ nl)
     @ nl @ ''[Service]'' @ nl @ ''Type=oneshot'' @ nl @ ''User=root'' @ nl
     @ concat (map (\<lambda>c. ''ExecStart='' @ command_line c @ nl) cmds)"

definition timer_unit :: "string \<Rightarrow> job_config \<Rightarrow> string \<Rightarrow> string \<Rightarrow> string" where
  "timer_unit description j calendar unit_file =
     ''[Unit]'' @ nl @ ''Description='' @ description @ nl @ nl @ ''[Timer]'' @ nl @ ''OnCalendar='' @ calendar @ nl
     @ ''Persistent='' @ (if jc_persistent j then ''true'' else ''false'') @ nl
     @ (case jc_randomized_delay j of None \<Rightarrow> [] | Some delay \<Rightarrow> ''RandomizedDelaySec='' @ delay @ nl)
     @ ''Unit='' @ unit_file @ nl @ nl @ ''[Install]'' @ nl @ ''WantedBy=timers.target'' @ nl"

record chain_units =
  cu_service_name :: string
  cu_service :: string
  cu_timer_name :: string
  cu_timer :: string

record job_units =
  ju_job :: string
  ju_service_name :: string
  ju_service :: string
  ju_timer_name :: string
  ju_timer :: string
  ju_destination :: string
  ju_new_chain :: "chain_units option"

definition job_context :: "config \<Rightarrow> job_config \<Rightarrow> string \<Rightarrow> string \<Rightarrow> command_context" where
  "job_context cf j cli destination =
     \<lparr> cc_program = cli, cc_destination = destination, cc_named = map_of (cf_destinations cf) (jc_dest j),
       cc_lvm_cow_size = dc_lvm_cow_size (cf_daemon cf) \<rparr>"

definition render_job :: "config \<Rightarrow> job_config \<Rightarrow> string \<Rightarrow> job_units res" where
  "render_job cf j cli =
     res_bind (resolve_destination cf j) (\<lambda>(destination, network).
       let cx = job_context cf j cli destination;
           service = service_unit (''LinuxReflect backup job '' @ jc_name j) network
             (map_option (\<lambda>_. chain_unit_name (jc_name j) ''service'') (new_chain_calendar j)) (job_commands cx j (jc_member_type j));
           timer = timer_unit (''LinuxReflect backup timer for '' @ jc_name j) j (jc_on_calendar j) (unit_name (jc_name j) ''service'');
           new_chain = map_option (\<lambda>calendar.
             \<lparr> cu_service_name = chain_unit_name (jc_name j) ''service'',
               cu_service = service_unit (''LinuxReflect new chain for '' @ jc_name j) network None (job_commands cx j ''full''),
               cu_timer_name = chain_unit_name (jc_name j) ''timer'',
               cu_timer = timer_unit (''LinuxReflect new-chain timer for '' @ jc_name j) j calendar (chain_unit_name (jc_name j) ''service'') \<rparr>)
             (new_chain_calendar j) in
       Inr \<lparr> ju_job = jc_name j, ju_service_name = unit_name (jc_name j) ''service'', ju_service = service,
             ju_timer_name = unit_name (jc_name j) ''timer'', ju_timer = timer, ju_destination = destination, ju_new_chain = new_chain \<rparr>)"

fun render_jobs :: "config \<Rightarrow> string \<Rightarrow> job_config list \<Rightarrow> job_units list res" where
  "render_jobs cf cli [] = Inr []"
| "render_jobs cf cli (j # js) = res_bind (render_job cf j cli) (\<lambda>u. res_bind (render_jobs cf cli js) (\<lambda>us. Inr (u # us)))"

section \<open>Writing and removing units\<close>

definition unit_files :: "job_units \<Rightarrow> (string \<times> string) list" where
  "unit_files u =
     [(ju_service_name u, ju_service u), (ju_timer_name u, ju_timer u)]
     @ (case ju_new_chain u of None \<Rightarrow> [] | Some c \<Rightarrow> [(cu_service_name c, cu_service c), (cu_timer_name c, cu_timer c)])"

definition unit_timers :: "job_units \<Rightarrow> string list" where
  "unit_timers u = ju_timer_name u # (case ju_new_chain u of None \<Rightarrow> [] | Some c \<Rightarrow> [cu_timer_name c])"

text \<open>The system: the files of the unit directory, and what the calls to come will do - \<open>sy_io\<close> schedules the
  outcome of the file system calls, \<open>sy_systemctl\<close> that of \<open>systemctl\<close>; an exhausted schedule means success.
  A write that fails may leave a truncated file.\<close>

record system =
  sy_files :: "string \<rightharpoonup> string"
  sy_io :: "nat option list"
  sy_systemctl :: "bool list"
  sy_runs :: "string list list"

definition next_io :: "system \<Rightarrow> nat option \<times> system" where
  "next_io s = (case sy_io s of [] \<Rightarrow> (None, s) | f # fs \<Rightarrow> (f, s\<lparr> sy_io := fs \<rparr>))"

definition fs_create_dir :: "system \<Rightarrow> unit res \<times> system" where
  "fs_create_dir s = (case next_io s of (None, s) \<Rightarrow> (Inr (), s) | (Some _, s) \<Rightarrow> (Inl (Io ''create_dir_all''), s))"

definition fs_write :: "string \<Rightarrow> string \<Rightarrow> system \<Rightarrow> unit res \<times> system" where
  "fs_write name contents s =
     (case next_io s of
        (None, s) \<Rightarrow> (Inr (), s\<lparr> sy_files := (sy_files s)(name \<mapsto> contents) \<rparr>)
      | (Some k, s) \<Rightarrow> (Inl (Io ''write''), s\<lparr> sy_files := (sy_files s)(name \<mapsto> take k contents) \<rparr>))"

definition fs_remove :: "string \<Rightarrow> system \<Rightarrow> bool res \<times> system" where
  "fs_remove name s =
     (case next_io s of
        (None, s) \<Rightarrow> (Inr (name \<in> dom (sy_files s)), s\<lparr> sy_files := (sy_files s)(name := None) \<rparr>)
      | (Some _, s) \<Rightarrow> (Inl (Io ''remove_file''), s))"

definition run_systemctl :: "string list \<Rightarrow> system \<Rightarrow> unit res \<times> system" where
  "run_systemctl args s =
     (let s = s\<lparr> sy_runs := sy_runs s @ [args] \<rparr> in
      case sy_systemctl s of
        [] \<Rightarrow> (Inr (), s)
      | r # rs \<Rightarrow> (if r then Inr () else Inl (Unsupported ''systemctl failed''), s\<lparr> sy_systemctl := rs \<rparr>))"

fun write_files :: "(string \<times> string) list \<Rightarrow> system \<Rightarrow> unit res \<times> system" where
  "write_files [] s = (Inr (), s)"
| "write_files ((name, contents) # fs) s = st_bind (fs_write name contents s) (\<lambda>_ s. write_files fs s)"

record schedule_report =
  sr_jobs :: "job_units list"
  sr_written :: "string list"
  sr_reloaded :: bool
  sr_started :: bool
  sr_warned :: bool

definition materialize ::
    "(string \<Rightarrow> config option) \<Rightarrow> string \<Rightarrow> string \<Rightarrow> string \<Rightarrow> bool \<Rightarrow> bool \<Rightarrow> bool \<Rightarrow> system \<Rightarrow> schedule_report res \<times> system" where
  "materialize from_toml text cli dir dry_run daemon_reload start s =
     st_bind (res_bind (schedule_parse from_toml text) (\<lambda>cf. render_jobs cf cli (cf_jobs cf)), s) (\<lambda>jobs s.
     let files = concat (map unit_files jobs); is_system = (dir = default_systemd_dir) in
     st_bind (if dry_run then (Inr (), s) else st_bind (fs_create_dir s) (\<lambda>_ s. write_files files s)) (\<lambda>_ s.
     st_bind (if daemon_reload \<and> \<not> dry_run \<and> is_system
         then st_bind (run_systemctl [''daemon-reload''] s) (\<lambda>_ s.
           if start then run_systemctl ([''enable'', ''--now''] @ concat (map unit_timers jobs)) s else (Inr (), s))
         else (Inr (), s)) (\<lambda>_ s.
       (Inr \<lparr> sr_jobs = jobs, sr_written = (if dry_run then [] else map fst files),
              sr_reloaded = (daemon_reload \<and> \<not> dry_run \<and> is_system), sr_started = (daemon_reload \<and> \<not> dry_run \<and> is_system \<and> start),
              sr_warned = (daemon_reload \<and> \<not> dry_run \<and> \<not> is_system) \<rparr>, s))))"

fun remove_files :: "string list \<Rightarrow> system \<Rightarrow> string list res \<times> system" where
  "remove_files [] s = (Inr [], s)"
| "remove_files (n # ns) s = st_bind (fs_remove n s) (\<lambda>there s. st_bind (remove_files ns s) (\<lambda>r s. (Inr (if there then n # r else r), s)))"

text \<open>\<open>remove\<close>; whether \<open>systemctl\<close> can be run at all is an argument, and the outcome of \<open>disable\<close> is ignored.\<close>

definition remove_job :: "bool \<Rightarrow> string \<Rightarrow> string \<Rightarrow> system \<Rightarrow> string list res \<times> system" where
  "remove_job available job dir s =
     (let is_system = (dir = default_systemd_dir);
          s = (if is_system \<and> available
               then snd (run_systemctl [''disable'', ''--now'', unit_name job ''timer'', chain_unit_name job ''timer''] s) else s) in
      st_bind (remove_files [unit_name job ''service'', unit_name job ''timer'', chain_unit_name job ''service'', chain_unit_name job ''timer''] s) (\<lambda>removed s.
        if is_system \<and> available then st_bind (run_systemctl [''daemon-reload''] s) (\<lambda>_ s. (Inr removed, s)) else (Inr removed, s)))"

section \<open>Reading command lines back\<close>

text \<open>
  The documented reading of a quoted command line: an argument stands between double quotes; inside them a
  backslash protects a backslash or a quote, \<open>%%\<close> stands for \<open>%\<close> and \<open>$$\<close> for \<open>$\<close>; arguments are separated
  by a space.  Everything else - other escapes, specifiers, variables - has no reading here.
\<close>

function read_quoted :: "string \<Rightarrow> (string \<times> string) option" where
  "read_quoted [] = None"
| "read_quoted (c # s) =
     (if c = CHR 0x22 then Some ([], s)
      else if c = CHR 0x5C \<or> c = CHR ''%'' \<or> c = CHR ''$''
      then (case s of
              [] \<Rightarrow> None
            | d # r \<Rightarrow> if d = c \<or> c = CHR 0x5C \<and> d = CHR 0x22
                then map_option (\<lambda>(a, t). (d # a, t)) (read_quoted r) else None)
      else map_option (\<lambda>(a, t). (c # a, t)) (read_quoted s))"
  by pat_completeness auto
termination by (relation "measure length") auto

lemma read_quoted_shorter: "read_quoted s = Some (a, t) \<Longrightarrow> length t < length s"
  by (induction s arbitrary: a t rule: read_quoted.induct) (fastforce split: if_splits list.splits)+

function read_arguments :: "string \<Rightarrow> string list option" where
  "read_arguments [] = None"
| "read_arguments (c # s) =
     (if c \<noteq> CHR 0x22 then None
      else case read_quoted s of
        None \<Rightarrow> None
      | Some (a, []) \<Rightarrow> Some [a]
      | Some (a, d # r) \<Rightarrow> if d = CHR '' '' then map_option ((#) a) (read_arguments r) else None)"
  by pat_completeness auto
termination by (relation "measure length") (auto dest: read_quoted_shorter)

definition escape :: "char \<Rightarrow> string" where
  "escape c = (if c = CHR 0x5C then [CHR 0x5C, CHR 0x5C] else if c = CHR 0x22 then [CHR 0x5C, CHR 0x22]
     else if c = CHR ''%'' then ''%%'' else if c = CHR ''$'' then ''$$'' else [c])"

lemma replace_char_concat: "replace_char c r (concat (map f s)) = concat (map (\<lambda>d. replace_char c r (f d)) s)"
  by (induction s) (simp_all add: replace_char_def)

lemma quote_escape: "quote a = CHR 0x22 # concat (map escape a) @ [CHR 0x22]"
proof -
  have "replace_char (CHR 0x5C) [CHR 0x5C, CHR 0x5C] a = concat (map (\<lambda>d. if d = CHR 0x5C then [CHR 0x5C, CHR 0x5C] else [d]) a)"
    by (simp add: replace_char_def)
  moreover have "replace_char (CHR ''$'') ''$$'' (replace_char (CHR ''%'') ''%%'' (replace_char (CHR 0x22) [CHR 0x5C, CHR 0x22]
      (if d = CHR 0x5C then [CHR 0x5C, CHR 0x5C] else [d]))) = escape d" for d
    by (simp add: replace_char_def escape_def)
  ultimately show ?thesis unfolding quote_def by (simp only: replace_char_concat)
qed

lemma read_quote: "read_quoted (concat (map escape a) @ CHR 0x22 # r) = Some (a, r)"
  by (induction a) (auto simp: escape_def)

lemma read_command_line: "args \<noteq> [] \<Longrightarrow> read_arguments (command_line args) = Some args"
proof (induction args)
  case (Cons a args)
  then show ?case
    by (cases args) (simp_all add: command_line_def quote_escape read_quote)
qed simp

section \<open>The lines of a unit\<close>

definition unit_lines :: "string \<Rightarrow> string list" where
  "unit_lines text = split_on (CHR 0x0A) text"

text \<open>The values a unit gives to a key, in the order of its lines.\<close>

definition settings :: "string \<Rightarrow> string \<Rightarrow> string list" where
  "settings key text = map (drop (Suc (length key))) (filter (\<lambda>l. take (Suc (length key)) l = key @ ''='') (unit_lines text))"

lemma unit_lines_append: "CHR 0x0A \<notin> set l \<Longrightarrow> unit_lines (l @ CHR 0x0A # r) = l # unit_lines r"
  by (induction l) (auto simp: unit_lines_def)

lemma has_control_newline: "\<not> has_control s \<Longrightarrow> CHR 0x0A \<notin> set s"
  by (induction s) auto

definition one_line :: "string \<Rightarrow> bool" where
  "one_line s \<longleftrightarrow> CHR 0x0A \<notin> set s"

lemma one_line_simps [simp]:
  "one_line []" "one_line (a @ b) \<longleftrightarrow> one_line a \<and> one_line b" "one_line (c # s) \<longleftrightarrow> c \<noteq> CHR 0x0A \<and> one_line s"
  by (auto simp: one_line_def)

lemma one_line_concat [simp]: "one_line (concat ss) \<longleftrightarrow> (\<forall>s \<in> set ss. one_line s)"
  by (auto simp: one_line_def)

lemma one_line_quote: "one_line a \<Longrightarrow> one_line (quote a)"
  by (auto simp: quote_escape escape_def one_line_def)

lemma one_line_command: "\<forall>a \<in> set args. one_line a \<Longrightarrow> one_line (command_line args)"
proof (induction args)
  case (Cons a args)
  then show ?case by (cases args) (simp_all add: command_line_def one_line_quote)
qed (simp add: command_line_def)

lemma one_line_decimal [simp]: "one_line (decimal n)"
proof (induction n rule: decimal.induct)
  case (1 n)
  have "char_of (48 + k) \<noteq> CHR 0x0A" if "k < 10" for k :: nat
  proof
    assume "char_of (48 + k) = CHR 0x0A"
    then have "of_char (char_of (48 + k) :: char) = (10 :: nat)" by simp
    then show False using that by simp
  qed
  then show ?case using 1 by (subst decimal.simps) simp
qed

lemma exec_lines:
  "\<forall>c \<in> set cmds. one_line (command_line c) \<Longrightarrow>
   unit_lines (concat (map (\<lambda>c. ''ExecStart='' @ command_line c @ nl) cmds)) = map (\<lambda>c. ''ExecStart='' @ command_line c) cmds @ [[]]"
proof (induction cmds)
  case (Cons c cmds)
  have "unit_lines ((''ExecStart='' @ command_line c) @ CHR 0x0A # concat (map (\<lambda>c. ''ExecStart='' @ command_line c @ nl) cmds))
      = (''ExecStart='' @ command_line c) # unit_lines (concat (map (\<lambda>c. ''ExecStart='' @ command_line c @ nl) cmds))"
    by (rule unit_lines_append) (use Cons.prems in \<open>auto simp: one_line_def\<close>)
  then show ?case using Cons by (simp add: nl_def)
qed (simp add: unit_lines_def)

lemma unit_lines_line:
  "one_line a \<Longrightarrow> unit_lines (a @ nl @ r) = a # unit_lines r"
  "one_line a \<Longrightarrow> one_line b \<Longrightarrow> unit_lines (a @ b @ nl @ r) = (a @ b) # unit_lines r"
  "unit_lines (nl @ r) = [] # unit_lines r"
  using unit_lines_append [of a r] unit_lines_append [of "a @ b" r] unit_lines_append [of "[]" r]
  by (simp_all add: nl_def one_line_def)

lemma service_lines:
  assumes "one_line description" "\<forall>a. after = Some a \<longrightarrow> one_line a" "\<forall>c \<in> set cmds. \<forall>a \<in> set c. one_line a"
  shows "unit_lines (service_unit description network after cmds) =
    [''[Unit]'', ''Description='' @ description] @ (if network then [''Wants=network-online.target'', ''After=network-online.target''] else [])
    @ (case after of None \<Rightarrow> [] | Some a \<Rightarrow> [''After='' @ a]) @ [[], ''[Service]'', ''Type=oneshot'', ''User=root'']
    @ map (\<lambda>c. ''ExecStart='' @ command_line c) cmds @ [[]]"
proof -
  have lit: "one_line ''[Unit]''" "one_line ''Description=''" "one_line ''Wants=network-online.target''" "one_line ''After=network-online.target''"
    "one_line ''After=''" "one_line ''[Service]''" "one_line ''Type=oneshot''" "one_line ''User=root''" by simp_all
  have ex: "unit_lines (concat (map (\<lambda>c. ''ExecStart='' @ command_line c @ nl) cmds)) = map (\<lambda>c. ''ExecStart='' @ command_line c) cmds @ [[]]"
    using assms(3) by (intro exec_lines) (simp add: one_line_command)
  have af: "unit_lines ((case after of None \<Rightarrow> [] | Some a \<Rightarrow> ''After='' @ a @ nl) @ r) = (case after of None \<Rightarrow> [] | Some a \<Rightarrow> [''After='' @ a]) @ unit_lines r" for r
    proof (cases after)
    case (Some a)
    then show ?thesis using assms(2) unit_lines_line(2) [OF lit(5), of a r] by simp
  qed simp
  have nw: "unit_lines ((if network then ''Wants=network-online.target'' @ nl @ ''After=network-online.target'' @ nl else []) @ r)
      = (if network then [''Wants=network-online.target'', ''After=network-online.target''] else []) @ unit_lines r" for r
    using unit_lines_line(1) [OF lit(3)] unit_lines_line(1) [OF lit(4)] by (cases network) simp_all
  show ?thesis
    unfolding service_unit_def by (simp only: unit_lines_line lit assms(1) nw af ex) simp
qed

lemma timer_lines:
  assumes "one_line description" "one_line calendar" "one_line unit_file" "\<forall>d. jc_randomized_delay j = Some d \<longrightarrow> one_line d"
  shows "unit_lines (timer_unit description j calendar unit_file) =
    [''[Unit]'', ''Description='' @ description, [], ''[Timer]'', ''OnCalendar='' @ calendar,
     ''Persistent='' @ (if jc_persistent j then ''true'' else ''false'')]
    @ (case jc_randomized_delay j of None \<Rightarrow> [] | Some d \<Rightarrow> [''RandomizedDelaySec='' @ d])
    @ [''Unit='' @ unit_file, [], ''[Install]'', ''WantedBy=timers.target'', []]"
proof -
  have lit: "one_line ''[Unit]''" "one_line ''Description=''" "one_line ''[Timer]''" "one_line ''OnCalendar=''" "one_line ''Persistent=''"
    "one_line ''RandomizedDelaySec=''" "one_line ''Unit=''" "one_line ''[Install]''" "one_line ''WantedBy=timers.target''"
    "one_line (if jc_persistent j then ''true'' else ''false'')" by simp_all
  have e: "unit_lines nl = [[], []]" by (simp add: unit_lines_def nl_def)
  have l: "unit_lines (''WantedBy=timers.target'' @ nl) = [''WantedBy=timers.target'', []]"
    using unit_lines_line(1) [OF lit(9), of "[]"] by (simp add: unit_lines_def)
  have de: "unit_lines ((case jc_randomized_delay j of None \<Rightarrow> [] | Some delay \<Rightarrow> ''RandomizedDelaySec='' @ delay @ nl) @ r)
      = (case jc_randomized_delay j of None \<Rightarrow> [] | Some d \<Rightarrow> [''RandomizedDelaySec='' @ d]) @ unit_lines r" for r
  proof (cases "jc_randomized_delay j")
    case (Some d)
    then show ?thesis using assms(4) unit_lines_line(2) [OF lit(6), of d r] by simp
  qed simp
  show ?thesis
    unfolding timer_unit_def by (simp only: unit_lines_line lit assms(1-3) de l) simp
qed

section \<open>What validation gives\<close>

lemma all_ok_Inr: "all_ok f xs = Inr () \<longleftrightarrow> (\<forall>x \<in> set xs. f x = Inr ())"
  by (induction xs) (auto simp: res_bind_eq_Inr)

lemma when_some_Inr: "when_some v f = Inr () \<longleftrightarrow> (\<forall>x. v = Some x \<longrightarrow> f x = Inr ())"
  by (cases v) (simp_all add: when_some_def)

lemma unit_safe_one_line: "unit_safe s = Inr () \<Longrightarrow> one_line s" "unit_safe_path s = Inr () \<Longrightarrow> one_line s" "timer_safe s = Inr () \<Longrightarrow> one_line s"
  by (auto simp: unit_safe_def unit_safe_path_def timer_safe_def res_bind_eq_Inr one_line_def dest: has_control_newline)

lemma default_string_one_line: "one_line (default_string v) \<Longrightarrow> v = Some s \<Longrightarrow> one_line s"
  by (simp add: default_string_def)

lemma name_one_line: "validate_name s = Inr () \<Longrightarrow> one_line s"
  by (auto simp: validate_name_iff one_line_def name_char_def is_ascii_alphanumeric_def dest: bspec)

definition job_safe :: "config \<Rightarrow> job_config \<Rightarrow> bool" where
  "job_safe cf j \<longleftrightarrow> (\<forall>s \<in> set (jc_source j). one_line s) \<and> one_line (jc_dest j) \<and> one_line (jc_name j) \<and> one_line (jc_set j)
     \<and> one_line (jc_member_type j) \<and> one_line (jc_on_calendar j)
     \<and> (\<forall>v \<in> {jc_parent j, jc_mode j, jc_snapshot j, jc_compress j, jc_passphrase_file j, jc_randomized_delay j, new_chain_calendar j}.
          \<forall>s. v = Some s \<longrightarrow> one_line s)"

lemma validate_job_safe: "validate_job cf names j = Inr () \<Longrightarrow> job_safe cf j \<and> validate_name (jc_name j) = Inr () \<and> jc_name j \<notin> names"
  unfolding validate_job_def job_safe_def
  by (auto simp: res_bind_eq_Inr all_ok_Inr when_some_Inr intro: unit_safe_one_line name_one_line default_string_one_line split: sum.splits)

lemma validate_jobs_Inr:
  "validate_jobs cf names js = Inr () \<Longrightarrow>
   (\<forall>j \<in> set js. job_safe cf j \<and> validate_name (jc_name j) = Inr () \<and> jc_name j \<notin> names) \<and> distinct (map jc_name js)"
proof (induction js arbitrary: names)
  case (Cons j js)
  then show ?case using validate_job_safe [of cf names j] Cons.IH [of "insert (jc_name j) names"] by (auto simp: res_bind_eq_Inr)
qed simp

definition destination_safe :: "destination_config \<Rightarrow> bool" where
  "destination_safe d \<longleftrightarrow> one_line (destination_uri d) \<and> (\<forall>v \<in> {ds_identity d, ds_known_hosts d}. \<forall>s. v = Some s \<longrightarrow> one_line s)"

lemma validate_destination_safe:
  assumes "validate_destination nd = Inr ()"
  shows "destination_safe (snd nd)"
proof -
  have o: "v = Some s \<Longrightarrow> one_line s" if "v \<in> {ds_host (snd nd), ds_user (snd nd), ds_path (snd nd)}" for v s
    using assms that by (auto simp: validate_destination_def res_bind_eq_Inr all_ok_Inr Let_def intro: unit_safe_one_line default_string_one_line)
  have "one_line (destination_uri (snd nd))"
    using o by (auto simp: destination_uri_def default_string_def split: option.split)
  then show ?thesis
    using assms by (auto simp: destination_safe_def validate_destination_def res_bind_eq_Inr all_ok_Inr when_some_Inr Let_def intro: unit_safe_one_line)
qed

lemma validate_config_Inr:
  assumes "validate_config cf = Inr ()"
  shows "\<forall>j \<in> set (cf_jobs cf). job_safe cf j \<and> validate_name (jc_name j) = Inr ()" "distinct (map jc_name (cf_jobs cf))"
    "map_of (cf_destinations cf) n = Some d \<Longrightarrow> destination_safe d" "dc_lvm_cow_size (cf_daemon cf) = Some s \<Longrightarrow> one_line s"
proof -
  have v: "validate_daemon (cf_daemon cf) = Inr ()" "\<forall>x \<in> set (cf_destinations cf). validate_destination x = Inr ()"
    "validate_jobs cf {} (cf_jobs cf) = Inr ()"
    using assms by (simp_all add: validate_config_def res_bind_eq_Inr all_ok_Inr)
  show "\<forall>j \<in> set (cf_jobs cf). job_safe cf j \<and> validate_name (jc_name j) = Inr ()" "distinct (map jc_name (cf_jobs cf))"
    using validate_jobs_Inr [OF v(3)] by simp_all
  show "destination_safe d" if "map_of (cf_destinations cf) n = Some d"
    using validate_destination_safe [of "(n, d)"] v(2) map_of_SomeD [OF that] by simp
  show "one_line s" if "dc_lvm_cow_size (cf_daemon cf) = Some s"
    using v(1) that by (auto simp: validate_daemon_def res_bind_eq_Inr when_some_Inr intro: unit_safe_one_line)
qed

lemma resolved_one_line:
  assumes "validate_config cf = Inr ()" "j \<in> set (cf_jobs cf)" "resolve_destination cf j = Inr (dest, network)"
  shows "one_line dest"
  using assms validate_config_Inr(1,3) [OF assms(1)]
  by (auto simp: resolve_destination_def job_safe_def destination_safe_def split: option.splits if_splits)

lemma command_one_line:
  assumes "validate_config cf = Inr ()" "j \<in> set (cf_jobs cf)" "one_line cli" "one_line dest" "one_line member_type"
    and "c \<in> set (job_commands (job_context cf j cli dest) j member_type)" "a \<in> set c"
  shows "one_line a"
proof -
  note v = validate_config_Inr [OF assms(1)]
  have js: "job_safe cf j" using v(1) assms(2) by blast
  have ssh: "one_line x" if "x \<in> set (ssh_options (job_context cf j cli dest))" for x
  proof (cases "map_of (cf_destinations cf) (jc_dest j)")
    case (Some d)
    then show ?thesis using that v(3) [OF Some] by (auto simp: ssh_options_def job_context_def option_arg_def destination_safe_def split: option.splits)
  qed (use that in \<open>simp add: ssh_options_def job_context_def\<close>)
  have opt: "one_line x" if "x \<in> set (option_arg n o')" "one_line n" "\<And>s. o' = Some s \<Longrightarrow> one_line s" for x n o'
    using that by (auto simp: option_arg_def split: option.splits)
  have b: "one_line x" if x: "x \<in> set (backup_command (job_context cf j cli dest) j member_type src)" "src \<in> set (jc_source j)" for x src
    using x assms(3-5) js v(4) ssh unfolding backup_command_def
    by (auto simp: job_context_def job_safe_def option_arg_def split: option.splits if_splits)
  have r: "one_line x" if x: "x \<in> set (retention_command (job_context cf j cli dest) j keep)" for x keep
    using x assms(3-5) js ssh unfolding retention_command_def
    by (auto simp: job_context_def job_safe_def option_arg_def split: option.splits if_splits)
  show ?thesis using assms(6,7) b r by (auto simp: job_commands_def split: option.splits)
qed

section \<open>The settings of the units\<close>

lemma exec_filter:
  "filter (\<lambda>l. take 10 l = ''ExecStart='') (map (\<lambda>c. ''ExecStart='' @ command_line c) cmds) = map (\<lambda>c. ''ExecStart='' @ command_line c) cmds"
  "filter (\<lambda>l. take 5 l = ''User='') (map (\<lambda>c. ''ExecStart='' @ command_line c) cmds) = []"
  by (induction cmds) simp_all

lemma service_settings:
  assumes "one_line description" "\<forall>a. after = Some a \<longrightarrow> one_line a" "\<forall>c \<in> set cmds. c \<noteq> [] \<and> (\<forall>a \<in> set c. one_line a)"
  shows "map read_arguments (settings ''ExecStart'' (service_unit description network after cmds)) = map Some cmds"
    "settings ''User'' (service_unit description network after cmds) = [''root'']"
proof -
  have l: "unit_lines (service_unit description network after cmds) =
    [''[Unit]'', ''Description='' @ description] @ (if network then [''Wants=network-online.target'', ''After=network-online.target''] else [])
    @ (case after of None \<Rightarrow> [] | Some a \<Rightarrow> [''After='' @ a]) @ [[], ''[Service]'', ''Type=oneshot'', ''User=root'']
    @ map (\<lambda>c. ''ExecStart='' @ command_line c) cmds @ [[]]"
    using assms by (intro service_lines) auto
  have "settings ''ExecStart'' (service_unit description network after cmds) = map command_line cmds"
    unfolding settings_def l using exec_filter(1) [of cmds] by (simp add: comp_def split: option.split)
  then show "map read_arguments (settings ''ExecStart'' (service_unit description network after cmds)) = map Some cmds"
    using assms(3) by (simp add: read_command_line)
  show "settings ''User'' (service_unit description network after cmds) = [''root'']"
    unfolding settings_def l using exec_filter(2) [of cmds] by (simp split: option.split)
qed

lemma timer_settings:
  assumes "one_line description" "one_line calendar" "one_line unit_file" "\<forall>d. jc_randomized_delay j = Some d \<longrightarrow> one_line d"
  shows "settings ''OnCalendar'' (timer_unit description j calendar unit_file) = [calendar]"
    "settings ''Unit'' (timer_unit description j calendar unit_file) = [unit_file]"
    "settings ''RandomizedDelaySec'' (timer_unit description j calendar unit_file) = (case jc_randomized_delay j of None \<Rightarrow> [] | Some d \<Rightarrow> [d])"
  unfolding settings_def timer_lines [OF assms] by (simp_all split: option.split)

lemma unit_name_one_line: "one_line job \<Longrightarrow> one_line (unit_name job ''service'')" "one_line job \<Longrightarrow> one_line (chain_unit_name job ''service'')"
  by (simp_all add: unit_name_def chain_unit_name_def unit_prefix_def chain_unit_prefix_def)


section \<open>The files of the units\<close>

lemma unit_name_inject:
  assumes "k \<in> {''service'', ''timer''}" "k' \<in> {''service'', ''timer''}"
  shows "unit_name a k = unit_name b k' \<longleftrightarrow> a = b \<and> k = k'" "chain_unit_name a k = chain_unit_name b k' \<longleftrightarrow> a = b \<and> k = k'"
    "unit_name a k \<noteq> chain_unit_name b k'"
proof -
  have e: "a @ ''.'' @ k = b @ ''.'' @ k' \<longleftrightarrow> a = b \<and> k = k'"
  proof
    assume eq: "a @ ''.'' @ k = b @ ''.'' @ k'"
    then have "last (a @ ''.'' @ k) = last (b @ ''.'' @ k')" by simp
    then have "k = k'" using assms by auto
    then show "a = b \<and> k = k'" using eq by simp
  qed simp
  show "unit_name a k = unit_name b k' \<longleftrightarrow> a = b \<and> k = k'" "chain_unit_name a k = chain_unit_name b k' \<longleftrightarrow> a = b \<and> k = k'"
    "unit_name a k \<noteq> chain_unit_name b k'"
    using e by (simp_all add: unit_name_def chain_unit_name_def unit_prefix_def chain_unit_prefix_def)
qed

lemma rendered_files:
  assumes "render_job cf j cli = Inr u"
  shows "map fst (unit_files u) = [unit_name (jc_name j) ''service'', unit_name (jc_name j) ''timer'']
    @ (if new_chain_calendar j = None then [] else [chain_unit_name (jc_name j) ''service'', chain_unit_name (jc_name j) ''timer''])"
  using assms unfolding render_job_def unit_files_def Let_def by (auto simp: res_bind_eq_Inr)

lemma files_distinct:
  "distinct (map jc_name js) \<Longrightarrow> render_jobs cf cli js = Inr us \<Longrightarrow> distinct (map fst (concat (map unit_files us)))
     \<and> (\<forall>n \<in> set (map fst (concat (map unit_files us))). \<exists>j \<in> set js. \<exists>k \<in> {''service'', ''timer''}. n = unit_name (jc_name j) k \<or> n = chain_unit_name (jc_name j) k)"
proof (induction js arbitrary: us)
  case (Cons j js)
  then obtain u us' where u: "render_job cf j cli = Inr u" "render_jobs cf cli js = Inr us'" "us = u # us'" by (auto simp: res_bind_eq_Inr)
  have ih: "distinct (map fst (concat (map unit_files us')))"
    "\<forall>n \<in> set (map fst (concat (map unit_files us'))). \<exists>j' \<in> set js. \<exists>k \<in> {''service'', ''timer''}. n = unit_name (jc_name j') k \<or> n = chain_unit_name (jc_name j') k"
    using Cons.IH [OF _ u(2)] Cons.prems(1) by simp_all
  have own: "distinct (map fst (unit_files u))"
    "\<forall>n \<in> set (map fst (unit_files u)). \<exists>k \<in> {''service'', ''timer''}. n = unit_name (jc_name j) k \<or> n = chain_unit_name (jc_name j) k"
    unfolding rendered_files [OF u(1)] using unit_name_inject by auto
  have "set (map fst (unit_files u)) \<inter> set (map fst (concat (map unit_files us'))) = {}"
  proof (rule ccontr)
    assume "\<not> ?thesis"
    then obtain n where n: "n \<in> set (map fst (unit_files u))" "n \<in> set (map fst (concat (map unit_files us')))" by blast
    obtain k where k: "k \<in> {''service'', ''timer''}" "n = unit_name (jc_name j) k \<or> n = chain_unit_name (jc_name j) k" using own(2) n(1) by blast
    obtain j' k' where k': "j' \<in> set js" "k' \<in> {''service'', ''timer''}" "n = unit_name (jc_name j') k' \<or> n = chain_unit_name (jc_name j') k'"
      using ih(2) n(2) by blast
    have "jc_name j = jc_name j'" using k k' unit_name_inject [OF k(1) k'(2)] unit_name_inject [OF k'(2) k(1)] by metis
    then show False using Cons.prems(1) k'(1) by auto
  qed
  then show ?case using ih own u(3) by auto
qed simp

lemma write_files_Inr:
  "write_files fs s = (Inr (), s') \<Longrightarrow> distinct (map fst fs) \<Longrightarrow> sy_files s' = sy_files s ++ map_of fs"
proof (induction fs arbitrary: s)
  case (Cons f fs)
  obtain n c where f: "f = (n, c)" by fastforce
  obtain s1 where s1: "fs_write n c s = (Inr (), s1)" "write_files fs s1 = (Inr (), s')"
    using Cons.prems(1) by (auto simp: f fs_write_def next_io_def split: list.splits option.splits)
  have "sy_files s1 = (sy_files s)(n \<mapsto> c)" using s1(1) by (auto simp: fs_write_def next_io_def split: list.splits option.splits)
  moreover have "n \<notin> dom (map_of fs)" using Cons.prems(2) f by (simp add: dom_map_of_conv_image_fst)
  ultimately have "sy_files s' = (sy_files s)(n \<mapsto> c) ++ map_of fs" "map_of fs n = None"
    using Cons.IH [OF s1(2)] Cons.prems(2) f by (simp_all add: domIff del: fun_upd_apply)
  then show ?case using f by (auto simp: map_add_def fun_eq_iff split: option.splits)
qed simp

lemma systemctl_files: "run_systemctl args s = (r, s') \<Longrightarrow> sy_files s' = sy_files s"
  by (auto simp: run_systemctl_def Let_def split: list.splits)

lemma st_bind_ok: "st_bind m f = (Inr y, t) \<longleftrightarrow> (\<exists>x s. m = (Inr x, s) \<and> f x s = (Inr y, t))"
  by (cases m; cases "fst m") auto

text \<open>C15. Installing a schedule.  When it reports success outside a dry run, every unit of every job is in the
  directory under a name of its own with the content that was rendered - no unit of one job replaces a unit of
  another - and no other file of the directory has changed; a dry run changes nothing and runs nothing.\<close>

theorem schedule_installed:
  assumes "materialize from_toml text cli dir dry_run reload start s = (Inr rep, s')"
  shows "\<exists>cf. from_toml text = Some cf \<and> validate_config cf = Inr () \<and> render_jobs cf cli (cf_jobs cf) = Inr (sr_jobs rep)
    \<and> distinct (map fst (concat (map unit_files (sr_jobs rep))))
    \<and> (if dry_run then s' = s
       else sy_files s' = sy_files s ++ map_of (concat (map unit_files (sr_jobs rep))) \<and> sr_written rep = map fst (concat (map unit_files (sr_jobs rep))))"
proof -
  obtain cf jobs where c: "from_toml text = Some cf" "validate_config cf = Inr ()" "render_jobs cf cli (cf_jobs cf) = Inr jobs"
    using assms unfolding materialize_def schedule_parse_def by (auto simp: st_bind_ok res_bind_eq_Inr split: option.splits)
  let ?files = "concat (map unit_files jobs)" and ?S = "dir = default_systemd_dir"
  have run: "st_bind (if dry_run then (Inr (), s) else st_bind (fs_create_dir s) (\<lambda>_ s. write_files ?files s)) (\<lambda>_ s.
     st_bind (if reload \<and> \<not> dry_run \<and> ?S
         then st_bind (run_systemctl [''daemon-reload''] s) (\<lambda>_ s.
           if start then run_systemctl ([''enable'', ''--now''] @ concat (map unit_timers jobs)) s else (Inr (), s))
         else (Inr (), s)) (\<lambda>_ s.
       (Inr \<lparr> sr_jobs = jobs, sr_written = (if dry_run then [] else map fst ?files),
              sr_reloaded = (reload \<and> \<not> dry_run \<and> ?S), sr_started = (reload \<and> \<not> dry_run \<and> ?S \<and> start),
              sr_warned = (reload \<and> \<not> dry_run \<and> \<not> ?S) \<rparr>, s))) = (Inr rep, s')"
    using assms c unfolding materialize_def schedule_parse_def Let_def by simp
  have di: "distinct (map fst ?files)" using files_distinct [OF validate_config_Inr(2) [OF c(2)] c(3)] by blast
  from run obtain s1 s2 where s1: "(if dry_run then (Inr (), s) else st_bind (fs_create_dir s) (\<lambda>_ s. write_files ?files s)) = (Inr (), s1)"
    and s2: "(if reload \<and> \<not> dry_run \<and> ?S
         then st_bind (run_systemctl [''daemon-reload''] s1) (\<lambda>_ s.
           if start then run_systemctl ([''enable'', ''--now''] @ concat (map unit_timers jobs)) s else (Inr (), s))
         else (Inr (), s1)) = (Inr (), s2)" "s' = s2" and rep: "sr_jobs rep = jobs" "sr_written rep = (if dry_run then [] else map fst ?files)"
    unfolding st_bind_ok by auto
  show ?thesis
  proof (cases dry_run)
    case True
    then show ?thesis using c di s1 s2 rep by (intro exI [of _ cf]) simp
  next
    case False
    then obtain s0 where s0: "fs_create_dir s = (Inr (), s0)" "write_files ?files s0 = (Inr (), s1)" using s1 by (auto simp: st_bind_ok)
    have "sy_files s0 = sy_files s" using s0(1) by (auto simp: fs_create_dir_def next_io_def split: list.splits option.splits)
    then have f1: "sy_files s1 = sy_files s ++ map_of ?files" using write_files_Inr [OF s0(2) di] by simp
    have "sy_files s2 = sy_files s1"
    proof (cases "reload \<and> ?S")
      case True
      obtain sa where "run_systemctl [''daemon-reload''] s1 = (Inr (), sa)"
        "(if start then run_systemctl ([''enable'', ''--now''] @ concat (map unit_timers jobs)) sa else (Inr (), sa)) = (Inr (), s2)"
        using s2(1) True False by (auto simp: st_bind_ok)
      then show ?thesis using systemctl_files by (metis (full_types) snd_conv)
    next
      case no: False
      then show ?thesis using s2(1) by auto
    qed
    then show ?thesis using c di False f1 s2(2) rep by (intro exI [of _ cf]) simp
  qed
qed

section \<open>An example\<close>

definition demo_toml :: "string \<Rightarrow> config option" where
  "demo_toml text = (if text = ''demo'' then Some
     \<lparr> cf_daemon = \<lparr> dc_socket = default_socket, dc_log_level = default_log_level, dc_lvm_cow_size = None \<rparr>,
       cf_jobs = [\<lparr> jc_name = ''home'', jc_source = [''/srv/$HOME \"50%\"''], jc_dest = ''/backup'', jc_set = ''laptop'', jc_member_type = ''full'',
         jc_parent = None, jc_mode = Some ''file'', jc_snapshot = None, jc_compress = None, jc_encrypt = False, jc_passphrase_file = None,
         jc_on_calendar = ''daily'', jc_randomized_delay = None, jc_persistent = True, jc_retention = None \<rparr>],
       cf_destinations = [] \<rparr> else None)"

definition demo_config :: config where
  "demo_config = the (demo_toml ''demo'')"

definition demo_schedule_job :: job_config where
  "demo_schedule_job = hd (cf_jobs demo_config)"

definition demo_system :: system where
  "demo_system = \<lparr> sy_files = Map.empty, sy_io = [], sy_systemctl = [], sy_runs = [] \<rparr>"

lemma demo_valid: "validate_config demo_config = Inr ()"
  by code_simp

lemma demo_rendered: "\<exists>u. render_job demo_config demo_schedule_job ''/usr/bin/lr'' = Inr u"
proof -
  have "case render_job demo_config demo_schedule_job ''/usr/bin/lr'' of Inl _ \<Rightarrow> False | Inr _ \<Rightarrow> True" by code_simp
  then show ?thesis by (auto split: sum.splits)
qed

lemma demo_installed:
  "\<exists>rep s'. materialize demo_toml ''demo'' ''/usr/bin/lr'' default_systemd_dir False True True demo_system = (Inr rep, s')"
proof -
  let ?m = "materialize demo_toml ''demo'' ''/usr/bin/lr'' default_systemd_dir False True True demo_system"
  have "case ?m of (Inl _, _) \<Rightarrow> False | (Inr _, _) \<Rightarrow> True" by code_simp
  then show ?thesis by (cases ?m) (auto split: sum.splits)
qed


theorem schedule_installed_witness:
  "\<exists>rep s'. materialize demo_toml ''demo'' ''/usr/bin/lr'' default_systemd_dir False True True demo_system = (Inr rep, s')
    \<and> sr_written rep = [''linuxreflect-job@home.service'', ''linuxreflect-job@home.timer'']
    \<and> sy_files s' = map_of (concat (map unit_files (sr_jobs rep)))"
proof -
  let ?m = "materialize demo_toml ''demo'' ''/usr/bin/lr'' default_systemd_dir False True True demo_system"
  obtain rep s' where m: "?m = (Inr rep, s')" using demo_installed by blast
  have "case ?m of (Inl _, _) \<Rightarrow> False | (Inr r, _) \<Rightarrow> sr_written r = [''linuxreflect-job@home.service'', ''linuxreflect-job@home.timer'']"
    by code_simp
  then have w: "sr_written rep = [''linuxreflect-job@home.service'', ''linuxreflect-job@home.timer'']" unfolding m by simp
  have "sy_files s' = sy_files demo_system ++ map_of (concat (map unit_files (sr_jobs rep)))"
    using schedule_installed [OF m] by auto
  then have "sy_files s' = map_of (concat (map unit_files (sr_jobs rep)))" by (simp add: demo_system_def)
  then show ?thesis using m w by blast
qed


end
