(* ===== verification/Publish.thy ===== *)
theory Publish
  imports Destination
begin

text \<open>
  Publication on a remote server: \<open>crates/lr-store/src/publish.rs\<close> over the trait \<open>RemoteOps\<close>, and its
  implementation for SFTP in \<open>sftp.rs\<close> with the retries of \<open>run_with\<close> and \<open>once\<close>.  The server is a map from
  paths to contents; the network decides for every request whether it is answered, refused or lost, and a lost
  request may have been carried out before its reply got lost.  A lost request is carried out, if at all, before
  the next one is sent.  Waiting between attempts is not modelled.  The lower-cased text of an error is a
  parameter.
\<close>

section \<open>Transient errors\<close>

definition transient_kinds :: "string list" where
  "transient_kinds = [''connection reset'', ''connection aborted'', ''broken pipe'', ''timed out'', ''unexpected end of file'',
     ''not connected'', ''operation would block'']"

definition transient_texts :: "string list" where
  "transient_texts = [''connection lost'', ''no connection'', ''timeout'', ''broken pipe'', ''reset by peer'', ''unexpected packet'',
     ''session closed'']"

definition is_transient :: "(lr_error \<Rightarrow> string) \<Rightarrow> lr_error \<Rightarrow> bool" where
  "is_transient text e =
     (case e of
        NetworkTimeout _ \<Rightarrow> True
      | Io kind \<Rightarrow> kind \<in> set transient_kinds
      | _ \<Rightarrow> list_ex (contains (text e)) transient_texts)"

section \<open>The protocol\<close>

record 's remote_ops =
  ro_size :: "string \<Rightarrow> 's \<Rightarrow> u64 option res \<times> 's"
  ro_sync :: "string \<Rightarrow> 's \<Rightarrow> bool res \<times> 's"
  ro_rename :: "string \<Rightarrow> string \<Rightarrow> 's \<Rightarrow> unit res \<times> 's"
  ro_rename_over :: "string \<Rightarrow> string \<Rightarrow> 's \<Rightarrow> bool res \<times> 's"
  ro_remove :: "string \<Rightarrow> 's \<Rightarrow> unit res \<times> 's"

definition vanished :: lr_error where
  "vanished = io_not_found"

text \<open>The result of an attempt is whether the operation exists on the server.\<close>

fun renamed_with ::
    "'s remote_ops \<Rightarrow> (lr_error \<Rightarrow> string) \<Rightarrow> string \<Rightarrow> string \<Rightarrow> u64 \<Rightarrow> nat \<Rightarrow> ('s \<Rightarrow> bool res \<times> 's) \<Rightarrow> 's \<Rightarrow> bool res \<times> 's" where
  "renamed_with R text from to expected 0 attempt s = (Inl (NetworkTimeout ''publishing ''), s)"
| "renamed_with R text from to expected (Suc n) attempt s =
     (case attempt s of
        (Inr supported, s) \<Rightarrow> (Inr supported, s)
      | (Inl e, s) \<Rightarrow>
          st_bind (ro_size R from s) (\<lambda>a s.
          st_bind (ro_size R to s) (\<lambda>b s.
            if a = None \<and> b = Some expected then (Inr True, s)
            else if a \<noteq> None \<and> b \<noteq> None \<and> \<not> is_transient text e
              then (Inl (Unsupported '' already exists; a published image is never replaced''), s)
            else if a = None then (Inl vanished, s)
            else if is_transient text e \<and> 0 < n then renamed_with R text from to expected n attempt s
            else (Inl e, s))))"

definition synced :: "'s remote_ops \<Rightarrow> string \<Rightarrow> 's \<Rightarrow> durability res \<times> 's" where
  "synced R path s = st_bind (ro_sync R path s) (\<lambda>done_sync s.
     (Inr (if done_sync then Synced else Unconfirmed ''the SFTP server does not offer fsync@openssh.com''), s))"

definition rename_attempt :: "'s remote_ops \<Rightarrow> string \<Rightarrow> string \<Rightarrow> 's \<Rightarrow> bool res \<times> 's" where
  "rename_attempt R from to s = st_bind (ro_rename R from to s) (\<lambda>_ s. (Inr True, s))"

definition expected_size :: "'s remote_ops \<Rightarrow> string \<Rightarrow> 's \<Rightarrow> u64 res \<times> 's" where
  "expected_size R from s = st_bind (ro_size R from s) (\<lambda>z s. (case z of None \<Rightarrow> Inl vanished | Some n \<Rightarrow> Inr n, s))"

definition publish_new_with :: "'s remote_ops \<Rightarrow> (lr_error \<Rightarrow> string) \<Rightarrow> string \<Rightarrow> string \<Rightarrow> nat \<Rightarrow> 's \<Rightarrow> durability res \<times> 's" where
  "publish_new_with R text from to attempts s =
     st_bind (synced R from s) (\<lambda>durability s.
     st_bind (expected_size R from s) (\<lambda>expected s.
     st_bind (renamed_with R text from to expected attempts (rename_attempt R from to) s) (\<lambda>_ s. (Inr durability, s))))"

definition aside_name :: "string \<Rightarrow> uuid \<Rightarrow> string" where
  "aside_name to random = to @ ''.'' @ to_uuid_string random @ ''.old''"

text \<open>The old copy is moved aside under a random name; \<open>random\<close> is the result of \<open>Id::generate\<close>.\<close>

definition move_aside ::
    "'s remote_ops \<Rightarrow> (lr_error \<Rightarrow> string) \<Rightarrow> uuid res \<Rightarrow> string \<Rightarrow> nat \<Rightarrow> 's \<Rightarrow> string option res \<times> 's" where
  "move_aside R text random to attempts s =
     st_bind (ro_size R to s) (\<lambda>z s.
       case z of
         None \<Rightarrow> (Inr None, s)
       | Some n \<Rightarrow>
           st_bind (random, s) (\<lambda>r s.
           st_bind (renamed_with R text to (aside_name to r) n attempts (rename_attempt R to (aside_name to r)) s) (\<lambda>_ s.
             (Inr (Some (aside_name to r)), s))))"

definition replace_with ::
    "'s remote_ops \<Rightarrow> (lr_error \<Rightarrow> string) \<Rightarrow> uuid res \<Rightarrow> string \<Rightarrow> string \<Rightarrow> nat \<Rightarrow> 's \<Rightarrow> durability res \<times> 's" where
  "replace_with R text random from to attempts s =
     st_bind (synced R from s) (\<lambda>durability s.
     st_bind (expected_size R from s) (\<lambda>expected s.
     st_bind (renamed_with R text from to expected attempts (ro_rename_over R from to) s) (\<lambda>supported s.
       if supported then (Inr durability, s)
       else
         st_bind (move_aside R text random to attempts s) (\<lambda>aside s.
         st_bind (renamed_with R text from to expected attempts (rename_attempt R from to) s) (\<lambda>_ s.
           (Inr durability, case aside of None \<Rightarrow> s | Some p \<Rightarrow> snd (ro_remove R p s)))))))"

section \<open>The SFTP server\<close>

datatype net_failure = ConnectionLost | NoConnection | NetTimeout | OtherFailure string

datatype sftp_failure = Net net_failure | NoSuchFile

definition sftp_error :: "string \<Rightarrow> sftp_failure \<Rightarrow> lr_error" where
  "sftp_error context f =
     (case f of
        Net ConnectionLost \<Rightarrow> Io ''connection aborted''
      | Net NoConnection \<Rightarrow> Io ''connection aborted''
      | Net NetTimeout \<Rightarrow> NetworkTimeout context
      | Net (OtherFailure what) \<Rightarrow> Corrupt (context @ '': '' @ what)
      | NoSuchFile \<Rightarrow> io_not_found)"

text \<open>What becomes of a request: it is answered, it fails without reaching the server's files, or its reply is lost.\<close>

datatype fate = Served | Refused net_failure | Unanswered net_failure

record sftp_session =
  sv_files :: "string \<rightharpoonup> bytes"
  sv_connected :: bool
  sv_connects :: "lr_error option list"
  sv_fates :: "fate list"

text \<open>The configuration, and what the server offers: the extensions it announced and whether it reports sizes.\<close>

record sftp_config =
  sc_root :: string
  sc_set_name :: string
  sc_fsync :: bool
  sc_posix_rename :: bool
  sc_sizes :: bool

definition set_path :: "sftp_config \<Rightarrow> string" where
  "set_path cf = rev (dropWhile (\<lambda>c. c = CHR ''/'') (rev (sc_root cf))) @ ''/'' @ sc_set_name cf"

definition file_path :: "sftp_config \<Rightarrow> string \<Rightarrow> string" where
  "file_path cf name = set_path cf @ ''/'' @ name"

definition connection :: "sftp_session \<Rightarrow> unit res \<times> sftp_session" where
  "connection s =
     (if sv_connected s then (Inr (), s)
      else case sv_connects s of
        [] \<Rightarrow> (Inr (), s\<lparr> sv_connected := True \<rparr>)
      | None # cs \<Rightarrow> (Inr (), s\<lparr> sv_connected := True, sv_connects := cs \<rparr>)
      | Some e # cs \<Rightarrow> (Inl e, s\<lparr> sv_connects := cs \<rparr>))"

definition drop_connection :: "sftp_session \<Rightarrow> sftp_session" where
  "drop_connection s = s\<lparr> sv_connected := False \<rparr>"

text \<open>One request: \<open>serve\<close> is what the server does with it.\<close>

definition request ::
    "string \<Rightarrow> ((string \<rightharpoonup> bytes) \<Rightarrow> (sftp_failure + 'a) \<times> (string \<rightharpoonup> bytes)) \<Rightarrow> sftp_session \<Rightarrow> 'a res \<times> sftp_session" where
  "request context serve s =
     (let (r, files) = serve (sv_files s); answer = map_sum (sftp_error context) id r; served = s\<lparr> sv_files := files \<rparr> in
      case sv_fates s of
        [] \<Rightarrow> (answer, served)
      | Served # fs \<Rightarrow> (answer, served\<lparr> sv_fates := fs \<rparr>)
      | Refused e # fs \<Rightarrow> (Inl (sftp_error context (Net e)), s\<lparr> sv_fates := fs \<rparr>)
      | Unanswered e # fs \<Rightarrow> (Inl (sftp_error context (Net e)), served\<lparr> sv_fates := fs \<rparr>))"

definition once :: "(lr_error \<Rightarrow> string) \<Rightarrow> (sftp_session \<Rightarrow> 'a res \<times> sftp_session) \<Rightarrow> sftp_session \<Rightarrow> 'a res \<times> sftp_session" where
  "once text operation s =
     st_bind (connection s) (\<lambda>_ s.
       case operation s of
         (Inl e, s) \<Rightarrow> (Inl e, if is_transient text e then drop_connection s else s)
       | (Inr x, s) \<Rightarrow> (Inr x, s))"

fun run_with ::
    "(lr_error \<Rightarrow> string) \<Rightarrow> string \<Rightarrow> (sftp_session \<Rightarrow> 'a res \<times> sftp_session) \<Rightarrow> nat \<Rightarrow> lr_error option \<Rightarrow> sftp_session
     \<Rightarrow> 'a res \<times> sftp_session" where
  "run_with text label operation 0 latest s = (Inl (case latest of Some e \<Rightarrow> e | None \<Rightarrow> NetworkTimeout label), s)"
| "run_with text label operation (Suc n) latest s =
     (case connection s of
        (Inl e, s) \<Rightarrow> run_with text label operation n (Some e) s
      | (Inr _, s) \<Rightarrow>
          (case operation s of
             (Inr x, s) \<Rightarrow> (Inr x, s)
           | (Inl e, s) \<Rightarrow>
               if \<not> is_transient text e \<or> n = 0 then (Inl e, s)
               else run_with text label operation n (Some e) (drop_connection s)))"

definition retry_attempts :: nat where
  "retry_attempts = 5"

definition serve_stat :: "bool \<Rightarrow> string \<Rightarrow> (string \<rightharpoonup> bytes) \<Rightarrow> (sftp_failure + u64) \<times> (string \<rightharpoonup> bytes)" where
  "serve_stat sizes path files =
     (case files path of None \<Rightarrow> Inl NoSuchFile | Some b \<Rightarrow> Inr (if sizes then word_of_nat (length b) else 0), files)"

definition serve_open :: "string \<Rightarrow> (string \<rightharpoonup> bytes) \<Rightarrow> (sftp_failure + unit) \<times> (string \<rightharpoonup> bytes)" where
  "serve_open path files = (case files path of None \<Rightarrow> Inl NoSuchFile | Some _ \<Rightarrow> Inr (), files)"

definition serve_rename :: "string \<Rightarrow> string \<Rightarrow> (string \<rightharpoonup> bytes) \<Rightarrow> (sftp_failure + unit) \<times> (string \<rightharpoonup> bytes)" where
  "serve_rename from to files =
     (case files from of
        None \<Rightarrow> (Inl NoSuchFile, files)
      | Some b \<Rightarrow> if files to \<noteq> None then (Inl (Net (OtherFailure ''Failure'')), files)
          else (Inr (), files(from := None, to \<mapsto> b)))"

definition serve_posix_rename :: "string \<Rightarrow> string \<Rightarrow> (string \<rightharpoonup> bytes) \<Rightarrow> (sftp_failure + unit) \<times> (string \<rightharpoonup> bytes)" where
  "serve_posix_rename from to files =
     (case files from of None \<Rightarrow> (Inl NoSuchFile, files) | Some b \<Rightarrow> (Inr (), files(from := None, to \<mapsto> b)))"

definition serve_remove :: "string \<Rightarrow> (string \<rightharpoonup> bytes) \<Rightarrow> (sftp_failure + unit) \<times> (string \<rightharpoonup> bytes)" where
  "serve_remove path files = (case files path of None \<Rightarrow> (Inl NoSuchFile, files) | Some _ \<Rightarrow> (Inr (), files(path := None)))"

definition stat_operation :: "bool \<Rightarrow> string \<Rightarrow> sftp_session \<Rightarrow> u64 option res \<times> sftp_session" where
  "stat_operation sizes path s =
     (case request ''stat'' (serve_stat sizes path) s of
        (Inr n, s) \<Rightarrow> (Inr (Some n), s)
      | (Inl e, s) \<Rightarrow> (if e = io_not_found then Inr None else Inl e, s))"

definition sftp_size :: "sftp_config \<Rightarrow> (lr_error \<Rightarrow> string) \<Rightarrow> string \<Rightarrow> sftp_session \<Rightarrow> u64 option res \<times> sftp_session" where
  "sftp_size cf text path s = run_with text ''stat'' (stat_operation (sc_sizes cf) path) retry_attempts None s"

definition fsync_operation :: "bool \<Rightarrow> string \<Rightarrow> sftp_session \<Rightarrow> bool res \<times> sftp_session" where
  "fsync_operation supported path s =
     (if \<not> supported then (Inr False, s)
      else
        st_bind (request ''open for fsync'' (serve_open path) s) (\<lambda>_ s.
        case request ''fsync'' (\<lambda>files. (Inr (), files)) s of
          (z, s) \<Rightarrow> (case request ''close'' (\<lambda>files. (Inr (), files)) s of (_, s) \<Rightarrow> (map_sum id (\<lambda>_. True) z, s))))"

definition sftp_sync :: "sftp_config \<Rightarrow> (lr_error \<Rightarrow> string) \<Rightarrow> string \<Rightarrow> sftp_session \<Rightarrow> bool res \<times> sftp_session" where
  "sftp_sync cf text path s = run_with text ''fsync'' (fsync_operation (sc_fsync cf) path) retry_attempts None s"

definition sftp_rename :: "(lr_error \<Rightarrow> string) \<Rightarrow> string \<Rightarrow> string \<Rightarrow> sftp_session \<Rightarrow> unit res \<times> sftp_session" where
  "sftp_rename text from to s = once text (request ''rename'' (serve_rename from to)) s"

definition posix_rename :: "string \<Rightarrow> string \<Rightarrow> sftp_session \<Rightarrow> unit res \<times> sftp_session" where
  "posix_rename from to s =
     (if 2 ^ 32 \<le> length from \<or> 2 ^ 32 \<le> length to
        then (Inl (sftp_error ''posix-rename'' (Net (OtherFailure ''path too long''))), s)
      else request ''posix-rename'' (serve_posix_rename from to) s)"

definition sftp_rename_over :: "sftp_config \<Rightarrow> (lr_error \<Rightarrow> string) \<Rightarrow> string \<Rightarrow> string \<Rightarrow> sftp_session \<Rightarrow> bool res \<times> sftp_session" where
  "sftp_rename_over cf text from to s =
     once text (\<lambda>s. if \<not> sc_posix_rename cf then (Inr False, s)
       else st_bind (posix_rename from to s) (\<lambda>_ s. (Inr True, s))) s"

definition sftp_remove :: "(lr_error \<Rightarrow> string) \<Rightarrow> string \<Rightarrow> sftp_session \<Rightarrow> unit res \<times> sftp_session" where
  "sftp_remove text path s = run_with text ''delete'' (request ''delete'' (serve_remove path)) retry_attempts None s"

definition sftp_ops :: "sftp_config \<Rightarrow> (lr_error \<Rightarrow> string) \<Rightarrow> sftp_session remote_ops" where
  "sftp_ops cf text = \<lparr> ro_size = sftp_size cf text, ro_sync = sftp_sync cf text, ro_rename = sftp_rename text,
     ro_rename_over = sftp_rename_over cf text, ro_remove = sftp_remove text \<rparr>"

definition sftp_publish_new :: "sftp_config \<Rightarrow> (lr_error \<Rightarrow> string) \<Rightarrow> string \<Rightarrow> string \<Rightarrow> sftp_session \<Rightarrow> durability res \<times> sftp_session" where
  "sftp_publish_new cf text tmp final_name s = publish_new_with (sftp_ops cf text) text (file_path cf tmp) (file_path cf final_name) retry_attempts s"

definition sftp_replace ::
    "sftp_config \<Rightarrow> (lr_error \<Rightarrow> string) \<Rightarrow> uuid res \<Rightarrow> string \<Rightarrow> string \<Rightarrow> sftp_session \<Rightarrow> durability res \<times> sftp_session" where
  "sftp_replace cf text random tmp final_name s = replace_with (sftp_ops cf text) text random (file_path cf tmp) (file_path cf final_name) retry_attempts s"


section \<open>What the protocol relies on and what it gives\<close>

text \<open>The contents of \<open>a\<close> are at \<open>b\<close> now; with \<open>fresh\<close>, \<open>b\<close> did not exist before.\<close>

definition moved :: "bool \<Rightarrow> string \<Rightarrow> string \<Rightarrow> (string \<rightharpoonup> bytes) \<Rightarrow> (string \<rightharpoonup> bytes) \<Rightarrow> bool" where
  "moved fresh a b F F' \<longleftrightarrow> (\<exists>c. F a = Some c \<and> (fresh \<longrightarrow> F b = None) \<and> F' = F(a := None, b \<mapsto> c))"

text \<open>Neither the new contents at \<open>t\<close> nor the old ones at \<open>n\<close> are lost, and no file but these and \<open>asides\<close> changes.\<close>

definition both_kept :: "string set \<Rightarrow> string \<Rightarrow> string \<Rightarrow> (string \<rightharpoonup> bytes) \<Rightarrow> (string \<rightharpoonup> bytes) \<Rightarrow> bool" where
  "both_kept asides t n F F' \<longleftrightarrow>
     (\<forall>b. F t = Some b \<longrightarrow> F' t = Some b \<or> F' n = Some b)
     \<and> (\<forall>c. F n = Some c \<longrightarrow> F' n = Some c \<or> (\<exists>p \<in> asides. F' p = Some c) \<or> (\<exists>b. F t = Some b \<and> F' n = Some b))
     \<and> (\<forall>p. p \<notin> asides \<union> {t, n} \<longrightarrow> F' p = F p)"

definition aside_names :: "string \<Rightarrow> uuid res \<Rightarrow> string set" where
  "aside_names n random = (case random of Inl _ \<Rightarrow> {} | Inr r \<Rightarrow> {aside_name n r})"

lemma aside_name_neq [simp]: "aside_name n r \<noteq> n" "n \<noteq> aside_name n r"
  by (simp_all add: aside_name_def)

locale remote =
  fixes R :: "'s remote_ops"
    and files :: "'s \<Rightarrow> string \<rightharpoonup> bytes"
    and size_of :: "bytes \<Rightarrow> u64"
  assumes stat: "ro_size R p s = (r, s') \<Longrightarrow> files s' = files s \<and> (\<forall>x. r = Inr x \<longrightarrow> x = map_option size_of (files s p))"
    and sync: "ro_sync R p s = (r', s') \<Longrightarrow> files s' = files s"
    and rename: "ro_rename R a b s = (u, s') \<Longrightarrow> files s' = files s \<and> u \<noteq> Inr () \<or> moved True a b (files s) (files s')"
    and rename_over: "ro_rename_over R a b s = (v, s') \<Longrightarrow>
        files s' = files s \<and> v \<noteq> Inr True \<or> moved False a b (files s) (files s') \<and> v \<noteq> Inr False"
    and remove: "ro_remove R p s = (u, s') \<Longrightarrow> files s' = files s \<or> files s' = (files s)(p := None)"
begin

definition renames :: "bool \<Rightarrow> string \<Rightarrow> string \<Rightarrow> ('s \<Rightarrow> bool res \<times> 's) \<Rightarrow> bool" where
  "renames fresh a b f \<longleftrightarrow> (\<forall>s r s'. f s = (r, s') \<longrightarrow>
     files s' = files s \<and> r \<noteq> Inr True \<and> (fresh \<longrightarrow> isl r) \<or> moved fresh a b (files s) (files s') \<and> r \<noteq> Inr False)"

lemma renames_over: "renames False a b (ro_rename_over R a b)"
  unfolding renames_def using rename_over by blast

lemma renames_attempt: "renames True a b (rename_attempt R a b)"
  unfolding renames_def
proof (intro allI impI)
  fix s r s'
  assume run: "rename_attempt R a b s = (r, s')"
  obtain u s1 where u: "ro_rename R a b s = (u, s1)" by fastforce
  then show "files s' = files s \<and> r \<noteq> Inr True \<and> (True \<longrightarrow> isl r) \<or> moved True a b (files s) (files s') \<and> r \<noteq> Inr False"
    using run rename [OF u] by (cases u) (auto simp: rename_attempt_def)
qed

lemma moved_fresh: "a \<noteq> b \<Longrightarrow> moved fresh a b F F' \<Longrightarrow> F' a = None"
  by (auto simp: moved_def)

lemma renamed_with_outcome:
  assumes "renames fresh a b f" "a \<noteq> b \<or> fresh" "files s a \<noteq> None" "renamed_with R text a b n k f s = (r, s')"
  shows "files s' = files s \<and> r \<noteq> Inr True \<and> (fresh \<longrightarrow> isl r) \<or> moved fresh a b (files s) (files s') \<and> r \<noteq> Inr False"
  using assms(3,4)
proof (induction k arbitrary: s)
  case (Suc k)
  obtain z s1 where z: "f s = (z, s1)" by fastforce
  have step: "files s1 = files s \<and> z \<noteq> Inr True \<and> (fresh \<longrightarrow> isl z) \<or> moved fresh a b (files s) (files s1) \<and> z \<noteq> Inr False"
    using assms(1) z unfolding renames_def by blast
  show ?case
  proof (cases z)
    case (Inr v)
    then show ?thesis using Suc.prems(2) step z by auto
  next
    case (Inl e)
    obtain za s2 where za: "ro_size R a s1 = (za, s2)" by fastforce
    obtain zb s3 where zb: "ro_size R b s2 = (zb, s3)" by fastforce
    have F: "files s2 = files s1" "files s3 = files s1" using stat [OF za] stat [OF zb] by simp_all
    show ?thesis
    proof (cases "files s1 = files s")
      case True
      have present: "za \<noteq> Inr None" using stat [OF za] True Suc.prems(1) by auto
      consider "files s' = files s" "\<not> isl r \<Longrightarrow> False" | "renamed_with R text a b n k f s3 = (r, s')"
        using Suc.prems(2) z Inl za zb F True present by (cases za; cases zb) (auto split: if_splits)
      then show ?thesis
      proof cases
        case 1
        then show ?thesis by (cases r) auto
      next
        case 2
        have "files s3 a \<noteq> None" "files s3 = files s" using F True Suc.prems(1) by simp_all
        then show ?thesis using Suc.IH [OF _ 2] by simp
      qed
    next
      case False
      then have m: "moved fresh a b (files s) (files s1)" using step by blast
      then have "files s1 a = None" using assms(2) by (auto simp: moved_def)
      then have "za = Inr None \<or> isl za" using stat [OF za] by (cases za) auto
      then have "files s' = files s1" "r \<noteq> Inr False"
        using Suc.prems(2) z Inl za zb F by (cases za; cases zb; auto split: if_splits)+
      then show ?thesis using m by simp
    qed
  qed
qed auto

lemma synced_files: "synced R p s = (r, s') \<Longrightarrow> files s' = files s"
  using sync by (cases "ro_sync R p s"; cases "fst (ro_sync R p s)") (auto simp: synced_def)

lemma expected_size_files:
  "expected_size R p s = (r, s') \<Longrightarrow> files s' = files s \<and> (\<forall>n. r = Inr n \<longrightarrow> files s p \<noteq> None)"
  using stat by (cases "ro_size R p s"; cases "fst (ro_size R p s)") (fastforce simp: expected_size_def split: option.splits)+

lemma publish_new_outcome:
  assumes "publish_new_with R text t n k s = (r, s')"
  shows "files s' = files s \<and> isl r \<or> moved True t n (files s) (files s')"
proof -
  obtain z1 s1 where z1: "synced R t s = (z1, s1)" by fastforce
  obtain z2 s2 where z2: "expected_size R t s1 = (z2, s2)" by fastforce
  note F = synced_files [OF z1] expected_size_files [OF z2]
  show ?thesis
  proof (cases "isl z1 \<or> isl z2")
    case True
    then show ?thesis using assms F z1 z2 by (cases z1; cases z2) (auto simp: publish_new_with_def)
  next
    case False
    then obtain d e where de: "z1 = Inr d" "z2 = Inr e" by (auto simp: isl_def split: sum.splits) (metis sum.exhaust)
    obtain z3 s3 where z3: "renamed_with R text t n e k (rename_attempt R t n) s2 = (z3, s3)" by fastforce
    have "files s2 t \<noteq> None" "files s2 = files s" using F de by auto
    from renamed_with_outcome [OF renames_attempt _ this(1) z3] this(2)
    have "files s3 = files s \<and> isl z3 \<or> moved True t n (files s) (files s3)" by auto
    then show ?thesis using assms z1 z2 z3 de by (cases z3) (auto simp: publish_new_with_def)
  qed
qed

lemma move_aside_outcome:
  assumes "move_aside R text random n k s = (r, s')"
  shows "files s' = files s \<and> (isl r \<or> r = Inr None \<and> files s n = None)
    \<or> (\<exists>rid. random = Inr rid \<and> moved True n (aside_name n rid) (files s) (files s') \<and> (isl r \<or> r = Inr (Some (aside_name n rid))))"
proof -
  obtain z s1 where z: "ro_size R n s = (z, s1)" by fastforce
  note F = stat [OF z]
  show ?thesis
  proof (cases "\<exists>m rid. z = Inr (Some m) \<and> random = Inr rid")
    case False
    then show ?thesis using assms z F by (cases z; cases random) (auto simp: move_aside_def split: option.splits)
  next
    case True
    then obtain m rid where mr: "z = Inr (Some m)" "random = Inr rid" by blast
    obtain z2 s2 where z2: "renamed_with R text n (aside_name n rid) m k (rename_attempt R n (aside_name n rid)) s1 = (z2, s2)" by fastforce
    have "files s1 n \<noteq> None" using F mr(1) by (cases "files s n") auto
    from renamed_with_outcome [OF renames_attempt _ this z2]
    have "files s2 = files s \<and> isl z2 \<or> moved True n (aside_name n rid) (files s) (files s2)" using F by auto
    then show ?thesis using assms z z2 mr by (cases z2) (auto simp: move_aside_def)
  qed
qed

lemma replace_outcome:
  assumes "replace_with R text random t n k s = (r, s')" "t \<noteq> n" "t \<notin> aside_names n random"
  shows "both_kept (aside_names n random) t n (files s) (files s') \<and> (isl r \<or> files s t \<noteq> None \<and> files s' n = files s t \<and> files s' t = None)"
proof -
  obtain z1 s1 where z1: "synced R t s = (z1, s1)" by fastforce
  obtain z2 s2 where z2: "expected_size R t s1 = (z2, s2)" by fastforce
  note F = synced_files [OF z1] expected_size_files [OF z2]
  show ?thesis
  proof (cases "isl z1 \<or> isl z2")
    case True
    then show ?thesis using assms(1) F z1 z2 by (cases z1; cases z2) (auto simp: replace_with_def both_kept_def)
  next
    case False
    then obtain d e where de: "z1 = Inr d" "z2 = Inr e" by (auto simp: isl_def split: sum.splits) (metis sum.exhaust)
    have s2: "files s2 t \<noteq> None" "files s2 = files s" using F de by auto
    obtain z3 s3 where z3: "renamed_with R text t n e k (ro_rename_over R t n) s2 = (z3, s3)" by fastforce
    from renamed_with_outcome [OF renames_over _ s2(1) z3] assms(2) s2(2)
    have o3: "files s3 = files s \<and> z3 \<noteq> Inr True \<or> moved False t n (files s) (files s3) \<and> z3 \<noteq> Inr False" by simp
    show ?thesis
    proof (cases "z3 = Inr False")
      case False
      then have "s' = s3" "isl r \<or> z3 = Inr True" using assms(1) z1 z2 z3 de by (cases z3; auto simp: replace_with_def)+
      then show ?thesis using o3 assms(2) by (auto simp: both_kept_def moved_def)
    next
      case True
      then have s3: "files s3 = files s" using o3 by blast
      obtain z4 s4 where z4: "move_aside R text random n k s3 = (z4, s4)" by fastforce
      have o4: "files s4 = files s \<and> (isl z4 \<or> z4 = Inr None \<and> files s n = None)
          \<or> (\<exists>rid. random = Inr rid \<and> moved True n (aside_name n rid) (files s) (files s4) \<and> (isl z4 \<or> z4 = Inr (Some (aside_name n rid))))"
        using move_aside_outcome [OF z4] s3 by simp
      then have s4: "files s4 t = files s t" "both_kept (aside_names n random) t n (files s) (files s4)" "isl z4 \<or> files s4 n = None"
        using assms(2,3) by (auto simp: both_kept_def moved_def aside_names_def)
      show ?thesis
      proof (cases z4)
        case (Inl er)
        then show ?thesis using assms(1) z1 z2 z3 z4 de True s4 by (auto simp: replace_with_def)
      next
        case (Inr aside)
        obtain z5 s5 where z5: "renamed_with R text t n e k (rename_attempt R t n) s4 = (z5, s5)" by fastforce
        have "files s4 t \<noteq> None" using s4(1) s2 by simp
        from renamed_with_outcome [OF renames_attempt _ this z5]
        have o5: "files s5 = files s4 \<and> isl z5 \<or> moved True t n (files s4) (files s5)" by auto
        then have s5: "both_kept (aside_names n random) t n (files s) (files s5)" "isl z5 \<or> files s5 n = files s t \<and> files s5 t = None"
          using s4 assms(2,3) by (auto simp: both_kept_def moved_def)
        have a: "aside = None \<or> (\<exists>p \<in> aside_names n random. aside = Some p)" using o4 Inr by (auto simp: aside_names_def)
        have "files (snd (ro_remove R p s5)) = files s5 \<or> files (snd (ro_remove R p s5)) = (files s5)(p := None)" for p
          using remove by (metis prod.collapse)
        moreover have "n \<notin> aside_names n random" by (auto simp: aside_names_def split: sum.splits)
        ultimately have "both_kept (aside_names n random) t n (files s) (files (case aside of None \<Rightarrow> s5 | Some p \<Rightarrow> snd (ro_remove R p s5)))
            \<and> files (case aside of None \<Rightarrow> s5 | Some p \<Rightarrow> snd (ro_remove R p s5)) n = files s t
            \<and> files (case aside of None \<Rightarrow> s5 | Some p \<Rightarrow> snd (ro_remove R p s5)) t = None" if "\<not> isl z5"
          using s5 a that assms(3) s2 unfolding both_kept_def
          by (cases aside) (auto simp: fun_upd_def, metis+)
        then show ?thesis using assms(1) z1 z2 z3 z4 z5 de True Inr s5 s2 by (cases z5) (auto simp: replace_with_def)
      qed
    qed
  qed
qed

end


section \<open>The SFTP destination keeps the contract\<close>

lemma connection_files: "connection s = (r, s') \<Longrightarrow> sv_files s' = sv_files s"
  by (auto simp: connection_def split: if_splits list.splits option.splits)

lemma drop_connection_files [simp]: "sv_files (drop_connection s) = sv_files s"
  by (simp add: drop_connection_def)

lemma request_outcome:
  assumes "request context serve s = (r, s')" "serve (sv_files s) = (q, F)"
  shows "isl r \<and> sv_files s' = sv_files s \<or> (isl r \<or> r = map_sum (sftp_error context) id q) \<and> sv_files s' = F"
  using assms by (auto simp: request_def Let_def split: list.splits fate.splits)

lemma run_with_rel:
  assumes "\<And>s r s'. operation s = (r, s') \<Longrightarrow> rel (sv_files s) (sv_files s') \<and> (\<forall>x. r = Inr x \<longrightarrow> ok x (sv_files s'))"
    and "\<And>F. rel F F" "\<And>F G H. rel F G \<Longrightarrow> rel G H \<Longrightarrow> rel F H"
  shows "run_with text label operation k latest s = (r, s') \<Longrightarrow> rel (sv_files s) (sv_files s') \<and> (\<forall>x. r = Inr x \<longrightarrow> ok x (sv_files s'))"
proof (induction k arbitrary: s latest)
  case 0
  then show ?case using assms(2) by auto
next
  case (Suc k)
  obtain z s1 where z: "connection s = (z, s1)" by fastforce
  have f1: "sv_files s1 = sv_files s" by (rule connection_files [OF z])
  show ?case
  proof (cases z)
    case (Inl e)
    then show ?thesis using Suc.IH [where s = s1 and latest = "Some e"] Suc.prems z f1 by simp
  next
    case (Inr u)
    obtain q s2 where q: "operation s1 = (q, s2)" by fastforce
    note o = assms(1) [OF q, unfolded f1]
    show ?thesis
    proof (cases "\<exists>e. q = Inl e \<and> is_transient text e \<and> k \<noteq> 0")
      case True
      then obtain e where "run_with text label operation k (Some e) (drop_connection s2) = (r, s')" using Suc.prems z Inr q by auto
      from Suc.IH [OF this] show ?thesis using o assms(3) by auto
    next
      case False
      then have "r = q" "s' = s2" using Suc.prems z Inr q by (auto split: sum.splits if_splits)
      then show ?thesis using o by simp
    qed
  qed
qed

lemma once_outcome:
  assumes "once text operation s = (r, s')"
  shows "isl r \<and> sv_files s' = sv_files s \<or> (\<exists>s0 s1. sv_files s0 = sv_files s \<and> operation s0 = (r, s1) \<and> sv_files s' = sv_files s1)"
proof -
  obtain z s1 where z: "connection s = (z, s1)" by fastforce
  show ?thesis
  proof (cases z)
    case (Inl e)
    then show ?thesis using assms z connection_files [OF z] by (auto simp: once_def)
  next
    case (Inr u)
    obtain q s2 where q: "operation s1 = (q, s2)" by fastforce
    have "r = q \<and> sv_files s' = sv_files s2" using assms z Inr q by (cases q) (auto simp: once_def)
    then show ?thesis using connection_files [OF z] q by blast
  qed
qed

abbreviation sftp_size_of :: "sftp_config \<Rightarrow> bytes \<Rightarrow> u64" where
  "sftp_size_of cf \<equiv> (\<lambda>b. if sc_sizes cf then word_of_nat (length b) else 0)"

lemma stat_operation_outcome:
  assumes "stat_operation sizes p s = (r, s')"
  shows "sv_files s' = sv_files s \<and> (\<forall>x. r = Inr x \<longrightarrow> x = map_option (\<lambda>b. if sizes then word_of_nat (length b) else 0) (sv_files s' p))"
  using assms
  by (auto simp: stat_operation_def request_def Let_def serve_stat_def sftp_error_def io_not_found_def
      split: list.splits fate.splits option.splits if_splits sftp_failure.splits net_failure.splits)

lemma fsync_operation_files: "fsync_operation supported p s = (r, s') \<Longrightarrow> sv_files s' = sv_files s"
proof -
  assume a: "fsync_operation supported p s = (r, s')"
  obtain z1 s1 where z1: "request ''open for fsync'' (serve_open p) s = (z1, s1)" by fastforce
  obtain z2 s2 where z2: "request ''fsync'' (\<lambda>files. (Inr (), files)) s1 = (z2, s2)" by fastforce
  obtain z3 s3 where z3: "request ''close'' (\<lambda>files. (Inr (), files)) s2 = (z3, s3)" by fastforce
  have "sv_files s1 = sv_files s" using request_outcome [OF z1, unfolded serve_open_def, OF refl] by auto
  moreover have "sv_files s2 = sv_files s1" "sv_files s3 = sv_files s2"
    using request_outcome [OF z2 refl] request_outcome [OF z3 refl] by auto
  ultimately show ?thesis using a z1 z2 z3 by (cases z1) (auto simp: fsync_operation_def split: if_splits)
qed

interpretation sftp: remote "sftp_ops cf tx" sv_files "sftp_size_of cf" for cf tx
proof
  fix p s s' and r :: "u64 option res"
  assume "ro_size (sftp_ops cf tx) p s = (r, s')"
  then have "run_with tx ''stat'' (stat_operation (sc_sizes cf) p) retry_attempts None s = (r, s')" by (simp add: sftp_ops_def sftp_size_def)
  from run_with_rel [of _ "(=)" "\<lambda>x F. x = map_option (sftp_size_of cf) (F p)", OF _ _ _ this]
  show "sv_files s' = sv_files s \<and> (\<forall>x. r = Inr x \<longrightarrow> x = map_option (sftp_size_of cf) (sv_files s p))"
    using stat_operation_outcome by fastforce
next
  fix p s s' and r' :: "bool res"
  assume "ro_sync (sftp_ops cf tx) p s = (r', s')"
  then have "run_with tx ''fsync'' (fsync_operation (sc_fsync cf) p) retry_attempts None s = (r', s')" by (simp add: sftp_ops_def sftp_sync_def)
  from run_with_rel [of _ "(=)" "\<lambda>_ _. True", OF _ _ _ this]
  show "sv_files s' = sv_files s" using fsync_operation_files by fastforce
next
  fix a b s s' and u :: "unit res"
  assume "ro_rename (sftp_ops cf tx) a b s = (u, s')"
  then have "once tx (request ''rename'' (serve_rename a b)) s = (u, s')" by (simp add: sftp_ops_def sftp_rename_def)
  from once_outcome [OF this] consider "isl u" "sv_files s' = sv_files s"
    | s0 s1 where "sv_files s0 = sv_files s" "request ''rename'' (serve_rename a b) s0 = (u, s1)" "sv_files s' = sv_files s1" by blast
  then show "sv_files s' = sv_files s \<and> u \<noteq> Inr () \<or> moved True a b (sv_files s) (sv_files s')"
  proof cases
    case 1
    then show ?thesis by auto
  next
    case 2
    obtain q F where q: "serve_rename a b (sv_files s0) = (q, F)" by fastforce
    then have "isl q \<and> F = sv_files s0 \<or> moved True a b (sv_files s0) F"
      by (auto simp: serve_rename_def moved_def split: option.splits if_splits)
    then show ?thesis using request_outcome [OF 2(2) q] 2(1,3) by (cases q) auto
  qed
next
  fix a b s s' and v :: "bool res"
  assume "ro_rename_over (sftp_ops cf tx) a b s = (v, s')"
  then have "once tx (\<lambda>s. if \<not> sc_posix_rename cf then (Inr False, s)
       else st_bind (posix_rename a b s) (\<lambda>_ s. (Inr True, s))) s = (v, s')" by (simp add: sftp_ops_def sftp_rename_over_def)
  from once_outcome [OF this] consider "isl v" "sv_files s' = sv_files s"
    | s0 s1 where "sv_files s0 = sv_files s" "(if \<not> sc_posix_rename cf then (Inr False, s0)
       else st_bind (posix_rename a b s0) (\<lambda>_ s. (Inr True, s))) = (v, s1)" "sv_files s' = sv_files s1" by blast
  then show "sv_files s' = sv_files s \<and> v \<noteq> Inr True \<or> moved False a b (sv_files s) (sv_files s') \<and> v \<noteq> Inr False"
  proof cases
    case 1
    then show ?thesis by auto
  next
    case 2
    obtain z s2 where z: "posix_rename a b s0 = (z, s2)" by fastforce
    have "isl z \<and> sv_files s2 = sv_files s0 \<or> moved False a b (sv_files s0) (sv_files s2)"
    proof (cases "2 ^ 32 \<le> length a \<or> 2 ^ 32 \<le> length b")
      case True
      then show ?thesis using z by (auto simp: posix_rename_def)
    next
      case False
      obtain q F where q: "serve_posix_rename a b (sv_files s0) = (q, F)" by fastforce
      have r: "request ''posix-rename'' (serve_posix_rename a b) s0 = (z, s2)" using z False by (simp add: posix_rename_def)
      have "isl q \<and> F = sv_files s0 \<or> moved False a b (sv_files s0) F"
        using q by (auto simp: serve_posix_rename_def moved_def split: option.splits)
      then show ?thesis using request_outcome [OF r q] by (cases q) auto
    qed
    then show ?thesis using 2 z by (cases z) (auto split: if_splits)
  qed
next
  fix p s s' and u :: "unit res"
  assume "ro_remove (sftp_ops cf tx) p s = (u, s')"
  then have run: "run_with tx ''delete'' (request ''delete'' (serve_remove p)) retry_attempts None s = (u, s')" by (simp add: sftp_ops_def sftp_remove_def)
  have step: "sv_files t' = sv_files t \<or> sv_files t' = (sv_files t)(p := None)" if "request ''delete'' (serve_remove p) t = (w, t')" for t t' w
    using that by (auto simp: request_def Let_def serve_remove_def split: list.splits fate.splits option.splits)
  from run_with_rel [of _ "\<lambda>F F'. F' = F \<or> F' = F(p := None)" "\<lambda>_ _. True", OF _ _ _ run]
  show "sv_files s' = sv_files s \<or> sv_files s' = (sv_files s)(p := None)" using step by fastforce
qed


section \<open>Few enough failures\<close>

definition passing :: "fate \<Rightarrow> bool" where
  "passing f = (case f of Served \<Rightarrow> True | Refused e \<Rightarrow> (\<forall>what. e \<noteq> OtherFailure what) | Unanswered e \<Rightarrow> (\<forall>what. e \<noteq> OtherFailure what))"

text \<open>All failures to come are failures of the transport.\<close>

definition calm :: "(lr_error \<Rightarrow> string) \<Rightarrow> sftp_session \<Rightarrow> bool" where
  "calm tx s \<longleftrightarrow> (\<forall>f \<in> set (sv_fates s). passing f) \<and> (\<forall>e. Some e \<in> set (sv_connects s) \<longrightarrow> is_transient tx e)"

definition faults :: "sftp_session \<Rightarrow> nat" where
  "faults s = length (filter (\<lambda>f. f \<noteq> Served) (sv_fates s)) + length (filter (\<lambda>c. c \<noteq> None) (sv_connects s))"

definition failed_once :: "(lr_error \<Rightarrow> string) \<Rightarrow> sftp_session \<Rightarrow> 'a res \<Rightarrow> sftp_session \<Rightarrow> bool" where
  "failed_once tx s r s' \<longleftrightarrow> (\<exists>e. r = Inl e \<and> is_transient tx e) \<and> faults s' < faults s"

lemma drop_connection_calm [simp]: "calm tx (drop_connection s) = calm tx s" "faults (drop_connection s) = faults s"
  by (simp_all add: drop_connection_def calm_def faults_def)

lemma connection_calm:
  assumes "connection s = (r, s')" "calm tx s"
  shows "calm tx s' \<and> (r = Inr () \<and> faults s' \<le> faults s \<or> failed_once tx s r s')"
  using assms by (auto simp: connection_def calm_def faults_def failed_once_def split: if_splits list.splits option.splits)

lemma passing_transient:
  "passing (Refused e) \<Longrightarrow> is_transient tx (sftp_error ctx (Net e))" "passing (Unanswered e) \<Longrightarrow> is_transient tx (sftp_error ctx (Net e))"
  by (cases e; auto simp: passing_def sftp_error_def is_transient_def transient_kinds_def)+

lemma request_calm:
  assumes "request ctx serve s = (r, s')" "calm tx s" "serve (sv_files s) = (q, F)"
  shows "calm tx s' \<and> (r = map_sum (sftp_error ctx) id q \<and> sv_files s' = F \<and> faults s' \<le> faults s \<or> failed_once tx s r s')"
  using assms by (auto simp: request_def Let_def calm_def faults_def failed_once_def passing_transient split: list.splits fate.splits)

lemma run_with_completes:
  assumes "\<And>s r s'. operation s = (r, s') \<Longrightarrow> calm tx s \<Longrightarrow> sv_files s = F \<Longrightarrow>
      calm tx s' \<and> sv_files s' = F \<and> (\<not> isl r \<and> faults s' \<le> faults s \<or> failed_once tx s r s')"
  shows "calm tx s \<Longrightarrow> sv_files s = F \<Longrightarrow> faults s < k \<Longrightarrow>
    \<exists>x s'. run_with tx label operation k latest s = (Inr x, s') \<and> calm tx s' \<and> sv_files s' = F \<and> faults s' \<le> faults s"
proof (induction k arbitrary: s latest)
  case (Suc k)
  obtain z s1 where z: "connection s = (z, s1)" by fastforce
  note c1 = connection_calm [OF z Suc.prems(1)] connection_files [OF z]
  show ?case
  proof (cases z)
    case (Inl e)
    then have "calm tx s1" "sv_files s1 = F" "faults s1 < k" "faults s1 \<le> faults s" using c1 Suc.prems by (auto simp: failed_once_def)
    then show ?thesis using Suc.IH [of s1 "Some e"] z Inl by (auto intro: order_trans)
  next
    case (Inr u)
    obtain q s2 where q: "operation s1 = (q, s2)" by fastforce
    have f1: "calm tx s1" "sv_files s1 = F" "faults s1 \<le> faults s" using c1 Suc.prems Inr by (auto simp: failed_once_def)
    note o = assms [OF q f1(1,2)]
    show ?thesis
    proof (cases q)
      case inr: (Inr x)
      then show ?thesis using z Inr q o f1 by (auto simp: failed_once_def)
    next
      case (Inl e)
      have k: "is_transient tx e" "faults s2 < faults s1" using o Inl by (auto simp: failed_once_def)
      then have "faults (drop_connection s2) < k" "k \<noteq> 0" using f1(3) Suc.prems(3) by auto
      then obtain x s' where "run_with tx label operation k (Some e) (drop_connection s2) = (Inr x, s')" "calm tx s'" "sv_files s' = F"
          "faults s' \<le> faults s2"
        using Suc.IH [of "drop_connection s2" "Some e"] o by auto
      then show ?thesis using z Inr q Inl k \<open>k \<noteq> 0\<close> f1(3) by auto
    qed
  qed
qed simp

lemma sftp_size_completes:
  assumes "calm tx s" "faults s < retry_attempts"
  shows "\<exists>s'. ro_size (sftp_ops cf tx) p s = (Inr (map_option (sftp_size_of cf) (sv_files s p)), s')
    \<and> calm tx s' \<and> sv_files s' = sv_files s \<and> faults s' \<le> faults s"
proof -
  have "\<exists>x s'. run_with tx ''stat'' (stat_operation (sc_sizes cf) p) retry_attempts None s = (Inr x, s')
      \<and> calm tx s' \<and> sv_files s' = sv_files s \<and> faults s' \<le> faults s"
  proof (rule run_with_completes [OF _ assms(1) refl assms(2)])
    fix t r t'
    assume st: "stat_operation (sc_sizes cf) p t = (r, t')" "calm tx t" "sv_files t = sv_files s"
    obtain z t1 where z: "request ''stat'' (serve_stat (sc_sizes cf) p) t = (z, t1)" by fastforce
    have t: "t' = t1" "r = (case z of Inr n \<Rightarrow> Inr (Some n) | Inl e \<Rightarrow> if e = io_not_found then Inr None else Inl e)"
      using st(1) z by (auto simp: stat_operation_def split: sum.splits)
    obtain q F where q: "serve_stat (sc_sizes cf) p (sv_files t) = (q, F)" by fastforce
    have "\<not> is_transient tx io_not_found" by (simp add: is_transient_def io_not_found_def transient_kinds_def)
    then have "\<not> isl r \<and> faults t' \<le> faults t \<or> failed_once tx t r t'"
      using request_calm [OF z st(2) q] t q
      by (auto simp: failed_once_def serve_stat_def sftp_error_def split: sum.splits option.splits)
    then show "calm tx t' \<and> sv_files t' = sv_files s \<and> (\<not> isl r \<and> faults t' \<le> faults t \<or> failed_once tx t r t')"
      using request_calm [OF z st(2) q] stat_operation_outcome [OF st(1)] st(3) t(1) by auto
  qed
  then obtain x s' where r: "ro_size (sftp_ops cf tx) p s = (Inr x, s')" "calm tx s'" "faults s' \<le> faults s"
    by (auto simp: sftp_ops_def sftp_size_def)
  then show ?thesis using sftp.stat [OF r(1)] by auto
qed

lemma sftp_sync_completes:
  assumes "calm tx s" "faults s < retry_attempts" "sv_files s p \<noteq> None"
  shows "\<exists>d s'. ro_sync (sftp_ops cf tx) p s = (Inr d, s') \<and> calm tx s' \<and> sv_files s' = sv_files s \<and> faults s' \<le> faults s"
proof -
  have "\<exists>x s'. run_with tx ''fsync'' (fsync_operation (sc_fsync cf) p) retry_attempts None s = (Inr x, s')
      \<and> calm tx s' \<and> sv_files s' = sv_files s \<and> faults s' \<le> faults s"
  proof (rule run_with_completes [OF _ assms(1) refl assms(2)])
    fix t r t'
    assume st: "fsync_operation (sc_fsync cf) p t = (r, t')" "calm tx t" "sv_files t = sv_files s"
    obtain z1 t1 where z1: "request ''open for fsync'' (serve_open p) t = (z1, t1)" by fastforce
    obtain z2 t2 where z2: "request ''fsync'' (\<lambda>files. (Inr (), files)) t1 = (z2, t2)" by fastforce
    obtain z3 t3 where z3: "request ''close'' (\<lambda>files. (Inr (), files)) t2 = (z3, t3)" by fastforce
    have c1: "calm tx t1 \<and> (z1 = Inr () \<and> faults t1 \<le> faults t \<or> failed_once tx t z1 t1)"
      using request_calm [OF z1 st(2), unfolded serve_open_def, OF refl] assms(3) st(3) by (auto split: option.splits)
    then have c2: "calm tx t2 \<and> (z2 = Inr () \<and> faults t2 \<le> faults t1 \<or> failed_once tx t1 z2 t2)"
      using request_calm [OF z2 _ refl, of tx] by auto
    then have c3: "calm tx t3 \<and> faults t3 \<le> faults t2"
      using request_calm [OF z3 _ refl, of tx] by (auto simp: failed_once_def)
    have "calm tx t' \<and> (\<not> isl r \<and> faults t' \<le> faults t \<or> failed_once tx t r t')"
    proof (cases "sc_fsync cf")
      case False
      then show ?thesis using st by (auto simp: fsync_operation_def)
    next
      case True
      then show ?thesis using st(1) z1 z2 z3 c1 c2 c3 by (cases z1; cases z2) (auto simp: fsync_operation_def failed_once_def)
    qed
    then show "calm tx t' \<and> sv_files t' = sv_files s \<and> (\<not> isl r \<and> faults t' \<le> faults t \<or> failed_once tx t r t')"
      using fsync_operation_files [OF st(1)] st(3) by simp
  qed
  then show ?thesis by (simp add: sftp_ops_def sftp_sync_def)
qed

lemma rename_attempt_calm:
  assumes "rename_attempt (sftp_ops cf tx) a b s = (r, s')" "calm tx s" "sv_files s a \<noteq> None" "sv_files s b = None"
  shows "calm tx s' \<and> (r = Inr True \<and> faults s' \<le> faults s \<or> failed_once tx s r s')"
proof -
  obtain z s1 where z: "connection s = (z, s1)" by fastforce
  note c1 = connection_calm [OF z assms(2)] connection_files [OF z]
  show ?thesis
  proof (cases z)
    case (Inl e)
    then show ?thesis using assms(1) z c1 by (auto simp: rename_attempt_def sftp_ops_def sftp_rename_def once_def failed_once_def)
  next
    case (Inr u)
    obtain q s2 where q: "request ''rename'' (serve_rename a b) s1 = (q, s2)" by fastforce
    have "calm tx s1" using c1 by simp
    from request_calm [OF q this, unfolded serve_rename_def] c1 assms(3,4)
    have c2: "calm tx s2 \<and> (q = Inr () \<and> faults s2 \<le> faults s1 \<or> failed_once tx s1 q s2)" by auto
    then show ?thesis using assms(1) z Inr q c1
      by (cases q) (auto simp: rename_attempt_def sftp_ops_def sftp_rename_def once_def failed_once_def)
  qed
qed

lemma renamed_with_completes:
  assumes "k \<le> retry_attempts" "F a = Some c" "F b = None" "n = sftp_size_of cf c"
  shows "calm tx s \<Longrightarrow> faults s < k \<Longrightarrow> sv_files s = F \<Longrightarrow>
    \<exists>s'. renamed_with (sftp_ops cf tx) tx a b n k (rename_attempt (sftp_ops cf tx) a b) s = (Inr True, s')"
  using assms(1)
proof (induction k arbitrary: s)
  case (Suc k)
  obtain z s1 where z: "rename_attempt (sftp_ops cf tx) a b s = (z, s1)" by fastforce
  have c: "calm tx s1 \<and> (z = Inr True \<and> faults s1 \<le> faults s \<or> failed_once tx s z s1)"
    using rename_attempt_calm [OF z Suc.prems(1)] Suc.prems(3) assms(2,3) by simp
  show ?case
  proof (cases z)
    case (Inr v)
    then show ?thesis using z c by (auto simp: failed_once_def)
  next
    case (Inl e)
    have t: "is_transient tx e" "faults s1 < k" "faults s1 < retry_attempts" "0 < k" using c Inl Suc.prems(2,4) by (auto simp: failed_once_def)
    obtain s2 where s2: "ro_size (sftp_ops cf tx) a s1 = (Inr (map_option (sftp_size_of cf) (sv_files s1 a)), s2)"
        "calm tx s2" "sv_files s2 = sv_files s1" "faults s2 \<le> faults s1"
      using sftp_size_completes [of tx s1 cf a] c t(3) by blast
    obtain s3 where s3: "ro_size (sftp_ops cf tx) b s2 = (Inr (map_option (sftp_size_of cf) (sv_files s1 b)), s3)"
        "calm tx s3" "sv_files s3 = sv_files s1" "faults s3 \<le> faults s1"
      using sftp_size_completes [of tx s2 cf b] s2 t(3) by auto
    have m: "sv_files s1 = F \<or> moved True a b F (sv_files s1)"
      using sftp.renames_attempt [where a = a and b = b] z Suc.prems(3) unfolding sftp.renames_def by blast
    show ?thesis
    proof (cases "sv_files s1 = F")
      case True
      then show ?thesis using z Inl s2(1) s3 t assms(2,3) Suc.IH [of s3] Suc.prems(4) by auto
    next
      case False
      then have "sv_files s1 a = None" "sv_files s1 b = Some c" using m assms(2,3) by (auto simp: moved_def)
      then show ?thesis using z Inl s2(1) s3(1) assms(4) by simp
    qed
  qed
qed simp

section \<open>Properties\<close>

text \<open>C16. Publishing an image never replaces and never loses anything.  Whatever becomes of the requests - every
  rename may have happened although its reply was lost - the server afterwards holds either what it held before,
  or the same with the temporary file moved to a name that was free; when success is reported it is the latter.
  While fewer requests fail than there are attempts, and only because of the transport, an image whose name is
  free is published.\<close>

theorem publish_new_exact:
  assumes "sftp_publish_new cf tx tmp final_name s = (r, s')"
  shows "(sv_files s' = sv_files s \<and> isl r \<or> moved True (file_path cf tmp) (file_path cf final_name) (sv_files s) (sv_files s'))
    \<and> (calm tx s \<and> faults s < retry_attempts \<and> sv_files s (file_path cf tmp) \<noteq> None \<and> sv_files s (file_path cf final_name) = None
        \<longrightarrow> \<not> isl r)"
proof (intro conjI impI)
  let ?R = "sftp_ops cf tx" and ?t = "file_path cf tmp" and ?n = "file_path cf final_name"
  have run: "publish_new_with ?R tx ?t ?n retry_attempts s = (r, s')" using assms by (simp add: sftp_publish_new_def)
  show "sv_files s' = sv_files s \<and> isl r \<or> moved True ?t ?n (sv_files s) (sv_files s')" by (rule sftp.publish_new_outcome [OF run])
  assume a: "calm tx s \<and> faults s < retry_attempts \<and> sv_files s ?t \<noteq> None \<and> sv_files s ?n = None"
  then obtain c where c: "sv_files s ?t = Some c" by blast
  obtain d s1 where s1: "ro_sync ?R ?t s = (Inr d, s1)" "calm tx s1" "sv_files s1 = sv_files s" "faults s1 \<le> faults s"
    using sftp_sync_completes [of tx s ?t cf] a by blast
  then obtain s2 where s2: "ro_size ?R ?t s1 = (Inr (map_option (sftp_size_of cf) (sv_files s1 ?t)), s2)" "calm tx s2" "sv_files s2 = sv_files s"
      "faults s2 \<le> faults s"
    using sftp_size_completes [of tx s1 cf ?t] a by auto
  obtain s3 where "renamed_with ?R tx ?t ?n (sftp_size_of cf c) retry_attempts (rename_attempt ?R ?t ?n) s2 = (Inr True, s3)"
    using renamed_with_completes [OF order_refl c _ refl s2(2) _ s2(3), where b = ?n and cf = cf] a s2(4) by auto
  then show "\<not> isl r" using run s1(1,3) s2(1) c by (auto simp: publish_new_with_def synced_def expected_size_def)
qed

text \<open>C17. Replacing the catalog keeps a copy.  At every end of the operation the new contents are under the
  temporary or the final name, the old contents are under the final name or the name they were moved aside to
  unless the new ones have taken their place, and no other file has changed; success means that the new contents
  are in place.\<close>

theorem replace_keeps_copy:
  assumes "sftp_replace cf tx random tmp final_name s = (r, s')" "tmp \<noteq> final_name"
    and "file_path cf tmp \<notin> aside_names (file_path cf final_name) random"
  shows "both_kept (aside_names (file_path cf final_name) random) (file_path cf tmp) (file_path cf final_name) (sv_files s) (sv_files s')
    \<and> (isl r \<or> sv_files s (file_path cf tmp) \<noteq> None \<and> sv_files s' (file_path cf final_name) = sv_files s (file_path cf tmp)
         \<and> sv_files s' (file_path cf tmp) = None)"
  using sftp.replace_outcome [OF assms(1) [unfolded sftp_replace_def] _ assms(3)] assms(2) by (simp add: file_path_def)

section \<open>An example\<close>

definition demo_sftp :: sftp_config where
  "demo_sftp = \<lparr> sc_root = ''/srv/'', sc_set_name = ''set'', sc_fsync = True, sc_posix_rename = False, sc_sizes = True \<rparr>"

definition demo_session :: "(string \<rightharpoonup> bytes) \<Rightarrow> fate list \<Rightarrow> sftp_session" where
  "demo_session files fates = \<lparr> sv_files = files, sv_connected = True, sv_connects = [], sv_fates = fates \<rparr>"

lemma demo_path: "file_path demo_sftp n = ''/srv/set/'' @ n"
  by (simp add: file_path_def set_path_def demo_sftp_def)

text \<open>The rename of the image happens but its reply is lost.\<close>

theorem publish_new_exact_witness:
  "\<exists>d s'. sftp_publish_new demo_sftp (\<lambda>_. []) ''x.tmp'' ''x'' (demo_session [''/srv/set/x.tmp'' \<mapsto> [1, 2]] [Served, Served, Served, Served, Unanswered ConnectionLost])
     = (Inr d, s') \<and> sv_files s' = [''/srv/set/x'' \<mapsto> [1, 2]]"
proof -
  let ?s = "demo_session [''/srv/set/x.tmp'' \<mapsto> [1, 2]] [Served, Served, Served, Served, Unanswered ConnectionLost]"
  obtain r s' where run: "sftp_publish_new demo_sftp (\<lambda>_. []) ''x.tmp'' ''x'' ?s = (r, s')" by fastforce
  have "calm (\<lambda>_. []) ?s" "faults ?s < retry_attempts"
    by (simp_all add: demo_session_def calm_def passing_def faults_def retry_attempts_def)
  then have "\<not> isl r" "moved True ''/srv/set/x.tmp'' ''/srv/set/x'' (sv_files ?s) (sv_files s')"
    using publish_new_exact [OF run] by (auto simp: demo_path demo_session_def)
  moreover from this(2) have "sv_files s' = [''/srv/set/x'' \<mapsto> [1, 2]]" by (auto simp: moved_def demo_session_def)
  ultimately show ?thesis using run by (cases r) auto
qed

theorem replace_keeps_copy_witness:
  "\<exists>r s'. sftp_replace demo_sftp (\<lambda>_. []) (Inl (Io ''random'')) ''c.tmp'' ''c''
       (demo_session [''/srv/set/c.tmp'' \<mapsto> [1], ''/srv/set/c'' \<mapsto> [2]] []) = (r, s')
     \<and> (sv_files s' ''/srv/set/c.tmp'' = Some [1] \<or> sv_files s' ''/srv/set/c'' = Some [1])"
proof -
  let ?s = "demo_session [''/srv/set/c.tmp'' \<mapsto> [1], ''/srv/set/c'' \<mapsto> [2]] []"
  obtain r s' where run: "sftp_replace demo_sftp (\<lambda>_. []) (Inl (Io ''random'')) ''c.tmp'' ''c'' ?s = (r, s')" by fastforce
  have "both_kept {} ''/srv/set/c.tmp'' ''/srv/set/c'' (sv_files ?s) (sv_files s')"
    using replace_keeps_copy [OF run] by (simp add: aside_names_def demo_path)
  then show ?thesis using run by (auto simp: both_kept_def demo_session_def)
qed

end
