(* ===== verification/File_Manifest.thy ===== *)
theory File_Manifest
  imports Block_Manifest
begin

text \<open>
  \<open>crates/lr-format/src/file_manifest.rs\<close>: the manifest of a file image, a sequence of sections - one entry per
  file-system object, continuations with further chunk references, and hole sections.  A writer is the bytes it
  emits.  The reader of a whole manifest works on a slice, so its loops end with the bytes.  Seconds since the
  epoch are kept as their 64 bits.
\<close>

section \<open>Entries\<close>

definition section_file_entry :: u8 where "section_file_entry = 4"
definition section_file_continuation :: u8 where "section_file_continuation = 5"
definition section_file_holes :: u8 where "section_file_holes = 6"
definition file_kind_regular :: u8 where "file_kind_regular = 1"
definition file_kind_directory :: u8 where "file_kind_directory = 2"
definition file_kind_symlink :: u8 where "file_kind_symlink = 3"
definition file_kind_hardlink :: u8 where "file_kind_hardlink = 4"
definition file_kind_special :: u8 where "file_kind_special = 5"

lemmas file_kind_defs = file_kind_regular_def file_kind_directory_def file_kind_symlink_def file_kind_hardlink_def file_kind_special_def

record xattr =
  xa_name :: bytes
  xa_value :: bytes

record file_entry =
  fe_file_kind :: u8
  fe_mode :: u32
  fe_uid :: u32
  fe_gid :: u32
  fe_mtime_sec :: u64
  fe_mtime_nsec :: u32
  fe_size :: u64
  fe_rdev :: u64
  fe_hardlink_group :: u32
  fe_link_target :: bytes
  fe_path :: bytes
  fe_xattrs :: "xattr list"
  fe_acl :: bytes
  fe_chunk_refs_total :: u64
  fe_chunk_refs_here :: "bytes list"

definition xattr_write :: "xattr \<Rightarrow> bytes res" where
  "xattr_write x =
     res_bind (put_u16_prefixed (xa_name x)) (\<lambda>n.
     res_bind (put_u16_prefixed (xa_value x)) (\<lambda>v. Inr (n @ v)))"

fun write_all_of :: "('a \<Rightarrow> bytes res) \<Rightarrow> 'a list \<Rightarrow> bytes res" where
  "write_all_of f [] = Inr []"
| "write_all_of f (x # xs) = res_bind (f x) (\<lambda>b. res_bind (write_all_of f xs) (\<lambda>bs. Inr (b @ bs)))"

definition file_entry_write :: "file_entry \<Rightarrow> bytes res" where
  "file_entry_write e =
     (if fe_file_kind e < file_kind_regular \<or> fe_file_kind e > file_kind_special then Inl (Corrupt ''unknown file kind '')
      else
        res_bind (put_u32_prefixed (fe_link_target e)) (\<lambda>link_target.
        res_bind (put_u16_prefixed (fe_path e)) (\<lambda>path.
        res_bind (put_u32_prefixed (fe_acl e)) (\<lambda>acl.
        res_bind (write_all_of xattr_write (fe_xattrs e)) (\<lambda>xattrs.
          Inr (put_u16 manifest_ver @ put_u8 section_file_entry @ put_u8 0 @ put_u64 (fe_chunk_refs_total e)
            @ put_u8 (fe_file_kind e) @ put_u32 (fe_mode e) @ put_u32 (fe_uid e) @ put_u32 (fe_gid e)
            @ put_u64 (fe_mtime_sec e) @ put_u32 (fe_mtime_nsec e) @ put_u64 (fe_size e) @ put_u64 (fe_rdev e)
            @ put_u32 (fe_hardlink_group e) @ link_target @ path
            @ put_u32 (if length (fe_xattrs e) < 2 ^ 32 then word_of_nat (length (fe_xattrs e)) else - 1)
            @ acl @ put_u64 (word_of_nat (length (fe_chunk_refs_here e))) @ xattrs @ concat (fe_chunk_refs_here e)))))))"

definition xattr_read :: "(nat \<Rightarrow> ('s, bytes) reader) \<Rightarrow> ('s, xattr) reader" where
  "xattr_read rb =
     rd_bind (reader_u16_prefixed rb) (\<lambda>name. rd_bind (reader_u16_prefixed rb) (\<lambda>v.
       rd_return \<lparr> xa_name = name, xa_value = v \<rparr>))"

definition file_entry_read_body :: "(nat \<Rightarrow> ('s, bytes) reader) \<Rightarrow> ('s, file_entry) reader" where
  "file_entry_read_body rb =
     rd_bind (reader_u64 rb) (\<lambda>chunk_refs_total.
     rd_bind (reader_u8 rb) (\<lambda>file_kind.
     rd_bind (rd_lift (fail_if (\<not> (file_kind_regular \<le> file_kind \<and> file_kind \<le> file_kind_special)) (Corrupt ''unknown file kind ''))) (\<lambda>_.
     rd_bind (reader_u32 rb) (\<lambda>mode.
     rd_bind (reader_u32 rb) (\<lambda>uid.
     rd_bind (reader_u32 rb) (\<lambda>gid.
     rd_bind (reader_u64 rb) (\<lambda>mtime_sec.
     rd_bind (reader_u32 rb) (\<lambda>mtime_nsec.
     rd_bind (reader_u64 rb) (\<lambda>size.
     rd_bind (reader_u64 rb) (\<lambda>rdev.
     rd_bind (reader_u32 rb) (\<lambda>hardlink_group.
     rd_bind (reader_u32_prefixed rb) (\<lambda>link_target.
     rd_bind (reader_u16_prefixed rb) (\<lambda>path.
     rd_bind (reader_u32 rb) (\<lambda>xattr_count.
     rd_bind (reader_u32_prefixed rb) (\<lambda>acl.
     rd_bind (reader_u64 rb) (\<lambda>refs_here.
     rd_bind (read_list (unat xattr_count) (xattr_read rb)) (\<lambda>xattrs.
     rd_bind (read_list (unat refs_here) (reader_bytes rb 32)) (\<lambda>chunk_refs_here.
     rd_bind (rd_lift (fail_if (refs_here > chunk_refs_total) (Corrupt ''file entry carries more references than it declares''))) (\<lambda>_.
       rd_return \<lparr> fe_file_kind = file_kind, fe_mode = mode, fe_uid = uid, fe_gid = gid, fe_mtime_sec = mtime_sec,
         fe_mtime_nsec = mtime_nsec, fe_size = size, fe_rdev = rdev, fe_hardlink_group = hardlink_group,
         fe_link_target = link_target, fe_path = path, fe_xattrs = xattrs, fe_acl = acl,
         fe_chunk_refs_total = chunk_refs_total, fe_chunk_refs_here = chunk_refs_here \<rparr>)))))))))))))))))))"

definition file_entry_read :: "(nat \<Rightarrow> ('s, bytes) reader) \<Rightarrow> ('s, file_entry) reader" where
  "file_entry_read rb =
     rd_bind (reader_u16 rb) (\<lambda>ver.
     rd_bind (rd_lift (fail_if (ver \<noteq> manifest_ver) (Corrupt ''manifest version ''))) (\<lambda>_.
     rd_bind (reader_u8 rb) (\<lambda>kind.
     rd_bind (rd_lift (fail_if (kind \<noteq> section_file_entry) (Corrupt ''expected a file entry, got ''))) (\<lambda>_.
     rd_bind (reader_u8 rb) (\<lambda>_. file_entry_read_body rb)))))"

section \<open>Continuations and holes\<close>

record file_record =
  fr_entry :: file_entry
  fr_holes :: "(u64 \<times> u64) list"

definition write_continuation :: "bytes list \<Rightarrow> bytes" where
  "write_continuation hashes =
     put_u16 manifest_ver @ put_u8 section_file_continuation @ put_u8 0 @ put_u64 (word_of_nat (length hashes)) @ concat hashes"

definition read_continuation :: "(nat \<Rightarrow> ('s, bytes) reader) \<Rightarrow> ('s, bytes list) reader" where
  "read_continuation rb =
     rd_bind (reader_u16 rb) (\<lambda>ver.
     rd_bind (rd_lift (fail_if (ver \<noteq> manifest_ver) (Corrupt ''manifest version ''))) (\<lambda>_.
     rd_bind (reader_u8 rb) (\<lambda>kind.
     rd_bind (rd_lift (fail_if (kind \<noteq> section_file_continuation) (Corrupt ''expected a continuation, got ''))) (\<lambda>_.
     rd_bind (reader_u8 rb) (\<lambda>_.
     rd_bind (reader_u64 rb) (\<lambda>count.
       read_list (unat count) (reader_bytes rb 32)))))))"

definition hole_bytes :: "u64 \<times> u64 \<Rightarrow> bytes" where
  "hole_bytes h = put_u64 (fst h) @ put_u64 (snd h)"

definition hole_read :: "(nat \<Rightarrow> ('s, bytes) reader) \<Rightarrow> ('s, u64 \<times> u64) reader" where
  "hole_read rb = rd_bind (reader_u64 rb) (\<lambda>offset. rd_bind (reader_u64 rb) (\<lambda>len. rd_return (offset, len)))"

definition write_holes :: "(u64 \<times> u64) list \<Rightarrow> bytes" where
  "write_holes holes =
     put_u16 manifest_ver @ put_u8 section_file_holes @ put_u8 0 @ put_u64 (word_of_nat (length holes)) @ concat (map hole_bytes holes)"

definition read_holes :: "(nat \<Rightarrow> ('s, bytes) reader) \<Rightarrow> ('s, (u64 \<times> u64) list) reader" where
  "read_holes rb =
     rd_bind (reader_u16 rb) (\<lambda>ver.
     rd_bind (rd_lift (fail_if (ver \<noteq> manifest_ver) (Corrupt ''manifest version ''))) (\<lambda>_.
     rd_bind (reader_u8 rb) (\<lambda>kind.
     rd_bind (rd_lift (fail_if (kind \<noteq> section_file_holes) (Corrupt ''expected a hole section, got ''))) (\<lambda>_.
     rd_bind (reader_u8 rb) (\<lambda>_.
     rd_bind (reader_u64 rb) (\<lambda>count.
       read_list (unat count) (hole_read rb)))))))"

definition file_refs_per_section :: nat where "file_refs_per_section = 4096"

text \<open>The loop of \<open>write_record\<close>, from \<open>index\<close> with \<open>written\<close> references written.\<close>

function write_continuations :: "bytes list \<Rightarrow> u64 \<Rightarrow> nat \<Rightarrow> nat \<Rightarrow> bytes res" where
  "write_continuations refs tot written index =
     (if written < unat tot then
        (let end = min (index + file_refs_per_section) (length refs) in
         if end \<le> index then Inl (Corrupt ''a file entry declares more references than it carries'')
         else res_bind (write_continuations refs tot (written + (end - index)) end) (\<lambda>rest.
           Inr (write_continuation (slice index end refs) @ rest)))
      else Inr [])"
  by auto
termination
  by (relation "measure (\<lambda>(refs, tot, written, index). unat tot - written)") auto

declare write_continuations.simps [simp del]

definition write_file_record :: "file_record \<Rightarrow> bytes res" where
  "write_file_record r =
     (let refs = fe_chunk_refs_here (fr_entry r); tot = fe_chunk_refs_total (fr_entry r) in
      if length refs > unat tot then Inl (Corrupt ''a file entry carries more references than it declares'')
      else
        res_bind (file_entry_write (fr_entry r)) (\<lambda>entry.
        res_bind (write_continuations refs tot (length refs) (length refs)) (\<lambda>cont.
          Inr (entry @ cont @ (if fr_holes r = [] then [] else write_holes (fr_holes r))))))"

text \<open>A reader over a slice consumes at least \<open>k\<close> bytes.\<close>

definition consumes :: "nat \<Rightarrow> (bytes, 'a) reader \<Rightarrow> bool" where
  "consumes k p \<longleftrightarrow> (\<forall>s x s'. p s = Inr (x, s') \<longrightarrow> length s' + k \<le> length s)"

lemma consumes_bind: "consumes j p \<Longrightarrow> (\<And>x. consumes k (f x)) \<Longrightarrow> consumes (j + k) (rd_bind p f)"
  unfolding consumes_def rd_bind_def by (fastforce simp: res_bind_eq_Inr split: prod.splits)

lemma consumes_basic:
  "consumes 0 (rd_return x)" "consumes 0 (rd_lift r)" "consumes n (cursor_read n)" "consumes n (reader_bytes cursor_read n)"
  by (auto simp: consumes_def rd_return_def rd_lift_def cursor_read_def reader_bytes_def res_bind_eq_Inr split: if_splits)

lemma consumes_ints:
  "consumes 1 (reader_u8 cursor_read)" "consumes 2 (reader_u16 cursor_read)" "consumes 4 (reader_u32 cursor_read)"
  "consumes 8 (reader_u64 cursor_read)"
  using consumes_bind [OF consumes_basic(3) consumes_basic(1)]
  unfolding reader_u8_def reader_u16_def reader_u32_def reader_u64_def by fastforce+

lemma consumes_weaken: "consumes k p \<Longrightarrow> j \<le> k \<Longrightarrow> consumes j p"
  unfolding consumes_def by fastforce

lemma consumes_then: "consumes j p \<Longrightarrow> (\<And>x. consumes 0 (f x)) \<Longrightarrow> consumes j (rd_bind p f)"
  using consumes_bind [of j p 0 f] by simp

lemma consumes_first: "consumes 0 p \<Longrightarrow> (\<And>x. consumes k (f x)) \<Longrightarrow> consumes k (rd_bind p f)"
  using consumes_bind [of 0 p k f] by simp

lemma consumes_list: "consumes 0 p \<Longrightarrow> consumes 0 (read_list n p)"
  by (induction n) (auto intro: consumes_first consumes_basic)

lemmas consumes_0 = consumes_basic(1,2) consumes_ints [THEN consumes_weaken, OF le0] consumes_basic(4) [THEN consumes_weaken, OF le0]

lemma consumes_prefixed: "consumes 0 (reader_u16_prefixed cursor_read)" "consumes 0 (reader_u32_prefixed cursor_read)"
  unfolding reader_u16_prefixed_def reader_u32_prefixed_def by (auto intro: consumes_first consumes_0)

lemma consumes_entry: "consumes 0 (file_entry_read_body cursor_read)"
  unfolding file_entry_read_body_def xattr_read_def
  by (intro consumes_first consumes_0 consumes_prefixed consumes_list)

section \<open>The whole manifest\<close>

definition continuation_section :: "(bytes, bytes list) reader" where
  "continuation_section =
     rd_bind (reader_u16 cursor_read) (\<lambda>ver.
     rd_bind (rd_lift (fail_if (ver \<noteq> manifest_ver) (Corrupt ''manifest version ''))) (\<lambda>_.
     rd_bind (reader_u8 cursor_read) (\<lambda>kind.
     rd_bind (rd_lift (fail_if (kind \<noteq> section_file_continuation) (Corrupt ''expected a continuation, got ''))) (\<lambda>_.
     rd_bind (reader_u8 cursor_read) (\<lambda>_.
     rd_bind (reader_u64 cursor_read) (\<lambda>count.
     rd_bind (rd_lift (fail_if (count = 0) (Corrupt ''an empty continuation section''))) (\<lambda>_.
       read_list (unat count) (reader_bytes cursor_read 32))))))))"

lemma consumes_continuation: "consumes 2 continuation_section"
  unfolding continuation_section_def
  by (rule consumes_then, rule consumes_ints(2)) (intro consumes_first consumes_0 consumes_list)

function read_refs :: "u64 \<Rightarrow> bytes list \<Rightarrow> bytes \<Rightarrow> (bytes list \<times> bytes) res" where
  "read_refs tot refs s =
     (if length refs < unat tot then
        (case continuation_section s of Inl e \<Rightarrow> Inl e | Inr (more_refs, s') \<Rightarrow> read_refs tot (refs @ more_refs) s')
      else Inr (refs, s))"
  by auto
termination
proof (relation "measure (\<lambda>(tot, refs, s). length s)")
  fix tot :: u64 and refs :: "bytes list" and s x more_refs s'
  assume "continuation_section s = Inr x" "(more_refs, s') = x"
  then show "((tot, refs @ more_refs, s'), (tot, refs, s)) \<in> measure (\<lambda>(tot, refs, s). length s)"
    using consumes_continuation unfolding consumes_def by fastforce
qed simp

declare read_refs.simps [simp del]

definition read_file_entry :: "(bytes, file_record) reader" where
  "read_file_entry =
     rd_bind (file_entry_read_body cursor_read) (\<lambda>entry.
     rd_bind (read_refs (fe_chunk_refs_total entry) (fe_chunk_refs_here entry)) (\<lambda>refs.
     rd_bind (rd_lift (fail_if (length refs > unat (fe_chunk_refs_total entry))
         (Corrupt ''continuations carry more references than the entry declares''))) (\<lambda>_.
       rd_return \<lparr> fr_entry = entry\<lparr> fe_chunk_refs_here := refs \<rparr>, fr_holes = [] \<rparr>)))"

definition read_file_holes :: "file_record list \<Rightarrow> (bytes, file_record list) reader" where
  "read_file_holes records =
     rd_bind (reader_u64 cursor_read) (\<lambda>count.
     rd_bind (rd_lift (fail_if (records = []) (Corrupt ''a hole section without a file entry''))) (\<lambda>_.
     rd_bind (read_list (unat count) (hole_read cursor_read)) (\<lambda>holes.
       rd_return (butlast records @ [(last records)\<lparr> fr_holes := fr_holes (last records) @ holes \<rparr>]))))"

definition read_file_section :: "file_record list \<Rightarrow> (bytes, file_record list) reader" where
  "read_file_section records =
     rd_bind (reader_u16 cursor_read) (\<lambda>ver.
     rd_bind (rd_lift (fail_if (ver \<noteq> manifest_ver) (Corrupt ''manifest version ''))) (\<lambda>_.
     rd_bind (reader_u8 cursor_read) (\<lambda>kind.
     rd_bind (reader_u8 cursor_read) (\<lambda>_.
       if kind = section_file_entry then rd_bind read_file_entry (\<lambda>r. rd_return (records @ [r]))
       else if kind = section_file_holes then read_file_holes records
       else rd_lift (Inl (Corrupt ''unknown file manifest section ''))))))"

lemma read_refs_shrinks: "read_refs tot refs s = Inr (r, s') \<Longrightarrow> length s' \<le> length s"
proof (induction tot refs s arbitrary: r rule: read_refs.induct)
  case (1 tot refs s)
  show ?case
  proof (cases "length refs < unat tot")
    case True
    then obtain m s1 where c: "continuation_section s = Inr (m, s1)" "read_refs tot (refs @ m) s1 = Inr (r, s')"
      using "1.prems" by (subst (asm) read_refs.simps) (auto split: sum.splits)
    have "length s1 \<le> length s" using consumes_continuation c(1) unfolding consumes_def by fastforce
    then show ?thesis using "1.IH" [OF True c(1) refl c(2)] by linarith
  next
    case False
    then show ?thesis using "1.prems" by (subst (asm) read_refs.simps) simp
  qed
qed

lemma consumes_section: "consumes 2 (read_file_section records)"
proof -
  have refs: "consumes 0 (read_refs tot refs)" for tot refs using read_refs_shrinks unfolding consumes_def by fastforce
  have entry: "consumes 0 read_file_entry" unfolding read_file_entry_def by (intro consumes_first consumes_0 consumes_entry refs)
  have holes: "consumes 0 (read_file_holes records)"
    unfolding read_file_holes_def hole_read_def by (intro consumes_first consumes_0 consumes_list)
  have push: "consumes 0 (rd_bind read_file_entry (\<lambda>r. rd_return (records @ [r])))" by (intro consumes_first entry consumes_0)
  have "consumes 0 (if k = section_file_entry then rd_bind read_file_entry (\<lambda>r. rd_return (records @ [r]))
       else if k = section_file_holes then read_file_holes records
       else rd_lift (Inl (Corrupt ''unknown file manifest section '')))" for k
    using holes push by (simp add: consumes_basic(2))
  then show ?thesis unfolding read_file_section_def
    by (intro consumes_then [OF consumes_ints(2)] consumes_first consumes_0)
qed

function read_sections :: "file_record list \<Rightarrow> bytes \<Rightarrow> file_record list res" where
  "read_sections records s =
     (if s = [] then Inr records
      else case read_file_section records s of Inl e \<Rightarrow> Inl e | Inr (records', s') \<Rightarrow> read_sections records' s')"
  by auto
termination
proof (relation "measure (\<lambda>(records, s). length s)")
  fix records :: "file_record list" and s x records' s'
  assume "read_file_section records s = Inr x" "(records', s') = x"
  then show "((records', s'), (records, s)) \<in> measure (\<lambda>(records, s). length s)"
    using consumes_section [of records] unfolding consumes_def by fastforce
qed simp

declare read_sections.simps [simp del]

definition read_manifest :: "bytes \<Rightarrow> file_record list res" where
  "read_manifest bs = read_sections [] bs"

section \<open>Reading back\<close>

definition file_record_wf :: "file_record \<Rightarrow> bool" where
  "file_record_wf r \<longleftrightarrow> (\<forall>h \<in> set (fe_chunk_refs_here (fr_entry r)). length h = 32) \<and> length (fe_xattrs (fr_entry r)) < 2 ^ 32
     \<and> length (fr_holes r) < 2 ^ 64"

lemma write_all_of_eq: "write_all_of f xs = Inr bs \<Longrightarrow> bs = concat (map (\<lambda>x. case f x of Inr b \<Rightarrow> b | Inl _ \<Rightarrow> []) xs) \<and> (\<forall>x \<in> set xs. \<exists>b. f x = Inr b)"
  by (induction xs arbitrary: bs) (auto simp: res_bind_eq_Inr)

text \<open>The entry without the four bytes of its section header.\<close>

definition entry_body :: "file_entry \<Rightarrow> bytes \<Rightarrow> bytes \<Rightarrow> bytes \<Rightarrow> bytes \<Rightarrow> bytes" where
  "entry_body e link_target path acl xattrs =
     put_u64 (fe_chunk_refs_total e) @ put_u8 (fe_file_kind e) @ put_u32 (fe_mode e) @ put_u32 (fe_uid e) @ put_u32 (fe_gid e)
     @ put_u64 (fe_mtime_sec e) @ put_u32 (fe_mtime_nsec e) @ put_u64 (fe_size e) @ put_u64 (fe_rdev e)
     @ put_u32 (fe_hardlink_group e) @ link_target @ path @ put_u32 (word_of_nat (length (fe_xattrs e)))
     @ acl @ put_u64 (word_of_nat (length (fe_chunk_refs_here e))) @ xattrs @ concat (fe_chunk_refs_here e)"

context byte_source
begin

lemma xattr_decodes: "xattr_write x = Inr b \<Longrightarrow> decodes rem ok (xattr_read rb) b x"
proof -
  assume "xattr_write x = Inr b"
  then obtain n v where nv: "put_u16_prefixed (xa_name x) = Inr n" "put_u16_prefixed (xa_value x) = Inr v" "b = n @ v"
    by (auto simp: xattr_write_def res_bind_eq_Inr)
  show ?thesis unfolding nv(3) xattr_read_def
    by (rule src_bind_u16_prefixed [OF nv(1)], rule decodes_bind_last [OF src_u16_prefixed [OF nv(2)]], rule decodes_return_eq) simp
qed

lemma entry_body_decodes:
  assumes "put_u32_prefixed (fe_link_target e) = Inr l" "put_u16_prefixed (fe_path e) = Inr p" "put_u32_prefixed (fe_acl e) = Inr a"
    and "write_all_of xattr_write (fe_xattrs e) = Inr x" "length (fe_xattrs e) < 2 ^ 32"
    and "length (fe_chunk_refs_here e) \<le> unat (fe_chunk_refs_total e)" "\<forall>h \<in> set (fe_chunk_refs_here e). length h = 32"
    and "file_kind_regular \<le> fe_file_kind e" "fe_file_kind e \<le> file_kind_special"
  shows "decodes rem ok (file_entry_read_body rb) (entry_body e l p a x) e"
proof -
  have u: "unat (word_of_nat (length (fe_xattrs e)) :: u32) = length (fe_xattrs e)"
    "unat (word_of_nat (length (fe_chunk_refs_here e)) :: u64) = length (fe_chunk_refs_here e)"
    using assms(5) le_unat_u64 [OF assms(6)] by (simp_all add: unat_of_nat_u32 unat_of_nat_u64)
  have xs: "decodes rem ok (read_list (length (fe_xattrs e)) (xattr_read rb)) x (fe_xattrs e)"
  proof -
    have "decodes rem ok (xattr_read rb) (case xattr_write y of Inr b \<Rightarrow> b | Inl _ \<Rightarrow> []) y" if "y \<in> set (fe_xattrs e)" for y
      using write_all_of_eq [OF assms(4)] that xattr_decodes by fastforce
    from decodes_list [OF this] show ?thesis using write_all_of_eq [OF assms(4)] by simp
  qed
  have hs: "decodes rem ok (read_list (length (fe_chunk_refs_here e)) (reader_bytes rb 32)) (concat (fe_chunk_refs_here e)) (fe_chunk_refs_here e)"
    using decodes_list [of "fe_chunk_refs_here e" rem ok "reader_bytes rb 32" "\<lambda>h. h"] assms(7) src_bytes by (simp add: reader_bytes_def)
  have le: "\<not> fe_chunk_refs_total e < word_of_nat (length (fe_chunk_refs_here e))" using assms(6) u(2) by (simp add: word_less_nat_alt)
  show ?thesis
    unfolding file_entry_read_body_def entry_body_def
    apply (rule src_bind(4), rule src_bind(1), rule decodes_bind_lift [where x = "()"])
     apply (simp add: assms(8,9))
    apply (rule src_bind(3), rule src_bind(3), rule src_bind(3), rule src_bind(4), rule src_bind(3), rule src_bind(4), rule src_bind(4),
        rule src_bind(3), rule src_bind_u32_prefixed [OF assms(1)], rule src_bind_u16_prefixed [OF assms(2)], rule src_bind(3),
        rule src_bind_u32_prefixed [OF assms(3)], rule src_bind(4))
    apply (rule decodes_bind, simp only: u(1), rule xs, rule decodes_bind_last, simp only: u(2), rule hs)
    apply (rule decodes_bind_lift [where x = "()"])
     apply (simp add: le)
    by (rule decodes_return_eq) simp
qed

lemma hole_decodes: "decodes rem ok (hole_read rb) (hole_bytes h) h"
  unfolding hole_read_def hole_bytes_def by (intro src_bind(4) decodes_bind_last [OF src_ints(4)] decodes_return_eq) simp

lemma holes_decode: "decodes rem ok (read_list (length hs) (hole_read rb)) (concat (map hole_bytes hs)) hs"
  by (rule decodes_list) (rule hole_decodes)

end

text \<open>\<open>write_record\<close> starts its continuations behind the last reference, so it writes none.\<close>

lemma write_file_record_parts:
  assumes "write_file_record r = Inr bs" "length (fe_xattrs (fr_entry r)) < 2 ^ 32"
  obtains l p a x where "put_u32_prefixed (fe_link_target (fr_entry r)) = Inr l" "put_u16_prefixed (fe_path (fr_entry r)) = Inr p"
    "put_u32_prefixed (fe_acl (fr_entry r)) = Inr a" "write_all_of xattr_write (fe_xattrs (fr_entry r)) = Inr x"
    "unat (fe_chunk_refs_total (fr_entry r)) = length (fe_chunk_refs_here (fr_entry r))"
    "file_kind_regular \<le> fe_file_kind (fr_entry r)" "fe_file_kind (fr_entry r) \<le> file_kind_special"
    "bs = put_u16 manifest_ver @ put_u8 section_file_entry @ put_u8 0 @ entry_body (fr_entry r) l p a x
       @ (if fr_holes r = [] then [] else write_holes (fr_holes r))"
proof -
  let ?e = "fr_entry r"
  have le: "length (fe_chunk_refs_here ?e) \<le> unat (fe_chunk_refs_total ?e)" using assms(1) by (auto simp: write_file_record_def Let_def split: if_splits)
  obtain eb cont where w: "file_entry_write ?e = Inr eb"
      "write_continuations (fe_chunk_refs_here ?e) (fe_chunk_refs_total ?e) (length (fe_chunk_refs_here ?e)) (length (fe_chunk_refs_here ?e)) = Inr cont"
      "bs = eb @ cont @ (if fr_holes r = [] then [] else write_holes (fr_holes r))"
    using assms(1) by (auto simp: write_file_record_def Let_def res_bind_eq_Inr split: if_splits)
  have c: "cont = [] \<and> unat (fe_chunk_refs_total ?e) = length (fe_chunk_refs_here ?e)"
    using w(2) le by (subst (asm) write_continuations.simps) (auto simp: Let_def split: if_splits)
  obtain l p a x where "put_u32_prefixed (fe_link_target ?e) = Inr l" "put_u16_prefixed (fe_path ?e) = Inr p"
      "put_u32_prefixed (fe_acl ?e) = Inr a" "write_all_of xattr_write (fe_xattrs ?e) = Inr x"
      "file_kind_regular \<le> fe_file_kind ?e" "fe_file_kind ?e \<le> file_kind_special"
      "eb = put_u16 manifest_ver @ put_u8 section_file_entry @ put_u8 0 @ entry_body ?e l p a x"
    using w(1) assms(2) by (auto simp: file_entry_write_def entry_body_def res_bind_eq_Inr not_less split: if_splits)
  then show thesis using that [of l p a x] w(3) c by simp
qed

lemma section_head:
  "read_file_section records (put_u16 manifest_ver @ put_u8 k @ put_u8 0 @ s)
   = (if k = section_file_entry then rd_bind read_file_entry (\<lambda>r. rd_return (records @ [r])) s
      else if k = section_file_holes then read_file_holes records s
      else Inl (Corrupt ''unknown file manifest section ''))"
  unfolding read_file_section_def rd_bind_def
  using cursor_decodesD [OF cursor.src_ints(2), of manifest_ver "put_u8 k @ put_u8 0 @ s"]
    cursor_decodesD [OF cursor.src_ints(1), of k "put_u8 0 @ s"] cursor_decodesD [OF cursor.src_ints(1), of 0 s]
  by (simp add: rd_lift_def)

lemma read_sections_step:
  assumes "s = put_u16 manifest_ver @ put_u8 k @ put_u8 0 @ t" "read_file_section records s = Inr (records', s')"
  shows "read_sections records s = read_sections records' s'"
  using assms by (subst read_sections.simps) (simp add: put_u8_def)

lemma read_file_record:
  assumes "write_file_record r = Inr bs" "file_record_wf r"
  shows "read_sections records (bs @ rest) = read_sections (records @ [r]) rest"
proof -
  let ?e = "fr_entry r" and ?h = "if fr_holes r = [] then [] else write_holes (fr_holes r)"
  have wf: "\<forall>h \<in> set (fe_chunk_refs_here ?e). length h = 32" "length (fe_xattrs ?e) < 2 ^ 32" "length (fr_holes r) < 2 ^ 64"
    using assms(2) by (simp_all add: file_record_wf_def)
  obtain l p a x where w: "put_u32_prefixed (fe_link_target ?e) = Inr l" "put_u16_prefixed (fe_path ?e) = Inr p"
      "put_u32_prefixed (fe_acl ?e) = Inr a" "write_all_of xattr_write (fe_xattrs ?e) = Inr x"
      "unat (fe_chunk_refs_total ?e) = length (fe_chunk_refs_here ?e)" "file_kind_regular \<le> fe_file_kind ?e" "fe_file_kind ?e \<le> file_kind_special"
      "bs = put_u16 manifest_ver @ put_u8 section_file_entry @ put_u8 0 @ entry_body ?e l p a x @ ?h"
    by (rule write_file_record_parts [OF assms(1) wf(2)])
  have body: "file_entry_read_body cursor_read (entry_body ?e l p a x @ t) = Inr (?e, t)" for t
    using cursor_decodesD [OF cursor.entry_body_decodes [OF w(1-4) wf(2) _ wf(1) w(6,7)]] w(5) by simp
  have refs: "read_refs (fe_chunk_refs_total ?e) (fe_chunk_refs_here ?e) t = Inr (fe_chunk_refs_here ?e, t)" for t
    by (subst read_refs.simps) (simp add: w(5))
  have "read_file_entry (entry_body ?e l p a x @ ?h @ rest) = Inr (\<lparr> fr_entry = ?e, fr_holes = [] \<rparr>, ?h @ rest)"
    using body [of "?h @ rest"] refs w(5) by (simp add: read_file_entry_def rd_bind_def rd_lift_def rd_return_def)
  then have sec: "read_file_section records (put_u16 manifest_ver @ put_u8 section_file_entry @ put_u8 0 @ entry_body ?e l p a x @ ?h @ rest)
      = Inr (records @ [\<lparr> fr_entry = ?e, fr_holes = [] \<rparr>], ?h @ rest)"
    unfolding section_head by (simp add: rd_bind_def rd_return_def)
  have one: "read_sections records (bs @ rest) = read_sections (records @ [\<lparr> fr_entry = ?e, fr_holes = [] \<rparr>]) (?h @ rest)"
    using read_sections_step [OF refl sec] by (simp only: w(8) append_assoc)
  show ?thesis
  proof (cases "fr_holes r = []")
    case True
    then show ?thesis using one by (cases r) simp
  next
    case False
    have n: "unat (word_of_nat (length (fr_holes r)) :: u64) = length (fr_holes r)" using wf(3) by (rule unat_of_nat_u64)
    have "read_file_holes (records @ [\<lparr> fr_entry = ?e, fr_holes = [] \<rparr>])
        (put_u64 (word_of_nat (length (fr_holes r))) @ concat (map hole_bytes (fr_holes r)) @ rest) = Inr (records @ [r], rest)"
      unfolding read_file_holes_def rd_bind_def
      using cursor_decodesD [OF cursor.src_ints(4), of "word_of_nat (length (fr_holes r))" "concat (map hole_bytes (fr_holes r)) @ rest"]
        cursor_decodesD [OF cursor.holes_decode, of "fr_holes r" rest]
      by (simp add: n rd_lift_def rd_return_def)
    then have "read_file_section (records @ [\<lparr> fr_entry = ?e, fr_holes = [] \<rparr>]) (put_u16 manifest_ver @ put_u8 section_file_holes @ put_u8 0
        @ put_u64 (word_of_nat (length (fr_holes r))) @ concat (map hole_bytes (fr_holes r)) @ rest) = Inr (records @ [r], rest)"
      unfolding section_head by (simp add: section_file_holes_def section_file_entry_def)
    then have "read_sections (records @ [\<lparr> fr_entry = ?e, fr_holes = [] \<rparr>]) (?h @ rest) = read_sections (records @ [r]) rest"
      using False read_sections_step [OF refl] by (simp add: write_holes_def)
    then show ?thesis using one by simp
  qed
qed

lemma read_file_records:
  "write_all_of write_file_record rs = Inr bs \<Longrightarrow> \<forall>r \<in> set rs. file_record_wf r \<Longrightarrow>
   read_sections records (bs @ rest) = read_sections (records @ rs) rest"
proof (induction rs arbitrary: records bs)
  case (Cons r rs)
  then obtain b bs' where b: "write_file_record r = Inr b" "write_all_of write_file_record rs = Inr bs'" "bs = b @ bs'"
    by (auto simp: res_bind_eq_Inr)
  then show ?case using Cons.IH [OF b(2), of "records @ [r]"] Cons.prems read_file_record [OF b(1), of records "bs' @ rest"] by simp
qed simp


section \<open>An example\<close>

definition demo_record :: file_record where
  "demo_record = \<lparr> fr_entry = \<lparr> fe_file_kind = file_kind_regular, fe_mode = 33188, fe_uid = 1000, fe_gid = 1000, fe_mtime_sec = 5,
     fe_mtime_nsec = 7, fe_size = 8192, fe_rdev = 0, fe_hardlink_group = 0, fe_link_target = [], fe_path = [97],
     fe_xattrs = [\<lparr> xa_name = [117], xa_value = [1] \<rparr>], fe_acl = [], fe_chunk_refs_total = 1, fe_chunk_refs_here = [replicate 32 3] \<rparr>,
     fr_holes = [(0, 4096)] \<rparr>"

lemma demo_record_written: "\<exists>bs. write_all_of write_file_record [demo_record, demo_record] = Inr bs"
proof -
  have "write_continuations [replicate 32 3] 1 (Suc 0) (Suc 0) = Inr []" by (subst write_continuations.simps) simp
  then show ?thesis
    by (simp add: demo_record_def write_file_record_def file_entry_write_def xattr_write_def put_u16_prefixed_def put_u32_prefixed_def file_kind_defs)
qed


end
