(* ===== verification/Spec2Isabelle.thy ===== *)
theory Spec2Isabelle
  imports Retention Nbd_Server Daemon_Jobs Whole_Disk Schedule Publish File_Manifest
begin

text \<open>
  LinuxReflect is a backup system for Linux machines.  It writes a disk, a volume or a directory into a chain of
  images - a full image and members that record what changed since - and restores, verifies, exports and prunes
  such chains.  This development models the part of the Rust workspace that decides what ends up in an image and
  what comes back from it, and proves that the two agree.

  \<^bold>\<open>The program and how its parts interact.\<close>  A backup plans (\<open>lr-engine/backup_plan.rs\<close>) which member of which chain
  it writes, asks \<open>lr-fsmap\<close> for the used blocks of the source, turns them into a plan of chunks
  (\<open>lr-blocksource/plan.rs\<close>), reads the chunks of a snapshot and appends each one, compressed and sealed, through
  \<open>ImageWriter\<close> (\<open>lr-format\<close>, \<open>lr-crypto\<close>) to a temporary file, with the manifest in pages of its own.  A restore opens
  the images of a chain with \<open>ImageReader\<close>, walks their manifests side by side (\<open>lr-engine/chain.rs\<close>) and writes each
  chunk to the target; an export answers reads of the same chain over NBD (\<open>lr-export\<close>); retention deletes old
  chains from a destination (\<open>lr-store\<close>) after verifying one it keeps; the daemon (\<open>lr-daemon\<close>) keeps the registry of
  running jobs; a schedule (\<open>lr-engine/schedule.rs\<close>) is a set of systemd units.

  \<^bold>\<open>Theories and sources\<close> (paths below \<open>src/crates/\<close>):

  \<^item> \<open>Prelude\<close>: machine words, the result type \<open>'a res\<close> of fallible functions, byte slices, little-endian integers,
    and the collections of simplification rules the other theories use.
  \<^item> \<open>Core_Types\<close>: \<open>lr-core\<close> - errors, identifiers and their text, consistency levels, image kinds, geometry, names.
  \<^item> \<open>Wire\<close>: \<open>lr-format/wire.rs\<close> and \<open>compress.rs\<close>.  The locale \<open>byte_source\<close> is the contract of the trait \<open>ByteSource\<close>;
    its decoding rules (\<open>decodes\<close>) are the basis of every codec proof, in memory and on page streams.
  \<^item> \<open>Crypto\<close>: \<open>lr-crypto\<close> - AEAD, MACs, nonce counters, pages, key hierarchy, KDF limits.
  \<^item> \<open>Superblock\<close>, \<open>Footer\<close>, \<open>Chunk\<close>, \<open>Extras\<close>, \<open>Block_Manifest\<close>, \<open>Disk_Layout\<close>: \<open>lr-format/sb.rs\<close>, \<open>footer.rs\<close>, \<open>chunk.rs\<close>,
    \<open>extras.rs\<close>, \<open>manifest.rs\<close>, \<open>disk.rs\<close> - records, encoders, decoders, validation, round trips.
  \<^item> \<open>Page_Stream\<close>: \<open>lr-format/stream.rs\<close>.  The locale \<open>page_sink\<close> is what a stream writer needs of the file; the reader
    of pages is a \<open>byte_source\<close>.
  \<^item> \<open>Image_Writer\<close>, \<open>Image_Reader\<close>, \<open>Image_Roundtrip\<close>: \<open>lr-format/writer.rs\<close>, \<open>reader.rs\<close>, \<open>verify.rs\<close>; the writer is an
    interpretation of \<open>page_sink\<close>.
  \<^item> \<open>Extents\<close>, \<open>Chunk_Plan\<close>: \<open>lr-fsmap/extents.rs\<close>, \<open>lib.rs\<close> and \<open>lr-blocksource/plan.rs\<close>.
  \<^item> \<open>Destination\<close>: \<open>lr-store/lib.rs\<close>, \<open>local.rs\<close>.  The locale \<open>destination\<close> is the contract of the trait; the local
    directory, whose calls may fail, interprets it.
  \<^item> \<open>Publish\<close>: \<open>lr-store/publish.rs\<close> and the parts of \<open>sftp.rs\<close> below it.  The locale \<open>remote\<close> is the contract of the trait
    \<open>RemoteOps\<close>; the SFTP session, whose requests may be refused or lose their replies, interprets it.
  \<^item> \<open>File_Manifest\<close>: \<open>lr-format/file_manifest.rs\<close>.
  \<^item> \<open>Catalog\<close>, \<open>Retention\<close>, \<open>Engine_Keys\<close>, \<open>Chain_Walk\<close>: \<open>lr-core/catalog.rs\<close>, \<open>lr-engine/catalog.rs\<close>,
    \<open>retention.rs\<close>, \<open>keys.rs\<close>, \<open>chain.rs\<close>.
  \<^item> \<open>Block_Backup\<close>, \<open>Backup_Plan\<close>, \<open>Block_Image\<close>, \<open>Block_Progress\<close>: the block backup of \<open>lr-engine/backup.rs\<close> and
    \<open>backup_plan.rs\<close> - the chunk loop, the plan, the image from superblock to footer, and that it completes.
  \<^item> \<open>Block_Restore\<close>, \<open>Whole_Disk\<close>: \<open>lr-engine/plan.rs\<close>, \<open>restore.rs\<close>, \<open>whole_disk.rs\<close> and \<open>lr-blocksource/direct.rs\<close> -
    the plan checks, the restore of a chain to a target whose calls may fail, regions, swap headers and the GPT.
  \<^item> \<open>Image_Export\<close>, \<open>Nbd_Server\<close>: \<open>lr-export/backend.rs\<close> and \<open>nbd.rs\<close>.  The locale \<open>block_backend\<close> is the contract of the
    trait \<open>BlockBackend\<close>; the file and the image back ends interpret it, and the protocol is proved over it.
  \<^item> \<open>Daemon_Jobs\<close>: \<open>lr-daemon/jobs.rs\<close>, \<open>status.rs\<close>, \<open>verification.rs\<close>, \<open>progress_bridge.rs\<close>, \<open>shutdown.rs\<close> - one step per
    section under the registry's mutex, an inductive reachability relation and invariants over it.
  \<^item> \<open>Schedule\<close>: \<open>lr-engine/schedule.rs\<close>, \<open>options.rs\<close> - configuration, validation, systemd units and their files.

  This theory holds the two properties that run through all of them: what a full backup saved comes back from a
  restore, and from an NBD export.

  \<^bold>\<open>How code is modelled.\<close>  A struct is a record, an enum a datatype, \<open>u8\<close> to \<open>u64\<close> are words, so arithmetic wraps as it
  does in the release profile, which has no overflow checks; \<open>Result\<close> is \<open>'a res\<close> with the constructors of
  \<open>lr_core::Error\<close> and the constant part of their messages; a function with \<open>&mut self\<close> takes and returns its state,
  also when it fails.  A file is its bytes with a capacity.  System calls that may fail consume a schedule of faults
  (\<open>bt_faults\<close>, \<open>sy_io\<close>, \<open>ns_room\<close>, \<open>ns_stop\<close> and the like) over which the theorems quantify, so an error or a stop may
  happen at every call.  Loops are recursive functions with a termination proof; where a loop need not end
  (\<open>RegionRecord::chunks\<close>, the chunk loop over an arbitrary source) the value is an option, and the theorems say when
  it is \<open>Some\<close>.

  \<^bold>\<open>Parameters.\<close>  Code outside the workspace is an argument: the ciphers, hashes, key derivation and zstd are the record
  \<open>prims\<close>, whose documented laws are \<open>prims_ok\<close>; Argon2, the random source, the clock, the JSON and TOML codecs, CRC32,
  the verifier a retention run calls, the snapshot that is read (\<open>source_ops\<close>), the progress reporter, \<open>systemctl\<close>, and
  the text of a displayed error.  Each law is instantiated by a concrete function in the witnesses (\<open>demo_prims\<close>).
  Nothing is assumed about collisions: where the code compares content hashes, the theorems say so.

  \<^bold>\<open>What is proved.\<close>  Codecs: round trips of the superblock, footer, pages, chunks, block and file manifests, extras and disk headers,
  and that truncated or altered input is an error.  Images: whatever was written reads back, and a file that opens is
  well formed.  Backups: a full backup ends, captures every planned chunk and completes when there is room; a later
  member extends a chain that captures an older state to one that captures the present one.  Restores and exports:
  exactly what the chain resolves to, nothing beyond the source, errors before the first write where the plan check
  can see them.  Catalog, keys, retention: records describe files that exist, keys are recovered, a verified chain
  survives every deletion.  Publication: nothing is replaced or lost, whatever replies are.  Daemon: registry invariants and draining.  Schedules: systemd reads back the argument
  vectors that were rendered.

  \<^bold>\<open>Bounds.\<close>  Image files stay below \<open>sink_limit\<close>, \<open>2 ^ 63\<close> bytes, the largest Linux file offset.  The metadata streams of
  an image hold at most \<open>2 ^ 39\<close> bytes, so that their pages fit the table of 8 MiB a reader accepts.  A device has at most
  \<open>2 ^ 49\<close> bytes: with the smallest chunk of 256 KiB these are fewer than \<open>2 ^ 32\<close> chunks, the number a manifest can count,
  and its manifest spool stays below \<open>2 ^ 38\<close> bytes.  These are hypotheses of the theorems on what the writer produces
  (\<open>backup_job_ok\<close>, \<open>image_fits\<close>); what is said of reading holds for any file, of scanning for any file an offset can
  address.

  \<^bold>\<open>Not modelled.\<close>  The backup of whole disks (it probes partitions and mounts snapshots), file and btrfs-stream images
  (directory traversal, content-defined chunking of an external \<open>btrfs send\<close>), verification receipts and their history,
  SSH itself and the leased lock, mount policy, snapshots, FUSE, the rescue image, the D-Bus service, the command line and the
  graphical interface: they are kernel interfaces, subprocesses or presentation.  The filesystem parsers of \<open>lr-fsmap\<close>
  run external tools.  Zeroising of keys and timing are outside the logic.
\<close>

section \<open>From the device and back\<close>

text \<open>C1. What comes back is what was saved.  A full backup of a device, restored to any target that is
  large enough and whose writes succeed, succeeds, and every byte that the filesystem used is on the target
  again; the chunks the plan did not hold, and everything behind the end of the source, are as they were.\<close>

theorem backup_restore_roundtrip:
  fixes v :: "'r restore_state"
  assumes "prims_ok P" "backup_job_ok S args job dev used plan tmp spool" "sb = ij_superblock job"
    and "rp_parent (ij_plan job) = None" "seq_in_chain sb = 0" "ba_on_bad_sector args = Abort"
    and "write_block_image P S args open_parent job plan tmp spool src = Some (Inr (cnt, f, ft))"
    and "opens_as P (file_data f) (ba_keys args) m"
    and "length dev \<le> length (target_bytes v)" "length (target_bytes v) < 2 ^ 64" "bt_faults (re_target v) = []"
    and "\<forall>off rp. fst (report off rp) = Inr ()"
  shows "\<exists>v'. write_block_chain P report [m] sb v = (Inr (), v') \<and> length (target_bytes v') = length (target_bytes v)
    \<and> (\<forall>k \<in> unat ` covers (em_extents used). target_bytes v' ! k = dev ! k)
    \<and> (\<forall>i < unat (uc_chunk_count plan). (\<forall>r \<in> set (pending_chunks plan). fst r div unat (chunk_size sb) \<noteq> i) \<longrightarrow>
         chunk_bytes (target_bytes v') (chunk_range sb i) = chunk_bytes (target_bytes v) (chunk_range sb i))
    \<and> drop (length dev) (target_bytes v') = drop (length dev) (target_bytes v)"
  by (rule full_backup_restored [OF assms])

text \<open>C2. From the device to the client: the export of a full backup opens, and every client that reads
  ranges the filesystem used receives, over NBD, the bytes the device held when it was backed up.\<close>

theorem nbd_serves_backup:
  assumes "prims_ok P" "backup_job_ok S args job dev used plan tmp spool" "sb = ij_superblock job"
    and "rp_parent (ij_plan job) = None" "seq_in_chain sb = 0" "ba_on_bad_sector args = Abort"
    and "write_block_image P S args open_parent job plan tmp spool src = Some (Inr (cnt, f, ft))"
    and "opens_as P (file_data f) (ba_keys args) m" "sb_is_encrypted sb \<longleftrightarrow> wk_data_key (ba_keys args) \<noteq> None"
    and "\<forall>r \<in> set rs. rq_command r = cmd_read \<and> 0 < rq_length r
      \<and> {unat (rq_offset r)..<unat (rq_offset r) + unat (rq_length r)} \<subseteq> unat ` covers (em_extents used)"
    and "replies = concat (map (\<lambda>r. error_reply 0 (rq_handle r)
      @ slice (unat (rq_offset r)) (unat (rq_offset r) + unat (rq_length r)) dev) rs)"
  shows "\<exists>index b. index_chain P [m] = Inr index \<and> backend_of P sb index [m] = Inr b
    \<and> (\<forall>x. nx_backend x = b \<and> ns_stop (nx_stream x) = [] \<and> ns_in (nx_stream x) = concat (map request_bytes rs)
          \<and> is_disconnect (Io (ns_error (nx_stream x))) \<and> length replies \<le> ns_room (nx_stream x) \<longrightarrow>
        (\<exists>x'. transmission (image_ops P) x = (Inr (), x') \<and> ns_out (nx_stream x') = ns_out (nx_stream x) @ replies))"
proof -
  have dev: "length dev = unat (source_size_bytes sb)" and ext: "\<forall>e \<in> set (em_extents used). snd e < source_size_bytes sb"
    using assms(2,3) by (simp_all add: backup_job_ok_def Let_def)
  obtain index b where b: "index_chain P [m] = Inr index" "backend_of P sb index [m] = Inr b" "ib_ok P b" "ib_size b = source_size_bytes sb"
      "\<forall>k \<in> unat ` covers (em_extents used). ib_byte P b k = Inr (dev ! k)"
    using full_backup_exported [OF assms(1-9)] by blast
  have used: "\<forall>k \<in> unat ` covers (em_extents used). ib_byte P b k = Inr (dev ! k) \<and> k < unat (ib_size b)"
    using b(4,5) ext by (auto simp: covers_def word_less_nat_alt word_le_nat_alt)
  have reply: "concat (map (nbd_reply (ib_byte P b) (unat (ib_size b))) rs) = replies"
    unfolding assms(11) using assms(10) dev b(4)
    by (intro arg_cong [of _ _ concat] map_cong refl used_read_reply [OF used]) auto
  have cmd: "\<forall>r \<in> set rs. rq_command r \<noteq> cmd_disc \<and> rq_command r \<noteq> cmd_write" using assms(10) by (simp add: cmd_defs)
  have "\<exists>x'. transmission (image_ops P) x = (Inr (), x') \<and> ns_out (nx_stream x') = ns_out (nx_stream x) @ replies"
    if x: "nx_backend x = b" "ns_stop (nx_stream x) = []" "ns_in (nx_stream x) = concat (map request_bytes rs)"
      "is_disconnect (Io (ns_error (nx_stream x)))" "length replies \<le> ns_room (nx_stream x)" for x
    using image_dev.session [of P x rs replies] b(3) x cmd reply unfolding image_ops_def by auto
  then show ?thesis using b(1,2) by blast
qed

section \<open>An example\<close>

theorem backup_restore_roundtrip_witness:
  "\<exists>cnt f ft m v'. write_block_image demo_prims demo_source demo_args (\<lambda>_. Inl (Io [])) demo_job demo_plan demo_file demo_spool () = Some (Inr (cnt, f, ft))
     \<and> opens_as demo_prims (file_data f) demo_keys m
     \<and> write_block_chain demo_prims quiet [m] (ij_superblock demo_job) demo_target = (Inr (), v')
     \<and> (\<forall>k \<in> unat ` covers (em_extents demo_used). target_bytes v' ! k = demo_dev ! k)
     \<and> drop 1048576 (target_bytes v') = replicate 4 7"
proof -
  obtain cnt f ft m where run: "write_block_image demo_prims demo_source demo_args (\<lambda>_. Inl (Io [])) demo_job demo_plan demo_file demo_spool ()
      = Some (Inr (cnt, f, ft))" and m: "opens_as demo_prims (file_data f) demo_keys m" by (rule demo_opened)
  have h: "length demo_dev \<le> length (target_bytes demo_target)" "length (target_bytes demo_target) < 2 ^ 64" "\<forall>off rp. fst (quiet off rp) = Inr ()"
    by (simp_all add: demo_target_simps)
  from backup_restore_roundtrip [OF demo_prims_ok demo_job_ok refl demo_job_simps(4,5,3) run m [folded demo_job_simps(1)] h(1,2)
      demo_target_simps(2) h(3)]
  obtain v' where v': "write_block_chain demo_prims quiet [m] (ij_superblock demo_job) demo_target = (Inr (), v')"
    "\<forall>k \<in> unat ` covers (em_extents demo_used). target_bytes v' ! k = demo_dev ! k"
    "drop (length demo_dev) (target_bytes v') = drop (length demo_dev) (target_bytes demo_target)" by (elim exE conjE)
  have "drop 1048576 (target_bytes v') = replicate 4 7" using v'(3) by (simp add: demo_target_simps)
  then show ?thesis using run m v'(1,2) by blast
qed

theorem nbd_serves_backup_witness:
  "\<exists>m index b x'. backend_of demo_prims (ij_superblock demo_job) index [m] = Inr b
     \<and> transmission (image_ops demo_prims) \<lparr> nx_stream = demo_stream (request_bytes (demo_request cmd_read)), nx_backend = b \<rparr> = (Inr (), x')
     \<and> ns_out (nx_stream x') = error_reply 0 7 @ replicate 512 1"
proof -
  obtain cnt f ft m where run: "write_block_image demo_prims demo_source demo_args (\<lambda>_. Inl (Io [])) demo_job demo_plan demo_file demo_spool ()
      = Some (Inr (cnt, f, ft))" and m: "opens_as demo_prims (file_data f) demo_keys m" by (rule demo_opened)
  have reads: "\<forall>r \<in> set [demo_request cmd_read]. rq_command r = cmd_read \<and> 0 < rq_length r
      \<and> {unat (rq_offset r)..<unat (rq_offset r) + unat (rq_length r)} \<subseteq> unat ` covers (em_extents demo_used)"
    unfolding demo_covered by (simp add: demo_request_def)
  have fits: "sb_is_encrypted (ij_superblock demo_job) \<longleftrightarrow> wk_data_key (ba_keys demo_args) \<noteq> None"
    using demo_fits by (simp add: demo_job_simps)
  have data: "concat (map (\<lambda>r. error_reply 0 (rq_handle r)
      @ slice (unat (rq_offset r)) (unat (rq_offset r) + unat (rq_length r)) demo_dev) [demo_request cmd_read]) = error_reply 0 7 @ replicate 512 1"
    by (simp add: demo_request_def demo_dev_def slice_def)
  obtain index b where b: "backend_of demo_prims (ij_superblock demo_job) index [m] = Inr b"
    "\<forall>x. nx_backend x = b \<and> ns_stop (nx_stream x) = [] \<and> ns_in (nx_stream x) = concat (map request_bytes [demo_request cmd_read])
          \<and> is_disconnect (Io (ns_error (nx_stream x))) \<and> length (error_reply 0 7 @ replicate 512 (1 :: u8)) \<le> ns_room (nx_stream x) \<longrightarrow>
        (\<exists>x'. transmission (image_ops demo_prims) x = (Inr (), x') \<and> ns_out (nx_stream x') = ns_out (nx_stream x) @ error_reply 0 7 @ replicate 512 1)"
    using nbd_serves_backup [OF demo_prims_ok demo_job_ok refl demo_job_simps(4,5,3) run m [folded demo_job_simps(1)] fits reads data [symmetric]]
    by blast
  have "\<exists>x'. transmission (image_ops demo_prims) \<lparr> nx_stream = demo_stream (request_bytes (demo_request cmd_read)), nx_backend = b \<rparr> = (Inr (), x')
     \<and> ns_out (nx_stream x') = error_reply 0 7 @ replicate 512 1"
    using b(2) [rule_format, of "\<lparr> nx_stream = demo_stream (request_bytes (demo_request cmd_read)), nx_backend = b \<rparr>"]
    by (simp add: demo_stream_def is_disconnect_def error_reply_def)
  then show ?thesis using b(1) by blast
qed

end
